(* ===== verification/Xv6_Prelude.thy ===== *)
theory Xv6_Prelude
  imports Main "HOL-Library.Word"
begin

unbundle bit_operations_syntax

text \<open>
  Prelude of the xv6 development: the C integer types, byte-addressed objects with
  little-endian access, the outcome of a kernel routine (it returns, panics, goes to
  sleep, or loops for ever), the small state-passing combinators the components are
  written with, and the total-correctness rules \<open>runs\<close> their proofs use.
\<close>

section \<open>C types\<close>

type_synonym uchar = "8 word"
type_synonym ushort = "16 word"
type_synonym uint = "32 word"

text \<open>
  A C object of bytes (a disk block, a string, the physical memory) is a function from
  offsets to bytes. Offsets past the end of an array denote the memory that follows it.
\<close>

type_synonym bytes = "nat \<Rightarrow> uchar"

named_theorems bytes_simps \<open>reading a byte object after writing it\<close>
named_theorems flag_simps \<open>testing, setting and clearing one-bit flags\<close>
named_theorems kdefs \<open>the state-passing combinators\<close>
named_theorems wp \<open>rules for the total-correctness judgement\<close>

definition rd16 :: "bytes \<Rightarrow> nat \<Rightarrow> ushort" where
  "rd16 m a = ucast (m a) OR push_bit 8 (ucast (m (a + 1)))"

definition wr16 :: "bytes \<Rightarrow> nat \<Rightarrow> ushort \<Rightarrow> bytes" where
  "wr16 m a v = m(a := ucast v, a + 1 := ucast (drop_bit 8 v))"

definition rd32 :: "bytes \<Rightarrow> nat \<Rightarrow> uint" where
  "rd32 m a = ucast (m a) OR push_bit 8 (ucast (m (a + 1)))
     OR push_bit 16 (ucast (m (a + 2))) OR push_bit 24 (ucast (m (a + 3)))"

definition wr32 :: "bytes \<Rightarrow> nat \<Rightarrow> uint \<Rightarrow> bytes" where
  "wr32 m a v = m(a := ucast v, a + 1 := ucast (drop_bit 8 v),
     a + 2 := ucast (drop_bit 16 v), a + 3 := ucast (drop_bit 24 v))"

lemma join16:
  "ucast (ucast v :: uchar) OR push_bit 8 (ucast (ucast (drop_bit 8 v) :: uchar)) = (v :: ushort)"
  by (rule bit_word_eqI) (auto simp: bit_simps)

lemma join32:
  "ucast (ucast v :: uchar) OR push_bit 8 (ucast (ucast (drop_bit 8 v) :: uchar))
     OR push_bit 16 (ucast (ucast (drop_bit 16 v) :: uchar))
     OR push_bit 24 (ucast (ucast (drop_bit 24 v) :: uchar)) = (v :: uint)" (is "?bytes = v")
proof (rule bit_word_eqI)
  fix n
  assume "n < LENGTH(32)"
  then consider "n < 8" | "8 \<le> n" "n < 16" | "16 \<le> n" "n < 24" | "24 \<le> n" "n < 32"
    by fastforce
  then show "bit ?bytes n = bit v n"
    by cases (auto simp: bit_simps)
qed

lemma rd16_wr16 [simp, bytes_simps]: "rd16 (wr16 m a v) a = v"
  by (simp add: rd16_def wr16_def join16)

lemma rd32_wr32 [simp, bytes_simps]: "rd32 (wr32 m a v) a = v"
  by (simp add: rd32_def wr32_def join32)

lemma wr32_other [bytes_simps]: "i < a \<or> a + 4 \<le> i \<Longrightarrow> wr32 m a v i = m i"
  by (auto simp: wr32_def)

lemma wr16_other [bytes_simps]: "i < a \<or> a + 2 \<le> i \<Longrightarrow> wr16 m a v i = m i"
  by (auto simp: wr16_def)

lemma rd32_cong: "(\<And>i. a \<le> i \<Longrightarrow> i < a + 4 \<Longrightarrow> m i = m' i) \<Longrightarrow> rd32 m a = rd32 m' a"
  by (simp add: rd32_def)

lemma rd16_cong: "(\<And>i. a \<le> i \<Longrightarrow> i < a + 2 \<Longrightarrow> m i = m' i) \<Longrightarrow> rd16 m a = rd16 m' a"
  by (simp add: rd16_def)

lemma rd32_wr32_other [bytes_simps]:
  "b + 4 \<le> a \<or> a + 4 \<le> b \<Longrightarrow> rd32 (wr32 m a v) b = rd32 m b"
  by (rule rd32_cong) (auto simp: wr32_other)

lemma rd32_wr16_other [bytes_simps]:
  "b + 4 \<le> a \<or> a + 2 \<le> b \<Longrightarrow> rd32 (wr16 m a v) b = rd32 m b"
  by (rule rd32_cong) (auto simp: wr16_other)

lemma rd16_wr16_other [bytes_simps]:
  "b + 2 \<le> a \<or> a + 2 \<le> b \<Longrightarrow> rd16 (wr16 m a v) b = rd16 m b"
  by (rule rd16_cong) (auto simp: wr16_other)

lemma rd16_wr32_other [bytes_simps]:
  "b + 2 \<le> a \<or> a + 4 \<le> b \<Longrightarrow> rd16 (wr32 m a v) b = rd16 m b"
  by (rule rd16_cong) (auto simp: wr32_other)

section \<open>Outcomes of kernel routines\<close>

text \<open>
  What a process sleeps on (the \<open>void *chan\<close> of \<open>sleep\<close> and \<open>wakeup\<close>): the address of a
  buffer, of an inode, of a process, of a pipe's counters, of \<open>ticks\<close> or of \<open>input.r\<close>.
\<close>

datatype chan = ChBuf nat | ChInode nat | ChProc nat | ChPipeRead nat | ChPipeWrite nat
  | ChTicks | ChInput

text \<open>
  A routine returns a value in a new state, panics with a message (the machine stops),
  puts the calling process to sleep, ends the calling process, or spins for ever.
\<close>

datatype ('a, 's) outcome =
    Done 'a 's
  | Panic string
  | Sleep chan 's
  | Exit 's
  | Spin

type_synonym ('s, 'a) K = "'s \<Rightarrow> ('a, 's) outcome"

definition kret :: "'a \<Rightarrow> ('s, 'a) K" where
  "kret a = (\<lambda>s. Done a s)"

definition kbind :: "('s, 'a) K \<Rightarrow> ('a \<Rightarrow> ('s, 'b) K) \<Rightarrow> ('s, 'b) K" where
  "kbind m f = (\<lambda>s. case m s of
       Done a t \<Rightarrow> f a t
     | Panic e \<Rightarrow> Panic e
     | Sleep c t \<Rightarrow> Sleep c t
     | Exit t \<Rightarrow> Exit t
     | Spin \<Rightarrow> Spin)"

definition kseq :: "('s, 'a) K \<Rightarrow> ('s, 'b) K \<Rightarrow> ('s, 'b) K" where
  "kseq m n = kbind m (\<lambda>_. n)"

definition kpanic :: "string \<Rightarrow> ('s, 'a) K" where
  "kpanic e = (\<lambda>s. Panic e)"

definition kspin :: "('s, 'a) K" where
  "kspin = (\<lambda>s. Spin)"

definition kget :: "('s \<Rightarrow> 'a) \<Rightarrow> ('s, 'a) K" where
  "kget f = (\<lambda>s. Done (f s) s)"

definition kmod :: "('s \<Rightarrow> 's) \<Rightarrow> ('s, unit) K" where
  "kmod f = (\<lambda>s. Done () (f s))"

definition kwhen :: "bool \<Rightarrow> ('s, unit) K \<Rightarrow> ('s, unit) K" where
  "kwhen b m = (if b then m else kret ())"

text \<open>A loop over a list of indices, in order: the \<open>for\<close> loops with no early exit.\<close>

primrec kforeach :: "'i list \<Rightarrow> ('i \<Rightarrow> ('s, unit) K) \<Rightarrow> ('s, unit) K" where
  "kforeach [] f = kret ()"
| "kforeach (i # is) f = kseq (f i) (kforeach is f)"

lemmas [kdefs] = kret_def kbind_def kseq_def kpanic_def kspin_def kget_def kmod_def kwhen_def

lemma kbind_Done_iff:
  "kbind m f s = Done b u \<longleftrightarrow> (\<exists>a t. m s = Done a t \<and> f a t = Done b u)"
  by (auto simp: kdefs split: outcome.splits)

lemma kbind_kret [simp]: "kbind (kret a) f = f a"
  by (simp add: kdefs)

lemma kbind_assoc: "kbind (kbind m f) g = kbind m (\<lambda>a. kbind (f a) g)"
  by (auto simp: kdefs split: outcome.splits)

section \<open>Total correctness\<close>

text \<open>\<open>runs m s Q\<close>: started in \<open>s\<close>, the routine \<open>m\<close> returns, and the result satisfies \<open>Q\<close>.\<close>

definition runs :: "('s, 'a) K \<Rightarrow> 's \<Rightarrow> ('a \<Rightarrow> 's \<Rightarrow> bool) \<Rightarrow> bool" where
  "runs m s Q \<longleftrightarrow> (\<exists>a t. m s = Done a t \<and> Q a t)"

lemma runs_kret [wp]: "Q a s \<Longrightarrow> runs (kret a) s Q"
  by (simp add: runs_def kdefs)

lemma runs_kbind [wp]: "runs m s (\<lambda>a t. runs (f a) t Q) \<Longrightarrow> runs (kbind m f) s Q"
  by (auto simp: runs_def kdefs)

lemma runs_kseq [wp]: "runs m s (\<lambda>_ t. runs n t Q) \<Longrightarrow> runs (kseq m n) s Q"
  by (auto simp: runs_def kdefs)

lemma runs_kget [wp]: "Q (f s) s \<Longrightarrow> runs (kget f) s Q"
  by (simp add: runs_def kdefs)

lemma runs_kmod [wp]: "Q () (f s) \<Longrightarrow> runs (kmod f) s Q"
  by (simp add: runs_def kdefs)

lemma runs_kwhen [wp]:
  "(b \<Longrightarrow> runs m s Q) \<Longrightarrow> (\<not> b \<Longrightarrow> Q () s) \<Longrightarrow> runs (kwhen b m) s Q"
  by (auto simp: runs_def kdefs)

lemma runs_if [wp]:
  "(b \<Longrightarrow> runs m s Q) \<Longrightarrow> (\<not> b \<Longrightarrow> runs n s Q) \<Longrightarrow> runs (if b then m else n) s Q"
  by simp

lemma runs_mono: "runs m s Q \<Longrightarrow> (\<And>a t. Q a t \<Longrightarrow> R a t) \<Longrightarrow> runs m s R"
  by (auto simp: runs_def)

lemma runsI: "m s = Done a t \<Longrightarrow> Q a t \<Longrightarrow> runs m s Q"
  by (auto simp: runs_def)

lemma runs_Done: "m s = Done a t \<Longrightarrow> runs m s Q = Q a t"
  by (auto simp: runs_def)

lemma runsE:
  assumes "runs m s Q"
  obtains a t where "m s = Done a t" "Q a t"
  using assms by (auto simp: runs_def)

lemma runs_unitE:
  assumes "runs m s Q"
  obtains t where "m s = Done () t" "Q () t"
  using assms by (auto simp: runs_def)

text \<open>Any claim about the outcome (a panic, a sleep) goes through a part that returns.\<close>

lemma kbind_outcome: "runs m s (\<lambda>a t. P (f a t)) \<Longrightarrow> P (kbind m f s)"
  by (auto simp: runs_def kdefs)

lemma kseq_outcome: "runs m s (\<lambda>_ t. P (n t)) \<Longrightarrow> P (kseq m n s)"
  by (auto simp: runs_def kdefs)

definition returns :: "('a \<Rightarrow> 's \<Rightarrow> bool) \<Rightarrow> ('a, 's) outcome \<Rightarrow> bool" where
  "returns Q x \<longleftrightarrow> (\<exists>a t. x = Done a t \<and> Q a t)"

lemma runs_returns: "runs m s Q \<longleftrightarrow> returns Q (m s)"
  by (simp add: runs_def returns_def)

text \<open>A \<open>for\<close> loop keeps an invariant indexed by how many iterations are done.\<close>

lemma runs_kforeach:
  assumes "I 0 s"
    and "\<And>k t. k < length is \<Longrightarrow> I k t \<Longrightarrow> runs (f (is ! k)) t (\<lambda>_. I (Suc k))"
    and "\<And>t. I (length is) t \<Longrightarrow> Q () t"
  shows "runs (kforeach is f) s Q"
  using assms
proof (induction "is" arbitrary: s I)
  case Nil
  then show ?case by (auto intro: runs_kret)
next
  case (Cons i "is")
  have "runs (f i) s (\<lambda>_. I (Suc 0))"
    using Cons.prems(2)[of 0 s] Cons.prems(1) by simp
  then show ?case
    unfolding kforeach.simps
  proof (rule runs_kseq [OF runs_mono])
    fix a t
    assume "I (Suc 0) t"
    then show "runs (kforeach is f) t Q"
      using Cons.IH [of "\<lambda>k. I (Suc k)" t] Cons.prems(2) [of "Suc _"] Cons.prems(3) by fastforce
  qed
qed

section \<open>Lists, words and flags\<close>

text \<open>The index a linear scan of a table stops at.\<close>

lemma find_upt_Some:
  "find P [0..<n] = Some i \<longleftrightarrow> i < n \<and> P i \<and> (\<forall>j<i. \<not> P j)"
proof
  assume "find P [0..<n] = Some i"
  then show "i < n \<and> P i \<and> (\<forall>j<i. \<not> P j)"
    by (auto simp: find_Some_iff)
next
  assume *: "i < n \<and> P i \<and> (\<forall>j<i. \<not> P j)"
  show "find P [0..<n] = Some i"
    unfolding find_Some_iff using * by (intro exI [of _ i]) auto
qed

lemma find_upt_None: "find P [0..<n] = None \<longleftrightarrow> (\<forall>i<n. \<not> P i)"
  by (auto simp: find_None_iff)

lemma uint_inject [simp]: "uint a = uint b \<longleftrightarrow> a = b"
  by (simp add: word_uint_eq_iff)

lemma uint_bound: "unat (x :: uint) < 4294967296"
proof -
  have "unat x < 2 ^ LENGTH(32)" by (rule unsigned_less)
  then show ?thesis by simp
qed

lemma unat_of_nat_small: "n < 4294967296 \<Longrightarrow> unat (of_nat n :: uint) = n"
  by (simp add: unat_of_nat)

lemma aligned_step:
  assumes "p mod n = 0" "q mod n = 0" "p \<le> q"
  shows "q = p \<or> p + n \<le> (q :: nat)"
proof -
  obtain a b where ab: "p = n * a" "q = n * b"
    using assms(1,2) by (auto simp: mod_eq_0_iff_dvd elim!: dvdE)
  show ?thesis
  proof (cases "b \<le> a")
    case True
    then show ?thesis using assms(3) ab mult_le_mono2 [of b a n] by (intro disjI1) auto
  next
    case False
    then have "n * (a + 1) \<le> n * b" by (intro mult_le_mono2) simp
    then show ?thesis using ab by simp
  qed
qed

lemma word_mod_eq_0: "(x :: uint) mod numeral n = 0 \<longleftrightarrow> unat x mod unat (numeral n :: uint) = 0"
  by (simp add: word_unat_eq_iff unat_mod)

text \<open>A mask \<open>2 ^ k\<close> tests, sets and clears bit \<open>k\<close>.\<close>

lemma mask_test [flag_simps]: "((f :: 'a::len word) AND push_bit k 1 = 0) = (\<not> bit f k)"
  by (metis and_exp_eq_0_iff_not_bit push_bit_of_1)

lemma flag_tests [flag_simps]:
  "((f :: uint) AND 1 = 0) = (\<not> bit f 0)"
  "((f :: uint) AND 2 = 0) = (\<not> bit f (Suc 0))"
  "((f :: uint) AND 4 = 0) = (\<not> bit f 2)"
  using and_exp_eq_0_iff_not_bit [of f 0] and_exp_eq_0_iff_not_bit [of f "Suc 0"]
    and_exp_eq_0_iff_not_bit [of f 2] by simp_all

lemma flag_bits [flag_simps]:
  "bit ((f :: uint) OR 1) 0" "bit (f OR 1) (Suc 0) = bit f (Suc 0)" "bit (f OR 1) 2 = bit f 2"
  "bit (f OR 2) 0 = bit f 0" "bit (f OR 2) (Suc 0)" "bit (f OR 2) 2 = bit f 2"
  "bit (f OR 4) 0 = bit f 0" "bit (f OR 4) (Suc 0) = bit f (Suc 0)" "bit (f OR 4) 2"
  "\<not> bit (f AND NOT 1) 0" "bit (f AND NOT 1) (Suc 0) = bit f (Suc 0)"
  "bit (f AND NOT 1) 2 = bit f 2"
  "bit (f AND NOT 2) 0 = bit f 0" "\<not> bit (f AND NOT 2) (Suc 0)"
  "bit (f AND NOT 2) 2 = bit f 2"
  "bit (f AND NOT 4) 0 = bit f 0" "bit (f AND NOT 4) (Suc 0) = bit f (Suc 0)"
  "\<not> bit (f AND NOT 4) 2"
  "bit (1 :: uint) 0" "\<not> bit (1 :: uint) (Suc 0)" "\<not> bit (1 :: uint) 2"
  by (simp_all add: bit_simps)

lemma flag_bits_minus [flag_simps]:
  "\<not> bit ((f :: uint) AND - 2) 0" "bit (f AND - 2) (Suc 0) = bit f (Suc 0)"
  "bit (f AND - 2) 2 = bit f 2"
  "bit (f AND - 3) 0 = bit f 0" "\<not> bit (f AND - 3) (Suc 0)" "bit (f AND - 3) 2 = bit f 2"
  "bit (f AND - 5) 0 = bit f 0" "bit (f AND - 5) (Suc 0) = bit f (Suc 0)" "\<not> bit (f AND - 5) 2"
  using flag_bits(10-18) [of f] by simp_all

lemma bit_flag_iff: "bit (1 :: uint) n = (n = 0)" "bit (2 :: uint) n = (n = Suc 0)"
  "bit (4 :: uint) n = (n = 2)"
  using bit_exp_iff [of 0 n, where 'a = uint] bit_exp_iff [of 1 n, where 'a = uint]
    bit_exp_iff [of 2 n, where 'a = uint] by (auto simp: possible_bit_def)

lemma valid_clean_iff [flag_simps]:
  "((f :: uint) AND (2 OR 4) = 2) = (bit f (Suc 0) \<and> \<not> bit f 2)"
proof
  assume *: "f AND (2 OR 4) = 2"
  show "bit f (Suc 0) \<and> \<not> bit f 2"
    using arg_cong [OF *, of "\<lambda>w. bit w (Suc 0)"] arg_cong [OF *, of "\<lambda>w. bit w 2"]
    by (simp only: bit_and_iff bit_or_iff bit_flag_iff) auto
next
  assume "bit f (Suc 0) \<and> \<not> bit f 2"
  then show "f AND (2 OR 4) = 2"
    by (intro bit_word_eqI) (auto simp only: bit_and_iff bit_or_iff bit_flag_iff)
qed

lemmas valid_clean_iff6 [flag_simps] = valid_clean_iff [simplified]

end
