(* ===== verification/Spinlock.thy ===== *)
theory Spinlock
  imports Xv6_Prelude
begin

text \<open>
  Spin locks (\<open>kernel/spinlock.c\<close>). The first part models the code on a machine with
  several CPUs: the lock word, the holder recorded in it, and each CPU's interrupt flag
  and \<open>pushcli\<close> nesting; a step relation interleaves the atomic actions of \<open>acquire\<close> and
  \<open>release\<close>. The second part is the view one CPU's sequential code has of the locks, the
  list of the locks it holds, which the other theories use.
\<close>

datatype lock = L_ptable | L_kmem | L_bcache | L_ide | L_icache | L_ftable | L_pipe nat
  | L_tickslock | L_cons | L_input

record spinlock =
  locked :: uint
  lk_cpu :: "nat option"

record cpu =
  ncli :: int
  intena :: bool
  eflags_if :: bool

record smp =
  spin :: "lock \<Rightarrow> spinlock"
  cpus :: "nat \<Rightarrow> cpu"

definition initlock :: "lock \<Rightarrow> (smp, unit) K" where
  "initlock l = kmod (\<lambda>s. s\<lparr>spin := (spin s)(l := \<lparr>locked = 0, lk_cpu = None\<rparr>)\<rparr>)"

definition holding :: "nat \<Rightarrow> lock \<Rightarrow> smp \<Rightarrow> bool" where
  "holding c l s \<longleftrightarrow> locked (spin s l) \<noteq> 0 \<and> lk_cpu (spin s l) = Some c"

definition set_cpu :: "nat \<Rightarrow> cpu \<Rightarrow> smp \<Rightarrow> smp" where
  "set_cpu c k s = s\<lparr>cpus := (cpus s)(c := k)\<rparr>"

definition set_spin :: "lock \<Rightarrow> spinlock \<Rightarrow> smp \<Rightarrow> smp" where
  "set_spin l k s = s\<lparr>spin := (spin s)(l := k)\<rparr>"

definition pushcli :: "nat \<Rightarrow> (smp, unit) K" where
  "pushcli c = kmod (\<lambda>s.
     let k = cpus s c; eflags = eflags_if k
     in set_cpu c (k\<lparr>eflags_if := False, ncli := ncli k + 1,
          intena := (if ncli k = 0 then eflags else intena k)\<rparr>) s)"

definition popcli :: "nat \<Rightarrow> (smp, unit) K" where
  "popcli c = (\<lambda>s.
     let k = cpus s c; k' = k\<lparr>ncli := ncli k - 1\<rparr>
     in if eflags_if k then Panic ''popcli - interruptible''
        else if ncli k' < 0 then Panic ''popcli''
        else if ncli k' = 0 \<and> intena k' then Done () (set_cpu c (k'\<lparr>eflags_if := True\<rparr>) s)
        else Done () (set_cpu c k' s))"

text \<open>The atomic exchange returns the old lock word.\<close>

definition xchg :: "lock \<Rightarrow> uint \<Rightarrow> (smp, uint) K" where
  "xchg l v = (\<lambda>s. Done (locked (spin s l)) (set_spin l ((spin s l)\<lparr>locked := v\<rparr>) s))"

definition set_lk_cpu :: "lock \<Rightarrow> nat option \<Rightarrow> (smp, unit) K" where
  "set_lk_cpu l c = kmod (\<lambda>s. set_spin l ((spin s l)\<lparr>lk_cpu := c\<rparr>) s)"

text \<open>
  \<open>acquire\<close> run without interruption: the exchange loop ends at once if the lock is free,
  and spins for ever otherwise, since nobody else runs.
\<close>

definition acquire_smp :: "nat \<Rightarrow> lock \<Rightarrow> (smp, unit) K" where
  "acquire_smp c l =
     kseq (pushcli c) (
     kbind (kget (holding c l)) (\<lambda>h.
       if h then kpanic ''acquire''
       else kbind (xchg l 1) (\<lambda>old.
         if old \<noteq> 0 then kspin
         else set_lk_cpu l (Some c))))"

definition release_smp :: "nat \<Rightarrow> lock \<Rightarrow> (smp, unit) K" where
  "release_smp c l =
     kbind (kget (holding c l)) (\<lambda>h.
       if \<not> h then kpanic ''release''
       else kseq (set_lk_cpu l None) (
            kseq (xchg l 0) (
            popcli c)))"

section \<open>Interleaving\<close>

text \<open>
  Where a CPU is in the use of one lock: outside, spinning in the exchange loop, past the
  exchange, in the critical section, past clearing the holder, and past the releasing
  exchange. Each step is one atomic action of the code.
\<close>

datatype lpc = Out | Spinning | Won | Critical | Cleared | Popping

record lsys =
  mach :: smp
  pcs :: "nat \<Rightarrow> lock \<Rightarrow> lpc"

definition set_pc :: "nat \<Rightarrow> lock \<Rightarrow> lpc \<Rightarrow> lsys \<Rightarrow> lsys" where
  "set_pc c l p s = s\<lparr>pcs := (pcs s)(c := (pcs s c)(l := p))\<rparr>"

inductive lock_step :: "lsys \<Rightarrow> lsys \<Rightarrow> bool" where
  enter: "pcs s c l = Out \<Longrightarrow> pushcli c (mach s) = Done () m \<Longrightarrow> \<not> holding c l m \<Longrightarrow>
     lock_step s (set_pc c l Spinning (s\<lparr>mach := m\<rparr>))"
| win: "pcs s c l = Spinning \<Longrightarrow> xchg l 1 (mach s) = Done 0 m \<Longrightarrow>
     lock_step s (set_pc c l Won (s\<lparr>mach := m\<rparr>))"
| lose: "pcs s c l = Spinning \<Longrightarrow> xchg l 1 (mach s) = Done v m \<Longrightarrow> v \<noteq> 0 \<Longrightarrow>
     lock_step s (s\<lparr>mach := m\<rparr>)"
| own: "pcs s c l = Won \<Longrightarrow> set_lk_cpu l (Some c) (mach s) = Done () m \<Longrightarrow>
     lock_step s (set_pc c l Critical (s\<lparr>mach := m\<rparr>))"
| clear: "pcs s c l = Critical \<Longrightarrow> holding c l (mach s) \<Longrightarrow>
     set_lk_cpu l None (mach s) = Done () m \<Longrightarrow>
     lock_step s (set_pc c l Cleared (s\<lparr>mach := m\<rparr>))"
| free: "pcs s c l = Cleared \<Longrightarrow> xchg l 0 (mach s) = Done v m \<Longrightarrow>
     lock_step s (set_pc c l Popping (s\<lparr>mach := m\<rparr>))"
| leave: "pcs s c l = Popping \<Longrightarrow> popcli c (mach s) = Done () m \<Longrightarrow>
     lock_step s (set_pc c l Out (s\<lparr>mach := m\<rparr>))"

definition boot_locks :: lsys where
  "boot_locks = \<lparr>mach = \<lparr>spin = (\<lambda>_. \<lparr>locked = 0, lk_cpu = None\<rparr>),
      cpus = (\<lambda>_. \<lparr>ncli = 0, intena = False, eflags_if = True\<rparr>)\<rparr>,
    pcs = (\<lambda>_ _. Out)\<rparr>"

inductive lock_reachable :: "lsys \<Rightarrow> bool" where
  boot: "lock_reachable boot_locks"
| step: "lock_reachable s \<Longrightarrow> lock_step s t \<Longrightarrow> lock_reachable t"

definition owns :: "lpc \<Rightarrow> bool" where
  "owns p \<longleftrightarrow> p = Won \<or> p = Critical \<or> p = Cleared"

text \<open>The locks a CPU is inside of, from \<open>pushcli\<close> to \<open>popcli\<close>.\<close>

definition active :: "lsys \<Rightarrow> nat \<Rightarrow> lock set" where
  "active s c = {l. pcs s c l \<noteq> Out}"

definition word_inv :: "lsys \<Rightarrow> bool" where
  "word_inv s \<longleftrightarrow> (\<forall>l. (locked (spin (mach s) l) \<noteq> 0) = (\<exists>c. owns (pcs s c l)))"

definition excl_inv :: "lsys \<Rightarrow> bool" where
  "excl_inv s \<longleftrightarrow> (\<forall>l c d. owns (pcs s c l) \<longrightarrow> owns (pcs s d l) \<longrightarrow> c = d)"

definition holder_inv :: "lsys \<Rightarrow> bool" where
  "holder_inv s \<longleftrightarrow> (\<forall>l c. (lk_cpu (spin (mach s) l) = Some c) = (pcs s c l = Critical))"

definition cli_inv :: "lsys \<Rightarrow> bool" where
  "cli_inv s \<longleftrightarrow> (\<forall>c. finite (active s c) \<and> ncli (cpus (mach s) c) = int (card (active s c))
     \<and> (active s c \<noteq> {} \<longrightarrow> \<not> eflags_if (cpus (mach s) c)))"

definition lock_inv :: "lsys \<Rightarrow> bool" where
  "lock_inv s \<longleftrightarrow> word_inv s \<and> excl_inv s \<and> holder_inv s \<and> cli_inv s"

lemmas lock_inv_defs = lock_inv_def word_inv_def excl_inv_def holder_inv_def cli_inv_def

lemma lock_inv_boot: "lock_inv boot_locks"
  by (auto simp: lock_inv_defs boot_locks_def owns_def active_def)

lemma pcs_set_pc [simp]:
  "pcs (set_pc c l p s) d k = (if d = c \<and> k = l then p else pcs s d k)"
  by (simp add: set_pc_def)

lemma mach_set_pc [simp]: "mach (set_pc c l p s) = mach s"
  by (simp add: set_pc_def)

lemma active_set_pc:
  "active (set_pc c l p s) d =
     (if d = c then (if p = Out then active s c - {l} else insert l (active s c)) else active s d)"
  by (auto simp: active_def)

lemma active_mach [simp]: "active (s\<lparr>mach := m\<rparr>) = active s"
  by (simp add: active_def fun_eq_iff)

lemmas lock_defs = pushcli_def popcli_def xchg_def set_lk_cpu_def holding_def set_cpu_def
  set_spin_def Let_def kdefs

lemma owns_simps [simp]:
  "owns Won" "owns Critical" "owns Cleared" "\<not> owns Out" "\<not> owns Spinning" "\<not> owns Popping"
  by (simp_all add: owns_def)

text \<open>A step that keeps both the lock word and who owns the lock keeps \<open>word_inv\<close>.\<close>

lemma ex_owns_same:
  assumes "owns p = owns (pcs s c l)"
  shows "(\<exists>d. owns (pcs (set_pc c l p s) d k)) = (\<exists>d. owns (pcs s d k))"
proof (cases "k = l")
  case True
  have "owns (pcs (set_pc c l p s) d k) = owns (pcs s d k)" for d
    using assms True by simp
  then show ?thesis by simp
qed simp

lemma word_inv_same:
  assumes "word_inv s" "owns p = owns (pcs s c l)"
    and "\<And>k. locked (spin m k) = locked (spin (mach s) k)"
  shows "word_inv (set_pc c l p (s\<lparr>mach := m\<rparr>))"
  using assms ex_owns_same [of p "s\<lparr>mach := m\<rparr>" c l] by (simp add: word_inv_def)

lemma owner_unique: "lock_inv s \<Longrightarrow> owns (pcs s c l) \<Longrightarrow> owns (pcs s d l) \<Longrightarrow> c = d"
  by (simp add: lock_inv_def excl_inv_def)

lemma word_inv_step: "lock_step s t \<Longrightarrow> lock_inv s \<Longrightarrow> word_inv t"
proof (induction rule: lock_step.induct)
  case (win s c l m)
  then show ?case by (auto simp: lock_inv_def word_inv_def lock_defs split: if_splits)
next
  case (lose s c l v m)
  then show ?case by (auto simp: lock_inv_def word_inv_def lock_defs split: if_splits)
next
  case (free s c l v m)
  then have "\<not> owns (pcs s d l)" if "d \<noteq> c" for d
    using owner_unique [of s c l d] that by auto
  then show ?case using free by (auto simp: lock_inv_def word_inv_def lock_defs split: if_splits)
qed (auto intro!: word_inv_same simp: lock_inv_def lock_defs split: if_splits)

lemma excl_inv_step: "lock_step s t \<Longrightarrow> lock_inv s \<Longrightarrow> excl_inv t"
proof (induction rule: lock_step.induct)
  case (win s c l m)
  then have "\<not> owns (pcs s d l)" for d
    by (auto simp: lock_inv_def word_inv_def lock_defs)
  then show ?case using win by (auto simp: lock_inv_def excl_inv_def)
qed (auto simp: lock_inv_def excl_inv_def split: if_splits)

lemma holder_inv_step: "lock_step s t \<Longrightarrow> lock_inv s \<Longrightarrow> holder_inv t"
proof (induction rule: lock_step.induct)
  case (own s c l m)
  then have "pcs s d l \<noteq> Critical" for d
    using owner_unique [of s c l d] by (cases "d = c") auto
  then show ?case using own by (auto simp: lock_inv_def holder_inv_def lock_defs split: if_splits)
next
  case (clear s c l m)
  then have "pcs s d l \<noteq> Critical" if "d \<noteq> c" for d
    using owner_unique [of s c l d] that by auto
  then show ?case using clear by (auto simp: lock_inv_def holder_inv_def lock_defs split: if_splits)
qed (auto simp: lock_inv_def holder_inv_def lock_defs split: if_splits)

lemma active_same: "pcs s c l \<noteq> Out \<Longrightarrow> p \<noteq> Out \<Longrightarrow> active (set_pc c l p s) = active s"
  by (auto simp: active_def fun_eq_iff)

lemma cli_inv_same:
  assumes "cli_inv s" "pcs s c l \<noteq> Out" "p \<noteq> Out" "cpus m = cpus (mach s)"
  shows "cli_inv (set_pc c l p (s\<lparr>mach := m\<rparr>))"
  using assms active_same [of "s\<lparr>mach := m\<rparr>" c l p] by (simp add: cli_inv_def)

lemma cli_inv_step: "lock_step s t \<Longrightarrow> lock_inv s \<Longrightarrow> cli_inv t"
proof (induction rule: lock_step.induct)
  case (enter s c l m)
  then have "l \<notin> active s c" by (simp add: active_def)
  then show ?case using enter
    by (auto simp: lock_inv_def cli_inv_def lock_defs active_set_pc)
next
  case (leave s c l m)
  then have l: "l \<in> active s c" "finite (active s c)"
    by (simp_all add: active_def lock_inv_def cli_inv_def)
  then have card: "int (card (active s c - {l})) = int (card (active s c)) - 1"
    using card_Suc_Diff1 [OF l(2,1)] by linarith
  have single: "card (active s c) = Suc 0 \<Longrightarrow> active s c \<subseteq> {l}"
    using l by (auto simp: card_Suc_eq)
  have cpu: "ncli (cpus m c) = ncli (cpus (mach s) c) - 1"
      "eflags_if (cpus m c) \<longrightarrow> ncli (cpus m c) = 0" "\<And>d. d \<noteq> c \<Longrightarrow> cpus m d = cpus (mach s) d"
    using leave(2) by (auto simp: lock_defs split: if_splits)
  have "cli_inv s" using leave by (simp add: lock_inv_def)
  then have "ncli (cpus m c) = int (card (active s c)) - 1"
    by (simp add: cpu(1) cli_inv_def)
  then have noif: "\<not> active s c \<subseteq> {l} \<Longrightarrow> \<not> eflags_if (cpus m c)"
    using single cpu(2) by auto
  have "active (set_pc c l Out (s\<lparr>mach := m\<rparr>)) = (active s)(c := active s c - {l})"
    by (simp add: active_set_pc fun_eq_iff)
  then show ?case
    using \<open>cli_inv s\<close> l(2) card noif unfolding cli_inv_def by (simp add: cpu(1,3))
next
  case (lose s c l v m)
  then have "cpus m = cpus (mach s)" "cli_inv s" by (auto simp: lock_inv_def lock_defs)
  then show ?case by (simp add: cli_inv_def)
qed (auto intro!: cli_inv_same simp: lock_inv_def lock_defs)

lemma lock_step_inv: "lock_step s t \<Longrightarrow> lock_inv s \<Longrightarrow> lock_inv t"
  by (simp add: lock_inv_def [of t] word_inv_step excl_inv_step holder_inv_step cli_inv_step)

lemma lock_reachable_inv: "lock_reachable s \<Longrightarrow> lock_inv s"
  by (induction rule: lock_reachable.induct) (auto intro: lock_inv_boot lock_step_inv)

section \<open>The locks as one CPU's sequential code sees them\<close>

text \<open>
  Code on one CPU holds a list of locks, the last acquired first; its length is
  \<open>cpu->ncli\<close>. Acquiring a held lock or releasing one that is not held panics.
\<close>

record klocks =
  held :: "lock list"

definition acquire :: "lock \<Rightarrow> ('a klocks_scheme, unit) K" where
  "acquire l = (\<lambda>s. if l \<in> set (held s) then Panic ''acquire''
     else Done () (s\<lparr>held := l # held s\<rparr>))"

definition release :: "lock \<Rightarrow> ('a klocks_scheme, unit) K" where
  "release l = (\<lambda>s. if l \<notin> set (held s) then Panic ''release''
     else Done () (s\<lparr>held := remove1 l (held s)\<rparr>))"

text \<open>\<open>initlock\<close> makes the lock free.\<close>

definition lock_init :: "lock \<Rightarrow> ('a klocks_scheme, unit) K" where
  "lock_init l = kmod (\<lambda>s. s\<lparr>held := removeAll l (held s)\<rparr>)"

text \<open>
  The interface: a lock that is free can be acquired, and releasing the lock acquired
  last gives the state back, whatever the section in between did to other fields.
\<close>

locale mutex =
  fixes acq rel :: "lock \<Rightarrow> ('s, unit) K"
    and holds :: "lock \<Rightarrow> 's \<Rightarrow> bool"
    and locks :: "'s \<Rightarrow> lock list"
    and set_locks :: "lock list \<Rightarrow> 's \<Rightarrow> 's"
  assumes acq_free: "\<not> holds l s \<Longrightarrow> acq l s = Done () (set_locks (l # locks s) s)"
    and acq_held: "holds l s \<Longrightarrow> acq l s = Panic ''acquire''"
    and rel_top: "locks s = l # ls \<Longrightarrow> rel l s = Done () (set_locks ls s)"
    and locks_set [simp]: "locks (set_locks ls s) = ls"
    and set_set [simp]: "set_locks ls (set_locks ks s) = set_locks ls s"
begin

lemma section_runs:
  assumes "\<not> holds l s" "locks (f (set_locks (l # locks s) s)) = l # locks s"
  shows "kseq (acq l) (kseq (kmod f) (rel l)) s =
    Done () (set_locks (locks s) (f (set_locks (l # locks s) s)))"
  using acq_free [OF assms(1)] rel_top [OF assms(2)] by (simp add: kdefs)

lemma no_reacquire: "\<not> holds l s \<Longrightarrow> holds l (set_locks (l # locks s) s) \<Longrightarrow>
    kseq (acq l) (acq l) s = Panic ''acquire''"
  by (simp add: kdefs acq_free acq_held)

end

interpretation seq_locks: mutex acquire release "\<lambda>l s. l \<in> set (held s)" held
    "\<lambda>ls s. s\<lparr>held := ls\<rparr>"
  by unfold_locales (auto simp: acquire_def release_def)

lemma runs_acquire [wp]:
  "l \<notin> set (held s) \<Longrightarrow> Q () (s\<lparr>held := l # held s\<rparr>) \<Longrightarrow> runs (acquire l) s Q"
  by (simp add: runs_def acquire_def)

lemma runs_release [wp]:
  "l \<in> set (held s) \<Longrightarrow> Q () (s\<lparr>held := remove1 l (held s)\<rparr>) \<Longrightarrow> runs (release l) s Q"
  by (simp add: runs_def release_def)

lemma runs_lock_init [wp]: "l \<notin> set (held s) \<Longrightarrow> Q () s \<Longrightarrow> runs (lock_init l) s Q"
  by (simp add: runs_def lock_init_def kdefs)

text \<open>
  The list is what CPU \<open>c\<close> holds in the machine of the first part: \<open>lock_view\<close> relates
  the two.
\<close>

definition lock_view :: "nat \<Rightarrow> smp \<Rightarrow> klocks \<Rightarrow> bool" where
  "lock_view c s k \<longleftrightarrow> distinct (held k) \<and> (\<forall>l. l \<in> set (held k) \<longleftrightarrow> holding c l s)
     \<and> ncli (cpus s c) = int (length (held k)) \<and> (held k \<noteq> [] \<longrightarrow> \<not> eflags_if (cpus s c))"

lemma holding_set_spin:
  "holding c k (set_spin l v s) =
     (if k = l then locked v \<noteq> 0 \<and> lk_cpu v = Some c else holding c k s)"
  by (simp add: holding_def set_spin_def)

text \<open>
  C6: on a machine state seen by CPU \<open>c\<close> as the lock list \<open>k\<close>, \<open>acquire\<close> of the code either spins, exactly
  when another CPU has the lock, or does what \<open>acquire\<close> on the list does: both
  panic, or both return in states that again correspond.
\<close>

theorem acquire_refines:
  assumes "lock_view c s k"
  shows "if locked (spin s l) \<noteq> 0 \<and> \<not> holding c l s then acquire_smp c l s = Spin
    else case acquire l k of
      Done u k' \<Rightarrow> \<exists>s'. acquire_smp c l s = Done () s' \<and> lock_view c s' k'
    | Panic e \<Rightarrow> acquire_smp c l s = Panic e
    | _ \<Rightarrow> False"
proof (cases "l \<in> set (held k)")
  case True
  then have "holding c l s" using assms by (simp add: lock_view_def)
  then show ?thesis using True
    by (simp add: acquire_def acquire_smp_def lock_defs)
next
  case False
  then have free: "\<not> holding c l s" using assms by (simp add: lock_view_def)
  show ?thesis
  proof (cases "locked (spin s l) = 0")
    case True
    then have "\<exists>s'. acquire_smp c l s = Done () s' \<and> lock_view c s' (k\<lparr>held := l # held k\<rparr>)"
      using assms False free by (auto simp: acquire_smp_def lock_view_def lock_defs)
    then show ?thesis using False True by (simp add: acquire_def)
  next
    case locked: False
    then show ?thesis using free by (auto simp: acquire_smp_def lock_defs)
  qed
qed

text \<open>C7: the same for \<open>release\<close>; releasing the last lock restores the interrupt flag.\<close>

theorem release_refines:
  assumes "lock_view c s k"
  shows "case release l k of
      Done u k' \<Rightarrow> \<exists>s'. release_smp c l s = Done () s' \<and> lock_view c s' k'
        \<and> eflags_if (cpus s' c) = (held k' = [] \<and> intena (cpus s c))
    | Panic e \<Rightarrow> release_smp c l s = Panic e
    | _ \<Rightarrow> False"
proof (cases "l \<in> set (held k)")
  case False
  then have "\<not> holding c l s" using assms(1) by (simp add: lock_view_def)
  then show ?thesis using False by (simp add: release_def release_smp_def kdefs)
next
  case True
  then have h: "holding c l s" and d: "distinct (held k)" and cli: "\<not> eflags_if (cpus s c)"
    and n: "ncli (cpus s c) = int (length (held k))"
    using assms(1) by (auto simp: lock_view_def)
  have len: "length (held k) = Suc (length (remove1 l (held k)))"
    using True by (metis One_nat_def Suc_pred length_pos_if_in_set length_remove1)
  have "\<exists>s'. release_smp c l s = Done () s' \<and> lock_view c s' (k\<lparr>held := remove1 l (held k)\<rparr>)
      \<and> eflags_if (cpus s' c) = (remove1 l (held k) = [] \<and> intena (cpus s c))"
    using assms(1) h d cli n len True
    by (auto simp: release_smp_def lock_view_def lock_defs)
  then show ?thesis using True by (simp add: release_def)
qed

text \<open>
  C1: in every reachable state of any number of CPUs using any number of locks, at most
  one CPU owns a lock; a CPU that is inside a lock, from the start of \<open>acquire\<close> to the end
  of \<open>release\<close>, has its interrupts off; and neither \<open>holding\<close>'s check in \<open>acquire\<close> nor
  \<open>popcli\<close> panics.
\<close>

theorem lock_safety:
  assumes "lock_reachable s"
  shows "(owns (pcs s c l) \<and> owns (pcs s d l) \<longrightarrow> c = d)
    \<and> (pcs s c l \<noteq> Out \<longrightarrow> \<not> eflags_if (cpus (mach s) c))
    \<and> (pcs s c l = Out \<longrightarrow> \<not> holding c l (mach s))
    \<and> (pcs s c l = Popping \<longrightarrow> (\<exists>m. popcli c (mach s) = Done () m))"
proof -
  have inv: "lock_inv s" using assms by (rule lock_reachable_inv)
  have cli: "pcs s c l \<noteq> Out \<Longrightarrow> \<not> eflags_if (cpus (mach s) c)"
    using inv by (auto simp: lock_inv_def cli_inv_def active_def)
  have pop: "\<exists>m. popcli c (mach s) = Done () m" if "pcs s c l = Popping"
  proof -
    have "l \<in> active s c" using that by (simp add: active_def)
    then have "0 < card (active s c)"
      using inv card_gt_0_iff by (fastforce simp: lock_inv_def cli_inv_def)
    then show ?thesis
      using inv cli that by (auto simp: lock_inv_def cli_inv_def popcli_def Let_def)
  qed
  have "\<not> holding c l (mach s)" if "pcs s c l = Out"
    using inv that by (auto simp: lock_inv_def holder_inv_def holding_def)
  then show ?thesis using cli pop owner_unique [OF inv] by blast
qed

lemma lock_reachable_critical: "\<exists>s. lock_reachable s \<and> pcs s 0 L_kmem = Critical"
proof -
  obtain m1 where m1: "pushcli 0 (mach boot_locks) = Done () m1" "\<not> holding 0 L_kmem m1"
      "spin m1 = spin (mach boot_locks)"
    by (auto simp: lock_defs boot_locks_def)
  let ?s1 = "set_pc 0 L_kmem Spinning (boot_locks\<lparr>mach := m1\<rparr>)"
  have s1: "lock_reachable ?s1"
    using m1 by (intro lock_reachable.step [OF lock_reachable.boot] lock_step.enter)
      (auto simp: boot_locks_def)
  obtain m2 where "xchg L_kmem 1 (mach ?s1) = Done 0 m2"
    using m1(3) by (auto simp: xchg_def boot_locks_def)
  then have s2: "lock_reachable (set_pc 0 L_kmem Won (?s1\<lparr>mach := m2\<rparr>))" (is "lock_reachable ?s2")
    by (intro lock_reachable.step [OF s1] lock_step.win) auto
  obtain m3 where "set_lk_cpu L_kmem (Some 0) (mach ?s2) = Done () m3"
    by (auto simp: set_lk_cpu_def kdefs)
  then have "lock_reachable (set_pc 0 L_kmem Critical (?s2\<lparr>mach := m3\<rparr>))"
    by (intro lock_reachable.step [OF s2] lock_step.own) auto
  then show ?thesis by (metis pcs_set_pc)
qed

theorem lock_safety_witness:
  "\<exists>s. lock_reachable s \<and> pcs s 0 L_kmem = Critical \<and> \<not> eflags_if (cpus (mach s) 0)
     \<and> (\<forall>d. owns (pcs s d L_kmem) \<longrightarrow> d = 0)"
proof -
  obtain s where s: "lock_reachable s" "pcs s 0 L_kmem = Critical"
    using lock_reachable_critical by blast
  then have "\<forall>d. owns (pcs s d L_kmem) \<longrightarrow> d = 0" "\<not> eflags_if (cpus (mach s) 0)"
    using lock_safety [OF s(1), of _ L_kmem 0] lock_safety [OF s(1), of 0 L_kmem 0] by auto
  then show ?thesis using s by blast
qed

definition smp_idle :: smp where
  "smp_idle = mach boot_locks"

theorem acquire_refines_witness:
  "lock_view 0 smp_idle \<lparr>held = []\<rparr> \<and>
   (\<exists>s'. acquire_smp 0 L_ide smp_idle = Done () s' \<and> lock_view 0 s' \<lparr>held = [L_ide]\<rparr>)"
proof -
  have v: "lock_view 0 smp_idle \<lparr>held = []\<rparr>"
    by (simp add: lock_view_def smp_idle_def boot_locks_def holding_def)
  have "locked (spin smp_idle L_ide) = 0"
    by (simp add: smp_idle_def boot_locks_def)
  then show ?thesis using acquire_refines [OF v, of L_ide] v by (simp add: acquire_def)
qed

theorem release_refines_witness:
  "\<exists>s s'. lock_view 0 s \<lparr>held = [L_ide]\<rparr> \<and> release_smp 0 L_ide s = Done () s'
     \<and> lock_view 0 s' \<lparr>held = []\<rparr>"
proof -
  obtain s where s: "lock_view 0 s \<lparr>held = [L_ide]\<rparr>"
    using acquire_smp_def [of 0 L_ide]
    by (auto intro!: that [of "set_spin L_ide \<lparr>locked = 1, lk_cpu = Some 0\<rparr>
          (set_cpu 0 \<lparr>ncli = 1, intena = True, eflags_if = False\<rparr> smp_idle)"]
        simp: lock_view_def smp_idle_def boot_locks_def set_spin_def set_cpu_def holding_def)
  from release_refines [OF s, of L_ide] s show ?thesis by (auto simp: release_def)
qed

end
