(* ===== verification/Cstring.thy ===== *)
theory Cstring
  imports Xv6_Prelude
begin

text \<open>
  The kernel's memory and string routines (\<open>kernel/string.c\<close>) and the user library's
  (\<open>user/ulib.c\<close>). A routine that works inside one memory takes the memory and offsets
  into it (so that \<open>memmove\<close>'s source and destination may overlap); a routine on two
  separate objects takes both. \<open>strlen\<close> runs to the first NUL byte and returns
  \<open>None\<close> when there is none.
\<close>

section \<open>memset, memcmp, memmove\<close>

text \<open>\<open>rep stosb\<close>: store \<open>c\<close> at \<open>d\<close>, \<open>n\<close> times, going up.\<close>

fun memset :: "bytes \<Rightarrow> nat \<Rightarrow> uchar \<Rightarrow> nat \<Rightarrow> bytes" where
  "memset m d c 0 = m"
| "memset m d c (Suc n) = memset (m(d := c)) (d + 1) c n"

fun memcmp :: "bytes \<Rightarrow> nat \<Rightarrow> bytes \<Rightarrow> nat \<Rightarrow> nat \<Rightarrow> int" where
  "memcmp v1 s1 v2 s2 0 = 0"
| "memcmp v1 s1 v2 s2 (Suc n) =
     (if v1 s1 \<noteq> v2 s2 then uint (v1 s1) - uint (v2 s2)
      else memcmp v1 (s1 + 1) v2 (s2 + 1) n)"

text \<open>The two copy loops of \<open>memmove\<close>: from the top down, and from the bottom up.\<close>

fun memmove_down :: "bytes \<Rightarrow> nat \<Rightarrow> nat \<Rightarrow> nat \<Rightarrow> bytes" where
  "memmove_down m d s 0 = m"
| "memmove_down m d s (Suc n) = memmove_down (m(d - 1 := m (s - 1))) (d - 1) (s - 1) n"

fun memmove_up :: "bytes \<Rightarrow> nat \<Rightarrow> nat \<Rightarrow> nat \<Rightarrow> bytes" where
  "memmove_up m d s 0 = m"
| "memmove_up m d s (Suc n) = memmove_up (m(d := m s)) (d + 1) (s + 1) n"

definition memmove :: "bytes \<Rightarrow> nat \<Rightarrow> nat \<Rightarrow> nat \<Rightarrow> bytes" where
  "memmove m dst src n =
     (if src < dst \<and> src + n > dst then memmove_down m (dst + n) (src + n) n
      else memmove_up m dst src n)"

text \<open>\<open>memmove\<close> between two objects that do not overlap takes the second loop.\<close>

fun memmove_obj :: "bytes \<Rightarrow> nat \<Rightarrow> bytes \<Rightarrow> nat \<Rightarrow> nat \<Rightarrow> bytes" where
  "memmove_obj dm d sm s 0 = dm"
| "memmove_obj dm d sm s (Suc n) = memmove_obj (dm(d := sm s)) (d + 1) sm (s + 1) n"

section \<open>Strings\<close>

fun strncmp_from :: "bytes \<Rightarrow> bytes \<Rightarrow> nat \<Rightarrow> nat \<Rightarrow> int" where
  "strncmp_from p q i 0 = 0"
| "strncmp_from p q i (Suc n) =
     (if p i \<noteq> 0 \<and> p i = q i then strncmp_from p q (i + 1) n
      else uint (p i) - uint (q i))"

definition strncmp :: "bytes \<Rightarrow> bytes \<Rightarrow> nat \<Rightarrow> int" where
  "strncmp p q n = strncmp_from p q 0 n"

fun strncpy_from :: "bytes \<Rightarrow> bytes \<Rightarrow> nat \<Rightarrow> nat \<Rightarrow> bytes" where
  "strncpy_from s t i 0 = s"
| "strncpy_from s t i (Suc n) =
     (if t i \<noteq> 0 then strncpy_from (s(i := t i)) t (i + 1) n
      else memset (s(i := t i)) (i + 1) 0 n)"

definition strncpy :: "bytes \<Rightarrow> bytes \<Rightarrow> int \<Rightarrow> bytes" where
  "strncpy s t n = strncpy_from s t 0 (nat n)"

text \<open>\<open>safestrcpy\<close>'s loop runs while \<open>--n > 0\<close>; \<open>k\<close> is the value of \<open>n - 1\<close>.\<close>

fun safestrcpy_from :: "bytes \<Rightarrow> bytes \<Rightarrow> nat \<Rightarrow> nat \<Rightarrow> bytes" where
  "safestrcpy_from s t i 0 = s(i := 0)"
| "safestrcpy_from s t i (Suc k) =
     (if t i \<noteq> 0 then safestrcpy_from (s(i := t i)) t (i + 1) k
      else s(i := t i, i + 1 := 0))"

definition safestrcpy :: "bytes \<Rightarrow> bytes \<Rightarrow> int \<Rightarrow> bytes" where
  "safestrcpy s t n = (if n \<le> 0 then s else safestrcpy_from s t 0 (nat n - 1))"

partial_function (option) strlen_from :: "bytes \<Rightarrow> nat \<Rightarrow> nat option" where
  "strlen_from s n = (if s n = 0 then Some n else strlen_from s (n + 1))"

definition strlen :: "bytes \<Rightarrow> nat option" where
  "strlen s = strlen_from s 0"

section \<open>The user library's versions\<close>

fun strcmp_from :: "nat \<Rightarrow> bytes \<Rightarrow> bytes \<Rightarrow> nat \<Rightarrow> int option" where
  "strcmp_from 0 p q i = None"
| "strcmp_from (Suc fuel) p q i =
     (if p i \<noteq> 0 \<and> p i = q i then strcmp_from fuel p q (i + 1)
      else Some (uint (p i) - uint (q i)))"

text \<open>\<open>ulib.c\<close>'s \<open>memmove\<close> has the upward loop only.\<close>

definition ulib_memmove :: "bytes \<Rightarrow> nat \<Rightarrow> nat \<Rightarrow> int \<Rightarrow> bytes" where
  "ulib_memmove m dst src n = memmove_up m dst src (nat n)"

section \<open>What the routines compute\<close>

lemma memset_at [bytes_simps]:
  "memset m d c n i = (if d \<le> i \<and> i < d + n then c else m i)"
  by (induction n arbitrary: m d) auto

lemma memmove_obj_at [bytes_simps]:
  "memmove_obj dm d sm s n i = (if d \<le> i \<and> i < d + n then sm (s + (i - d)) else dm i)"
proof (induction n arbitrary: dm d s)
  case (Suc n)
  have "memmove_obj dm d sm s (Suc n) i = memmove_obj (dm(d := sm s)) (d + 1) sm (s + 1) n i"
    by simp
  also have "\<dots> = (if d + 1 \<le> i \<and> i < d + 1 + n then sm (s + 1 + (i - (d + 1))) else (dm(d := sm s)) i)"
    by (rule Suc)
  also have "\<dots> = (if d \<le> i \<and> i < d + Suc n then sm (s + (i - d)) else dm i)"
    by (auto simp: Suc_diff_Suc)
  finally show ?case .
qed auto

lemma memmove_up_at:
  "d \<le> s \<or> s + n \<le> d \<Longrightarrow>
     memmove_up m d s n i = (if d \<le> i \<and> i < d + n then m (s + (i - d)) else m i)"
proof (induction n arbitrary: m d s)
  case (Suc n)
  then have *: "memmove_up (m(d := m s)) (d + 1) (s + 1) n i =
      (if d + 1 \<le> i \<and> i < d + 1 + n then (m(d := m s)) (s + 1 + (i - (d + 1)))
       else (m(d := m s)) i)"
    by (intro Suc.IH) auto
  also have "\<dots> = (if d \<le> i \<and> i < d + Suc n then m (s + (i - d)) else m i)"
    using Suc.prems by (auto simp: Suc_diff_Suc)
  finally show ?case by simp
qed auto

lemma memmove_down_at:
  "s < d \<Longrightarrow> memmove_down m (d + n) (s + n) n i =
     (if d \<le> i \<and> i < d + n then m (s + (i - d)) else m i)"
  by (induction n arbitrary: m) (auto simp: less_Suc_eq)

lemma memmove_at [bytes_simps]:
  "memmove m d s n i = (if d \<le> i \<and> i < d + n then m (s + (i - d)) else m i)"
  by (auto simp: memmove_def memmove_up_at memmove_down_at)

lemma memcmp_eq_0: "memcmp v1 s1 v2 s2 n = 0 \<longleftrightarrow> (\<forall>i<n. v1 (s1 + i) = v2 (s2 + i))"
proof (induction n arbitrary: s1 s2)
  case (Suc n)
  have "(\<forall>i<Suc n. v1 (s1 + i) = v2 (s2 + i)) \<longleftrightarrow>
      v1 s1 = v2 s2 \<and> (\<forall>i<n. v1 (s1 + 1 + i) = v2 (s2 + 1 + i))"
    by (simp add: All_less_Suc2)
  then show ?case using Suc [of "s1 + 1" "s2 + 1"] by simp
qed auto

text \<open>Two strings compare equal when they agree up to the first NUL or the limit.\<close>

definition same_prefix :: "bytes \<Rightarrow> bytes \<Rightarrow> nat \<Rightarrow> bool" where
  "same_prefix p q n \<longleftrightarrow> (\<forall>i<n. (\<forall>j<i. p j \<noteq> 0) \<longrightarrow> p i = q i)"

lemma strncmp_from_0:
  "strncmp_from p q i n = 0 \<longleftrightarrow>
     (\<forall>k<n. (\<forall>j<k. p (i + j) \<noteq> 0) \<longrightarrow> p (i + k) = q (i + k))"
proof (induction n arbitrary: i)
  case (Suc n)
  show ?case
  proof (cases "p i \<noteq> 0 \<and> p i = q i")
    case True
    then have "(\<forall>k<Suc n. (\<forall>j<k. p (i + j) \<noteq> 0) \<longrightarrow> p (i + k) = q (i + k)) \<longleftrightarrow>
      (\<forall>k<n. (\<forall>j<k. p (i + 1 + j) \<noteq> 0) \<longrightarrow> p (i + 1 + k) = q (i + 1 + k))"
      by (auto simp: All_less_Suc2)
    then show ?thesis using True Suc [of "i + 1"] by auto
  next
    case False
    then show ?thesis by (auto simp: All_less_Suc2)
  qed
qed auto

lemma strncmp_0: "strncmp p q n = 0 \<longleftrightarrow> same_prefix p q n"
  by (simp add: strncmp_def strncmp_from_0 same_prefix_def)

lemma same_prefix_sym: "same_prefix p q n \<Longrightarrow> same_prefix q p n"
proof -
  assume *: "same_prefix p q n"
  have "i < n \<longrightarrow> (\<forall>j<i. q j \<noteq> 0) \<longrightarrow> (\<forall>j\<le>i. p j = q j)" for i
  proof (induction i)
    case 0
    then show ?case using * by (auto simp: same_prefix_def)
  next
    case (Suc i)
    then show ?case using * by (auto simp: same_prefix_def le_Suc_eq)
  qed
  then show ?thesis by (auto simp: same_prefix_def)
qed

lemma same_prefix_nonzero:
  assumes "same_prefix p q n" "i < n" "\<forall>j<i. p j \<noteq> 0"
  shows "\<forall>j<i. q j \<noteq> 0"
proof (intro allI impI)
  fix j
  assume "j < i"
  then have "p j = q j" using assms by (simp add: same_prefix_def)
  then show "q j \<noteq> 0" using assms(3) \<open>j < i\<close> by metis
qed

lemma strncpy_from_at:
  "strncpy_from s t i n k =
     (if i \<le> k \<and> k < i + n then (if \<forall>j. i \<le> j \<and> j < k \<longrightarrow> t j \<noteq> 0 then t k else 0) else s k)"
proof (induction n arbitrary: s i)
  case (Suc n)
  show ?case
  proof (cases "t i = 0")
    case True
    then show ?thesis by (auto simp: memset_at)
  next
    case False
    have "(\<forall>j. i \<le> j \<and> j < k \<longrightarrow> t j \<noteq> 0) \<longleftrightarrow> (\<forall>j. i + 1 \<le> j \<and> j < k \<longrightarrow> t j \<noteq> 0)"
      using False by (auto simp: Suc_le_eq) (metis le_neq_implies_less)
    moreover have "strncpy_from s t i (Suc n) k = strncpy_from (s(i := t i)) t (i + 1) n k"
      using False by simp
    ultimately show ?thesis unfolding Suc by auto
  qed
qed auto

lemma strncpy_at:
  "strncpy s t n k =
     (if int k < n then (if \<forall>j<k. t j \<noteq> 0 then t k else 0) else s k)"
  by (auto simp: strncpy_def strncpy_from_at zless_nat_eq_int_zless)

lemma strncpy_same_prefix: "int n \<le> m \<Longrightarrow> same_prefix t (strncpy s t m) n"
  by (auto simp: same_prefix_def strncpy_at)

lemma safestrcpy_from_frame:
  "k < i \<or> i + n < k \<Longrightarrow> safestrcpy_from s t i n k = s k"
  by (induction n arbitrary: s i) auto

lemma safestrcpy_from_nul: "\<exists>k. i \<le> k \<and> k \<le> i + n \<and> safestrcpy_from s t i n k = 0"
proof (induction n arbitrary: s i)
  case (Suc n)
  show ?case
  proof (cases "t i = 0")
    case True
    then show ?thesis by (intro exI [of _ i]) simp
  next
    case False
    obtain k where "i + 1 \<le> k" "k \<le> i + 1 + n" "safestrcpy_from (s(i := t i)) t (i + 1) n k = 0"
      using Suc by blast
    then show ?thesis using False by (intro exI [of _ k]) simp
  qed
qed auto

lemma strlen_from_Some:
  "s (n + k) = 0 \<Longrightarrow> (\<And>j. j < k \<Longrightarrow> s (n + j) \<noteq> 0) \<Longrightarrow> strlen_from s n = Some (n + k)"
proof (induction k arbitrary: n)
  case 0
  then show ?case by (simp add: strlen_from.simps [of s n])
next
  case (Suc k)
  have "s n \<noteq> 0" using Suc.prems(2) [of 0] by simp
  moreover have "strlen_from s (n + 1) = Some (n + 1 + k)"
    using Suc.prems(1) Suc.prems(2) [of "Suc _"] by (intro Suc.IH) auto
  ultimately show ?case by (simp add: strlen_from.simps [of s n])
qed

lemma strlen_from_SomeD:
  assumes "strlen_from s n = Some r"
  shows "n \<le> r \<and> s r = 0 \<and> (\<forall>j. n \<le> j \<and> j < r \<longrightarrow> s j \<noteq> 0)"
proof (rule strlen_from.raw_induct
    [where P = "\<lambda>s n r. n \<le> r \<and> s r = 0 \<and> (\<forall>j. n \<le> j \<and> j < r \<longrightarrow> s j \<noteq> 0)", OF _ assms])
  fix f :: "bytes \<Rightarrow> nat \<Rightarrow> nat option" and s n r
  assume IH: "\<And>s n r. f s n = Some r \<Longrightarrow> n \<le> r \<and> s r = 0 \<and> (\<forall>j. n \<le> j \<and> j < r \<longrightarrow> s j \<noteq> 0)"
    and eq: "(if s n = 0 then Some n else f s (n + 1)) = Some r"
  show "n \<le> r \<and> s r = 0 \<and> (\<forall>j. n \<le> j \<and> j < r \<longrightarrow> s j \<noteq> 0)"
  proof (cases "s n = 0")
    case False
    then have "n + 1 \<le> r \<and> s r = 0 \<and> (\<forall>j. n + 1 \<le> j \<and> j < r \<longrightarrow> s j \<noteq> 0)"
      using eq by (intro IH) simp
    then have "n \<le> r" "s r = 0" and rest: "\<And>j. n + 1 \<le> j \<Longrightarrow> j < r \<Longrightarrow> s j \<noteq> 0"
      by auto
    moreover have "s j \<noteq> 0" if "n \<le> j" "j < r" for j
      using that False rest [of j] by (cases "j = n") auto
    ultimately show ?thesis by blast
  qed (use eq in auto)
qed

lemma strlen_iff: "strlen s = Some n \<longleftrightarrow> s n = 0 \<and> (\<forall>j<n. s j \<noteq> 0)"
proof
  assume "strlen s = Some n"
  then show "s n = 0 \<and> (\<forall>j<n. s j \<noteq> 0)"
    using strlen_from_SomeD [of s 0 n] by (simp add: strlen_def)
next
  assume "s n = 0 \<and> (\<forall>j<n. s j \<noteq> 0)"
  then show "strlen s = Some n"
    using strlen_from_Some [of s 0 n] by (simp add: strlen_def)
qed

text \<open>\<open>safestrcpy\<close> copies up to the first NUL or the limit \<open>i + n\<close>, where it puts a NUL.\<close>

lemma safestrcpy_from_spec:
  "\<exists>k. i \<le> k \<and> k \<le> i + n \<and> safestrcpy_from s t i n k = 0 \<and> (t k = 0 \<or> k = i + n)
     \<and> (\<forall>j. i \<le> j \<and> j < k \<longrightarrow> safestrcpy_from s t i n j = t j \<and> t j \<noteq> 0)"
proof (induction n arbitrary: s i)
  case (Suc n)
  show ?case
  proof (cases "t i = 0")
    case True
    then show ?thesis by (intro exI [of _ i]) simp
  next
    case False
    obtain k where k: "i + 1 \<le> k" "k \<le> i + 1 + n"
        "safestrcpy_from (s(i := t i)) t (i + 1) n k = 0" "t k = 0 \<or> k = i + 1 + n"
        "\<And>j. i + 1 \<le> j \<Longrightarrow> j < k \<Longrightarrow>
           safestrcpy_from (s(i := t i)) t (i + 1) n j = t j \<and> t j \<noteq> 0"
      using Suc [of "i + 1" "s(i := t i)"] by blast
    moreover have "safestrcpy_from (s(i := t i)) t (i + 1) n j = t j \<and> t j \<noteq> 0"
      if "i \<le> j" "j < k" for j
      using that k(5) [of j] False by (cases "j = i") (auto simp: safestrcpy_from_frame)
    ultimately show ?thesis using False by (intro exI [of _ k]) simp
  qed
qed auto

section \<open>Correctness of the routines\<close>

text \<open>
  C9: \<open>memmove\<close> moves the \<open>n\<close> bytes at \<open>src\<close> to \<open>dst\<close> as they were before the call, however
  the two ranges overlap, and changes nothing else. The user library's version, which only
  copies upwards, computes the same whenever the destination does not start inside the
  source range.
\<close>

theorem memmove_overlap:
  "memmove m dst src n i = (if dst \<le> i \<and> i < dst + n then m (src + (i - dst)) else m i)
   \<and> (\<not> (src < dst \<and> dst < src + n) \<longrightarrow> ulib_memmove m dst src (int n) = memmove m dst src n)"
  by (intro conjI memmove_at) (auto simp: ulib_memmove_def memmove_def)

theorem memmove_overlap_witness:
  "memmove (\<lambda>i. of_nat i) 11 10 4 14 = 13
   \<and> ulib_memmove (\<lambda>i. of_nat i) 10 11 4 = memmove (\<lambda>i. of_nat i) 10 11 4"
  using memmove_overlap [of "\<lambda>i. of_nat i" 11 10 4 14]
    memmove_overlap [of "\<lambda>i. of_nat i" 10 11 4 0] by simp

text \<open>The upward copy is not \<open>memmove\<close> on an overlapping pair of ranges.\<close>

lemma ulib_memmove_overlap_wrong:
  "ulib_memmove (\<lambda>i. of_nat i) 1 0 2 \<noteq> memmove (\<lambda>i. of_nat i) 1 0 2"
proof -
  have "ulib_memmove (\<lambda>i. of_nat i) 1 0 2 2 \<noteq> memmove (\<lambda>i. of_nat i) 1 0 2 2"
    by (simp add: ulib_memmove_def memmove_at numeral_2_eq_2)
  then show ?thesis by metis
qed

text \<open>
  \<open>strncmp\<close> calls two strings equal up to \<open>n\<close> exactly when \<open>strncpy\<close> pads them to the
  same \<open>n\<close> bytes. Directory entries store names with \<open>strncpy\<close> and find them with
  \<open>strncmp\<close>, so a stored name is found under the name it was stored with and no other.
\<close>

theorem strncmp_strncpy:
  "strncmp p q n = 0 \<longleftrightarrow> (\<forall>i<n. strncpy s p (int n) i = strncpy t q (int n) i)"
proof
  assume "strncmp p q n = 0"
  then have eq: "same_prefix p q n" "same_prefix q p n"
    by (simp_all add: strncmp_0 same_prefix_sym)
  have "(\<forall>j<i. p j \<noteq> 0) = (\<forall>j<i. q j \<noteq> 0)" if "i < n" for i
    by (rule iffI) (fact same_prefix_nonzero [OF eq(1) that] same_prefix_nonzero [OF eq(2) that])+
  moreover have "p i = q i" if "i < n" "\<forall>j<i. p j \<noteq> 0" for i
    using eq(1) that by (simp add: same_prefix_def)
  ultimately have pad: "(if \<forall>j<i. p j \<noteq> 0 then p i else 0) =
      (if \<forall>j<i. q j \<noteq> 0 then q i else 0)" if "i < n" for i
    using that by auto
  show "\<forall>i<n. strncpy s p (int n) i = strncpy t q (int n) i"
    unfolding strncpy_at using pad by simp
next
  assume "\<forall>i<n. strncpy s p (int n) i = strncpy t q (int n) i"
  then have pad: "(if \<forall>j<i. p j \<noteq> 0 then p i else 0) = (if \<forall>j<i. q j \<noteq> 0 then q i else 0)"
    if "i < n" for i using that by (simp add: strncpy_at)
  have "p i = q i" if "i < n" "\<forall>j<i. p j \<noteq> 0" for i
    using that
  proof (induction i rule: less_induct)
    case (less i)
    then have "p j = q j" if "j < i" for j using that by simp
    then have "\<forall>j<i. q j \<noteq> 0" using less.prems by metis
    then show ?case using pad [OF less.prems(1)] less.prems(2) by simp
  qed
  then show "strncmp p q n = 0" unfolding strncmp_0 same_prefix_def by blast
qed

theorem strncmp_strncpy_witness:
  "strncmp ((\<lambda>_. 7)(0 := 97, 1 := 0)) ((\<lambda>_. 9)(0 := 97, 1 := 0)) 14 = 0
   \<and> strncpy (\<lambda>_. 1) ((\<lambda>_. 7)(0 := 97, 1 := 0)) (int 14) 5 =
       strncpy (\<lambda>_. 1) ((\<lambda>_. 9)(0 := 97, 1 := 0)) (int 14) 5"
proof -
  have "strncmp ((\<lambda>_. 7)(0 := 97, 1 := 0)) ((\<lambda>_. 9)(0 := 97, 1 := 0)) 14 = 0"
    by (simp add: strncmp_def numeral_eq_Suc)
  then show ?thesis using strncmp_strncpy [of _ _ 14 "\<lambda>_. 1" "\<lambda>_. 1"] by auto
qed

text \<open>
  C10: with a positive limit, \<open>safestrcpy\<close> leaves a NUL-terminated string shorter than the
  limit: a prefix of the source, cut short only by the limit, and it writes nothing beyond
  the limit.
\<close>

theorem safestrcpy_correct:
  assumes "0 < n"
  shows "\<exists>k. int k < n \<and> strlen (safestrcpy s t n) = Some k
    \<and> (\<forall>j<k. safestrcpy s t n j = t j) \<and> (t k = 0 \<or> int k = n - 1)
    \<and> (\<forall>j. n \<le> int j \<longrightarrow> safestrcpy s t n j = s j)"
proof -
  let ?r = "safestrcpy_from s t 0 (nat n - 1)"
  obtain k where k: "k \<le> nat n - 1" "?r k = 0" "t k = 0 \<or> k = nat n - 1"
      "\<And>j. j < k \<Longrightarrow> ?r j = t j \<and> t j \<noteq> 0"
    using safestrcpy_from_spec [of 0 "nat n - 1" s t] by auto
  have "strlen ?r = Some k" using k(2,4) by (subst strlen_iff) simp
  moreover have "?r j = s j" if "n \<le> int j" for j
    using that assms by (intro safestrcpy_from_frame) linarith
  ultimately show ?thesis
    using assms k by (intro exI [of _ k]) (simp add: safestrcpy_def, linarith)
qed

theorem safestrcpy_correct_witness:
  "\<exists>k. int k < 3 \<and> strlen (safestrcpy (\<lambda>_. 1) (\<lambda>_. 5) 3) = Some k \<and> int k = 2"
  using safestrcpy_correct [of 3 "\<lambda>_. 1" "\<lambda>_. 5"] by fastforce

end
