(* ===== verification/Proc_Table.thy ===== *)
theory Proc_Table
  imports Spinlock Cstring
begin

text \<open>
  The process table (\<open>kernel/proc.h\<close>, \<open>kernel/proc.c\<close>): \<open>struct proc\<close>, its states, and the
  routines that only move processes between states: \<open>wakeup1\<close>, \<open>wakeup\<close>, \<open>sleep\<close>,
  \<open>sched\<close>, \<open>yield\<close>, \<open>forkret\<close>, \<open>kill\<close> and the scheduler's pass over the table. A pointer
  to a process, an open file or an inode is its index in the table; a null pointer is
  \<open>None\<close>. A process that gives up the CPU ends its routine with \<open>Sleep\<close>; what it does when
  it is scheduled again is a definition of its own (\<open>sleep_resume\<close>, \<open>yield_resume\<close>).
\<close>

abbreviation NPROC :: nat where "NPROC \<equiv> 64"
abbreviation NOFILE :: nat where "NOFILE \<equiv> 16"
abbreviation KSTACKSIZE :: uint where "KSTACKSIZE \<equiv> 4096"

datatype procstate = UNUSED | EMBRYO | SLEEPING | RUNNABLE | RUNNING | ZOMBIE

text \<open>The registers of the saved trap frame the kernel's C code reads or writes.\<close>

record trapframe =
  tf_eax :: uint
  tf_es :: ushort
  tf_ds :: ushort
  tf_trapno :: uint
  tf_err :: uint
  tf_eip :: uint
  tf_cs :: ushort
  tf_eflags :: uint
  tf_esp :: uint
  tf_ss :: ushort

record proc =
  p_sz :: uint
  p_pgdir :: uint
  p_kstack :: uint
  p_state :: procstate
  p_pid :: int
  p_parent :: "nat option"
  p_tf :: trapframe
  p_context :: uint
  p_chan :: "chan option"
  p_killed :: bool
  p_ofile :: "nat \<Rightarrow> nat option"
  p_cwd :: "nat option"
  p_name :: bytes

text \<open>A table entry as the loader leaves it: all bytes zero.\<close>

definition zero_tf :: trapframe where
  "zero_tf = \<lparr>tf_eax = 0, tf_es = 0, tf_ds = 0, tf_trapno = 0, tf_err = 0, tf_eip = 0, tf_cs = 0,
     tf_eflags = 0, tf_esp = 0, tf_ss = 0\<rparr>"

definition zero_proc :: proc where
  "zero_proc = \<lparr>p_sz = 0, p_pgdir = 0, p_kstack = 0, p_state = UNUSED, p_pid = 0,
     p_parent = None, p_tf = zero_tf, p_context = 0, p_chan = None, p_killed = False,
     p_ofile = (\<lambda>_. None), p_cwd = None, p_name = (\<lambda>_. 0)\<rparr>"

text \<open>
  The state shared by all of the kernel: the locks held, \<open>ptable.proc\<close>, the running process
  (\<open>proc\<close>), \<open>initproc\<close> and \<open>nextpid\<close>. The other components extend this record.
\<close>

record kproc = klocks +
  ptable :: "nat \<Rightarrow> proc"
  cur :: "nat option"
  initproc :: "nat option"
  nextpid :: int

definition upd_proc :: "nat \<Rightarrow> (proc \<Rightarrow> proc) \<Rightarrow> ('a kproc_scheme, unit) K" where
  "upd_proc i f = kmod (\<lambda>s. s\<lparr>ptable := (ptable s)(i := f (ptable s i))\<rparr>)"

text \<open>\<open>proc->\<close> on the running process; the C code dereferences the pointer unchecked.\<close>

definition cur_proc :: "('a kproc_scheme, nat) K" where
  "cur_proc = (\<lambda>s. case cur s of Some i \<Rightarrow> Done i s | None \<Rightarrow> Panic ''trap'')"

definition wakeup1 :: "chan \<Rightarrow> ('a kproc_scheme, unit) K" where
  "wakeup1 c = kforeach [0..<NPROC] (\<lambda>i.
     kbind (kget (\<lambda>s. ptable s i)) (\<lambda>p.
       kwhen (p_state p = SLEEPING \<and> p_chan p = Some c)
         (upd_proc i (\<lambda>p. p\<lparr>p_state := RUNNABLE\<rparr>))))"

definition wakeup :: "chan \<Rightarrow> ('a kproc_scheme, unit) K" where
  "wakeup c = kseq (acquire L_ptable) (kseq (wakeup1 c) (release L_ptable))"

text \<open>
  The checks of \<open>sched\<close> before \<open>swtch\<close>: \<open>ptable.lock\<close> is held, it is the only lock
  (\<open>cpu->ncli == 1\<close>, so interrupts are off), and the process is not RUNNING.
\<close>

definition sched :: "('a kproc_scheme, unit) K" where
  "sched = (\<lambda>s.
     if L_ptable \<notin> set (held s) then Panic ''sched ptable.lock''
     else if length (held s) \<noteq> 1 then Panic ''sched locks''
     else case cur s of
         None \<Rightarrow> Panic ''trap''
       | Some i \<Rightarrow> if p_state (ptable s i) = RUNNING then Panic ''sched running''
           else Done () s)"

definition sleep :: "chan \<Rightarrow> lock \<Rightarrow> ('a kproc_scheme, 'b) K" where
  "sleep c lk = (\<lambda>s. case cur s of
       None \<Rightarrow> Panic ''sleep''
     | Some i \<Rightarrow>
         kseq (kwhen (lk \<noteq> L_ptable) (kseq (acquire L_ptable) (release lk))) (
         kseq (upd_proc i (\<lambda>p. p\<lparr>p_chan := Some c\<rparr>)) (
         kseq (upd_proc i (\<lambda>p. p\<lparr>p_state := SLEEPING\<rparr>)) (
         kseq sched (
           \<lambda>s. Sleep c s)))) s)"

definition sleep_resume :: "lock \<Rightarrow> ('a kproc_scheme, unit) K" where
  "sleep_resume lk =
     kbind cur_proc (\<lambda>i.
     kseq (upd_proc i (\<lambda>p. p\<lparr>p_chan := None\<rparr>)) (
     kwhen (lk \<noteq> L_ptable) (kseq (release L_ptable) (acquire lk))))"

text \<open>\<open>yield\<close> up to \<open>swtch\<close>; it resumes by releasing \<open>ptable.lock\<close>, as \<open>forkret\<close> does.\<close>

definition yield :: "('a kproc_scheme, unit) K" where
  "yield =
     kseq (acquire L_ptable) (
     kbind cur_proc (\<lambda>i.
     kseq (upd_proc i (\<lambda>p. p\<lparr>p_state := RUNNABLE\<rparr>)) sched))"

definition yield_resume :: "('a kproc_scheme, unit) K" where
  "yield_resume = release L_ptable"

definition forkret :: "('a kproc_scheme, unit) K" where
  "forkret = release L_ptable"

definition kill :: "int \<Rightarrow> ('a kproc_scheme, int) K" where
  "kill pid =
     kseq (acquire L_ptable) (
     kbind (kget (\<lambda>s. find (\<lambda>i. p_pid (ptable s i) = pid) [0..<NPROC])) (\<lambda>r. case r of
       Some i \<Rightarrow>
         kseq (upd_proc i (\<lambda>p. p\<lparr>p_killed := True\<rparr>)) (
         kbind (kget (\<lambda>s. p_state (ptable s i))) (\<lambda>st.
         kseq (kwhen (st = SLEEPING) (upd_proc i (\<lambda>p. p\<lparr>p_state := RUNNABLE\<rparr>))) (
         kseq (release L_ptable) (kret 0))))
     | None \<Rightarrow> kseq (release L_ptable) (kret (- 1))))"

text \<open>
  The scheduler's inner loop at position \<open>i\<close>: the next RUNNABLE process from there on.
  \<open>dispatch\<close> makes it the running one (\<open>proc = p\<close>, state RUNNING) before \<open>swtch\<close>;
  \<open>undispatch\<close> is \<open>proc = 0\<close> when it switches back.
\<close>

definition next_runnable :: "nat \<Rightarrow> 'a kproc_scheme \<Rightarrow> nat option" where
  "next_runnable i s = find (\<lambda>j. p_state (ptable s j) = RUNNABLE) [i..<NPROC]"

definition dispatch :: "nat \<Rightarrow> ('a kproc_scheme, unit) K" where
  "dispatch i = kseq (kmod (\<lambda>s. s\<lparr>cur := Some i\<rparr>)) (upd_proc i (\<lambda>p. p\<lparr>p_state := RUNNING\<rparr>))"

definition undispatch :: "('a kproc_scheme, unit) K" where
  "undispatch = kmod (\<lambda>s. s\<lparr>cur := None\<rparr>)"

section \<open>Waking up\<close>

text \<open>What \<open>wakeup1\<close> does to one table entry.\<close>

definition woken :: "chan \<Rightarrow> proc \<Rightarrow> proc" where
  "woken c p = (if p_state p = SLEEPING \<and> p_chan p = Some c then p\<lparr>p_state := RUNNABLE\<rparr> else p)"

definition wake_table :: "chan \<Rightarrow> (nat \<Rightarrow> proc) \<Rightarrow> nat \<Rightarrow> proc" where
  "wake_table c t = (\<lambda>i. if i < NPROC then woken c (t i) else t i)"

lemma wake_loop:
  "kforeach [a..<b] (\<lambda>i. kbind (kget (\<lambda>s. ptable s i)) (\<lambda>p.
       kwhen (p_state p = SLEEPING \<and> p_chan p = Some c)
         (upd_proc i (\<lambda>p. p\<lparr>p_state := RUNNABLE\<rparr>)))) s =
   Done () (s\<lparr>ptable := (\<lambda>i. if a \<le> i \<and> i < b then woken c (ptable s i) else ptable s i)\<rparr>)"
proof (induction "b - a" arbitrary: a s)
  case 0
  then have "(\<lambda>i. if a \<le> i \<and> i < b then woken c (ptable s i) else ptable s i) = ptable s"
    using 0 by (auto simp: fun_eq_iff)
  then show ?case using 0 by (simp add: kret_def)
next
  case (Suc n)
  then have "[a..<b] = a # [Suc a..<b]" "n = b - Suc a" by (simp_all add: upt_conv_Cons)
  then show ?case
    using Suc(1) [of "Suc a"] Suc(2)
    by (auto simp: kdefs upd_proc_def woken_def fun_eq_iff le_Suc_eq Suc_le_eq
        intro!: arg_cong [where f = "\<lambda>t. ptable_update t s"])
qed

lemma wakeup1_eq: "wakeup1 c s = Done () (s\<lparr>ptable := wake_table c (ptable s)\<rparr>)"
  unfolding wakeup1_def wake_loop wake_table_def by simp

lemma wakeup_eq:
  "wakeup c s = (if L_ptable \<in> set (held s) then Panic ''acquire''
     else Done () (s\<lparr>ptable := wake_table c (ptable s)\<rparr>))"
  by (simp add: wakeup_def kdefs acquire_def release_def wakeup1_eq)

lemma wake_table_twice: "wake_table c (wake_table c t) = wake_table c t"
  by (auto simp: wake_table_def woken_def)

section \<open>The life of processes on one CPU\<close>

text \<open>
  One step of the kernel as far as the process table sees it. The scheduler takes
  \<open>ptable.lock\<close>, dispatches any RUNNABLE process and gets control back through \<open>yield\<close> or
  \<open>sleep\<close>; a process that is dispatched resumes after its \<open>swtch\<close> (in \<open>yield\<close>, \<open>forkret\<close>
  or \<open>sleep\<close>) and runs kernel code that takes and releases other locks, wakes sleepers and
  kills.
\<close>

inductive sched_step :: "kproc \<Rightarrow> kproc \<Rightarrow> bool" where
  lock_table: "cur s = None \<Longrightarrow> acquire L_ptable s = Done () t \<Longrightarrow> sched_step s t"
| unlock_table: "cur s = None \<Longrightarrow> release L_ptable s = Done () t \<Longrightarrow> sched_step s t"
| switch_to: "cur s = None \<Longrightarrow> L_ptable \<in> set (held s) \<Longrightarrow> next_runnable k s = Some i \<Longrightarrow>
    dispatch i s = Done () t \<Longrightarrow> sched_step s t"
| resume_yield: "cur s = Some i \<Longrightarrow> yield_resume s = Done () t \<Longrightarrow> sched_step s t"
| resume_fork: "cur s = Some i \<Longrightarrow> forkret s = Done () t \<Longrightarrow> sched_step s t"
| resume_sleep: "cur s = Some i \<Longrightarrow> L_ptable \<in> set (held s) \<Longrightarrow>
    sleep_resume lk s = Done () t \<Longrightarrow> sched_step s t"
| lock_other: "cur s = Some i \<Longrightarrow> l \<noteq> L_ptable \<Longrightarrow> acquire l s = Done () t \<Longrightarrow> sched_step s t"
| unlock_other: "cur s = Some i \<Longrightarrow> l \<noteq> L_ptable \<Longrightarrow> release l s = Done () t \<Longrightarrow> sched_step s t"
| do_wakeup: "wakeup c s = Done () t \<Longrightarrow> sched_step s t"
| do_kill: "kill pid s = Done r t \<Longrightarrow> sched_step s t"
| do_yield: "yield s = Done () t \<Longrightarrow> undispatch t = Done () u \<Longrightarrow> sched_step s u"
| do_sleep: "sleep c lk s = (Sleep c t :: (unit, kproc) outcome) \<Longrightarrow> undispatch t = Done () u \<Longrightarrow>
    sched_step s u"

definition sched_inv :: "kproc \<Rightarrow> bool" where
  "sched_inv s \<longleftrightarrow> (\<forall>i<NPROC. p_state (ptable s i) = RUNNING \<longleftrightarrow> cur s = Some i)
     \<and> (\<forall>i<NPROC. p_state (ptable s i) = SLEEPING \<longrightarrow> p_chan (ptable s i) \<noteq> None)
     \<and> (\<forall>i. cur s = Some i \<longrightarrow> i < NPROC)
     \<and> distinct (held s) \<and> (cur s = None \<longrightarrow> set (held s) \<subseteq> {L_ptable})"

lemma kill_eq:
  assumes "L_ptable \<notin> set (held s)"
  shows "kill pid s = (case find (\<lambda>i. p_pid (ptable s i) = pid) [0..<NPROC] of
      None \<Rightarrow> Done (- 1) s
    | Some i \<Rightarrow> Done 0 (s\<lparr>ptable := (ptable s)(i := (ptable s i)\<lparr>p_killed := True,
        p_state := (if p_state (ptable s i) = SLEEPING then RUNNABLE else p_state (ptable s i))\<rparr>)\<rparr>))"
  using assms
  by (auto simp: kill_def kdefs acquire_def release_def upd_proc_def split: option.splits)

lemma sleep_eq:
  assumes "cur s = Some i" "lk \<noteq> L_ptable" "held s = [lk]"
  shows "sleep c lk s = Sleep c (s\<lparr>held := [L_ptable],
    ptable := (ptable s)(i := (ptable s i)\<lparr>p_chan := Some c, p_state := SLEEPING\<rparr>)\<rparr>)"
  using assms by (auto simp: sleep_def kdefs acquire_def release_def upd_proc_def sched_def)

lemma sched_Done: "sched s = Done u t \<longleftrightarrow> t = s \<and> held s = [L_ptable] \<and>
    (\<exists>i. cur s = Some i \<and> p_state (ptable s i) \<noteq> RUNNING)"
  by (cases "held s") (auto simp: sched_def split: option.splits if_splits)

lemma sleep_SleepD:
  assumes "sleep c lk s = Sleep d t"
  obtains i where "cur s = Some i" "cur t = Some i" "held t = [L_ptable]" "d = c"
    "ptable t = (ptable s)(i := (ptable s i)\<lparr>p_chan := Some c, p_state := SLEEPING\<rparr>)"
proof -
  obtain i where i: "cur s = Some i" using assms by (cases "cur s") (auto simp: sleep_def)
  show ?thesis
    using assms i
    by (intro that [of i])
      (auto simp: sleep_def kdefs acquire_def release_def upd_proc_def sched_def length_Suc_conv
        split: if_splits option.splits)
qed

lemma yield_Done: "yield s = Done u t \<longleftrightarrow> held s = [] \<and> (\<exists>i. cur s = Some i \<and>
    t = s\<lparr>held := [L_ptable], ptable := (ptable s)(i := (ptable s i)\<lparr>p_state := RUNNABLE\<rparr>)\<rparr>)"
  by (auto simp: yield_def kdefs acquire_def cur_proc_def upd_proc_def sched_def
      split: if_splits option.splits outcome.splits)

lemma sched_inv_table:
  assumes "sched_inv s" "cur t = cur s" "distinct (held t)"
    and "cur s = None \<longrightarrow> set (held t) \<subseteq> {L_ptable}"
    and "\<And>i. i < NPROC \<Longrightarrow> (p_state (ptable t i) = RUNNING) = (p_state (ptable s i) = RUNNING)"
    and "\<And>i. i < NPROC \<Longrightarrow> p_state (ptable t i) = SLEEPING \<Longrightarrow>
      p_state (ptable s i) = SLEEPING \<and> p_chan (ptable t i) = p_chan (ptable s i)"
  shows "sched_inv t"
  using assms by (simp add: sched_inv_def)

lemma sched_inv_locks:
  "sched_inv s \<Longrightarrow> distinct ls \<Longrightarrow> cur s = None \<longrightarrow> set ls \<subseteq> {L_ptable} \<Longrightarrow> sched_inv (s\<lparr>held := ls\<rparr>)"
  by (rule sched_inv_table) auto

lemma acquire_Done: "acquire l s = Done u t \<longleftrightarrow> l \<notin> set (held s) \<and> t = s\<lparr>held := l # held s\<rparr>"
  by (auto simp: acquire_def)

lemma release_Done:
  "release l s = Done u t \<longleftrightarrow> l \<in> set (held s) \<and> t = s\<lparr>held := remove1 l (held s)\<rparr>"
  by (auto simp: release_def)

lemma sched_inv_step: "sched_step s t \<Longrightarrow> sched_inv s \<Longrightarrow> sched_inv t"
proof (induction rule: sched_step.induct)
  case (switch_to s k i t)
  then have i: "i < NPROC" "p_state (ptable s i) = RUNNABLE"
    by (auto simp: next_runnable_def find_Some_iff nth_append)
  then show ?case
    using switch_to by (auto simp: sched_inv_def dispatch_def upd_proc_def kdefs split: if_splits)
next
  case (resume_sleep s i lk t)
  then have i: "i < NPROC" "p_state (ptable s i) = RUNNING" by (simp_all add: sched_inv_def)
  have "held t = (if lk = L_ptable then held s else lk # remove1 L_ptable (held s))"
      "lk \<noteq> L_ptable \<longrightarrow> lk \<notin> set (remove1 L_ptable (held s))"
      "ptable t = (ptable s)(i := (ptable s i)\<lparr>p_chan := None\<rparr>)" "cur t = cur s"
    using resume_sleep(1-3)
    by (auto simp: sleep_resume_def cur_proc_def upd_proc_def kdefs acquire_def release_def
        split: if_splits)
  then show ?case
    using resume_sleep(1,4) i by (auto intro!: sched_inv_table [of s t] simp: sched_inv_def)
next
  case (do_wakeup c s t)
  then show ?case
    by (auto intro!: sched_inv_table [of s t] simp: wakeup_eq wake_table_def woken_def sched_inv_def split: if_splits)
next
  case (do_kill pid s r t)
  then have "L_ptable \<notin> set (held s)"
    by (auto simp: kill_def kdefs acquire_def split: if_splits)
  moreover have "distinct (held s)" "cur s = None \<longrightarrow> set (held s) \<subseteq> {L_ptable}"
    using do_kill(2) by (simp_all add: sched_inv_def)
  ultimately show ?case
    using do_kill(1) by (auto intro!: sched_inv_table [OF do_kill(2)] simp: kill_eq
        split: option.splits if_splits)
next
  case (do_yield s t u)
  then show ?case by (auto simp: yield_Done undispatch_def kdefs sched_inv_def)
next
  case (do_sleep c lk s t u)
  then show ?case by (auto elim!: sleep_SleepD simp: undispatch_def kdefs sched_inv_def)
qed (auto simp: acquire_Done release_Done yield_resume_def forkret_def sched_inv_def
   distinct_remove1 dest: set_remove1_subset [THEN subsetD]
   intro!: sched_inv_locks)

text \<open>
  The scheduler starts with no process running or asleep: \<open>userinit\<close> has made the first
  one RUNNABLE.
\<close>

definition sched_boot :: "kproc \<Rightarrow> bool" where
  "sched_boot s \<longleftrightarrow> cur s = None \<and> held s = []
     \<and> (\<forall>i<NPROC. p_state (ptable s i) \<noteq> RUNNING \<and> p_state (ptable s i) \<noteq> SLEEPING)"

inductive sched_reachable :: "kproc \<Rightarrow> bool" where
  boot: "sched_boot s \<Longrightarrow> sched_reachable s"
| step: "sched_reachable s \<Longrightarrow> sched_step s t \<Longrightarrow> sched_reachable t"

lemma sched_inv_boot: "sched_boot s \<Longrightarrow> sched_inv s"
  by (auto simp: sched_boot_def sched_inv_def)

lemma sched_reachable_inv: "sched_reachable s \<Longrightarrow> sched_inv s"
  by (induction rule: sched_reachable.induct) (auto intro: sched_inv_boot sched_inv_step)

text \<open>A boot state with one process ready to run, for the witnesses.\<close>

definition one_ready :: kproc where
  "one_ready = \<lparr>held = [], ptable = (\<lambda>i. if i = 0 then zero_proc\<lparr>p_state := RUNNABLE, p_pid := 1\<rparr>
     else zero_proc), cur = None, initproc = Some 0, nextpid = 2\<rparr>"


lemma one_ready_runs:
  "\<exists>s. sched_reachable s \<and> cur s = Some 0 \<and> p_state (ptable s 0) = RUNNING \<and> held s = []"
proof -
  let ?s1 = "one_ready\<lparr>held := [L_ptable]\<rparr>"
  let ?s2 = "?s1\<lparr>cur := Some 0, ptable := (ptable one_ready)(0 := (ptable one_ready 0)\<lparr>p_state := RUNNING\<rparr>)\<rparr>"
  have "sched_reachable one_ready"
    by (rule sched_reachable.boot) (simp add: sched_boot_def one_ready_def zero_proc_def)
  then have "sched_reachable ?s1"
    by (rule sched_reachable.step [OF _ lock_table]) (simp_all add: one_ready_def acquire_def)
  then have "sched_reachable ?s2"
    by (rule sched_reachable.step [OF _ switch_to [of _ 0 0]])
      (simp_all add: one_ready_def next_runnable_def dispatch_def upd_proc_def kdefs upt_conv_Cons)
  then have "sched_reachable (?s2\<lparr>held := []\<rparr>)"
    by (rule sched_reachable.step [OF _ resume_fork]) (simp_all add: forkret_def release_def)
  then show ?thesis by (intro exI [of _ "?s2\<lparr>held := []\<rparr>"]) simp
qed




text \<open>
  C8: \<open>kill\<close> marks the first table entry with that pid as killed, makes it RUNNABLE if it was SLEEPING and
  leaves its state alone otherwise; no other field and no other entry changes. It returns -1, with
  the table unchanged, when no entry has the pid.
\<close>

theorem kill_correct:
  assumes "L_ptable \<notin> set (held s)"
  shows "runs (kill pid) s (\<lambda>r t. held t = held s \<and>
    (if \<forall>i<NPROC. p_pid (ptable s i) \<noteq> pid then r = - 1 \<and> ptable t = ptable s
     else r = 0 \<and> (\<exists>i<NPROC. p_pid (ptable s i) = pid \<and> (\<forall>j<i. p_pid (ptable s j) \<noteq> pid)
       \<and> ptable t = (ptable s)(i := (ptable s i)\<lparr>p_killed := True,
           p_state := if p_state (ptable s i) = SLEEPING then RUNNABLE else p_state (ptable s i)\<rparr>))))"
proof (cases "find (\<lambda>i. p_pid (ptable s i) = pid) [0..<NPROC]")
  case None
  then have "\<forall>i<NPROC. p_pid (ptable s i) \<noteq> pid" unfolding find_upt_None .
  moreover have "kill pid s = Done (- 1) s" using assms None by (simp add: kill_eq)
  ultimately show ?thesis by (simp add: runs_def)
next
  case (Some i)
  then have "i < NPROC" "p_pid (ptable s i) = pid" "\<forall>j<i. p_pid (ptable s j) \<noteq> pid"
    by (simp_all add: find_upt_Some)
  then show ?thesis using assms Some by (auto simp: runs_def kill_eq intro!: exI [of _ i])
qed

theorem kill_correct_witness:
  "runs (kill 1) (one_ready\<lparr>ptable := (ptable one_ready)(0 := zero_proc\<lparr>p_state := SLEEPING, p_pid := 1\<rparr>)\<rparr>)
     (\<lambda>r t. r = 0 \<and> (\<exists>i<NPROC. p_killed (ptable t i) \<and> p_state (ptable t i) = RUNNABLE))"
proof -
  let ?s = "one_ready\<lparr>ptable := (ptable one_ready)(0 := zero_proc\<lparr>p_state := SLEEPING, p_pid := 1\<rparr>)\<rparr>"
  have ex: "\<not> (\<forall>i<NPROC. p_pid (ptable ?s i) \<noteq> 1)" by (auto intro!: exI [of _ 0])
  have "p_state (ptable ?s i) = SLEEPING" if "p_pid (ptable ?s i) = 1" for i
    using that by (auto simp: one_ready_def zero_proc_def split: if_splits)
  then show ?thesis
    using ex by (intro runs_mono [OF kill_correct [of ?s 1]]) (simp add: one_ready_def, auto simp only: if_False, auto)
qed

text \<open>
  The search does not look at the state of an entry, and a free entry has pid 0: \<open>kill(0)\<close>
  succeeds and marks a free entry as killed.
\<close>

lemma kill_marks_unused_entry:
  "runs (kill 0) one_ready (\<lambda>r t. r = 0 \<and> p_state (ptable t 1) = UNUSED \<and> p_killed (ptable t 1))"
proof -
  have "find (\<lambda>i. p_pid (ptable one_ready i) = 0) [0..<NPROC] = Some 1"
    by (simp add: find_upt_Some one_ready_def zero_proc_def)
  then show ?thesis by (simp add: runs_def kill_eq one_ready_def zero_proc_def)
qed

end
