(* ===== verification/Kalloc.thy ===== *)
theory Kalloc
  imports Proc_Table
begin

text \<open>
  The physical page allocator (\<open>kernel/kalloc.c\<close>, with the page macros of \<open>kernel/mmu.h\<close>).
  The free list is threaded through the free pages themselves: \<open>struct run\<close> is the first
  word of a page. Physical memory is one byte object, \<open>phys\<close>, indexed by address.
\<close>

abbreviation PGSIZE :: uint where "PGSIZE \<equiv> 4096"
abbreviation PHYSTOP :: uint where "PHYSTOP \<equiv> 0x1000000"

definition PGROUNDUP :: "uint \<Rightarrow> uint" where
  "PGROUNDUP sz = (sz + PGSIZE - 1) AND NOT (PGSIZE - 1)"

definition PGROUNDDOWN :: "uint \<Rightarrow> uint" where
  "PGROUNDDOWN a = a AND NOT (PGSIZE - 1)"

text \<open>
  \<open>kend\<close> is the linker's symbol \<open>end\<close>, the first address after the kernel image; it is a
  field that no routine writes.
\<close>

record kmem = kproc +
  phys :: bytes
  freelist :: uint
  kend :: uint

definition mem_rd32 :: "uint \<Rightarrow> ('a kmem_scheme, uint) K" where
  "mem_rd32 a = kget (\<lambda>s. rd32 (phys s) (unat a))"

definition mem_wr32 :: "uint \<Rightarrow> uint \<Rightarrow> ('a kmem_scheme, unit) K" where
  "mem_wr32 a v = kmod (\<lambda>s. s\<lparr>phys := wr32 (phys s) (unat a) v\<rparr>)"

definition mem_memset :: "uint \<Rightarrow> uchar \<Rightarrow> nat \<Rightarrow> ('a kmem_scheme, unit) K" where
  "mem_memset a c n = kmod (\<lambda>s. s\<lparr>phys := memset (phys s) (unat a) c n\<rparr>)"

definition kfree :: "uint \<Rightarrow> ('a kmem_scheme, unit) K" where
  "kfree v =
     kbind (kget kend) (\<lambda>end.
       if v mod PGSIZE \<noteq> 0 \<or> v < end \<or> v \<ge> PHYSTOP then kpanic ''kfree''
       else
         kseq (mem_memset v 1 4096) (
         kseq (acquire L_kmem) (
         kbind (kget freelist) (\<lambda>next.
         kseq (mem_wr32 v next) (
         kseq (kmod (\<lambda>s. s\<lparr>freelist := v\<rparr>)) (
         release L_kmem))))))"

definition kalloc :: "('a kmem_scheme, uint) K" where
  "kalloc =
     kseq (acquire L_kmem) (
     kbind (kget freelist) (\<lambda>r.
     kseq (kwhen (r \<noteq> 0) (
       kbind (mem_rd32 r) (\<lambda>next. kmod (\<lambda>s. s\<lparr>freelist := next\<rparr>)))) (
     kseq (release L_kmem) (kret r))))"

text \<open>\<open>kinit\<close>'s loop: \<open>p + PGSIZE \<le> PHYSTOP\<close>, in steps of a page.\<close>

function kinit_loop :: "nat \<Rightarrow> ('a kmem_scheme, unit) K" where
  "kinit_loop p =
     (if p + 4096 \<le> unat PHYSTOP then kseq (kfree (of_nat p)) (kinit_loop (p + 4096))
      else kret ())"
  by pat_completeness auto
termination
  by (relation "measure (\<lambda>p. unat PHYSTOP - p)") auto

declare kinit_loop.simps [simp del]

definition kinit :: "('a kmem_scheme, unit) K" where
  "kinit =
     kseq (lock_init L_kmem) (
     kbind (kget kend) (\<lambda>end. kinit_loop (unat (PGROUNDUP end))))"

section \<open>The free list in memory\<close>

text \<open>\<open>chain m p ps\<close>: following the links from \<open>p\<close> visits the pages \<open>ps\<close> and ends at 0.\<close>

fun chain :: "bytes \<Rightarrow> uint \<Rightarrow> uint list \<Rightarrow> bool" where
  "chain m p [] \<longleftrightarrow> p = 0"
| "chain m p (q # qs) \<longleftrightarrow> p = q \<and> q \<noteq> 0 \<and> chain m (rd32 m (unat q)) qs"

definition page_ok :: "uint \<Rightarrow> uint \<Rightarrow> bool" where
  "page_ok end p \<longleftrightarrow> p mod PGSIZE = 0 \<and> end \<le> p \<and> p < PHYSTOP \<and> p \<noteq> 0"

definition page_bytes :: "uint \<Rightarrow> nat set" where
  "page_bytes p = {unat p ..< unat p + 4096}"

text \<open>The allocator invariant, with the free pages as a ghost list.\<close>

definition kmem_inv :: "uint list \<Rightarrow> 'a kmem_scheme \<Rightarrow> bool" where
  "kmem_inv ps s \<longleftrightarrow> chain (phys s) (freelist s) ps \<and> distinct ps
     \<and> (\<forall>p\<in>set ps. page_ok (kend s) p)"

lemma page_bytes_disjoint:
  assumes "p mod PGSIZE = 0" "q mod PGSIZE = 0" "p \<noteq> q"
  shows "page_bytes p \<inter> page_bytes q = {}"
proof -
  have "unat p mod 4096 = 0" "unat q mod 4096 = 0"
    using assms(1,2) by (simp_all add: word_mod_eq_0)
  then obtain a b where ab: "unat p = 4096 * a" "unat q = 4096 * b"
    by (metis dvd_def mod_eq_0_iff_dvd)
  then have "a \<noteq> b" using assms(3) by (metis word_unat_eq_iff)
  then show ?thesis using ab by (auto simp: page_bytes_def)
qed

lemma chain_cong:
  "(\<And>p i. p \<in> set ps \<Longrightarrow> i \<in> page_bytes p \<Longrightarrow> m' i = m i) \<Longrightarrow> chain m' p ps = chain m p ps"
proof (induction ps arbitrary: p)
  case (Cons q qs)
  have "rd32 m' (unat q) = rd32 m (unat q)"
    by (rule rd32_cong, rule Cons.prems [of q]) (auto simp: page_bytes_def)
  then show ?case using Cons by auto
qed simp

lemma unat_PGROUNDDOWN: "unat (PGROUNDDOWN a) = unat a div 4096 * 4096"
proof -
  have m: "(4095::uint) = mask 12" by (simp add: mask_eq_exp_minus_1)
  have "PGROUNDDOWN a = push_bit 12 (drop_bit 12 a)"
    unfolding PGROUNDDOWN_def by (rule bit_word_eqI) (auto simp: m bit_simps)
  then have "unat (PGROUNDDOWN a) = take_bit 32 (push_bit 12 (unat a div 4096))"
    by (simp add: unsigned_push_bit_eq unat_drop_bit_eq drop_bit_eq_div unat_div)
  also have "\<dots> = unat a div 4096 * 4096"
    using uint_bound [of a] by (simp add: push_bit_eq_mult take_bit_eq_mod)
  finally show ?thesis .
qed

lemma PGROUNDUP_down: "PGROUNDUP sz = PGROUNDDOWN (sz + 4095)"
  by (simp add: PGROUNDUP_def PGROUNDDOWN_def add.commute)

lemma unat_PGROUNDUP:
  "unat sz \<le> 2 ^ 32 - 4096 \<Longrightarrow> unat (PGROUNDUP sz) = (unat sz + 4095) div 4096 * 4096"
  by (simp add: PGROUNDUP_down unat_PGROUNDDOWN unat_word_ariths)

section \<open>Allocation and release\<close>

lemma kfree_eq:
  assumes "page_ok (kend s) v" "L_kmem \<notin> set (held s)"
  shows "kfree v s = Done ()
    (s\<lparr>phys := wr32 (memset (phys s) (unat v) 1 4096) (unat v) (freelist s), freelist := v\<rparr>)"
  using assms
  by (auto simp: kfree_def page_ok_def kdefs mem_memset_def mem_wr32_def acquire_def release_def
      not_less not_le)

lemma kfree_bad: "v mod PGSIZE \<noteq> 0 \<or> v < kend s \<or> PHYSTOP \<le> v \<Longrightarrow> kfree v s = Panic ''kfree''"
  by (auto simp: kfree_def kdefs)

lemma kalloc_eq:
  assumes "L_kmem \<notin> set (held s)"
  shows "kalloc s = Done (freelist s)
    (if freelist s = 0 then s else s\<lparr>freelist := rd32 (phys s) (unat (freelist s))\<rparr>)"
  using assms by (simp add: kalloc_def kdefs mem_rd32_def acquire_def release_def)

lemma page_ok_aligned: "page_ok e p \<Longrightarrow> p mod PGSIZE = 0"
  by (simp add: page_ok_def)

lemma kmem_inv_alloc:
  assumes "kmem_inv (p # ps) s" "L_kmem \<notin> set (held s)"
  shows "kalloc s = Done p (s\<lparr>freelist := rd32 (phys s) (unat p)\<rparr>)"
    and "kmem_inv ps (s\<lparr>freelist := rd32 (phys s) (unat p)\<rparr>)"
  using assms by (auto simp: kmem_inv_def kalloc_eq)

lemma kmem_inv_none: "kmem_inv [] s \<Longrightarrow> L_kmem \<notin> set (held s) \<Longrightarrow> kalloc s = Done 0 s"
  by (simp add: kmem_inv_def kalloc_eq)

text \<open>Writes outside the free pages keep the invariant.\<close>

lemma kmem_inv_frame:
  assumes "kmem_inv ps s" "freelist t = freelist s" "kend t = kend s"
    and "\<And>p i. p \<in> set ps \<Longrightarrow> i \<in> page_bytes p \<Longrightarrow> phys t i = phys s i"
  shows "kmem_inv ps t"
  using assms chain_cong [of ps "phys t" "phys s"] by (auto simp: kmem_inv_def)

lemma kmem_inv_free:
  assumes inv: "kmem_inv ps s" and v: "page_ok (kend s) v" "v \<notin> set ps"
    and lock: "L_kmem \<notin> set (held s)"
  shows "runs (kfree v) s (\<lambda>_ t. kmem_inv (v # ps) t \<and> held t = held s \<and> kend t = kend s
    \<and> (\<forall>i. i \<notin> page_bytes v \<longrightarrow> phys t i = phys s i))"
proof (rule runsI, rule kfree_eq [OF v(1) lock], intro conjI)
  let ?m = "wr32 (memset (phys s) (unat v) 1 4096) (unat v) (freelist s)"
  have out: "?m i = phys s i" if "i \<notin> page_bytes v" for i
    using that by (auto simp: page_bytes_def memset_at wr32_other)
  have "?m i = phys s i" if "p \<in> set ps" "i \<in> page_bytes p" for p i
  proof -
    have "page_ok (kend s) p" "p \<noteq> v" using inv v that by (auto simp: kmem_inv_def)
    then have "page_bytes p \<inter> page_bytes v = {}"
      using v by (intro page_bytes_disjoint) (auto simp: page_ok_def)
    then show ?thesis using that out by blast
  qed
  then have "chain ?m (freelist s) ps"
    using inv chain_cong [of ps ?m "phys s"] by (auto simp: kmem_inv_def)
  then show "kmem_inv (v # ps) (s\<lparr>phys := ?m, freelist := v\<rparr>)"
    using inv v by (auto simp: kmem_inv_def page_ok_def)
  show "\<forall>i. i \<notin> page_bytes v \<longrightarrow> phys (s\<lparr>phys := ?m, freelist := v\<rparr>) i = phys s i"
    using out by simp
qed auto

section \<open>The interface of the page pool\<close>

text \<open>
  What the users of the allocator rely on: a pool of distinct pages from which \<open>alloc\<close>
  takes the first, or returns 0 when it is empty, and to which \<open>free\<close> adds.
\<close>

locale page_pool =
  fixes alloc :: "('s, uint) K"
    and free :: "uint \<Rightarrow> ('s, unit) K"
    and pool :: "uint list \<Rightarrow> 's \<Rightarrow> bool"
    and page :: "'s \<Rightarrow> uint \<Rightarrow> bool"
    and ready :: "'s \<Rightarrow> bool"
  assumes alloc_page: "pool (p # ps) s \<Longrightarrow> ready s \<Longrightarrow>
      runs alloc s (\<lambda>r t. r = p \<and> pool ps t \<and> ready t \<and> page t = page s)"
    and alloc_empty: "pool [] s \<Longrightarrow> ready s \<Longrightarrow> alloc s = Done 0 s"
    and free_page: "pool ps s \<Longrightarrow> ready s \<Longrightarrow> page s p \<Longrightarrow> p \<notin> set ps \<Longrightarrow>
      runs (free p) s (\<lambda>_ t. pool (p # ps) t \<and> ready t \<and> page t = page s)"
    and pool_distinct: "pool ps s \<Longrightarrow> distinct ps"
    and pool_page: "pool ps s \<Longrightarrow> p \<in> set ps \<Longrightarrow> page s p \<and> p \<noteq> 0"
begin

lemma alloc_after_free:
  assumes "pool ps s" "ready s" "page s p" "p \<notin> set ps"
  shows "runs (kseq (free p) alloc) s (\<lambda>r t. r = p \<and> pool ps t \<and> ready t \<and> page t = page s)"
  by (rule runs_kseq, rule runs_mono [OF free_page [OF assms]])
    (auto elim!: runs_mono [OF alloc_page])

lemma free_after_alloc:
  assumes "pool (p # ps) s" "ready s"
  shows "runs (kbind alloc free) s (\<lambda>_ t. pool (p # ps) t \<and> ready t)"
proof (rule runs_kbind, rule runs_mono [OF alloc_page [OF assms]])
  fix a t
  assume t: "a = p \<and> pool ps t \<and> ready t \<and> page t = page s"
  have "p \<notin> set ps" "page s p" using pool_distinct [OF assms(1)] pool_page [OF assms(1)] by auto
  then show "runs (free a) t (\<lambda>_ t. pool (p # ps) t \<and> ready t)"
    using t runs_mono [OF free_page [of ps t p]] by auto
qed

text \<open>Two allocations in a row give two different pages.\<close>

lemma alloc_twice:
  assumes "pool (p # q # ps) s" "ready s"
  shows "runs (kbind alloc (\<lambda>a. kbind alloc (\<lambda>b. kret (a, b)))) s
    (\<lambda>(a, b) t. a \<noteq> b \<and> a \<noteq> 0 \<and> b \<noteq> 0 \<and> pool ps t \<and> ready t)"
proof (rule runs_kbind, rule runs_mono [OF alloc_page [OF assms]])
  fix a t
  assume t: "a = p \<and> pool (q # ps) t \<and> ready t \<and> page t = page s"
  have "p \<noteq> q" "p \<noteq> 0" "q \<noteq> 0"
    using pool_distinct [OF assms(1)] pool_page [OF assms(1)] by auto
  then show "runs (kbind alloc (\<lambda>b. kret (a, b))) t
      (\<lambda>(a, b) t. a \<noteq> b \<and> a \<noteq> 0 \<and> b \<noteq> 0 \<and> pool ps t \<and> ready t)"
    using t alloc_page [of q ps t] by (auto intro!: runs_kbind runs_kret elim!: runs_mono)
qed

end

interpretation kpool: page_pool kalloc kfree kmem_inv "\<lambda>s. page_ok (kend s)"
    "\<lambda>s. L_kmem \<notin> set (held s)"
proof unfold_locales
  fix p ps and s :: "'a kmem_scheme"
  assume "kmem_inv (p # ps) s" "L_kmem \<notin> set (held s)"
  then show "runs kalloc s (\<lambda>r t. r = p \<and> kmem_inv ps t \<and> L_kmem \<notin> set (held t)
      \<and> page_ok (kend t) = page_ok (kend s))"
    using kmem_inv_alloc [of p ps s] by (auto intro!: runsI)
next
  fix ps p and s :: "'a kmem_scheme"
  assume "kmem_inv ps s" "L_kmem \<notin> set (held s)" "page_ok (kend s) p" "p \<notin> set ps"
  then show "runs (kfree p) s (\<lambda>_ t. kmem_inv (p # ps) t \<and> L_kmem \<notin> set (held t)
      \<and> page_ok (kend t) = page_ok (kend s))"
    by (auto intro: runs_mono [OF kmem_inv_free])
qed (auto simp: kmem_inv_none, auto simp: kmem_inv_def page_ok_def)

section \<open>Initialisation\<close>

definition pages_above :: "nat \<Rightarrow> uint set" where
  "pages_above p = {q. q mod PGSIZE = 0 \<and> p \<le> unat q \<and> q < PHYSTOP}"

lemma pages_above_none: "p mod 4096 = 0 \<Longrightarrow> \<not> p + 4096 \<le> unat PHYSTOP \<Longrightarrow> pages_above p = {}"
  by (auto simp: pages_above_def word_less_nat_alt)

lemma pages_above_step:
  assumes "p mod 4096 = 0" "p + 4096 \<le> unat PHYSTOP"
  shows "pages_above p = insert (of_nat p) (pages_above (p + 4096))"
proof -
  have p: "unat (of_nat p :: uint) = p" using assms by (simp add: unat_of_nat_small)
  have "q = of_nat p \<or> p + 4096 \<le> unat q" if "q mod PGSIZE = 0" "p \<le> unat q" for q :: uint
  proof -
    have "unat q mod 4096 = 0" using that by (simp add: word_mod_eq_0)
    then have "unat q = p \<or> p + 4096 \<le> unat q" using assms(1) that(2) by (intro aligned_step)
    then show ?thesis by (metis of_nat_unat ucast_id)
  qed
  moreover have "of_nat p mod PGSIZE = 0" "p \<le> unat (of_nat p :: uint)" "of_nat p < PHYSTOP"
    using assms p by (simp_all add: word_mod_eq_0 word_less_nat_alt)
  moreover have "p + 4096 \<le> unat q \<Longrightarrow> p \<le> unat q" for q :: uint by simp
  ultimately show ?thesis
    unfolding pages_above_def by (intro set_eqI) (simp only: mem_Collect_eq insert_iff, metis)
qed

lemma kinit_loop_runs:
  fixes s :: "'a kmem_scheme"
  assumes "kmem_inv ps s" "L_kmem \<notin> set (held s)" "p mod 4096 = 0" "0 < p" "unat (kend s) \<le> p"
    and "\<forall>q\<in>set ps. unat q < p"
  shows "runs (kinit_loop p) s (\<lambda>_ t. \<exists>qs. kmem_inv (qs @ ps) t \<and> set qs = pages_above p
    \<and> held t = held s \<and> kend t = kend s)"
  using assms
proof (induction p arbitrary: s ps rule: kinit_loop.induct)
  case (1 p)
  show ?case
  proof (cases "p + 4096 \<le> unat PHYSTOP")
    case False
    then show ?thesis
      using 1 by (subst kinit_loop.simps) (auto intro!: runs_kret simp: pages_above_none)
  next
    case True
    then have p: "unat (of_nat p :: uint) = p" by (simp add: unat_of_nat_small)
    have "of_nat p \<noteq> (0 :: uint)" using p 1(5) by (metis not_less_zero unat_0)
    then have ok: "page_ok (kend s) (of_nat p)"
      using 1(4-6) True p by (simp add: page_ok_def word_mod_eq_0 word_less_nat_alt word_le_nat_alt)
    have ok': "of_nat p \<notin> set ps" using 1(7) p by auto
    have "runs (kinit_loop (p + 4096)) t (\<lambda>_ u. \<exists>qs. kmem_inv (qs @ ps) u
        \<and> set qs = pages_above p \<and> held u = held s \<and> kend u = kend s)"
      if t: "kmem_inv (of_nat p # ps) t" "held t = held s" "kend t = kend s"
      for t :: "'a kmem_scheme"
    proof -
      have "runs (kinit_loop (p + 4096)) t (\<lambda>_ u. \<exists>qs. kmem_inv (qs @ of_nat p # ps) u
          \<and> set qs = pages_above (p + 4096) \<and> held u = held t \<and> kend u = kend t)"
        using t 1(3-7) p True by (intro 1(1)) fastforce+
      then show ?thesis
      proof (rule runs_mono, elim exE conjE)
        fix a u qs
        assume "kmem_inv (qs @ of_nat p # ps) u" "set qs = pages_above (p + 4096)"
          "held u = held t" "kend u = kend t"
        then show "\<exists>qs. kmem_inv (qs @ ps) u \<and> set qs = pages_above p \<and> held u = held s
            \<and> kend u = kend s"
          using t 1(4) True by (intro exI [of _ "qs @ [of_nat p]"]) (simp add: pages_above_step)
      qed
    qed
    then have "runs (kseq (kfree (of_nat p)) (kinit_loop (p + 4096))) s (\<lambda>_ u. \<exists>qs.
        kmem_inv (qs @ ps) u \<and> set qs = pages_above p \<and> held u = held s \<and> kend u = kend s)"
      by (intro runs_kseq runs_mono [OF kmem_inv_free [OF 1(2) ok ok' 1(3)]]) blast
    then show ?thesis using True by (subst kinit_loop.simps) simp
  qed
qed

lemma unat_le_PGROUNDUP:
  assumes "unat e \<le> unat PHYSTOP" "q mod PGSIZE = 0"
  shows "unat (PGROUNDUP e) \<le> unat q \<longleftrightarrow> e \<le> q"
proof -
  have "unat (PGROUNDUP e) = (unat e + 4095) div 4096 * 4096"
    using assms(1) by (intro unat_PGROUNDUP) simp
  moreover have "unat q mod 4096 = 0" using assms(2) by (simp add: word_mod_eq_0)
  ultimately show ?thesis by (auto simp: word_le_nat_alt)
qed

text \<open>
  C4: booted with an empty free list and the kernel image ending below \<open>PHYSTOP\<close>, \<open>kinit\<close>
  returns with the free list holding, once each, exactly the page-aligned addresses from
  \<open>end\<close> up to \<open>PHYSTOP\<close>.
\<close>

theorem kinit_frees_all:
  assumes "held s = []" "freelist s = 0" "0 < kend s" "kend s \<le> PHYSTOP"
  shows "runs kinit s (\<lambda>_ t. \<exists>ps. kmem_inv ps t \<and> held t = []
    \<and> set ps = {p. p mod PGSIZE = 0 \<and> kend s \<le> p \<and> p < PHYSTOP})"
proof -
  let ?p = "unat (PGROUNDUP (kend s))"
  have p: "?p = (unat (kend s) + 4095) div 4096 * 4096" "unat (kend s) \<le> unat PHYSTOP"
    using assms(4) by (auto intro!: unat_PGROUNDUP simp: word_le_nat_alt)
  have "0 < unat (kend s)" using assms(3) by (simp add: word_less_nat_alt)
  then have *: "?p mod 4096 = 0" "0 < ?p" "unat (kend s) \<le> ?p" unfolding p by auto
  have "pages_above ?p = {p. p mod PGSIZE = 0 \<and> kend s \<le> p \<and> p < PHYSTOP}"
    unfolding pages_above_def
    by (rule Collect_cong) (use unat_le_PGROUNDUP [OF p(2)] in metis)
  then show ?thesis
    using assms(1,2) unfolding kinit_def
    by (intro runs_kseq runs_lock_init runs_kbind runs_kget runs_mono [OF kinit_loop_runs [of "[]" s, OF _ _ *]])
      (auto simp: kmem_inv_def [of "[]"])
qed

text \<open>The memory at boot: no process, an empty free list, every byte zero.\<close>

definition kmem_boot :: "uint \<Rightarrow> kmem" where
  "kmem_boot end = \<lparr>held = [], ptable = (\<lambda>_. zero_proc), cur = None, initproc = None, nextpid = 1,
     phys = (\<lambda>_. 0), freelist = 0, kend = end\<rparr>"

theorem kinit_frees_all_witness:
  "runs kinit (kmem_boot 0x10abcd) (\<lambda>_ t. \<exists>ps. kmem_inv ps t \<and> held t = []
    \<and> set ps = {p. p mod PGSIZE = 0 \<and> 0x10abcd \<le> p \<and> p < PHYSTOP})"
  using kinit_frees_all [of "kmem_boot 0x10abcd"] by (simp add: kmem_boot_def)

text \<open>
  C5: freeing a page and allocating gives that page back, and the pool and every byte
  outside the page are as before.
\<close>

theorem kfree_kalloc_roundtrip:
  assumes "kmem_inv ps s" "held s = []" "page_ok (kend s) v" "v \<notin> set ps"
  shows "runs (kseq (kfree v) kalloc) s (\<lambda>r t. r = v \<and> kmem_inv ps t
    \<and> (\<forall>i. i \<notin> page_bytes v \<longrightarrow> phys t i = phys s i))"
proof -
  obtain t where t: "kfree v s = Done () t" "kmem_inv (v # ps) t" "held t = []"
      "\<forall>i. i \<notin> page_bytes v \<longrightarrow> phys t i = phys s i"
    using kmem_inv_free [OF assms(1,3,4)] assms(2) by (auto simp: runs_def)
  then have "kalloc t = Done v (t\<lparr>freelist := rd32 (phys t) (unat v)\<rparr>)"
      "kmem_inv ps (t\<lparr>freelist := rd32 (phys t) (unat v)\<rparr>)"
    using kmem_inv_alloc [OF t(2)] by simp_all
  then show ?thesis using t by (simp add: runs_def kseq_def kbind_def)
qed

theorem kfree_kalloc_roundtrip_witness:
  "runs (kseq (kfree 0x2000) kalloc) (kmem_boot 0x1800) (\<lambda>r t. r = 0x2000 \<and> kmem_inv [] t
    \<and> (\<forall>i. i \<notin> page_bytes 0x2000 \<longrightarrow> phys t i = 0))"
  using kfree_kalloc_roundtrip [of "[]" "kmem_boot 0x1800" "0x2000"]
  by (simp add: kmem_boot_def kmem_inv_def page_ok_def)

text \<open>
  Two allocations from a pool of at least two pages return two different non-null
  pages, and what is left is the rest of the pool.
\<close>

theorem kalloc_distinct:
  assumes "kmem_inv (p # q # ps) s" "held s = []"
  shows "runs (kbind kalloc (\<lambda>a. kbind kalloc (\<lambda>b. kret (a, b)))) s
    (\<lambda>(a, b) t. a \<noteq> b \<and> a \<noteq> 0 \<and> b \<noteq> 0 \<and> kmem_inv ps t)"
  using assms(2) by (intro runs_mono [OF kpool.alloc_twice [OF assms(1)]]) auto

theorem kalloc_distinct_witness:
  "runs (kbind kalloc (\<lambda>a. kbind kalloc (\<lambda>b. kret (a, b))))
    ((kmem_boot 0x1800)\<lparr>freelist := 0x3000, phys := wr32 (\<lambda>_. 0) 0x3000 0x2000\<rparr>)
    (\<lambda>(a, b) t. a \<noteq> b \<and> a \<noteq> 0 \<and> b \<noteq> 0 \<and> kmem_inv [] t)"
proof (rule kalloc_distinct)
  show "kmem_inv [0x3000, 0x2000]
      ((kmem_boot 0x1800)\<lparr>freelist := 0x3000, phys := wr32 (\<lambda>_. 0) 0x3000 0x2000\<rparr>)"
    by (simp add: kmem_boot_def kmem_inv_def page_ok_def rd32_wr32_other rd32_def [of "\<lambda>_. 0"])
qed (simp add: kmem_boot_def)

end
