(* ===== verification/Ide.thy ===== *)
theory Ide
  imports Kalloc
begin

text \<open>
  The disk driver (\<open>kernel/ide.c\<close>, with \<open>struct buf\<close> of \<open>kernel/buf.h\<close>). The controller is
  part of the state: the bytes last written to its ports, the sectors of its two drives,
  and whether it reports an error. Buffers are named by their index in \<open>bcache.buf\<close>; index
  \<open>NBUF\<close> is \<open>bcache.head\<close>. A process that waits for the disk sleeps, and while it sleeps the
  interrupts of the disk are served, so that \<open>iderw\<close> as a whole is one routine.
\<close>

abbreviation NBUF :: nat where "NBUF \<equiv> 10"

abbreviation B_BUSY :: uint where "B_BUSY \<equiv> 1"
abbreviation B_VALID :: uint where "B_VALID \<equiv> 2"
abbreviation B_DIRTY :: uint where "B_DIRTY \<equiv> 4"

record buf =
  b_flags :: uint
  b_dev :: uint
  b_sector :: uint
  b_prev :: nat
  b_next :: nat
  b_qnext :: "nat option"
  b_data :: bytes

record kide = kmem +
  bufs :: "nat \<Rightarrow> buf"
  idequeue :: "nat option"
  havedisk1 :: bool
  taskfile :: "nat \<Rightarrow> uchar"
  disk :: "uint \<Rightarrow> uint \<Rightarrow> bytes"
  ide_err :: bool

definition upd_buf :: "nat \<Rightarrow> (buf \<Rightarrow> buf) \<Rightarrow> ('a kide_scheme, unit) K" where
  "upd_buf b f = kmod (\<lambda>s. s\<lparr>bufs := (bufs s)(b := f (bufs s b))\<rparr>)"

section \<open>The controller\<close>

definition outb :: "nat \<Rightarrow> uchar \<Rightarrow> ('a kide_scheme, unit) K" where
  "outb port v = kmod (\<lambda>s. s\<lparr>taskfile := (taskfile s)(port := v)\<rparr>)"

text \<open>The drive and the 28-bit sector address the registers select.\<close>

definition ide_drive :: "(nat \<Rightarrow> uchar) \<Rightarrow> uint" where
  "ide_drive r = drop_bit 4 (ucast (r 0x1f6)) AND 1"

definition ide_lba :: "(nat \<Rightarrow> uchar) \<Rightarrow> uint" where
  "ide_lba r = ucast (r 0x1f3) OR push_bit 8 (ucast (r 0x1f4)) OR push_bit 16 (ucast (r 0x1f5))
     OR push_bit 24 (ucast (r 0x1f6) AND 0x0f)"

definition outsl :: "nat \<Rightarrow> ('a kide_scheme, unit) K" where
  "outsl b = kmod (\<lambda>s.
     let d = ide_drive (taskfile s); n = ide_lba (taskfile s)
     in s\<lparr>disk := (disk s)(d := (disk s d)(n := memmove_obj (disk s d n) 0 (b_data (bufs s b)) 0 512))\<rparr>)"

definition insl :: "nat \<Rightarrow> ('a kide_scheme, unit) K" where
  "insl b = (\<lambda>s. upd_buf b (\<lambda>p. p\<lparr>b_data := memmove_obj (b_data p) 0
     (disk s (ide_drive (taskfile s)) (ide_lba (taskfile s))) 0 512\<rparr>) s)"

text \<open>\<open>idewait\<close> polls until the controller is ready; then the error bits decide.\<close>

definition idewait :: "bool \<Rightarrow> ('a kide_scheme, int) K" where
  "idewait checkerr = kget (\<lambda>s. if checkerr \<and> ide_err s then - 1 else 0)"

section \<open>The driver\<close>

text \<open>\<open>ideinit\<close>, with the bytes the status port of drive 1 gives to the 1000 polls.\<close>

definition ideinit :: "(nat \<Rightarrow> uchar) \<Rightarrow> ('a kide_scheme, unit) K" where
  "ideinit status =
     kseq (lock_init L_ide) (
     kseq (idewait False) (
     kseq (outb 0x1f6 (0xe0 OR push_bit 4 1)) (
     kseq (kwhen (\<exists>i\<in>set [0..<1000]. status i \<noteq> 0) (kmod (\<lambda>s. s\<lparr>havedisk1 := True\<rparr>))) (
     outb 0x1f6 (0xe0 OR push_bit 4 0)))))"

definition idestart :: "nat option \<Rightarrow> ('a kide_scheme, unit) K" where
  "idestart bp = (case bp of
       None \<Rightarrow> kpanic ''idestart''
     | Some b \<Rightarrow>
         kseq (idewait False) (
         kbind (kget (\<lambda>s. bufs s b)) (\<lambda>p.
         kseq (outb 0x3f6 0) (
         kseq (outb 0x1f2 1) (
         kseq (outb 0x1f3 (ucast (b_sector p AND 0xff))) (
         kseq (outb 0x1f4 (ucast (drop_bit 8 (b_sector p) AND 0xff))) (
         kseq (outb 0x1f5 (ucast (drop_bit 16 (b_sector p) AND 0xff))) (
         kseq (outb 0x1f6 (ucast (0xe0 OR push_bit 4 (b_dev p AND 1)
                 OR (drop_bit 24 (b_sector p) AND 0x0f)))) (
           if b_flags p AND B_DIRTY \<noteq> 0 then kseq (outb 0x1f7 0x30) (outsl b)
           else outb 0x1f7 0x20)))))))))"

definition ideintr :: "('a kide_scheme, unit) K" where
  "ideintr =
     kseq (acquire L_ide) (
     kbind (kget idequeue) (\<lambda>q. case q of
       None \<Rightarrow> release L_ide
     | Some b \<Rightarrow>
         kseq (kmod (\<lambda>s. s\<lparr>idequeue := b_qnext (bufs s b)\<rparr>)) (
         kbind (kget (\<lambda>s. b_flags (bufs s b))) (\<lambda>f.
         kseq (kwhen (f AND B_DIRTY = 0) (
           kbind (idewait True) (\<lambda>r. kwhen (r \<ge> 0) (insl b)))) (
         kseq (upd_buf b (\<lambda>p. p\<lparr>b_flags := b_flags p OR B_VALID\<rparr>)) (
         kseq (upd_buf b (\<lambda>p. p\<lparr>b_flags := b_flags p AND NOT B_DIRTY\<rparr>)) (
         kseq (wakeup (ChBuf b)) (
         kbind (kget idequeue) (\<lambda>q'.
         kseq (kwhen (q' \<noteq> None) (idestart q')) (
         release L_ide))))))))))"

text \<open>
  The end of the queue: the loop of \<open>iderw\<close> over \<open>qnext\<close> from a first buffer on, which does
  not return if the links form a cycle.
\<close>

partial_function (option) q_last :: "(nat \<Rightarrow> nat option) \<Rightarrow> nat \<Rightarrow> nat option" where
  "q_last qn b = (case qn b of None \<Rightarrow> Some b | Some c \<Rightarrow> q_last qn c)"

definition ide_append :: "nat \<Rightarrow> ('a kide_scheme, unit) K" where
  "ide_append b =
     kseq (upd_buf b (\<lambda>p. p\<lparr>b_qnext := None\<rparr>)) (\<lambda>s. case idequeue s of
         None \<Rightarrow> Done () (s\<lparr>idequeue := Some b\<rparr>)
       | Some h \<Rightarrow> (case q_last (\<lambda>c. b_qnext (bufs s c)) h of
             None \<Rightarrow> Spin
           | Some l \<Rightarrow> upd_buf l (\<lambda>p. p\<lparr>b_qnext := Some b\<rparr>) s))"

text \<open>
  While process \<open>i\<close> sleeps the scheduler has the CPU and the disk interrupts; after an
  interrupt that wakes it, it is dispatched again. At most \<open>NBUF\<close> requests can be pending.
\<close>

fun disk_wake :: "nat \<Rightarrow> nat \<Rightarrow> ('a kide_scheme, unit) K" where
  "disk_wake 0 i = kspin"
| "disk_wake (Suc n) i =
     kseq ideintr (
     kbind (kget (\<lambda>s. p_state (ptable s i))) (\<lambda>st.
       if st = RUNNABLE then kret () else disk_wake n i))"

definition sleep_disk :: "chan \<Rightarrow> lock \<Rightarrow> ('a kide_scheme, unit) K" where
  "sleep_disk c lk = (\<lambda>s. case cur s of
       None \<Rightarrow> Panic ''sleep''
     | Some i \<Rightarrow> (case sleep c lk s of
           Sleep _ t \<Rightarrow>
             kseq undispatch (
             kseq (release L_ptable) (
             kseq (disk_wake NBUF i) (
             kseq (acquire L_ptable) (
             kseq (dispatch i) (
             sleep_resume lk))))) t
         | r \<Rightarrow> r))"

text \<open>The waiting loop of \<open>iderw\<close>, for a bounded number of wakeups.\<close>

fun iderw_wait :: "nat \<Rightarrow> nat \<Rightarrow> ('a kide_scheme, unit) K" where
  "iderw_wait 0 b = kspin"
| "iderw_wait (Suc n) b =
     kbind (kget (\<lambda>s. b_flags (bufs s b))) (\<lambda>f.
       if f AND (B_VALID OR B_DIRTY) \<noteq> B_VALID
       then kseq (sleep_disk (ChBuf b) L_ide) (iderw_wait n b)
       else kret ())"

text \<open>The part of \<open>iderw\<close> before the wait, and the whole.\<close>

definition iderw_submit :: "nat \<Rightarrow> ('a kide_scheme, unit) K" where
  "iderw_submit b =
     kbind (kget (\<lambda>s. bufs s b)) (\<lambda>p.
     kbind (kget havedisk1) (\<lambda>have1.
       if b_flags p AND B_BUSY = 0 then kpanic ''iderw: buf not busy''
       else if b_flags p AND (B_VALID OR B_DIRTY) = B_VALID then kpanic ''iderw: nothing to do''
       else if b_dev p \<noteq> 0 \<and> \<not> have1 then kpanic ''iderw: ide disk 1 not present''
       else
         kseq (acquire L_ide) (
         kseq (ide_append b) (
         kbind (kget idequeue) (\<lambda>q.
           kwhen (q = Some b) (idestart (Some b)))))))"

definition iderw :: "nat \<Rightarrow> ('a kide_scheme, unit) K" where
  "iderw b =
     kseq (iderw_submit b) (
     kseq (iderw_wait NBUF b) (
     release L_ide))"

section \<open>The registers\<close>

text \<open>The registers after \<open>idestart\<close>.\<close>

definition ide_regs :: "buf \<Rightarrow> (nat \<Rightarrow> uchar) \<Rightarrow> nat \<Rightarrow> uchar" where
  "ide_regs p r = r(0x3f6 := 0, 0x1f2 := 1, 0x1f3 := ucast (b_sector p AND 0xff),
     0x1f4 := ucast (drop_bit 8 (b_sector p) AND 0xff),
     0x1f5 := ucast (drop_bit 16 (b_sector p) AND 0xff),
     0x1f6 := ucast (0xe0 OR push_bit 4 (b_dev p AND 1) OR (drop_bit 24 (b_sector p) AND 0x0f)),
     0x1f7 := (if b_flags p AND B_DIRTY \<noteq> 0 then 0x30 else 0x20))"

text \<open>Where a buffer lives on the disk.\<close>

definition b_addr :: "buf \<Rightarrow> uint \<times> uint" where
  "b_addr p = (b_dev p AND 1, b_sector p AND 0x0fffffff)"

lemma hex_masks:
  "(0xff :: uint) = mask 8" "(0x0f :: uint) = mask 4" "(0x0fffffff :: uint) = mask 28"
  by (simp_all add: mask_eq_exp_minus_1)

lemma ide_drive_regs: "ide_drive (ide_regs p r) = b_dev p AND 1"
proof (rule bit_word_eqI)
  fix n
  have "bit (0xe0 :: uint) 4 = False" by simp
  then show "bit (ide_drive (ide_regs p r)) n = bit (b_dev p AND 1) n"
    by (cases "n = 0") (auto simp: ide_drive_def ide_regs_def hex_masks bit_simps)
qed

lemma drive_select_low: "k < 4 \<Longrightarrow> \<not> bit (0xe0 :: int) k"
proof -
  have e: "(0xe0 :: int) = push_bit 5 7" by (simp add: push_bit_eq_mult)
  show "k < 4 \<Longrightarrow> \<not> bit (0xe0 :: int) k" unfolding e bit_push_bit_iff by simp
qed

lemma ide_lba_regs: "ide_lba (ide_regs p r) = b_sector p AND 0x0fffffff"
proof (rule bit_word_eqI)
  fix n
  assume "n < LENGTH(32)"
  then consider "n < 8" | "8 \<le> n" "n < 16" | "16 \<le> n" "n < 24" | "24 \<le> n" "n < 28" | "28 \<le> n" "n < 32"
    by fastforce
  then show "bit (ide_lba (ide_regs p r)) n = bit (b_sector p AND 0x0fffffff) n"
    by cases (auto simp: ide_lba_def ide_regs_def hex_masks bit_simps drive_select_low)
qed

section \<open>Serving one request\<close>

definition blk :: "bytes \<Rightarrow> bytes \<Rightarrow> bytes" where
  "blk old new = (\<lambda>i. if i < 512 then new i else old i)"

lemma memmove_obj_blk: "memmove_obj d 0 s 0 512 = blk d s"
  by (auto simp: blk_def memmove_obj_at fun_eq_iff)

lemma blk_idem [simp]: "blk (blk a b) b = blk a b" "blk a a = a" "blk (blk a b) c = blk a c"
  by (auto simp: blk_def fun_eq_iff)

text \<open>
  What the driver promises for one request: a dirty buffer is written to its sector, any
  other is filled from it, and the buffer ends valid and clean.
\<close>

type_synonym store = "(nat \<Rightarrow> buf) \<times> (uint \<Rightarrow> uint \<Rightarrow> bytes)"

definition clean_flags :: "uint \<Rightarrow> uint" where
  "clean_flags f = (f OR B_VALID) AND NOT B_DIRTY"

definition disk_put :: "(uint \<Rightarrow> uint \<Rightarrow> bytes) \<Rightarrow> buf \<Rightarrow> uint \<Rightarrow> uint \<Rightarrow> bytes" where
  "disk_put D p = (let (d, n) = b_addr p in D(d := (D d)(n := blk (D d n) (b_data p))))"

definition disk_get :: "(uint \<Rightarrow> uint \<Rightarrow> bytes) \<Rightarrow> buf \<Rightarrow> bytes" where
  "disk_get D p = (let (d, n) = b_addr p in D d n)"

definition sync :: "nat \<Rightarrow> store \<Rightarrow> store" where
  "sync c BD = (let (B, D) = BD; p = B c in
     if b_flags p AND B_DIRTY \<noteq> 0
     then (B(c := p\<lparr>b_flags := clean_flags (b_flags p)\<rparr>), disk_put D p)
     else (B(c := p\<lparr>b_data := blk (b_data p) (disk_get D p), b_flags := clean_flags (b_flags p)\<rparr>), D))"

lemma disk_put_idem [simp]: "disk_put (disk_put D p) p = disk_put D p"
  by (auto simp: disk_put_def fun_eq_iff split: prod.splits)

text \<open>The queue in memory, and the state of the controller while there are requests.\<close>

fun qchain :: "(nat \<Rightarrow> nat option) \<Rightarrow> nat option \<Rightarrow> nat list \<Rightarrow> bool" where
  "qchain qn p [] \<longleftrightarrow> p = None"
| "qchain qn p (x # xs) \<longleftrightarrow> p = Some x \<and> qchain qn (qn x) xs"

definition started :: "buf \<Rightarrow> 'a kide_scheme \<Rightarrow> bool" where
  "started p s \<longleftrightarrow> (ide_drive (taskfile s), ide_lba (taskfile s)) = b_addr p
     \<and> (b_flags p AND B_DIRTY \<noteq> 0 \<longrightarrow> disk_put (disk s) p = disk s)"

definition ide_inv :: "nat list \<Rightarrow> 'a kide_scheme \<Rightarrow> bool" where
  "ide_inv xs s \<longleftrightarrow> qchain (\<lambda>c. b_qnext (bufs s c)) (idequeue s) xs \<and> distinct xs
     \<and> set xs \<subseteq> {..<NBUF} \<and> (\<forall>b ys. xs = b # ys \<longrightarrow> started (bufs s b) s)"

lemma idestart_eq:
  "idestart (Some b) s = Done () (s\<lparr>taskfile := ide_regs (bufs s b) (taskfile s),
     disk := (if b_flags (bufs s b) AND B_DIRTY \<noteq> 0 then disk_put (disk s) (bufs s b) else disk s)\<rparr>)"
proof -
  let ?s = "s\<lparr>taskfile := ide_regs (bufs s b) (taskfile s)\<rparr>"
  have "idestart (Some b) s =
      (if b_flags (bufs s b) AND B_DIRTY \<noteq> 0 then outsl b ?s else Done () ?s)"
    by (auto simp: idestart_def kdefs idewait_def outb_def ide_regs_def)
  moreover have "outsl b ?s = Done () (?s\<lparr>disk := disk_put (disk s) (bufs s b)\<rparr>)"
    by (simp add: outsl_def kdefs Let_def ide_drive_regs ide_lba_regs memmove_obj_blk disk_put_def
        b_addr_def)
  ultimately show ?thesis by simp
qed

lemma started_start:
  "idestart (Some b) s = Done () t \<Longrightarrow> started (bufs t b) t"
  by (auto simp: idestart_eq started_def ide_drive_regs ide_lba_regs b_addr_def)

text \<open>The fields the driver and the buffer cache may change.\<close>

definition io_same :: "'a kide_scheme \<Rightarrow> 'a kide_scheme \<Rightarrow> bool" where
  "io_same s t \<longleftrightarrow> held t = held s \<and> cur t = cur s \<and> initproc t = initproc s
     \<and> nextpid t = nextpid s \<and> phys t = phys s \<and> freelist t = freelist s \<and> kend t = kend s
     \<and> havedisk1 t = havedisk1 s \<and> ide_err t = ide_err s \<and> kide.more t = kide.more s"

lemma io_same_refl [simp]: "io_same s s"
  by (simp add: io_same_def)

lemma io_same_trans [trans]: "io_same s t \<Longrightarrow> io_same t u \<Longrightarrow> io_same s u"
  by (simp add: io_same_def)

lemma io_sameD:
  assumes "io_same s t"
  shows "held t = held s" "cur t = cur s" "initproc t = initproc s" "nextpid t = nextpid s"
    "phys t = phys s" "freelist t = freelist s" "kend t = kend s" "havedisk1 t = havedisk1 s"
    "ide_err t = ide_err s" "kide.more t = kide.more s"
  using assms by (simp_all add: io_same_def)

text \<open>The state of an interrupt before the next request is started.\<close>

definition served :: "nat \<Rightarrow> 'a kide_scheme \<Rightarrow> 'a kide_scheme" where
  "served b s = s\<lparr>idequeue := b_qnext (bufs s b), bufs := fst (sync b (bufs s, disk s)),
     ptable := wake_table (ChBuf b) (ptable s)\<rparr>"

lemma ideintr_eq:
  assumes "idequeue s = Some b" "L_ide \<notin> set (held s)" "L_ptable \<notin> set (held s)" "\<not> ide_err s"
    and "started (bufs s b) s"
  shows "ideintr s = (case b_qnext (bufs s b) of
      None \<Rightarrow> Done () (served b s)
    | Some c \<Rightarrow> idestart (Some c) (served b s))"
proof -
  have addr: "disk s (ide_drive (taskfile s)) (ide_lba (taskfile s)) = disk_get (disk s) (bufs s b)"
    using assms(5) by (auto simp: started_def disk_get_def b_addr_def)
  show ?thesis
    using assms
    by (simp add: ideintr_def kdefs acquire_def release_def idewait_def insl_def upd_buf_def wakeup_eq
        memmove_obj_blk addr served_def sync_def clean_flags_def Let_def idestart_eq split: option.splits)
qed

lemma sync_other: "c \<noteq> b \<Longrightarrow> fst (sync b (B, D)) c = B c"
  by (simp add: sync_def Let_def)

lemma sync_qnext: "b_qnext (fst (sync b (B, D)) c) = b_qnext (B c)"
  by (auto simp: sync_def Let_def)

lemma qchain_cong: "(\<And>x. x \<in> set xs \<Longrightarrow> f x = g x) \<Longrightarrow> qchain f p xs = qchain g p xs"
  by (induction xs arbitrary: p) auto

text \<open>A request that is written out already may be written again.\<close>

lemma sync_started:
  "b_flags (B c) AND B_DIRTY \<noteq> 0 \<Longrightarrow> sync c (B, disk_put D (B c)) = sync c (B, D)"
  by (simp add: sync_def Let_def)

lemma fold_sync_Cons: "fold sync (b # xs) BD = fold sync xs (sync b BD)"
  by simp

text \<open>
  One interrupt serves the first request: the eventual outcome of the queue is the same
  before it, with the request, and after it, without.
\<close>

lemma ideintr_step:
  assumes inv: "ide_inv (b # xs) s" and lk: "L_ide \<notin> set (held s)" "L_ptable \<notin> set (held s)"
    and err: "\<not> ide_err s"
  shows "runs ideintr s (\<lambda>_ t. ide_inv xs t \<and> io_same s t
    \<and> fold sync xs (bufs t, disk t) = fold sync (b # xs) (bufs s, disk s)
    \<and> ptable t = wake_table (ChBuf b) (ptable s))"
proof -
  have q: "idequeue s = Some b" "qchain (\<lambda>c. b_qnext (bufs s c)) (b_qnext (bufs s b)) xs"
    and st: "started (bufs s b) s" and d: "b \<notin> set xs" "distinct xs" "set xs \<subseteq> {..<NBUF}"
    using inv by (auto simp: ide_inv_def)
  have disk: "snd (sync b (bufs s, disk s)) = disk s"
    using st by (simp add: sync_def Let_def started_def)
  have chain: "qchain (\<lambda>c. b_qnext (fst (sync b (bufs s, disk s)) c)) (b_qnext (bufs s b)) xs"
    using q(2) by (simp add: sync_qnext)
  have same: "io_same s (served b s)" by (simp add: io_same_def served_def)
  note eq = ideintr_eq [OF q(1) lk err st]
  show ?thesis
  proof (cases xs)
    case Nil
    then have "ideintr s = Done () (served b s)" using eq q(2) by simp
    then show ?thesis
      using Nil same disk q(2) by (simp add: runs_def ide_inv_def served_def prod_eq_iff)
  next
    case (Cons c ys)
    then have n: "b_qnext (bufs s b) = Some c" using q(2) by simp
    then obtain t where t: "idestart (Some c) (served b s) = Done () t"
      by (simp add: idestart_eq)
    have "ideintr s = Done () t" using eq n t by simp
    moreover have "ide_inv xs t"
      using t chain d Cons started_start [OF t]
      by (auto simp: ide_inv_def idestart_eq served_def)
    moreover have "io_same s t"
      using t by (auto simp: idestart_eq served_def io_same_def)
    moreover have "fold sync xs (bufs t, disk t) = fold sync (b # xs) (bufs s, disk s)"
    proof -
      have "sync c (bufs t, disk t) = sync c (bufs (served b s), disk s)"
        using t by (auto simp: idestart_eq served_def sync_started)
      moreover have "(bufs (served b s), disk s) = sync b (bufs s, disk s)"
        using disk by (simp add: served_def prod_eq_iff)
      ultimately show ?thesis using Cons by simp
    qed
    moreover have "ptable t = wake_table (ChBuf b) (ptable s)"
      using t by (auto simp: idestart_eq served_def)
    ultimately show ?thesis by (simp add: runs_def)
  qed
qed

section \<open>Waiting for the disk\<close>

text \<open>
  What happens to the process table while process \<open>i\<close> waits: other processes are at most
  woken up, and of its own entry only the channel changes.
\<close>

definition tab_rel :: "nat option \<Rightarrow> (nat \<Rightarrow> proc) \<Rightarrow> (nat \<Rightarrow> proc) \<Rightarrow> bool" where
  "tab_rel i P Q \<longleftrightarrow> (\<forall>j. if i = Some j then \<exists>c. Q j = (P j)\<lparr>p_chan := c\<rparr>
     else Q j = P j \<or> p_state (P j) = SLEEPING \<and> Q j = (P j)\<lparr>p_state := RUNNABLE\<rparr>)"

lemma same_chan_ex [simp]: "\<exists>c. p = p\<lparr>p_chan := c\<rparr>"
  by (rule exI [of _ "p_chan p"]) simp

lemma tab_rel_refl [simp]: "tab_rel i P P"
  by (simp add: tab_rel_def)

lemma tab_rel_trans [trans]: "tab_rel i P Q \<Longrightarrow> tab_rel i Q R \<Longrightarrow> tab_rel i P R"
  unfolding tab_rel_def
proof (intro allI)
  fix j
  assume PQ: "\<forall>j. if i = Some j then \<exists>c. Q j = (P j)\<lparr>p_chan := c\<rparr>
      else Q j = P j \<or> p_state (P j) = SLEEPING \<and> Q j = (P j)\<lparr>p_state := RUNNABLE\<rparr>"
    and QR: "\<forall>j. if i = Some j then \<exists>c. R j = (Q j)\<lparr>p_chan := c\<rparr>
      else R j = Q j \<or> p_state (Q j) = SLEEPING \<and> R j = (Q j)\<lparr>p_state := RUNNABLE\<rparr>"
  show "if i = Some j then \<exists>c. R j = (P j)\<lparr>p_chan := c\<rparr>
      else R j = P j \<or> p_state (P j) = SLEEPING \<and> R j = (P j)\<lparr>p_state := RUNNABLE\<rparr>"
    using PQ [rule_format, of j] QR [rule_format, of j] by (auto split: if_splits)
qed

lemma tab_rel_wake: "i = None \<or> (\<exists>j. i = Some j \<and> p_state (P j) \<noteq> SLEEPING) \<Longrightarrow>
    tab_rel i P (wake_table c P)"
  by (auto simp: tab_rel_def wake_table_def woken_def)

lemma tab_rel_state: "tab_rel (Some i) P Q \<Longrightarrow> p_state (Q i) = p_state (P i)"
  by (force simp: tab_rel_def dest: spec [of _ i])

lemma wake_other_chan:
  "p_chan (P i) = Some c \<Longrightarrow> d \<noteq> c \<Longrightarrow> wake_table d P i = P i"
  by (simp add: wake_table_def woken_def)

lemma wake_same_chan:
  "p_state (P i) = SLEEPING \<Longrightarrow> p_chan (P i) = Some c \<Longrightarrow> i < NPROC \<Longrightarrow>
     wake_table c P i = (P i)\<lparr>p_state := RUNNABLE\<rparr>"
  by (simp add: wake_table_def woken_def)

lemma disk_wake_runs:
  fixes s :: "'a kide_scheme"
  assumes "ide_inv (xs @ [b]) s" "held s = []" "\<not> ide_err s" "length xs < n" "i < NPROC"
    and "p_state (ptable s i) = SLEEPING" "p_chan (ptable s i) = Some (ChBuf b)"
  shows "runs (disk_wake n i) s (\<lambda>_ t. ide_inv [] t \<and> io_same s t
    \<and> (bufs t, disk t) = fold sync (xs @ [b]) (bufs s, disk s)
    \<and> ptable t i = (ptable s i)\<lparr>p_state := RUNNABLE\<rparr> \<and> tab_rel None (ptable s) (ptable t))"
  using assms
proof (induction xs arbitrary: n s)
  case Nil
  then obtain m where n: "n = Suc m" by (cases n) auto
  obtain t where t: "ideintr s = Done () t" "ide_inv [] t" "io_same s t"
      "(bufs t, disk t) = sync b (bufs s, disk s)" "ptable t = wake_table (ChBuf b) (ptable s)"
    using ideintr_step [of b "[]" s] Nil by (auto simp: runs_def)
  have "ptable t i = (ptable s i)\<lparr>p_state := RUNNABLE\<rparr>"
    using t(5) Nil by (simp add: wake_same_chan)
  then show ?case
    using t n by (simp add: runs_def kdefs tab_rel_wake)
next
  case (Cons x xs)
  then obtain m where n: "n = Suc m" by (cases n) auto
  have "x \<noteq> b" using Cons.prems(1) by (auto simp: ide_inv_def)
  obtain t where t: "ideintr s = Done () t" "ide_inv (xs @ [b]) t" "io_same s t"
      "fold sync (xs @ [b]) (bufs t, disk t) = fold sync (x # xs @ [b]) (bufs s, disk s)"
      "ptable t = wake_table (ChBuf x) (ptable s)"
    using ideintr_step [of x "xs @ [b]" s] Cons.prems by (auto simp: runs_def)
  have i: "ptable t i = ptable s i"
    using t(5) Cons.prems \<open>x \<noteq> b\<close> by (simp add: wake_other_chan)
  have "runs (disk_wake m i) t (\<lambda>_ u. ide_inv [] u \<and> io_same t u
    \<and> (bufs u, disk u) = fold sync (xs @ [b]) (bufs t, disk t)
    \<and> ptable u i = (ptable t i)\<lparr>p_state := RUNNABLE\<rparr> \<and> tab_rel None (ptable t) (ptable u))"
    using Cons.prems n i t(2,3) by (intro Cons.IH) (simp_all add: io_sameD [OF t(3)])
  moreover have "tab_rel None (ptable s) (ptable t)" by (simp add: t(5) tab_rel_wake)
  ultimately show ?case
    using n t(1,3,4) i Cons.prems(6)
    by (auto simp: runs_def kdefs elim!: io_same_trans tab_rel_trans)
qed

lemma sleep_disk_runs:
  fixes s :: "'a kide_scheme"
  assumes inv: "ide_inv (xs @ [b]) s" and s: "held s = [L_ide]" "\<not> ide_err s" "length xs < NBUF"
    and i: "cur s = Some i" "i < NPROC" "p_state (ptable s i) = RUNNING"
  shows "runs (sleep_disk (ChBuf b) L_ide) s (\<lambda>_ t. ide_inv [] t \<and> io_same s t
    \<and> (bufs t, disk t) = fold sync (xs @ [b]) (bufs s, disk s)
    \<and> tab_rel (Some i) (ptable s) (ptable t))"
proof -
  define P where "P = (ptable s)(i := (ptable s i)\<lparr>p_chan := Some (ChBuf b), p_state := SLEEPING\<rparr>)"
  define u where "u = s\<lparr>ptable := P, cur := None, held := []\<rparr>"
  have "ide_inv (xs @ [b]) u" using inv by (simp add: ide_inv_def started_def u_def)
  then have "runs (disk_wake NBUF i) u (\<lambda>_ t. ide_inv [] t \<and> io_same u t
    \<and> (bufs t, disk t) = fold sync (xs @ [b]) (bufs u, disk u)
    \<and> ptable t i = (ptable u i)\<lparr>p_state := RUNNABLE\<rparr> \<and> tab_rel None (ptable u) (ptable t))"
    using s i by (intro disk_wake_runs) (simp_all add: u_def P_def)
  then obtain t where t: "disk_wake NBUF i u = Done () t" "ide_inv [] t" "io_same u t"
      "(bufs t, disk t) = fold sync (xs @ [b]) (bufs s, disk s)"
      "ptable t i = (P i)\<lparr>p_state := RUNNABLE\<rparr>" "tab_rel None P (ptable t)"
    by (auto simp: runs_def u_def)
  define v where "v = t\<lparr>cur := Some i,
      ptable := (ptable t)(i := (ptable t i)\<lparr>p_state := RUNNING, p_chan := None\<rparr>), held := [L_ide]\<rparr>"
  have held: "held t = []" "cur t = None" using io_sameD [OF t(3)] by (simp_all add: u_def)
  have "sleep_disk (ChBuf b) L_ide s = kseq (disk_wake NBUF i) (kseq (acquire L_ptable)
      (kseq (dispatch i) (sleep_resume L_ide))) u"
    using s(1) i(1)
    by (simp add: sleep_disk_def sleep_eq kdefs undispatch_def release_def u_def P_def)
  also have "\<dots> = Done () v"
    using t(1) held
    by (simp add: kdefs acquire_def release_def dispatch_def upd_proc_def sleep_resume_def cur_proc_def v_def)
  finally have eq: "sleep_disk (ChBuf b) L_ide s = Done () v" .
  have "tab_rel (Some i) (ptable s) (ptable v)"
    unfolding tab_rel_def
  proof (intro allI)
    fix j
    show "if Some i = Some j then \<exists>c. ptable v j = (ptable s j)\<lparr>p_chan := c\<rparr>
        else ptable v j = ptable s j \<or> p_state (ptable s j) = SLEEPING \<and>
          ptable v j = (ptable s j)\<lparr>p_state := RUNNABLE\<rparr>"
    proof (cases "j = i")
      case True
      then have "ptable v j = (ptable s j)\<lparr>p_chan := None\<rparr>"
        using t(5) i(3) by (simp add: v_def P_def)
      then show ?thesis using True by auto
    next
      case False
      then show ?thesis
        using t(6) [unfolded tab_rel_def, rule_format, of j] by (simp add: v_def P_def)
    qed
  qed
  moreover have "io_same s v"
    using io_sameD [OF t(3)] s(1) i(1) by (simp add: io_same_def u_def v_def)
  moreover have "ide_inv [] v" using t(2) by (simp add: ide_inv_def v_def)
  ultimately show ?thesis using eq t(4) by (simp add: runs_def v_def)
qed

section \<open>A request from start to end\<close>

lemma q_last_chain: "qchain qn (Some h) xs \<Longrightarrow> q_last qn h = Some (last xs)"
proof (induction xs arbitrary: h)
  case (Cons x xs)
  then show ?case
    by (cases xs) (auto simp: q_last.simps [of qn x])
qed simp

lemma qchain_append:
  "qchain qn p xs \<Longrightarrow> distinct (xs @ [b]) \<Longrightarrow>
     qchain (\<lambda>c. if c = b then None else if xs \<noteq> [] \<and> c = last xs then Some b else qn c)
       (if xs = [] then Some b else p) (xs @ [b])"
proof (induction xs arbitrary: p)
  case (Cons x xs)
  let ?f = "\<lambda>ys c. if c = b then None else if ys \<noteq> [] \<and> c = last ys then Some b else qn c"
  have "qchain (?f xs) (if xs = [] then Some b else qn x) (xs @ [b])"
    using Cons by simp
  moreover have "qchain (?f (x # xs)) q (xs @ [b]) = qchain (?f xs) q (xs @ [b])" for q
    using Cons.prems(2) by (intro qchain_cong) (auto split: if_splits)
  moreover have "?f (x # xs) x = (if xs = [] then Some b else qn x)" using Cons.prems(2) by auto
  moreover have "p = Some x" using Cons.prems(1) by simp
  ultimately show ?case by (simp only: append_Cons qchain.simps list.simps if_False simp_thms)
qed simp

text \<open>Buffers up to their place in the queue.\<close>

definition noq :: "(nat \<Rightarrow> buf) \<Rightarrow> nat \<Rightarrow> buf" where
  "noq B = (\<lambda>c. (B c)\<lparr>b_qnext := None\<rparr>)"

lemma sync_noq: "sync c (noq B, D) = apfst noq (sync c (B, D))"
  by (auto simp: sync_def noq_def Let_def disk_put_def disk_get_def b_addr_def clean_flags_def)

lemma fold_sync_noq: "fold sync xs (noq B, D) = apfst noq (fold sync xs (B, D))"
proof (induction xs arbitrary: B D)
  case (Cons x xs)
  obtain B' D' where "sync x (B, D) = (B', D')" by fastforce
  then show ?case using Cons by (simp add: sync_noq)
qed simp

lemma ide_append_runs:
  fixes s :: "'a kide_scheme"
  assumes "qchain (\<lambda>c. b_qnext (bufs s c)) (idequeue s) xs" "distinct (xs @ [b])"
  shows "runs (ide_append b) s (\<lambda>_ t. t = s\<lparr>bufs := bufs t, idequeue := idequeue t\<rparr>
    \<and> qchain (\<lambda>c. b_qnext (bufs t c)) (idequeue t) (xs @ [b]) \<and> noq (bufs t) = noq (bufs s))"
proof -
  let ?qn = "\<lambda>c. if c = b then None else if xs \<noteq> [] \<and> c = last xs then Some b else b_qnext (bufs s c)"
  have chain: "qchain ?qn (if xs = [] then Some b else idequeue s) (xs @ [b])"
    using qchain_append [OF assms] by simp
  show ?thesis
  proof (cases xs)
    case Nil
    then show ?thesis
      using assms by (auto simp: ide_append_def kdefs upd_buf_def runs_def noq_def)
  next
    case (Cons h ys)
    let ?B = "(bufs s)(b := (bufs s b)\<lparr>b_qnext := None\<rparr>)"
    let ?C = "?B(last xs := (?B (last xs))\<lparr>b_qnext := Some b\<rparr>)"
    have "qchain (\<lambda>c. b_qnext (?B c)) (idequeue s) xs"
      using assms by (subst qchain_cong [where g = "\<lambda>c. b_qnext (bufs s c)"]) auto
    moreover have h: "idequeue s = Some h" using assms(1) Cons by simp
    ultimately have "q_last (\<lambda>c. b_qnext (?B c)) h = Some (last xs)"
      by (intro q_last_chain) simp
    then have eq: "ide_append b s = Done () (s\<lparr>bufs := ?C\<rparr>)"
      using h by (simp add: ide_append_def kdefs upd_buf_def)
    have "last xs \<noteq> b" using assms(2) Cons by auto
    then have "(\<lambda>c. b_qnext (?C c)) = ?qn" using Cons by (auto simp: fun_eq_iff)
    then have "qchain (\<lambda>c. b_qnext (?C c)) (idequeue s) (xs @ [b])" using chain Cons by simp
    then show ?thesis using eq by (auto simp: runs_def noq_def)
  qed
qed

lemma clean_flags_bits:
  "bit (clean_flags f) (Suc 0)" "\<not> bit (clean_flags f) 2" "bit (clean_flags f) 0 = bit f 0"
  by (simp_all add: clean_flags_def bit_simps)

text \<open>The state a process is in when it calls the driver: it runs, with no lock held.\<close>

definition io_ready :: "nat list \<Rightarrow> nat \<Rightarrow> 'a kide_scheme \<Rightarrow> bool" where
  "io_ready xs i s \<longleftrightarrow> ide_inv xs s \<and> held s = [] \<and> \<not> ide_err s \<and> cur s = Some i \<and> i < NPROC
     \<and> p_state (ptable s i) = RUNNING"

lemma io_ready_frame:
  "io_ready xs i s \<Longrightarrow> io_same s t \<Longrightarrow> ide_inv ys t \<Longrightarrow> tab_rel (Some i) (ptable s) (ptable t) \<Longrightarrow>
     io_ready ys i t"
  by (simp add: io_ready_def io_sameD tab_rel_state)

lemma started_noq:
  "b_flags p = b_flags q \<Longrightarrow> b_dev p = b_dev q \<Longrightarrow> b_sector p = b_sector q \<Longrightarrow> b_data p = b_data q \<Longrightarrow>
     started p s = started q s"
  by (simp add: started_def b_addr_def disk_put_def)

lemma noq_eqD:
  "noq B = noq C \<Longrightarrow> b_flags (B c) = b_flags (C c) \<and> b_dev (B c) = b_dev (C c)
     \<and> b_sector (B c) = b_sector (C c) \<and> b_data (B c) = b_data (C c)
     \<and> b_prev (B c) = b_prev (C c) \<and> b_next (B c) = b_next (C c)"
  by (drule fun_cong [of _ _ c]) (cases "B c", cases "C c", simp add: noq_def)

lemma iderw_submit_runs:
  fixes s :: "'a kide_scheme"
  assumes inv: "ide_inv xs s" and lk: "held s = []" and b: "b < NBUF" "b \<notin> set xs"
    and f: "b_flags (bufs s b) AND B_BUSY \<noteq> 0"
      "b_flags (bufs s b) AND (B_VALID OR B_DIRTY) \<noteq> B_VALID"
      "b_dev (bufs s b) = 0 \<or> havedisk1 s"
  shows "runs (iderw_submit b) s (\<lambda>_ t. ide_inv (xs @ [b]) t \<and> io_same s (t\<lparr>held := []\<rparr>)
    \<and> held t = [L_ide] \<and> ptable t = ptable s
    \<and> fold sync (xs @ [b]) (noq (bufs t), disk t) = fold sync (xs @ [b]) (noq (bufs s), disk s)
    \<and> noq (bufs t) = noq (bufs s))"
proof -
  let ?u = "s\<lparr>held := [L_ide]\<rparr>"
  have d: "distinct (xs @ [b])" using inv b by (simp add: ide_inv_def)
  obtain t where t: "ide_append b ?u = Done () t" "t = ?u\<lparr>bufs := bufs t, idequeue := idequeue t\<rparr>"
      "qchain (\<lambda>c. b_qnext (bufs t c)) (idequeue t) (xs @ [b])" "noq (bufs t) = noq (bufs s)"
    using ide_append_runs [OF _ d, of ?u] inv by (auto simp: runs_def ide_inv_def)
  have sel: "held t = [L_ide]" "ptable t = ptable s" "disk t = disk s" "taskfile t = taskfile s"
      "io_same s (t\<lparr>held := []\<rparr>)"
    using lk by (subst t(2), simp add: io_same_def)+
  have start: "iderw_submit b s = (if xs = [] then idestart (Some b) t else Done () t)"
  proof -
    have "idequeue t = Some b \<longleftrightarrow> xs = []" using t(3) d by (cases xs) auto
    then show ?thesis
      using f lk t(1) by (auto simp: iderw_submit_def kdefs acquire_def)
  qed
  show ?thesis
  proof (cases "xs = []")
    case True
    obtain u where u: "idestart (Some b) t = Done () u" by (simp add: idestart_eq)
    then have "started (bufs u b) u" by (rule started_start)
    then have "ide_inv (xs @ [b]) u"
      using u t(3) True b by (auto simp: ide_inv_def idestart_eq)
    moreover have "sync b (noq (bufs u), disk u) = sync b (noq (bufs s), disk s)"
    proof -
      have "sync b (bufs u, disk u) = sync b (bufs t, disk t)"
        using u by (auto simp: idestart_eq sync_started)
      then show ?thesis using t(4) sel(3) by (metis sync_noq)
    qed
    moreover have "iderw_submit b s = Done () u" using start u True by simp
    moreover have "io_same s (u\<lparr>held := []\<rparr>)" "held u = [L_ide]" "ptable u = ptable s" "bufs u = bufs t"
      using u sel by (auto simp: idestart_eq io_same_def)
    ultimately show ?thesis by (intro runsI [of _ _ "()" u] conjI) (simp_all add: True t(4))
  next
    case False
    then obtain h ys where h: "xs = h # ys" by (cases xs) auto
    have "started (bufs s h) s" using inv h by (simp add: ide_inv_def)
    then have "started (bufs t h) t"
      using noq_eqD [OF t(4), of h] sel by (simp add: started_def b_addr_def disk_put_def)
    then have "ide_inv (xs @ [b]) t" using t(3) d inv b h by (simp add: ide_inv_def)
    moreover have "iderw_submit b s = Done () t" using start False by simp
    ultimately show ?thesis
      by (intro runsI [of _ _ "()" t] conjI sel(1,2,5) t(4)) (simp_all only: t(4) sel(3))
  qed
qed

lemma sync_flags: "b_flags (fst (sync b (B, D)) b) = clean_flags (b_flags (B b))"
  by (simp add: sync_def Let_def)

lemma fold_sync_other: "c \<notin> set xs \<Longrightarrow> fst (fold sync xs (B, D)) c = B c"
proof (induction xs arbitrary: B D)
  case (Cons x xs)
  obtain B' D' where "sync x (B, D) = (B', D')" by fastforce
  then show ?case using Cons sync_other [of c x B D] by simp
qed simp

lemma fold_sync_last:
  assumes "b \<notin> set xs"
  shows "b_flags (fst (fold sync (xs @ [b]) (B, D)) b) = clean_flags (b_flags (B b))"
proof -
  obtain B' D' where "fold sync xs (B, D) = (B', D')" by fastforce
  then show ?thesis using fold_sync_other [OF assms, of B D] by (simp add: sync_flags)
qed

lemma iderw_wait_once:
  assumes "sleep_disk (ChBuf b) L_ide u = Done () v"
    and "\<not> (bit (b_flags (bufs u b)) (Suc 0) \<and> \<not> bit (b_flags (bufs u b)) 2)"
    and "bit (b_flags (bufs v b)) (Suc 0)" "\<not> bit (b_flags (bufs v b)) 2"
  shows "iderw_wait (Suc (Suc n)) b u = Done () v"
  using assms by (simp add: kdefs valid_clean_iff6)

lemma iderw_runs:
  fixes s :: "'a kide_scheme"
  assumes r: "io_ready xs i s" and b: "b < NBUF" "b \<notin> set xs"
    and f: "bit (b_flags (bufs s b)) 0" "\<not> (bit (b_flags (bufs s b)) (Suc 0) \<and> \<not> bit (b_flags (bufs s b)) 2)"
      "b_dev (bufs s b) = 0 \<or> havedisk1 s"
  shows "runs (iderw b) s (\<lambda>_ t. io_ready [] i t \<and> io_same s t
    \<and> (noq (bufs t), disk t) = fold sync (xs @ [b]) (noq (bufs s), disk s)
    \<and> tab_rel (Some i) (ptable s) (ptable t))"
proof -
  have inv: "ide_inv xs s" "held s = []" using r by (simp_all add: io_ready_def)
  have "length (xs @ [b]) = card (set (xs @ [b]))" "set (xs @ [b]) \<subseteq> {..<NBUF}"
    using inv(1) b by (auto simp: ide_inv_def distinct_card)
  then have len: "length xs < NBUF" using card_mono [of "{..<NBUF}" "set (xs @ [b])"] by simp
  obtain u where u: "iderw_submit b s = Done () u" "ide_inv (xs @ [b]) u" "io_same s (u\<lparr>held := []\<rparr>)"
      "held u = [L_ide]" "ptable u = ptable s" "noq (bufs u) = noq (bufs s)"
      "fold sync (xs @ [b]) (noq (bufs u), disk u) = fold sync (xs @ [b]) (noq (bufs s), disk s)"
  proof (rule runs_unitE [OF iderw_submit_runs [OF inv b]])
    show "b_flags (bufs s b) AND (B_VALID OR B_DIRTY) \<noteq> B_VALID" "b_flags (bufs s b) AND B_BUSY \<noteq> 0"
      "b_dev (bufs s b) = 0 \<or> havedisk1 s" using f by (simp_all add: flag_simps)
  qed blast
  have un: "cur u = cur s" "ide_err u = ide_err s" using io_sameD [OF u(3)] by simp_all
  obtain v where v: "sleep_disk (ChBuf b) L_ide u = Done () v" "ide_inv [] v" "io_same u v"
      "(bufs v, disk v) = fold sync (xs @ [b]) (bufs u, disk u)" "tab_rel (Some i) (ptable u) (ptable v)"
    by (rule runs_unitE [OF sleep_disk_runs [OF u(2,4) _ len]])
      (use r un u(5) in \<open>auto simp: io_ready_def\<close>)
  have fb: "b_flags (bufs u b) = b_flags (bufs s b)" using noq_eqD [OF u(6), of b] by simp
  have "b_flags (bufs v b) = clean_flags (b_flags (bufs u b))"
    using fold_sync_last [OF b(2), of "bufs u" "disk u"] by (simp only: v(4) [symmetric] fst_conv)
  then have fin: "bit (b_flags (bufs v b)) (Suc 0)" "\<not> bit (b_flags (bufs v b)) 2"
    by (simp_all add: clean_flags_bits)
  have hv: "held v = [L_ide]" using io_sameD(1) [OF v(3)] u(4) by simp
  have "iderw_wait NBUF b u = Done () v"
    using iderw_wait_once [OF v(1) _ fin, of 8] f(2) fb by simp
  then have eq: "iderw b s = Done () (v\<lparr>held := []\<rparr>)"
    using u(1) hv by (simp add: iderw_def kdefs release_def)
  show ?thesis
  proof (rule runsI, rule eq, intro conjI)
    show same: "io_same s (v\<lparr>held := []\<rparr>)"
      using io_sameD [OF u(3)] io_sameD [OF v(3)] inv(2) by (simp add: io_same_def)
    show tab: "tab_rel (Some i) (ptable s) (ptable (v\<lparr>held := []\<rparr>))" using v(5) u(5) by simp
    have "ide_inv [] (v\<lparr>held := []\<rparr>)" using v(2) by (simp add: ide_inv_def)
    then show "io_ready [] i (v\<lparr>held := []\<rparr>)" using io_ready_frame [OF r same] tab by blast
    have "fold sync (xs @ [b]) (noq (bufs u), disk u) = (noq (bufs v), disk v)"
      by (simp only: fold_sync_noq v(4) [symmetric] apfst_conv)
    then show "(noq (bufs (v\<lparr>held := []\<rparr>)), disk (v\<lparr>held := []\<rparr>)) =
        fold sync (xs @ [b]) (noq (bufs s), disk s)"
      using u(7) by simp
  qed
qed

section \<open>Correctness of the driver\<close>

text \<open>A machine with one running process and idle, empty drives, for the witnesses.\<close>

definition ide_boot :: kide where
  "ide_boot = \<lparr>held = [], ptable = (\<lambda>i. if i = 0 then zero_proc\<lparr>p_state := RUNNING\<rparr> else zero_proc),
     cur = Some 0, initproc = Some 0, nextpid = 2, phys = (\<lambda>_. 0), freelist = 0, kend = 0,
     bufs = (\<lambda>_. \<lparr>b_flags = 0, b_dev = - 1, b_sector = 0, b_prev = 0, b_next = 0, b_qnext = None,
       b_data = (\<lambda>_. 0)\<rparr>),
     idequeue = None, havedisk1 = True, taskfile = (\<lambda>_. 0), disk = (\<lambda>_ _ _. 0), ide_err = False\<rparr>"

text \<open>
  C11: \<open>iderw\<close>, called by a running process with requests \<open>xs\<close> already queued, returns after
  the disk has served every one of them and its own in the order they were queued: a dirty
  buffer is on its sector, any other holds its sector, and all are valid and clean. The
  queue is then empty, the buffer is still busy, and the process runs with no lock held.
\<close>

theorem iderw_serves_fifo:
  assumes "io_ready xs i s" "b < NBUF" "b \<notin> set xs" "b_flags (bufs s b) AND B_BUSY \<noteq> 0"
    and "b_flags (bufs s b) AND (B_VALID OR B_DIRTY) \<noteq> B_VALID"
    and "b_dev (bufs s b) = 0 \<or> havedisk1 s"
  shows "runs (iderw b) s (\<lambda>_ t. idequeue t = None
    \<and> (noq (bufs t), disk t) = fold sync (xs @ [b]) (noq (bufs s), disk s)
    \<and> b_flags (bufs t b) AND (B_VALID OR B_DIRTY) = B_VALID \<and> b_flags (bufs t b) AND B_BUSY \<noteq> 0
    \<and> held t = [] \<and> cur t = Some i \<and> p_state (ptable t i) = RUNNING)"
proof -
  have pre: "bit (b_flags (bufs s b)) 0"
      "\<not> (bit (b_flags (bufs s b)) (Suc 0) \<and> \<not> bit (b_flags (bufs s b)) 2)"
    using assms(4,5) by (simp_all add: flag_simps)
  show ?thesis
  proof (rule runs_mono [OF iderw_runs [OF assms(1-3) pre assms(6)]], elim conjE)
    fix u and t :: "'a kide_scheme"
    assume t: "io_ready [] i t" "(noq (bufs t), disk t) = fold sync (xs @ [b]) (noq (bufs s), disk s)"
    have "b_flags (noq (bufs t) b) = clean_flags (b_flags (noq (bufs s) b))"
      using fold_sync_last [OF assms(3), of "noq (bufs s)" "disk s"]
      by (simp only: t(2) [symmetric] fst_conv)
    then have eq: "b_flags (bufs t b) = clean_flags (b_flags (bufs s b))" by (simp add: noq_def)
    have f: "b_flags (bufs t b) AND (B_VALID OR B_DIRTY) = B_VALID"
      unfolding valid_clean_iff eq by (simp add: clean_flags_bits)
    have g: "b_flags (bufs t b) AND B_BUSY \<noteq> 0"
      unfolding flag_tests eq using pre(1) by (simp add: clean_flags_bits)
    show "idequeue t = None \<and> (noq (bufs t), disk t) = fold sync (xs @ [b]) (noq (bufs s), disk s)
      \<and> b_flags (bufs t b) AND (B_VALID OR B_DIRTY) = B_VALID \<and> b_flags (bufs t b) AND B_BUSY \<noteq> 0
      \<and> held t = [] \<and> cur t = Some i \<and> p_state (ptable t i) = RUNNING"
      using t(1) by (intro conjI t(2) f g) (simp_all add: io_ready_def ide_inv_def)
  qed
qed

definition ide_one :: kide where
  "ide_one = ide_boot\<lparr>bufs := (bufs ide_boot)(3 := (bufs ide_boot 3)\<lparr>b_flags := B_BUSY OR B_DIRTY,
     b_dev := 1, b_sector := 7, b_data := (\<lambda>_. 9)\<rparr>)\<rparr>"

theorem iderw_serves_fifo_witness:
  "runs (iderw 3) ide_one (\<lambda>_ t. idequeue t = None \<and> disk t 1 7 0 = 9 \<and> held t = [])"
proof -
  have "runs (iderw 3) ide_one (\<lambda>_ t. idequeue t = None
    \<and> (noq (bufs t), disk t) = fold sync ([] @ [3]) (noq (bufs ide_one), disk ide_one)
    \<and> b_flags (bufs t 3) AND (B_VALID OR B_DIRTY) = B_VALID \<and> b_flags (bufs t 3) AND B_BUSY \<noteq> 0
    \<and> held t = [] \<and> cur t = Some 0 \<and> p_state (ptable t 0) = RUNNING)"
    by (rule iderw_serves_fifo)
      (simp_all add: ide_one_def ide_boot_def io_ready_def ide_inv_def zero_proc_def)
  then show ?thesis
    by (rule runs_mono) (simp add: ide_one_def ide_boot_def sync_def noq_def disk_put_def b_addr_def blk_def)
qed

text \<open>
  When the controller reports an error on a read, the data is not transferred but the
  buffer is marked valid all the same.
\<close>

lemma ideintr_error_marks_valid:
  "runs ideintr (ide_one\<lparr>ide_err := True, idequeue := Some 3,
      bufs := (bufs ide_one)(3 := (bufs ide_one 3)\<lparr>b_flags := B_BUSY\<rparr>)\<rparr>)
    (\<lambda>_ t. b_flags (bufs t 3) AND B_VALID \<noteq> 0 \<and> b_data (bufs t 3) 0 = 9 \<and> disk t 1 7 0 = 0)"
  by (simp add: ide_one_def ide_boot_def runs_def ideintr_def kdefs acquire_def release_def
      idewait_def upd_buf_def wakeup_eq)

end
