(* ===== verification/Bio.thy ===== *)
theory Bio
  imports Ide
begin

text \<open>
  The buffer cache (\<open>kernel/bio.c\<close>): \<open>NBUF\<close> buffers on a doubly linked list in order of
  use, with \<open>bcache.head\<close> (index \<open>NBUF\<close>) as its sentinel. After the code come the list in
  memory, the invariant of the cache, what the cache shows of the disk (\<open>bview\<close>), and the
  contract of \<open>bread\<close>, \<open>bwrite\<close> and \<open>brelse\<close> as the locale \<open>block_cache\<close>, which the file
  system rests on.
\<close>

section \<open>The code\<close>

text \<open>The body of \<open>binit\<close>'s loop, and \<open>binit\<close>.\<close>

definition binit_link :: "nat \<Rightarrow> ('a kide_scheme, unit) K" where
  "binit_link b =
     kbind (kget (\<lambda>s. b_next (bufs s NBUF))) (\<lambda>h.
     kseq (upd_buf b (\<lambda>p. p\<lparr>b_next := h\<rparr>)) (
     kseq (upd_buf b (\<lambda>p. p\<lparr>b_prev := NBUF\<rparr>)) (
     kseq (upd_buf b (\<lambda>p. p\<lparr>b_dev := - 1\<rparr>)) (
     kseq (upd_buf h (\<lambda>p. p\<lparr>b_prev := b\<rparr>)) (
     upd_buf NBUF (\<lambda>p. p\<lparr>b_next := b\<rparr>))))))"

definition binit :: "('a kide_scheme, unit) K" where
  "binit =
     kseq (lock_init L_bcache) (
     kseq (upd_buf NBUF (\<lambda>p. p\<lparr>b_prev := NBUF\<rparr>)) (
     kseq (upd_buf NBUF (\<lambda>p. p\<lparr>b_next := NBUF\<rparr>)) (
     kforeach [0..<NBUF] binit_link)))"

text \<open>
  A \<open>for\<close> loop along the list: the first buffer with a property, or none when the loop is
  back at the head. Links that never lead back to the head make it run for ever.
\<close>

partial_function (option) bscan :: "(nat \<Rightarrow> nat) \<Rightarrow> (nat \<Rightarrow> bool) \<Rightarrow> nat \<Rightarrow> nat option option" where
  "bscan link P b =
     (if b = NBUF then Some None else if P b then Some (Some b) else bscan link P (link b))"

definition bget_loop :: "uint \<Rightarrow> uint \<Rightarrow> ('a kide_scheme, nat) K" where
  "bget_loop dev sector = (\<lambda>s.
     case bscan (\<lambda>b. b_next (bufs s b)) (\<lambda>b. b_dev (bufs s b) = dev \<and> b_sector (bufs s b) = sector)
         (b_next (bufs s NBUF)) of
       None \<Rightarrow> Spin
     | Some (Some b) \<Rightarrow>
         if b_flags (bufs s b) AND B_BUSY = 0 then
           kseq (upd_buf b (\<lambda>p. p\<lparr>b_flags := b_flags p OR B_BUSY\<rparr>)) (
           kseq (release L_bcache) (kret b)) s
         else sleep (ChBuf b) L_bcache s
     | Some None \<Rightarrow>
         (case bscan (\<lambda>b. b_prev (bufs s b)) (\<lambda>b. b_flags (bufs s b) AND B_BUSY = 0)
             (b_prev (bufs s NBUF)) of
           None \<Rightarrow> Spin
         | Some (Some b) \<Rightarrow>
             kseq (upd_buf b (\<lambda>p. p\<lparr>b_dev := dev\<rparr>)) (
             kseq (upd_buf b (\<lambda>p. p\<lparr>b_sector := sector\<rparr>)) (
             kseq (upd_buf b (\<lambda>p. p\<lparr>b_flags := B_BUSY\<rparr>)) (
             kseq (release L_bcache) (kret b)))) s
         | Some None \<Rightarrow> Panic ''bget: no buffers''))"

definition bget :: "uint \<Rightarrow> uint \<Rightarrow> ('a kide_scheme, nat) K" where
  "bget dev sector = kseq (acquire L_bcache) (bget_loop dev sector)"

text \<open>A process that slept in \<open>bget\<close> goes on with \<open>goto loop\<close>.\<close>

definition bget_resume :: "uint \<Rightarrow> uint \<Rightarrow> ('a kide_scheme, nat) K" where
  "bget_resume dev sector = kseq (sleep_resume L_bcache) (bget_loop dev sector)"

definition bread :: "uint \<Rightarrow> uint \<Rightarrow> ('a kide_scheme, nat) K" where
  "bread dev sector =
     kbind (bget dev sector) (\<lambda>b.
     kbind (kget (\<lambda>s. b_flags (bufs s b))) (\<lambda>f.
     kseq (kwhen (f AND B_VALID = 0) (iderw b)) (
     kret b)))"

definition bwrite :: "nat \<Rightarrow> ('a kide_scheme, unit) K" where
  "bwrite b =
     kbind (kget (\<lambda>s. b_flags (bufs s b))) (\<lambda>f.
       if f AND B_BUSY = 0 then kpanic ''bwrite''
       else kseq (upd_buf b (\<lambda>p. p\<lparr>b_flags := b_flags p OR B_DIRTY\<rparr>)) (iderw b))"

definition brelse :: "nat \<Rightarrow> ('a kide_scheme, unit) K" where
  "brelse b =
     kbind (kget (\<lambda>s. bufs s b)) (\<lambda>p.
       if b_flags p AND B_BUSY = 0 then kpanic ''brelse''
       else
         kseq (acquire L_bcache) (
         kseq (upd_buf (b_next p) (\<lambda>q. q\<lparr>b_prev := b_prev p\<rparr>)) (
         kseq (upd_buf (b_prev p) (\<lambda>q. q\<lparr>b_next := b_next p\<rparr>)) (
         kbind (kget (\<lambda>s. b_next (bufs s NBUF))) (\<lambda>h.
         kseq (upd_buf b (\<lambda>p. p\<lparr>b_next := h\<rparr>)) (
         kseq (upd_buf b (\<lambda>p. p\<lparr>b_prev := NBUF\<rparr>)) (
         kseq (upd_buf h (\<lambda>p. p\<lparr>b_prev := b\<rparr>)) (
         kseq (upd_buf NBUF (\<lambda>p. p\<lparr>b_next := b\<rparr>)) (
         kseq (upd_buf b (\<lambda>p. p\<lparr>b_flags := b_flags p AND NOT B_BUSY\<rparr>)) (
         kseq (wakeup (ChBuf b)) (
         release L_bcache)))))))))))"

section \<open>Linked lists\<close>

text \<open>\<open>lpath f a xs z\<close>: following \<open>f\<close> from \<open>a\<close> visits \<open>xs\<close> and then \<open>z\<close>.\<close>

fun lpath :: "(nat \<Rightarrow> nat) \<Rightarrow> nat \<Rightarrow> nat list \<Rightarrow> nat \<Rightarrow> bool" where
  "lpath f a [] z \<longleftrightarrow> f a = z"
| "lpath f a (x # xs) z \<longleftrightarrow> f a = x \<and> lpath f x xs z"

lemma path_append: "lpath f a (xs @ b # ys) z \<longleftrightarrow> lpath f a xs b \<and> lpath f b ys z"
  by (induction xs arbitrary: a) auto

lemma path_hd: "lpath f a xs z \<Longrightarrow> f a = hd (xs @ [z])"
  by (cases xs) auto

lemma path_cong: "(\<And>x. x \<in> set (a # xs) \<Longrightarrow> f x = g x) \<Longrightarrow> lpath f a xs z = lpath g a xs z"
  by (induction xs arbitrary: a) auto

lemma path_upd_notin [simp]: "c \<notin> set (a # xs) \<Longrightarrow> lpath (f(c := v)) a xs z = lpath f a xs z"
  by (rule path_cong) auto

lemma path_upd_last: "distinct (a # xs) \<Longrightarrow> lpath f a xs z \<Longrightarrow> lpath (f(last (a # xs) := w)) a xs w"
proof (induction xs arbitrary: a)
  case (Cons x xs)
  have "lpath (f(last (x # xs) := w)) x xs w" using Cons.prems by (intro Cons.IH) simp_all
  moreover have "last (x # xs) \<noteq> a" using Cons.prems(1) last_in_set [of "x # xs"] by auto
  moreover have "last (a # x # xs) = last (x # xs)" by simp
  ultimately show ?case using Cons.prems(2) by (simp add: fun_upd_def del: last.simps)
qed simp

text \<open>Unlinking \<open>b\<close>, and linking it in as the first.\<close>

lemma path_remove:
  assumes "lpath f h (xs @ b # ys) h" "distinct (h # xs @ b # ys)"
  shows "lpath (f(last (h # xs) := f b)) h (xs @ ys) h"
proof -
  have p: "lpath f h xs b" "lpath f b ys h" using assms(1) by (auto simp: path_append)
  have q: "lpath (f(last (h # xs) := f b)) h xs (f b)"
    using assms(2) p(1) by (intro path_upd_last) auto
  show ?thesis
  proof (cases ys)
    case Nil
    then show ?thesis using q p(2) by simp
  next
    case (Cons y zs)
    have "last (h # xs) \<notin> set (y # zs)"
      using assms(2) Cons last_in_set [of "h # xs"] by auto
    then show ?thesis using q p(2) Cons by (simp add: path_append del: last.simps)
  qed
qed

lemma path_push: "lpath f h xs h \<Longrightarrow> b \<notin> set xs \<Longrightarrow> b \<noteq> h \<Longrightarrow> h \<notin> set xs \<Longrightarrow>
    lpath (f(b := f h, h := b)) h (b # xs) h"
  by (cases xs) auto

lemma path_push_back:
  assumes "lpath f h xs h" "distinct (h # xs)" "b \<notin> set (h # xs)"
  shows "lpath (f(b := h, last (h # xs) := b)) h (xs @ [b]) h"
proof -
  have "lpath (f(b := h)) h xs h" using assms by simp
  then have "lpath ((f(b := h))(last (h # xs) := b)) h xs b" using assms(2) by (intro path_upd_last)
  moreover have "last (h # xs) \<noteq> b" using assms(3) last_in_set [of "h # xs"] by auto
  ultimately show ?thesis by (simp add: path_append del: last.simps)
qed

lemma bscan_path:
  "lpath link a xs NBUF \<Longrightarrow> NBUF \<notin> set xs \<Longrightarrow> bscan link P (link a) = Some (find P xs)"
proof (induction xs arbitrary: a)
  case Nil
  then show ?case by (simp add: bscan.simps)
next
  case (Cons x xs)
  then show ?case by (subst bscan.simps) auto
qed

text \<open>The list of buffers, in both directions.\<close>

definition dll :: "(nat \<Rightarrow> buf) \<Rightarrow> nat list \<Rightarrow> bool" where
  "dll B xs \<longleftrightarrow> lpath (\<lambda>b. b_next (B b)) NBUF xs NBUF \<and> lpath (\<lambda>b. b_prev (B b)) NBUF (rev xs) NBUF
     \<and> distinct xs \<and> set xs = {..<NBUF}"

lemma dll_cong:
  "(\<And>b. b_next (C b) = b_next (B b)) \<Longrightarrow> (\<And>b. b_prev (C b) = b_prev (B b)) \<Longrightarrow> dll C xs = dll B xs"
  by (simp add: dll_def)

definition set_next :: "nat \<Rightarrow> nat \<Rightarrow> (nat \<Rightarrow> buf) \<Rightarrow> nat \<Rightarrow> buf" where
  "set_next x v B = B(x := (B x)\<lparr>b_next := v\<rparr>)"

definition set_prev :: "nat \<Rightarrow> nat \<Rightarrow> (nat \<Rightarrow> buf) \<Rightarrow> nat \<Rightarrow> buf" where
  "set_prev x v B = B(x := (B x)\<lparr>b_prev := v\<rparr>)"

lemma links_set [simp]:
  "(\<lambda>c. b_next (set_next x v B c)) = (\<lambda>c. b_next (B c))(x := v)"
  "(\<lambda>c. b_next (set_prev x v B c)) = (\<lambda>c. b_next (B c))"
  "(\<lambda>c. b_prev (set_prev x v B c)) = (\<lambda>c. b_prev (B c))(x := v)"
  "(\<lambda>c. b_prev (set_next x v B c)) = (\<lambda>c. b_prev (B c))"
  by (auto simp: set_next_def set_prev_def fun_eq_iff)

lemma set_links_other [simp]:
  "b_flags (set_next x v B c) = b_flags (B c)" "b_flags (set_prev x v B c) = b_flags (B c)"
  "b_dev (set_next x v B c) = b_dev (B c)" "b_dev (set_prev x v B c) = b_dev (B c)"
  "b_sector (set_next x v B c) = b_sector (B c)" "b_sector (set_prev x v B c) = b_sector (B c)"
  "b_data (set_next x v B c) = b_data (B c)" "b_data (set_prev x v B c) = b_data (B c)"
  "b_qnext (set_next x v B c) = b_qnext (B c)" "b_qnext (set_prev x v B c) = b_qnext (B c)"
  by (simp_all add: set_next_def set_prev_def)

text \<open>What \<open>brelse\<close> does to the links.\<close>

definition unlink :: "nat \<Rightarrow> (nat \<Rightarrow> buf) \<Rightarrow> nat \<Rightarrow> buf" where
  "unlink b B = set_next (b_prev (B b)) (b_next (B b)) (set_prev (b_next (B b)) (b_prev (B b)) B)"

definition push :: "nat \<Rightarrow> (nat \<Rightarrow> buf) \<Rightarrow> nat \<Rightarrow> buf" where
  "push b B = set_next NBUF b (set_prev (b_next (B NBUF)) b
     (set_prev b NBUF (set_next b (b_next (B NBUF)) B)))"

definition to_front :: "nat \<Rightarrow> (nat \<Rightarrow> buf) \<Rightarrow> nat \<Rightarrow> buf" where
  "to_front b B = push b (unlink b B)"

lemma to_front_next:
  "(\<lambda>c. b_next (to_front b B c)) =
     (let n = (\<lambda>c. b_next (B c)); m = n(b_prev (B b) := n b) in m(b := m NBUF, NBUF := b))"
  using fun_cong [OF links_set(1), of "b_prev (B b)" "b_next (B b)"
      "set_prev (b_next (B b)) (b_prev (B b)) B" NBUF]
  by (simp add: to_front_def push_def unlink_def Let_def fun_cong [OF links_set(2)])

lemma to_front_prev:
  "(\<lambda>c. b_prev (to_front b B c)) =
     (let n = (\<lambda>c. b_next (B c)); p = (\<lambda>c. b_prev (B c)); q = p(n b := p b)
      in q(b := NBUF, (n(p b := n b)) NBUF := b))"
  using fun_cong [OF links_set(1), of "b_prev (B b)" "b_next (B b)"
      "set_prev (b_next (B b)) (b_prev (B b)) B" NBUF]
  by (simp add: to_front_def push_def unlink_def Let_def fun_cong [OF links_set(2)])

lemma to_front_other [simp]:
  "b_flags (to_front b B c) = b_flags (B c)" "b_dev (to_front b B c) = b_dev (B c)"
  "b_sector (to_front b B c) = b_sector (B c)" "b_data (to_front b B c) = b_data (B c)"
  "b_qnext (to_front b B c) = b_qnext (B c)"
  by (simp_all add: to_front_def push_def unlink_def)

lemma hd_last_rev: "hd (xs @ [h]) = last (h # rev xs)"
  by (cases xs) auto

lemma dll_to_front:
  assumes "dll B (us @ b # vs)"
  shows "dll (to_front b B) (b # us @ vs)"
proof -
  let ?n = "\<lambda>c. b_next (B c)" and ?p = "\<lambda>c. b_prev (B c)"
  have n: "lpath ?n NBUF (us @ b # vs) NBUF" and p: "lpath ?p NBUF (rev vs @ b # rev us) NBUF"
    and d: "distinct (us @ b # vs)" and set: "set (us @ b # vs) = {..<NBUF}"
    using assms by (auto simp: dll_def)
  have notin: "NBUF \<notin> set (us @ b # vs)" unfolding set by simp
  have pb: "?p b = last (NBUF # us)"
    using p path_hd [of ?p b "rev us" NBUF] by (simp add: path_append hd_last_rev)
  have nb: "?n b = last (NBUF # rev vs)"
    using n path_hd [of ?n b vs NBUF] by (simp add: path_append hd_last_rev)
  let ?m = "?n(?p b := ?n b)" and ?q = "?p(?n b := ?p b)"
  have m: "lpath ?m NBUF (us @ vs) NBUF" unfolding pb
    using n d notin by (intro path_remove) auto
  have q: "lpath ?q NBUF (rev vs @ rev us) NBUF" unfolding nb
    using p d notin by (intro path_remove) auto
  have h: "?m NBUF = last (NBUF # rev vs @ rev us)"
    unfolding path_hd [OF m] using hd_last_rev [of "us @ vs" NBUF] by (simp only: rev_append append_assoc)
  have "lpath (?q(b := NBUF, ?m NBUF := b)) NBUF ((rev vs @ rev us) @ [b]) NBUF"
    unfolding h using d notin by (intro path_push_back [OF q]) auto
  then have prev: "lpath (\<lambda>c. b_prev (to_front b B c)) NBUF (rev (b # us @ vs)) NBUF"
    by (simp only: to_front_prev Let_def rev.simps rev_append)
  have "lpath (?m(b := ?m NBUF, NBUF := b)) NBUF (b # us @ vs) NBUF"
    using d notin by (intro path_push [OF m]) auto
  then have "lpath (\<lambda>c. b_next (to_front b B c)) NBUF (b # us @ vs) NBUF"
    by (simp only: to_front_next Let_def)
  moreover have "distinct (b # us @ vs)" using d by auto
  moreover have "set (b # us @ vs) = {..<NBUF}" unfolding set [symmetric] by auto
  ultimately show ?thesis using prev unfolding dll_def by blast
qed

lemma dll_split: "dll B xs \<Longrightarrow> b < NBUF \<Longrightarrow> \<exists>us vs. xs = us @ b # vs"
  by (rule split_list) (simp add: dll_def)

lemma bget_scans:
  assumes "dll B xs"
  shows "bscan (\<lambda>b. b_next (B b)) P (b_next (B NBUF)) = Some (find P xs)"
    and "bscan (\<lambda>b. b_prev (B b)) P (b_prev (B NBUF)) = Some (find P (rev xs))"
  using assms bscan_path [of "\<lambda>b. b_next (B b)" NBUF xs P]
    bscan_path [of "\<lambda>b. b_prev (B b)" NBUF "rev xs" P] by (simp_all add: dll_def)

section \<open>The cache and the disk\<close>

text \<open>The 512 bytes of a sector; what lies beyond is not part of it.\<close>

definition sect :: "bytes \<Rightarrow> bytes" where
  "sect d = blk (\<lambda>_. 0) d"

lemma sect_at: "sect d i = (if i < 512 then d i else 0)"
  by (simp add: sect_def blk_def)

lemma sect_blk [simp]: "sect (blk x d) = sect d" "sect (sect d) = sect d"
  by (auto simp: sect_def blk_def fun_eq_iff)

lemma sect_eq_iff: "sect d = sect e \<longleftrightarrow> (\<forall>i<512. d i = e i)"
  by (auto simp: sect_def blk_def fun_eq_iff)

text \<open>The sectors the driver can address: drive 0, or drive 1 if there is one, 28 bits.\<close>

definition canon :: "bool \<Rightarrow> uint \<Rightarrow> uint \<Rightarrow> bool" where
  "canon have1 dev sec \<longleftrightarrow> (dev = 0 \<or> dev = 1 \<and> have1) \<and> sec < 0x10000000"

lemma canon_addr:
  assumes "canon h (b_dev p) (b_sector p)"
  shows "b_addr p = (b_dev p, b_sector p)"
proof -
  have "unat (b_sector p) < 2 ^ 28" using assms by (simp add: canon_def word_less_nat_alt)
  then have "take_bit 28 (b_sector p) = b_sector p"
    by (simp add: word_unat_eq_iff unsigned_take_bit_eq take_bit_nat_eq_self)
  then have "b_sector p AND 0x0fffffff = b_sector p"
    by (simp add: hex_masks take_bit_eq_mask [symmetric])
  then show ?thesis using assms by (auto simp: b_addr_def canon_def)
qed

lemma canon_dev: "canon h dev sec \<Longrightarrow> dev \<noteq> - 1"
  by (auto simp: canon_def)

abbreviation busy :: "buf \<Rightarrow> bool" where "busy p \<equiv> bit (b_flags p) 0"
abbreviation valid :: "buf \<Rightarrow> bool" where "valid p \<equiv> bit (b_flags p) (Suc 0)"
abbreviation dirty :: "buf \<Rightarrow> bool" where "dirty p \<equiv> bit (b_flags p) 2"

text \<open>The buffers in use, by the sector they are for, and the cached sectors.\<close>

definition holdsB :: "(nat \<Rightarrow> buf) \<Rightarrow> nat \<Rightarrow> (uint \<times> uint) option" where
  "holdsB B b = (if b < NBUF \<and> busy (B b) then Some (b_dev (B b), b_sector (B b)) else None)"

definition slot :: "(nat \<Rightarrow> buf) \<Rightarrow> uint \<times> uint \<Rightarrow> nat option" where
  "slot B a = find (\<lambda>b. valid (B b) \<and> (b_dev (B b), b_sector (B b)) = a) [0..<NBUF]"

text \<open>What a reader of the cache sees of a sector.\<close>

definition viewB :: "store \<Rightarrow> uint \<times> uint \<Rightarrow> bytes" where
  "viewB S a = (case slot (fst S) a of
       Some b \<Rightarrow> sect (b_data (fst S b))
     | None \<Rightarrow> sect (snd S (fst a) (snd a)))"

definition syncedB :: "store \<Rightarrow> nat \<Rightarrow> bool" where
  "syncedB S b \<longleftrightarrow> sect (b_data (fst S b)) = sect (snd S (b_dev (fst S b)) (b_sector (fst S b)))"

text \<open>
  The invariant between two calls: no buffer is dirty; the valid buffers are those that are
  for a sector, and no two are for the same one; a buffer in use is valid; one that is not
  in use agrees with the disk.
\<close>

definition buf_ok :: "bool \<Rightarrow> (uint \<Rightarrow> uint \<Rightarrow> bytes) \<Rightarrow> buf \<Rightarrow> bool" where
  "buf_ok h D p \<longleftrightarrow> \<not> dirty p \<and> (busy p \<longrightarrow> valid p) \<and> (valid p \<longleftrightarrow> b_dev p \<noteq> - 1)
     \<and> (valid p \<longrightarrow> canon h (b_dev p) (b_sector p))
     \<and> (valid p \<and> \<not> busy p \<longrightarrow> sect (b_data p) = sect (D (b_dev p) (b_sector p)))"

definition uniqB :: "(nat \<Rightarrow> buf) \<Rightarrow> bool" where
  "uniqB B \<longleftrightarrow> (\<forall>b<NBUF. \<forall>c<NBUF. valid (B b) \<and> valid (B c) \<and> b_dev (B b) = b_dev (B c)
     \<and> b_sector (B b) = b_sector (B c) \<longrightarrow> b = c)"

definition cacheB :: "bool \<Rightarrow> store \<Rightarrow> bool" where
  "cacheB h S \<longleftrightarrow> (\<exists>xs. dll (fst S) xs) \<and> (\<forall>b<NBUF. buf_ok h (snd S) (fst S b)) \<and> uniqB (fst S)"

lemma cacheB_buf: "cacheB h (B, D) \<Longrightarrow> b < NBUF \<Longrightarrow> buf_ok h D (B b)"
  by (simp add: cacheB_def)

lemma uniqB_D:
  "uniqB B \<Longrightarrow> b < NBUF \<Longrightarrow> c < NBUF \<Longrightarrow> valid (B b) \<Longrightarrow> valid (B c) \<Longrightarrow> b_dev (B b) = b_dev (B c) \<Longrightarrow>
     b_sector (B b) = b_sector (B c) \<Longrightarrow> b = c"
  by (simp add: uniqB_def)

lemma cacheB_dll: "cacheB h (B, D) \<Longrightarrow> \<exists>xs. dll B xs"
  by (simp add: cacheB_def)

lemma cacheB_noq [simp]: "cacheB h (noq B, D) = cacheB h (B, D)"
  "viewB (noq B, D) = viewB (B, D)" "holdsB (noq B) = holdsB B" "syncedB (noq B, D) = syncedB (B, D)"
  by (simp_all add: cacheB_def buf_ok_def uniqB_def noq_def dll_def syncedB_def viewB_def slot_def
      holdsB_def fun_eq_iff cong: option.case_cong)

lemma cacheB_unique:
  assumes "cacheB h (B, D)" "b < NBUF" "valid (B b)"
  shows "slot B (b_dev (B b), b_sector (B b)) = Some b"
proof -
  have "slot B (b_dev (B b), b_sector (B b)) \<noteq> None"
    using assms(2,3) unfolding slot_def find_upt_None by auto
  then obtain c where c: "slot B (b_dev (B b), b_sector (B b)) = Some c" by blast
  then have "c < NBUF" "valid (B c)" "b_dev (B c) = b_dev (B b)" "b_sector (B c) = b_sector (B b)"
    unfolding slot_def find_upt_Some by auto
  then have "c = b" using assms uniqB_D [of B c b] by (simp add: cacheB_def)
  then show ?thesis using c by simp
qed

lemma viewB_cached:
  "cacheB h (B, D) \<Longrightarrow> b < NBUF \<Longrightarrow> valid (B b) \<Longrightarrow>
     viewB (B, D) (b_dev (B b), b_sector (B b)) = sect (b_data (B b))"
  by (simp add: viewB_def cacheB_unique)

lemma slot_None:
  "slot B a = None \<longleftrightarrow> (\<forall>b<NBUF. valid (B b) \<longrightarrow> (b_dev (B b), b_sector (B b)) \<noteq> a)"
  unfolding slot_def find_upt_None by blast

lemma slot_SomeD:
  "slot B a = Some b \<Longrightarrow> b < NBUF \<and> valid (B b) \<and> (b_dev (B b), b_sector (B b)) = a"
  unfolding slot_def find_upt_Some by blast

section \<open>What the operations do to the cache\<close>

lemma viewB_cong:
  assumes "\<And>c. c < NBUF \<Longrightarrow> valid (C c) = valid (B c)"
    and "\<And>c. c < NBUF \<Longrightarrow> b_dev (C c) = b_dev (B c) \<and> b_sector (C c) = b_sector (B c)"
    and "\<And>c. c < NBUF \<Longrightarrow> sect (b_data (C c)) = sect (b_data (B c))"
  shows "viewB (C, D) = viewB (B, D)"
proof
  fix a
  have "slot C a = slot B a"
    unfolding slot_def using assms(1,2) by (intro find_cong) simp_all
  then show "viewB (C, D) a = viewB (B, D) a"
    using assms(3) by (auto simp: viewB_def dest: slot_SomeD split: option.splits)
qed

text \<open>Replacing one buffer by one for the same sector, or for a sector not cached.\<close>

lemma uniqB_upd:
  assumes "uniqB B" "b < NBUF"
    and "valid p \<Longrightarrow> valid (B b) \<and> b_dev p = b_dev (B b) \<and> b_sector p = b_sector (B b)
      \<or> slot B (b_dev p, b_sector p) = None"
  shows "uniqB (B(b := p))"
proof -
  have *: "c = b" if "c < NBUF" "valid p" "valid (B c)" "b_dev (B c) = b_dev p"
      "b_sector (B c) = b_sector p" for c
    using assms(3) [OF that(2)]
  proof
    assume "valid (B b) \<and> b_dev p = b_dev (B b) \<and> b_sector p = b_sector (B b)"
    then show ?thesis using that by (intro uniqB_D [OF assms(1) that(1) assms(2)]) simp_all
  next
    assume "slot B (b_dev p, b_sector p) = None"
    then show ?thesis using that unfolding slot_None by simp
  qed
  show ?thesis
    unfolding uniqB_def
  proof (intro allI impI)
    fix c d
    assume H: "c < NBUF" "d < NBUF" "valid ((B(b := p)) c) \<and> valid ((B(b := p)) d)
      \<and> b_dev ((B(b := p)) c) = b_dev ((B(b := p)) d)
      \<and> b_sector ((B(b := p)) c) = b_sector ((B(b := p)) d)"
    consider "c = d" | "c = b" "d \<noteq> b" | "c \<noteq> b" "d = b" | "c \<noteq> b" "d \<noteq> b" by blast
    then show "c = d"
    proof cases
      case 2
      then have "d = b" using H by (intro *) simp_all
      then show ?thesis using 2 by simp
    next
      case 3
      then have "c = b" using H by (intro *) simp_all
      then show ?thesis using 3 by simp
    next
      case 4
      then show ?thesis using H by (intro uniqB_D [OF assms(1)]) simp_all
    qed simp
  qed
qed

lemma cacheB_upd:
  assumes inv: "cacheB h (B, D)" and b: "b < NBUF"
    and p: "b_next p = b_next (B b)" "b_prev p = b_prev (B b)" "buf_ok h D p"
    and "valid p \<Longrightarrow> valid (B b) \<and> b_dev p = b_dev (B b) \<and> b_sector p = b_sector (B b)
      \<or> slot B (b_dev p, b_sector p) = None"
  shows "cacheB h (B(b := p), D)"
proof -
  obtain xs where "dll B xs" using cacheB_dll [OF inv] by blast
  then have "dll (B(b := p)) xs" using p by (subst dll_cong [of _ B]) auto
  moreover have "uniqB (B(b := p))" using assms by (intro uniqB_upd) (auto simp: cacheB_def)
  ultimately show ?thesis using inv p(3) by (auto simp: cacheB_def)
qed

lemma holdsB_upd:
  "holdsB (B(b := p)) = (holdsB B)(b := (if b < NBUF \<and> busy p then Some (b_dev p, b_sector p) else None))"
  by (auto simp: holdsB_def fun_eq_iff)

lemma syncedB_upd:
  "syncedB (B(b := p), D) c = (if c = b then sect (b_data p) = sect (D (b_dev p) (b_sector p))
     else syncedB (B, D) c)"
  by (simp add: syncedB_def)

text \<open>Taking a cached buffer.\<close>

lemma cache_take:
  assumes inv: "cacheB h (B, D)" and b: "b < NBUF" "valid (B b)" "\<not> busy (B b)"
    and p: "p = (B b)\<lparr>b_flags := b_flags (B b) OR B_BUSY\<rparr>"
  shows "cacheB h (B(b := p), D)" "viewB (B(b := p), D) = viewB (B, D)"
    "holdsB (B(b := p)) = (holdsB B)(b \<mapsto> (b_dev (B b), b_sector (B b)))" "syncedB (B(b := p), D) b"
proof -
  have ok: "buf_ok h D (B b)" using inv b by (simp add: cacheB_buf)
  then have "buf_ok h D p" using b by (auto simp: p buf_ok_def flag_simps)
  then show "cacheB h (B(b := p), D)" using inv b p by (intro cacheB_upd) auto
  show "viewB (B(b := p), D) = viewB (B, D)" by (rule viewB_cong) (auto simp: p flag_simps)
  show "holdsB (B(b := p)) = (holdsB B)(b \<mapsto> (b_dev (B b), b_sector (B b)))"
    using b by (simp add: holdsB_upd p flag_simps)
  show "syncedB (B(b := p), D) b" using ok b by (simp add: syncedB_upd p buf_ok_def)
qed

text \<open>Loading a sector that is not cached into a buffer that is not in use.\<close>

lemma cache_load:
  assumes inv: "cacheB h (B, D)" and b: "b < NBUF" "\<not> busy (B b)"
    and a: "slot B (dev, sec) = None" "canon h dev sec"
    and p: "b_next p = b_next (B b)" "b_prev p = b_prev (B b)" "b_dev p = dev" "b_sector p = sec"
      "busy p" "valid p" "\<not> dirty p" "sect (b_data p) = sect (D dev sec)"
  shows "cacheB h (B(b := p), D)" "viewB (B(b := p), D) = viewB (B, D)"
    "holdsB (B(b := p)) = (holdsB B)(b \<mapsto> (dev, sec))" "syncedB (B(b := p), D) b"
proof -
  have "buf_ok h D p" using p a canon_dev [OF a(2)] by (auto simp: buf_ok_def)
  then show inv': "cacheB h (B(b := p), D)" using inv b p a(1) by (intro cacheB_upd) auto
  show "holdsB (B(b := p)) = (holdsB B)(b \<mapsto> (dev, sec))" using b p by (simp add: holdsB_upd)
  show "syncedB (B(b := p), D) b" using p by (simp add: syncedB_upd)
  show "viewB (B(b := p), D) = viewB (B, D)"
  proof
    fix x
    show "viewB (B(b := p), D) x = viewB (B, D) x"
    proof (cases "slot B x")
      case None
      show ?thesis
      proof (cases "x = (dev, sec)")
        case True
        then show ?thesis
          using viewB_cached [OF inv' b(1)] p None by (simp add: viewB_def [of "(B, D)"])
      next
        case False
        then have "slot (B(b := p)) x = None" using None p unfolding slot_None by simp
        then show ?thesis using None by (simp add: viewB_def)
      qed
    next
      case (Some c)
      then have c: "c < NBUF" "valid (B c)" "x = (b_dev (B c), b_sector (B c))"
        using slot_SomeD by blast+
      show ?thesis
      proof (cases "c = b")
        case True
        then have "x \<noteq> (dev, sec)" using a(1) c b unfolding slot_None by metis
        then have "slot (B(b := p)) x = None"
          unfolding slot_None using p c True inv b
          by (auto dest: uniqB_D [rotated 3] simp: cacheB_def)
        moreover have "sect (b_data (B c)) = sect (D (fst x) (snd x))"
          using cacheB_buf [OF inv c(1)] c b True by (simp add: buf_ok_def)
        ultimately show ?thesis using Some by (simp add: viewB_def)
      next
        case False
        then show ?thesis
          using viewB_cached [OF inv' c(1)] viewB_cached [OF inv c(1)] c by simp
      qed
    qed
  qed
qed

text \<open>Changing the data of a buffer in use.\<close>

lemma cache_put:
  assumes inv: "cacheB h (B, D)" and b: "holdsB B b = Some a" and p: "p = (B b)\<lparr>b_data := d\<rparr>"
  shows "cacheB h (B(b := p), D)" "viewB (B(b := p), D) = (viewB (B, D))(a := sect d)"
    "holdsB (B(b := p)) = holdsB B" "c \<noteq> b \<Longrightarrow> syncedB (B(b := p), D) c = syncedB (B, D) c"
proof -
  have bb: "b < NBUF" "busy (B b)" "a = (b_dev (B b), b_sector (B b))"
    using b by (auto simp: holdsB_def split: if_splits)
  have ok: "buf_ok h D (B b)" using inv bb by (simp add: cacheB_buf)
  then have v: "valid (B b)" using bb by (simp add: buf_ok_def)
  have "buf_ok h D p" using ok bb v by (auto simp: p buf_ok_def)
  then show inv': "cacheB h (B(b := p), D)" using inv bb v p by (intro cacheB_upd) auto
  show "holdsB (B(b := p)) = holdsB B" using bb by (simp add: holdsB_upd p) (simp add: holdsB_def fun_eq_iff)
  show "c \<noteq> b \<Longrightarrow> syncedB (B(b := p), D) c = syncedB (B, D) c" by (simp add: syncedB_upd)
  show "viewB (B(b := p), D) = (viewB (B, D))(a := sect d)"
  proof
    fix x
    show "viewB (B(b := p), D) x = ((viewB (B, D))(a := sect d)) x"
    proof (cases "x = a")
      case True
      then show ?thesis using viewB_cached [OF inv' bb(1)] v bb(3) by (simp add: p)
    next
      case False
      have "slot (B(b := p)) x = slot B x"
        unfolding slot_def by (intro find_cong) (auto simp: p)
      moreover have "slot B x \<noteq> Some b" using False bb(3) slot_SomeD by blast
      ultimately show ?thesis using False by (auto simp: viewB_def split: option.splits)
    qed
  qed
qed

text \<open>Writing a buffer in use to its sector.\<close>

lemma cache_write:
  assumes inv: "cacheB h (B, D)" and b: "holdsB B b = Some a"
    and p: "p = (B b)\<lparr>b_flags := f\<rparr>" "bit f 0" "bit f (Suc 0)" "\<not> bit f 2"
    and D': "D' = disk_put D (B b)"
  shows "cacheB h (B(b := p), D')" "viewB (B(b := p), D') = viewB (B, D)"
    "holdsB (B(b := p)) = holdsB B" "syncedB (B(b := p), D') b"
    "holdsB B c \<noteq> None \<Longrightarrow> c \<noteq> b \<Longrightarrow> syncedB (B(b := p), D') c = syncedB (B, D) c"
proof -
  have bb: "b < NBUF" "busy (B b)" "a = (b_dev (B b), b_sector (B b))"
    using b by (auto simp: holdsB_def split: if_splits)
  have ok: "buf_ok h D (B b)" using inv bb by (simp add: cacheB_buf)
  then have v: "valid (B b)" "canon h (b_dev (B b)) (b_sector (B b))" "b_dev (B b) \<noteq> - 1"
    using bb by (auto simp: buf_ok_def)
  have dput: "D' dev sec = (if (dev, sec) = a then blk (D dev sec) (b_data (B b)) else D dev sec)" for dev sec
    using canon_addr [OF v(2)] by (simp add: D' disk_put_def bb(3))
  have ne: "(b_dev (B c), b_sector (B c)) \<noteq> a" if "c < NBUF" "valid (B c)" "c \<noteq> b" for c
    using uniqB_D [of B c b] inv that bb v by (auto simp: cacheB_def)
  have okc: "buf_ok h D' (B c)" if "c < NBUF" "c \<noteq> b" for c
    using cacheB_buf [OF inv that(1)] ne [OF that(1)] that(2)
    by (cases "valid (B c)") (simp_all add: buf_ok_def dput)
  have okp: "buf_ok h D' p" using v p by (simp add: buf_ok_def dput bb(3))
  have "cacheB h (B, D)" "uniqB (B(b := p))"
    using inv bb p v by (auto intro!: uniqB_upd simp: cacheB_def)
  moreover have "\<exists>xs. dll (B(b := p)) xs"
    using cacheB_dll [OF inv] dll_cong [of "B(b := p)" B] p(1) by auto
  ultimately show inv': "cacheB h (B(b := p), D')"
    using okc okp by (simp add: cacheB_def)
  show "holdsB (B(b := p)) = holdsB B"
    using bb p by (simp add: holdsB_upd) (simp add: holdsB_def fun_eq_iff)
  show "syncedB (B(b := p), D') b" by (simp add: syncedB_upd dput p(1) bb(3))
  show "syncedB (B(b := p), D') c = syncedB (B, D) c" if "holdsB B c \<noteq> None" "c \<noteq> b"
  proof -
    have "c < NBUF" "busy (B c)" using that(1) by (auto simp: holdsB_def split: if_splits)
    then have "(b_dev (B c), b_sector (B c)) \<noteq> a"
      using ne that(2) cacheB_buf [OF inv, of c] by (simp add: buf_ok_def)
    then show ?thesis using that(2) by (simp add: syncedB_def dput)
  qed
  show "viewB (B(b := p), D') = viewB (B, D)"
  proof
    fix x
    have "slot (B(b := p)) x = slot B x"
      unfolding slot_def using p v by (intro find_cong) auto
    moreover have "slot B x = None \<Longrightarrow> x \<noteq> a" using bb v unfolding slot_None by auto
    ultimately show "viewB (B(b := p), D') x = viewB (B, D) x"
      by (auto simp: viewB_def dput p(1) split: option.splits)
  qed
qed

text \<open>Giving a buffer back, moved to the front of the list.\<close>

lemma cache_release:
  assumes inv: "cacheB h (B, D)" and b: "holdsB B b = Some a" "syncedB (B, D) b"
    and C: "C = (to_front b B)(b := (to_front b B b)\<lparr>b_flags := b_flags (B b) AND NOT B_BUSY\<rparr>)"
  shows "cacheB h (C, D)" "viewB (C, D) = viewB (B, D)" "holdsB C = (holdsB B)(b := None)"
    "syncedB (C, D) = syncedB (B, D)"
proof -
  have bb: "b < NBUF" "busy (B b)" "a = (b_dev (B b), b_sector (B b))"
    using b by (auto simp: holdsB_def split: if_splits)
  obtain xs where xs: "dll B xs" using cacheB_dll [OF inv] by blast
  obtain us vs where "xs = us @ b # vs" using dll_split [OF xs bb(1)] by blast
  then have "dll (to_front b B) (b # us @ vs)" using xs dll_to_front by simp
  then have "dll C (b # us @ vs)" unfolding C by (subst dll_cong [of _ "to_front b B"]) auto
  moreover have f: "valid (C c) = valid (B c)" "dirty (C c) = dirty (B c)" "b_dev (C c) = b_dev (B c)"
      "b_sector (C c) = b_sector (B c)" "b_data (C c) = b_data (B c)"
      "busy (C c) = (c \<noteq> b \<and> busy (B c))" for c
    by (simp_all add: C flag_simps)
  moreover have "buf_ok h D (C c)" if "c < NBUF" for c
    using cacheB_buf [OF inv that] b(2) bb unfolding buf_ok_def f syncedB_def by auto
  moreover have "uniqB C" using inv unfolding uniqB_def cacheB_def f by simp
  ultimately show "cacheB h (C, D)" by (auto simp: cacheB_def)
  show "viewB (C, D) = viewB (B, D)"
    by (rule viewB_cong) (simp_all add: f)
  show "holdsB C = (holdsB B)(b := None)" by (auto simp: f holdsB_def fun_eq_iff)
  show "syncedB (C, D) = syncedB (B, D)" by (simp add: f syncedB_def fun_eq_iff)
qed

section \<open>The operations\<close>

definition cache_ok :: "nat \<Rightarrow> 'a kide_scheme \<Rightarrow> bool" where
  "cache_ok i s \<longleftrightarrow> io_ready [] i s \<and> cacheB (havedisk1 s) (bufs s, disk s)"

definition holds :: "'a kide_scheme \<Rightarrow> nat \<Rightarrow> (uint \<times> uint) option" where
  "holds s = holdsB (bufs s)"

definition bview :: "'a kide_scheme \<Rightarrow> uint \<times> uint \<Rightarrow> bytes" where
  "bview s = viewB (bufs s, disk s)"

definition synced :: "'a kide_scheme \<Rightarrow> nat \<Rightarrow> bool" where
  "synced s = syncedB (bufs s, disk s)"

definition io_frame :: "nat \<Rightarrow> 'a kide_scheme \<Rightarrow> 'a kide_scheme \<Rightarrow> bool" where
  "io_frame i s t \<longleftrightarrow> io_same s t \<and> tab_rel (Some i) (ptable s) (ptable t)"

lemmas cache_defs = cache_ok_def holds_def bview_def synced_def

lemma io_frame_refl [simp]: "io_frame i s s"
  by (simp add: io_frame_def)

lemma io_frame_trans [trans]: "io_frame i s t \<Longrightarrow> io_frame i t u \<Longrightarrow> io_frame i s u"
  unfolding io_frame_def using io_same_trans tab_rel_trans by blast

lemma io_frame_bufs: "io_frame i s (s\<lparr>bufs := B\<rparr>)"
  by (simp add: io_frame_def io_same_def)

lemma io_ready_bufs: "io_ready [] i s \<Longrightarrow> io_ready [] i (s\<lparr>bufs := B\<rparr>)"
  by (simp add: io_ready_def ide_inv_def)

lemma io_ready_locks: "io_ready xs i s \<Longrightarrow> held s = []"
  by (simp add: io_ready_def)

text \<open>\<open>bget\<close> on a sector that is cached and free, and on one that is not cached.\<close>

lemma bget_hit:
  assumes "dll (bufs s) xs" "held s = []"
    and "find (\<lambda>b. b_dev (bufs s b) = dev \<and> b_sector (bufs s b) = sec) xs = Some b"
    and "\<not> busy (bufs s b)"
  shows "bget dev sec s = Done b
    (s\<lparr>bufs := (bufs s)(b := (bufs s b)\<lparr>b_flags := b_flags (bufs s b) OR B_BUSY\<rparr>)\<rparr>)"
  using assms
  by (simp add: bget_def bget_loop_def kdefs acquire_def release_def bget_scans upd_buf_def flag_simps)

lemma bget_miss:
  assumes "dll (bufs s) xs" "held s = []"
    and "find (\<lambda>b. b_dev (bufs s b) = dev \<and> b_sector (bufs s b) = sec) xs = None"
    and "find (\<lambda>b. b_flags (bufs s b) AND B_BUSY = 0) (rev xs) = Some b"
  shows "bget dev sec s = Done b
    (s\<lparr>bufs := (bufs s)(b := (bufs s b)\<lparr>b_dev := dev, b_sector := sec, b_flags := B_BUSY\<rparr>)\<rparr>)"
  using assms
  by (simp add: bget_def bget_loop_def kdefs acquire_def release_def bget_scans upd_buf_def)

lemma bread_hit:
  fixes s :: "'a kide_scheme"
  assumes ok: "cache_ok i s" and b: "b < NBUF" "(b_dev (bufs s b), b_sector (bufs s b)) = (dev, sec)"
    and dev: "canon (havedisk1 s) dev sec" and nb: "\<not> busy (bufs s b)" and xs: "dll (bufs s) xs"
    and f: "find (\<lambda>b. b_dev (bufs s b) = dev \<and> b_sector (bufs s b) = sec) xs = Some b"
  shows "runs (bread dev sec) s (\<lambda>c t. c = b \<and> cache_ok i t \<and> io_frame i s t \<and> bview t = bview s
    \<and> holds t = (holds s)(c \<mapsto> (dev, sec)) \<and> synced t c
    \<and> (\<forall>d. d \<noteq> c \<longrightarrow> synced t d = synced s d))"
proof -
  let ?p = "(bufs s b)\<lparr>b_flags := b_flags (bufs s b) OR B_BUSY\<rparr>"
  have inv: "cacheB (havedisk1 s) (bufs s, disk s)" and r: "io_ready [] i s"
    using ok by (simp_all add: cache_ok_def)
  have v: "valid (bufs s b)"
    using cacheB_buf [OF inv b(1)] b(2) canon_dev [OF dev] by (auto simp: buf_ok_def)
  note c = cache_take [OF inv b(1) v nb refl]
  have "bread dev sec s = Done b (s\<lparr>bufs := (bufs s)(b := ?p)\<rparr>)"
    using bget_hit [OF xs io_ready_locks [OF r] f nb] v by (simp add: bread_def kdefs flag_simps)
  then show ?thesis
    using c io_ready_bufs [OF r] b(2)
    by (auto simp: runs_def cache_defs io_frame_bufs syncedB_upd)
qed

text \<open>A state reached by the driver, as far as the cache is concerned.\<close>

lemma cache_state:
  assumes "io_ready [] i t" "io_same s t" "(noq (bufs t), disk t) = (noq B, D)"
    and "cacheB (havedisk1 s) (B, D)"
  shows "cache_ok i t" "bview t = viewB (B, D)" "holds t = holdsB B" "synced t = syncedB (B, D)"
proof -
  have q: "noq (bufs t) = noq B" and d: "disk t = D" using assms(3) by simp_all
  have "cacheB h (bufs t, disk t) = cacheB h (noq B, D)" "viewB (bufs t, disk t) = viewB (noq B, D)"
      "holdsB (bufs t) = holdsB (noq B)" "syncedB (bufs t, disk t) = syncedB (noq B, D)" for h
    unfolding q [symmetric] d by simp_all
  then show "cache_ok i t" "bview t = viewB (B, D)" "holds t = holdsB B" "synced t = syncedB (B, D)"
    using assms(1,4) io_sameD(8) [OF assms(2)] by (simp_all add: cache_defs)
qed

lemma bread_miss:
  fixes s :: "'a kide_scheme"
  assumes ok: "cache_ok i s" and dev: "canon (havedisk1 s) dev sec" and xs: "dll (bufs s) xs"
    and f: "find (\<lambda>b. b_dev (bufs s b) = dev \<and> b_sector (bufs s b) = sec) xs = None"
    and g: "find (\<lambda>b. b_flags (bufs s b) AND B_BUSY = 0) (rev xs) = Some b"
  shows "runs (bread dev sec) s (\<lambda>c t. c = b \<and> cache_ok i t \<and> io_frame i s t \<and> bview t = bview s
    \<and> holds t = (holds s)(c \<mapsto> (dev, sec)) \<and> synced t c
    \<and> (\<forall>d. d \<noteq> c \<longrightarrow> synced t d = synced s d))"
proof -
  let ?B = "bufs s" and ?D = "disk s"
  let ?p = "(?B b)\<lparr>b_dev := dev, b_sector := sec, b_flags := B_BUSY\<rparr>"
  let ?q = "?p\<lparr>b_data := blk (b_data (?B b)) (?D dev sec), b_flags := clean_flags B_BUSY\<rparr>"
  let ?u = "s\<lparr>bufs := ?B(b := ?p)\<rparr>"
  have inv: "cacheB (havedisk1 s) (?B, ?D)" and r: "io_ready [] i s"
    using ok by (simp_all add: cache_ok_def)
  have b: "b < NBUF" "\<not> busy (?B b)"
    using g xs by (auto simp: find_Some_iff dll_def flag_simps) (metis lessThan_iff nth_mem rev_nth set_rev length_rev)
  have miss: "slot ?B (dev, sec) = None"
    using f xs unfolding slot_None by (auto simp: find_None_iff dll_def)
  have "disk_get ?D ?p = ?D dev sec"
    using canon_addr [of "havedisk1 s" ?p] dev by (simp add: disk_get_def)
  then have "sync b (?B(b := ?p), ?D) = (?B(b := ?q), ?D)" by (simp add: sync_def)
  then have sync: "fold sync ([] @ [b]) (noq (?B(b := ?p)), ?D) = (noq (?B(b := ?q)), ?D)"
    by (simp only: append_Nil fold_simps sync_noq apfst_conv)
  note c = cache_load [OF inv b miss dev, of ?q]
  have c': "cacheB (havedisk1 s) (?B(b := ?q), ?D)" "viewB (?B(b := ?q), ?D) = viewB (?B, ?D)"
      "holdsB (?B(b := ?q)) = (holdsB ?B)(b \<mapsto> (dev, sec))" "syncedB (?B(b := ?q), ?D) b"
    by (rule c; simp add: clean_flags_bits flag_simps)+
  have rw: "runs (iderw b) ?u (\<lambda>_ t. io_ready [] i t \<and> io_same ?u t
    \<and> (noq (bufs t), disk t) = fold sync ([] @ [b]) (noq (bufs ?u), disk ?u)
    \<and> tab_rel (Some i) (ptable ?u) (ptable t))"
    using dev by (intro iderw_runs io_ready_bufs [OF r] b(1)) (auto simp: flag_simps canon_def)
  have u: "bufs ?u = ?B(b := ?p)" "disk ?u = ?D" "ptable ?u = ptable s" by simp_all
  obtain t where t: "iderw b ?u = Done () t" "io_ready [] i t" "io_same ?u t"
      "(noq (bufs t), disk t) = (noq (?B(b := ?q)), ?D)" "tab_rel (Some i) (ptable s) (ptable t)"
    using rw unfolding u sync by (elim runs_unitE) blast
  have "io_same s ?u" by (simp add: io_same_def)
  then have same: "io_same s t" using t(3) by (rule io_same_trans)
  note st = cache_state [OF t(2) same t(4) c'(1)]
  have "bread dev sec s = Done b t"
    using bget_miss [OF xs io_ready_locks [OF r] f g] t(1) by (simp add: bread_def kdefs)
  then show ?thesis
    using st c' same t(5)
    by (auto simp: runs_def bview_def [of s] holds_def [of s] synced_def [of s] io_frame_def syncedB_upd)
qed

text \<open>The post-condition of \<open>bread\<close>, and the four laws of the cache.\<close>

definition got :: "nat \<Rightarrow> 'a kide_scheme \<Rightarrow> uint \<times> uint \<Rightarrow> nat \<Rightarrow> 'a kide_scheme \<Rightarrow> bool" where
  "got i s a b t \<longleftrightarrow> cache_ok i t \<and> io_frame i s t \<and> bview t = bview s
     \<and> holds t = (holds s)(b \<mapsto> a) \<and> holds s b = None \<and> synced t b
     \<and> (\<forall>c. c \<noteq> b \<longrightarrow> synced t c = synced s c)"

lemma bread_law:
  fixes s :: "'a kide_scheme"
  assumes ok: "cache_ok i s" and dev: "canon (havedisk1 s) dev sec"
    and free: "(dev, sec) \<notin> ran (holds s)" and room: "b < NBUF" "holds s b = None"
  shows "runs (bread dev sec) s (\<lambda>b t. got i s (dev, sec) b t)"
proof -
  have inv: "cacheB (havedisk1 s) (bufs s, disk s)" using ok by (simp add: cache_ok_def)
  obtain xs where xs: "dll (bufs s) xs" using cacheB_dll [OF inv] by blast
  have nb: "\<not> busy (bufs s b)" using room by (simp add: holds_def holdsB_def split: if_splits)
  show ?thesis
  proof (cases "find (\<lambda>b. b_dev (bufs s b) = dev \<and> b_sector (bufs s b) = sec) xs")
    case (Some c)
    then have c: "c \<in> set xs" "b_dev (bufs s c) = dev" "b_sector (bufs s c) = sec"
      by (auto simp: find_Some_iff)
    then have "c < NBUF" using xs by (auto simp: dll_def)
    moreover have "holds s c = None"
      using free c calculation by (auto simp: holds_def holdsB_def ran_def split: if_splits)
    ultimately show ?thesis
      using bread_hit [OF ok _ _ dev _ xs Some] c
      by (auto elim!: runs_mono simp: got_def holds_def holdsB_def split: if_splits)
  next
    case None
    have "find (\<lambda>b. b_flags (bufs s b) AND B_BUSY = 0) (rev xs) \<noteq> None"
      using xs room(1) nb by (auto simp: find_None_iff dll_def flag_simps)
    then obtain c where g: "find (\<lambda>b. b_flags (bufs s b) AND B_BUSY = 0) (rev xs) = Some c" by blast
    then have "b_flags (bufs s c) AND B_BUSY = 0" by (auto simp: find_Some_iff)
    then have "holds s c = None" by (simp add: holds_def holdsB_def flag_simps)
    then show ?thesis
      using bread_miss [OF ok dev xs None g] by (auto elim!: runs_mono simp: got_def)
  qed
qed

text \<open>Reading and changing \<open>b->data\<close>.\<close>

definition upd_data :: "nat \<Rightarrow> (bytes \<Rightarrow> bytes) \<Rightarrow> ('a kide_scheme, unit) K" where
  "upd_data b f = upd_buf b (\<lambda>p. p\<lparr>b_data := f (b_data p)\<rparr>)"

definition get_data :: "nat \<Rightarrow> ('a kide_scheme, bytes) K" where
  "get_data b = kget (\<lambda>s. b_data (bufs s b))"

lemma get_data_law:
  assumes "cache_ok i s" "holds s b = Some a"
  shows "sect (b_data (bufs s b)) = bview s a"
proof -
  have inv: "cacheB (havedisk1 s) (bufs s, disk s)" using assms(1) by (simp add: cache_ok_def)
  have b: "b < NBUF" "busy (bufs s b)" "a = (b_dev (bufs s b), b_sector (bufs s b))"
    using assms(2) by (auto simp: holds_def holdsB_def split: if_splits)
  then have "valid (bufs s b)" using cacheB_buf [OF inv b(1)] by (simp add: buf_ok_def)
  then show ?thesis using viewB_cached [OF inv b(1)] b(3) by (simp add: bview_def)
qed

lemma upd_data_law:
  assumes "cache_ok i s" "holds s b = Some a"
  shows "runs (upd_data b f) s (\<lambda>_ t. cache_ok i t \<and> io_frame i s t
    \<and> bview t = (bview s)(a := sect (f (b_data (bufs s b))))
    \<and> holds t = holds s \<and> (\<forall>c. c \<noteq> b \<longrightarrow> synced t c = synced s c))"
proof -
  have inv: "cacheB (havedisk1 s) (bufs s, disk s)" and r: "io_ready [] i s"
    using assms(1) by (simp_all add: cache_ok_def)
  note c = cache_put [OF inv assms(2) [unfolded holds_def] refl, where d = "f (b_data (bufs s b))"]
  show ?thesis
    using c io_ready_bufs [OF r]
    by (auto simp: runs_def upd_data_def upd_buf_def kdefs cache_defs io_frame_bufs)
qed

lemma bwrite_law:
  fixes s :: "'a kide_scheme"
  assumes "cache_ok i s" "holds s b = Some a"
  shows "runs (bwrite b) s (\<lambda>_ t. cache_ok i t \<and> io_frame i s t \<and> bview t = bview s
    \<and> holds t = holds s \<and> synced t b \<and> (\<forall>c. holds s c \<noteq> None \<and> c \<noteq> b \<longrightarrow> synced t c = synced s c))"
proof -
  let ?B = "bufs s" and ?D = "disk s"
  let ?p = "(?B b)\<lparr>b_flags := b_flags (?B b) OR B_DIRTY\<rparr>"
  let ?f = "clean_flags (b_flags ?p)"
  let ?q = "(?B b)\<lparr>b_flags := ?f\<rparr>"
  let ?u = "s\<lparr>bufs := ?B(b := ?p)\<rparr>"
  have inv: "cacheB (havedisk1 s) (?B, ?D)" and r: "io_ready [] i s"
    using assms(1) by (simp_all add: cache_ok_def)
  have b: "b < NBUF" "busy (?B b)" "a = (b_dev (?B b), b_sector (?B b))"
    using assms(2) by (auto simp: holds_def holdsB_def split: if_splits)
  have dev: "canon (havedisk1 s) (b_dev (?B b)) (b_sector (?B b))"
    using cacheB_buf [OF inv b(1)] b(2) by (simp add: buf_ok_def)
  have "disk_put ?D ?p = disk_put ?D (?B b)" by (simp add: disk_put_def b_addr_def)
  then have "sync b (?B(b := ?p), ?D) = (?B(b := ?q), disk_put ?D (?B b))"
    by (simp add: sync_def flag_simps)
  then have sync: "fold sync ([] @ [b]) (noq (?B(b := ?p)), ?D) = (noq (?B(b := ?q)), disk_put ?D (?B b))"
    by (simp only: append_Nil fold_simps sync_noq apfst_conv)
  have f: "bit ?f 0" "bit ?f (Suc 0)" "\<not> bit ?f 2"
    using b(2) by (simp_all add: clean_flags_bits flag_simps)
  note c = cache_write [OF inv assms(2) [unfolded holds_def] refl f refl]
  have rw: "runs (iderw b) ?u (\<lambda>_ t. io_ready [] i t \<and> io_same ?u t
    \<and> (noq (bufs t), disk t) = fold sync ([] @ [b]) (noq (bufs ?u), disk ?u)
    \<and> tab_rel (Some i) (ptable ?u) (ptable t))"
    using dev b(2) by (intro iderw_runs io_ready_bufs [OF r] b(1)) (auto simp: flag_simps canon_def)
  have u: "bufs ?u = ?B(b := ?p)" "disk ?u = ?D" "ptable ?u = ptable s" by simp_all
  obtain t where t: "iderw b ?u = Done () t" "io_ready [] i t" "io_same ?u t"
      "(noq (bufs t), disk t) = (noq (?B(b := ?q)), disk_put ?D (?B b))"
      "tab_rel (Some i) (ptable s) (ptable t)"
    using rw unfolding u sync by (elim runs_unitE) blast
  have "io_same s ?u" by (simp add: io_same_def)
  then have same: "io_same s t" using t(3) by (rule io_same_trans)
  note st = cache_state [OF t(2) same t(4) c(1)]
  have "bwrite b s = Done () t" using t(1) b(2) by (simp add: bwrite_def kdefs flag_simps upd_buf_def)
  then show ?thesis
    using st c same t(5)
    by (auto simp: runs_def bview_def [of s] holds_def [of s] synced_def [of s] io_frame_def)
qed

lemma upd_links:
  "upd_buf x (\<lambda>p. p\<lparr>b_next := v\<rparr>) s = Done () (s\<lparr>bufs := set_next x v (bufs s)\<rparr>)"
  "upd_buf x (\<lambda>p. p\<lparr>b_prev := v\<rparr>) s = Done () (s\<lparr>bufs := set_prev x v (bufs s)\<rparr>)"
  by (simp_all add: upd_buf_def kdefs set_next_def set_prev_def)

lemma brelse_eq:
  assumes "busy (bufs s b)" "held s = []"
  shows "brelse b s = Done () (s\<lparr>bufs := (to_front b (bufs s))(b := (to_front b (bufs s) b)
      \<lparr>b_flags := b_flags (bufs s b) AND NOT B_BUSY\<rparr>),
    ptable := wake_table (ChBuf b) (ptable s)\<rparr>)"
  using assms
  by (simp add: brelse_def kdefs flag_simps acquire_def release_def upd_links to_front_def push_def
      unlink_def wakeup_eq upd_buf_def [of b "\<lambda>p. p\<lparr>b_flags := f p\<rparr>" for f])

lemma brelse_law:
  assumes "cache_ok i s" "holds s b = Some a" "synced s b"
  shows "runs (brelse b) s (\<lambda>_ t. cache_ok i t \<and> io_frame i s t \<and> bview t = bview s
    \<and> holds t = (holds s)(b := None) \<and> synced t = synced s)"
proof -
  let ?C = "(to_front b (bufs s))(b := (to_front b (bufs s) b)
      \<lparr>b_flags := b_flags (bufs s b) AND NOT B_BUSY\<rparr>)"
  let ?t = "s\<lparr>bufs := ?C, ptable := wake_table (ChBuf b) (ptable s)\<rparr>"
  have inv: "cacheB (havedisk1 s) (bufs s, disk s)" and r: "io_ready [] i s"
    using assms(1) by (simp_all add: cache_ok_def)
  have b: "busy (bufs s b)" using assms(2) by (simp add: holds_def holdsB_def split: if_splits)
  note c = cache_release [OF inv assms(2) [unfolded holds_def] assms(3) [unfolded synced_def] refl]
  have tab: "tab_rel (Some i) (ptable s) (ptable ?t)"
    using r by (simp add: io_ready_def tab_rel_wake)
  have same: "io_same s ?t" by (simp add: io_same_def)
  have "ide_inv [] ?t" using r by (simp add: io_ready_def ide_inv_def)
  then have "io_ready [] i ?t" using io_ready_frame [OF r same _ tab] by blast
  then show ?thesis
    using c same tab
    by (intro runsI [of "brelse b" s, OF brelse_eq [OF b io_ready_locks [OF r]]])
      (simp add: cache_defs io_frame_def)
qed

section \<open>The contract of the cache\<close>

text \<open>A change of a sector that depends on its 512 bytes only.\<close>

definition local :: "(bytes \<Rightarrow> bytes) \<Rightarrow> bool" where
  "local f \<longleftrightarrow> (\<forall>d. sect (f d) = sect (f (sect d)))"

lemma localI:
  assumes "\<And>d e i. i < 512 \<Longrightarrow> (\<And>j. j < 512 \<Longrightarrow> d j = e j) \<Longrightarrow> f d i = f e i"
  shows "local f"
  unfolding local_def sect_eq_iff
proof (intro allI impI)
  fix d and i :: nat
  assume "i < 512"
  then show "f d i = f (sect d) i" by (rule assms) (simp add: sect_at)
qed

lemma local_id [intro]: "local (\<lambda>d. d)"
  by (rule localI) simp

lemma local_comp [intro]: "local f \<Longrightarrow> local g \<Longrightarrow> local (\<lambda>d. f (g d))"
  unfolding local_def by metis

lemma local_wr32 [intro]: "local (\<lambda>d. wr32 d a v)"
  by (rule localI) (simp add: wr32_def)

lemma local_wr16 [intro]: "local (\<lambda>d. wr16 d a v)"
  by (rule localI) (simp add: wr16_def)

lemma local_memset [intro]: "local (\<lambda>d. memset d a c n)"
  by (rule localI) (simp add: memset_at)

lemma local_memmove_obj [intro]: "local (\<lambda>d. memmove_obj d a src s n)"
  by (rule localI) (simp add: memmove_obj_at)

lemma local_upd [intro]:
  assumes "\<And>d e. (\<And>j. j < 512 \<Longrightarrow> d j = e j) \<Longrightarrow> g d = g e"
  shows "local (\<lambda>d. d(a := g d))"
proof (rule localI)
  fix d e :: bytes and i :: nat
  assume *: "i < 512" "\<And>j. j < 512 \<Longrightarrow> d j = e j"
  have "g d = g e" by (rule assms) (rule *(2))
  then show "(d(a := g d)) i = (e(a := g e)) i" using *(2) [OF *(1)] by simp
qed

lemma rd32_sect: "a + 4 \<le> 512 \<Longrightarrow> rd32 (sect d) a = rd32 d a"
  by (rule rd32_cong) (simp add: sect_at)

lemma rd16_sect: "a + 2 \<le> 512 \<Longrightarrow> rd16 (sect d) a = rd16 d a"
  by (rule rd16_cong) (simp add: sect_at)

text \<open>
  What the file system relies on. \<open>view\<close> is the contents of all sectors, \<open>hold\<close> the buffers
  in use with the sector each is for, \<open>sync\<close> the buffers that agree with the disk. A buffer
  is obtained for a sector nobody holds, its data is the sector's, a change of the data
  changes the sector, and it may be given back once written.
\<close>

locale block_cache =
  fixes rd :: "uint \<Rightarrow> uint \<Rightarrow> ('s, nat) K"
    and wr rel :: "nat \<Rightarrow> ('s, unit) K"
    and data :: "nat \<Rightarrow> 's \<Rightarrow> bytes"
    and upd :: "nat \<Rightarrow> (bytes \<Rightarrow> bytes) \<Rightarrow> ('s, unit) K"
    and ok :: "'s \<Rightarrow> bool"
    and view :: "'s \<Rightarrow> uint \<times> uint \<Rightarrow> bytes"
    and hold :: "'s \<Rightarrow> nat \<Rightarrow> (uint \<times> uint) option"
    and sync :: "'s \<Rightarrow> nat \<Rightarrow> bool"
    and addr_ok :: "'s \<Rightarrow> uint \<Rightarrow> uint \<Rightarrow> bool"
    and frame :: "'s \<Rightarrow> 's \<Rightarrow> bool"
    and size :: nat
  assumes rd_law: "ok s \<Longrightarrow> addr_ok s dev sec \<Longrightarrow> (dev, sec) \<notin> ran (hold s) \<Longrightarrow> card (dom (hold s)) < size \<Longrightarrow>
      runs (rd dev sec) s (\<lambda>b t. ok t \<and> frame s t \<and> view t = view s \<and> hold t = (hold s)(b \<mapsto> (dev, sec))
        \<and> hold s b = None \<and> sync t b \<and> (\<forall>c. c \<noteq> b \<longrightarrow> sync t c = sync s c))"
    and data_law: "ok s \<Longrightarrow> hold s b = Some a \<Longrightarrow> sect (data b s) = view s a"
    and upd_law: "ok s \<Longrightarrow> hold s b = Some a \<Longrightarrow>
      runs (upd b f) s (\<lambda>_ t. ok t \<and> frame s t \<and> view t = (view s)(a := sect (f (data b s)))
        \<and> hold t = hold s \<and> (\<forall>c. c \<noteq> b \<longrightarrow> sync t c = sync s c))"
    and wr_law: "ok s \<Longrightarrow> hold s b = Some a \<Longrightarrow>
      runs (wr b) s (\<lambda>_ t. ok t \<and> frame s t \<and> view t = view s \<and> hold t = hold s \<and> sync t b
        \<and> (\<forall>c. hold s c \<noteq> None \<and> c \<noteq> b \<longrightarrow> sync t c = sync s c))"
    and rel_law: "ok s \<Longrightarrow> hold s b = Some a \<Longrightarrow> sync s b \<Longrightarrow>
      runs (rel b) s (\<lambda>_ t. ok t \<and> frame s t \<and> view t = view s \<and> hold t = (hold s)(b := None)
        \<and> sync t = sync s)"
    and frame_refl: "frame s s"
    and frame_trans: "frame s t \<Longrightarrow> frame t u \<Longrightarrow> frame s u"
    and frame_addr: "frame s t \<Longrightarrow> addr_ok t = addr_ok s"
begin

lemma upd_local:
  assumes "ok s" "hold s b = Some a" "local f"
  shows "runs (upd b f) s (\<lambda>_ t. ok t \<and> frame s t \<and> view t = (view s)(a := sect (f (view s a)))
    \<and> hold t = hold s \<and> (\<forall>c. c \<noteq> b \<longrightarrow> sync t c = sync s c))"
proof -
  have "sect (f (data b s)) = sect (f (view s a))"
    using assms(3) data_law [OF assms(1,2)] by (metis local_def)
  then show ?thesis using upd_law [OF assms(1,2), of f] by simp
qed

text \<open>Read a sector and give the buffer back.\<close>

lemma read_block:
  assumes "ok s" "addr_ok s dev sec" "(dev, sec) \<notin> ran (hold s)" "card (dom (hold s)) < size"
    and Q: "\<And>d t. sect d = view s (dev, sec) \<Longrightarrow> ok t \<Longrightarrow> frame s t \<Longrightarrow> view t = view s \<Longrightarrow> hold t = hold s \<Longrightarrow>
      (\<forall>c. hold s c \<noteq> None \<longrightarrow> sync t c = sync s c) \<Longrightarrow> Q (g d) t"
  shows "runs (kbind (rd dev sec) (\<lambda>b. kbind (kget (\<lambda>s. g (data b s))) (\<lambda>x. kseq (rel b) (kret x)))) s Q"
proof (rule runs_kbind, rule runs_mono [OF rd_law [OF assms(1-4)]], elim conjE)
  fix b t
  assume t: "ok t" "frame s t" "view t = view s" "hold t = (hold s)(b \<mapsto> (dev, sec))" "hold s b = None"
    "sync t b" "\<forall>c. c \<noteq> b \<longrightarrow> sync t c = sync s c"
  have h: "hold t b = Some (dev, sec)" using t(4) by simp
  show "runs (kbind (kget (\<lambda>s. g (data b s))) (\<lambda>x. kseq (rel b) (kret x))) t Q"
  proof (intro runs_kbind runs_kget runs_kseq, rule runs_mono [OF rel_law [OF t(1) h t(6)]],
      elim conjE, rule runs_kret)
    fix u v
    assume u: "ok v" "frame t v" "view v = view t" "hold v = (hold t)(b := None)" "sync v = sync t"
    have "hold v = hold s" using u(4) t(4,5) by auto
    moreover have "sync v c = sync s c" if "hold s c \<noteq> None" for c
    proof -
      have "c \<noteq> b" using that t(5) by auto
      then show ?thesis using u(5) t(7) by simp
    qed
    ultimately show "Q (g (data b t)) v"
      using u(1,3) t(3) data_law [OF t(1) h] frame_trans [OF t(2) u(2)] by (intro Q) simp_all
  qed
qed

text \<open>Read a sector, change it, write it and give the buffer back.\<close>

lemma update_block:
  assumes "ok s" "addr_ok s dev sec" "(dev, sec) \<notin> ran (hold s)" "card (dom (hold s)) < size" "local f"
    and Q: "\<And>t. ok t \<Longrightarrow> frame s t \<Longrightarrow> view t = (view s)((dev, sec) := sect (f (view s (dev, sec)))) \<Longrightarrow>
      hold t = hold s \<Longrightarrow> (\<forall>c. hold s c \<noteq> None \<longrightarrow> sync t c = sync s c) \<Longrightarrow> Q () t"
  shows "runs (kbind (rd dev sec) (\<lambda>b. kseq (upd b f) (kseq (wr b) (rel b)))) s Q"
proof (rule runs_kbind, rule runs_mono [OF rd_law [OF assms(1-4)]], elim conjE)
  fix b t
  assume t: "ok t" "frame s t" "view t = view s" "hold t = (hold s)(b \<mapsto> (dev, sec))" "hold s b = None"
    "sync t b" "\<forall>c. c \<noteq> b \<longrightarrow> sync t c = sync s c"
  have h: "hold t b = Some (dev, sec)" using t(4) by simp
  show "runs (kseq (upd b f) (kseq (wr b) (rel b))) t Q"
  proof (rule runs_kseq, rule runs_mono [OF upd_local [OF t(1) h assms(5)]], elim conjE)
    fix u v
    assume u: "ok v" "frame t v" "view v = (view t)((dev, sec) := sect (f (view t (dev, sec))))"
      "hold v = hold t" "\<forall>c. c \<noteq> b \<longrightarrow> sync v c = sync t c"
    have h': "hold v b = Some (dev, sec)" using u(4) h by simp
    show "runs (kseq (wr b) (rel b)) v Q"
    proof (rule runs_kseq, rule runs_mono [OF wr_law [OF u(1) h']], elim conjE)
      fix u' w
      assume w: "ok w" "frame v w" "view w = view v" "hold w = hold v" "sync w b"
        "\<forall>c. hold v c \<noteq> None \<and> c \<noteq> b \<longrightarrow> sync w c = sync v c"
      have h'': "hold w b = Some (dev, sec)" using w(4) h' by simp
      show "runs (rel b) w Q"
      proof (rule runs_mono [OF rel_law [OF w(1) h'' w(5)]], elim conjE)
        fix a z
        assume z: "ok z" "frame w z" "view z = view w" "hold z = (hold w)(b := None)" "sync z = sync w"
        have "frame s z" using t(2) u(2) w(2) z(2) frame_trans by blast
        moreover have "hold z = hold s" using z(4) w(4) u(4) t(4,5) by auto
        moreover have "sync z c = sync s c" if "hold s c \<noteq> None" for c
        proof -
          have c: "c \<noteq> b" using that t(5) by auto
          then have "hold v c \<noteq> None" using that u(4) t(4) by simp
          then show ?thesis using c z(5) w(6) u(5) t(7) by simp
        qed
        ultimately show "Q a z" using z(1,3) w(3) u(3) t(3) Q by simp
      qed
    qed
  qed
qed

end

lemma io_frame_addr: "io_frame i s t \<Longrightarrow> canon (havedisk1 t) = canon (havedisk1 s)"
  by (simp add: io_frame_def io_same_def)

lemma holds_dom: "dom (holds s) \<subseteq> {..<NBUF}"
  by (auto simp: holds_def holdsB_def split: if_splits)

interpretation bc: block_cache bread bwrite brelse "\<lambda>b s. b_data (bufs s b)" upd_data "cache_ok i" bview
    holds synced "\<lambda>s. canon (havedisk1 s)" "io_frame i" NBUF for i
proof unfold_locales
  fix s :: "'a kide_scheme" and dev sec
  assume *: "cache_ok i s" "canon (havedisk1 s) dev sec" "(dev, sec) \<notin> ran (holds s)"
    and "card (dom (holds s)) < NBUF"
  then have "dom (holds s) \<noteq> {..<NBUF}" by auto
  then obtain b where "b < NBUF" "holds s b = None" using holds_dom [of s] by blast
  then show "runs (bread dev sec) s (\<lambda>b t. cache_ok i t \<and> io_frame i s t \<and> bview t = bview s
      \<and> holds t = (holds s)(b \<mapsto> (dev, sec)) \<and> holds s b = None \<and> synced t b
      \<and> (\<forall>c. c \<noteq> b \<longrightarrow> synced t c = synced s c))"
    using bread_law [OF *] by (simp add: got_def)
qed (rule get_data_law upd_data_law bwrite_law brelse_law io_frame_refl io_frame_addr io_frame_trans;
    assumption)+

section \<open>Initialisation\<close>

definition binit_step :: "nat \<Rightarrow> (nat \<Rightarrow> buf) \<Rightarrow> nat \<Rightarrow> buf" where
  "binit_step b B = push b (B(b := (B b)\<lparr>b_dev := - 1\<rparr>))"

lemma push_other [simp]:
  "b_flags (push b B c) = b_flags (B c)" "b_dev (push b B c) = b_dev (B c)"
  "b_sector (push b B c) = b_sector (B c)"
  by (simp_all add: push_def)

lemma push_links:
  "(\<lambda>c. b_next (push b B c)) = (let n = (\<lambda>c. b_next (B c)) in n(b := n NBUF, NBUF := b))"
  "(\<lambda>c. b_prev (push b B c)) = (\<lambda>c. b_prev (B c))(b := NBUF, b_next (B NBUF) := b)"
  by (simp_all add: push_def Let_def)

definition half_list :: "nat \<Rightarrow> (nat \<Rightarrow> buf) \<Rightarrow> bool" where
  "half_list k B \<longleftrightarrow> lpath (\<lambda>b. b_next (B b)) NBUF (rev [0..<k]) NBUF
     \<and> lpath (\<lambda>b. b_prev (B b)) NBUF [0..<k] NBUF"

lemma binit_half:
  assumes "half_list k B" "k < NBUF"
  shows "half_list (Suc k) (binit_step k B)"
proof -
  let ?n = "\<lambda>b. b_next (B b)" and ?p = "\<lambda>b. b_prev (B b)"
  have n: "lpath ?n NBUF (rev [0..<k]) NBUF" and p: "lpath ?p NBUF [0..<k] NBUF"
    using assms(1) by (simp_all add: half_list_def)
  have e: "(\<lambda>c. b_next ((B(k := (B k)\<lparr>b_dev := - 1\<rparr>)) c)) = ?n"
    "(\<lambda>c. b_prev ((B(k := (B k)\<lparr>b_dev := - 1\<rparr>)) c)) = ?p" by auto
  have h: "?n NBUF = last (NBUF # [0..<k])"
    using path_hd [OF n] hd_last_rev [of "rev [0..<k]" NBUF] by simp
  have "lpath (?n(k := ?n NBUF, NBUF := k)) NBUF (k # rev [0..<k]) NBUF"
    using assms(2) by (intro path_push [OF n]) auto
  moreover have "lpath (?p(k := NBUF, ?n NBUF := k)) NBUF ([0..<k] @ [k]) NBUF"
    unfolding h using assms(2) by (intro path_push_back [OF p]) auto
  ultimately show ?thesis
    using assms(2) unfolding half_list_def binit_step_def push_links Let_def e by simp
qed

lemma binit_link_eq:
  assumes "b < NBUF"
  shows "binit_link b t = Done () (t\<lparr>bufs := binit_step b (bufs t)\<rparr>)"
proof -
  have "(set_prev b NBUF (set_next b h B))(b := (set_prev b NBUF (set_next b h B) b)\<lparr>b_dev := - 1\<rparr>)
      = set_prev b NBUF (set_next b h (B(b := (B b)\<lparr>b_dev := - 1\<rparr>)))" for h and B :: "nat \<Rightarrow> buf"
    by (auto simp: set_prev_def set_next_def fun_eq_iff)
  then show ?thesis
    using assms
    by (simp add: binit_link_def kdefs upd_links upd_buf_def [of b "\<lambda>p. p\<lparr>b_dev := v\<rparr>" for v]
        binit_step_def push_def)
qed

lemma binit_step_other:
  "b_flags (binit_step b B c) = b_flags (B c)"
  "b_dev (binit_step b B c) = (if c = b then - 1 else b_dev (B c))"
  by (simp_all add: binit_step_def)

lemma binit_runs:
  fixes s :: "'a kide_scheme"
  assumes "L_bcache \<notin> set (held s)"
  shows "runs binit s (\<lambda>_ t. dll (bufs t) (rev [0..<NBUF]) \<and> io_frame i s t \<and> disk t = disk s
    \<and> idequeue t = idequeue s
    \<and> (\<forall>b<NBUF. b_dev (bufs t b) = - 1 \<and> b_flags (bufs t b) = b_flags (bufs s b)))"
proof -
  define I where "I k t \<longleftrightarrow> half_list k (bufs t) \<and> io_frame i s t \<and> disk t = disk s
      \<and> idequeue t = idequeue s \<and> (\<forall>b<k. b_dev (bufs t b) = - 1)
      \<and> (\<forall>b<NBUF. b_flags (bufs t b) = b_flags (bufs s b))" for k and t :: "'a kide_scheme"
  let ?t = "s\<lparr>bufs := set_next NBUF NBUF (set_prev NBUF NBUF (bufs s))\<rparr>"
  have "runs (kforeach [0..<NBUF] binit_link) ?t (\<lambda>_. I NBUF)"
  proof (rule runs_kforeach [where I = I])
    show "I 0 ?t"
      by (simp add: I_def half_list_def io_frame_bufs)
  next
    fix k and t :: "'a kide_scheme"
    assume k: "k < length [0..<NBUF]" "I k t"
    then have "half_list (Suc k) (binit_step k (bufs t))" by (simp add: I_def binit_half)
    moreover have "io_frame i s (t\<lparr>bufs := B\<rparr>)" for B
      by (rule io_frame_trans [OF _ io_frame_bufs]) (use k(2) in \<open>simp add: I_def\<close>)
    ultimately show "runs (binit_link ([0..<NBUF] ! k)) t (\<lambda>_. I (Suc k))"
      using k by (simp add: runs_def binit_link_eq I_def binit_step_other)
  qed simp
  then have "runs (kforeach [0..<NBUF] binit_link) ?t (\<lambda>_ t. dll (bufs t) (rev [0..<NBUF])
    \<and> io_frame i s t \<and> disk t = disk s \<and> idequeue t = idequeue s
    \<and> (\<forall>b<NBUF. b_dev (bufs t b) = - 1 \<and> b_flags (bufs t b) = b_flags (bufs s b)))"
    by (rule runs_mono) (simp add: I_def half_list_def dll_def lessThan_atLeast0 del: upt_rec_numeral)
  then show ?thesis
    unfolding binit_def
    by (intro runs_kseq runs_lock_init [OF assms]) (simp add: runs_def upd_links kdefs)
qed

lemma binit_cache:
  fixes s :: "'a kide_scheme"
  assumes "io_ready [] i s" "\<forall>b<NBUF. b_flags (bufs s b) = 0"
  shows "runs binit s (\<lambda>_ t. cache_ok i t \<and> holds t = Map.empty \<and> dll (bufs t) (rev [0..<NBUF])
    \<and> io_frame i s t \<and> (\<forall>dev sec. bview t (dev, sec) = sect (disk s dev sec)))"
proof -
  have "L_bcache \<notin> set (held s)" using assms(1) by (simp add: io_ready_def)
  then show ?thesis
  proof (rule runs_mono [OF binit_runs [of s i]], elim conjE)
    fix u and t :: "'a kide_scheme"
    assume t: "dll (bufs t) (rev [0..<NBUF])" "io_frame i s t" "disk t = disk s" "idequeue t = idequeue s"
      "\<forall>b<NBUF. b_dev (bufs t b) = - 1 \<and> b_flags (bufs t b) = b_flags (bufs s b)"
    have f: "\<not> bit (b_flags (bufs t b)) n" if "b < NBUF" for b n using t(5) assms(2) that by simp
    have "io_ready [] i t"
      using assms(1) t(2,4) by (intro io_ready_frame [OF assms(1)])
        (simp_all add: io_frame_def io_ready_def ide_inv_def)
    moreover have "cacheB (havedisk1 t) (bufs t, disk t)"
      using t(1,5) f by (auto simp: cacheB_def buf_ok_def uniqB_def)
    moreover have "slot (bufs t) a = None" for a unfolding slot_None using f by simp
    moreover have "holdsB (bufs t) = Map.empty" using f by (auto simp: holdsB_def)
    ultimately show "cache_ok i t \<and> holds t = Map.empty \<and> dll (bufs t) (rev [0..<NBUF])
      \<and> io_frame i s t \<and> (\<forall>dev sec. bview t (dev, sec) = sect (disk s dev sec))"
      using t(1-3) by (simp add: cache_defs viewB_def del: upt_rec_numeral)
  qed
qed

lemma ide_boot_ready: "io_ready [] 0 ide_boot" "\<forall>b<NBUF. b_flags (bufs ide_boot b) = 0"
  by (simp_all add: ide_boot_def io_ready_def ide_inv_def zero_proc_def)

lemma cache_boot:
  "\<exists>t :: kide. cache_ok 0 t \<and> holds t = Map.empty \<and> havedisk1 t \<and> (\<forall>a. bview t a = (\<lambda>_. 0))"
proof -
  obtain t where t: "cache_ok 0 t" "holds t = Map.empty" "io_frame 0 ide_boot t"
      "\<forall>dev sec. bview t (dev, sec) = sect (disk ide_boot dev sec)"
    using binit_cache [OF ide_boot_ready] by (auto simp: runs_def)
  have "havedisk1 t" using t(3) by (simp add: io_frame_def io_same_def ide_boot_def)
  moreover have "bview t a = (\<lambda>_. 0)" for a
    using t(4) by (cases a) (simp add: ide_boot_def sect_def blk_def fun_eq_iff)
  ultimately show ?thesis using t(1,2) by blast
qed

lemma write_through:
  assumes "cache_ok i s" "holds s = Map.empty"
  shows "bview s (dev, sec) = sect (disk s dev sec)"
proof (cases "slot (bufs s) (dev, sec)")
  case (Some b)
  then have b: "b < NBUF" "valid (bufs s b)" "b_dev (bufs s b) = dev" "b_sector (bufs s b) = sec"
    using slot_SomeD by force+
  have "\<not> busy (bufs s b)"
    using fun_cong [OF assms(2), of b] b(1) by (auto simp: holds_def holdsB_def split: if_splits)
  then show ?thesis
    using assms(1) cacheB_buf [of "havedisk1 s" "bufs s" "disk s" b] b Some
    by (simp add: cache_ok_def buf_ok_def bview_def viewB_def)
qed (simp add: bview_def viewB_def)

section \<open>Correctness of the cache\<close>

text \<open>
  C13: started on zeroed buffers, \<open>binit\<close> links all of them into one list in both directions,
  in which every buffer occurs once, and establishes the invariant of the cache with no
  buffer in use and every sector seen as it is on the disk.
\<close>

theorem binit_establishes:
  assumes "io_ready [] i s" "\<forall>b<NBUF. b_flags (bufs s b) = 0"
  shows "runs binit s (\<lambda>_ t. cache_ok i t \<and> holds t = Map.empty \<and> dll (bufs t) (rev [0..<NBUF])
    \<and> (\<forall>dev sec. bview t (dev, sec) = sect (disk s dev sec)))"
  by (rule runs_mono [OF binit_cache [OF assms]]) blast

theorem binit_establishes_witness:
  "runs binit ide_boot (\<lambda>_ t. cache_ok 0 t \<and> holds t = Map.empty \<and> dll (bufs t) (rev [0..<NBUF])
    \<and> (\<forall>dev sec. bview t (dev, sec) = sect (disk ide_boot dev sec)))"
  by (rule binit_establishes [OF ide_boot_ready])

text \<open>
  C12: a sector written through the cache is what is read afterwards: changing a sector with
  \<open>bread\<close>, \<open>bwrite\<close>, \<open>brelse\<close> and then reading any sector gives the changed contents for
  that sector and the old contents for every other, whatever buffers are recycled; and the
  disk itself then holds what was read.
\<close>

theorem bcache_read_after_write:
  fixes s :: "'a kide_scheme"
  assumes "cache_ok i s" "holds s = Map.empty" "canon (havedisk1 s) dev sec"
    and "canon (havedisk1 s) dev' sec'" "local f"
  shows "runs (kseq (kbind (bread dev sec) (\<lambda>b. kseq (upd_data b f) (kseq (bwrite b) (brelse b))))
      (kbind (bread dev' sec') (\<lambda>b. kbind (kget (\<lambda>s. sect (b_data (bufs s b)))) (\<lambda>d. kseq (brelse b) (kret d))))) s
    (\<lambda>d t. d = (if (dev', sec') = (dev, sec) then sect (f (bview s (dev, sec))) else bview s (dev', sec'))
      \<and> cache_ok i t \<and> holds t = Map.empty \<and> sect (disk t dev' sec') = d)"
proof (rule runs_kseq, rule bc.update_block [OF assms(1,3) _ _ assms(5)])
  fix t :: "'a kide_scheme"
  assume t: "cache_ok i t" "io_frame i s t" "holds t = holds s"
    "bview t = (bview s)((dev, sec) := sect (f (bview s (dev, sec))))"
  have "canon (havedisk1 t) dev' sec'" using assms(4) io_frame_addr [OF t(2)] by simp
  then show "runs (kbind (bread dev' sec') (\<lambda>b. kbind (kget (\<lambda>s. sect (b_data (bufs s b))))
      (\<lambda>d. kseq (brelse b) (kret d)))) t
    (\<lambda>d t. d = (if (dev', sec') = (dev, sec) then sect (f (bview s (dev, sec))) else bview s (dev', sec'))
      \<and> cache_ok i t \<and> holds t = Map.empty \<and> sect (disk t dev' sec') = d)"
    using t assms(2)
    by (intro bc.read_block [OF t(1)]) (auto simp: write_through [symmetric] fun_upd_apply)
qed (simp_all add: assms(2))

theorem bcache_read_after_write_witness:
  "\<exists>s :: kide. cache_ok 0 s \<and> runs
     (kseq (kbind (bread 1 9) (\<lambda>b. kseq (upd_data b (\<lambda>d. wr32 d 8 77)) (kseq (bwrite b) (brelse b))))
      (kbind (bread 1 9) (\<lambda>b. kbind (kget (\<lambda>s. sect (b_data (bufs s b)))) (\<lambda>d. kseq (brelse b) (kret d))))) s
     (\<lambda>d t. d 8 = 77)"
proof -
  obtain s :: kide where s: "cache_ok 0 s" "holds s = Map.empty" "havedisk1 s"
    using cache_boot by blast
  have "canon (havedisk1 s) 1 9" using s(3) by (simp add: canon_def)
  from bcache_read_after_write [OF s(1,2) this this local_wr32, of 8 77] s(1) show ?thesis
    by (intro exI [of _ s] conjI) (auto elim!: runs_mono simp: sect_at wr32_def)
qed

text \<open>
  C14: what \<open>bget\<close> does in each case. A buffer for the sector is taken if it is free, and
  waited for if it is in use; otherwise the least recently used free buffer is recycled for
  the sector; and when every buffer is in use the kernel panics.
\<close>

theorem bget_cases:
  fixes s :: "'a kide_scheme"
  assumes "dll (bufs s) xs" "held s = []" "cur s = Some i"
  shows "bget dev sec s = (case find (\<lambda>b. b_dev (bufs s b) = dev \<and> b_sector (bufs s b) = sec) xs of
      Some b \<Rightarrow>
        if b_flags (bufs s b) AND B_BUSY = 0
        then Done b (s\<lparr>bufs := (bufs s)(b := (bufs s b)\<lparr>b_flags := b_flags (bufs s b) OR B_BUSY\<rparr>)\<rparr>)
        else Sleep (ChBuf b) (s\<lparr>held := [L_ptable],
          ptable := (ptable s)(i := (ptable s i)\<lparr>p_chan := Some (ChBuf b), p_state := SLEEPING\<rparr>)\<rparr>)
    | None \<Rightarrow> (case find (\<lambda>b. b_flags (bufs s b) AND B_BUSY = 0) (rev xs) of
          Some b \<Rightarrow> Done b (s\<lparr>bufs := (bufs s)(b := (bufs s b)
            \<lparr>b_dev := dev, b_sector := sec, b_flags := B_BUSY\<rparr>)\<rparr>)
        | None \<Rightarrow> Panic ''bget: no buffers''))"
proof -
  have "sleep (ChBuf b) L_bcache (s\<lparr>held := [L_bcache]\<rparr>) = (Sleep (ChBuf b) (s\<lparr>held := [L_ptable],
      ptable := (ptable s)(i := (ptable s i)\<lparr>p_chan := Some (ChBuf b), p_state := SLEEPING\<rparr>)\<rparr>)
      :: (nat, 'a kide_scheme) outcome)" for b
    using assms(3) by (subst sleep_eq [of _ i]) simp_all
  then show ?thesis
    using assms(1,2)
    by (simp add: bget_def bget_loop_def kdefs acquire_def release_def bget_scans upd_buf_def
        split: option.splits)
qed

theorem bget_cases_witness:
  "\<exists>s t :: kide. dll (bufs s) (rev [0..<NBUF]) \<and> bget 1 9 s = Done 0 t"
proof -
  obtain s where s: "dll (bufs s) (rev [0..<NBUF])" "io_frame 0 ide_boot s"
      "\<forall>b<NBUF. b_dev (bufs s b) = - 1 \<and> b_flags (bufs s b) = b_flags (bufs ide_boot b)"
    using binit_runs [of ide_boot 0] by (auto simp: runs_def ide_boot_def)
  have l: "held s = []" "cur s = Some 0"
    using s(2) by (simp_all add: io_frame_def io_same_def ide_boot_def)
  have "find (\<lambda>b. b_dev (bufs s b) = 1 \<and> b_sector (bufs s b) = 9) (rev [0..<NBUF]) = None"
    using s(3) by (auto simp: find_None_iff simp del: upt_rec_numeral)
  moreover have "find (\<lambda>b. b_flags (bufs s b) AND B_BUSY = 0) (rev (rev [0..<NBUF])) = Some 0"
    unfolding rev_rev_ident find_upt_Some using s(3) by (simp add: ide_boot_def)
  ultimately show ?thesis
    using bget_cases [OF s(1) l, of 1 9] s(1) by (simp del: upt_rec_numeral rev_rev_ident) blast
qed

end
