(* ===== verification/Console.thy ===== *)
theory Console
  imports Bio
begin

text \<open>
  The console (\<open>kernel/console.c\<close>), the serial port and the keyboard (\<open>kernel/uart.c\<close>,
  \<open>kernel/kbd.c\<close>, \<open>kernel/kbd.h\<close>) and the process listing (\<open>procdump\<close> of \<open>kernel/proc.c\<close>):
  formatting, the screen with its cursor and scrolling, and the line discipline of
  \<open>consoleintr\<close>. The devices are part of the state: the bytes sent on the serial port, the
  screen memory and cursor register, and the bytes that wait in the serial port and in the
  keyboard controller. \<open>consoleread\<close> and \<open>consolewrite\<close> lock inodes; they follow the inodes.
\<close>

abbreviation BACKSPACE :: int where "BACKSPACE \<equiv> 256"
abbreviation INPUT_BUF :: nat where "INPUT_BUF \<equiv> 128"

record kcons = kide +
  panicked :: bool
  cons_locking :: bool
  uart_on :: bool
  uart_out :: "uchar list"
  uart_in :: "uchar list"
  crt :: "nat \<Rightarrow> ushort"
  crt_pos :: ushort
  kbd_in :: "uchar list"
  kbd_shift :: uint
  input_buf :: "nat \<Rightarrow> uchar"
  input_r :: uint
  input_w :: uint
  input_e :: uint

section \<open>Characters out\<close>

definition uartputc :: "int \<Rightarrow> ('a kcons_scheme, unit) K" where
  "uartputc c = kmod (\<lambda>s. if \<not> uart_on s then s else s\<lparr>uart_out := uart_out s @ [of_int c]\<rparr>)"

text \<open>
  \<open>cgaputc\<close> between reading and writing the cursor: the new position and screen. The
  screen memory is a function of the cell number; \<open>memset\<close> takes its length as a \<open>uint\<close>.
\<close>

definition cga_put :: "int \<Rightarrow> nat \<times> (nat \<Rightarrow> ushort) \<Rightarrow> nat \<times> (nat \<Rightarrow> ushort)" where
  "cga_put c = (\<lambda>(pos, m).
     if c = 10 then (pos + (80 - pos mod 80), m)
     else if c = BACKSPACE then (if pos > 0 then pos - 1 else pos, m)
     else (pos + 1, m(pos := (of_int c AND 0xff) OR 0x0700)))"

definition cga_scroll :: "nat \<times> (nat \<Rightarrow> ushort) \<Rightarrow> nat \<times> (nat \<Rightarrow> ushort)" where
  "cga_scroll = (\<lambda>(pos, m).
     if pos div 80 \<ge> 24 then
       let m1 = (\<lambda>k. if k < 23 * 80 then m (k + 80) else m k);
           p = pos - 80;
           n = unat (of_int (2 * (24 * 80 - int p)) :: uint) div 2
       in (p, \<lambda>k. if p \<le> k \<and> k < p + n then 0 else m1 k)
     else (pos, m))"

definition cgaputc :: "int \<Rightarrow> ('a kcons_scheme, unit) K" where
  "cgaputc c = kmod (\<lambda>s.
     let (pos, m) = cga_scroll (cga_put c (unat (crt_pos s), crt s))
     in s\<lparr>crt_pos := of_nat pos, crt := m(pos := 0x20 OR 0x0700)\<rparr>)"

definition consputc :: "int \<Rightarrow> ('a kcons_scheme, unit) K" where
  "consputc c =
     kbind (kget panicked) (\<lambda>p.
       if p then kspin
       else
         kseq (if c = BACKSPACE then kseq (uartputc 8) (kseq (uartputc 32) (uartputc 8))
               else uartputc c) (
         cgaputc c))"

section \<open>Formatting\<close>

text \<open>
  The digits of \<open>printint\<close>, least significant first (the contents of its \<open>buf\<close>), and the
  characters it prints. The loop ends for every base from 2 on; the callers use 10 and 16.
\<close>

function printint_loop :: "string \<Rightarrow> nat \<Rightarrow> nat \<Rightarrow> string" where
  "printint_loop digits x base =
     digits ! (x mod base) # (if base < 2 \<or> x div base = 0 then [] else printint_loop digits (x div base) base)"
  by pat_completeness auto
termination
proof (relation "measure (\<lambda>(digits, x, base). x)")
  fix digits :: string and x base :: nat
  assume "\<not> (base < 2 \<or> x div base = 0)"
  then show "((digits, x div base, base), (digits, x, base)) \<in> measure (\<lambda>(digits, x, base). x)"
    by (simp add: div_eq_0_iff)
qed simp

declare printint_loop.simps [simp del]

definition printint_buf :: "string \<Rightarrow> uint \<Rightarrow> nat \<Rightarrow> bool \<Rightarrow> string" where
  "printint_buf digits xx base sg =
     (if sg \<and> sint xx < 0 then printint_loop digits (unat (- xx)) base @ ''-''
      else printint_loop digits (unat xx) base)"

definition printint_chars :: "uint \<Rightarrow> nat \<Rightarrow> bool \<Rightarrow> string" where
  "printint_chars xx base sg = rev (printint_buf ''0123456789abcdef'' xx base sg)"

text \<open>
  The arguments after the format: words and strings, a null pointer as \<open>None\<close>. The result
  of formatting is \<open>None\<close> when the arguments do not match the format; C leaves that undefined.
\<close>

datatype varg = VInt uint | VStr "string option"

fun cprintf_chars :: "string \<Rightarrow> varg list \<Rightarrow> string option" where
  "cprintf_chars [] args = Some []"
| "cprintf_chars [c] args = (if c = CHR ''%'' then Some [] else Some [c])"
| "cprintf_chars (c # d # fmt) args =
     (if c \<noteq> CHR ''%'' then map_option (\<lambda>r. c # r) (cprintf_chars (d # fmt) args)
      else if d = CHR ''d'' then
        (case args of VInt x # as \<Rightarrow> map_option (\<lambda>r. printint_chars x 10 True @ r) (cprintf_chars fmt as)
         | _ \<Rightarrow> None)
      else if d = CHR ''x'' \<or> d = CHR ''p'' then
        (case args of VInt x # as \<Rightarrow> map_option (\<lambda>r. printint_chars x 16 False @ r) (cprintf_chars fmt as)
         | _ \<Rightarrow> None)
      else if d = CHR ''s'' then
        (case args of VStr t # as \<Rightarrow>
           map_option (\<lambda>r. (case t of None \<Rightarrow> ''(null)'' | Some u \<Rightarrow> u) @ r) (cprintf_chars fmt as)
         | _ \<Rightarrow> None)
      else if d = CHR ''%'' then map_option (\<lambda>r. CHR ''%'' # r) (cprintf_chars fmt args)
      else map_option (\<lambda>r. CHR ''%'' # d # r) (cprintf_chars fmt args))"

definition conswrite :: "string \<Rightarrow> ('a kcons_scheme, unit) K" where
  "conswrite cs = kforeach cs (\<lambda>c. consputc (of_char c))"

definition cprintf :: "string \<Rightarrow> varg list \<Rightarrow> ('a kcons_scheme, unit) K" where
  "cprintf fmt args =
     kbind (kget cons_locking) (\<lambda>locking.
     kseq (kwhen locking (acquire L_cons)) (
     kseq (case cprintf_chars fmt args of None \<Rightarrow> kpanic ''cprintf arguments'' | Some cs \<Rightarrow> conswrite cs) (
     kwhen locking (release L_cons))))"

abbreviation NL :: string where "NL \<equiv> [CHR 0x0A]"

text \<open>
  What \<open>panic\<close> prints before it stops the machine: \<open>stack\<close> is the call stack \<open>getcallerpcs\<close>
  records, \<open>cpuid\<close> the CPU. It takes no lock and freezes the console for the other CPUs.
\<close>

definition panic_print :: "uint \<Rightarrow> uint list \<Rightarrow> string \<Rightarrow> ('a kcons_scheme, unit) K" where
  "panic_print cpuid stack msg =
     kseq (kmod (\<lambda>s. s\<lparr>cons_locking := False\<rparr>)) (
     kseq (cprintf ''cpu%d: panic: '' [VInt cpuid]) (
     kseq (cprintf msg []) (
     kseq (cprintf NL []) (
     kseq (kforeach stack (\<lambda>pc. cprintf '' %p'' [VInt pc])) (
     kmod (\<lambda>s. s\<lparr>panicked := True\<rparr>))))))"

section \<open>The process listing\<close>

text \<open>\<open>getcallerpcs\<close> follows the chain of saved frame pointers in memory.\<close>

fun getcallerpcs_loop :: "bytes \<Rightarrow> uint \<Rightarrow> nat \<Rightarrow> uint list" where
  "getcallerpcs_loop m ebp 0 = []"
| "getcallerpcs_loop m ebp (Suc k) =
     (if ebp = 0 \<or> ebp < 0x100000 \<or> ebp = 0xffffffff then replicate (Suc k) 0
      else rd32 m (unat (ebp + 4)) # getcallerpcs_loop m (rd32 m (unat ebp)) k)"

definition getcallerpcs :: "bytes \<Rightarrow> uint \<Rightarrow> uint list" where
  "getcallerpcs m v = getcallerpcs_loop m (v - 8) 10"

definition state_name :: "procstate \<Rightarrow> string" where
  "state_name st = (case st of UNUSED \<Rightarrow> ''unused'' | EMBRYO \<Rightarrow> ''embryo'' | SLEEPING \<Rightarrow> ''sleep ''
     | RUNNABLE \<Rightarrow> ''runble'' | RUNNING \<Rightarrow> ''run   '' | ZOMBIE \<Rightarrow> ''zombie'')"

text \<open>The characters of a NUL-terminated array of \<open>n\<close> bytes.\<close>

definition str_at :: "bytes \<Rightarrow> nat \<Rightarrow> string" where
  "str_at m n = map (\<lambda>b. char_of (unat b)) (takeWhile (\<lambda>b. b \<noteq> 0) (map m [0..<n]))"

definition procdump :: "('a kcons_scheme, unit) K" where
  "procdump = kforeach [0..<NPROC] (\<lambda>i.
     kbind (kget (\<lambda>s. ptable s i)) (\<lambda>p.
     kwhen (p_state p \<noteq> UNUSED) (
       kseq (cprintf ''%d %s %s''
         [VInt (of_int (p_pid p)), VStr (Some (state_name (p_state p))), VStr (Some (str_at (p_name p) 16))]) (
       kseq (kwhen (p_state p = SLEEPING) (
         kbind (kget phys) (\<lambda>m.
         kforeach (takeWhile (\<lambda>pc. pc \<noteq> 0)
             (getcallerpcs m (rd32 m (unat (p_context p + 12)) + 8))) (\<lambda>pc.
           cprintf '' %p'' [VInt pc])))) (
       cprintf NL [])))))"

section \<open>Characters in\<close>

definition in_at :: "uint \<Rightarrow> nat" where
  "in_at k = unat k mod INPUT_BUF"

text \<open>Control-U erases the edited line, up to the last newline.\<close>

function kill_line :: "(nat \<Rightarrow> uchar) \<Rightarrow> uint \<Rightarrow> uint \<Rightarrow> nat" where
  "kill_line buf w e =
     (if e \<noteq> w \<and> buf (in_at (e - 1)) \<noteq> 10 then Suc (kill_line buf w (e - 1)) else 0)"
  by pat_completeness auto
termination
proof (relation "measure (\<lambda>(buf, w, e). unat (e - w))")
  fix buf :: "nat \<Rightarrow> uchar" and w e :: uint
  assume "e \<noteq> w \<and> buf (in_at (e - 1)) \<noteq> 10"
  then have "e - w \<noteq> 0" by simp
  then have "unat (e - w - 1) < unat (e - w)" by (simp add: unat_minus_one unat_gt_0)
  moreover have "e - w - 1 = e - 1 - w" by simp
  ultimately show "((buf, w, e - 1), (buf, w, e)) \<in> measure (\<lambda>(buf, w, e). unat (e - w))"
    by simp
qed simp

declare kill_line.simps [simp del]

definition erase :: "('a kcons_scheme, unit) K" where
  "erase = kseq (kmod (\<lambda>s. s\<lparr>input_e := input_e s - 1\<rparr>)) (consputc BACKSPACE)"

definition consoleintr_char :: "int \<Rightarrow> ('a kcons_scheme, unit) K" where
  "consoleintr_char c =
     (if c = 0x10 then procdump
      else if c = 0x15 then
        kbind (kget (\<lambda>s. kill_line (input_buf s) (input_w s) (input_e s))) (\<lambda>k.
        kforeach [0..<k] (\<lambda>_. erase))
      else if c = 0x08 \<or> c = 0x7f then
        kbind (kget (\<lambda>s. input_e s \<noteq> input_w s)) (\<lambda>b. kwhen b erase)
      else
        kbind (kget (\<lambda>s. unat (input_e s - input_r s) < INPUT_BUF)) (\<lambda>room.
        kwhen (c \<noteq> 0 \<and> room) (
          let c' = (if c = 0x0d then 0x0a else c)
          in kseq (kmod (\<lambda>s. s\<lparr>input_buf := (input_buf s)(in_at (input_e s) := of_int c'),
               input_e := input_e s + 1\<rparr>)) (
             kseq (consputc c') (
             kbind (kget (\<lambda>s. input_e s = input_r s + of_nat INPUT_BUF)) (\<lambda>full.
             kwhen (c' = 0x0a \<or> c' = 0x04 \<or> full) (
               kseq (kmod (\<lambda>s. s\<lparr>input_w := input_e s\<rparr>)) (
               wakeup ChInput))))))))"

text \<open>
  \<open>consoleintr\<close> calls \<open>getc\<close> until it returns a negative number. The loop is bounded by
  \<open>fuel\<close>; running out of it is not returning.
\<close>

fun consoleintr_loop :: "nat \<Rightarrow> ('a kcons_scheme, int) K \<Rightarrow> ('a kcons_scheme, unit) K" where
  "consoleintr_loop 0 getc = kspin"
| "consoleintr_loop (Suc fuel) getc =
     kbind getc (\<lambda>c.
       if c \<ge> 0 then kseq (consoleintr_char c) (consoleintr_loop fuel getc)
       else kret ())"

definition consoleintr :: "nat \<Rightarrow> ('a kcons_scheme, int) K \<Rightarrow> ('a kcons_scheme, unit) K" where
  "consoleintr fuel getc =
     kseq (acquire L_input) (kseq (consoleintr_loop fuel getc) (release L_input))"

text \<open>The serial port hands over the bytes that arrived, one per read.\<close>

definition uartgetc :: "('a kcons_scheme, int) K" where
  "uartgetc = (\<lambda>s.
     if \<not> uart_on s then Done (- 1) s
     else case uart_in s of [] \<Rightarrow> Done (- 1) s
       | c # cs \<Rightarrow> Done (uint c) (s\<lparr>uart_in := cs\<rparr>))"

section \<open>The keyboard\<close>

abbreviation SHIFT :: uint where "SHIFT \<equiv> 1"
abbreviation CTL :: uint where "CTL \<equiv> 2"
abbreviation ALT :: uint where "ALT \<equiv> 4"
abbreviation CAPSLOCK :: uint where "CAPSLOCK \<equiv> 8"
abbreviation NUMLOCK :: uint where "NUMLOCK \<equiv> 16"
abbreviation SCROLLLOCK :: uint where "SCROLLLOCK \<equiv> 32"
abbreviation E0ESC :: uint where "E0ESC \<equiv> 64"

definition shiftcode :: "nat \<Rightarrow> uint" where
  "shiftcode k = (case map_of [(0x1D, CTL), (0x2A, SHIFT), (0x36, SHIFT), (0x38, ALT), (0x9D, CTL), (0xB8, ALT)] k
     of Some v \<Rightarrow> v | None \<Rightarrow> 0)"

definition togglecode :: "nat \<Rightarrow> uint" where
  "togglecode k = (case map_of [(0x3A, CAPSLOCK), (0x45, NUMLOCK), (0x46, SCROLLLOCK)] k
     of Some v \<Rightarrow> v | None \<Rightarrow> 0)"

text \<open>The keys beyond the main block; the map of a code is its table entry or one of these.\<close>

definition kp_map :: "uchar \<Rightarrow> uchar \<Rightarrow> nat \<Rightarrow> uchar" where
  "kp_map enter slash k = (case map_of [(0x9C, enter), (0xB5, slash),
       (0xC8, 0xE2), (0xD0, 0xE3), (0xC9, 0xE6), (0xD1, 0xE7), (0xCB, 0xE4), (0xCD, 0xE5),
       (0x97, 0xE0), (0xCF, 0xE1), (0xD2, 0xE8), (0xD3, 0xE9)] k
     of Some v \<Rightarrow> v | None \<Rightarrow> 0)"

definition keymap :: "string \<Rightarrow> uchar \<Rightarrow> uchar \<Rightarrow> nat \<Rightarrow> uchar" where
  "keymap main enter slash k = (if k < length main then of_char (main ! k) else kp_map enter slash k)"

definition NO :: char where "NO = CHR 0x00"

definition normalmap :: "nat \<Rightarrow> uchar" where
  "normalmap = keymap (
     [NO, CHR 0x1B] @ ''1234567890-='' @ [CHR 0x08, CHR 0x09] @
     ''qwertyuiop[]'' @ [CHR 0x0A, NO] @ ''asdfghjkl;'' @ [CHR 0x27, CHR 0x60, NO, CHR 0x5C] @
     ''zxcvbnm,./'' @ [NO, CHR ''*'', NO, CHR '' ''] @ replicate 13 NO @
     ''789-456+1230.'' @ replicate 4 NO) 0x0A (of_char (CHR ''/''))"

definition shiftmap :: "nat \<Rightarrow> uchar" where
  "shiftmap = keymap (
     [NO, CHR 0x1B] @ ''!@#$%^&*()_+'' @ [CHR 0x08, CHR 0x09] @
     ''QWERTYUIOP{}'' @ [CHR 0x0A, NO] @ ''ASDFGHJKL:'' @ [CHR 0x22, CHR ''~'', NO, CHR ''|''] @
     ''ZXCVBNM<>?'' @ [NO, CHR ''*'', NO, CHR '' ''] @ replicate 13 NO @
     ''789-456+1230.'' @ replicate 4 NO) 0x0A (of_char (CHR ''/''))"

text \<open>\<open>C(x)\<close>: the control character of \<open>x\<close>, as an \<open>uchar\<close>.\<close>

definition ctl :: "char \<Rightarrow> char" where
  "ctl c = char_of (unat ((of_char c :: uchar) - 0x40))"

definition ctlmap :: "nat \<Rightarrow> uchar" where
  "ctlmap = keymap (
     replicate 16 NO @ map ctl ''QWERTYUIOP'' @ [NO, NO, CHR 0x0D, NO] @ map ctl ''ASDFGHJKL'' @
     replicate 4 NO @ [ctl (CHR 0x5C)] @ map ctl ''ZXCVBNM'' @ [NO, NO, ctl (CHR ''/''), NO, NO])
     0x0D (of_char (ctl (CHR ''/'')))"

definition charcode :: "uint \<Rightarrow> nat \<Rightarrow> uchar" where
  "charcode k = [normalmap, shiftmap, ctlmap, ctlmap] ! unat k"

text \<open>\<open>kbdgetc\<close> on one scan code: the new shift state and the result.\<close>

definition kbd_step :: "uint \<Rightarrow> uchar \<Rightarrow> uint \<times> int" where
  "kbd_step shift b =
     (let data = unat b in
      if data = 0xE0 then (shift OR E0ESC, 0)
      else if b AND 0x80 \<noteq> 0 then
        let data' = (if shift AND E0ESC \<noteq> 0 then data else unat (b AND 0x7F))
        in (shift AND NOT (shiftcode data' OR E0ESC), 0)
      else
        let (data', sh) = (if shift AND E0ESC \<noteq> 0 then (unat (b OR 0x80), shift AND NOT E0ESC) else (data, shift));
            sh' = (sh OR shiftcode data') XOR togglecode data';
            c = uint (charcode (sh' AND (CTL OR SHIFT)) data')
        in (sh', if sh' AND CAPSLOCK \<noteq> 0 then
                   if 97 \<le> c \<and> c \<le> 122 then c - 32
                   else if 65 \<le> c \<and> c \<le> 90 then c + 32 else c
                 else c))"

definition kbdgetc :: "('a kcons_scheme, int) K" where
  "kbdgetc = (\<lambda>s. case kbd_in s of [] \<Rightarrow> Done (- 1) s
     | b # bs \<Rightarrow> let (sh, r) = kbd_step (kbd_shift s) b in Done r (s\<lparr>kbd_in := bs, kbd_shift := sh\<rparr>))"

definition kbdintr :: "('a kcons_scheme, unit) K" where
  "kbdintr = (\<lambda>s. consoleintr (Suc (length (kbd_in s))) kbdgetc s)"

definition uartintr :: "('a kcons_scheme, unit) K" where
  "uartintr = (\<lambda>s. consoleintr (Suc (length (uart_in s))) uartgetc s)"

end
