(* ===== verification/Fs.thy ===== *)
theory Fs
  imports Console
begin

text \<open>
  The file system's blocks, inodes and file contents (\<open>kernel/fs.c\<close> up to \<open>writei\<close>, with the
  disk format of \<open>include/fs.h\<close> and the inode of \<open>kernel/file.h\<close>). An inode pointer is the
  index of its slot in \<open>icache.inode\<close>. Disk blocks are reached through the buffer cache of
  theory \<open>Bio\<close> only. The two device functions of \<open>devsw\<close> are an argument of \<open>readi\<close> and
  \<open>writei\<close>. A destination buffer is an object the routine returns changed.
\<close>

abbreviation NDIRECT :: nat where "NDIRECT \<equiv> 11"
abbreviation NINDIRECT :: nat where "NINDIRECT \<equiv> 128"
abbreviation MAXFILE :: nat where "MAXFILE \<equiv> 139"
abbreviation NINODE :: nat where "NINODE \<equiv> 50"
abbreviation NDEV :: nat where "NDEV \<equiv> 10"
abbreviation IPB :: nat where "IPB \<equiv> 8"
abbreviation BPB :: nat where "BPB \<equiv> 4096"
abbreviation I_BUSY :: uint where "I_BUSY \<equiv> 1"
abbreviation I_VALID :: uint where "I_VALID \<equiv> 2"
abbreviation T_DIR :: ushort where "T_DIR \<equiv> 1"
abbreviation T_FILE :: ushort where "T_FILE \<equiv> 2"
abbreviation T_DEV :: ushort where "T_DEV \<equiv> 3"
abbreviation ROOTDEV :: uint where "ROOTDEV \<equiv> 1"
abbreviation ROOTINO :: uint where "ROOTINO \<equiv> 1"

section \<open>Data\<close>

record superblock =
  sb_size :: uint
  sb_nblocks :: uint
  sb_ninodes :: uint

record inode =
  i_dev :: uint
  i_inum :: uint
  i_ref :: int
  i_flags :: uint
  i_type :: ushort
  i_major :: ushort
  i_minor :: ushort
  i_nlink :: ushort
  i_size :: uint
  i_addrs :: "nat \<Rightarrow> uint"
  i_tags :: uint

record kfs = kcons +
  inodes :: "nat \<Rightarrow> inode"

definition upd_inode :: "nat \<Rightarrow> (inode \<Rightarrow> inode) \<Rightarrow> ('a kfs_scheme, unit) K" where
  "upd_inode ip f = kmod (\<lambda>s. s\<lparr>inodes := (inodes s)(ip := f (inodes s ip))\<rparr>)"

definition IBLOCK :: "uint \<Rightarrow> uint" where
  "IBLOCK i = i div 8 + 2"

definition BBLOCK :: "uint \<Rightarrow> uint \<Rightarrow> uint" where
  "BBLOCK b ninodes = b div 4096 + ninodes div 8 + 3"

text \<open>The super block in block 1; the byte offset of an inode in its block, and its fields.\<close>

definition sb_of :: "bytes \<Rightarrow> superblock" where
  "sb_of d = \<lparr>sb_size = rd32 d 0, sb_nblocks = rd32 d 4, sb_ninodes = rd32 d 8\<rparr>"

definition dinode_off :: "uint \<Rightarrow> nat" where
  "dinode_off inum = 64 * (unat inum mod IPB)"

definition dinode_type :: "bytes \<Rightarrow> nat \<Rightarrow> ushort" where
  "dinode_type d q = rd16 d q"

text \<open>\<open>ilock\<close>'s copy from the disk inode at offset \<open>q\<close>, and \<open>iupdate\<close>'s copy to it.\<close>

definition load_dinode :: "bytes \<Rightarrow> nat \<Rightarrow> inode \<Rightarrow> inode" where
  "load_dinode d q ip = ip\<lparr>i_type := rd16 d q, i_major := rd16 d (q + 2), i_minor := rd16 d (q + 4),
     i_nlink := rd16 d (q + 6), i_size := rd32 d (q + 8),
     i_addrs := (\<lambda>k. if k < NDIRECT + 1 then rd32 d (q + 12 + 4 * k) else i_addrs ip k)\<rparr>"

fun put_words :: "bytes \<Rightarrow> nat \<Rightarrow> (nat \<Rightarrow> uint) \<Rightarrow> nat \<Rightarrow> bytes" where
  "put_words d q a 0 = d"
| "put_words d q a (Suc k) = wr32 (put_words d q a k) (q + 4 * k) (a k)"

definition store_dinode :: "inode \<Rightarrow> nat \<Rightarrow> bytes \<Rightarrow> bytes" where
  "store_dinode ip q d =
     put_words (wr32 (wr16 (wr16 (wr16 (wr16 d q (i_type ip)) (q + 2) (i_major ip)) (q + 4) (i_minor ip))
       (q + 6) (i_nlink ip)) (q + 8) (i_size ip)) (q + 12) (i_addrs ip) (NDIRECT + 1)"

section \<open>Blocks\<close>

definition readsb :: "uint \<Rightarrow> ('a kide_scheme, superblock) K" where
  "readsb dev =
     kbind (bread dev 1) (\<lambda>bp.
     kbind (kget (\<lambda>s. sb_of (b_data (bufs s bp)))) (\<lambda>sb.
     kseq (brelse bp) (kret sb)))"

definition bzero :: "uint \<Rightarrow> uint \<Rightarrow> ('a kide_scheme, unit) K" where
  "bzero dev bno =
     kbind (bread dev bno) (\<lambda>bp.
     kseq (upd_data bp (\<lambda>d. memset d 0 0 512)) (
     kseq (bwrite bp) (
     brelse bp)))"

definition bit_free :: "bytes \<Rightarrow> nat \<Rightarrow> bool" where
  "bit_free d bi \<longleftrightarrow> d (bi div 8) AND push_bit (bi mod 8) 1 = 0"

definition mark_used :: "nat \<Rightarrow> bytes \<Rightarrow> bytes" where
  "mark_used bi d = d(bi div 8 := d (bi div 8) OR push_bit (bi mod 8) 1)"

definition mark_free :: "nat \<Rightarrow> bytes \<Rightarrow> bytes" where
  "mark_free bi d = d(bi div 8 := d (bi div 8) AND NOT (push_bit (bi mod 8) 1))"

function balloc_loop :: "uint \<Rightarrow> superblock \<Rightarrow> nat \<Rightarrow> ('a kide_scheme, uint) K" where
  "balloc_loop dev sb b =
     (if b < unat (sb_size sb) then
        kbind (bread dev (BBLOCK (of_nat b) (sb_ninodes sb))) (\<lambda>bp.
        kbind (kget (\<lambda>s. find (bit_free (b_data (bufs s bp))) [0..<BPB])) (\<lambda>r. case r of
          Some bi \<Rightarrow>
            kseq (upd_data bp (mark_used bi)) (
            kseq (bwrite bp) (
            kseq (brelse bp) (
            kret (of_nat (b + bi)))))
        | None \<Rightarrow> kseq (brelse bp) (balloc_loop dev sb (b + BPB))))
      else kpanic ''balloc: out of blocks'')"
  by pat_completeness auto
termination
  by (relation "measure (\<lambda>(dev, sb, b). unat (sb_size sb) - b)") auto

declare balloc_loop.simps [simp del]

definition balloc :: "uint \<Rightarrow> ('a kide_scheme, uint) K" where
  "balloc dev = kbind (readsb dev) (\<lambda>sb. balloc_loop dev sb 0)"

definition bfree :: "uint \<Rightarrow> uint \<Rightarrow> ('a kide_scheme, unit) K" where
  "bfree dev b =
     kseq (bzero dev b) (
     kbind (readsb dev) (\<lambda>sb.
     kbind (bread dev (BBLOCK b (sb_ninodes sb))) (\<lambda>bp.
     kbind (kget (\<lambda>s. bit_free (b_data (bufs s bp)) (unat b mod BPB))) (\<lambda>free.
       if free then kpanic ''freeing free block''
       else
         kseq (upd_data bp (mark_free (unat b mod BPB))) (
         kseq (bwrite bp) (
         brelse bp))))))"

section \<open>Inodes\<close>

definition iinit :: "('a kfs_scheme, unit) K" where
  "iinit = lock_init L_icache"

definition iget :: "uint \<Rightarrow> uint \<Rightarrow> ('a kfs_scheme, nat) K" where
  "iget dev inum =
     kseq (acquire L_icache) (
     kbind (kget inodes) (\<lambda>t.
       case find (\<lambda>ip. i_ref (t ip) > 0 \<and> i_dev (t ip) = dev \<and> i_inum (t ip) = inum) [0..<NINODE] of
         Some ip \<Rightarrow>
           kseq (upd_inode ip (\<lambda>p. p\<lparr>i_ref := i_ref p + 1\<rparr>)) (
           kseq (release L_icache) (kret ip))
       | None \<Rightarrow>
           (case find (\<lambda>ip. i_ref (t ip) = 0) [0..<NINODE] of
             None \<Rightarrow> kpanic ''iget: no inodes''
           | Some ip \<Rightarrow>
               kseq (upd_inode ip (\<lambda>p. p\<lparr>i_dev := dev, i_inum := inum, i_ref := 1, i_flags := 0\<rparr>)) (
               kseq (release L_icache) (kret ip)))))"

function ialloc_loop :: "uint \<Rightarrow> ushort \<Rightarrow> superblock \<Rightarrow> nat \<Rightarrow> ('a kfs_scheme, nat) K" where
  "ialloc_loop dev type sb inum =
     (if inum < unat (sb_ninodes sb) then
        kbind (bread dev (IBLOCK (of_nat inum))) (\<lambda>bp.
        kbind (kget (\<lambda>s. dinode_type (b_data (bufs s bp)) (dinode_off (of_nat inum)))) (\<lambda>ty.
          if ty = 0 then
            kseq (upd_data bp (\<lambda>d. memset d (dinode_off (of_nat inum)) 0 64)) (
            kseq (upd_data bp (\<lambda>d. wr16 d (dinode_off (of_nat inum)) type)) (
            kseq (bwrite bp) (
            kseq (brelse bp) (
            iget dev (of_nat inum)))))
          else kseq (brelse bp) (ialloc_loop dev type sb (inum + 1))))
      else kpanic ''ialloc: no inodes'')"
  by pat_completeness auto
termination
  by (relation "measure (\<lambda>(dev, type, sb, inum). unat (sb_ninodes sb) - inum)") auto

declare ialloc_loop.simps [simp del]

definition ialloc :: "uint \<Rightarrow> ushort \<Rightarrow> ('a kfs_scheme, nat) K" where
  "ialloc dev type = kbind (readsb dev) (\<lambda>sb. ialloc_loop dev type sb 1)"

definition iupdate :: "nat \<Rightarrow> ('a kfs_scheme, unit) K" where
  "iupdate ip =
     kbind (kget (\<lambda>s. inodes s ip)) (\<lambda>p.
     kbind (bread (i_dev p) (IBLOCK (i_inum p))) (\<lambda>bp.
     kseq (upd_data bp (store_dinode p (dinode_off (i_inum p)))) (
     kseq (bwrite bp) (
     brelse bp))))"

definition idup :: "nat \<Rightarrow> ('a kfs_scheme, nat) K" where
  "idup ip =
     kseq (acquire L_icache) (
     kseq (upd_inode ip (\<lambda>p. p\<lparr>i_ref := i_ref p + 1\<rparr>)) (
     kseq (release L_icache) (
     kret ip)))"

text \<open>
  \<open>ilock\<close> from its \<open>while\<close> loop on: the process sleeps while the inode is busy and comes
  back to the loop when it is woken (\<open>ilock_resume\<close>).
\<close>

definition ilock_loop :: "nat \<Rightarrow> ('a kfs_scheme, unit) K" where
  "ilock_loop ip =
     kbind (kget (\<lambda>s. i_flags (inodes s ip))) (\<lambda>f.
       if f AND I_BUSY \<noteq> 0 then sleep (ChInode ip) L_icache
       else
         kseq (upd_inode ip (\<lambda>p. p\<lparr>i_flags := i_flags p OR I_BUSY\<rparr>)) (
         kseq (release L_icache) (
         kbind (kget (\<lambda>s. inodes s ip)) (\<lambda>p.
         kwhen (i_flags p AND I_VALID = 0) (
           kbind (bread (i_dev p) (IBLOCK (i_inum p))) (\<lambda>bp.
           kbind (get_data bp) (\<lambda>d.
           kseq (upd_inode ip (load_dinode d (dinode_off (i_inum p)))) (
           kseq (brelse bp) (
           kseq (upd_inode ip (\<lambda>p. p\<lparr>i_flags := i_flags p OR I_VALID\<rparr>)) (
           kbind (kget (\<lambda>s. i_type (inodes s ip))) (\<lambda>ty.
           kwhen (ty = 0) (kpanic ''ilock: no type''))))))))))))"

definition ilock :: "nat \<Rightarrow> ('a kfs_scheme, unit) K" where
  "ilock ip =
     kbind (kget (\<lambda>s. i_ref (inodes s ip))) (\<lambda>r.
       if r < 1 then kpanic ''ilock''
       else kseq (acquire L_icache) (ilock_loop ip))"

definition ilock_resume :: "nat \<Rightarrow> ('a kfs_scheme, unit) K" where
  "ilock_resume ip = kseq (sleep_resume L_icache) (ilock_loop ip)"

definition iunlock :: "nat \<Rightarrow> ('a kfs_scheme, unit) K" where
  "iunlock ip =
     kbind (kget (\<lambda>s. inodes s ip)) (\<lambda>p.
       if i_flags p AND I_BUSY = 0 \<or> i_ref p < 1 then kpanic ''iunlock''
       else
         kseq (acquire L_icache) (
         kseq (upd_inode ip (\<lambda>p. p\<lparr>i_flags := i_flags p AND NOT I_BUSY\<rparr>)) (
         kseq (wakeup (ChInode ip)) (
         release L_icache))))"

section \<open>File contents\<close>

definition bmap :: "nat \<Rightarrow> nat \<Rightarrow> ('a kfs_scheme, uint) K" where
  "bmap ip bn =
     kbind (kget (\<lambda>s. inodes s ip)) (\<lambda>p.
       if bn < NDIRECT then
         if i_addrs p bn = 0 then
           kbind (balloc (i_dev p)) (\<lambda>addr.
           kseq (upd_inode ip (\<lambda>p. p\<lparr>i_addrs := (i_addrs p)(bn := addr)\<rparr>)) (
           kret addr))
         else kret (i_addrs p bn)
       else if bn - NDIRECT < NINDIRECT then
         kbind (if i_addrs p NDIRECT = 0 then
             kbind (balloc (i_dev p)) (\<lambda>addr.
             kseq (upd_inode ip (\<lambda>p. p\<lparr>i_addrs := (i_addrs p)(NDIRECT := addr)\<rparr>)) (
             kret addr))
           else kret (i_addrs p NDIRECT)) (\<lambda>ind.
         kbind (bread (i_dev p) ind) (\<lambda>bp.
         kbind (kget (\<lambda>s. rd32 (b_data (bufs s bp)) (4 * (bn - NDIRECT)))) (\<lambda>a.
         kbind (if a = 0 then
             kbind (balloc (i_dev p)) (\<lambda>addr.
             kseq (upd_data bp (\<lambda>d. wr32 d (4 * (bn - NDIRECT)) addr)) (
             kseq (bwrite bp) (
             kret addr)))
           else kret a) (\<lambda>addr.
         kseq (brelse bp) (kret addr)))))
       else kpanic ''bmap: out of range'')"

definition itrunc :: "nat \<Rightarrow> ('a kfs_scheme, unit) K" where
  "itrunc ip =
     kseq (kforeach [0..<NDIRECT] (\<lambda>i.
       kbind (kget (\<lambda>s. inodes s ip)) (\<lambda>p.
       kwhen (i_addrs p i \<noteq> 0) (
         kseq (bfree (i_dev p) (i_addrs p i)) (
         upd_inode ip (\<lambda>p. p\<lparr>i_addrs := (i_addrs p)(i := 0)\<rparr>)))))) (
     kseq (kbind (kget (\<lambda>s. inodes s ip)) (\<lambda>p.
       kwhen (i_addrs p NDIRECT \<noteq> 0) (
         kbind (bread (i_dev p) (i_addrs p NDIRECT)) (\<lambda>bp.
         kseq (kforeach [0..<NINDIRECT] (\<lambda>j.
           kbind (kget (\<lambda>s. rd32 (b_data (bufs s bp)) (4 * j))) (\<lambda>a.
           kwhen (a \<noteq> 0) (bfree (i_dev p) a)))) (
         kseq (brelse bp) (
         kseq (bfree (i_dev p) (i_addrs p NDIRECT)) (
         upd_inode ip (\<lambda>p. p\<lparr>i_addrs := (i_addrs p)(NDIRECT := 0)\<rparr>))))))) ) (
     kseq (upd_inode ip (\<lambda>p. p\<lparr>i_size := 0\<rparr>)) (
     iupdate ip)))"

definition iput :: "nat \<Rightarrow> ('a kfs_scheme, unit) K" where
  "iput ip =
     kseq (acquire L_icache) (
     kbind (kget (\<lambda>s. inodes s ip)) (\<lambda>p.
     kseq (kwhen (i_ref p = 1 \<and> i_flags p AND I_VALID \<noteq> 0 \<and> i_nlink p = 0) (
         if i_flags p AND I_BUSY \<noteq> 0 then kpanic ''iput busy''
         else
           kseq (upd_inode ip (\<lambda>p. p\<lparr>i_flags := i_flags p OR I_BUSY\<rparr>)) (
           kseq (release L_icache) (
           kseq (itrunc ip) (
           kseq (upd_inode ip (\<lambda>p. p\<lparr>i_type := 0\<rparr>)) (
           kseq (iupdate ip) (
           kseq (acquire L_icache) (
           kseq (upd_inode ip (\<lambda>p. p\<lparr>i_flags := 0\<rparr>)) (
           wakeup (ChInode ip)))))))))) (
     kseq (upd_inode ip (\<lambda>p. p\<lparr>i_ref := i_ref p - 1\<rparr>)) (
     release L_icache))))"

definition iunlockput :: "nat \<Rightarrow> ('a kfs_scheme, unit) K" where
  "iunlockput ip = kseq (iunlock ip) (iput ip)"

record stat =
  st_type :: ushort
  st_dev :: uint
  st_ino :: uint
  st_nlink :: ushort
  st_size :: uint

definition stati :: "inode \<Rightarrow> stat" where
  "stati p = \<lparr>st_type = i_type p, st_dev = i_dev p, st_ino = i_inum p, st_nlink = i_nlink p,
     st_size = i_size p\<rparr>"

text \<open>
  \<open>devsw\<close>: for each major number the read and the write function, if any. They take the
  inode, the buffer and the count.
\<close>

type_synonym 's devsw = "nat \<Rightarrow> (nat \<Rightarrow> bytes \<Rightarrow> uint \<Rightarrow> ('s, int \<times> bytes) K) option
  \<times> (nat \<Rightarrow> bytes \<Rightarrow> uint \<Rightarrow> ('s, int) K) option"

definition dev_index :: "ushort \<Rightarrow> nat option" where
  "dev_index major = (if sint major < 0 \<or> sint major \<ge> int NDEV then None else Some (nat (sint major)))"

function readi_loop :: "nat \<Rightarrow> bytes \<Rightarrow> nat \<Rightarrow> nat \<Rightarrow> nat \<Rightarrow> ('a kfs_scheme, bytes) K" where
  "readi_loop ip dst tot off n =
     (if tot < n then
        kbind (bmap ip (off div 512)) (\<lambda>a.
        kbind (kget (\<lambda>s. i_dev (inodes s ip))) (\<lambda>dev.
        kbind (bread dev a) (\<lambda>bp.
        kbind (get_data bp) (\<lambda>d.
        kseq (brelse bp) (
        readi_loop ip (memmove_obj dst tot d (off mod 512) (min (n - tot) (512 - off mod 512)))
          (tot + min (n - tot) (512 - off mod 512)) (off + min (n - tot) (512 - off mod 512)) n)))))
      else kret dst)"
  by pat_completeness auto
termination
  by (relation "measure (\<lambda>(ip, dst, tot, off, n). n - tot)") (auto simp: min_def)

declare readi_loop.simps [simp del]

definition readi :: "'a kfs_scheme devsw \<Rightarrow> nat \<Rightarrow> bytes \<Rightarrow> uint \<Rightarrow> uint \<Rightarrow> ('a kfs_scheme, int \<times> bytes) K" where
  "readi dsw ip dst off n =
     kbind (kget (\<lambda>s. inodes s ip)) (\<lambda>p.
       if i_type p = T_DEV then
         (case dev_index (i_major p) of
            None \<Rightarrow> kret (- 1, dst)
          | Some k \<Rightarrow> (case fst (dsw k) of None \<Rightarrow> kret (- 1, dst) | Some rd \<Rightarrow> rd ip dst n))
       else if off > i_size p \<or> off + n < off then kret (- 1, dst)
       else
         let n' = (if off + n > i_size p then i_size p - off else n)
         in kbind (readi_loop ip dst 0 (unat off) (unat n')) (\<lambda>dst'. kret (sint n', dst')))"

function writei_loop :: "nat \<Rightarrow> bytes \<Rightarrow> nat \<Rightarrow> nat \<Rightarrow> nat \<Rightarrow> ('a kfs_scheme, unit) K" where
  "writei_loop ip src tot off n =
     (if tot < n then
        kbind (bmap ip (off div 512)) (\<lambda>a.
        kbind (kget (\<lambda>s. i_dev (inodes s ip))) (\<lambda>dev.
        kbind (bread dev a) (\<lambda>bp.
        kseq (upd_data bp (\<lambda>d. memmove_obj d (off mod 512) src tot (min (n - tot) (512 - off mod 512)))) (
        kseq (bwrite bp) (
        kseq (brelse bp) (
        writei_loop ip src (tot + min (n - tot) (512 - off mod 512))
          (off + min (n - tot) (512 - off mod 512)) n))))))
      else kret ())"
  by pat_completeness auto
termination
  by (relation "measure (\<lambda>(ip, src, tot, off, n). n - tot)") (auto simp: min_def)

declare writei_loop.simps [simp del]

definition writei :: "'a kfs_scheme devsw \<Rightarrow> nat \<Rightarrow> bytes \<Rightarrow> uint \<Rightarrow> uint \<Rightarrow> ('a kfs_scheme, int) K" where
  "writei dsw ip src off n =
     kbind (kget (\<lambda>s. inodes s ip)) (\<lambda>p.
       if i_type p = T_DEV then
         (case dev_index (i_major p) of
            None \<Rightarrow> kret (- 1)
          | Some k \<Rightarrow> (case snd (dsw k) of None \<Rightarrow> kret (- 1) | Some wr \<Rightarrow> wr ip src n))
       else if off > i_size p \<or> off + n < off then kret (- 1)
       else
         let n' = (if off + n > of_nat (MAXFILE * 512) then of_nat (MAXFILE * 512) - off else n)
         in kseq (writei_loop ip src 0 (unat off) (unat n')) (
            kseq (kbind (kget (\<lambda>s. i_size (inodes s ip))) (\<lambda>sz.
              kwhen (n' > 0 \<and> off + n' > sz) (
                kseq (upd_inode ip (\<lambda>p. p\<lparr>i_size := off + n'\<rparr>)) (iupdate ip)))) (
            kret (sint n'))))"

end
