(* ===== verification/Console_Dev.thy ===== *)
theory Console_Dev
  imports Fs
begin

text \<open>
  The console as a device file: \<open>consoleread\<close>, \<open>consolewrite\<close> and \<open>consoleinit\<close> of
  \<open>kernel/console.c\<close>, and the device table \<open>devsw\<close> of \<open>kernel/file.c\<close> they fill in.
\<close>

abbreviation CONSOLE :: nat where "CONSOLE \<equiv> 1"

text \<open>
  \<open>consoleread\<close> from its loop on, with \<open>n\<close> bytes still wanted, \<open>target\<close> asked for and \<open>pos\<close>
  already stored. A reader that finds no input sleeps and comes back to the same place.
\<close>

definition consoleread_done :: "nat \<Rightarrow> int \<times> bytes \<Rightarrow> ('a kfs_scheme, int \<times> bytes) K" where
  "consoleread_done ip r = kseq (release L_input) (kseq (ilock ip) (kret r))"

fun consoleread_loop :: "nat \<Rightarrow> nat \<Rightarrow> bytes \<Rightarrow> nat \<Rightarrow> ('a kfs_scheme, int \<times> bytes) K" where
  "consoleread_loop ip target dst 0 = consoleread_done ip (int target, dst)"
| "consoleread_loop ip target dst (Suc n) =
     kbind (kget (\<lambda>s. input_r s = input_w s)) (\<lambda>empty.
       if empty then
         kbind cur_proc (\<lambda>i.
         kbind (kget (\<lambda>s. p_killed (ptable s i))) (\<lambda>killed.
           if killed then consoleread_done ip (- 1, dst)
           else sleep ChInput L_input))
       else
         kbind (kget (\<lambda>s. input_buf s (in_at (input_r s)))) (\<lambda>c.
         kseq (kmod (\<lambda>s. s\<lparr>input_r := input_r s + 1\<rparr>)) (
           if c = 4 then
             kseq (kwhen (Suc n < target) (kmod (\<lambda>s. s\<lparr>input_r := input_r s - 1\<rparr>))) (
             consoleread_done ip (int target - int (Suc n), dst))
           else if c = 10 then
             consoleread_done ip (int target - int n, dst(target - Suc n := c))
           else consoleread_loop ip target (dst(target - Suc n := c)) n)))"

definition consoleread :: "nat \<Rightarrow> bytes \<Rightarrow> uint \<Rightarrow> ('a kfs_scheme, int \<times> bytes) K" where
  "consoleread ip dst n =
     kseq (iunlock ip) (
     kseq (acquire L_input) (
     (if sint n > 0 then consoleread_loop ip (unat n) dst (unat n) else consoleread_done ip (0, dst))))"

definition consoleread_resume :: "nat \<Rightarrow> nat \<Rightarrow> bytes \<Rightarrow> nat \<Rightarrow> ('a kfs_scheme, int \<times> bytes) K" where
  "consoleread_resume ip target dst n = kseq (sleep_resume L_input) (consoleread_loop ip target dst n)"

definition consolewrite :: "nat \<Rightarrow> bytes \<Rightarrow> uint \<Rightarrow> ('a kfs_scheme, int) K" where
  "consolewrite ip buf n =
     kseq (iunlock ip) (
     kseq (acquire L_cons) (
     kseq (kforeach [0..<nat (sint n)] (\<lambda>i. consputc (uint (buf i)))) (
     kseq (release L_cons) (
     kseq (ilock ip) (
     kret (sint n))))))"

text \<open>The device table after \<open>consoleinit\<close>, which also frees the two locks.\<close>

definition devsw :: "'a kfs_scheme devsw" where
  "devsw = (\<lambda>k. if k = CONSOLE then (Some consoleread, Some consolewrite) else (None, None))"

definition consoleinit :: "('a kfs_scheme, unit) K" where
  "consoleinit =
     kseq (lock_init L_cons) (
     kseq (lock_init L_input) (
     kmod (\<lambda>s. s\<lparr>cons_locking := True\<rparr>)))"

end
