(* ===== verification/Fs_Dir.thy ===== *)
theory Fs_Dir
  imports Console_Dev
begin

text \<open>
  Directories and path names (\<open>kernel/fs.c\<close>, \<open>namecmp\<close> to \<open>nameiparent\<close>). A directory is a file
  of 16-byte entries, an inode number and a name of at most 14 bytes. A path is the list of
  its bytes before the NUL; a name is the 14-byte array it is copied into.
\<close>

abbreviation DIRSIZ :: nat where "DIRSIZ \<equiv> 14"

definition namecmp :: "bytes \<Rightarrow> bytes \<Rightarrow> int" where
  "namecmp s t = strncmp s t DIRSIZ"

definition de_inum :: "bytes \<Rightarrow> nat \<Rightarrow> ushort" where
  "de_inum d k = rd16 d (16 * k)"

definition de_name :: "bytes \<Rightarrow> nat \<Rightarrow> bytes" where
  "de_name d k = (\<lambda>i. d (16 * k + 2 + i))"

text \<open>The entries of one block, and the search through the blocks of the directory.\<close>

definition dir_find :: "bytes \<Rightarrow> bytes \<Rightarrow> nat option" where
  "dir_find name d = find (\<lambda>k. de_inum d k \<noteq> 0 \<and> namecmp name (de_name d k) = 0) [0..<32]"

function dirlookup_loop :: "nat \<Rightarrow> bytes \<Rightarrow> nat \<Rightarrow> nat \<Rightarrow> ('a kfs_scheme, (nat \<times> nat) option) K" where
  "dirlookup_loop dp name sz off =
     (if off < sz then
        kbind (bmap dp (off div 512)) (\<lambda>a.
        kbind (kget (\<lambda>s. i_dev (inodes s dp))) (\<lambda>dev.
        kbind (bread dev a) (\<lambda>bp.
        kbind (kget (\<lambda>s. b_data (bufs s bp))) (\<lambda>d.
          case dir_find name d of
            Some k \<Rightarrow>
              kseq (brelse bp) (
              kbind (iget dev (ucast (de_inum d k))) (\<lambda>ip.
              kret (Some (ip, off + 16 * k))))
          | None \<Rightarrow> kseq (brelse bp) (dirlookup_loop dp name sz (off + 512))))))
      else kret None)"
  by pat_completeness auto
termination
  by (relation "measure (\<lambda>(dp, name, sz, off). sz - off)") auto

declare dirlookup_loop.simps [simp del]

text \<open>The inode found and the byte offset of its entry (\<open>*poff\<close>).\<close>

definition dirlookup :: "nat \<Rightarrow> bytes \<Rightarrow> ('a kfs_scheme, (nat \<times> nat) option) K" where
  "dirlookup dp name =
     kbind (kget (\<lambda>s. inodes s dp)) (\<lambda>p.
       if i_type p \<noteq> T_DIR then kpanic ''dirlookup not DIR''
       else dirlookup_loop dp name (unat (i_size p)) 0)"

text \<open>\<open>dirlink\<close>'s search for an unused entry: its offset and the entry as last read.\<close>

function dirlink_slot :: "nat \<Rightarrow> bytes \<Rightarrow> nat \<Rightarrow> nat \<Rightarrow> ('a kfs_scheme, nat \<times> bytes) K" where
  "dirlink_slot dp de sz off =
     (if off < sz then
        kbind (readi devsw dp de (of_nat off) 16) (\<lambda>(r, de').
          if r \<noteq> 16 then kpanic ''dirlink read''
          else if de_inum de' 0 = 0 then kret (off, de')
          else dirlink_slot dp de' sz (off + 16))
      else kret (off, de))"
  by pat_completeness auto
termination
  by (relation "measure (\<lambda>(dp, de, sz, off). sz - off)") auto

declare dirlink_slot.simps [simp del]

definition mk_dirent :: "bytes \<Rightarrow> bytes \<Rightarrow> uint \<Rightarrow> bytes" where
  "mk_dirent de name inum =
     wr16 (memmove_obj de 2 (strncpy (de_name de 0) name (int DIRSIZ)) 0 DIRSIZ) 0 (ucast inum)"

definition dirlink :: "nat \<Rightarrow> bytes \<Rightarrow> uint \<Rightarrow> ('a kfs_scheme, int) K" where
  "dirlink dp name inum =
     kbind (dirlookup dp name) (\<lambda>r. case r of
       Some (ip, _) \<Rightarrow> kseq (iput ip) (kret (- 1))
     | None \<Rightarrow>
         kbind (kget (\<lambda>s. unat (i_size (inodes s dp)))) (\<lambda>sz.
         kbind (dirlink_slot dp (\<lambda>_. 0) sz 0) (\<lambda>(off, de).
         kbind (writei devsw dp (mk_dirent de name inum) (of_nat off) 16) (\<lambda>r.
           if r \<noteq> 16 then kpanic ''dirlink'' else kret 0))))"

section \<open>Path names\<close>

abbreviation SLASH :: uchar where "SLASH \<equiv> 47"

text \<open>The bytes of a string as an object, its NUL included.\<close>

definition str_obj :: "uchar list \<Rightarrow> bytes" where
  "str_obj p i = (if i < length p then p ! i else 0)"

definition skipelem :: "uchar list \<Rightarrow> bytes \<Rightarrow> (uchar list \<times> bytes) option" where
  "skipelem path name =
     (let s = dropWhile (\<lambda>c. c = SLASH) path in
      if s = [] then None
      else
        let len = length (takeWhile (\<lambda>c. c \<noteq> SLASH) s);
            name' = (if len \<ge> DIRSIZ then memmove_obj name 0 (str_obj s) 0 DIRSIZ
                     else (memmove_obj name 0 (str_obj s) 0 len)(len := 0))
        in Some (dropWhile (\<lambda>c. c = SLASH) (drop len s), name'))"

lemma skipelem_shorter:
  assumes "skipelem path name = Some (path', name')"
  shows "length path' < length path"
proof -
  define s where "s = dropWhile (\<lambda>c. c = SLASH) path"
  define len where "len = length (takeWhile (\<lambda>c. c \<noteq> SLASH) s)"
  have s: "s \<noteq> []" "path' = dropWhile (\<lambda>c. c = SLASH) (drop len s)"
    using assms by (auto simp: skipelem_def Let_def s_def len_def split: if_splits)
  then have "hd s \<noteq> SLASH" using hd_dropWhile [of "\<lambda>c. c = SLASH" path] by (simp add: s_def)
  then have "len > 0" using s(1) by (cases s) (simp_all add: len_def)
  then have "length (drop len s) < length s" using s(1) by simp
  moreover have "length path' \<le> length (drop len s)" unfolding s(2) by (rule length_dropWhile_le)
  moreover have "length s \<le> length path" by (simp add: s_def length_dropWhile_le)
  ultimately show ?thesis by linarith
qed

text \<open>\<open>namex\<close> from its loop on, at inode \<open>ip\<close>: the inode reached and the last element.\<close>

function namex_loop :: "nat \<Rightarrow> uchar list \<Rightarrow> bool \<Rightarrow> bytes \<Rightarrow> ('a kfs_scheme, nat option \<times> bytes) K" where
  "namex_loop ip path parent name =
     (case skipelem path name of
        None \<Rightarrow> if parent then kseq (iput ip) (kret (None, name)) else kret (Some ip, name)
      | Some (path', name') \<Rightarrow>
          kseq (ilock ip) (
          kbind (kget (\<lambda>s. i_type (inodes s ip))) (\<lambda>ty.
            if ty \<noteq> T_DIR then kseq (iunlockput ip) (kret (None, name'))
            else if parent \<and> path' = [] then kseq (iunlock ip) (kret (Some ip, name'))
            else
              kbind (dirlookup ip name') (\<lambda>r. case r of
                None \<Rightarrow> kseq (iunlockput ip) (kret (None, name'))
              | Some (next, _) \<Rightarrow>
                  kseq (iunlockput ip) (namex_loop next path' parent name')))))"
  by pat_completeness auto
termination
  by (relation "measure (\<lambda>(ip, path, parent, name). length path)") (auto dest: skipelem_shorter)

declare namex_loop.simps [simp del]

definition namex :: "uchar list \<Rightarrow> bool \<Rightarrow> bytes \<Rightarrow> ('a kfs_scheme, nat option \<times> bytes) K" where
  "namex path parent name =
     kbind (if path \<noteq> [] \<and> hd path = SLASH then iget ROOTDEV ROOTINO
       else kbind cur_proc (\<lambda>i. kbind (kget (\<lambda>s. p_cwd (ptable s i))) (\<lambda>cwd.
         case cwd of None \<Rightarrow> kpanic ''trap'' | Some ip \<Rightarrow> idup ip))) (\<lambda>ip.
     namex_loop ip path parent name)"

definition namei :: "uchar list \<Rightarrow> ('a kfs_scheme, nat option) K" where
  "namei path = kbind (namex path False (\<lambda>_. 0)) (\<lambda>(r, _). kret r)"

definition nameiparent :: "uchar list \<Rightarrow> bytes \<Rightarrow> ('a kfs_scheme, nat option \<times> bytes) K" where
  "nameiparent path name = namex path True name"

end
