(* ===== verification/File.thy ===== *)
theory File
  imports Fs_Dir
begin

text \<open>
  Open files and pipes (\<open>kernel/file.c\<close>, \<open>kernel/pipe.c\<close>). A file is named by its index in
  \<open>ftable.file\<close>. A pipe lives in a page of its own and is named by the page's address; its
  contents are a record beside the page. \<open>pipealloc\<close> needs \<open>filealloc\<close> and \<open>fileclose\<close> needs
  \<open>pipeclose\<close>, so that both files of the source are in one theory.
\<close>

abbreviation NFILE :: nat where "NFILE \<equiv> 100"
abbreviation PIPESIZE :: nat where "PIPESIZE \<equiv> 512"

datatype ftype = FD_NONE | FD_PIPE | FD_INODE

record struct_file =
  f_type :: ftype
  f_ref :: int
  f_readable :: bool
  f_writable :: bool
  f_pipe :: uint
  f_ip :: "nat option"
  f_off :: uint

record pipe =
  pi_data :: "nat \<Rightarrow> uchar"
  pi_nread :: uint
  pi_nwrite :: uint
  pi_readopen :: bool
  pi_writeopen :: bool

record kfile = kfs +
  ftable :: "nat \<Rightarrow> struct_file"
  pipes :: "uint \<Rightarrow> pipe"

definition upd_file :: "nat \<Rightarrow> (struct_file \<Rightarrow> struct_file) \<Rightarrow> ('a kfile_scheme, unit) K" where
  "upd_file f g = kmod (\<lambda>s. s\<lparr>ftable := (ftable s)(f := g (ftable s f))\<rparr>)"

definition upd_pipe :: "uint \<Rightarrow> (pipe \<Rightarrow> pipe) \<Rightarrow> ('a kfile_scheme, unit) K" where
  "upd_pipe p g = kmod (\<lambda>s. s\<lparr>pipes := (pipes s)(p := g (pipes s p))\<rparr>)"

abbreviation pipe_lock :: "uint \<Rightarrow> lock" where "pipe_lock p \<equiv> L_pipe (unat p)"
abbreviation chan_nread :: "uint \<Rightarrow> chan" where "chan_nread p \<equiv> ChPipeRead (unat p)"
abbreviation chan_nwrite :: "uint \<Rightarrow> chan" where "chan_nwrite p \<equiv> ChPipeWrite (unat p)"

section \<open>The file table\<close>

definition fileinit :: "('a kfile_scheme, unit) K" where
  "fileinit = lock_init L_ftable"

definition filealloc :: "('a kfile_scheme, nat option) K" where
  "filealloc =
     kseq (acquire L_ftable) (
     kbind (kget (\<lambda>s. find (\<lambda>f. f_ref (ftable s f) = 0) [0..<NFILE])) (\<lambda>r. case r of
       Some f \<Rightarrow>
         kseq (upd_file f (\<lambda>x. x\<lparr>f_ref := 1\<rparr>)) (
         kseq (release L_ftable) (kret (Some f)))
     | None \<Rightarrow> kseq (release L_ftable) (kret None)))"

definition filedup :: "nat \<Rightarrow> ('a kfile_scheme, nat) K" where
  "filedup f =
     kseq (acquire L_ftable) (
     kbind (kget (\<lambda>s. f_ref (ftable s f))) (\<lambda>r.
       if r < 1 then kpanic ''filedup''
       else
         kseq (upd_file f (\<lambda>x. x\<lparr>f_ref := f_ref x + 1\<rparr>)) (
         kseq (release L_ftable) (kret f))))"

section \<open>Pipes\<close>

definition pipeclose :: "uint \<Rightarrow> bool \<Rightarrow> ('a kfile_scheme, unit) K" where
  "pipeclose p writable =
     kseq (acquire (pipe_lock p)) (
     kseq (if writable then
             kseq (upd_pipe p (\<lambda>x. x\<lparr>pi_writeopen := False\<rparr>)) (wakeup (chan_nread p))
           else
             kseq (upd_pipe p (\<lambda>x. x\<lparr>pi_readopen := False\<rparr>)) (wakeup (chan_nwrite p))) (
     kbind (kget (\<lambda>s. \<not> pi_readopen (pipes s p) \<and> \<not> pi_writeopen (pipes s p))) (\<lambda>closed.
       if closed then kseq (release (pipe_lock p)) (kfree p)
       else release (pipe_lock p))))"

text \<open>One byte into the ring and one byte out of it.\<close>

definition pipe_put :: "uchar \<Rightarrow> pipe \<Rightarrow> pipe" where
  "pipe_put c x = x\<lparr>pi_data := (pi_data x)(unat (pi_nwrite x) mod PIPESIZE := c),
     pi_nwrite := pi_nwrite x + 1\<rparr>"

definition pipe_get :: "pipe \<Rightarrow> uchar \<times> pipe" where
  "pipe_get x = (pi_data x (unat (pi_nread x) mod PIPESIZE), x\<lparr>pi_nread := pi_nread x + 1\<rparr>)"

definition pipe_full :: "pipe \<Rightarrow> bool" where
  "pipe_full x \<longleftrightarrow> pi_nwrite x = pi_nread x + of_nat PIPESIZE"

definition pipe_empty :: "pipe \<Rightarrow> bool" where
  "pipe_empty x \<longleftrightarrow> pi_nread x = pi_nwrite x"

text \<open>
  \<open>pipewrite\<close> from its loop on, with \<open>k\<close> of \<open>n\<close> bytes still to write. A writer that finds the
  pipe full wakes the readers, sleeps, and comes back to the same byte.
\<close>

fun pipewrite_loop :: "uint \<Rightarrow> bytes \<Rightarrow> int \<Rightarrow> nat \<Rightarrow> ('a kfile_scheme, int) K" where
  "pipewrite_loop p src n 0 =
     kseq (wakeup (chan_nread p)) (kseq (release (pipe_lock p)) (kret n))"
| "pipewrite_loop p src n (Suc k) =
     kbind (kget (\<lambda>s. pipes s p)) (\<lambda>x.
       if pipe_full x then
         kbind cur_proc (\<lambda>i.
         kbind (kget (\<lambda>s. p_killed (ptable s i))) (\<lambda>killed.
           if \<not> pi_readopen x \<or> killed then kseq (release (pipe_lock p)) (kret (- 1))
           else kseq (wakeup (chan_nread p)) (sleep (chan_nwrite p) (pipe_lock p))))
       else
         kseq (upd_pipe p (pipe_put (src (nat n - Suc k)))) (
         pipewrite_loop p src n k))"

definition pipewrite :: "uint \<Rightarrow> bytes \<Rightarrow> int \<Rightarrow> ('a kfile_scheme, int) K" where
  "pipewrite p src n = kseq (acquire (pipe_lock p)) (pipewrite_loop p src n (nat n))"

definition pipewrite_resume :: "uint \<Rightarrow> bytes \<Rightarrow> int \<Rightarrow> nat \<Rightarrow> ('a kfile_scheme, int) K" where
  "pipewrite_resume p src n k = kseq (sleep_resume (pipe_lock p)) (pipewrite_loop p src n k)"

text \<open>The copying loop of \<open>piperead\<close>, with \<open>k\<close> bytes still wanted and \<open>i\<close> copied.\<close>

fun piperead_copy :: "uint \<Rightarrow> bytes \<Rightarrow> nat \<Rightarrow> nat \<Rightarrow> ('a kfile_scheme, int \<times> bytes) K" where
  "piperead_copy p dst i 0 = kret (int i, dst)"
| "piperead_copy p dst i (Suc k) =
     kbind (kget (\<lambda>s. pipes s p)) (\<lambda>x.
       if pipe_empty x then kret (int i, dst)
       else
         kseq (upd_pipe p (\<lambda>x. snd (pipe_get x))) (
         piperead_copy p (dst(i := fst (pipe_get x))) (i + 1) k))"

definition piperead_loop :: "uint \<Rightarrow> bytes \<Rightarrow> int \<Rightarrow> ('a kfile_scheme, int \<times> bytes) K" where
  "piperead_loop p dst n =
     kbind (kget (\<lambda>s. pipes s p)) (\<lambda>x.
       if pipe_empty x \<and> pi_writeopen x then
         kbind cur_proc (\<lambda>i.
         kbind (kget (\<lambda>s. p_killed (ptable s i))) (\<lambda>killed.
           if killed then kseq (release (pipe_lock p)) (kret (- 1, dst))
           else sleep (chan_nread p) (pipe_lock p)))
       else
         kbind (piperead_copy p dst 0 (nat n)) (\<lambda>r.
         kseq (wakeup (chan_nwrite p)) (
         kseq (release (pipe_lock p)) (
         kret r))))"

definition piperead :: "uint \<Rightarrow> bytes \<Rightarrow> int \<Rightarrow> ('a kfile_scheme, int \<times> bytes) K" where
  "piperead p dst n = kseq (acquire (pipe_lock p)) (piperead_loop p dst n)"

definition piperead_resume :: "uint \<Rightarrow> bytes \<Rightarrow> int \<Rightarrow> ('a kfile_scheme, int \<times> bytes) K" where
  "piperead_resume p dst n = kseq (sleep_resume (pipe_lock p)) (piperead_loop p dst n)"

section \<open>Operations on open files\<close>

text \<open>\<open>f->ip\<close>, dereferenced unchecked.\<close>

definition file_ip :: "nat \<Rightarrow> ('a kfile_scheme, nat) K" where
  "file_ip f = (\<lambda>s. case f_ip (ftable s f) of Some ip \<Rightarrow> Done ip s | None \<Rightarrow> Panic ''trap'')"

definition fileclose :: "nat \<Rightarrow> ('a kfile_scheme, unit) K" where
  "fileclose f =
     kseq (acquire L_ftable) (
     kbind (kget (\<lambda>s. f_ref (ftable s f))) (\<lambda>r.
       if r < 1 then kpanic ''fileclose''
       else
         kseq (upd_file f (\<lambda>x. x\<lparr>f_ref := f_ref x - 1\<rparr>)) (
         if r - 1 > 0 then release L_ftable
         else
           kbind (kget (\<lambda>s. ftable s f)) (\<lambda>ff.
           kseq (upd_file f (\<lambda>x. x\<lparr>f_ref := 0, f_type := FD_NONE\<rparr>)) (
           kseq (release L_ftable) (
           case f_type ff of
             FD_PIPE \<Rightarrow> pipeclose (f_pipe ff) (f_writable ff)
           | FD_INODE \<Rightarrow> (case f_ip ff of Some ip \<Rightarrow> iput ip | None \<Rightarrow> kpanic ''trap'')
           | FD_NONE \<Rightarrow> kret ()))))))"

definition filestat :: "nat \<Rightarrow> ('a kfile_scheme, stat option) K" where
  "filestat f =
     kbind (kget (\<lambda>s. f_type (ftable s f))) (\<lambda>ty.
       if ty = FD_INODE then
         kbind (file_ip f) (\<lambda>ip.
         kseq (ilock ip) (
         kbind (kget (\<lambda>s. stati (inodes s ip))) (\<lambda>st.
         kseq (iunlock ip) (kret (Some st)))))
       else kret None)"

definition fileread :: "nat \<Rightarrow> bytes \<Rightarrow> int \<Rightarrow> ('a kfile_scheme, int \<times> bytes) K" where
  "fileread f dst n =
     kbind (kget (\<lambda>s. ftable s f)) (\<lambda>x.
       if \<not> f_readable x then kret (- 1, dst)
       else case f_type x of
         FD_PIPE \<Rightarrow> piperead (f_pipe x) dst n
       | FD_INODE \<Rightarrow>
           kbind (file_ip f) (\<lambda>ip.
           kseq (ilock ip) (
           kbind (kget (\<lambda>s. f_off (ftable s f))) (\<lambda>off.
           kbind (readi devsw ip dst off (of_int n)) (\<lambda>(r, dst').
           kseq (kwhen (r > 0) (upd_file f (\<lambda>x. x\<lparr>f_off := f_off x + of_int r\<rparr>))) (
           kseq (iunlock ip) (kret (r, dst')))))))
       | FD_NONE \<Rightarrow> kpanic ''fileread'')"

definition filewrite :: "nat \<Rightarrow> bytes \<Rightarrow> int \<Rightarrow> ('a kfile_scheme, int) K" where
  "filewrite f src n =
     kbind (kget (\<lambda>s. ftable s f)) (\<lambda>x.
       if \<not> f_writable x then kret (- 1)
       else case f_type x of
         FD_PIPE \<Rightarrow> pipewrite (f_pipe x) src n
       | FD_INODE \<Rightarrow>
           kbind (file_ip f) (\<lambda>ip.
           kseq (ilock ip) (
           kbind (kget (\<lambda>s. f_off (ftable s f))) (\<lambda>off.
           kbind (writei devsw ip src off (of_int n)) (\<lambda>r.
           kseq (kwhen (r > 0) (upd_file f (\<lambda>x. x\<lparr>f_off := f_off x + of_int r\<rparr>))) (
           kseq (iunlock ip) (kret r))))))
       | FD_NONE \<Rightarrow> kpanic ''filewrite'')"

text \<open>The two ends of a new pipe, or \<open>None\<close> with everything given back.\<close>

definition pipealloc :: "('a kfile_scheme, (nat \<times> nat) option) K" where
  "pipealloc =
     kbind filealloc (\<lambda>r0. case r0 of
       None \<Rightarrow> kret None
     | Some f0 \<Rightarrow>
         kbind filealloc (\<lambda>r1. case r1 of
           None \<Rightarrow> kseq (fileclose f0) (kret None)
         | Some f1 \<Rightarrow>
             kbind kalloc (\<lambda>p.
               if p = 0 then kseq (fileclose f0) (kseq (fileclose f1) (kret None))
               else
                 kseq (upd_pipe p (\<lambda>x. x\<lparr>pi_readopen := True, pi_writeopen := True, pi_nwrite := 0, pi_nread := 0\<rparr>)) (
                 kseq (lock_init (pipe_lock p)) (
                 kseq (upd_file f0 (\<lambda>x. x\<lparr>f_type := FD_PIPE, f_readable := True, f_writable := False, f_pipe := p\<rparr>)) (
                 kseq (upd_file f1 (\<lambda>x. x\<lparr>f_type := FD_PIPE, f_readable := False, f_writable := True, f_pipe := p\<rparr>)) (
                 kret (Some (f0, f1)))))))))"

end
