(* ===== verification/Tags.thy ===== *)
theory Tags
  imports File
begin

text \<open>
  File tags (\<open>kernel/fs.c\<close>, \<open>searchKey\<close> to \<open>getFilesByTag\<close>). The tags of a file are one disk
  block of sixteen 32-byte slots: a key of at most 9 bytes with its NUL in 10 bytes, a value
  of at most 18 bytes. A key is the list of its bytes before the NUL, \<open>None\<close> for a null
  pointer; values and buffers are byte objects. The messages the code prints are kept.
\<close>

section \<open>Slots\<close>

text \<open>
  The comparison of \<open>searchKey\<close> at slot \<open>i\<close> from byte \<open>j\<close> on, \<open>k\<close> bytes before its limit.
\<close>

fun key_match :: "bytes \<Rightarrow> nat \<Rightarrow> bytes \<Rightarrow> nat \<Rightarrow> nat \<Rightarrow> nat \<Rightarrow> bool" where
  "key_match key len str i j 0 = False"
| "key_match key len str i j (Suc k) =
     (if i + j < 512 \<and> key j = str (i + j) then
        if j = len \<and> key j = 0 \<and> str (i + j) = 0 then True
        else key_match key len str i (j + 1) k
      else False)"

definition slots :: "nat list" where
  "slots = map (\<lambda>k. 32 * k) [0..<16]"

definition key_pos :: "uchar list \<Rightarrow> bytes \<Rightarrow> nat option" where
  "key_pos key str = find (\<lambda>i. key_match (str_obj key) (length key) str i 0 10) slots"

definition searchKey :: "uchar list \<Rightarrow> bytes \<Rightarrow> ('a kcons_scheme, nat option) K" where
  "searchKey key str = (case key_pos key str of
       Some i \<Rightarrow> kseq (cprintf (''found key'' @ NL @ NL) []) (kret (Some i))
     | None \<Rightarrow> kret None)"

definition searchEnd :: "bytes \<Rightarrow> nat option" where
  "searchEnd str = find (\<lambda>i. str i = 0) slots"

text \<open>What \<open>tagFile\<close> writes: a new slot, or a new value in the slot of the key.\<close>

definition new_slot :: "uchar list \<Rightarrow> bytes \<Rightarrow> nat \<Rightarrow> nat \<Rightarrow> bytes \<Rightarrow> bytes" where
  "new_slot key value vlen i d =
     memmove_obj (memmove_obj (memset d i 0 28) i (str_obj key) 0 (length key)) (i + 10) value 0 vlen"

definition new_value :: "bytes \<Rightarrow> nat \<Rightarrow> nat \<Rightarrow> bytes \<Rightarrow> bytes" where
  "new_value value vlen i d = memmove_obj (memset d (i + 10) 0 18) (i + 10) value 0 vlen"

section \<open>Operations on an open file\<close>

text \<open>
  The checks on the descriptor: the open file of the running process, and the inode it names
  if the access is allowed.
\<close>

datatype tag_target = BadFd | BadFile | TagInode nat

definition tag_file :: "int \<Rightarrow> (struct_file \<Rightarrow> bool) \<Rightarrow> ('a kfile_scheme, tag_target) K" where
  "tag_file fd allowed =
     (if fd < 0 \<or> fd \<ge> int NOFILE then kret BadFd
      else
        kbind cur_proc (\<lambda>i.
        kbind (kget (\<lambda>s. p_ofile (ptable s i) (nat fd))) (\<lambda>r. case r of
          None \<Rightarrow> kret BadFd
        | Some f \<Rightarrow>
            kbind (kget (\<lambda>s. ftable s f)) (\<lambda>x.
              if f_type x \<noteq> FD_INODE \<or> \<not> allowed x then kret BadFile
              else kret (case f_ip x of None \<Rightarrow> BadFile | Some ip \<Rightarrow> TagInode ip)))))"

definition bad_key :: "uchar list option \<Rightarrow> bool" where
  "bad_key key \<longleftrightarrow> (case key of None \<Rightarrow> True | Some k \<Rightarrow> length k < 1 \<or> length k > 9)"

definition key_msg :: "uchar list option \<Rightarrow> string" where
  "key_msg key = (case key of None \<Rightarrow> ''where is my fucking key''
     | Some k \<Rightarrow> if length k < 1 then ''key input short'' else ''key input long'')"

definition tag_write :: "nat \<Rightarrow> uchar list \<Rightarrow> bytes \<Rightarrow> nat \<Rightarrow> nat \<Rightarrow> ('a kfile_scheme, int) K" where
  "tag_write ip key value vlen b =
     kbind (get_data b) (\<lambda>str.
     kbind (searchKey key str) (\<lambda>kpos.
       case kpos of
         None \<Rightarrow>
           (case searchEnd str of
              None \<Rightarrow>
                kseq (brelse b) (
                kseq (iunlock ip) (
                kseq (cprintf (''no more space'' @ NL) []) (
                kret (- 1))))
            | Some i \<Rightarrow>
                kseq (cprintf (''endPosition for creating new: %x'' @ NL) [VInt (of_nat i)]) (
                kseq (upd_data b (new_slot key value vlen i)) (
                kseq (bwrite b) (
                kseq (brelse b) (
                kseq (iunlock ip) (
                kret 1))))))
       | Some i \<Rightarrow>
           kseq (cprintf (''keyPosition for updating: %x'' @ NL)
             [VInt (case searchEnd str of Some e \<Rightarrow> of_nat e | None \<Rightarrow> - 1)]) (
           kseq (upd_data b (new_value value vlen i)) (
           kseq (bwrite b) (
           kseq (brelse b) (
           kseq (iunlock ip) (
           kret 1)))))))"

text \<open>The tag block is allocated the first time it is needed.\<close>

definition tag_block :: "nat \<Rightarrow> bool \<Rightarrow> ('a kfile_scheme, nat) K" where
  "tag_block ip msg =
     kbind (kget (\<lambda>s. inodes s ip)) (\<lambda>p.
     kseq (kwhen (i_tags p = 0) (
       kseq (kwhen msg (cprintf (''allocating since first time'' @ NL) [])) (
       kbind (balloc (i_dev p)) (\<lambda>a.
       upd_inode ip (\<lambda>p. p\<lparr>i_tags := a\<rparr>))))) (
     kbind (kget (\<lambda>s. i_tags (inodes s ip))) (\<lambda>a.
     bread (i_dev p) a)))"

definition tagFile :: "int \<Rightarrow> uchar list option \<Rightarrow> bytes option \<Rightarrow> int \<Rightarrow> ('a kfile_scheme, int) K" where
  "tagFile fd key value vlen =
     kbind (tag_file fd f_writable) (\<lambda>r. case r of
       BadFd \<Rightarrow> kret (- 1)
     | BadFile \<Rightarrow> kret (- 1)
     | TagInode ip \<Rightarrow>
         if bad_key key then kret (- 1)
         else (case value of
           None \<Rightarrow> kret (- 1)
         | Some v \<Rightarrow>
             if vlen < 0 \<or> vlen > 18 then kret (- 1)
             else
               kseq (ilock ip) (
               kbind (tag_block ip True) (\<lambda>b.
               tag_write ip (the key) v (nat vlen) b))))"

definition removeFileTag :: "int \<Rightarrow> uchar list option \<Rightarrow> ('a kfile_scheme, int) K" where
  "removeFileTag fd key =
     kbind (tag_file fd f_writable) (\<lambda>r. case r of
       BadFd \<Rightarrow> kret (- 1)
     | BadFile \<Rightarrow> kret (- 1)
     | TagInode ip \<Rightarrow>
         kbind (kget (\<lambda>s. inodes s ip)) (\<lambda>p.
           if i_tags p = 0 \<or> bad_key key then kret (- 1)
           else
             kseq (ilock ip) (
             kbind (kget (\<lambda>s. inodes s ip)) (\<lambda>p.
             kbind (bread (i_dev p) (i_tags p)) (\<lambda>b.
             kbind (get_data b) (\<lambda>str.
             kbind (searchKey (the key) str) (\<lambda>kpos. case kpos of
               None \<Rightarrow> kseq (brelse b) (kseq (iunlock ip) (kret (- 1)))
             | Some i \<Rightarrow>
                 kseq (upd_data b (\<lambda>d. memset d i 0 28)) (
                 kseq (bwrite b) (
                 kseq (brelse b) (
                 kseq (iunlock ip) (
                 kret 1)))))))))))"

text \<open>The length \<open>getFileTag\<close> settles on: at least \<open>length\<close>, at most 18, up to the first NUL.\<close>

fun tag_len :: "bytes \<Rightarrow> int \<Rightarrow> nat \<Rightarrow> nat \<Rightarrow> nat" where
  "tag_len v len i 0 = i"
| "tag_len v len i (Suc k) = (if int i < len \<or> v i \<noteq> 0 then tag_len v len (i + 1) k else i)"

definition getFileTag :: "int \<Rightarrow> uchar list option \<Rightarrow> bytes \<Rightarrow> int \<Rightarrow> ('a kfile_scheme, int \<times> bytes) K" where
  "getFileTag fd key buffer len =
     kbind (tag_file fd f_writable) (\<lambda>r. case r of
       BadFd \<Rightarrow> kseq (cprintf (''file descriptor is invalid'' @ NL) []) (kret (- 1, buffer))
     | BadFile \<Rightarrow> kseq (cprintf (''file is invalid'' @ NL) []) (kret (- 1, buffer))
     | TagInode ip \<Rightarrow>
         if bad_key key then kseq (cprintf (key_msg key @ NL) []) (kret (- 1, buffer))
         else
           kseq (ilock ip) (
           kbind (kget (\<lambda>s. inodes s ip)) (\<lambda>p.
             if i_tags p = 0 then
               kseq (cprintf (''tag not allocated yet'' @ NL) []) (kseq (iunlock ip) (kret (- 1, buffer)))
             else
               kbind (bread (i_dev p) (i_tags p)) (\<lambda>b.
               kbind (get_data b) (\<lambda>str.
               kbind (searchKey (the key) str) (\<lambda>kpos.
               kseq (cprintf (''keyPosition is: %d'' @ NL)
                 [VInt (case kpos of Some i \<Rightarrow> of_nat i | None \<Rightarrow> - 1)]) (
               case kpos of
                 None \<Rightarrow>
                   kseq (cprintf (''key not found'' @ NL) []) (
                   kseq (brelse b) (kseq (iunlock ip) (kret (- 1, buffer))))
               | Some i \<Rightarrow>
                   let v = (\<lambda>j. str (i + 10 + j)); n = tag_len v len 0 18
                   in if int n > len then
                        kseq (cprintf (''%d'' @ NL) [VInt (of_nat n)]) (
                        kseq (cprintf (''error'' @ NL) []) (
                        kseq (brelse b) (kseq (iunlock ip) (kret (int n, buffer)))))
                      else
                        kseq (cprintf (''position of start: %x'' @ NL) [VInt (of_nat i)]) (
                        kseq (brelse b) (
                        kseq (iunlock ip) (
                        kret (int n, memmove_obj buffer 0 str (i + 10) n)))))))))))"

text \<open>
  \<open>getAllTags\<close> works on a copy of the tag block. \<open>keys\<close> is the caller's array of 10-byte keys,
  null as \<open>None\<close>; the result is the number of tags, or -1 when they are more than \<open>max\<close>.
\<close>

fun copy_keys :: "bytes \<Rightarrow> int \<Rightarrow> nat list \<Rightarrow> nat \<Rightarrow> bytes \<Rightarrow> ('a kfile_scheme, int \<times> bytes) K" where
  "copy_keys str maxTag [] n keys = kret (int n, keys)"
| "copy_keys str maxTag (i # is) n keys =
     (if str i = 0 then copy_keys str maxTag is n keys
      else if maxTag \<le> int n then kret (- 1, keys)
      else (case strlen (\<lambda>j. str (i + j)) of
          None \<Rightarrow> kspin
        | Some len \<Rightarrow>
            let keys' = memmove_obj keys (10 * n) str i (len + 1)
            in kseq (cprintf (''key is:%s'' @ NL) [VStr (Some (str_at (\<lambda>j. str (i + j)) len))]) (
               kseq (cprintf (''key length:%x'' @ NL) [VInt (of_nat len)]) (
               kseq (cprintf (''copied key is: %s at keys[%d]'' @ NL)
                 [VStr (Some (str_at (\<lambda>j. keys' (10 * n + j)) len)), VInt (of_nat n)]) (
               copy_keys str maxTag is (n + 1) keys')))))"

definition getAllTags :: "int \<Rightarrow> bytes option \<Rightarrow> int \<Rightarrow> ('a kfile_scheme, int \<times> bytes option) K" where
  "getAllTags fd keys maxTag =
     kbind (tag_file fd f_readable) (\<lambda>r. case r of
       BadFd \<Rightarrow> kret (- 1, keys)
     | BadFile \<Rightarrow> kret (- 1, keys)
     | TagInode ip \<Rightarrow>
         (case keys of
            None \<Rightarrow> kret (- 1, keys)
          | Some ks \<Rightarrow>
              if maxTag < 0 then kret (- 1, keys)
              else
                kseq (ilock ip) (
                kbind (tag_block ip False) (\<lambda>b.
                kbind (get_data b) (\<lambda>str.
                kseq (brelse b) (
                kseq (iunlock ip) (
                kbind (copy_keys str maxTag slots 0 ks) (\<lambda>(n, ks').
                kret (n, Some ks')))))))))"

section \<open>Finding files\<close>

text \<open>The number of bytes of an array before its trailing zeros.\<close>

fun strip_len :: "bytes \<Rightarrow> nat \<Rightarrow> nat" where
  "strip_len v 0 = 0"
| "strip_len v (Suc n) = (if v n = 0 then strip_len v n else Suc n)"

text \<open>Whether the tag at \<open>pos\<close> has the value asked for.\<close>

definition value_eq :: "bytes \<Rightarrow> nat \<Rightarrow> bytes \<Rightarrow> int \<Rightarrow> bool" where
  "value_eq str pos value vlen \<longleftrightarrow>
     (let v = (\<lambda>j. str (pos + 10 + j))
      in int (strip_len v 18) = vlen \<and> (\<forall>j\<in>set [0..<nat vlen]. v j = value j))"

text \<open>
  The name of a file goes behind the names already in \<open>results\<close>, with a NUL between them.
  The result is \<open>None\<close> when there is not enough room.
\<close>

definition result_pos :: "bytes \<Rightarrow> int \<Rightarrow> int" where
  "result_pos results rlen =
     (let k = (if rlen < 0 then rlen else int (strip_len results (nat rlen)))
      in if k \<noteq> 0 then k + 1 else k)"

definition put_name :: "bytes \<Rightarrow> nat \<Rightarrow> bytes \<Rightarrow> int \<Rightarrow> bytes option" where
  "put_name name len results rlen =
     (let k = result_pos results rlen
      in if rlen - k \<ge> int len then
           Some ((memmove_obj results (nat k) name 0 (len + 1))(nat k + len := 0))
         else None)"

text \<open>
  The entries \<open>es\<close> of one directory block in buffer \<open>b\<close>. The result is the count, or \<open>None\<close>
  for the early return with the block given back.
\<close>

fun byTag_entries :: "uchar list \<Rightarrow> bytes \<Rightarrow> int \<Rightarrow> int \<Rightarrow> uint \<Rightarrow> nat \<Rightarrow> nat list \<Rightarrow> int \<Rightarrow> bytes
    \<Rightarrow> ('a kfile_scheme, int option \<times> bytes) K" where
  "byTag_entries key value vlen rlen dev b [] count results = kret (Some count, results)"
| "byTag_entries key value vlen rlen dev b (e # es) count results =
     kbind (get_data b) (\<lambda>d.
       if de_inum d e = 0 then byTag_entries key value vlen rlen dev b es count results
       else
         kbind (iget dev (ucast (de_inum d e))) (\<lambda>ip.
         kbind (kget (\<lambda>s. i_tags (inodes s ip))) (\<lambda>tags.
           if tags = 0 then byTag_entries key value vlen rlen dev b es count results
           else
             kbind (bread dev tags) (\<lambda>tb.
             kbind (get_data tb) (\<lambda>str.
             kseq (brelse tb) (
             kbind (searchKey key str) (\<lambda>kpos. case kpos of
               None \<Rightarrow> byTag_entries key value vlen rlen dev b es count results
             | Some pos \<Rightarrow>
                 if value_eq str pos value vlen then
                   (case strlen (de_name d e) of
                      None \<Rightarrow> kspin
                    | Some len \<Rightarrow>
                        kseq (cprintf (''found file name is: %s'' @ NL @ NL) [VStr (Some (str_at (de_name d e) len))]) (
                        kseq (cprintf (''file name length is: %d'' @ NL) [VInt (of_nat len)]) (
                        (case put_name (de_name d e) len results rlen of
                           Some results' \<Rightarrow>
                             kseq (cprintf (''copied and is: %s'' @ NL) [VStr (Some (str_at (de_name d e) len))]) (
                             byTag_entries key value vlen rlen dev b es (count + 1) results')
                         | None \<Rightarrow>
                             kseq (cprintf ''not enough room'' []) (
                             kseq (brelse b) (
                             kret (None, results)))))))
                 else byTag_entries key value vlen rlen dev b es count results)))))))"

function byTag_loop :: "uchar list \<Rightarrow> bytes \<Rightarrow> int \<Rightarrow> int \<Rightarrow> nat \<Rightarrow> nat \<Rightarrow> nat \<Rightarrow> int \<Rightarrow> bytes
    \<Rightarrow> ('a kfile_scheme, int \<times> bytes) K" where
  "byTag_loop key value vlen rlen root sz off count results =
     (if off < sz then
        kbind (bmap root (off div 512)) (\<lambda>a.
        kbind (kget (\<lambda>s. i_dev (inodes s root))) (\<lambda>dev.
        kbind (bread dev a) (\<lambda>b.
        kbind (byTag_entries key value vlen rlen dev b [0..<32] count results) (\<lambda>(r, results'). case r of
          None \<Rightarrow> kret (- 1, results')
        | Some count' \<Rightarrow>
            kseq (brelse b) (
            byTag_loop key value vlen rlen root sz (off + 512) count' results')))))
      else kret (count, results))"
  by pat_completeness auto
termination
  by (relation "measure (\<lambda>(key, value, vlen, rlen, root, sz, off, count, results). sz - off)") auto

declare byTag_loop.simps [simp del]

definition getFilesByTag :: "uchar list \<Rightarrow> bytes \<Rightarrow> int \<Rightarrow> bytes \<Rightarrow> int \<Rightarrow> ('a kfile_scheme, int \<times> bytes) K" where
  "getFilesByTag key value vlen results rlen =
     kbind (iget ROOTDEV ROOTINO) (\<lambda>root.
     kbind (kget (\<lambda>s. unat (i_size (inodes s root)))) (\<lambda>sz.
     byTag_loop key value vlen rlen root sz 0 0 results))"

end
