(* ===== verification/Vm.thy ===== *)
theory Vm
  imports Tags
begin

text \<open>
  Virtual memory (\<open>kernel/vm.c\<close> with the macros of \<open>kernel/mmu.h\<close>). Page directories and page
  tables are in physical memory (\<open>phys\<close>), which the kernel sees at the same addresses. The
  state has the registers the code loads (\<open>cr3\<close>, the paging bit, the stack pointer of the
  task state) and \<open>kpgdir\<close>; \<open>kdata\<close> is the linker's symbol \<open>data\<close>, \<open>ktrapret\<close> and \<open>kforkret\<close>
  the addresses of the two assembly entry points. \<open>vtop\<close> is the translation the hardware does.
\<close>

abbreviation USERTOP :: uint where "USERTOP \<equiv> 0xA0000"
abbreviation PTE_P :: uint where "PTE_P \<equiv> 1"
abbreviation PTE_W :: uint where "PTE_W \<equiv> 2"
abbreviation PTE_U :: uint where "PTE_U \<equiv> 4"
abbreviation NPDENTRIES :: nat where "NPDENTRIES \<equiv> 1024"

record kvm = kfile +
  kpgdir :: uint
  cr3 :: uint
  paging :: bool
  ts_esp0 :: uint
  kdata :: uint
  ktrapret :: uint
  kforkret :: uint

definition PDX :: "uint \<Rightarrow> uint" where
  "PDX la = drop_bit 22 la AND 0x3FF"

definition PTX :: "uint \<Rightarrow> uint" where
  "PTX la = drop_bit 12 la AND 0x3FF"

definition PTE_ADDR :: "uint \<Rightarrow> uint" where
  "PTE_ADDR pte = pte AND NOT 0xFFF"

section \<open>Page tables\<close>

definition walkpgdir :: "uint \<Rightarrow> uint \<Rightarrow> bool \<Rightarrow> ('a kmem_scheme, uint option) K" where
  "walkpgdir pgdir va create =
     kbind (mem_rd32 (pgdir + 4 * PDX va)) (\<lambda>pde.
       if pde AND PTE_P \<noteq> 0 then kret (Some (PTE_ADDR pde + 4 * PTX va))
       else if \<not> create then kret None
       else
         kbind kalloc (\<lambda>pgtab.
           if pgtab = 0 then kret None
           else
             kseq (mem_memset pgtab 0 4096) (
             kseq (mem_wr32 (pgdir + 4 * PDX va) (pgtab OR PTE_P OR PTE_W OR PTE_U)) (
             kret (Some (pgtab + 4 * PTX va))))))"

text \<open>
  \<open>mappages\<close> from its loop on. Both \<open>a\<close> and \<open>lst\<close> are multiples of the page size, so that less
  than a page between them means that they are equal.
\<close>

function mappages_loop :: "uint \<Rightarrow> uint \<Rightarrow> uint \<Rightarrow> uint \<Rightarrow> uint \<Rightarrow> ('a kmem_scheme, int) K" where
  "mappages_loop pgdir lst a pa perm =
     kbind (walkpgdir pgdir a True) (\<lambda>r. case r of
       None \<Rightarrow> kret (- 1)
     | Some pte \<Rightarrow>
         kbind (mem_rd32 pte) (\<lambda>v.
           if v AND PTE_P \<noteq> 0 then kpanic ''remap''
           else
             kseq (mem_wr32 pte (pa OR perm OR PTE_P)) (
             if unat (lst - a) < 4096 then kret 0
             else mappages_loop pgdir lst (a + PGSIZE) (pa + PGSIZE) perm)))"
  by pat_completeness auto
termination
proof (relation "measure (\<lambda>(pgdir, lst, a, pa, perm). unat (lst - a))")
  fix lst a :: uint and pgdir pa perm :: uint
  assume "\<not> unat (lst - a) < 4096"
  then have "unat (lst - a - 4096) = unat (lst - a) - 4096"
    by (subst unat_sub) (simp_all add: word_le_nat_alt)
  then have "unat (lst - (a + PGSIZE)) < unat (lst - a)"
    using \<open>\<not> unat (lst - a) < 4096\<close> by (simp add: diff_diff_eq)
  then show "((pgdir, lst, a + PGSIZE, pa + PGSIZE, perm), (pgdir, lst, a, pa, perm))
      \<in> measure (\<lambda>(pgdir, lst, a, pa, perm). unat (lst - a))"
    by simp
qed simp

declare mappages_loop.simps [simp del]

definition mappages :: "uint \<Rightarrow> uint \<Rightarrow> uint \<Rightarrow> uint \<Rightarrow> uint \<Rightarrow> ('a kmem_scheme, int) K" where
  "mappages pgdir la sz pa perm =
     mappages_loop pgdir (PGROUNDDOWN (la + sz - 1)) (PGROUNDDOWN la) pa perm"

text \<open>The kernel's part of every page table: start, end and permissions of each region.\<close>

definition kmap :: "uint \<Rightarrow> (uint \<times> uint \<times> uint) list" where
  "kmap data = [(USERTOP, 0x100000, PTE_W), (0x100000, data, 0), (data, PHYSTOP, PTE_W),
     (0xFE000000, 0, PTE_W)]"

fun map_regions :: "uint \<Rightarrow> (uint \<times> uint \<times> uint) list \<Rightarrow> ('a kmem_scheme, uint) K" where
  "map_regions pgdir [] = kret pgdir"
| "map_regions pgdir ((p, e, perm) # ks) =
     kbind (mappages pgdir p (e - p) p perm) (\<lambda>r.
       if r < 0 then kret 0 else map_regions pgdir ks)"

definition setupkvm :: "('a kvm_scheme, uint) K" where
  "setupkvm =
     kbind kalloc (\<lambda>pgdir.
       if pgdir = 0 then kret 0
       else
         kseq (mem_memset pgdir 0 4096) (
         kbind (kget kdata) (\<lambda>data. map_regions pgdir (kmap data))))"

definition kvmalloc :: "('a kvm_scheme, unit) K" where
  "kvmalloc = kbind setupkvm (\<lambda>d. kmod (\<lambda>s. s\<lparr>kpgdir := d\<rparr>))"

definition switchkvm :: "('a kvm_scheme, unit) K" where
  "switchkvm = kmod (\<lambda>s. s\<lparr>cr3 := kpgdir s\<rparr>)"

definition vmenable :: "('a kvm_scheme, unit) K" where
  "vmenable = kseq switchkvm (kmod (\<lambda>s. s\<lparr>paging := True\<rparr>))"

definition switchuvm :: "nat \<Rightarrow> ('a kvm_scheme, unit) K" where
  "switchuvm p =
     kbind cur_proc (\<lambda>i.
     kseq (kmod (\<lambda>s. s\<lparr>ts_esp0 := p_kstack (ptable s i) + KSTACKSIZE\<rparr>)) (
     kbind (kget (\<lambda>s. p_pgdir (ptable s p))) (\<lambda>d.
       if d = 0 then kpanic ''switchuvm: no pgdir''
       else kmod (\<lambda>s. s\<lparr>cr3 := d\<rparr>))))"

section \<open>Addresses as the hardware translates them\<close>

definition vtop :: "bytes \<Rightarrow> uint \<Rightarrow> uint \<Rightarrow> uint option" where
  "vtop m pgdir va =
     (let pde = rd32 m (unat (pgdir + 4 * PDX va)) in
      if pde AND PTE_P = 0 then None
      else
        let pte = rd32 m (unat (PTE_ADDR pde + 4 * PTX va)) in
        if pte AND PTE_P = 0 then None else Some (PTE_ADDR pte + (va AND 0xFFF)))"

text \<open>
  The kernel dereferences a pointer in the current address space; on an address that is not
  mapped it faults, and \<open>trap\<close> panics.
\<close>

definition va_rdb :: "uint \<Rightarrow> ('a kvm_scheme, uchar) K" where
  "va_rdb va = (\<lambda>s. case vtop (phys s) (cr3 s) va of
       Some a \<Rightarrow> Done (phys s (unat a)) s | None \<Rightarrow> Panic ''trap'')"

definition va_wrb :: "uint \<Rightarrow> uchar \<Rightarrow> ('a kvm_scheme, unit) K" where
  "va_wrb va c = (\<lambda>s. case vtop (phys s) (cr3 s) va of
       Some a \<Rightarrow> Done () (s\<lparr>phys := (phys s)(unat a := c)\<rparr>) | None \<Rightarrow> Panic ''trap'')"

definition va_rd32 :: "uint \<Rightarrow> ('a kvm_scheme, uint) K" where
  "va_rd32 va =
     kbind (va_rdb va) (\<lambda>b0. kbind (va_rdb (va + 1)) (\<lambda>b1.
     kbind (va_rdb (va + 2)) (\<lambda>b2. kbind (va_rdb (va + 3)) (\<lambda>b3.
     kret (rd32 (\<lambda>i. [b0, b1, b2, b3] ! i) 0)))))"

section \<open>User memory\<close>

text \<open>\<open>init\<close> holds the \<open>sz\<close> bytes to copy.\<close>

definition inituvm :: "uint \<Rightarrow> bytes \<Rightarrow> uint \<Rightarrow> ('a kvm_scheme, unit) K" where
  "inituvm pgdir init sz =
     (if sz \<ge> PGSIZE then kpanic ''inituvm: more than a page''
      else
        kbind kalloc (\<lambda>mem.
        kseq (mem_memset mem 0 4096) (
        kbind (mappages pgdir 0 PGSIZE mem (PTE_W OR PTE_U)) (\<lambda>_.
        kmod (\<lambda>s. s\<lparr>phys := memmove_obj (phys s) (unat mem) init 0 (unat sz)\<rparr>)))))"

text \<open>A loop over the pages from offset \<open>i\<close> on.\<close>

function loaduvm_loop :: "uint \<Rightarrow> uint \<Rightarrow> nat \<Rightarrow> uint \<Rightarrow> nat \<Rightarrow> nat \<Rightarrow> ('a kvm_scheme, int) K" where
  "loaduvm_loop pgdir addr ip offset sz i =
     (if i < sz then
        kbind (walkpgdir pgdir (addr + of_nat i) False) (\<lambda>r. case r of
          None \<Rightarrow> kpanic ''loaduvm: address should exist''
        | Some pte \<Rightarrow>
            kbind (mem_rd32 pte) (\<lambda>v.
            let pa = PTE_ADDR v; n = (if sz - i < 4096 then sz - i else 4096)
            in kbind (kget phys) (\<lambda>m.
               kbind (readi devsw ip (\<lambda>j. m (unat pa + j)) (offset + of_nat i) (of_nat n)) (\<lambda>(r, d).
               kseq (kmod (\<lambda>s. s\<lparr>phys := memmove_obj (phys s) (unat pa) d 0 n\<rparr>)) (
                 if of_int r \<noteq> (of_nat n :: uint) then kret (- 1)
                 else loaduvm_loop pgdir addr ip offset sz (i + 4096))))))
      else kret 0)"
  by pat_completeness auto
termination
  by (relation "measure (\<lambda>(pgdir, addr, ip, offset, sz, i). sz - i)") auto

declare loaduvm_loop.simps [simp del]

definition loaduvm :: "uint \<Rightarrow> uint \<Rightarrow> nat \<Rightarrow> uint \<Rightarrow> uint \<Rightarrow> ('a kvm_scheme, int) K" where
  "loaduvm pgdir addr ip offset sz =
     (if addr mod PGSIZE \<noteq> 0 then kpanic ''loaduvm: addr must be page aligned''
      else loaduvm_loop pgdir addr ip offset (unat sz) 0)"

function deallocuvm_loop :: "uint \<Rightarrow> nat \<Rightarrow> nat \<Rightarrow> ('a kmem_scheme, unit) K" where
  "deallocuvm_loop pgdir oldsz a =
     (if a < oldsz then
        kseq (kbind (walkpgdir pgdir (of_nat a) False) (\<lambda>r. case r of
            None \<Rightarrow> kret ()
          | Some pte \<Rightarrow>
              kbind (mem_rd32 pte) (\<lambda>v.
              kwhen (v AND PTE_P \<noteq> 0) (
                if PTE_ADDR v = 0 then kpanic ''kfree''
                else kseq (kfree (PTE_ADDR v)) (mem_wr32 pte 0))))) (
        deallocuvm_loop pgdir oldsz (a + 4096))
      else kret ())"
  by pat_completeness auto
termination
  by (relation "measure (\<lambda>(pgdir, oldsz, a). oldsz - a)") auto

declare deallocuvm_loop.simps [simp del]

definition deallocuvm :: "uint \<Rightarrow> uint \<Rightarrow> uint \<Rightarrow> ('a kmem_scheme, uint) K" where
  "deallocuvm pgdir oldsz newsz =
     (if newsz \<ge> oldsz then kret oldsz
      else kseq (deallocuvm_loop pgdir (unat oldsz) (unat (PGROUNDUP newsz))) (kret newsz))"

function allocuvm_loop :: "uint \<Rightarrow> uint \<Rightarrow> uint \<Rightarrow> nat \<Rightarrow> ('a kvm_scheme, uint) K" where
  "allocuvm_loop pgdir oldsz newsz a =
     (if a < unat newsz then
        kbind kalloc (\<lambda>mem.
          if mem = 0 then
            kseq (cprintf (''allocuvm out of memory'' @ NL) []) (
            kbind (deallocuvm pgdir newsz oldsz) (\<lambda>_.
            kret 0))
          else
            kseq (mem_memset mem 0 4096) (
            kbind (mappages pgdir (of_nat a) PGSIZE mem (PTE_W OR PTE_U)) (\<lambda>_.
            allocuvm_loop pgdir oldsz newsz (a + 4096))))
      else kret newsz)"
  by pat_completeness auto
termination
  by (relation "measure (\<lambda>(pgdir, oldsz, newsz, a). unat newsz - a)") auto

declare allocuvm_loop.simps [simp del]

definition allocuvm :: "uint \<Rightarrow> uint \<Rightarrow> uint \<Rightarrow> ('a kvm_scheme, uint) K" where
  "allocuvm pgdir oldsz newsz =
     (if newsz > USERTOP then kret 0
      else if newsz < oldsz then kret oldsz
      else allocuvm_loop pgdir oldsz newsz (unat (PGROUNDUP oldsz)))"

definition freevm :: "uint \<Rightarrow> ('a kmem_scheme, unit) K" where
  "freevm pgdir =
     (if pgdir = 0 then kpanic ''freevm: no pgdir''
      else
        kbind (deallocuvm pgdir USERTOP 0) (\<lambda>_.
        kseq (kforeach [0..<NPDENTRIES] (\<lambda>i.
          kbind (mem_rd32 (pgdir + 4 * of_nat i)) (\<lambda>pde.
          kwhen (pde AND PTE_P \<noteq> 0) (kfree (PTE_ADDR pde))))) (
        kfree pgdir)))"

function copyuvm_loop :: "uint \<Rightarrow> nat \<Rightarrow> uint \<Rightarrow> nat \<Rightarrow> ('a kvm_scheme, uint) K" where
  "copyuvm_loop pgdir sz d i =
     (if i < sz then
        kbind (walkpgdir pgdir (of_nat i) False) (\<lambda>r. case r of
          None \<Rightarrow> kpanic ''copyuvm: pte should exist''
        | Some pte \<Rightarrow>
            kbind (mem_rd32 pte) (\<lambda>v.
              if v AND PTE_P = 0 then kpanic ''copyuvm: page not present''
              else
                kbind kalloc (\<lambda>mem.
                  if mem = 0 then kseq (freevm d) (kret 0)
                  else
                    kseq (kmod (\<lambda>s. s\<lparr>phys := memmove (phys s) (unat mem) (unat (PTE_ADDR v)) 4096\<rparr>)) (
                    kbind (mappages d (of_nat i) PGSIZE mem (PTE_W OR PTE_U)) (\<lambda>r.
                      if r < 0 then kseq (freevm d) (kret 0)
                      else copyuvm_loop pgdir sz d (i + 4096))))))
      else kret d)"
  by pat_completeness auto
termination
  by (relation "measure (\<lambda>(pgdir, sz, d, i). sz - i)") auto

declare copyuvm_loop.simps [simp del]

definition copyuvm :: "uint \<Rightarrow> uint \<Rightarrow> ('a kvm_scheme, uint) K" where
  "copyuvm pgdir sz =
     kbind setupkvm (\<lambda>d. if d = 0 then kret 0 else copyuvm_loop pgdir (unat sz) d 0)"

text \<open>
  \<open>uva2ka\<close> does not test the pointer \<open>walkpgdir\<close> returns: without a page table it reads the
  word at address 0 of the current address space.
\<close>

definition uva2ka :: "uint \<Rightarrow> uint \<Rightarrow> ('a kvm_scheme, uint) K" where
  "uva2ka pgdir uva =
     kbind (walkpgdir pgdir uva False) (\<lambda>r.
     kbind (case r of Some pte \<Rightarrow> mem_rd32 pte | None \<Rightarrow> va_rd32 0) (\<lambda>v.
       if v AND PTE_P = 0 then kret 0
       else if v AND PTE_U = 0 then kret 0
       else kret (PTE_ADDR v)))"

function copyout_loop :: "uint \<Rightarrow> uint \<Rightarrow> bytes \<Rightarrow> nat \<Rightarrow> nat \<Rightarrow> ('a kvm_scheme, int) K" where
  "copyout_loop pgdir va p pos len =
     (if len > 0 then
        let va0 = PGROUNDDOWN va
        in kbind (uva2ka pgdir va0) (\<lambda>pa0.
             if pa0 = 0 then kret (- 1)
             else
               let n = min (4096 - unat va mod 4096) len
               in kseq (kmod (\<lambda>s. s\<lparr>phys := memmove_obj (phys s) (unat (pa0 + (va - va0))) p pos n\<rparr>)) (
                  copyout_loop pgdir (va0 + PGSIZE) p (pos + n) (len - n)))
      else kret 0)"
  by pat_completeness auto
termination
  by (relation "measure (\<lambda>(pgdir, va, p, pos, len). len)") auto

declare copyout_loop.simps [simp del]

definition copyout :: "uint \<Rightarrow> uint \<Rightarrow> bytes \<Rightarrow> uint \<Rightarrow> ('a kvm_scheme, int) K" where
  "copyout pgdir va p len = copyout_loop pgdir va p 0 (unat len)"

end
