(* ===== verification/Proc.thy ===== *)
theory Proc
  imports Vm
begin

text \<open>
  The life of a process (\<open>kernel/proc.c\<close>): allocation, the first process, \<open>fork\<close>, \<open>exit\<close>,
  \<open>wait\<close>, \<open>growproc\<close>, and the scheduler's switch with its address space. A process that exits
  gives up the CPU for good (outcome \<open>Exit\<close>). The trap frame at the top of the kernel stack is
  a field of the process; the words \<open>allocproc\<close> pushes below it are in physical memory.
\<close>

definition pinit :: "('a kvm_scheme, unit) K" where
  "pinit = lock_init L_ptable"

text \<open>The kernel stack from the top: the trap frame (76 bytes), \<open>trapret\<close>, the context (20 bytes).\<close>

definition tf_addr :: "uint \<Rightarrow> uint" where
  "tf_addr kstack = kstack + KSTACKSIZE - 76"

definition context_addr :: "uint \<Rightarrow> uint" where
  "context_addr kstack = tf_addr kstack - 4 - 20"

definition allocproc :: "('a kvm_scheme, nat option) K" where
  "allocproc =
     kseq (acquire L_ptable) (
     kbind (kget (\<lambda>s. find (\<lambda>i. p_state (ptable s i) = UNUSED) [0..<NPROC])) (\<lambda>r. case r of
       None \<Rightarrow> kseq (release L_ptable) (kret None)
     | Some i \<Rightarrow>
         kseq (upd_proc i (\<lambda>p. p\<lparr>p_state := EMBRYO\<rparr>)) (
         kbind (kget nextpid) (\<lambda>pid.
         kseq (upd_proc i (\<lambda>p. p\<lparr>p_pid := pid\<rparr>)) (
         kseq (kmod (\<lambda>s. s\<lparr>nextpid := pid + 1\<rparr>)) (
         kseq (release L_ptable) (
         kbind kalloc (\<lambda>k.
         kseq (upd_proc i (\<lambda>p. p\<lparr>p_kstack := k\<rparr>)) (
           if k = 0 then kseq (upd_proc i (\<lambda>p. p\<lparr>p_state := UNUSED\<rparr>)) (kret None)
           else
             kbind (kget ktrapret) (\<lambda>trapret.
             kseq (mem_wr32 (tf_addr k - 4) trapret) (
             kseq (upd_proc i (\<lambda>p. p\<lparr>p_context := context_addr k\<rparr>)) (
             kseq (mem_memset (context_addr k) 0 20) (
             kbind (kget kforkret) (\<lambda>fork_ret.
             kseq (mem_wr32 (context_addr k + 16) fork_ret) (
             kret (Some i))))))))))))))))"

text \<open>\<open>init\<close> and \<open>initsz\<close> are the linked-in first program.\<close>

definition user_tf :: trapframe where
  "user_tf = \<lparr>tf_eax = 0, tf_es = 0x2b, tf_ds = 0x2b, tf_trapno = 0, tf_err = 0, tf_eip = 0,
     tf_cs = 0x23, tf_eflags = 0x200, tf_esp = PGSIZE, tf_ss = 0x2b\<rparr>"

definition str_bytes :: "string \<Rightarrow> uchar list" where
  "str_bytes cs = map of_char cs"

definition userinit :: "bytes \<Rightarrow> uint \<Rightarrow> ('a kvm_scheme, unit) K" where
  "userinit init initsz =
     kbind allocproc (\<lambda>r.
     kseq (acquire L_ptable) (
     kseq (kmod (\<lambda>s. s\<lparr>initproc := r\<rparr>)) (
     case r of
       None \<Rightarrow> kpanic ''trap''
     | Some i \<Rightarrow>
         kbind setupkvm (\<lambda>d.
         kseq (upd_proc i (\<lambda>p. p\<lparr>p_pgdir := d\<rparr>)) (
           if d = 0 then kpanic ''userinit: out of memory?''
           else
             kseq (inituvm d init initsz) (
             kseq (upd_proc i (\<lambda>p. p\<lparr>p_sz := PGSIZE\<rparr>)) (
             kseq (upd_proc i (\<lambda>p. p\<lparr>p_tf := user_tf\<rparr>)) (
             kseq (upd_proc i (\<lambda>p. p\<lparr>p_name := safestrcpy (p_name p) (str_obj (str_bytes ''initcode'')) 16\<rparr>)) (
             kbind (namei [SLASH]) (\<lambda>cwd.
             kseq (upd_proc i (\<lambda>p. p\<lparr>p_cwd := cwd\<rparr>)) (
             kseq (upd_proc i (\<lambda>p. p\<lparr>p_state := RUNNABLE\<rparr>)) (
             release L_ptable)))))))))))) "

definition growproc :: "int \<Rightarrow> ('a kvm_scheme, int) K" where
  "growproc n =
     kbind cur_proc (\<lambda>i.
     kbind (kget (\<lambda>s. ptable s i)) (\<lambda>p.
     kbind (if n > 0 then allocuvm (p_pgdir p) (p_sz p) (p_sz p + of_int n)
            else if n < 0 then deallocuvm (p_pgdir p) (p_sz p) (p_sz p + of_int n)
            else kret (p_sz p)) (\<lambda>sz.
       if n \<noteq> 0 \<and> sz = 0 then kret (- 1)
       else
         kseq (upd_proc i (\<lambda>p. p\<lparr>p_sz := sz\<rparr>)) (
         kseq (switchuvm i) (
         kret 0)))))"

definition fork_files :: "nat \<Rightarrow> nat \<Rightarrow> ('a kvm_scheme, unit) K" where
  "fork_files i np = kforeach [0..<NOFILE] (\<lambda>fd.
     kbind (kget (\<lambda>s. p_ofile (ptable s i) fd)) (\<lambda>r. case r of
       None \<Rightarrow> kret ()
     | Some f \<Rightarrow> kbind (filedup f) (\<lambda>f'. upd_proc np (\<lambda>p. p\<lparr>p_ofile := (p_ofile p)(fd := Some f')\<rparr>))))"

definition fork :: "('a kvm_scheme, int) K" where
  "fork =
     kbind allocproc (\<lambda>r. case r of
       None \<Rightarrow> kret (- 1)
     | Some np \<Rightarrow>
         kbind cur_proc (\<lambda>i.
         kbind (kget (\<lambda>s. ptable s i)) (\<lambda>p.
         kbind (copyuvm (p_pgdir p) (p_sz p)) (\<lambda>d.
         kseq (upd_proc np (\<lambda>q. q\<lparr>p_pgdir := d\<rparr>)) (
           if d = 0 then
             kbind (kget (\<lambda>s. p_kstack (ptable s np))) (\<lambda>k.
             kseq (kfree k) (
             kseq (upd_proc np (\<lambda>q. q\<lparr>p_kstack := 0\<rparr>)) (
             kseq (upd_proc np (\<lambda>q. q\<lparr>p_state := UNUSED\<rparr>)) (
             kret (- 1)))))
           else
             kseq (upd_proc np (\<lambda>q. q\<lparr>p_sz := p_sz p\<rparr>)) (
             kseq (upd_proc np (\<lambda>q. q\<lparr>p_parent := Some i\<rparr>)) (
             kseq (upd_proc np (\<lambda>q. q\<lparr>p_tf := (p_tf p)\<lparr>tf_eax := 0\<rparr>\<rparr>)) (
             kseq (fork_files i np) (
             kbind (case p_cwd p of None \<Rightarrow> kpanic ''trap'' | Some ip \<Rightarrow> idup ip) (\<lambda>cwd.
             kseq (upd_proc np (\<lambda>q. q\<lparr>p_cwd := Some cwd\<rparr>)) (
             kbind (kget (\<lambda>s. p_pid (ptable s np))) (\<lambda>pid.
             kseq (upd_proc np (\<lambda>q. q\<lparr>p_state := RUNNABLE\<rparr>)) (
             kseq (upd_proc np (\<lambda>q. q\<lparr>p_name := safestrcpy (p_name q) (p_name p) 16\<rparr>)) (
             kret pid))))))))))))))"

text \<open>\<open>wakeup1\<close> on a process pointer; nothing sleeps on the null pointer.\<close>

definition wakeup_proc :: "nat option \<Rightarrow> ('a kproc_scheme, unit) K" where
  "wakeup_proc r = (case r of None \<Rightarrow> kret () | Some i \<Rightarrow> wakeup1 (ChProc i))"

definition exit_reparent :: "nat \<Rightarrow> ('a kproc_scheme, unit) K" where
  "exit_reparent i = kforeach [0..<NPROC] (\<lambda>j.
     kbind (kget (\<lambda>s. ptable s j)) (\<lambda>p.
     kwhen (p_parent p = Some i) (
       kbind (kget initproc) (\<lambda>init.
       kseq (upd_proc j (\<lambda>p. p\<lparr>p_parent := init\<rparr>)) (
       kwhen (p_state p = ZOMBIE) (wakeup_proc init))))))"

definition exit :: "('a kvm_scheme, 'b) K" where
  "exit =
     kbind cur_proc (\<lambda>i.
     kbind (kget initproc) (\<lambda>init.
       if init = Some i then kpanic ''init exiting''
       else
         kseq (kforeach [0..<NOFILE] (\<lambda>fd.
           kbind (kget (\<lambda>s. p_ofile (ptable s i) fd)) (\<lambda>r. case r of
             None \<Rightarrow> kret ()
           | Some f \<Rightarrow> kseq (fileclose f) (upd_proc i (\<lambda>p. p\<lparr>p_ofile := (p_ofile p)(fd := None)\<rparr>))))) (
         kbind (kget (\<lambda>s. p_cwd (ptable s i))) (\<lambda>cwd.
         kseq (case cwd of None \<Rightarrow> kpanic ''trap'' | Some ip \<Rightarrow> iput ip) (
         kseq (upd_proc i (\<lambda>p. p\<lparr>p_cwd := None\<rparr>)) (
         kseq (acquire L_ptable) (
         kbind (kget (\<lambda>s. p_parent (ptable s i))) (\<lambda>parent.
         kseq (wakeup_proc parent) (
         kseq (exit_reparent i) (
         kseq (upd_proc i (\<lambda>p. p\<lparr>p_state := ZOMBIE\<rparr>)) (
         kseq sched (
           \<lambda>s. Exit s))))))))))))"

text \<open>
  \<open>wait\<close> from its outer loop on: reap the first zombie child in the table, or sleep and scan
  again when woken.
\<close>

definition zombie_child :: "nat \<Rightarrow> 'a kproc_scheme \<Rightarrow> nat option" where
  "zombie_child i s = find (\<lambda>j. p_parent (ptable s j) = Some i \<and> p_state (ptable s j) = ZOMBIE) [0..<NPROC]"

definition have_kids :: "nat \<Rightarrow> 'a kproc_scheme \<Rightarrow> bool" where
  "have_kids i s \<longleftrightarrow> (\<exists>j\<in>set [0..<NPROC]. p_parent (ptable s j) = Some i)"

definition wait_loop :: "('a kmem_scheme, int) K" where
  "wait_loop =
     kbind cur_proc (\<lambda>i.
     kbind (kget (zombie_child i)) (\<lambda>r. case r of
       Some j \<Rightarrow>
         kbind (kget (\<lambda>s. ptable s j)) (\<lambda>p.
         kseq (kfree (p_kstack p)) (
         kseq (upd_proc j (\<lambda>p. p\<lparr>p_kstack := 0\<rparr>)) (
         kseq (freevm (p_pgdir p)) (
         kseq (upd_proc j (\<lambda>p. p\<lparr>p_state := UNUSED, p_pid := 0, p_parent := None,
           p_name := (p_name p)(0 := 0), p_killed := False\<rparr>)) (
         kseq (release L_ptable) (
         kret (p_pid p)))))))
     | None \<Rightarrow>
         kbind (kget (\<lambda>s. \<not> have_kids i s \<or> p_killed (ptable s i))) (\<lambda>stop.
           if stop then kseq (release L_ptable) (kret (- 1))
           else sleep (ChProc i) L_ptable)))"

definition wait :: "('a kmem_scheme, int) K" where
  "wait = kseq (acquire L_ptable) wait_loop"

definition wait_resume :: "('a kmem_scheme, int) K" where
  "wait_resume = kseq (sleep_resume L_ptable) wait_loop"

text \<open>The scheduler's switch to process \<open>i\<close> and back, with the address space.\<close>

definition scheduler_enter :: "nat \<Rightarrow> ('a kvm_scheme, unit) K" where
  "scheduler_enter i =
     kseq (kmod (\<lambda>s. s\<lparr>cur := Some i\<rparr>)) (
     kseq (switchuvm i) (
     upd_proc i (\<lambda>p. p\<lparr>p_state := RUNNING\<rparr>)))"

definition scheduler_leave :: "('a kvm_scheme, unit) K" where
  "scheduler_leave = kseq switchkvm (kmod (\<lambda>s. s\<lparr>cur := None\<rparr>))"

end
