(* ===== verification/Exec.thy ===== *)
theory Exec
  imports Proc
begin

text \<open>
  \<open>exec\<close> (\<open>kernel/exec.c\<close>, with the file formats of \<open>kernel/elf.h\<close>): load a program into a new
  address space, build its stack, and commit. \<open>argv\<close> is the list of argument strings;
  \<open>junk\<close> is what the stack holds where \<open>elf\<close> and \<open>ph\<close> are declared.
\<close>

abbreviation ELF_MAGIC :: uint where "ELF_MAGIC \<equiv> 0x464C457F"
abbreviation ELF_PROG_LOAD :: uint where "ELF_PROG_LOAD \<equiv> 1"
abbreviation MAXARG :: nat where "MAXARG \<equiv> 32"

record elfhdr =
  elf_magic :: uint
  elf_entry :: uint
  elf_phoff :: uint
  elf_phnum :: ushort

record proghdr =
  ph_type :: uint
  ph_offset :: uint
  ph_va :: uint
  ph_filesz :: uint
  ph_memsz :: uint

definition elf_of :: "bytes \<Rightarrow> elfhdr" where
  "elf_of d = \<lparr>elf_magic = rd32 d 0, elf_entry = rd32 d 24, elf_phoff = rd32 d 28, elf_phnum = rd16 d 44\<rparr>"

definition ph_of :: "bytes \<Rightarrow> proghdr" where
  "ph_of d = \<lparr>ph_type = rd32 d 0, ph_offset = rd32 d 4, ph_va = rd32 d 8, ph_filesz = rd32 d 16,
     ph_memsz = rd32 d 20\<rparr>"

text \<open>The loop over \<open>k\<close> program headers from \<open>off\<close> on: the new size, or \<open>None\<close> for \<open>goto bad\<close>.\<close>

fun exec_load :: "uint \<Rightarrow> nat \<Rightarrow> bytes \<Rightarrow> uint \<Rightarrow> uint \<Rightarrow> nat \<Rightarrow> ('a kvm_scheme, uint option) K" where
  "exec_load pgdir ip ph off sz 0 = kret (Some sz)"
| "exec_load pgdir ip ph off sz (Suc k) =
     kbind (readi devsw ip ph off 32) (\<lambda>(r, ph').
       if r \<noteq> 32 then kret None
       else
         let h = ph_of ph' in
         if ph_type h \<noteq> ELF_PROG_LOAD then exec_load pgdir ip ph' (off + 32) sz k
         else if ph_memsz h < ph_filesz h then kret None
         else
           kbind (allocuvm pgdir sz (ph_va h + ph_memsz h)) (\<lambda>sz'.
             if sz' = 0 then kret None
             else
               kbind (loaduvm pgdir (ph_va h) ip (ph_offset h) (ph_filesz h)) (\<lambda>r.
                 if r < 0 then kret None
                 else exec_load pgdir ip ph' (off + 32) sz' k)))"

text \<open>
  The argument strings, pushed from \<open>sp\<close> downwards, with their addresses in \<open>ustack\<close> from
  index 3 on: \<open>argc\<close>, the stack pointer and the array, or \<open>None\<close> for \<open>goto bad\<close>.
\<close>

fun exec_args :: "uint \<Rightarrow> uchar list list \<Rightarrow> nat \<Rightarrow> uint \<Rightarrow> (nat \<Rightarrow> uint)
    \<Rightarrow> ('a kvm_scheme, (nat \<times> uint \<times> (nat \<Rightarrow> uint)) option) K" where
  "exec_args pgdir [] argc sp ustack = kret (Some (argc, sp, ustack))"
| "exec_args pgdir (a # as) argc sp ustack =
     (if argc \<ge> MAXARG then kret None
      else
        let sp' = (sp - of_nat (length a + 1)) AND NOT 3
        in kbind (copyout pgdir sp' (str_obj a) (of_nat (length a + 1))) (\<lambda>r.
             if r < 0 then kret None
             else exec_args pgdir as (argc + 1) sp' (ustack(3 + argc := sp'))))"

definition exec_bad :: "uint \<Rightarrow> nat option \<Rightarrow> ('a kvm_scheme, int) K" where
  "exec_bad pgdir ip =
     kseq (kwhen (pgdir \<noteq> 0) (freevm pgdir)) (
     kseq (case ip of None \<Rightarrow> kret () | Some i \<Rightarrow> iunlockput i) (
     kret (- 1)))"

text \<open>The last element of the path, for the process name.\<close>

definition exec_name :: "uchar list \<Rightarrow> uchar list" where
  "exec_name path = rev (takeWhile (\<lambda>c. c \<noteq> SLASH) (rev path))"

definition exec_commit :: "uchar list \<Rightarrow> uint \<Rightarrow> uint \<Rightarrow> uint \<Rightarrow> uint \<Rightarrow> ('a kvm_scheme, int) K" where
  "exec_commit path pgdir sz entry sp =
     kbind cur_proc (\<lambda>i.
     kseq (upd_proc i (\<lambda>p. p\<lparr>p_name := safestrcpy (p_name p) (str_obj (exec_name path)) 16\<rparr>)) (
     kbind (kget (\<lambda>s. p_pgdir (ptable s i))) (\<lambda>old.
     kseq (upd_proc i (\<lambda>p. p\<lparr>p_pgdir := pgdir, p_sz := sz,
       p_tf := (p_tf p)\<lparr>tf_eip := entry, tf_esp := sp\<rparr>\<rparr>)) (
     kseq (switchuvm i) (
     kseq (freevm old) (
     kret 0))))))"

definition exec_stack :: "uchar list \<Rightarrow> uchar list list \<Rightarrow> uint \<Rightarrow> uint \<Rightarrow> uint \<Rightarrow> ('a kvm_scheme, int) K" where
  "exec_stack path argv pgdir sz entry =
     kbind (allocuvm pgdir (PGROUNDUP sz) (PGROUNDUP sz + PGSIZE)) (\<lambda>sz'.
       if sz' = 0 then exec_bad pgdir None
       else
         kbind (exec_args pgdir argv 0 sz' (\<lambda>_. 0)) (\<lambda>r. case r of
           None \<Rightarrow> exec_bad pgdir None
         | Some (argc, sp, ustack) \<Rightarrow>
             let ustack' = ustack(3 + argc := 0, 0 := 0xffffffff, 1 := of_nat argc,
                   2 := sp - of_nat ((argc + 1) * 4));
                 sp' = sp - of_nat ((3 + argc + 1) * 4)
             in kbind (copyout pgdir sp' (put_words (\<lambda>_. 0) 0 ustack' (3 + argc + 1))
                   (of_nat ((3 + argc + 1) * 4))) (\<lambda>r.
                  if r < 0 then exec_bad pgdir None
                  else exec_commit path pgdir sz' entry sp')))"

text \<open>
  \<open>readi(...) < sizeof(elf)\<close> compares unsigned: the error -1 is not smaller.
\<close>

definition exec :: "bytes \<Rightarrow> uchar list \<Rightarrow> uchar list list \<Rightarrow> ('a kvm_scheme, int) K" where
  "exec junk path argv =
     kbind (namei path) (\<lambda>r. case r of
       None \<Rightarrow> kret (- 1)
     | Some ip \<Rightarrow>
         kseq (ilock ip) (
         kbind (readi devsw ip junk 0 52) (\<lambda>(r, d).
           if (of_int r :: uint) < 52 then exec_bad 0 (Some ip)
           else if elf_magic (elf_of d) \<noteq> ELF_MAGIC then exec_bad 0 (Some ip)
           else
             kbind setupkvm (\<lambda>pgdir.
               if pgdir = 0 then exec_bad 0 (Some ip)
               else
                 kbind (exec_load pgdir ip junk (elf_phoff (elf_of d)) 0 (unat (elf_phnum (elf_of d)))) (\<lambda>r. case r of
                   None \<Rightarrow> exec_bad pgdir (Some ip)
                 | Some sz \<Rightarrow>
                     kseq (iunlockput ip) (exec_stack path argv pgdir sz (elf_entry (elf_of d))))))))"

end
