(* ===== verification/Syscall.thy ===== *)
theory Syscall
  imports Exec
begin

text \<open>
  System call arguments (\<open>kernel/syscall.c\<close> up to \<open>argstr_nonull\<close>). They are fetched from the
  user stack through the current page table. A failed fetch is \<open>None\<close>.
\<close>

record ksys = kvm +
  ticks :: uint

definition fetchint :: "nat \<Rightarrow> uint \<Rightarrow> ('a ksys_scheme, uint option) K" where
  "fetchint p addr =
     kbind (kget (\<lambda>s. p_sz (ptable s p))) (\<lambda>sz.
       if addr \<ge> sz \<or> addr + 4 > sz then kret None
       else kbind (va_rd32 addr) (\<lambda>v. kret (Some v)))"

text \<open>The scan of \<open>fetchstr\<close> for the NUL, at most \<open>k\<close> bytes: the bytes before it.\<close>

fun fetchstr_scan :: "uint \<Rightarrow> nat \<Rightarrow> ('a ksys_scheme, uchar list option) K" where
  "fetchstr_scan a 0 = kret None"
| "fetchstr_scan a (Suc k) =
     kbind (va_rdb a) (\<lambda>c.
       if c = 0 then kret (Some [])
       else kbind (fetchstr_scan (a + 1) k) (\<lambda>r. kret (map_option (\<lambda>cs. c # cs) r)))"

text \<open>The pointer and the string.\<close>

definition fetchstr :: "nat \<Rightarrow> uint \<Rightarrow> ('a ksys_scheme, (uint \<times> uchar list) option) K" where
  "fetchstr p addr =
     kbind (kget (\<lambda>s. p_sz (ptable s p))) (\<lambda>sz.
       if addr \<ge> sz then kret None
       else kbind (fetchstr_scan addr (unat (sz - addr))) (\<lambda>r.
         kret (map_option (\<lambda>cs. (addr, cs)) r)))"

definition fetchweirdstr :: "nat \<Rightarrow> uint \<Rightarrow> int \<Rightarrow> ('a ksys_scheme, uint option) K" where
  "fetchweirdstr p addr len =
     kbind (kget (\<lambda>s. p_sz (ptable s p))) (\<lambda>sz.
       if addr \<ge> sz then kret None
       else if len < 0 then kret None
       else kret (Some addr))"

definition argint :: "nat \<Rightarrow> ('a ksys_scheme, uint option) K" where
  "argint n =
     kbind cur_proc (\<lambda>i.
     kbind (kget (\<lambda>s. tf_esp (p_tf (ptable s i)))) (\<lambda>esp.
     fetchint i (esp + 4 + 4 * of_nat n)))"

definition argptr :: "nat \<Rightarrow> int \<Rightarrow> ('a ksys_scheme, uint option) K" where
  "argptr n sz =
     kbind (argint n) (\<lambda>r. case r of
       None \<Rightarrow> kret None
     | Some i \<Rightarrow>
         kbind cur_proc (\<lambda>p.
         kbind (kget (\<lambda>s. p_sz (ptable s p))) (\<lambda>psz.
           if i \<ge> psz \<or> i + of_int sz > psz then kret None else kret (Some i))))"

definition argstr :: "nat \<Rightarrow> ('a ksys_scheme, (uint \<times> uchar list) option) K" where
  "argstr n =
     kbind (argint n) (\<lambda>r. case r of
       None \<Rightarrow> kret None
     | Some addr \<Rightarrow> kbind cur_proc (\<lambda>p. fetchstr p addr))"

definition argstr_nonull :: "nat \<Rightarrow> int \<Rightarrow> ('a ksys_scheme, uint option) K" where
  "argstr_nonull n len =
     kbind (argint n) (\<lambda>r. case r of
       None \<Rightarrow> kret None
     | Some addr \<Rightarrow> kbind cur_proc (\<lambda>p. fetchweirdstr p addr len))"

text \<open>An argument that must be there: otherwise the call returns -1.\<close>

definition need :: "('s, 'b option) K \<Rightarrow> ('b \<Rightarrow> ('s, int) K) \<Rightarrow> ('s, int) K" where
  "need m f = kbind m (\<lambda>r. case r of None \<Rightarrow> kret (- 1) | Some b \<Rightarrow> f b)"

section \<open>User memory as an object\<close>

text \<open>
  The bytes at a user address, as the object the file routines copy from and to. \<open>user_check\<close>
  is the fault on a byte that was read and is not mapped, \<open>user_store\<close> puts the bytes written
  back into memory.
\<close>

definition user_obj :: "uint \<Rightarrow> 'a kvm_scheme \<Rightarrow> bytes" where
  "user_obj va s = (\<lambda>i. case vtop (phys s) (cr3 s) (va + of_nat i) of Some a \<Rightarrow> phys s (unat a) | None \<Rightarrow> 0)"

definition user_check :: "uint \<Rightarrow> nat \<Rightarrow> ('a kvm_scheme, unit) K" where
  "user_check va n = (\<lambda>s. if \<forall>i\<in>set [0..<n]. vtop (phys s) (cr3 s) (va + of_nat i) \<noteq> None then Done () s
     else Panic ''trap'')"

definition user_store :: "uint \<Rightarrow> bytes \<Rightarrow> nat \<Rightarrow> ('a kvm_scheme, unit) K" where
  "user_store va d n = kforeach [0..<n] (\<lambda>i. va_wrb (va + of_nat i) (d i))"

end
