(* ===== verification/Sysfile.thy ===== *)
theory Sysfile
  imports Syscall
begin

text \<open>
  The system calls on files (\<open>kernel/sysfile.c\<close>). A call returns an \<open>int\<close>. Buffers in user
  memory are read and written as objects (theory \<open>Syscall\<close>).
\<close>

abbreviation O_WRONLY :: uint where "O_WRONLY \<equiv> 1"
abbreviation O_RDWR :: uint where "O_RDWR \<equiv> 2"
abbreviation O_CREATE :: uint where "O_CREATE \<equiv> 0x200"

section \<open>Descriptors\<close>

definition argfd :: "nat \<Rightarrow> ('a ksys_scheme, (nat \<times> nat) option) K" where
  "argfd n =
     kbind (argint n) (\<lambda>r. case r of
       None \<Rightarrow> kret None
     | Some w \<Rightarrow>
         if sint w < 0 \<or> sint w \<ge> int NOFILE then kret None
         else
           kbind cur_proc (\<lambda>i.
           kbind (kget (\<lambda>s. p_ofile (ptable s i) (nat (sint w)))) (\<lambda>f.
           kret (map_option (\<lambda>f. (nat (sint w), f)) f))))"

definition fdalloc :: "nat \<Rightarrow> ('a ksys_scheme, int) K" where
  "fdalloc f =
     kbind cur_proc (\<lambda>i.
     kbind (kget (\<lambda>s. find (\<lambda>fd. p_ofile (ptable s i) fd = None) [0..<NOFILE])) (\<lambda>r. case r of
       None \<Rightarrow> kret (- 1)
     | Some fd \<Rightarrow>
         kseq (upd_proc i (\<lambda>p. p\<lparr>p_ofile := (p_ofile p)(fd := Some f)\<rparr>)) (
         kret (int fd))))"

definition sys_dup :: "('a ksys_scheme, int) K" where
  "sys_dup = need (argfd 0) (\<lambda>(_, f).
     kbind (fdalloc f) (\<lambda>fd.
       if fd < 0 then kret (- 1) else kbind (filedup f) (\<lambda>_. kret fd)))"

definition sys_read :: "('a ksys_scheme, int) K" where
  "sys_read =
     need (argfd 0) (\<lambda>(_, f).
     need (argint 2) (\<lambda>w.
     need (argptr 1 (sint w)) (\<lambda>p.
     kbind (kget (user_obj p)) (\<lambda>d.
     kbind (fileread f d (sint w)) (\<lambda>(r, d').
     kseq (user_store p d' (if r < 0 then nat (sint w) else nat r)) (
     kret r))))))"

definition sys_write :: "('a ksys_scheme, int) K" where
  "sys_write =
     need (argfd 0) (\<lambda>(_, f).
     need (argint 2) (\<lambda>w.
     need (argptr 1 (sint w)) (\<lambda>p.
     kbind (kget (user_obj p)) (\<lambda>d.
     kbind (filewrite f d (sint w)) (\<lambda>r.
     kseq (user_check p (nat r)) (
     kret r))))))"

definition sys_close :: "('a ksys_scheme, int) K" where
  "sys_close = need (argfd 0) (\<lambda>(fd, f).
     kbind cur_proc (\<lambda>i.
     kseq (upd_proc i (\<lambda>p. p\<lparr>p_ofile := (p_ofile p)(fd := None)\<rparr>)) (
     kseq (fileclose f) (
     kret 0))))"

text \<open>\<open>struct stat\<close> in memory: 20 bytes, with the padding left as it is.\<close>

definition put_stat :: "stat \<Rightarrow> bytes \<Rightarrow> bytes" where
  "put_stat st d = wr32 (wr16 (wr32 (wr32 (wr16 d 0 (st_type st)) 4 (st_dev st)) 8 (st_ino st)) 12 (st_nlink st))
     16 (st_size st)"

definition sys_fstat :: "('a ksys_scheme, int) K" where
  "sys_fstat =
     need (argfd 0) (\<lambda>(_, f).
     need (argptr 1 20) (\<lambda>p.
     need (filestat f) (\<lambda>st.
     kbind (kget (user_obj p)) (\<lambda>d.
     kseq (user_store p (put_stat st d) 20) (
     kret 0)))))"

section \<open>Names\<close>

abbreviation name0 :: bytes where "name0 \<equiv> (\<lambda>_. 0)"

definition link_undo :: "nat \<Rightarrow> ('a kfs_scheme, int) K" where
  "link_undo ip =
     kseq (ilock ip) (
     kseq (upd_inode ip (\<lambda>p. p\<lparr>i_nlink := i_nlink p - 1\<rparr>)) (
     kseq (iupdate ip) (
     kseq (iunlockput ip) (
     kret (- 1)))))"

definition sys_link :: "('a ksys_scheme, int) K" where
  "sys_link =
     need (argstr 0) (\<lambda>(_, old).
     need (argstr 1) (\<lambda>(_, new).
     need (namei old) (\<lambda>ip.
     kseq (ilock ip) (
     kbind (kget (\<lambda>s. i_type (inodes s ip))) (\<lambda>ty.
       if ty = T_DIR then kseq (iunlockput ip) (kret (- 1))
       else
         kseq (upd_inode ip (\<lambda>p. p\<lparr>i_nlink := i_nlink p + 1\<rparr>)) (
         kseq (iupdate ip) (
         kseq (iunlock ip) (
         kbind (nameiparent new name0) (\<lambda>(r, name). case r of
           None \<Rightarrow> link_undo ip
         | Some dp \<Rightarrow>
             kseq (ilock dp) (
             kbind (kget (\<lambda>s. i_dev (inodes s dp) = i_dev (inodes s ip))) (\<lambda>same.
             kbind (kget (\<lambda>s. i_inum (inodes s ip))) (\<lambda>inum.
             kbind (if same then dirlink dp name inum else kret (- 1)) (\<lambda>r.
               if r < 0 then kseq (iunlockput dp) (link_undo ip)
               else
                 kseq (iunlockput dp) (
                 kseq (iput ip) (
                 kret 0)))))))))))))))"

function isdirempty_loop :: "nat \<Rightarrow> bytes \<Rightarrow> nat \<Rightarrow> nat \<Rightarrow> ('a kfs_scheme, bool) K" where
  "isdirempty_loop dp de sz off =
     (if off < sz then
        kbind (readi devsw dp de (of_nat off) 16) (\<lambda>(r, de').
          if r \<noteq> 16 then kpanic ''isdirempty: readi''
          else if de_inum de' 0 \<noteq> 0 then kret False
          else isdirempty_loop dp de' sz (off + 16))
      else kret True)"
  by pat_completeness auto
termination
  by (relation "measure (\<lambda>(dp, de, sz, off). sz - off)") auto

declare isdirempty_loop.simps [simp del]

definition isdirempty :: "nat \<Rightarrow> ('a kfs_scheme, bool) K" where
  "isdirempty dp = kbind (kget (\<lambda>s. unat (i_size (inodes s dp)))) (\<lambda>sz. isdirempty_loop dp name0 sz 32)"

definition dot :: bytes where "dot = str_obj [46]"
definition dotdot :: bytes where "dotdot = str_obj [46, 46]"

definition sys_unlink :: "('a ksys_scheme, int) K" where
  "sys_unlink =
     need (argstr 0) (\<lambda>(_, path).
     kbind (nameiparent path name0) (\<lambda>(r, name). case r of
       None \<Rightarrow> kret (- 1)
     | Some dp \<Rightarrow>
         kseq (ilock dp) (
           if namecmp name dot = 0 \<or> namecmp name dotdot = 0 then kseq (iunlockput dp) (kret (- 1))
           else
             kbind (dirlookup dp name) (\<lambda>r. case r of
               None \<Rightarrow> kseq (iunlockput dp) (kret (- 1))
             | Some (ip, off) \<Rightarrow>
                 kseq (ilock ip) (
                 kbind (kget (\<lambda>s. inodes s ip)) (\<lambda>p.
                   if sint (i_nlink p) < 1 then kpanic ''unlink: nlink < 1''
                   else
                     kbind (if i_type p = T_DIR then isdirempty ip else kret True) (\<lambda>empty.
                       if \<not> empty then kseq (iunlockput ip) (kseq (iunlockput dp) (kret (- 1)))
                       else
                         kbind (writei devsw dp (memset name0 0 0 16) (of_nat off) 16) (\<lambda>r.
                           if r \<noteq> 16 then kpanic ''unlink: writei''
                           else
                             kseq (kwhen (i_type p = T_DIR) (
                               kseq (upd_inode dp (\<lambda>q. q\<lparr>i_nlink := i_nlink q - 1\<rparr>)) (iupdate dp))) (
                             kseq (iunlockput dp) (
                             kseq (upd_inode ip (\<lambda>q. q\<lparr>i_nlink := i_nlink q - 1\<rparr>)) (
                             kseq (iupdate ip) (
                             kseq (iunlockput ip) (
                             kret 0)))))))))))))"

text \<open>\<open>create\<close> returns the inode locked.\<close>

definition create_new :: "nat \<Rightarrow> bytes \<Rightarrow> ushort \<Rightarrow> ushort \<Rightarrow> ushort \<Rightarrow> ('a kfs_scheme, nat option) K" where
  "create_new dp name type major minor =
     kbind (kget (\<lambda>s. i_dev (inodes s dp))) (\<lambda>dev.
     kbind (ialloc dev type) (\<lambda>ip.
     kseq (ilock ip) (
     kseq (upd_inode ip (\<lambda>p. p\<lparr>i_major := major, i_minor := minor, i_nlink := 1\<rparr>)) (
     kseq (iupdate ip) (
     kbind (kget (\<lambda>s. i_inum (inodes s ip))) (\<lambda>inum.
     kseq (kwhen (type = T_DIR) (
       kseq (upd_inode dp (\<lambda>p. p\<lparr>i_nlink := i_nlink p + 1\<rparr>)) (
       kseq (iupdate dp) (
       kbind (dirlink ip dot inum) (\<lambda>r1.
         if r1 < 0 then kpanic ''create dots''
         else
           kbind (kget (\<lambda>s. i_inum (inodes s dp))) (\<lambda>dinum.
           kbind (dirlink ip dotdot dinum) (\<lambda>r2.
           kwhen (r2 < 0) (kpanic ''create dots'')))))))) (
     kbind (dirlink dp name inum) (\<lambda>r.
       if r < 0 then kpanic ''create: dirlink''
       else kseq (iunlockput dp) (kret (Some ip))))))))))"

definition create :: "uchar list \<Rightarrow> ushort \<Rightarrow> ushort \<Rightarrow> ushort \<Rightarrow> ('a kfs_scheme, nat option) K" where
  "create path type major minor =
     kbind (nameiparent path name0) (\<lambda>(r, name). case r of
       None \<Rightarrow> kret None
     | Some dp \<Rightarrow>
         kseq (ilock dp) (
         kbind (dirlookup dp name) (\<lambda>r. case r of
           Some (ip, _) \<Rightarrow>
             kseq (iunlockput dp) (
             kseq (ilock ip) (
             kbind (kget (\<lambda>s. i_type (inodes s ip))) (\<lambda>ty.
               if type = T_FILE \<and> ty = T_FILE then kret (Some ip)
               else kseq (iunlockput ip) (kret None))))
         | None \<Rightarrow> create_new dp name type major minor)))"

definition sys_open :: "('a ksys_scheme, int) K" where
  "sys_open =
     need (argstr 0) (\<lambda>(_, path).
     need (argint 1) (\<lambda>omode.
     need (if omode AND O_CREATE \<noteq> 0 then create path T_FILE 0 0
           else
             kbind (namei path) (\<lambda>r. case r of
               None \<Rightarrow> kret None
             | Some ip \<Rightarrow>
                 kseq (ilock ip) (
                 kbind (kget (\<lambda>s. i_type (inodes s ip))) (\<lambda>ty.
                   if ty = T_DIR \<and> omode \<noteq> 0 then kseq (iunlockput ip) (kret None)
                   else kret (Some ip))))) (\<lambda>ip.
     kbind filealloc (\<lambda>r. case r of
       None \<Rightarrow> kseq (iunlockput ip) (kret (- 1))
     | Some f \<Rightarrow>
         kbind (fdalloc f) (\<lambda>fd.
           if fd < 0 then kseq (fileclose f) (kseq (iunlockput ip) (kret (- 1)))
           else
             kseq (iunlock ip) (
             kseq (upd_file f (\<lambda>x. x\<lparr>f_type := FD_INODE, f_ip := Some ip, f_off := 0,
               f_readable := (omode AND O_WRONLY = 0),
               f_writable := (omode AND O_WRONLY \<noteq> 0 \<or> omode AND O_RDWR \<noteq> 0)\<rparr>)) (
             kret fd)))))))"

definition sys_mkdir :: "('a ksys_scheme, int) K" where
  "sys_mkdir =
     need (argstr 0) (\<lambda>(_, path).
     need (create path T_DIR 0 0) (\<lambda>ip.
     kseq (iunlockput ip) (
     kret 0)))"

definition sys_mknod :: "('a ksys_scheme, int) K" where
  "sys_mknod =
     need (argstr 0) (\<lambda>(_, path).
     need (argint 1) (\<lambda>major.
     need (argint 2) (\<lambda>minor.
     need (create path T_DEV (ucast major) (ucast minor)) (\<lambda>ip.
     kseq (iunlockput ip) (
     kret 0)))))"

definition sys_chdir :: "('a ksys_scheme, int) K" where
  "sys_chdir =
     need (argstr 0) (\<lambda>(_, path).
     need (namei path) (\<lambda>ip.
     kseq (ilock ip) (
     kbind (kget (\<lambda>s. i_type (inodes s ip))) (\<lambda>ty.
       if ty \<noteq> T_DIR then kseq (iunlockput ip) (kret (- 1))
       else
         kseq (iunlock ip) (
         kbind cur_proc (\<lambda>i.
         kbind (kget (\<lambda>s. p_cwd (ptable s i))) (\<lambda>cwd.
         kseq (case cwd of None \<Rightarrow> kpanic ''trap'' | Some c \<Rightarrow> iput c) (
         kseq (upd_proc i (\<lambda>p. p\<lparr>p_cwd := Some ip\<rparr>)) (
         kret 0)))))))))"

section \<open>Programs and pipes\<close>

text \<open>The loop over \<open>uargv\<close>, at entry \<open>i\<close> with \<open>k\<close> entries of \<open>argv\<close> left.\<close>

fun exec_fetch :: "uint \<Rightarrow> nat \<Rightarrow> nat \<Rightarrow> ('a ksys_scheme, uchar list list option) K" where
  "exec_fetch uargv i 0 = kret None"
| "exec_fetch uargv i (Suc k) =
     kbind cur_proc (\<lambda>p.
     kbind (fetchint p (uargv + 4 * of_nat i)) (\<lambda>r. case r of
       None \<Rightarrow> kret None
     | Some uarg \<Rightarrow>
         if uarg = 0 then kret (Some [])
         else
           kbind (fetchstr p uarg) (\<lambda>r. case r of
             None \<Rightarrow> kret None
           | Some (_, a) \<Rightarrow>
               kbind (exec_fetch uargv (i + 1) k) (\<lambda>r. kret (map_option (\<lambda>as. a # as) r)))))"

definition sys_exec :: "bytes \<Rightarrow> ('a ksys_scheme, int) K" where
  "sys_exec junk =
     need (argstr 0) (\<lambda>(_, path).
     need (argint 1) (\<lambda>uargv.
     need (exec_fetch uargv 0 MAXARG) (\<lambda>argv.
     exec junk path argv)))"

definition sys_pipe :: "('a ksys_scheme, int) K" where
  "sys_pipe =
     need (argptr 0 8) (\<lambda>p.
     need pipealloc (\<lambda>(rf, wf).
     kbind (fdalloc rf) (\<lambda>fd0.
     kbind (if fd0 < 0 then kret (- 1) else fdalloc wf) (\<lambda>fd1.
       if fd1 < 0 then
         kbind cur_proc (\<lambda>i.
         kseq (kwhen (fd0 \<ge> 0) (upd_proc i (\<lambda>x. x\<lparr>p_ofile := (p_ofile x)(nat fd0 := None)\<rparr>))) (
         kseq (fileclose rf) (
         kseq (fileclose wf) (
         kret (- 1)))))
       else
         kbind (kget (user_obj p)) (\<lambda>d.
         kseq (user_store p (wr32 (wr32 d 0 (of_int fd0)) 4 (of_int fd1)) 8) (
         kret 0))))))"

section \<open>Tags\<close>

text \<open>A string argument as a pointer that may be null.\<close>

definition ptr_str :: "uint \<times> uchar list \<Rightarrow> uchar list option" where
  "ptr_str = (\<lambda>(a, cs). if a = 0 then None else Some cs)"

definition sys_tagFile :: "('a ksys_scheme, int) K" where
  "sys_tagFile =
     need (argint 0) (\<lambda>fd.
     need (argstr 1) (\<lambda>key.
     need (argint 3) (\<lambda>vlen.
     kseq (cprintf (''%d'' @ NL) [VInt vlen]) (
     need (argstr_nonull 2 (sint vlen)) (\<lambda>v.
     kbind (kget (user_obj v)) (\<lambda>d.
     kbind (tagFile (sint fd) (ptr_str key) (if v = 0 then None else Some d) (sint vlen)) (\<lambda>r.
     kseq (kwhen (r = 1) (user_check v (nat (sint vlen)))) (
     kret r))))))))"

definition sys_removeFileTag :: "('a ksys_scheme, int) K" where
  "sys_removeFileTag =
     need (argint 0) (\<lambda>fd.
     need (argstr 1) (\<lambda>key.
     removeFileTag (sint fd) (ptr_str key)))"

definition sys_getFileTag :: "('a ksys_scheme, int) K" where
  "sys_getFileTag =
     need (argint 0) (\<lambda>fd.
     need (argstr 1) (\<lambda>key.
     need (argstr 2) (\<lambda>(buf, _).
     need (argint 3) (\<lambda>len.
     kbind (kget (user_obj buf)) (\<lambda>d.
     kbind (getFileTag (sint fd) (ptr_str key) d (sint len)) (\<lambda>(r, d').
     kseq (kwhen (r \<le> sint len) (user_store buf d' (nat r))) (
     kret r)))))))"

definition sys_getAllTags :: "('a ksys_scheme, int) K" where
  "sys_getAllTags =
     need (argint 0) (\<lambda>fd.
     need (argint 2) (\<lambda>maxTags.
     need (argptr 1 (sint (10 * maxTags))) (\<lambda>keys.
     kbind (kget (user_obj keys)) (\<lambda>d.
     kbind (getAllTags (sint fd) (if keys = 0 then None else Some d) (sint maxTags)) (\<lambda>(n, ks).
     kseq (case ks of None \<Rightarrow> kret () | Some d' \<Rightarrow> user_store keys d' (10 * nat (sint maxTags))) (
     kret n))))))"

definition sys_getFilesByTag :: "('a ksys_scheme, int) K" where
  "sys_getFilesByTag =
     need (argstr 0) (\<lambda>(_, key).
     need (argstr 1) (\<lambda>(v, _).
     need (argint 2) (\<lambda>vlen.
     need (argstr 3) (\<lambda>(results, _).
     need (argint 4) (\<lambda>rlen.
     kbind (kget (user_obj v)) (\<lambda>value.
     kbind (kget (user_obj results)) (\<lambda>d.
     kbind (getFilesByTag key value (sint vlen) d (sint rlen)) (\<lambda>(n, d').
     kseq (user_store results d'
       (nat (sint rlen) + (if d' (nat (sint rlen)) = d (nat (sint rlen)) then 0 else 1))) (
     kret n)))))))))"

end
