(* ===== verification/Trap.thy ===== *)
theory Trap
  imports Sysfile
begin

text \<open>
  The remaining system calls (\<open>kernel/sysproc.c\<close>), the dispatch of system calls
  (\<open>kernel/syscall.c\<close>) and the trap handler (\<open>kernel/trap.c\<close>). A trap that ends in \<open>yield\<close>
  returns \<open>True\<close>; what follows when the process runs again is \<open>trap_resume\<close>.
\<close>

section \<open>Processes and time\<close>

definition sys_fork :: "('a ksys_scheme, int) K" where
  "sys_fork = fork"

definition sys_exit :: "('a ksys_scheme, int) K" where
  "sys_exit = exit"

definition sys_wait :: "('a ksys_scheme, int) K" where
  "sys_wait = wait"

definition sys_kill :: "('a ksys_scheme, int) K" where
  "sys_kill = need (argint 0) (\<lambda>pid. kill (sint pid))"

definition sys_getpid :: "('a ksys_scheme, int) K" where
  "sys_getpid = kbind cur_proc (\<lambda>i. kget (\<lambda>s. p_pid (ptable s i)))"

definition sys_sbrk :: "('a ksys_scheme, int) K" where
  "sys_sbrk =
     need (argint 0) (\<lambda>n.
     kbind cur_proc (\<lambda>i.
     kbind (kget (\<lambda>s. p_sz (ptable s i))) (\<lambda>addr.
     kbind (growproc (sint n)) (\<lambda>r.
       if r < 0 then kret (- 1) else kret (sint addr)))))"

definition sys_sleep_loop :: "uint \<Rightarrow> uint \<Rightarrow> ('a ksys_scheme, int) K" where
  "sys_sleep_loop ticks0 n =
     kbind (kget (\<lambda>s. ticks s - ticks0 < n)) (\<lambda>more.
       if more then
         kbind cur_proc (\<lambda>i.
         kbind (kget (\<lambda>s. p_killed (ptable s i))) (\<lambda>killed.
           if killed then kseq (release L_tickslock) (kret (- 1))
           else sleep ChTicks L_tickslock))
       else kseq (release L_tickslock) (kret 0))"

definition sys_sleep :: "('a ksys_scheme, int) K" where
  "sys_sleep =
     need (argint 0) (\<lambda>n.
     kseq (acquire L_tickslock) (
     kbind (kget ticks) (\<lambda>ticks0.
     sys_sleep_loop ticks0 n)))"

definition sys_sleep_resume :: "uint \<Rightarrow> uint \<Rightarrow> ('a ksys_scheme, int) K" where
  "sys_sleep_resume ticks0 n = kseq (sleep_resume L_tickslock) (sys_sleep_loop ticks0 n)"

definition sys_uptime :: "('a ksys_scheme, int) K" where
  "sys_uptime =
     kseq (acquire L_tickslock) (
     kbind (kget ticks) (\<lambda>xticks.
     kseq (release L_tickslock) (
     kret (sint xticks))))"

section \<open>Dispatch\<close>

definition syscalls :: "bytes \<Rightarrow> nat \<Rightarrow> ('a ksys_scheme, int) K option" where
  "syscalls junk n = map_of
     [(1, sys_fork), (2, sys_exit), (3, sys_wait), (4, sys_pipe), (5, sys_write), (6, sys_read),
      (7, sys_close), (8, sys_kill), (9, sys_exec junk), (10, sys_open), (11, sys_mknod),
      (12, sys_unlink), (13, sys_fstat), (14, sys_link), (15, sys_mkdir), (16, sys_chdir),
      (17, sys_dup), (18, sys_getpid), (19, sys_sbrk), (20, sys_sleep), (21, sys_uptime),
      (22, sys_tagFile), (23, sys_removeFileTag), (24, sys_getFileTag), (25, sys_getAllTags),
      (26, sys_getFilesByTag)] n"

definition syscall :: "bytes \<Rightarrow> ('a ksys_scheme, unit) K" where
  "syscall junk =
     kbind cur_proc (\<lambda>i.
     kbind (kget (\<lambda>s. ptable s i)) (\<lambda>p.
     let num = sint (tf_eax (p_tf p)) in
     case (if num > 0 then syscalls junk (nat num) else None) of
       Some h \<Rightarrow> kbind h (\<lambda>r. upd_proc i (\<lambda>p. p\<lparr>p_tf := (p_tf p)\<lparr>tf_eax := of_int r\<rparr>\<rparr>))
     | None \<Rightarrow>
         kseq (cprintf (''%d %s: unknown sys call %d'' @ NL)
           [VInt (of_int (p_pid p)), VStr (Some (str_at (p_name p) 16)), VInt (tf_eax (p_tf p))]) (
         upd_proc i (\<lambda>p. p\<lparr>p_tf := (p_tf p)\<lparr>tf_eax := - 1\<rparr>\<rparr>))))"

section \<open>Traps\<close>

definition trap_tick :: "uint \<Rightarrow> ('a ksys_scheme, unit) K" where
  "trap_tick cpuid = kwhen (cpuid = 0) (
     kseq (acquire L_tickslock) (
     kseq (kmod (\<lambda>s. s\<lparr>ticks := ticks s + 1\<rparr>)) (
     kseq (wakeup ChTicks) (
     release L_tickslock))))"

text \<open>\<open>cpuid\<close> is the number of this CPU, \<open>cr2\<close> the address of a page fault.\<close>

definition trap_fault :: "uint \<Rightarrow> uint \<Rightarrow> trapframe \<Rightarrow> ('a ksys_scheme, unit) K" where
  "trap_fault cpuid cr2 tf =
     kbind (kget cur) (\<lambda>c. case c of
       Some i \<Rightarrow>
         if tf_cs tf AND 3 = 0 then kpanic ''trap''
         else
           kbind (kget (\<lambda>s. ptable s i)) (\<lambda>p.
           kseq (cprintf (''pid %d %s: trap %d err %d on cpu %d '' @ ''eip 0x%x addr 0x%x--kill proc'' @ NL)
             [VInt (of_int (p_pid p)), VStr (Some (str_at (p_name p) 16)), VInt (tf_trapno tf), VInt (tf_err tf),
              VInt cpuid, VInt (tf_eip tf), VInt cr2]) (
           upd_proc i (\<lambda>p. p\<lparr>p_killed := True\<rparr>)))
     | None \<Rightarrow> kpanic ''trap'')"

definition trap_irq :: "uint \<Rightarrow> uint \<Rightarrow> trapframe \<Rightarrow> ('a ksys_scheme, unit) K" where
  "trap_irq cpuid cr2 tf =
     (if tf_trapno tf = 32 then trap_tick cpuid
      else if tf_trapno tf = 46 then ideintr
      else if tf_trapno tf = 47 then kret ()
      else if tf_trapno tf = 33 then kbdintr
      else if tf_trapno tf = 36 then uartintr
      else if tf_trapno tf = 39 \<or> tf_trapno tf = 63 then
        cprintf (''cpu%d: spurious interrupt at %x:%x'' @ NL) [VInt cpuid, VInt (ucast (tf_cs tf)), VInt (tf_eip tf)]
      else trap_fault cpuid cr2 tf)"

text \<open>Exit if the process was killed and the trap came from user space.\<close>

definition trap_killed :: "trapframe \<Rightarrow> ('a ksys_scheme, unit) K" where
  "trap_killed tf =
     kbind (kget (\<lambda>s. case cur s of None \<Rightarrow> False | Some i \<Rightarrow> p_killed (ptable s i))) (\<lambda>killed.
     kwhen (killed \<and> tf_cs tf AND 3 = 3) exit)"

definition killed_now :: "('a ksys_scheme, unit) K" where
  "killed_now =
     kbind cur_proc (\<lambda>i.
     kbind (kget (\<lambda>s. p_killed (ptable s i))) (\<lambda>killed.
     kwhen killed exit))"

definition trap :: "bytes \<Rightarrow> uint \<Rightarrow> uint \<Rightarrow> trapframe \<Rightarrow> ('a ksys_scheme, bool) K" where
  "trap junk cpuid cr2 tf =
     (if tf_trapno tf = 64 then
        kseq killed_now (
        kbind cur_proc (\<lambda>i.
        kseq (upd_proc i (\<lambda>p. p\<lparr>p_tf := tf\<rparr>)) (
        kseq (syscall junk) (
        kseq killed_now (
        kret False)))))
      else
        kseq (trap_irq cpuid cr2 tf) (
        kseq (trap_killed tf) (
        kbind (kget (\<lambda>s. case cur s of None \<Rightarrow> False | Some i \<Rightarrow> p_state (ptable s i) = RUNNING)) (\<lambda>running.
          if running \<and> tf_trapno tf = 32 then kseq yield (kret True)
          else kseq (trap_killed tf) (kret False)))))"

definition trap_resume :: "trapframe \<Rightarrow> ('a ksys_scheme, unit) K" where
  "trap_resume tf = kseq yield_resume (trap_killed tf)"

end
