(* ===== verification/Disk_State.thy ===== *)
theory Disk_State
  imports Bio
begin

text \<open>
  How the file system proofs see the disk. \<open>dst i r s V h\<close>: in state \<open>s\<close> of process \<open>i\<close> the
  buffer cache is in order, every sector reads as \<open>V\<close> says, \<open>h\<close> are the buffers in use, all of
  them written back, and otherwise \<open>s\<close> is the reference state \<open>r\<close> up to what waiting for the
  disk may change. Each cache operation has one rule over \<open>dst\<close>, derived from the contract of
  the cache (locale \<open>block_cache\<close>); the proofs about \<open>fs.c\<close> use these rules only.
\<close>

definition dst :: "nat \<Rightarrow> 'a kide_scheme \<Rightarrow> 'a kide_scheme \<Rightarrow> (uint \<times> uint \<Rightarrow> bytes)
    \<Rightarrow> (nat \<Rightarrow> (uint \<times> uint) option) \<Rightarrow> bool" where
  "dst i r s V h \<longleftrightarrow> cache_ok i s \<and> io_frame i r s \<and> bview s = V \<and> holds s = h
     \<and> (\<forall>c. h c \<noteq> None \<longrightarrow> synced s c)"

lemma dst_start: "cache_ok i s \<Longrightarrow> holds s = Map.empty \<Longrightarrow> dst i s s (bview s) Map.empty"
  by (simp add: dst_def)

lemma dst_frame: "dst i r s V h \<Longrightarrow> io_frame i r s"
  by (simp add: dst_def)

lemma dst_canon: "dst i r s V h \<Longrightarrow> canon (havedisk1 s) = canon (havedisk1 r)"
  by (rule io_frame_addr [OF dst_frame])

lemma dst_sect: "dst i r s V h \<Longrightarrow> sect (V a) = V a"
  by (auto simp: dst_def bview_def viewB_def split: option.splits)

lemma runs_bread [wp]:
  assumes "dst i r s V h" "canon (havedisk1 r) dev sec" "(dev, sec) \<notin> ran h" "card (dom h) < NBUF"
    and "\<And>b t. dst i r t V (h(b \<mapsto> (dev, sec))) \<Longrightarrow> b \<notin> dom h \<Longrightarrow> Q b t"
  shows "runs (bread dev sec) s Q"
proof -
  have pre: "runs (bread dev sec) s (\<lambda>b t. cache_ok i t \<and> io_frame i s t \<and> bview t = bview s
      \<and> holds t = (holds s)(b \<mapsto> (dev, sec)) \<and> holds s b = None \<and> synced t b
      \<and> (\<forall>c. c \<noteq> b \<longrightarrow> synced t c = synced s c))"
    using assms(1-4) dst_canon [OF assms(1)] by (intro bc.rd_law) (auto simp: dst_def)
  show ?thesis
  proof (rule runs_mono [OF pre], elim conjE)
    fix b t
    assume t: "cache_ok i t" "io_frame i s t" "bview t = bview s" "holds t = (holds s)(b \<mapsto> (dev, sec))"
      "holds s b = None" "synced t b" "\<forall>c. c \<noteq> b \<longrightarrow> synced t c = synced s c"
    have "dst i r t V (h(b \<mapsto> (dev, sec)))"
      using assms(1) t io_frame_trans [of i r s t] by (auto simp: dst_def)
    then show "Q b t" using t(5) assms(1) by (intro assms(5)) (auto simp: dst_def)
  qed
qed

lemma dst_data: "dst i r s V h \<Longrightarrow> h b = Some a \<Longrightarrow> sect (b_data (bufs s b)) = V a"
  by (auto simp: dst_def bc.data_law)

lemma runs_get_data [wp]:
  assumes "dst i r s V h" "h b = Some a" "\<And>d. sect d = V a \<Longrightarrow> Q d s"
  shows "runs (get_data b) s Q"
  unfolding get_data_def by (rule runs_kget, rule assms(3), rule dst_data [OF assms(1,2)])

lemma runs_kget_data:
  assumes "dst i r s V h" "h b = Some a" "\<And>d. sect d = V a \<Longrightarrow> Q (g d) s"
  shows "runs (kget (\<lambda>s. g (b_data (bufs s b)))) s Q"
  by (rule runs_kget, rule assms(3), rule dst_data [OF assms(1,2)])

text \<open>A change of a buffer is followed by \<open>bwrite\<close> before anything else happens.\<close>

lemma runs_update:
  assumes "dst i r s V h" "h b = Some a" "local f"
    and "\<And>t. dst i r t (V(a := sect (f (V a)))) h \<Longrightarrow> runs m t Q"
  shows "runs (kseq (upd_data b f) (kseq (bwrite b) m)) s Q"
proof -
  have c: "cache_ok i s" "holds s b = Some a" using assms(1,2) by (simp_all add: dst_def)
  show ?thesis
  proof (rule runs_kseq, rule runs_mono [OF bc.upd_local [OF c assms(3)]], elim conjE)
    fix u t
    assume t: "cache_ok i t" "io_frame i s t" "bview t = (bview s)(a := sect (f (bview s a)))"
      "holds t = holds s" "\<forall>c. c \<noteq> b \<longrightarrow> synced t c = synced s c"
    have h: "holds t b = Some a" using t(4) c(2) by simp
    show "runs (kseq (bwrite b) m) t Q"
    proof (rule runs_kseq, rule runs_mono [OF bc.wr_law [OF t(1) h]], elim conjE, rule assms(4))
      fix u v
      assume v: "cache_ok i v" "io_frame i t v" "bview v = bview t" "holds v = holds t" "synced v b"
        "\<forall>c. holds t c \<noteq> None \<and> c \<noteq> b \<longrightarrow> synced v c = synced t c"
      have "synced v c" if "h c \<noteq> None" for c
      proof (cases "c = b")
        case True
        then show ?thesis using v(5) by simp
      next
        case False
        have "holds t c \<noteq> None" "synced s c" using that assms(1) t(4) by (simp_all add: dst_def)
        then show ?thesis using False v(6) t(5) by simp
      qed
      moreover have "io_frame i r v"
        using assms(1) t(2) v(2) io_frame_trans by (meson dst_frame)
      ultimately show "dst i r v (V(a := sect (f (V a)))) h"
        using assms(1) t v by (simp add: dst_def)
    qed
  qed
qed

lemma runs_brelse [wp]:
  assumes "dst i r s V h" "h b = Some a" "\<And>t. dst i r t V (h(b := None)) \<Longrightarrow> Q () t"
  shows "runs (brelse b) s Q"
proof -
  have c: "cache_ok i s" "holds s b = Some a" "synced s b" using assms(1,2) by (simp_all add: dst_def)
  have "runs (brelse b) s (\<lambda>_ t. dst i r t V (h(b := None)))"
  proof (rule runs_mono [OF bc.rel_law [OF c]], elim conjE)
    fix u t
    assume t: "cache_ok i t" "io_frame i s t" "bview t = bview s" "holds t = (holds s)(b := None)"
      "synced t = synced s"
    then show "dst i r t V (h(b := None))"
      using assms(1) io_frame_trans [of i r s t] by (auto simp: dst_def)
  qed
  then show ?thesis by (rule runs_mono) (simp add: assms(3))
qed

lemma give_back: "b \<notin> dom h \<Longrightarrow> (h(b \<mapsto> a))(b := None) = h"
  by (auto simp: domIff fun_eq_iff)

text \<open>The usual case: the buffer was free before this routine took it.\<close>

lemma runs_give_back:
  assumes "dst i r s V (h(b \<mapsto> a))" "b \<notin> dom h" "\<And>t. dst i r t V h \<Longrightarrow> Q () t"
  shows "runs (brelse b) s Q"
proof (rule runs_brelse [OF assms(1)])
  show "(h(b \<mapsto> a)) b = Some a" by simp
  show "Q () t" if "dst i r t V ((h(b \<mapsto> a))(b := None))" for t
    using that unfolding give_back [OF assms(2)] by (rule assms(3))
qed

lemma runs_read:
  assumes "dst i r s V (h(b \<mapsto> a))" "\<And>d. sect d = V a \<Longrightarrow> Q (g d) s"
  shows "runs (kget (\<lambda>s. g (b_data (bufs s b)))) s Q"
  by (rule runs_kget_data [OF assms(1)]) (simp, rule assms(2))

lemma runs_write:
  assumes "dst i r s V (h(b \<mapsto> a))" "local f"
    and "\<And>t. dst i r t (V(a := sect (f (V a)))) (h(b \<mapsto> a)) \<Longrightarrow> runs m t Q"
  shows "runs (kseq (upd_data b f) (kseq (bwrite b) m)) s Q"
  by (rule runs_update [OF assms(1) _ assms(2,3)]) simp_all

lemma runs_write_release:
  assumes "dst i r s V (h(b \<mapsto> a))" "b \<notin> dom h" "local f"
    and "\<And>t. dst i r t (V(a := sect (f (V a)))) h \<Longrightarrow> Q () t"
  shows "runs (kseq (upd_data b f) (kseq (bwrite b) (brelse b))) s Q"
  by (rule runs_write [OF assms(1,3)], rule runs_give_back [OF _ assms(2)], assumption, rule assms(4))

lemma runs_write_release_then:
  assumes "dst i r s V (h(b \<mapsto> a))" "b \<notin> dom h" "local f"
    and "\<And>t. dst i r t (V(a := sect (f (V a)))) h \<Longrightarrow> runs m t Q"
  shows "runs (kseq (upd_data b f) (kseq (bwrite b) (kseq (brelse b) m))) s Q"
  by (rule runs_write [OF assms(1,3)], rule runs_kseq, rule runs_give_back [OF _ assms(2)], assumption,
      rule assms(4))

lemma card_dom_upd: "finite (dom h) \<Longrightarrow> b \<notin> dom h \<Longrightarrow> card (dom (h(b \<mapsto> a))) = Suc (card (dom h))"
  by (simp add: domIff)

lemma ran_upd: "b \<notin> dom h \<Longrightarrow> ran (h(b \<mapsto> a)) = insert a (ran h)"
  by (simp add: domIff)

lemma dst_finite: "dst i r s V h \<Longrightarrow> finite (dom h)"
  using holds_dom [of s] finite_subset by (auto simp: dst_def)

lemma dst_ready: "dst i r s V h \<Longrightarrow> held s = [] \<and> cur s = Some i \<and> p_state (ptable s i) = RUNNING"
  by (simp add: dst_def cache_ok_def io_ready_def)

text \<open>A section under a lock ends with no lock held, as it began.\<close>

lemma held_nil: "held s = [] \<Longrightarrow> s\<lparr>held := []\<rparr> = s"
  by simp

text \<open>Waking others up does not matter.\<close>

lemma dst_wake:
  assumes "dst i r s V h"
  shows "dst i r (s\<lparr>ptable := wake_table c (ptable s)\<rparr>) V h"
proof -
  have ok: "cache_ok i s" and fr: "io_frame i r s" using assms by (simp_all add: dst_def)
  have run: "p_state (ptable s i) = RUNNING" using dst_ready [OF assms] by simp
  then have "p_state (wake_table c (ptable s) i) = RUNNING" by (simp add: wake_table_def woken_def)
  then have ok': "cache_ok i (s\<lparr>ptable := wake_table c (ptable s)\<rparr>)"
    using ok by (simp add: cache_ok_def io_ready_def ide_inv_def)
  have "tab_rel (Some i) (ptable s) (wake_table c (ptable s))" using run by (intro tab_rel_wake) simp
  then have "tab_rel (Some i) (ptable r) (wake_table c (ptable s))"
    using fr tab_rel_trans by (auto simp: io_frame_def)
  then have "io_frame i r (s\<lparr>ptable := wake_table c (ptable s)\<rparr>)"
    using fr by (simp add: io_frame_def io_same_def)
  then show ?thesis using assms ok' by (simp add: dst_def bview_def holds_def synced_def)
qed

section \<open>A machine with given disks\<close>

text \<open>One running process, all buffers unused, and \<open>D\<close> on the disks: for the witnesses.\<close>

definition boot_disk :: "(uint \<Rightarrow> uint \<Rightarrow> bytes) \<Rightarrow> 'a \<Rightarrow> 'a kide_scheme" where
  "boot_disk D m = \<lparr>held = [], ptable = (\<lambda>i. if i = 0 then zero_proc\<lparr>p_state := RUNNING\<rparr> else zero_proc),
     cur = Some 0, initproc = Some 0, nextpid = 2, phys = (\<lambda>_. 0), freelist = 0, kend = 0,
     bufs = (\<lambda>_. \<lparr>b_flags = 0, b_dev = - 1, b_sector = 0, b_prev = 0, b_next = 0, b_qnext = None,
       b_data = (\<lambda>_. 0)\<rparr>),
     idequeue = None, havedisk1 = True, taskfile = (\<lambda>_. 0), disk = D, ide_err = False, \<dots> = m\<rparr>"

lemma boot_disk_cached:
  "\<exists>t :: 'a kide_scheme. cache_ok 0 t \<and> holds t = Map.empty \<and> io_frame 0 (boot_disk D m) t
     \<and> (\<forall>dev sec. bview t (dev, sec) = sect (D dev sec))"
proof -
  have "io_ready [] 0 (boot_disk D m)" "\<forall>b<NBUF. b_flags (bufs (boot_disk D m) b) = 0"
    by (simp_all add: boot_disk_def io_ready_def ide_inv_def zero_proc_def)
  from binit_cache [OF this] show ?thesis by (auto simp: runs_def boot_disk_def)
qed

lemma boot_disk_have: "io_frame i (boot_disk D m) t \<Longrightarrow> havedisk1 t \<and> cur t = Some 0 \<and> held t = [] \<and> kide.more t = m"
  by (simp add: io_frame_def io_same_def boot_disk_def)

end
