(* ===== verification/Fs_Alloc.thy ===== *)
theory Fs_Alloc
  imports Fs Disk_State
begin

text \<open>
  The free map (\<open>readsb\<close>, \<open>bzero\<close>, \<open>balloc\<close>, \<open>bfree\<close> of \<open>kernel/fs.c\<close>). \<open>used V dev n\<close> is bit \<open>n\<close> of
  the map in the disk contents \<open>V\<close>; \<open>balloc\<close> sets the first bit that is clear and touches no
  other sector, \<open>bfree\<close> clears a bit and zeroes the block.
\<close>

section \<open>Bits\<close>

lemma bit_free_iff: "bit_free d bi \<longleftrightarrow> \<not> bit (d (bi div 8)) (bi mod 8)"
  unfolding bit_free_def by (rule mask_test)

lemma bit_byte: "bi < BPB \<Longrightarrow> bi div 8 < 512"
  by (rule less_mult_imp_div_less) simp

lemma bit_free_sect: "bi < BPB \<Longrightarrow> bit_free (sect d) bi = bit_free d bi"
  by (simp add: bit_free_def sect_at bit_byte)

lemma same_bit_iff: "(bj :: nat) div 8 = bi div 8 \<Longrightarrow> bj mod 8 = bi mod 8 \<longleftrightarrow> bj = bi"
  by (metis div_mult_mod_eq)

lemma bit_mask: "k < 8 \<Longrightarrow> bit (push_bit j (1 :: uchar)) k \<longleftrightarrow> k = j"
  by (auto simp: bit_exp_iff possible_bit_def)

lemma bit_free_mark_used: "bit_free (mark_used bi d) bj \<longleftrightarrow> bit_free d bj \<and> bj \<noteq> bi"
proof (cases "bj div 8 = bi div 8")
  case True
  have "bit (d (bi div 8) OR push_bit (bi mod 8) 1) (bj mod 8) \<longleftrightarrow>
      bit (d (bi div 8)) (bj mod 8) \<or> bj mod 8 = bi mod 8"
    unfolding bit_or_iff by (subst bit_mask) simp_all
  then show ?thesis using True same_bit_iff [OF True] by (simp add: bit_free_iff mark_used_def)
qed (auto simp: bit_free_iff mark_used_def)

lemma bit_free_mark_free: "bit_free (mark_free bi d) bj \<longleftrightarrow> bit_free d bj \<or> bj = bi"
proof (cases "bj div 8 = bi div 8")
  case True
  have "bit (d (bi div 8) AND NOT (push_bit (bi mod 8) 1)) (bj mod 8) \<longleftrightarrow>
      bit (d (bi div 8)) (bj mod 8) \<and> bj mod 8 \<noteq> bi mod 8"
    unfolding bit_and_iff bit_not_iff by (subst bit_mask) (auto simp: possible_bit_def)
  then show ?thesis using True same_bit_iff [OF True] by (auto simp: bit_free_iff mark_free_def)
qed (auto simp: bit_free_iff mark_free_def)

lemma mark_used_free: "\<not> bit_free d bi \<Longrightarrow> mark_used bi (mark_free bi d) = d"
proof
  fix k
  assume *: "\<not> bit_free d bi"
  show "mark_used bi (mark_free bi d) k = d k"
  proof (cases "k = bi div 8")
    case True
    have "(d k AND NOT (push_bit (bi mod 8) 1)) OR push_bit (bi mod 8) 1 = d k"
      using * True by (intro bit_word_eqI) (auto simp: bit_free_iff bit_simps)
    then show ?thesis using True by (simp add: mark_used_def mark_free_def)
  qed (simp add: mark_used_def mark_free_def)
qed

lemma mark_free_used: "bit_free d bi \<Longrightarrow> mark_free bi (mark_used bi d) = d"
proof
  fix k
  assume *: "bit_free d bi"
  show "mark_free bi (mark_used bi d) k = d k"
  proof (cases "k = bi div 8")
    case True
    have "(d k OR push_bit (bi mod 8) 1) AND NOT (push_bit (bi mod 8) 1) = d k"
      using * True by (intro bit_word_eqI) (auto simp: bit_free_iff bit_simps)
    then show ?thesis using True by (simp add: mark_used_def mark_free_def)
  qed (simp add: mark_used_def mark_free_def)
qed

lemma local_mark_used [intro]: "bi < BPB \<Longrightarrow> local (mark_used bi)"
  unfolding mark_used_def by (rule local_upd) (simp add: bit_byte)

lemma local_mark_free [intro]: "bi < BPB \<Longrightarrow> local (mark_free bi)"
  unfolding mark_free_def by (rule local_upd) (simp add: bit_byte)

section \<open>The map in the disk contents\<close>

type_synonym view = "uint \<times> uint \<Rightarrow> bytes"

definition fs_sb :: "view \<Rightarrow> uint \<Rightarrow> superblock" where
  "fs_sb V dev = sb_of (V (dev, 1))"

definition fs_size :: "view \<Rightarrow> uint \<Rightarrow> nat" where
  "fs_size V dev = unat (sb_size (fs_sb V dev))"

text \<open>The first block of the map, and the block with the bit of \<open>n\<close>.\<close>

definition map_start :: "view \<Rightarrow> uint \<Rightarrow> nat" where
  "map_start V dev = unat (sb_ninodes (fs_sb V dev)) div 8 + 3"

definition map_block :: "view \<Rightarrow> uint \<Rightarrow> nat \<Rightarrow> nat" where
  "map_block V dev n = n div BPB + map_start V dev"

definition used :: "view \<Rightarrow> uint \<Rightarrow> nat \<Rightarrow> bool" where
  "used V dev n \<longleftrightarrow> \<not> bit_free (V (dev, of_nat (map_block V dev n))) (n mod BPB)"

text \<open>
  A usable super block: the device is there, the disk fits the 28 bits of a sector number, and
  the map ends before the disk does.
\<close>

definition geometry :: "bool \<Rightarrow> view \<Rightarrow> uint \<Rightarrow> bool" where
  "geometry have1 V dev \<longleftrightarrow> canon have1 dev 0 \<and> fs_size V dev < 2 ^ 28
     \<and> map_start V dev + fs_size V dev div BPB < fs_size V dev"

lemma geometry_canon:
  assumes "geometry have1 V dev" "n < fs_size V dev"
  shows "canon have1 dev (of_nat n)"
proof -
  have "n < 2 ^ 28" using assms by (simp add: geometry_def)
  then have "unat (of_nat n :: uint) < 2 ^ 28" by (simp add: unat_of_nat_small)
  then have "(of_nat n :: uint) < 0x10000000" by (simp add: word_less_nat_alt)
  then show ?thesis using assms(1) by (simp add: geometry_def canon_def)
qed

text \<open>
  The loop of \<open>balloc\<close> goes block by block, so that it also looks at the bits behind the last
  block of the disk, up to the end of the last block of the map.
\<close>

definition scanned :: "view \<Rightarrow> uint \<Rightarrow> nat \<Rightarrow> bool" where
  "scanned V dev n \<longleftrightarrow> n div BPB * BPB < fs_size V dev"

lemma scanned_less [simp]: "n < fs_size V dev \<Longrightarrow> scanned V dev n"
  unfolding scanned_def using div_times_less_eq_dividend [of n BPB] by linarith

lemma scanned_div: "scanned V dev n \<Longrightarrow> n div BPB \<le> fs_size V dev div BPB"
  unfolding scanned_def using div_le_mono [of "n div BPB * BPB" "fs_size V dev" BPB] by simp

lemma geometry_map:
  assumes "geometry have1 V dev" "scanned V dev n"
  shows "map_block V dev n < fs_size V dev"
  using assms(1) scanned_div [OF assms(2)] by (simp add: geometry_def map_block_def)

lemma geometry_small: "geometry have1 V dev \<Longrightarrow> n < fs_size V dev \<Longrightarrow> n < 2 ^ 28"
  by (simp add: geometry_def)

lemma scanned_small:
  assumes "geometry have1 V dev" "scanned V dev n"
  shows "n < 4294967296"
proof -
  have "n < n div BPB * BPB + BPB" using mod_less_divisor [of BPB n] div_mult_mod_eq [of n BPB] by linarith
  moreover have "n div BPB * BPB < 2 ^ 28" using assms by (simp add: scanned_def geometry_def)
  ultimately show ?thesis by simp
qed

lemma sector_eq_iff:
  assumes "geometry have1 V dev" "n < fs_size V dev" "m < fs_size V dev"
  shows "(of_nat n :: uint) = of_nat m \<longleftrightarrow> n = m"
proof -
  have "n < 4294967296" "m < 4294967296"
    using geometry_small [OF assms(1,2)] geometry_small [OF assms(1,3)] by simp_all
  then show ?thesis by (metis unat_of_nat_small)
qed

lemma BBLOCK_map:
  assumes "geometry have1 V dev" "scanned V dev n"
  shows "BBLOCK (of_nat n) (sb_ninodes (fs_sb V dev)) = of_nat (map_block V dev n)"
proof -
  have n: "n < 4294967296" by (rule scanned_small [OF assms])
  have "(of_nat n div 4096 :: uint) = of_nat (n div 4096)"
    using n by (simp add: word_unat_eq_iff unat_div unat_of_nat_small)
  moreover have "(x :: uint) div 8 = of_nat (unat x div 8)" for x
    using uint_bound [of x] by (simp add: word_unat_eq_iff unat_div unat_of_nat_small)
  ultimately show ?thesis by (simp add: BBLOCK_def map_block_def map_start_def)
qed

text \<open>Setting and clearing bit \<open>n\<close>, and zeroing block \<open>n\<close>.\<close>

definition set_used :: "view \<Rightarrow> uint \<Rightarrow> nat \<Rightarrow> view" where
  "set_used V dev n = V((dev, of_nat (map_block V dev n)) :=
     sect (mark_used (n mod BPB) (V (dev, of_nat (map_block V dev n)))))"

definition set_free :: "view \<Rightarrow> uint \<Rightarrow> nat \<Rightarrow> view" where
  "set_free V dev n = V((dev, of_nat (map_block V dev n)) :=
     sect (mark_free (n mod BPB) (V (dev, of_nat (map_block V dev n)))))"

definition zero_block :: "view \<Rightarrow> uint \<Rightarrow> nat \<Rightarrow> view" where
  "zero_block V dev n = V((dev, of_nat n) := (\<lambda>_. 0))"

text \<open>No buffer is in use for the super block, the inodes or the map.\<close>

definition map_end :: "view \<Rightarrow> uint \<Rightarrow> nat" where
  "map_end V dev = map_start V dev + fs_size V dev div BPB + 1"

definition meta_free :: "(nat \<Rightarrow> (uint \<times> uint) option) \<Rightarrow> view \<Rightarrow> uint \<Rightarrow> bool" where
  "meta_free h V dev \<longleftrightarrow> (\<forall>n<map_end V dev. (dev, of_nat n) \<notin> ran h) \<and> card (dom h) < NBUF"

lemma meta_free_sb: "meta_free h V dev \<Longrightarrow> (dev, 1) \<notin> ran h"
  by (force simp: meta_free_def map_end_def map_start_def dest: spec [of _ 1])

lemma map_block_end: "scanned V dev n \<Longrightarrow> map_block V dev n < map_end V dev"
  using scanned_div [of V dev n] by (simp add: map_end_def map_block_def)

lemma meta_free_map: "meta_free h V dev \<Longrightarrow> scanned V dev n \<Longrightarrow> (dev, of_nat (map_block V dev n)) \<notin> ran h"
  unfolding meta_free_def using map_block_end by blast

lemma meta_free_card: "meta_free h V dev \<Longrightarrow> card (dom h) < NBUF"
  by (simp add: meta_free_def)

lemma canon_sb: "geometry have1 V dev \<Longrightarrow> canon have1 dev 1"
  using geometry_canon [of have1 V dev 1] by (auto simp: geometry_def map_start_def)

lemma map_not_sb:
  assumes "geometry have1 V dev" "scanned V dev n"
  shows "(of_nat (map_block V dev n) :: uint) \<noteq> 1"
proof -
  have "map_block V dev n \<noteq> 1" by (simp add: map_block_def map_start_def)
  moreover have "map_block V dev n < 4294967296"
    using geometry_map [OF assms] geometry_small [OF assms(1)] by fastforce
  ultimately show ?thesis by (metis unat_of_nat_small unat_1)
qed

lemma fs_sb_cong: "V (dev, 1) = W (dev, 1) \<Longrightarrow> fs_sb V dev = fs_sb W dev"
  by (simp add: fs_sb_def)

lemma set_used_sb [simp]:
  "geometry have1 V dev \<Longrightarrow> scanned V dev n \<Longrightarrow> fs_sb (set_used V dev n) dev = fs_sb V dev"
  by (rule fs_sb_cong) (simp add: set_used_def map_not_sb [symmetric])

lemma set_free_sb [simp]:
  "geometry have1 V dev \<Longrightarrow> scanned V dev n \<Longrightarrow> fs_sb (set_free V dev n) dev = fs_sb V dev"
  by (rule fs_sb_cong) (simp add: set_free_def map_not_sb [symmetric])

lemma layout_cong:
  assumes "fs_sb V dev = fs_sb W dev"
  shows "fs_size V dev = fs_size W dev" "map_start V dev = map_start W dev"
    "map_block V dev n = map_block W dev n" "geometry have1 V dev = geometry have1 W dev"
    "map_end V dev = map_end W dev" "meta_free h V dev = meta_free h W dev"
  using assms by (simp_all add: fs_size_def map_start_def map_block_def geometry_def map_end_def meta_free_def)

lemma same_block_iff: "(m :: nat) div BPB = n div BPB \<Longrightarrow> m mod BPB = n mod BPB \<longleftrightarrow> m = n"
  by (metis div_mult_mod_eq)

lemma set_used_other: "a \<noteq> (dev, of_nat (map_block V dev n)) \<Longrightarrow> set_used V dev n a = V a"
  by (auto simp: set_used_def)

lemma used_set_used:
  assumes g: "geometry have1 V dev" "scanned V dev n" "scanned V dev m"
  shows "used (set_used V dev n) dev m \<longleftrightarrow> used V dev m \<or> m = n"
proof -
  note b = layout_cong(3) [OF set_used_sb [OF g(1,2)]]
  have eq: "(of_nat (map_block V dev m) :: uint) = of_nat (map_block V dev n) \<longleftrightarrow> m div BPB = n div BPB"
    using sector_eq_iff [OF g(1) geometry_map [OF g(1,3)] geometry_map [OF g(1,2)]]
    by (simp add: map_block_def)
  show ?thesis
  proof (cases "m div BPB = n div BPB")
    case True
    then show ?thesis
      using eq same_block_iff [OF True]
      by (simp add: used_def b) (auto simp: set_used_def bit_free_sect bit_free_mark_used)
  next
    case False
    then show ?thesis using eq by (simp add: used_def b) (auto simp: set_used_def)
  qed
qed

lemma used_set_free:
  assumes g: "geometry have1 V dev" "scanned V dev n" "scanned V dev m"
  shows "used (set_free V dev n) dev m \<longleftrightarrow> used V dev m \<and> m \<noteq> n"
proof -
  note b = layout_cong(3) [OF set_free_sb [OF g(1,2)]]
  have eq: "(of_nat (map_block V dev m) :: uint) = of_nat (map_block V dev n) \<longleftrightarrow> m div BPB = n div BPB"
    using sector_eq_iff [OF g(1) geometry_map [OF g(1,3)] geometry_map [OF g(1,2)]]
    by (simp add: map_block_def)
  show ?thesis
  proof (cases "m div BPB = n div BPB")
    case True
    then show ?thesis
      using eq same_block_iff [OF True]
      by (simp add: used_def b) (auto simp: set_free_def bit_free_sect bit_free_mark_free)
  next
    case False
    then show ?thesis using eq by (simp add: used_def b) (auto simp: set_free_def)
  qed
qed

section \<open>The operations\<close>

lemma sb_of_sect: "sb_of (sect d) = sb_of d"
  by (simp add: sb_of_def rd32_sect)

lemma runs_readsb [wp]:
  assumes "dst i r s V h" "canon (havedisk1 r) dev 1" "(dev, 1) \<notin> ran h" "card (dom h) < NBUF"
    and Q: "\<And>t. dst i r t V h \<Longrightarrow> Q (fs_sb V dev) t"
  shows "runs (readsb dev) s Q"
  unfolding readsb_def
proof (rule runs_kbind, rule runs_bread [OF assms(1-4)], rule runs_kbind)
  fix b t
  assume t: "dst i r t V (h(b \<mapsto> (dev, 1)))" "b \<notin> dom h"
  show "runs (kget (\<lambda>s. sb_of (b_data (bufs s b)))) t (\<lambda>sb u. runs (kseq (brelse b) (kret sb)) u Q)"
  proof (rule runs_read [OF t(1)], rule runs_kseq, rule runs_give_back [OF t], rule runs_kret)
    fix d u
    assume "sect d = V (dev, 1)" "dst i r u V h"
    then show "Q (sb_of d) u" using Q [of u] sb_of_sect [of d] by (simp add: fs_sb_def)
  qed
qed

text \<open>Block \<open>b\<close> of the map has the bits from \<open>b\<close> on, for \<open>b\<close> a multiple of \<open>BPB\<close>.\<close>

lemma used_in_block:
  assumes "b mod BPB = 0" "bi < BPB" "sect d = V (dev, of_nat (map_block V dev b))"
  shows "used V dev (b + bi) \<longleftrightarrow> \<not> bit_free d bi"
proof -
  have "(b + bi) div BPB = b div BPB" "(b + bi) mod BPB = bi"
    using assms(1,2) by (auto simp: mod_eq_0_iff_dvd)
  then show ?thesis
    using assms(2) bit_free_sect [OF assms(2), of d]
    by (simp add: used_def map_block_def assms(3))
qed

definition first_free :: "view \<Rightarrow> uint \<Rightarrow> nat \<Rightarrow> bool" where
  "first_free V dev n \<longleftrightarrow> scanned V dev n \<and> \<not> used V dev n \<and> (\<forall>m<n. used V dev m)"

lemma balloc_block:
  assumes "b mod BPB = 0" "sect d = V (dev, of_nat (map_block V dev b))" "b < fs_size V dev"
    and below: "\<forall>m<b. used V dev m"
  shows "find (bit_free d) [0..<BPB] = Some bi \<Longrightarrow> bi < BPB \<and> first_free V dev (b + bi) \<and> (b + bi) div BPB = b div BPB
      \<and> (b + bi) mod BPB = bi"
    and "find (bit_free d) [0..<BPB] = None \<Longrightarrow> \<forall>m<b + BPB. used V dev m"
proof -
  note u = used_in_block [where V = V and dev = dev, OF assms(1) _ assms(2)]
  have split: "\<exists>bj. m = b + bj \<and> bj < k" if "\<not> m < b" "m < b + k" for m k
    using that by (intro exI [of _ "m - b"]) auto
  show "bi < BPB \<and> first_free V dev (b + bi) \<and> (b + bi) div BPB = b div BPB \<and> (b + bi) mod BPB = bi"
    if "find (bit_free d) [0..<BPB] = Some bi"
  proof -
    have bi: "bi < BPB" "bit_free d bi" "\<forall>j<bi. \<not> bit_free d j"
      using that unfolding find_upt_Some by blast+
    have blk: "(b + bi) div BPB = b div BPB" "(b + bi) mod BPB = bi"
      using assms(1) bi(1) by (auto simp: mod_eq_0_iff_dvd)
    have "used V dev m" if "m < b + bi" for m
      using below split [of m bi] that u bi by (cases "m < b") (auto dest: less_trans)
    moreover have "scanned V dev (b + bi)"
      using assms(1,3) blk(1) by (simp add: scanned_def div_mult_mod_eq mod_eq_0_iff_dvd)
    ultimately show ?thesis using u [of bi] bi blk by (simp add: first_free_def)
  qed
  show "\<forall>m<b + BPB. used V dev m" if none: "find (bit_free d) [0..<BPB] = None"
  proof (intro allI impI)
    fix m
    assume "m < b + BPB"
    moreover have "\<forall>j<BPB. \<not> bit_free d j" using none by (simp only: find_upt_None)
    ultimately show "used V dev m" using below split [of m BPB] u by (cases "m < b") auto
  qed
qed

lemma balloc_loop_runs:
  assumes g: "geometry (havedisk1 r) V dev" "meta_free h V dev"
    and n: "first_free V dev n" and s: "dst i r s V h" and b: "b mod BPB = 0" "b \<le> n"
    and Q: "\<And>t. dst i r t (set_used V dev n) h \<Longrightarrow> Q (of_nat n) t"
  shows "runs (balloc_loop dev (fs_sb V dev) b) s Q"
  using s b
proof (induction "fs_size V dev - b" arbitrary: b s rule: less_induct)
  case less
  have sc: "b < fs_size V dev"
  proof -
    have "b \<le> n div BPB * BPB"
      using less.prems(2,3) div_le_mono [of b n BPB] by (auto simp: mod_eq_0_iff_dvd)
    then show ?thesis using n by (simp add: first_free_def scanned_def)
  qed
  have below: "\<forall>m<b. used V dev m" using n less.prems(3) by (simp add: first_free_def)
  note blk = geometry_map [OF g(1) scanned_less [OF sc]]
  have addr: "canon (havedisk1 r) dev (of_nat (map_block V dev b))" by (rule geometry_canon [OF g(1) blk])
  have nh: "(dev, of_nat (map_block V dev b)) \<notin> ran h" by (rule meta_free_map [OF g(2) scanned_less [OF sc]])
  show ?case
    unfolding balloc_loop.simps [of dev "fs_sb V dev" b]
  proof (subst if_P)
    show "b < unat (sb_size (fs_sb V dev))" using sc by (simp add: fs_size_def)
    show "runs (kbind (bread dev (BBLOCK (of_nat b) (sb_ninodes (fs_sb V dev)))) (\<lambda>bp.
        kbind (kget (\<lambda>s. find (bit_free (b_data (bufs s bp))) [0..<BPB])) (\<lambda>r. case r of
          None \<Rightarrow> kseq (brelse bp) (balloc_loop dev (fs_sb V dev) (b + BPB))
        | Some bi \<Rightarrow> kseq (upd_data bp (mark_used bi)) (kseq (bwrite bp) (kseq (brelse bp)
            (kret (of_nat (b + bi)))))))) s Q"
      unfolding BBLOCK_map [OF g(1) scanned_less [OF sc]]
    proof (rule runs_kbind, rule runs_bread [OF less.prems(1) addr nh meta_free_card [OF g(2)]], rule runs_kbind)
      fix bp t
      assume t: "dst i r t V (h(bp \<mapsto> (dev, of_nat (map_block V dev b))))" "bp \<notin> dom h"
      show "runs (kget (\<lambda>s. find (bit_free (b_data (bufs s bp))) [0..<BPB])) t (\<lambda>r t. runs (case r of
          None \<Rightarrow> kseq (brelse bp) (balloc_loop dev (fs_sb V dev) (b + BPB))
        | Some bi \<Rightarrow> kseq (upd_data bp (mark_used bi)) (kseq (bwrite bp) (kseq (brelse bp)
            (kret (of_nat (b + bi)))))) t Q)"
      proof (rule runs_read [OF t(1)])
        fix d
        assume d: "sect d = V (dev, of_nat (map_block V dev b))"
        note found = balloc_block [OF less.prems(2) d sc below]
        show "runs (case find (bit_free d) [0..<BPB] of
            None \<Rightarrow> kseq (brelse bp) (balloc_loop dev (fs_sb V dev) (b + BPB))
          | Some bi \<Rightarrow> kseq (upd_data bp (mark_used bi)) (kseq (bwrite bp) (kseq (brelse bp)
              (kret (of_nat (b + bi)))))) t Q"
        proof (cases "find (bit_free d) [0..<BPB]")
          case None
          then have "b + BPB \<le> n" using found(2) n by (meson first_free_def not_le)
          have rest: "runs (balloc_loop dev (fs_sb V dev) (b + BPB)) u Q" if "dst i r u V h" for u
            using that less.prems(2) sc \<open>b + BPB \<le> n\<close> by (intro less.hyps) simp_all
          show ?thesis
            unfolding None option.case
            by (rule runs_kseq, rule runs_give_back [OF t], erule rest)
        next
          case (Some bi)
          have bi: "bi < BPB" "first_free V dev (b + bi)" "(b + bi) div BPB = b div BPB" "(b + bi) mod BPB = bi"
            using found(1) [OF Some] by simp_all
          have nb: "n = b + bi"
            using n bi(2) unfolding first_free_def by (metis linorder_neqE_nat)
          have eq: "set_used V dev n = V((dev, of_nat (map_block V dev b)) :=
              sect (mark_used bi (V (dev, of_nat (map_block V dev b)))))"
            using bi(3,4) by (simp add: set_used_def nb map_block_def)
          show ?thesis
            unfolding Some option.case
          proof (rule runs_write_release_then [OF t local_mark_used [OF bi(1)]], rule runs_kret)
            fix u
            assume "dst i r u (V((dev, of_nat (map_block V dev b)) :=
              sect (mark_used bi (V (dev, of_nat (map_block V dev b)))))) h"
            then show "Q (of_nat (b + bi)) u" using Q [of u] by (simp only: eq nb [symmetric])
          qed
        qed
      qed
    qed
  qed
qed

lemma runs_balloc:
  assumes "geometry (havedisk1 r) V dev" "meta_free h V dev" "first_free V dev n" "dst i r s V h"
    and "\<And>t. dst i r t (set_used V dev n) h \<Longrightarrow> Q (of_nat n) t"
  shows "runs (balloc dev) s Q"
  unfolding balloc_def
  by (rule runs_kbind, rule runs_readsb [OF assms(4) canon_sb [OF assms(1)] meta_free_sb [OF assms(2)]
        meta_free_card [OF assms(2)]], rule balloc_loop_runs [OF assms(1-3)], assumption, simp, simp,
      erule assms(5))

lemma sect_zero [simp]: "sect (memset d 0 0 512) = (\<lambda>_. 0)" "sect (\<lambda>_. 0) = (\<lambda>_. 0)"
  by (auto simp: fun_eq_iff sect_at memset_at)

lemma runs_bzero:
  assumes "dst i r s V h" "canon (havedisk1 r) dev bno" "(dev, bno) \<notin> ran h" "card (dom h) < NBUF"
    and Q: "\<And>t. dst i r t (V((dev, bno) := (\<lambda>_. 0))) h \<Longrightarrow> Q () t"
  shows "runs (bzero dev bno) s Q"
  unfolding bzero_def
proof (rule runs_kbind, rule runs_bread [OF assms(1-4)])
  fix b t
  assume t: "dst i r t V (h(b \<mapsto> (dev, bno)))" "b \<notin> dom h"
  show "runs (kseq (upd_data b (\<lambda>d. memset d 0 0 512)) (kseq (bwrite b) (brelse b))) t Q"
    by (intro runs_write_release [OF t local_memset] Q) simp
qed

text \<open>Zeroing a data block touches neither the super block nor the map.\<close>

lemma zero_block_sb:
  assumes "geometry have1 V dev" "map_end V dev \<le> n" "n < fs_size V dev"
  shows "fs_sb (zero_block V dev n) dev = fs_sb V dev"
proof (rule fs_sb_cong)
  have "(of_nat n :: uint) \<noteq> of_nat 1"
    using assms sector_eq_iff [OF assms(1,3), of 1] by (auto simp: map_end_def map_start_def)
  then show "zero_block V dev n (dev, 1) = V (dev, 1)" by (simp add: zero_block_def)
qed

lemma map_block_ne:
  assumes "geometry have1 V dev" "map_end V dev \<le> n" "n < fs_size V dev" "scanned V dev m"
  shows "(of_nat (map_block V dev m) :: uint) \<noteq> of_nat n"
  using map_block_end [OF assms(4)] assms(2) sector_eq_iff [OF assms(1) geometry_map [OF assms(1,4)] assms(3)] by simp

lemma zero_block_map:
  assumes "geometry have1 V dev" "map_end V dev \<le> n" "n < fs_size V dev" "scanned V dev m"
  shows "zero_block V dev n (dev, of_nat (map_block V dev m)) = V (dev, of_nat (map_block V dev m))"
  using map_block_ne [OF assms] by (simp add: zero_block_def)

lemma used_zero_block:
  assumes "geometry have1 V dev" "map_end V dev \<le> n" "n < fs_size V dev" "scanned V dev m"
  shows "used (zero_block V dev n) dev m = used V dev m"
  using zero_block_map [OF assms] layout_cong(3) [OF zero_block_sb [OF assms(1-3)]]
  by (simp add: used_def)

text \<open>\<open>bfree\<close> up to its test of the bit.\<close>

lemma bfree_test:
  assumes g: "geometry (havedisk1 r) V dev" "meta_free h V dev" and s: "dst i r s V h"
    and n: "map_end V dev \<le> n" "n < fs_size V dev" "(dev, of_nat n) \<notin> ran h"
    and Q: "\<And>b t. dst i r t (zero_block V dev n) (h(b \<mapsto> (dev, of_nat (map_block V dev n)))) \<Longrightarrow> b \<notin> dom h \<Longrightarrow>
      P ((if \<not> used V dev n then kpanic ''freeing free block''
       else kseq (upd_data b (mark_free (n mod BPB))) (kseq (bwrite b) (brelse b))) t)"
  shows "P (bfree dev (of_nat n) s)"
proof -
  let ?V = "zero_block V dev n"
  have un: "unat (of_nat n :: uint) = n" using geometry_small [OF g(1) n(2)] by (simp add: unat_of_nat_small)
  note same = layout_cong [OF zero_block_sb [OF g(1) n(1,2)]]
  have g': "geometry (havedisk1 r) ?V dev" "meta_free h ?V dev" using g same by simp_all
  have sc: "scanned V dev n" using n(2) by simp
  show ?thesis
    unfolding bfree_def
  proof (rule kseq_outcome [where P = P], rule runs_bzero [OF s geometry_canon [OF g(1) n(2)] n(3) meta_free_card [OF g(2)]],
      rule kbind_outcome [where P = P])
    fix t
    assume "dst i r t (V((dev, of_nat n) := (\<lambda>_. 0))) h"
    then have t: "dst i r t ?V h" by (simp add: zero_block_def)
    show "runs (readsb dev) t (\<lambda>sb t. P (kbind (bread dev (BBLOCK (of_nat n) (sb_ninodes sb))) (\<lambda>bp.
        kbind (kget (\<lambda>s. bit_free (b_data (bufs s bp)) (unat (of_nat n :: uint) mod BPB))) (\<lambda>free.
          if free then kpanic ''freeing free block''
          else kseq (upd_data bp (mark_free (unat (of_nat n :: uint) mod BPB))) (kseq (bwrite bp) (brelse bp)))) t))"
    proof (rule runs_readsb [OF t canon_sb [OF g(1)] meta_free_sb [OF g(2)] meta_free_card [OF g(2)]],
        unfold zero_block_sb [OF g(1) n(1,2)] BBLOCK_map [OF g(1) sc] un, rule kbind_outcome [where P = P])
      fix u
      assume u: "dst i r u ?V h"
      show "runs (bread dev (of_nat (map_block V dev n))) u (\<lambda>bp t.
          P (kbind (kget (\<lambda>s. bit_free (b_data (bufs s bp)) (n mod BPB))) (\<lambda>free.
            if free then kpanic ''freeing free block''
            else kseq (upd_data bp (mark_free (n mod BPB))) (kseq (bwrite bp) (brelse bp))) t))"
      proof (rule runs_bread [OF u geometry_canon [OF g(1) geometry_map [OF g(1) sc]]
            meta_free_map [OF g(2) sc] meta_free_card [OF g(2)]], rule kbind_outcome [where P = P])
        fix b v
        assume v: "dst i r v ?V (h(b \<mapsto> (dev, of_nat (map_block V dev n))))" "b \<notin> dom h"
        show "runs (kget (\<lambda>s. bit_free (b_data (bufs s b)) (n mod BPB))) v (\<lambda>free t.
            P ((if free then kpanic ''freeing free block''
             else kseq (upd_data b (mark_free (n mod BPB))) (kseq (bwrite b) (brelse b))) t))"
        proof (rule runs_read [OF v(1)])
          fix d
          assume "sect d = ?V (dev, of_nat (map_block V dev n))"
          then have "bit_free d (n mod BPB) \<longleftrightarrow> \<not> used V dev n"
            using bit_free_sect [of "n mod BPB" d] by (simp add: used_def zero_block_map [OF g(1) n(1,2) sc])
          then show "P ((if bit_free d (n mod BPB) then kpanic ''freeing free block''
             else kseq (upd_data b (mark_free (n mod BPB))) (kseq (bwrite b) (brelse b))) v)"
            using Q [OF v] by simp
        qed
      qed
    qed
  qed
qed

lemma runs_bfree:
  assumes "geometry (havedisk1 r) V dev" "meta_free h V dev" "dst i r s V h"
    and n: "map_end V dev \<le> n" "n < fs_size V dev" "(dev, of_nat n) \<notin> ran h" and u: "used V dev n"
    and Q: "\<And>t. dst i r t (set_free (zero_block V dev n) dev n) h \<Longrightarrow> Q () t"
  shows "runs (bfree dev (of_nat n)) s Q"
  unfolding runs_returns
proof (rule bfree_test [OF assms(1-3) n])
  fix b t
  assume t: "dst i r t (zero_block V dev n) (h(b \<mapsto> (dev, of_nat (map_block V dev n))))" "b \<notin> dom h"
  have "runs (kseq (upd_data b (mark_free (n mod BPB))) (kseq (bwrite b) (brelse b))) t Q"
    using layout_cong(3) [OF zero_block_sb [OF assms(1) n(1,2)]]
    by (intro runs_write_release [OF t local_mark_free] Q) (simp_all add: set_free_def)
  then show "returns Q ((if \<not> used V dev n then kpanic ''freeing free block''
      else kseq (upd_data b (mark_free (n mod BPB))) (kseq (bwrite b) (brelse b))) t)"
    using u by (simp add: runs_returns)
qed

lemma bfree_free_panics:
  assumes "geometry (havedisk1 r) V dev" "meta_free h V dev" "dst i r s V h"
    and n: "map_end V dev \<le> n" "n < fs_size V dev" "(dev, of_nat n) \<notin> ran h" and u: "\<not> used V dev n"
  shows "bfree dev (of_nat n) s = Panic ''freeing free block''"
  by (rule bfree_test [OF assms(1-3) n]) (simp add: u kpanic_def)

text \<open>A full map: the loop comes to its end.\<close>

lemma balloc_loop_full:
  assumes g: "geometry (havedisk1 r) V dev" "meta_free h V dev" and full: "\<forall>n. scanned V dev n \<longrightarrow> used V dev n"
    and s: "dst i r s V h" and b: "b mod BPB = 0"
  shows "balloc_loop dev (fs_sb V dev) b s = Panic ''balloc: out of blocks''"
  using s b
proof (induction "fs_size V dev - b" arbitrary: b s rule: less_induct)
  case less
  show ?case
  proof (cases "b < fs_size V dev")
    case True
    have blk: "map_block V dev b < fs_size V dev" using True by (intro geometry_map [OF g(1)]) simp
    have u: "used V dev (b + bi)" if "bi < BPB" for bi
    proof -
      have "(b + bi) div BPB * BPB = b" using less.prems(2) that by (auto simp: mod_eq_0_iff_dvd)
      then show ?thesis using full True by (simp add: scanned_def)
    qed
    have "b < unat (sb_size (fs_sb V dev))" using True by (simp add: fs_size_def)
    moreover have "kbind (bread dev (of_nat (map_block V dev b))) (\<lambda>bp.
        kbind (kget (\<lambda>s. find (bit_free (b_data (bufs s bp))) [0..<BPB])) (\<lambda>r. case r of
          None \<Rightarrow> kseq (brelse bp) (balloc_loop dev (fs_sb V dev) (b + BPB))
        | Some bi \<Rightarrow> kseq (upd_data bp (mark_used bi)) (kseq (bwrite bp) (kseq (brelse bp)
            (kret (of_nat (b + bi))))))) s = Panic ''balloc: out of blocks''"
    proof (rule kbind_outcome, rule runs_bread [OF less.prems(1) geometry_canon [OF g(1) blk]
          meta_free_map [OF g(2)] meta_free_card [OF g(2)]])
      show "scanned V dev b" using True by simp
      fix bp t
      assume t: "dst i r t V (h(bp \<mapsto> (dev, of_nat (map_block V dev b))))" "bp \<notin> dom h"
      show "kbind (kget (\<lambda>s. find (bit_free (b_data (bufs s bp))) [0..<BPB])) (\<lambda>r. case r of
          None \<Rightarrow> kseq (brelse bp) (balloc_loop dev (fs_sb V dev) (b + BPB))
        | Some bi \<Rightarrow> kseq (upd_data bp (mark_used bi)) (kseq (bwrite bp) (kseq (brelse bp)
            (kret (of_nat (b + bi)))))) t = Panic ''balloc: out of blocks''"
      proof (rule kbind_outcome, rule runs_read [OF t(1)])
        fix d
        assume d: "sect d = V (dev, of_nat (map_block V dev b))"
        have "find (bit_free d) [0..<BPB] = None"
          unfolding find_upt_None using u used_in_block [where V = V and dev = dev, OF less.prems(2) _ d] by blast
        moreover have "kseq (brelse bp) (balloc_loop dev (fs_sb V dev) (b + BPB)) t
            = Panic ''balloc: out of blocks''"
          using less.hyps [of "b + BPB"] True less.prems(2)
          by (intro kseq_outcome [where P = "\<lambda>x. x = Panic ''balloc: out of blocks''"] runs_give_back [OF t]) simp
        ultimately show "(case find (bit_free d) [0..<BPB] of
            None \<Rightarrow> kseq (brelse bp) (balloc_loop dev (fs_sb V dev) (b + BPB))
          | Some bi \<Rightarrow> kseq (upd_data bp (mark_used bi)) (kseq (bwrite bp) (kseq (brelse bp)
              (kret (of_nat (b + bi)))))) t = Panic ''balloc: out of blocks''"
          by simp
      qed
    qed
    ultimately show ?thesis
      using BBLOCK_map [OF g(1) scanned_less [OF True]] by (subst balloc_loop.simps) (simp del: of_nat_add)
  next
    case False
    then show ?thesis by (subst balloc_loop.simps) (simp add: fs_size_def kpanic_def)
  qed
qed

lemma set_used_free:
  assumes "geometry have1 V dev" "scanned V dev n" "used V dev n" "sect (V (dev, of_nat (map_block V dev n))) = V (dev, of_nat (map_block V dev n))"
  shows "set_used (set_free V dev n) dev n = V"
proof -
  let ?a = "(dev, of_nat (map_block V dev n) :: uint)"
  have "mark_used (n mod BPB) (mark_free (n mod BPB) (V ?a)) = V ?a"
    using assms(3) by (intro mark_used_free) (simp add: used_def)
  moreover have "sect (mark_used (n mod BPB) (sect d)) = sect (mark_used (n mod BPB) d)" for d
    using local_mark_used [of "n mod BPB"] by (simp add: local_def)
  ultimately have "sect (mark_used (n mod BPB) (sect (mark_free (n mod BPB) (V ?a)))) = V ?a"
    using assms(4) by simp
  then show ?thesis
    using layout_cong(3) [OF set_free_sb [OF assms(1,2)]]
    by (simp add: set_used_def) (simp add: set_free_def fun_eq_iff)
qed

section \<open>Correctness of the free map\<close>

text \<open>A disk of 64 blocks with 8 inodes; blocks 0 to 4 are in use. For the witnesses.\<close>

definition small_disk :: "uint \<Rightarrow> uint \<Rightarrow> bytes" where
  "small_disk dev sec = (if sec = 1 then wr32 (wr32 (wr32 (\<lambda>_. 0) 0 64) 4 40) 8 8
     else if sec = 4 then (\<lambda>_. 0)(0 := 0x1f) else (\<lambda>_. 0))"

lemma small_fs:
  assumes "\<forall>dev sec. V (dev, sec) = sect (small_disk dev sec)"
  shows "fs_size V 1 = 64" "map_start V 1 = 4" "map_end V 1 = 5" "geometry True V 1"
    "n < 64 \<Longrightarrow> used V 1 n = (n < 5)" "first_free V 1 5"
proof -
  have sb: "fs_sb V 1 = \<lparr>sb_size = 64, sb_nblocks = 40, sb_ninodes = 8\<rparr>"
    by (simp add: fs_sb_def assms sb_of_sect) (simp add: small_disk_def sb_of_def bytes_simps)
  show l: "fs_size V 1 = 64" "map_start V 1 = 4" "map_end V 1 = 5"
    by (simp_all add: fs_size_def map_start_def map_end_def sb)
  then show "geometry True V 1" by (simp add: geometry_def canon_def)
  show u: "used V 1 n = (n < 5)" if "n < 64" for n
  proof -
    have "used V 1 n \<longleftrightarrow> \<not> bit_free (sect (small_disk 1 4)) n"
      using that by (simp add: used_def map_block_def l assms)
    also have "\<dots> \<longleftrightarrow> bit ((if n div 8 = 0 then 0x1f else 0) :: uchar) (n mod 8)"
      using that by (subst bit_free_sect) (simp_all add: bit_free_iff small_disk_def)
    also have "\<dots> \<longleftrightarrow> n < 5"
    proof (cases "n < 8")
      case True
      then have "n \<in> {0, 1, 2, 3, 4, 5, 6, 7}" by auto
      then show ?thesis by (auto simp: bit_numeral_rec)
    qed auto
    finally show ?thesis .
  qed
  show "first_free V 1 5" using u by (simp add: first_free_def scanned_def l)
qed

text \<open>
  C15: \<open>balloc\<close> returns the first block whose bit is clear, sets that bit and no other, and
  changes no sector but the one with that bit; when no bit of the map is clear it panics.
\<close>

theorem balloc_correct:
  fixes s :: "'a kide_scheme"
  assumes "cache_ok i s" "holds s = Map.empty" "geometry (havedisk1 s) (bview s) dev"
  shows "(\<forall>n. first_free (bview s) dev n \<longrightarrow> runs (balloc dev) s (\<lambda>b t. b = of_nat n
      \<and> cache_ok i t \<and> holds t = Map.empty
      \<and> (\<forall>m. scanned (bview s) dev m \<longrightarrow> used (bview t) dev m = (used (bview s) dev m \<or> m = n))
      \<and> (\<forall>a. a \<noteq> (dev, of_nat (map_block (bview s) dev n)) \<longrightarrow> bview t a = bview s a)))
    \<and> ((\<forall>n. scanned (bview s) dev n \<longrightarrow> used (bview s) dev n) \<longrightarrow>
      balloc dev s = Panic ''balloc: out of blocks'')"
proof (intro conjI allI impI)
  have s: "dst i s s (bview s) Map.empty" by (rule dst_start [OF assms(1,2)])
  have m: "meta_free Map.empty (bview s) dev" by (simp add: meta_free_def)
  show "runs (balloc dev) s (\<lambda>b t. b = of_nat n \<and> cache_ok i t \<and> holds t = Map.empty
      \<and> (\<forall>m. scanned (bview s) dev m \<longrightarrow> used (bview t) dev m = (used (bview s) dev m \<or> m = n))
      \<and> (\<forall>a. a \<noteq> (dev, of_nat (map_block (bview s) dev n)) \<longrightarrow> bview t a = bview s a))"
    if n: "first_free (bview s) dev n" for n
    using n by (intro runs_balloc [OF assms(3) m n s])
      (simp add: dst_def used_set_used [OF assms(3)] first_free_def set_used_other)
  show "balloc dev s = Panic ''balloc: out of blocks''"
    if "\<forall>n. scanned (bview s) dev n \<longrightarrow> used (bview s) dev n"
    unfolding balloc_def
    by (rule kbind_outcome, rule runs_readsb [OF s canon_sb [OF assms(3)] meta_free_sb [OF m] meta_free_card [OF m]],
        rule balloc_loop_full [OF assms(3) m that]) simp_all
qed

theorem balloc_correct_witness:
  "\<exists>s :: kide. geometry (havedisk1 s) (bview s) 1 \<and> runs (balloc 1) s (\<lambda>b t. b = 5 \<and> used (bview t) 1 5)"
proof -
  obtain s :: kide where s: "cache_ok 0 s" "holds s = Map.empty" "io_frame 0 (boot_disk small_disk ()) s"
      "\<forall>dev sec. bview s (dev, sec) = sect (small_disk dev sec)"
    using boot_disk_cached [of small_disk "()"] by blast
  note f = small_fs [OF s(4)]
  have g: "geometry (havedisk1 s) (bview s) 1" using f(4) boot_disk_have [OF s(3)] by simp
  have "runs (balloc 1) s (\<lambda>b t. b = of_nat 5 \<and> cache_ok 0 t \<and> holds t = Map.empty
      \<and> (\<forall>m. scanned (bview s) 1 m \<longrightarrow> used (bview t) 1 m = (used (bview s) 1 m \<or> m = 5))
      \<and> (\<forall>a. a \<noteq> (1, of_nat (map_block (bview s) 1 5)) \<longrightarrow> bview t a = bview s a))"
    using balloc_correct [OF s(1,2) g] f(6) by blast
  then have "runs (balloc 1) s (\<lambda>b t. b = 5 \<and> used (bview t) 1 5)"
    by (rule runs_mono) (simp add: scanned_def f(1))
  then show ?thesis using g by blast
qed

text \<open>
  The scan does not stop at the end of the disk: with every block of the disk in use and a
  clear bit behind the last one, \<open>balloc\<close> hands out a block that does not exist.
\<close>

lemma balloc_beyond_disk:
  assumes "cache_ok i s" "holds s = Map.empty" "geometry (havedisk1 s) (bview s) dev"
    and "\<forall>m<fs_size (bview s) dev. used (bview s) dev m"
    and "fs_size (bview s) dev mod BPB \<noteq> 0" "\<not> used (bview s) dev (fs_size (bview s) dev)"
  shows "runs (balloc dev) s (\<lambda>b t. unat b = fs_size (bview s) dev)"
proof (rule runs_balloc [OF assms(3) _ _ dst_start [OF assms(1,2)]])
  let ?n = "fs_size (bview s) dev"
  show "meta_free Map.empty (bview s) dev" by (simp add: meta_free_def)
  have "?n div BPB * BPB < ?n" using assms(5) by (metis div_mult_mod_eq less_add_same_cancel1 neq0_conv)
  then show "first_free (bview s) dev ?n" using assms(4,6) by (simp add: first_free_def scanned_def)
  show "unat (of_nat ?n :: uint) = ?n" using assms(3) by (simp add: geometry_def unat_of_nat_small)
qed

lemma free_then_used:
  fixes V :: view
  assumes g: "geometry have1 V dev" and n: "map_end V dev \<le> n" "n < fs_size V dev" and "m \<le> n" and u: "used V dev n"
  defines "W \<equiv> set_free (zero_block V dev n) dev n"
  shows "geometry have1 W dev = geometry have1 V dev \<and> map_end W dev = map_end V dev"
    and "\<forall>k<m. used V dev k \<Longrightarrow> m = n \<or> \<not> used V dev m \<Longrightarrow> first_free W dev m"
    and "scanned V dev k \<Longrightarrow> used (set_used W dev m) dev k = (k = m \<or> used V dev k \<and> k \<noteq> n)"
    and "set_used W dev m (dev, of_nat n) = (\<lambda>_. 0)"
    and "a \<noteq> (dev, of_nat n) \<Longrightarrow> \<forall>k. scanned V dev k \<longrightarrow> a \<noteq> (dev, of_nat (map_block V dev k)) \<Longrightarrow> set_used W dev m a = V a"
    and "\<forall>a. sect (V a) = V a \<Longrightarrow> m = n \<Longrightarrow> set_used W dev m = V((dev, of_nat n) := (\<lambda>_. 0))"
proof -
  let ?Z = "zero_block V dev n"
  note same = layout_cong [OF zero_block_sb [OF g n]]
  have gz: "geometry have1 ?Z dev" using g same by simp
  note same' = layout_cong [OF set_free_sb [OF gz, of n]]
  have sc: "scanned ?Z dev k = scanned V dev k" "scanned W dev k = scanned V dev k" for k
    using same same' n(2) by (simp_all add: scanned_def W_def)
  have gw: "geometry have1 W dev" and mb: "map_block W dev k = map_block V dev k" for k
    using gz same same' n(2) sc by (simp_all add: W_def map_block_def)
  show "geometry have1 W dev = geometry have1 V dev \<and> map_end W dev = map_end V dev"
    using gw g same same' n(2) sc by (simp add: W_def map_end_def)
  have sn: "scanned V dev k" if "k \<le> n" for k using that n(2) by simp
  have uw: "used W dev k = (used V dev k \<and> k \<noteq> n)" if "scanned V dev k" for k
    using used_set_free [OF gz, of n k] used_zero_block [OF g n that] that sn sc by (simp add: W_def)
  show "first_free W dev m" if "\<forall>k<m. used V dev k" "m = n \<or> \<not> used V dev m"
    using that uw sn \<open>m \<le> n\<close> sc by (auto simp: first_free_def)
  show "used (set_used W dev m) dev k = (k = m \<or> used V dev k \<and> k \<noteq> n)" if "scanned V dev k"
    using used_set_used [OF gw, of m k] uw that sn \<open>m \<le> n\<close> sc by auto
  have ne: "(dev, of_nat n :: uint) \<noteq> (dev, of_nat (map_block V dev k))" if "scanned V dev k" for k
    using map_block_ne [OF g n that] by auto
  show "set_used W dev m (dev, of_nat n) = (\<lambda>_. 0)"
    using ne sn \<open>m \<le> n\<close> same mb by (simp add: set_used_other W_def set_free_def zero_block_def)
  show "set_used W dev m a = V a"
    if "a \<noteq> (dev, of_nat n)" "\<forall>k. scanned V dev k \<longrightarrow> a \<noteq> (dev, of_nat (map_block V dev k))"
    using that sn \<open>m \<le> n\<close> same mb by (auto simp: set_used_def W_def set_free_def zero_block_def)
  show "set_used W dev m = V((dev, of_nat n) := (\<lambda>_. 0))" if "\<forall>a. sect (V a) = V a" "m = n"
    using n(2) sc u that same used_zero_block [OF g n sn] unfolding W_def that(2)
    by (subst set_used_free [OF gz]) (simp_all add: zero_block_map [OF g n] zero_block_def)
qed



end
