(* ===== verification/Fs_Inode.thy ===== *)
theory Fs_Inode
  imports Fs_Alloc
begin

text \<open>
  The inode cache (\<open>iget\<close>, \<open>idup\<close>, \<open>ilock\<close>, \<open>iunlock\<close>, \<open>iupdate\<close> of \<open>kernel/fs.c\<close>): what each
  operation does to the table \<open>inodes\<close> and to the disk. The reference state of \<open>dst\<close> carries
  the table.
\<close>

lemma io_frame_inodes: "io_frame i r s \<Longrightarrow> inodes s = inodes r"
  by (cases r rule: kfs.cases_scheme, cases s rule: kfs.cases_scheme)
    (simp add: io_frame_def io_same_def)

lemma dst_inodes: "dst i r s V h \<Longrightarrow> inodes s = inodes r"
  by (rule io_frame_inodes [OF dst_frame])

lemma dst_set_inodes:
  assumes "dst i r s V h"
  shows "dst i (r\<lparr>inodes := T\<rparr>) (s\<lparr>inodes := T\<rparr>) V h"
proof -
  have ok: "cache_ok i s" and fr: "io_frame i r s" using assms by (simp_all add: dst_def)
  have "kide.more (s\<lparr>inodes := T\<rparr>) = kide.more (r\<lparr>inodes := T\<rparr>)"
    using fr by (cases r rule: kfs.cases_scheme, cases s rule: kfs.cases_scheme)
      (simp add: io_frame_def io_same_def)
  then have "io_frame i (r\<lparr>inodes := T\<rparr>) (s\<lparr>inodes := T\<rparr>)"
    using fr by (simp add: io_frame_def io_same_def)
  moreover have "cache_ok i (s\<lparr>inodes := T\<rparr>)"
    using ok by (simp add: cache_ok_def io_ready_def ide_inv_def)
  ultimately show ?thesis using assms by (simp add: dst_def bview_def holds_def synced_def)
qed

lemma set_inodes_same [simp]: "r\<lparr>inodes := inodes r\<rparr> = r"
  by simp

lemma runs_upd_inode [wp]:
  assumes "dst i r s V h" "\<And>t. dst i (r\<lparr>inodes := (inodes r)(ip := f (inodes r ip))\<rparr>) t V h \<Longrightarrow> Q () t"
  shows "runs (upd_inode ip f) s Q"
  unfolding upd_inode_def
  using assms(2) [OF dst_set_inodes [OF assms(1)]] dst_inodes [OF assms(1)] by (intro runs_kmod) simp

lemma runs_kget_inode [wp]:
  assumes "dst i r s V h" "Q (g (inodes r)) s"
  shows "runs (kget (\<lambda>s. g (inodes s))) s Q"
  using assms(2) dst_inodes [OF assms(1)] by (intro runs_kget) simp

section \<open>Inodes on disk\<close>

text \<open>The disk inode \<open>inum\<close>, copied into the in-memory inode \<open>p\<close>.\<close>

definition disk_inode :: "view \<Rightarrow> inode \<Rightarrow> inode" where
  "disk_inode V p = load_dinode (V (i_dev p, IBLOCK (i_inum p))) (dinode_off (i_inum p)) p"

definition put_inode :: "view \<Rightarrow> inode \<Rightarrow> view" where
  "put_inode V p = V((i_dev p, IBLOCK (i_inum p)) :=
     sect (store_dinode p (dinode_off (i_inum p)) (V (i_dev p, IBLOCK (i_inum p)))))"

lemma disk_inode_same [simp]:
  "i_flags (disk_inode V p) = i_flags p" "i_dev (disk_inode V p) = i_dev p" "i_inum (disk_inode V p) = i_inum p"
  "i_ref (disk_inode V p) = i_ref p" "i_tags (disk_inode V p) = i_tags p"
  by (simp_all add: disk_inode_def load_dinode_def)

lemma dinode_off_bound: "dinode_off inum + 64 \<le> 512"
  by (simp add: dinode_off_def)

lemma local_put_words: "local (\<lambda>d. put_words d q a k)"
  by (induction k) (auto intro: local_comp [OF local_wr32])

lemma put_words_other: "j < q \<or> q + 4 * k \<le> j \<Longrightarrow> put_words d q a k j = d j"
  by (induction k) (auto simp: wr32_other)

lemma rd32_put_words: "j < k \<Longrightarrow> rd32 (put_words d q a k) (q + 4 * j) = a j"
proof (induction k)
  case (Suc k)
  then show ?case by (cases "j = k") (simp_all add: bytes_simps)
qed simp

lemma rd32_put_words_before: "b + 4 \<le> q \<Longrightarrow> rd32 (put_words d q a k) b = rd32 d b"
  by (rule rd32_cong) (simp add: put_words_other)

lemma rd16_put_words_before: "b + 2 \<le> q \<Longrightarrow> rd16 (put_words d q a k) b = rd16 d b"
  by (rule rd16_cong) (simp add: put_words_other)

lemma local_store_dinode: "local (store_dinode p q)"
  unfolding store_dinode_def [abs_def]
  by (intro local_comp [OF local_put_words] local_comp [OF local_wr32] local_comp [OF local_wr16] local_id)

lemma load_dinode_sect: "q + 64 \<le> 512 \<Longrightarrow> load_dinode (sect d) q p = load_dinode d q p"
  by (auto simp: load_dinode_def rd16_sect rd32_sect fun_eq_iff)

text \<open>What is loaded after a store: everything the disk inode has, and that is not the tags.\<close>

lemma load_store:
  "load_dinode (store_dinode p q d) q p' = p'\<lparr>i_type := i_type p, i_major := i_major p, i_minor := i_minor p,
     i_nlink := i_nlink p, i_size := i_size p,
     i_addrs := (\<lambda>k. if k < NDIRECT + 1 then i_addrs p k else i_addrs p' k)\<rparr>"
proof -
  have "rd32 (store_dinode p q d) (q + 12 + 4 * k) = i_addrs p k" if "k < NDIRECT + 1" for k
    using rd32_put_words [OF that, where q = "q + 12"] by (simp add: store_dinode_def)
  moreover have "rd16 (store_dinode p q d) q = i_type p" "rd16 (store_dinode p q d) (q + 2) = i_major p"
      "rd16 (store_dinode p q d) (q + 4) = i_minor p" "rd16 (store_dinode p q d) (q + 6) = i_nlink p"
      "rd32 (store_dinode p q d) (q + 8) = i_size p"
    by (simp_all add: store_dinode_def rd16_put_words_before rd32_put_words_before bytes_simps)
  ultimately show ?thesis by (simp add: load_dinode_def cong: if_cong)
qed

lemma disk_inode_put:
  assumes "i_dev p' = i_dev p" "i_inum p' = i_inum p"
  shows "disk_inode (put_inode V p) p' = p'\<lparr>i_type := i_type p, i_major := i_major p, i_minor := i_minor p,
     i_nlink := i_nlink p, i_size := i_size p,
     i_addrs := (\<lambda>k. if k < NDIRECT + 1 then i_addrs p k else i_addrs p' k)\<rparr>"
  using assms load_store by (simp add: disk_inode_def put_inode_def load_dinode_sect [OF dinode_off_bound])

lemma runs_iupdate:
  assumes s: "dst i r s V h" and p: "inodes r ip = p"
    and a: "canon (havedisk1 r) (i_dev p) (IBLOCK (i_inum p))" "(i_dev p, IBLOCK (i_inum p)) \<notin> ran h"
      "card (dom h) < NBUF"
    and Q: "\<And>t. dst i r t (put_inode V p) h \<Longrightarrow> Q () t"
  shows "runs (iupdate ip) s Q"
  unfolding iupdate_def
proof (rule runs_kbind, rule runs_kget_inode [OF s, where g = "\<lambda>T. T ip"], unfold p, rule runs_kbind,
    rule runs_bread [OF s a])
  fix b t
  assume t: "dst i r t V (h(b \<mapsto> (i_dev p, IBLOCK (i_inum p))))" "b \<notin> dom h"
  show "runs (kseq (upd_data b (store_dinode p (dinode_off (i_inum p)))) (kseq (bwrite b) (brelse b))) t Q"
    by (rule runs_write_release [OF t local_store_dinode], rule Q) (simp add: put_inode_def)
qed

section \<open>Locking an inode\<close>

text \<open>The inode as \<open>ilock\<close> leaves it: busy, and read from disk if it was not valid.\<close>

definition locked :: "view \<Rightarrow> inode \<Rightarrow> inode" where
  "locked V p = (let q = p\<lparr>i_flags := i_flags p OR I_BUSY\<rparr> in
     if i_flags p AND I_VALID \<noteq> 0 then q else (disk_inode V q)\<lparr>i_flags := i_flags q OR I_VALID\<rparr>)"

lemma valid_or_busy: "(f OR I_BUSY) AND I_VALID = 0 \<longleftrightarrow> f AND I_VALID = 0"
  by (simp add: flag_simps)

text \<open>\<open>ilock\<close> once the inode is busy: the read from disk, where the copy is not valid.\<close>

definition iload :: "nat \<Rightarrow> inode \<Rightarrow> ('a kfs_scheme, unit) K" where
  "iload ip p = kwhen (i_flags p AND I_VALID = 0) (
     kbind (bread (i_dev p) (IBLOCK (i_inum p))) (\<lambda>bp.
     kbind (get_data bp) (\<lambda>d.
     kseq (upd_inode ip (load_dinode d (dinode_off (i_inum p)))) (
     kseq (brelse bp) (
     kseq (upd_inode ip (\<lambda>p. p\<lparr>i_flags := i_flags p OR I_VALID\<rparr>)) (
     kbind (kget (\<lambda>s. i_type (inodes s ip))) (\<lambda>ty.
     kwhen (ty = 0) (kpanic ''ilock: no type''))))))))"

lemma ilock_iload:
  assumes "held s = []" "i_ref (inodes s ip) \<ge> 1" "i_flags (inodes s ip) AND I_BUSY = 0"
  shows "ilock ip s = iload ip ((inodes s ip)\<lparr>i_flags := i_flags (inodes s ip) OR I_BUSY\<rparr>)
    (s\<lparr>inodes := (inodes s)(ip := (inodes s ip)\<lparr>i_flags := i_flags (inodes s ip) OR I_BUSY\<rparr>)\<rparr>)"
  using assms by (simp add: ilock_def ilock_loop_def kdefs acquire_def release_def upd_inode_def iload_def held_nil
    split: outcome.split)

lemma runs_iload:
  fixes s :: "'a kfs_scheme"
  assumes s: "dst i r s V h" and p: "inodes r ip = p" "i_flags p AND I_VALID = 0"
    and a: "canon (havedisk1 r) (i_dev p) (IBLOCK (i_inum p))" "(i_dev p, IBLOCK (i_inum p)) \<notin> ran h"
      "card (dom h) < NBUF"
    and ty: "i_type (disk_inode V p) \<noteq> 0"
    and Q: "\<And>t. dst i (r\<lparr>inodes := (inodes r)(ip := (disk_inode V p)\<lparr>i_flags := i_flags p OR I_VALID\<rparr>)\<rparr>) t V h
      \<Longrightarrow> Q () t"
  shows "runs (iload ip p) s Q"
proof -
  let ?a = "(i_dev p, IBLOCK (i_inum p))" and ?l = "(disk_inode V p)\<lparr>i_flags := i_flags p OR I_VALID\<rparr>"
  have ld: "load_dinode d (dinode_off (i_inum p)) p = disk_inode V p" if "sect d = V ?a" for d
    using that load_dinode_sect [OF dinode_off_bound, where d = d] by (simp add: disk_inode_def)
  have fin: "runs (kbind (kget (\<lambda>s. i_type (inodes s ip))) (\<lambda>ty. kwhen (ty = 0) (kpanic ''ilock: no type''))) t Q"
    if t: "dst i (r\<lparr>inodes := (inodes r)(ip := ?l)\<rparr>) t V h" for t
    using Q [OF t] dst_inodes [OF t] ty by (simp add: runs_def kdefs)
  show ?thesis
    unfolding iload_def
    apply (rule runs_kwhen [rotated], use p(2) in simp)
    apply (rule runs_kbind, rule runs_bread [OF s a], rule runs_kbind)
    subgoal premises u for b u
      apply (unfold get_data_def, rule runs_read [OF u(2)], rule runs_kseq, rule runs_upd_inode [OF u(2)], rule runs_kseq)
      subgoal premises v for d v
        apply (rule runs_give_back [OF v(2) u(3)], rule runs_kseq, erule runs_upd_inode, rule fin)
        apply (simp add: ld [OF v(1)] p(1))
        done
      done
    done
qed

lemma runs_ilock:
  fixes s :: "'a kfs_scheme"
  assumes s: "dst i r s V h" and p: "inodes r ip = p" "i_ref p \<ge> 1" "i_flags p AND I_BUSY = 0"
    and a: "i_flags p AND I_VALID = 0 \<Longrightarrow> canon (havedisk1 r) (i_dev p) (IBLOCK (i_inum p))
      \<and> (i_dev p, IBLOCK (i_inum p)) \<notin> ran h \<and> card (dom h) < NBUF"
    and ty: "i_flags p AND I_VALID = 0 \<Longrightarrow> i_type (disk_inode V p) \<noteq> 0"
    and Q: "\<And>t. dst i (r\<lparr>inodes := (inodes r)(ip := locked V p)\<rparr>) t V h \<Longrightarrow> Q () t"
  shows "runs (ilock ip) s Q"
proof -
  let ?q = "p\<lparr>i_flags := i_flags p OR I_BUSY\<rparr>"
  let ?r = "r\<lparr>inodes := (inodes r)(ip := ?q)\<rparr>" and ?s = "s\<lparr>inodes := (inodes r)(ip := ?q)\<rparr>"
  have held: "held s = []" and T: "inodes s = inodes r" using dst_ready [OF s] dst_inodes [OF s] by simp_all
  have t: "dst i ?r ?s V h" by (rule dst_set_inodes [OF s])
  have "runs (iload ip ?q) ?s Q"
  proof (cases "i_flags p AND I_VALID = 0")
    case True
    note [simp] = valid_or_busy True
    have lk: "(disk_inode V ?q)\<lparr>i_flags := i_flags ?q OR I_VALID\<rparr> = locked V p" by (simp add: locked_def Let_def)
    have ty': "i_type (disk_inode V ?q) \<noteq> 0" using ty [OF True] by (simp add: disk_inode_def load_dinode_def)
    show ?thesis
      by (rule runs_iload [OF t _ _ _ _ _ ty']) (use a Q lk in \<open>simp_all\<close>)
  next
    case False
    then show ?thesis using Q [of ?s] t by (simp add: iload_def valid_or_busy locked_def Let_def runs_def kdefs)
  qed
  then show ?thesis using ilock_iload [of s ip] held T p by (simp add: runs_def)
qed

lemma store_dinode_other: "j < q \<or> q + 60 \<le> j \<Longrightarrow> store_dinode p q d j = d j"
  by (auto simp: store_dinode_def put_words_other wr32_other wr16_other)

lemma IBLOCK_eq: "IBLOCK m = IBLOCK n \<longleftrightarrow> unat m div 8 = unat n div 8"
  unfolding IBLOCK_def add_right_cancel by (simp add: word_unat_eq_iff unat_div)

lemma disk_inode_put_other:
  assumes "i_dev p' \<noteq> i_dev p \<or> i_inum p' \<noteq> i_inum p"
  shows "disk_inode (put_inode V p) p' = disk_inode V p'"
proof (cases "i_dev p' = i_dev p \<and> IBLOCK (i_inum p') = IBLOCK (i_inum p)")
  case True
  let ?q = "dinode_off (i_inum p)" and ?q' = "dinode_off (i_inum p')"
  have "unat (i_inum p') \<noteq> unat (i_inum p)" using assms True by (simp add: word_unat_eq_iff)
  moreover have "unat (i_inum p') div 8 = unat (i_inum p) div 8" using True by (simp add: IBLOCK_eq)
  ultimately have "unat (i_inum p') mod 8 \<noteq> unat (i_inum p) mod 8" by (metis div_mult_mod_eq)
  then have sep: "?q' + 64 \<le> ?q \<or> ?q + 64 \<le> ?q'" by (simp add: dinode_off_def) linarith
  have "store_dinode p ?q d j = d j" if "?q' \<le> j" "j < ?q' + 64" for d j
    using that sep by (intro store_dinode_other) linarith
  then have "load_dinode (store_dinode p ?q d) ?q' p' = load_dinode d ?q' p'" for d
    by (auto simp: load_dinode_def fun_eq_iff intro!: inode.fold_congs rd16_cong rd32_cong)
  then show ?thesis using True by (simp add: disk_inode_def put_inode_def load_dinode_sect [OF dinode_off_bound])
qed (auto simp: disk_inode_def put_inode_def)

section \<open>References\<close>

text \<open>
  What the cache promises: the number of references to each inode, and that an inode in use
  is in one slot only.
\<close>

definition icount :: "(nat \<Rightarrow> inode) \<Rightarrow> uint \<times> uint \<Rightarrow> int" where
  "icount T k = (\<Sum>ip<NINODE. if (i_dev (T ip), i_inum (T ip)) = k then i_ref (T ip) else 0)"

definition icache_ok :: "(nat \<Rightarrow> inode) \<Rightarrow> bool" where
  "icache_ok T \<longleftrightarrow> (\<forall>ip<NINODE. i_ref (T ip) \<ge> 0) \<and> (\<forall>ip<NINODE. \<forall>jp<NINODE. i_ref (T ip) > 0 \<longrightarrow> i_ref (T jp) > 0
     \<longrightarrow> i_dev (T ip) = i_dev (T jp) \<longrightarrow> i_inum (T ip) = i_inum (T jp) \<longrightarrow> ip = jp)"

lemma icount_upd:
  assumes "ip < NINODE"
  shows "icount (T(ip := p)) k = icount T k - (if (i_dev (T ip), i_inum (T ip)) = k then i_ref (T ip) else 0)
    + (if (i_dev p, i_inum p) = k then i_ref p else 0)"
proof -
  have "{..<NINODE} = insert ip ({..<NINODE} - {ip})" using assms by auto
  then have split: "icount U k = (if (i_dev (U ip), i_inum (U ip)) = k then i_ref (U ip) else 0)
      + (\<Sum>jp\<in>{..<NINODE} - {ip}. if (i_dev (U jp), i_inum (U jp)) = k then i_ref (U jp) else 0)" for U
    unfolding icount_def by (subst \<open>{..<NINODE} = _\<close>) (rule sum.insert; simp)
  have "(\<Sum>jp\<in>{..<NINODE} - {ip}. if (i_dev ((T(ip := p)) jp), i_inum ((T(ip := p)) jp)) = k then i_ref ((T(ip := p)) jp) else 0)
      = (\<Sum>jp\<in>{..<NINODE} - {ip}. if (i_dev (T jp), i_inum (T jp)) = k then i_ref (T jp) else 0)"
    by (rule sum.cong) auto
  then show ?thesis using split [of T] split [of "T(ip := p)"] by simp
qed

lemma iget_slot:
  assumes "L_icache \<notin> set (held s)"
    and "find (\<lambda>ip. i_ref (inodes s ip) > 0 \<and> i_dev (inodes s ip) = dev \<and> i_inum (inodes s ip) = inum) [0..<NINODE] = f"
    and "find (\<lambda>ip. i_ref (inodes s ip) = 0) [0..<NINODE] = e"
  shows "iget dev inum s = (case f of
      Some ip \<Rightarrow> Done ip (s\<lparr>inodes := (inodes s)(ip := (inodes s ip)\<lparr>i_ref := i_ref (inodes s ip) + 1\<rparr>)\<rparr>)
    | None \<Rightarrow> (case e of
        Some ip \<Rightarrow> Done ip (s\<lparr>inodes := (inodes s)(ip := (inodes s ip)\<lparr>i_dev := dev, i_inum := inum, i_ref := 1, i_flags := 0\<rparr>)\<rparr>)
      | None \<Rightarrow> Panic ''iget: no inodes''))"
  using assms by (simp add: iget_def kdefs acquire_def release_def upd_inode_def del: upt_rec_numeral split: option.split)

lemma icache_ok_upd:
  assumes "icache_ok T" "ip < NINODE" "i_ref p \<ge> 0"
    and "i_ref p > 0 \<Longrightarrow> \<forall>jp<NINODE. jp \<noteq> ip \<longrightarrow> i_ref (T jp) > 0 \<longrightarrow> (i_dev (T jp), i_inum (T jp)) \<noteq> (i_dev p, i_inum p)"
  shows "icache_ok (T(ip := p))"
  using assms unfolding icache_ok_def by auto

lemma icache_ok_ref:
  assumes "icache_ok T" "ip < NINODE" "i_ref (T ip) > 0" "n \<ge> 0"
  shows "icache_ok (T(ip := (T ip)\<lparr>i_ref := n\<rparr>))"
  using assms by (intro icache_ok_upd) (auto simp: icache_ok_def)

text \<open>The slot \<open>iget\<close> returns: one that is in use for the inode, or a free one given to it.\<close>

definition gotten :: "uint \<Rightarrow> uint \<Rightarrow> inode \<Rightarrow> inode" where
  "gotten dev inum p = (if i_ref p > 0 then p\<lparr>i_ref := i_ref p + 1\<rparr>
     else p\<lparr>i_dev := dev, i_inum := inum, i_ref := 1, i_flags := 0\<rparr>)"

lemma iget_refs:
  fixes s :: "'a kfs_scheme"
  assumes "icache_ok (inodes s)" "L_icache \<notin> set (held s)"
    and room: "\<exists>ip<NINODE. i_ref (inodes s ip) = 0 \<or> (i_dev (inodes s ip), i_inum (inodes s ip)) = (dev, inum)"
  shows "runs (iget dev inum) s (\<lambda>ip t. ip < NINODE \<and> t = s\<lparr>inodes := (inodes s)(ip := gotten dev inum (inodes s ip))\<rparr>
      \<and> (i_ref (inodes s ip) > 0 \<longrightarrow> i_dev (inodes s ip) = dev \<and> i_inum (inodes s ip) = inum) \<and> icache_ok (inodes t)
      \<and> icount (inodes t) = (icount (inodes s))((dev, inum) := icount (inodes s) (dev, inum) + 1))"
proof -
  let ?T = "inodes s"
  define P where "P = (\<lambda>ip. i_ref (?T ip) > 0 \<and> i_dev (?T ip) = dev \<and> i_inum (?T ip) = inum)"
  note slot = iget_slot [OF assms(2), of dev inum, folded P_def, OF refl refl]
  show ?thesis
  proof (cases "find P [0..<NINODE]")
    case (Some ip)
    then have ip: "ip < NINODE" "P ip" unfolding find_upt_Some by blast+
    let ?p = "(?T ip)\<lparr>i_ref := i_ref (?T ip) + 1\<rparr>"
    have "icache_ok (?T(ip := ?p))" using ip by (intro icache_ok_ref [OF assms(1)]) (simp_all add: P_def)
    moreover have "icount (?T(ip := ?p)) = (icount ?T)((dev, inum) := icount ?T (dev, inum) + 1)"
      using ip by (auto simp: icount_upd P_def fun_eq_iff)
    moreover have "iget dev inum s = Done ip (s\<lparr>inodes := ?T(ip := ?p)\<rparr>)" using slot by (simp only: Some option.case)
    ultimately show ?thesis using ip by (simp add: runs_def P_def gotten_def)
  next
    case None
    then have no: "\<not> P ip" if "ip < NINODE" for ip using that unfolding find_upt_None by blast
    have "\<exists>ip<NINODE. i_ref (?T ip) = 0"
      using room no assms(1) unfolding P_def icache_ok_def by (metis order_le_less prod.inject)
    then obtain ip where e: "find (\<lambda>ip. i_ref (?T ip) = 0) [0..<NINODE] = Some ip"
      using find_upt_None [of "\<lambda>ip. i_ref (?T ip) = 0" NINODE] by (metis option.exhaust)
    then have ip: "ip < NINODE" "i_ref (?T ip) = 0" unfolding find_upt_Some by blast+
    let ?p = "(?T ip)\<lparr>i_dev := dev, i_inum := inum, i_ref := 1, i_flags := 0\<rparr>"
    have "icache_ok (?T(ip := ?p))"
      using no by (intro icache_ok_upd [OF assms(1) ip(1)]) (auto simp: P_def)
    moreover have "icount (?T(ip := ?p)) = (icount ?T)((dev, inum) := icount ?T (dev, inum) + 1)"
      using ip by (auto simp: icount_upd fun_eq_iff)
    moreover have "iget dev inum s = Done ip (s\<lparr>inodes := ?T(ip := ?p)\<rparr>)" using slot by (simp only: None e option.case)
    ultimately show ?thesis using ip by (simp add: runs_def gotten_def)
  qed
qed

lemma iget_full:
  assumes "L_icache \<notin> set (held s)" "\<forall>ip<NINODE. i_ref (inodes s ip) > 0"
    and "\<forall>ip<NINODE. (i_dev (inodes s ip), i_inum (inodes s ip)) \<noteq> (dev, inum)"
  shows "iget dev inum s = Panic ''iget: no inodes''"
proof -
  have "find (\<lambda>ip. i_ref (inodes s ip) > 0 \<and> i_dev (inodes s ip) = dev \<and> i_inum (inodes s ip) = inum) [0..<NINODE] = None"
      "find (\<lambda>ip. i_ref (inodes s ip) = 0) [0..<NINODE] = None"
    using assms(2,3) unfolding find_upt_None by fastforce+
  from iget_slot [OF assms(1) this] show ?thesis by (simp del: upt_rec_numeral)
qed

text \<open>
  C17: the inode cache keeps one slot per inode and counts its references. \<open>iget\<close> returns a
  slot that stands for the inode asked for, in use, and adds one reference to that inode and
  to no other; it panics when the inode is not cached and all slots are in use. \<open>idup\<close> adds
  one reference to the inode of its slot.
\<close>

theorem iget_counts:
  fixes s :: "'a kfs_scheme"
  assumes "icache_ok (inodes s)" "L_icache \<notin> set (held s)"
  shows "(if \<exists>ip<NINODE. i_ref (inodes s ip) = 0 \<or> (i_dev (inodes s ip), i_inum (inodes s ip)) = (dev, inum)
      then runs (iget dev inum) s (\<lambda>ip t. ip < NINODE \<and> i_dev (inodes t ip) = dev \<and> i_inum (inodes t ip) = inum
          \<and> i_ref (inodes t ip) > 0 \<and> icache_ok (inodes t) \<and> t = s\<lparr>inodes := (inodes s)(ip := inodes t ip)\<rparr>
          \<and> icount (inodes t) = (icount (inodes s))((dev, inum) := icount (inodes s) (dev, inum) + 1))
      else iget dev inum s = Panic ''iget: no inodes'')
    \<and> (\<forall>ip<NINODE. i_ref (inodes s ip) > 0 \<longrightarrow> runs (idup ip) s (\<lambda>jp t. jp = ip \<and> icache_ok (inodes t)
        \<and> (\<forall>k. icount (inodes t) k = icount (inodes s) k
            + (if k = (i_dev (inodes s ip), i_inum (inodes s ip)) then 1 else 0))))"
proof (intro conjI allI impI)
  have pos: "i_ref (inodes s ip) > 0" if "ip < NINODE" "i_ref (inodes s ip) \<noteq> 0" for ip
    using that assms(1) by (metis icache_ok_def order_le_less)
  show "if \<exists>ip<NINODE. i_ref (inodes s ip) = 0 \<or> (i_dev (inodes s ip), i_inum (inodes s ip)) = (dev, inum)
      then runs (iget dev inum) s (\<lambda>ip t. ip < NINODE \<and> i_dev (inodes t ip) = dev \<and> i_inum (inodes t ip) = inum
          \<and> i_ref (inodes t ip) > 0 \<and> icache_ok (inodes t) \<and> t = s\<lparr>inodes := (inodes s)(ip := inodes t ip)\<rparr>
          \<and> icount (inodes t) = (icount (inodes s))((dev, inum) := icount (inodes s) (dev, inum) + 1))
      else iget dev inum s = Panic ''iget: no inodes''"
    using runs_mono [OF iget_refs [OF assms, of dev inum]] iget_full [OF assms(2)] pos
    by (auto simp: gotten_def)
next
  fix ip
  assume ip: "ip < NINODE" "i_ref (inodes s ip) > 0"
  then have "icache_ok ((inodes s)(ip := (inodes s ip)\<lparr>i_ref := i_ref (inodes s ip) + 1\<rparr>))"
    by (intro icache_ok_ref [OF assms(1)]) simp_all
  then show "runs (idup ip) s (\<lambda>jp t. jp = ip \<and> icache_ok (inodes t) \<and> (\<forall>k. icount (inodes t) k =
      icount (inodes s) k + (if k = (i_dev (inodes s ip), i_inum (inodes s ip)) then 1 else 0)))"
    using ip assms(2) by (auto simp: idup_def runs_def kdefs acquire_def release_def upd_inode_def icount_upd)
qed

section \<open>The operations over the disk state\<close>

lemma runs_iunlock:
  fixes s :: "'a kfs_scheme"
  assumes s: "dst i r s V h" and p: "inodes r ip = p" "i_flags p AND I_BUSY \<noteq> 0" "i_ref p \<ge> 1"
    and Q: "\<And>t. dst i (r\<lparr>inodes := (inodes r)(ip := p\<lparr>i_flags := i_flags p AND NOT I_BUSY\<rparr>)\<rparr>) t V h \<Longrightarrow> Q () t"
  shows "runs (iunlock ip) s Q"
proof -
  let ?T = "(inodes r)(ip := p\<lparr>i_flags := i_flags p AND NOT I_BUSY\<rparr>)"
  have held: "held s = []" and T: "inodes s = inodes r" using dst_ready [OF s] dst_inodes [OF s] by simp_all
  have "dst i (r\<lparr>inodes := ?T\<rparr>) (s\<lparr>inodes := ?T, ptable := wake_table (ChInode ip) (ptable s)\<rparr>) V h"
    using dst_wake [OF dst_set_inodes [OF s, of ?T], of "ChInode ip"] by simp
  moreover have "iunlock ip s = Done () (s\<lparr>inodes := ?T, ptable := wake_table (ChInode ip) (ptable s)\<rparr>)"
    using held T p by (simp add: iunlock_def kdefs acquire_def release_def upd_inode_def wakeup_eq held_nil)
  ultimately show ?thesis using Q by (simp add: runs_def)
qed

text \<open>\<open>iput\<close> when it is not the last reference to an inode without links.\<close>

lemma runs_iput:
  fixes s :: "'a kfs_scheme"
  assumes s: "dst i r s V h" and p: "inodes r ip = p" "i_ref p \<noteq> 1 \<or> i_flags p AND I_VALID = 0 \<or> i_nlink p \<noteq> 0"
    and Q: "\<And>t. dst i (r\<lparr>inodes := (inodes r)(ip := p\<lparr>i_ref := i_ref p - 1\<rparr>)\<rparr>) t V h \<Longrightarrow> Q () t"
  shows "runs (iput ip) s Q"
proof -
  let ?T = "(inodes r)(ip := p\<lparr>i_ref := i_ref p - 1\<rparr>)"
  have held: "held s = []" and T: "inodes s = inodes r" using dst_ready [OF s] dst_inodes [OF s] by simp_all
  have "dst i (r\<lparr>inodes := ?T\<rparr>) (s\<lparr>inodes := ?T\<rparr>) V h" by (rule dst_set_inodes [OF s])
  moreover have "iput ip s = Done () (s\<lparr>inodes := ?T\<rparr>)"
    using held T p by (auto simp: iput_def kdefs acquire_def release_def upd_inode_def held_nil)
  ultimately show ?thesis using Q by (simp add: runs_def)
qed

lemma runs_iget:
  fixes s :: "'a kfs_scheme"
  assumes s: "dst i r s V h" and ok: "icache_ok (inodes r)"
    and room: "\<exists>ip<NINODE. i_ref (inodes r ip) = 0 \<or> (i_dev (inodes r ip), i_inum (inodes r ip)) = (dev, inum)"
    and Q: "\<And>ip p t. ip < NINODE \<Longrightarrow> p = gotten dev inum (inodes r ip)
      \<Longrightarrow> (i_ref (inodes r ip) > 0 \<Longrightarrow> i_dev (inodes r ip) = dev \<and> i_inum (inodes r ip) = inum)
      \<Longrightarrow> icache_ok ((inodes r)(ip := p))
      \<Longrightarrow> icount ((inodes r)(ip := p)) = (icount (inodes r))((dev, inum) := icount (inodes r) (dev, inum) + 1)
      \<Longrightarrow> dst i (r\<lparr>inodes := (inodes r)(ip := p)\<rparr>) t V h \<Longrightarrow> Q ip t"
  shows "runs (iget dev inum) s Q"
proof -
  note T = dst_inodes [OF s]
  have pre: "icache_ok (inodes s)" "L_icache \<notin> set (held s)"
      "\<exists>ip<NINODE. i_ref (inodes s ip) = 0 \<or> (i_dev (inodes s ip), i_inum (inodes s ip)) = (dev, inum)"
    using ok room T dst_ready [OF s] by simp_all
  show ?thesis
  proof (rule runs_mono [OF iget_refs [OF pre]], elim conjE)
    fix ip t
    assume t: "ip < NINODE" "t = s\<lparr>inodes := (inodes s)(ip := gotten dev inum (inodes s ip))\<rparr>"
      "i_ref (inodes s ip) > 0 \<longrightarrow> i_dev (inodes s ip) = dev \<and> i_inum (inodes s ip) = inum" "icache_ok (inodes t)"
      "icount (inodes t) = (icount (inodes s))((dev, inum) := icount (inodes s) (dev, inum) + 1)"
    have "dst i (r\<lparr>inodes := (inodes r)(ip := gotten dev inum (inodes r ip))\<rparr>) t V h"
      unfolding t(2) T by (rule dst_set_inodes [OF s])
    then show "Q ip t" using t T by (intro Q [OF t(1) refl]) simp_all
  qed
qed

lemma icount_same:
  "ip < NINODE \<Longrightarrow> i_dev p = i_dev (T ip) \<Longrightarrow> i_inum p = i_inum (T ip) \<Longrightarrow> i_ref p = i_ref (T ip) \<Longrightarrow> icount (T(ip := p)) = icount T"
  by (simp add: icount_upd fun_eq_iff)

text \<open>Getting and locking an inode that is in no slot yet: it is loaded from the disk.\<close>

definition loaded :: "view \<Rightarrow> uint \<Rightarrow> uint \<Rightarrow> inode \<Rightarrow> inode" where
  "loaded V dev inum p = disk_inode V (p\<lparr>i_dev := dev, i_inum := inum, i_ref := 1, i_flags := I_BUSY OR I_VALID\<rparr>)"

lemma locked_loaded:
  "locked V (p\<lparr>i_dev := dev, i_inum := inum, i_ref := 1, i_flags := 0\<rparr>) = loaded V dev inum p"
  by (simp add: locked_def Let_def loaded_def disk_inode_def load_dinode_def cong: if_cong)

lemma runs_iget_ilock:
  fixes s :: "'a kfs_scheme"
  assumes s: "dst i r s V h" and ok: "icache_ok (inodes r)" and room: "\<exists>jp<NINODE. i_ref (inodes r jp) = 0"
    and new: "\<forall>jp<NINODE. i_ref (inodes r jp) > 0 \<longrightarrow> (i_dev (inodes r jp), i_inum (inodes r jp)) \<noteq> (dev, inum)"
    and a: "canon (havedisk1 r) dev (IBLOCK inum)" "(dev, IBLOCK inum) \<notin> ran h" "card (dom h) < NBUF"
    and ty: "rd16 (V (dev, IBLOCK inum)) (dinode_off inum) \<noteq> 0"
    and Q: "\<And>jp t. jp < NINODE \<Longrightarrow> i_ref (inodes r jp) = 0
      \<Longrightarrow> dst i (r\<lparr>inodes := (inodes r)(jp := loaded V dev inum (inodes r jp))\<rparr>) t V h \<Longrightarrow> Q jp t"
  shows "runs (kbind (iget dev inum) (\<lambda>jp. kseq (ilock jp) (kret jp))) s Q"
proof (rule runs_kbind, rule runs_iget [OF s ok], use room in blast)
  fix jp q t
  let ?q = "(inodes r jp)\<lparr>i_dev := dev, i_inum := inum, i_ref := 1, i_flags := 0\<rparr>"
  assume jp: "jp < NINODE" and q: "q = gotten dev inum (inodes r jp)"
    and found: "i_ref (inodes r jp) > 0 \<Longrightarrow> i_dev (inodes r jp) = dev \<and> i_inum (inodes r jp) = inum"
    and t: "dst i (r\<lparr>inodes := (inodes r)(jp := q)\<rparr>) t V h"
  have free: "i_ref (inodes r jp) = 0" using new jp found ok unfolding icache_ok_def by (metis order_le_less)
  have ty': "i_type (disk_inode V ?q) \<noteq> 0" using ty by (simp add: disk_inode_def load_dinode_def)
  have t': "dst i (r\<lparr>inodes := (inodes r)(jp := ?q)\<rparr>) t V h" using t free by (simp add: q gotten_def)
  show "runs (kseq (ilock jp) (kret jp)) t Q"
    by (rule runs_kseq, rule runs_ilock [OF t' _ _ _ _ ty'])
      (use a free Q [OF jp free] in \<open>simp_all add: runs_kret locked_loaded\<close>)
qed

lemma loaded_put:
  "loaded (put_inode V p) (i_dev p) (i_inum p) p' = p'\<lparr>i_dev := i_dev p, i_inum := i_inum p, i_ref := 1,
     i_flags := I_BUSY OR I_VALID, i_type := i_type p, i_major := i_major p, i_minor := i_minor p,
     i_nlink := i_nlink p, i_size := i_size p,
     i_addrs := (\<lambda>k. if k < NDIRECT + 1 then i_addrs p k else i_addrs p' k)\<rparr>"
  unfolding loaded_def by (subst disk_inode_put) (simp_all cong: if_cong)

lemma put_type: "rd16 (put_inode V p (i_dev p, IBLOCK (i_inum p))) (dinode_off (i_inum p)) = i_type p"
  using arg_cong [OF disk_inode_put [of p p V], of i_type] by (simp add: disk_inode_def load_dinode_def)


text \<open>
  The tag block of an inode is not part of what is written back: \<open>iupdate\<close> leaves the \<open>tags\<close>
  word of the disk inode alone and \<open>ilock\<close> does not read it, so that an inode loaded into a
  slot has the tag block of whatever inode was in that slot before.
\<close>

lemma tags_not_written_back:
  "rd32 (put_inode V p (i_dev p, IBLOCK (i_inum p))) (dinode_off (i_inum p) + 60)
     = rd32 (V (i_dev p, IBLOCK (i_inum p))) (dinode_off (i_inum p) + 60)"
  "i_tags (loaded V dev inum p) = i_tags p"
proof -
  let ?q = "dinode_off (i_inum p)"
  have "rd32 (sect (store_dinode p ?q d)) (?q + 60) = rd32 d (?q + 60)" for d
    using dinode_off_bound [of "i_inum p"] by (subst rd32_sect) (auto intro!: rd32_cong simp: store_dinode_other)
  then show "rd32 (put_inode V p (i_dev p, IBLOCK (i_inum p))) (?q + 60) = rd32 (V (i_dev p, IBLOCK (i_inum p))) (?q + 60)"
    by (simp add: put_inode_def)
qed (simp add: loaded_def)

text \<open>A machine with given disks and a given inode table: for the witnesses.\<close>

definition zero_fs :: "(nat \<Rightarrow> inode) \<Rightarrow> kfs" where
  "zero_fs T = \<lparr>held = [], ptable = (\<lambda>_. zero_proc),
     cur = None, initproc = None, nextpid = 0, phys = (\<lambda>_. 0), freelist = 0, kend = 0,
     bufs = (\<lambda>_. \<lparr>b_flags = 0, b_dev = 0, b_sector = 0, b_prev = 0, b_next = 0, b_qnext = None, b_data = (\<lambda>_. 0)\<rparr>),
     idequeue = None, havedisk1 = True, taskfile = (\<lambda>_. 0), disk = (\<lambda>_ _ _. 0), ide_err = False,
     panicked = False, cons_locking = True, uart_on = False, uart_out = [], uart_in = [], crt = (\<lambda>_. 0),
     crt_pos = 0, kbd_in = [], kbd_shift = 0, input_buf = (\<lambda>_. 0), input_r = 0, input_w = 0, input_e = 0,
     inodes = T\<rparr>"

lemma boot_fs_cached:
  "\<exists>t :: kfs. cache_ok 0 t \<and> holds t = Map.empty \<and> havedisk1 t \<and> held t = [] \<and> inodes t = T
     \<and> (\<forall>dev sec. bview t (dev, sec) = sect (D dev sec))"
proof -
  obtain t :: kfs where t: "cache_ok 0 t" "holds t = Map.empty" "io_frame 0 (boot_disk D (kide.more (zero_fs T))) t"
      "\<forall>dev sec. bview t (dev, sec) = sect (D dev sec)"
    using boot_disk_cached [of D "kide.more (zero_fs T)"] by blast
  have "inodes t = T" using io_frame_inodes [OF t(3)] by (simp add: zero_fs_def boot_disk_def)
  then show ?thesis using t boot_disk_have [OF t(3)] by blast
qed

definition zero_inode :: inode where
  "zero_inode = \<lparr>i_dev = 0, i_inum = 0, i_ref = 0, i_flags = 0, i_type = 0, i_major = 0, i_minor = 0,
     i_nlink = 0, i_size = 0, i_addrs = (\<lambda>_. 0), i_tags = 0\<rparr>"

theorem iget_counts_witness:
  "\<exists>s :: kfs. icache_ok (inodes s) \<and> runs (iget 1 7) s (\<lambda>ip t. icount (inodes t) (1, 7) = 1)"
proof -
  obtain s :: kfs where s: "held s = []" "inodes s = (\<lambda>_. zero_inode)" using boot_fs_cached by blast
  have ok: "icache_ok (inodes s)" "L_icache \<notin> set (held s)" by (simp_all add: s icache_ok_def zero_inode_def)
  have "icount (inodes s) (1, 7) = 0" by (simp add: s icount_def zero_inode_def)
  moreover have room: "\<exists>ip<NINODE. i_ref (inodes s ip) = 0 \<or> (i_dev (inodes s ip), i_inum (inodes s ip)) = (1, 7)"
    by (intro exI [of _ 0]) (simp add: s zero_inode_def)
  ultimately have "runs (iget 1 7) s (\<lambda>ip t. icount (inodes t) (1, 7) = 1)"
    by (intro runs_mono [OF iget_counts [OF ok, of 1 7, THEN conjunct1, unfolded if_P [OF room]]]) simp
  then show ?thesis using ok by blast
qed


end
