(* ===== verification/Fs_Content.thy ===== *)
theory Fs_Content
  imports Fs_Inode
begin

text \<open>
  File contents (\<open>bmap\<close>, \<open>readi\<close>, \<open>writei\<close> of \<open>kernel/fs.c\<close>). \<open>file_byte V p x\<close> is byte \<open>x\<close> of
  the file of inode \<open>p\<close> in the disk contents \<open>V\<close>; \<open>file_wf\<close> says that the blocks of the file are
  data blocks marked in the free map, none of them used twice, and \<open>disk_ok\<close> that the free
  blocks are zero, on which \<open>bmap\<close> relies. \<open>readi\<close> returns the bytes of the file and \<open>writei\<close>
  changes exactly the bytes written, and neither disturbs any other file.
\<close>

section \<open>The disk\<close>

definition disk_ok :: "bool \<Rightarrow> view \<Rightarrow> uint \<Rightarrow> bool" where
  "disk_ok have1 V dev \<longleftrightarrow> geometry have1 V dev \<and> (\<forall>n<map_end V dev. used V dev n)
     \<and> (\<forall>a. unat a < fs_size V dev \<longrightarrow> \<not> used V dev (unat a) \<longrightarrow> V (dev, a) = (\<lambda>_. 0))"

definition data_blk :: "view \<Rightarrow> uint \<Rightarrow> uint \<Rightarrow> bool" where
  "data_blk V dev a \<longleftrightarrow> map_end V dev \<le> unat a \<and> unat a < fs_size V dev"

definition free_blks :: "view \<Rightarrow> uint \<Rightarrow> nat set" where
  "free_blks V dev = {n. n < fs_size V dev \<and> \<not> used V dev n}"

definition nfree :: "view \<Rightarrow> uint \<Rightarrow> nat" where
  "nfree V dev = card (free_blks V dev)"

lemma disk_ok_geometry: "disk_ok have1 V dev \<Longrightarrow> geometry have1 V dev"
  by (simp add: disk_ok_def)

lemma data_blk_canon: "geometry have1 V dev \<Longrightarrow> data_blk V dev a \<Longrightarrow> canon have1 dev a"
  using geometry_canon [of have1 V dev "unat a"] by (simp add: data_blk_def)

lemma data_blk_nonzero: "data_blk V dev a \<Longrightarrow> a \<noteq> 0"
  by (auto simp: data_blk_def map_end_def map_start_def)

lemma data_not_meta:
  assumes "geometry have1 V dev" "data_blk V dev a" "n < map_end V dev"
  shows "a \<noteq> of_nat n"
proof -
  have "n < fs_size V dev" using assms(2,3) by (simp add: data_blk_def)
  then have "unat (of_nat n :: uint) = n" using geometry_small [OF assms(1), of n] by (simp add: unat_of_nat_small)
  then show ?thesis using assms(2,3) by (auto simp: data_blk_def)
qed

lemma data_not_map:
  "geometry have1 V dev \<Longrightarrow> data_blk V dev a \<Longrightarrow> scanned V dev n \<Longrightarrow> a \<noteq> of_nat (map_block V dev n)"
  by (rule data_not_meta [OF _ _ map_block_end])

text \<open>There is a first free block when some block of the disk is free.\<close>

lemma first_free_exists:
  assumes "nfree V dev > 0"
  obtains n where "first_free V dev n" "n < fs_size V dev"
proof -
  obtain k where k: "k < fs_size V dev" "\<not> used V dev k"
    using assms card_gt_0_iff [of "free_blks V dev"] by (auto simp: nfree_def free_blks_def)
  define n where "n = (LEAST n. \<not> used V dev n)"
  have n: "\<not> used V dev n" "n \<le> k" "\<forall>m<n. used V dev m"
    unfolding n_def using k(2) by (rule LeastI, intro Least_le k(2)) (blast dest: not_less_Least)
  then show ?thesis using k(1) that [of n] by (simp add: first_free_def)
qed

text \<open>What marking a free block does.\<close>

lemma set_used_facts:
  assumes ok: "disk_ok have1 V dev" and n: "first_free V dev n" "n < fs_size V dev"
  shows "data_blk V dev (of_nat n)" "unat (of_nat n :: uint) = n" "V (dev, of_nat n) = (\<lambda>_. 0)"
    and "fs_sb (set_used V dev n) dev = fs_sb V dev"
    and "\<And>a. data_blk V dev a \<Longrightarrow> set_used V dev n (dev, a) = V (dev, a)"
    and "\<And>m. m < fs_size V dev \<Longrightarrow> used (set_used V dev n) dev m \<longleftrightarrow> used V dev m \<or> m = n"
    and "Suc (nfree (set_used V dev n) dev) = nfree V dev"
    and "disk_ok have1 (set_used V dev n) dev"
proof -
  let ?V = "set_used V dev n"
  note g = disk_ok_geometry [OF ok]
  have free: "\<not> used V dev n" and sc: "scanned V dev n" using n by (simp_all add: first_free_def)
  show un: "unat (of_nat n :: uint) = n" using geometry_small [OF g n(2)] by (simp add: unat_of_nat_small)
  have "\<not> n < map_end V dev" using ok free by (auto simp: disk_ok_def)
  then show "data_blk V dev (of_nat n)" using n(2) un by (simp add: data_blk_def)
  show "V (dev, of_nat n) = (\<lambda>_. 0)"
    using ok free n(2) un unfolding disk_ok_def by metis
  show sb: "fs_sb ?V dev = fs_sb V dev" using g sc by simp
  note same = layout_cong [OF sb]
  show data: "?V (dev, a) = V (dev, a)" if "data_blk V dev a" for a
    using data_not_map [OF g that sc] by (intro set_used_other) simp
  show u: "used ?V dev m \<longleftrightarrow> used V dev m \<or> m = n" if "m < fs_size V dev" for m
    using used_set_used [OF g sc scanned_less [OF that]] .
  have eq: "free_blks ?V dev = free_blks V dev - {n}" using u by (auto simp: free_blks_def same)
  moreover have "n \<in> free_blks V dev" "finite (free_blks V dev)" using n(2) free by (simp_all add: free_blks_def)
  ultimately show "Suc (nfree ?V dev) = nfree V dev" unfolding nfree_def by (metis card.remove)
  have "used ?V dev m" if "m < map_end V dev" for m
    using that u [of m] ok g by (auto simp: disk_ok_def geometry_def map_end_def)
  moreover have "?V (dev, a) = (\<lambda>_. 0)" if "unat a < fs_size V dev" "\<not> used ?V dev (unat a)" for a
  proof -
    have "\<not> used V dev (unat a)" using that u by blast
    then have "data_blk V dev a" "V (dev, a) = (\<lambda>_. 0)" using that(1) ok by (auto simp: disk_ok_def data_blk_def not_less)
    then show ?thesis by (simp add: data)
  qed
  ultimately show "disk_ok have1 ?V dev" using g by (simp add: disk_ok_def same)
qed

section \<open>Files\<close>

text \<open>The address of block \<open>bn\<close> of a file, 0 if it has none; the blocks and the bytes of a file.\<close>

definition baddr :: "view \<Rightarrow> inode \<Rightarrow> nat \<Rightarrow> uint" where
  "baddr V p bn = (if bn < NDIRECT then i_addrs p bn else if i_addrs p NDIRECT = 0 then 0
     else rd32 (V (i_dev p, i_addrs p NDIRECT)) (4 * (bn - NDIRECT)))"

definition owned :: "view \<Rightarrow> inode \<Rightarrow> uint set" where
  "owned V p = {a. a \<noteq> 0 \<and> (a = i_addrs p NDIRECT \<or> (\<exists>bn<MAXFILE. a = baddr V p bn))}"

definition file_byte :: "view \<Rightarrow> inode \<Rightarrow> nat \<Rightarrow> uchar" where
  "file_byte V p x = (if baddr V p (x div 512) = 0 then 0 else V (i_dev p, baddr V p (x div 512)) (x mod 512))"

definition file_wf :: "view \<Rightarrow> inode \<Rightarrow> bool" where
  "file_wf V p \<longleftrightarrow> (\<forall>a\<in>owned V p. data_blk V (i_dev p) a \<and> used V (i_dev p) (unat a))
     \<and> (\<forall>bn<MAXFILE. baddr V p bn \<noteq> 0 \<longrightarrow> baddr V p bn \<noteq> i_addrs p NDIRECT
         \<and> (\<forall>bm<MAXFILE. baddr V p bm = baddr V p bn \<longrightarrow> bm = bn))"

text \<open>Every block before the byte \<open>sz\<close> is there.\<close>

definition no_holes :: "view \<Rightarrow> inode \<Rightarrow> nat \<Rightarrow> bool" where
  "no_holes V p sz \<longleftrightarrow> (\<forall>bn. bn * 512 < sz \<longrightarrow> bn < MAXFILE \<and> baddr V p bn \<noteq> 0)"

lemma owned_baddr: "bn < MAXFILE \<Longrightarrow> baddr V p bn \<noteq> 0 \<Longrightarrow> baddr V p bn \<in> owned V p"
  by (auto simp: owned_def)

lemma owned_ind: "i_addrs p NDIRECT \<noteq> 0 \<Longrightarrow> i_addrs p NDIRECT \<in> owned V p"
  by (simp add: owned_def)

lemma wf_owned: "file_wf V p \<Longrightarrow> a \<in> owned V p \<Longrightarrow> data_blk V (i_dev p) a \<and> used V (i_dev p) (unat a)"
  by (simp add: file_wf_def)

lemma wf_inj:
  "file_wf V p \<Longrightarrow> bn < MAXFILE \<Longrightarrow> bm < MAXFILE \<Longrightarrow> baddr V p bn \<noteq> 0 \<Longrightarrow> baddr V p bm = baddr V p bn \<Longrightarrow> bm = bn"
  unfolding file_wf_def by blast

lemma wf_not_ind: "file_wf V p \<Longrightarrow> bn < MAXFILE \<Longrightarrow> baddr V p bn \<noteq> 0 \<Longrightarrow> baddr V p bn \<noteq> i_addrs p NDIRECT"
  unfolding file_wf_def by blast

text \<open>The sectors that growing the file may change: its own, the map, and free blocks.\<close>

definition touchable :: "view \<Rightarrow> inode \<Rightarrow> (uint \<times> uint) set" where
  "touchable V p = {(d, a). d = i_dev p \<and> (a \<in> owned V p \<or> (map_start V d \<le> unat a \<and> unat a < map_end V d)
     \<or> (data_blk V d a \<and> \<not> used V d (unat a)))}"

text \<open>File \<open>p\<close> of \<open>V\<close> has become file \<open>p'\<close> of \<open>V'\<close> by adding blocks.\<close>

definition ext :: "view \<Rightarrow> inode \<Rightarrow> view \<Rightarrow> inode \<Rightarrow> bool" where
  "ext V p V' p' \<longleftrightarrow> p' = p\<lparr>i_addrs := i_addrs p'\<rparr> \<and> fs_sb V' (i_dev p) = fs_sb V (i_dev p)
     \<and> (\<forall>bm<MAXFILE. baddr V p bm \<noteq> 0 \<longrightarrow> baddr V' p' bm = baddr V p bm)
     \<and> (\<forall>m<fs_size V (i_dev p). used V (i_dev p) m \<longrightarrow> used V' (i_dev p) m)
     \<and> (\<forall>a\<in>owned V' p'. a \<in> owned V p \<or> \<not> used V (i_dev p) (unat a))
     \<and> (\<forall>a. a \<notin> touchable V p \<longrightarrow> V' a = V a)"

lemma ext_refl: "ext V p V p"
  by (simp add: ext_def)

lemma ext_dev: "ext V p V' p' \<Longrightarrow> i_dev p' = i_dev p"
  unfolding ext_def by (metis inode.select_convs(1) inode.surjective inode.update_convs(10))

lemma ext_untouched: "ext V p V' p' \<Longrightarrow> a \<notin> touchable V p \<Longrightarrow> V' a = V a"
  unfolding ext_def by blast

lemma ext_layout:
  assumes "ext V p V' p'"
  shows "fs_size V' (i_dev p) = fs_size V (i_dev p)" "map_start V' (i_dev p) = map_start V (i_dev p)"
    "map_end V' (i_dev p) = map_end V (i_dev p)" "data_blk V' (i_dev p) = data_blk V (i_dev p)"
proof -
  have "fs_sb V' (i_dev p) = fs_sb V (i_dev p)" using assms by (simp add: ext_def)
  from layout_cong [OF this] show "fs_size V' (i_dev p) = fs_size V (i_dev p)" "map_start V' (i_dev p) = map_start V (i_dev p)"
    "map_end V' (i_dev p) = map_end V (i_dev p)" "data_blk V' (i_dev p) = data_blk V (i_dev p)"
    by (simp_all add: data_blk_def fun_eq_iff)
qed

lemma ext_touchable:
  assumes e: "ext V p V' p'" and wf: "file_wf V' p'"
  shows "touchable V' p' \<subseteq> touchable V p"
proof -
  note d = ext_dev [OF e] and l = ext_layout [OF e]
  have "a \<in> owned V p \<or> data_blk V (i_dev p) a \<and> \<not> used V (i_dev p) (unat a)" if "a \<in> owned V' p'" for a
    using that e wf_owned [OF wf that] d l by (auto simp: ext_def)
  moreover have "\<not> used V (i_dev p) (unat a)" if "\<not> used V' (i_dev p) (unat a)" "data_blk V (i_dev p) a" for a
    using that e by (auto simp: ext_def data_blk_def)
  ultimately show ?thesis using d l by (fastforce simp: touchable_def)
qed

lemma ext_trans:
  assumes e: "ext V p V' p'" "ext V' p' V'' p''" and wf: "file_wf V' p'" "file_wf V'' p''"
  shows "ext V p V'' p''"
proof -
  note d = ext_dev [OF e(1)] and l = ext_layout [OF e(1)]
  have "p'' = p\<lparr>i_addrs := i_addrs p''\<rparr>"
  proof -
    have "p' = p\<lparr>i_addrs := i_addrs p'\<rparr>" "p'' = p'\<lparr>i_addrs := i_addrs p''\<rparr>" using e by (simp_all add: ext_def)
    then show ?thesis by (metis inode.update_convs(10) inode.surjective)
  qed
  moreover have "\<forall>bm<MAXFILE. baddr V p bm \<noteq> 0 \<longrightarrow> baddr V'' p'' bm = baddr V p bm"
    using e by (simp add: ext_def)
  moreover have "\<forall>m<fs_size V (i_dev p). used V (i_dev p) m \<longrightarrow> used V'' (i_dev p) m"
    using e d l by (simp add: ext_def)
  moreover have "a \<in> owned V p \<or> \<not> used V (i_dev p) (unat a)" if "a \<in> owned V'' p''" for a
  proof (cases "a \<in> owned V' p'")
    case True
    then show ?thesis using e(1) by (simp add: ext_def)
  next
    case False
    then have "\<not> used V' (i_dev p) (unat a)" "data_blk V (i_dev p) a"
      using e(2) that d l ext_dev [OF e(2)] ext_layout(4) [OF e(2)] wf_owned [OF wf(2) that] by (auto simp: ext_def)
    then show ?thesis using e(1) by (auto simp: ext_def data_blk_def)
  qed
  moreover have "V'' a = V a" if "a \<notin> touchable V p" for a
    using that e ext_touchable [OF e(1) wf(1)] unfolding ext_def by (metis subsetD)
  ultimately show ?thesis using e d by (simp add: ext_def)
qed

section \<open>Adding a block to a file\<close>

text \<open>
  The general step: block \<open>a\<close>, free before, is marked and becomes block \<open>bn\<close> or the indirect
  block of the file, everything else of the file staying as it is.
\<close>

definition adds :: "view \<Rightarrow> inode \<Rightarrow> view \<Rightarrow> inode \<Rightarrow> uint \<Rightarrow> nat \<Rightarrow> bool" where
  "adds V p V' p' a bn \<longleftrightarrow> p' = p\<lparr>i_addrs := i_addrs p'\<rparr> \<and> fs_sb V' (i_dev p) = fs_sb V (i_dev p)
     \<and> data_blk V (i_dev p) a \<and> \<not> used V (i_dev p) (unat a)
     \<and> (\<forall>m<fs_size V (i_dev p). used V' (i_dev p) m \<longleftrightarrow> used V (i_dev p) m \<or> m = unat a)
     \<and> (\<forall>bm<MAXFILE. baddr V' p' bm = (if bm = bn then a else baddr V p bm))
     \<and> (i_addrs p' NDIRECT = i_addrs p NDIRECT \<or> i_addrs p' NDIRECT = a \<and> \<not> bn < MAXFILE)
     \<and> (bn < MAXFILE \<longrightarrow> baddr V p bn = 0)
     \<and> (\<forall>a. a \<notin> touchable V p \<longrightarrow> V' a = V a)"

lemma adds_owned:
  assumes "adds V p V' p' a bn"
  shows "owned V' p' \<subseteq> insert a (owned V p)"
  using assms by (auto simp: adds_def owned_def split: if_splits)

lemma adds_dev: "adds V p V' p' a bn \<Longrightarrow> i_dev p' = i_dev p"
  unfolding adds_def by (metis inode.select_convs(1) inode.surjective inode.update_convs(10))

lemma adds_wf:
  assumes s: "adds V p V' p' a bn" and wf: "file_wf V p"
  shows "file_wf V' p'" "ext V p V' p'"
proof -
  note d = adds_dev [OF s]
  have sb: "fs_sb V' (i_dev p) = fs_sb V (i_dev p)" and a: "data_blk V (i_dev p) a" "\<not> used V (i_dev p) (unat a)"
    using s by (simp_all add: adds_def)
  have l: "data_blk V' (i_dev p) = data_blk V (i_dev p)" "fs_size V' (i_dev p) = fs_size V (i_dev p)"
    using layout_cong [OF sb] by (simp_all add: data_blk_def fun_eq_iff)
  have new: "a \<notin> owned V p" using wf_owned [OF wf] a(2) by blast
  have "data_blk V (i_dev p) b \<and> used V' (i_dev p) (unat b)" if "b \<in> owned V' p'" for b
    using adds_owned [OF s] that wf_owned [OF wf, of b] s by (auto simp: adds_def data_blk_def)
  moreover have "baddr V' p' bm \<noteq> i_addrs p' NDIRECT" if "bm < MAXFILE" "baddr V' p' bm \<noteq> 0" for bm
  proof -
    have "a \<noteq> i_addrs p NDIRECT" "baddr V p bm \<noteq> a"
      using new owned_ind [of p V] owned_baddr [of bm V p] that(1) data_blk_nonzero [OF a(1)] by auto
    then show ?thesis using s that wf_not_ind [OF wf, of bm] unfolding adds_def by (auto split: if_splits)
  qed
  moreover have "bm = bk" if "bm < MAXFILE" "bk < MAXFILE" "baddr V' p' bk \<noteq> 0" "baddr V' p' bm = baddr V' p' bk" for bm bk
  proof -
    have "baddr V p bm \<noteq> a" "baddr V p bk \<noteq> a"
      using new owned_baddr [of _ V p] that(1,2) data_blk_nonzero [OF a(1)] by auto
    then show ?thesis using s that wf_inj [OF wf that(2,1)] unfolding adds_def by (auto split: if_splits)
  qed
  ultimately show "file_wf V' p'" unfolding file_wf_def d l by blast
  have "b \<in> owned V p \<or> \<not> used V (i_dev p) (unat b)" if "b \<in> owned V' p'" for b
    using adds_owned [OF s] that a(2) by auto
  then show "ext V p V' p'" using s unfolding ext_def adds_def by auto
qed

lemma adds_byte:
  assumes s: "adds V p V' p' a bn" and wf: "file_wf V p" and x: "x < MAXFILE * 512"
    and same: "\<And>b. b \<in> owned V p \<Longrightarrow> b \<noteq> i_addrs p NDIRECT \<Longrightarrow> V' (i_dev p, b) = V (i_dev p, b)"
    and zero: "V' (i_dev p, a) = (\<lambda>_. 0)"
  shows "file_byte V' p' x = file_byte V p x"
proof -
  let ?bm = "x div 512"
  have bm: "?bm < MAXFILE" using x by (simp add: less_mult_imp_div_less)
  have b: "baddr V' p' ?bm = (if ?bm = bn then a else baddr V p ?bm)" using s bm by (simp add: adds_def)
  show ?thesis
  proof (cases "?bm = bn")
    case True
    then have "baddr V p ?bm = 0" using s bm by (simp add: adds_def)
    then show ?thesis using True b zero adds_dev [OF s] by (simp add: file_byte_def)
  next
    case False
    then show ?thesis
      using b adds_dev [OF s] same [OF owned_baddr [OF bm]] wf_not_ind [OF wf bm] by (auto simp: file_byte_def)
  qed
qed

text \<open>Changing a data block in use keeps the map and the free blocks as they are.\<close>

lemma data_write:
  assumes ok: "disk_ok have1 V dev" and a: "data_blk V dev a" "used V dev (unat a)"
  shows "fs_sb (V((dev, a) := d)) dev = fs_sb V dev"
    and "\<And>m. scanned V dev m \<Longrightarrow> used (V((dev, a) := d)) dev m = used V dev m"
    and "disk_ok have1 (V((dev, a) := d)) dev" "nfree (V((dev, a) := d)) dev = nfree V dev"
proof -
  let ?V = "V((dev, a) := d)"
  note g = disk_ok_geometry [OF ok]
  have "a \<noteq> of_nat 1" using a(1) by (intro data_not_meta [OF g]) (simp_all add: map_end_def map_start_def)
  then show sb: "fs_sb ?V dev = fs_sb V dev" by (intro fs_sb_cong) simp
  note l = layout_cong [OF sb]
  show u: "used ?V dev m = used V dev m" if "scanned V dev m" for m
    using data_not_map [OF g a(1) that] by (simp add: used_def l)
  have m: "used ?V dev m = used V dev m" if "m < fs_size V dev" for m using u [OF scanned_less [OF that]] .
  have "map_end V dev < fs_size V dev + 1" using g by (simp add: geometry_def map_end_def)
  then show "disk_ok have1 ?V dev" using ok a m by (auto simp: disk_ok_def l)
  have "free_blks ?V dev = free_blks V dev" using m by (auto simp: free_blks_def l)
  then show "nfree ?V dev = nfree V dev" by (simp add: nfree_def)
qed

text \<open>The two ways \<open>bmap\<close> installs a block: in the inode, and in the indirect block.\<close>

lemma rd32_zero [simp]: "rd32 (\<lambda>_. 0) a = 0"
  by (simp add: rd32_def)

lemma rd32_wr32_word: "rd32 (wr32 d (4 * j) v) (4 * k) = (if k = j then v else rd32 d (4 * k))"
proof (cases "k = j")
  case False
  then have "4 * k + 4 \<le> 4 * j \<or> 4 * j + 4 \<le> 4 * k" by linarith
  then show ?thesis using False by (simp add: rd32_wr32_other)
qed simp

lemma touchable_map:
  assumes "scanned V (i_dev p) n" "geometry have1 V (i_dev p)"
  shows "(i_dev p, of_nat (map_block V (i_dev p) n)) \<in> touchable V p"
proof -
  have "unat (of_nat (map_block V (i_dev p) n) :: uint) = map_block V (i_dev p) n"
    using geometry_small [OF assms(2) geometry_map [OF assms(2,1)]] by (simp add: unat_of_nat_small)
  then show ?thesis using map_block_end [OF assms(1)] by (simp add: touchable_def map_block_def)
qed

lemma adds_slot:
  assumes ok: "disk_ok have1 V (i_dev p)" and wf: "file_wf V p" and n: "first_free V (i_dev p) n" "n < fs_size V (i_dev p)"
    and k: "k \<le> NDIRECT" "i_addrs p k = 0"
  defines "V' \<equiv> set_used V (i_dev p) n" and "p' \<equiv> p\<lparr>i_addrs := (i_addrs p)(k := of_nat n)\<rparr>"
  shows "adds V p V' p' (of_nat n) (if k < NDIRECT then k else MAXFILE)"
    and "\<And>b. b \<in> owned V p \<Longrightarrow> V' (i_dev p, b) = V (i_dev p, b)" "V' (i_dev p, of_nat n) = (\<lambda>_. 0)"
proof -
  note f = set_used_facts [OF ok n]
  show own: "V' (i_dev p, b) = V (i_dev p, b)" if "b \<in> owned V p" for b
    using f(5) wf_owned [OF wf that] by (simp add: V'_def)
  show zero: "V' (i_dev p, of_nat n) = (\<lambda>_. 0)" using f(1,3,5) by (simp add: V'_def)
  have nz: "(of_nat n :: uint) \<noteq> 0" by (rule data_blk_nonzero [OF f(1)])
  have b: "baddr V' p' bm = (if bm = (if k < NDIRECT then k else MAXFILE) then of_nat n else baddr V p bm)" if "bm < MAXFILE" for bm
  proof (cases "k < NDIRECT")
    case True
    then show ?thesis using own [OF owned_ind] by (auto simp: baddr_def p'_def)
  next
    case False
    then have "k = NDIRECT" using k(1) by simp
    then show ?thesis using k(2) zero nz that by (simp add: baddr_def p'_def)
  qed
  have "\<not> used V (i_dev p) n" "scanned V (i_dev p) n" using n by (simp_all add: first_free_def)
  moreover have "V' a = V a" if "a \<notin> touchable V p" for a
    using that touchable_map [OF calculation(2) disk_ok_geometry [OF ok]] unfolding V'_def by (intro set_used_other) auto
  moreover have "k = NDIRECT" if "\<not> k < NDIRECT" using that k(1) by simp
  ultimately show "adds V p V' p' (of_nat n) (if k < NDIRECT then k else MAXFILE)"
    using f(1,2,4,6) b k unfolding adds_def by (auto simp: V'_def p'_def baddr_def)
qed

lemma adds_ind:
  assumes ok: "disk_ok have1 V (i_dev p)" and wf: "file_wf V p" and n: "first_free V (i_dev p) n" "n < fs_size V (i_dev p)"
    and ind: "i_addrs p NDIRECT \<noteq> 0" and bn: "NDIRECT \<le> bn" "bn < MAXFILE" "baddr V p bn = 0"
  defines "V' \<equiv> (set_used V (i_dev p) n)((i_dev p, i_addrs p NDIRECT) :=
      sect (wr32 (V (i_dev p, i_addrs p NDIRECT)) (4 * (bn - NDIRECT)) (of_nat n)))"
  shows "adds V p V' p (of_nat n) bn" "disk_ok have1 V' (i_dev p)" "Suc (nfree V' (i_dev p)) = nfree V (i_dev p)"
    and "\<And>b. b \<in> owned V p \<Longrightarrow> b \<noteq> i_addrs p NDIRECT \<Longrightarrow> V' (i_dev p, b) = V (i_dev p, b)"
    and "V' (i_dev p, of_nat n) = (\<lambda>_. 0)"
proof -
  let ?a = "i_addrs p NDIRECT" and ?W = "set_used V (i_dev p) n"
  note f = set_used_facts [OF ok n]
  have a: "data_blk V (i_dev p) ?a" "used V (i_dev p) (unat ?a)" using wf_owned [OF wf owned_ind [OF ind]] by simp_all
  have free: "\<not> used V (i_dev p) n" "scanned V (i_dev p) n" using n by (simp_all add: first_free_def)
  have aW: "data_blk ?W (i_dev p) ?a" "used ?W (i_dev p) (unat ?a)"
    using a f(6) layout_cong [OF f(4)] by (simp_all add: data_blk_def)
  note w = data_write [OF f(8) aW, where d = "sect (wr32 (V (i_dev p, ?a)) (4 * (bn - NDIRECT)) (of_nat n))", folded V'_def]
  show "disk_ok have1 V' (i_dev p)" "Suc (nfree V' (i_dev p)) = nfree V (i_dev p)" using w(3,4) f(7) by simp_all
  show "V' (i_dev p, b) = V (i_dev p, b)" if "b \<in> owned V p" "b \<noteq> ?a" for b
    using that f(5) wf_owned [OF wf that(1)] by (simp add: V'_def)
  have na: "(of_nat n :: uint) \<noteq> ?a" using a(2) free(1) f(2) by metis
  then show "V' (i_dev p, of_nat n) = (\<lambda>_. 0)" using f(1,3,5) by (simp add: V'_def)
  have b: "baddr V' p bm = (if bm = bn then of_nat n else baddr V p bm)" if "bm < MAXFILE" for bm
  proof (cases "bm < NDIRECT")
    case False
    have "rd32 (sect (wr32 d (4 * (bn - NDIRECT)) (of_nat n))) (4 * (bm - NDIRECT))
        = (if bm = bn then of_nat n else rd32 d (4 * (bm - NDIRECT)))" for d
      using False bn that by (subst rd32_sect) (auto simp: rd32_wr32_word)
    then show ?thesis using False ind by (simp add: baddr_def V'_def)
  qed (use bn in \<open>simp add: baddr_def\<close>)
  have "used V' (i_dev p) m \<longleftrightarrow> used V (i_dev p) m \<or> m = n" if "m < fs_size V (i_dev p)" for m
    using w(2) [of m] f(6) [OF that] that layout_cong(1) [OF f(4)] by simp
  moreover have "V' x = V x" if x: "x \<notin> touchable V p" for x
  proof -
    have "x \<noteq> (i_dev p, ?a)" using x owned_ind [OF ind] by (auto simp: touchable_def)
    moreover have "?W x = V x"
      using x touchable_map [OF free(2) disk_ok_geometry [OF ok]] by (intro set_used_other) auto
    ultimately show ?thesis by (simp add: V'_def)
  qed
  ultimately show "adds V p V' p (of_nat n) bn"
    using f(1,2,4) w(1) b free bn unfolding adds_def by simp
qed

section \<open>Block addresses\<close>

lemma baddr_direct: "bn < NDIRECT \<Longrightarrow> baddr V p bn = i_addrs p bn"
  by (simp add: baddr_def)

lemma baddr_indirect:
  "NDIRECT \<le> bn \<Longrightarrow> i_addrs p NDIRECT \<noteq> 0 \<Longrightarrow> baddr V p bn = rd32 (V (i_dev p, i_addrs p NDIRECT)) (4 * (bn - NDIRECT))"
  by (simp add: baddr_def)

lemma word_of_sect:
  assumes "sect d = V a" "NDIRECT \<le> bn" "bn < MAXFILE"
  shows "rd32 d (4 * (bn - NDIRECT)) = rd32 (V a) (4 * (bn - NDIRECT))"
  using assms by (subst assms(1) [symmetric], subst rd32_sect) auto

text \<open>A block that is there: \<open>bmap\<close> changes nothing.\<close>

lemma runs_bmap_there:
  fixes s :: "'a kfs_scheme"
  assumes s: "dst i r s V Map.empty" and p: "inodes r ip = p" and g: "geometry (havedisk1 r) V (i_dev p)"
    and wf: "file_wf V p" and bn: "bn < MAXFILE" "baddr V p bn \<noteq> 0"
    and Q: "\<And>t. dst i r t V Map.empty \<Longrightarrow> Q (baddr V p bn) t"
  shows "runs (bmap ip bn) s Q"
proof (cases "bn < NDIRECT")
  case True
  then show ?thesis
    unfolding bmap_def using Q [OF s] bn(2) dst_inodes [OF s] p by (simp add: runs_def kdefs baddr_def)
next
  case False
  let ?a = "i_addrs p NDIRECT"
  have nz: "?a \<noteq> 0" using False bn(2) by (auto simp: baddr_def)
  have c: "canon (havedisk1 r) (i_dev p) ?a"
    by (rule data_blk_canon [OF g]) (use wf_owned [OF wf owned_ind [OF nz]] in simp)
  have w: "rd32 d (4 * (bn - NDIRECT)) = baddr V p bn" if "sect d = V (i_dev p, ?a)" for d
    using word_of_sect [where V = V, OF that] False bn(1) nz by (simp add: baddr_indirect)
  show ?thesis
    unfolding bmap_def
    apply (rule runs_kbind, rule runs_kget_inode [OF s, where g = "\<lambda>T. T ip"], unfold p, rule runs_if, use False in simp)
    apply (rule runs_if [rotated], use bn(1) in simp)
    apply (rule runs_kbind, rule runs_if, use nz in simp, rule runs_kret)
    apply (rule runs_kbind, rule runs_bread [OF s c], simp, simp)
    subgoal premises t for b t
      apply (rule runs_kbind, rule runs_read [OF t(4)], rule runs_kbind)
      subgoal premises d for d
        apply (unfold w [OF d(1)], rule runs_if, use bn(2) in simp, rule runs_kret)
        apply (rule runs_kseq, rule runs_give_back [OF t(4,5)], rule runs_kret, erule Q)
        done
      done
    done
qed

text \<open>
  Room for \<open>k\<close> more blocks, and for the indirect block if there is none. Growing the file
  keeps its bytes.
\<close>

definition room :: "view \<Rightarrow> inode \<Rightarrow> nat \<Rightarrow> bool" where
  "room V p k \<longleftrightarrow> k + (if i_addrs p NDIRECT = 0 then 1 else 0) \<le> nfree V (i_dev p)"

definition grown :: "bool \<Rightarrow> view \<Rightarrow> inode \<Rightarrow> view \<Rightarrow> inode \<Rightarrow> bool" where
  "grown have1 V p V' p' \<longleftrightarrow> disk_ok have1 V' (i_dev p) \<and> file_wf V' p' \<and> ext V p V' p'
     \<and> (\<forall>x<MAXFILE * 512. file_byte V' p' x = file_byte V p x)"

lemma grown_trans: "grown have1 V p V' p' \<Longrightarrow> grown have1 V' p' V'' p'' \<Longrightarrow> grown have1 V p V'' p''"
  unfolding grown_def using ext_trans ext_dev by (metis (no_types, lifting))

lemma grown_slot:
  assumes ok: "disk_ok have1 V (i_dev p)" and wf: "file_wf V p" and n: "first_free V (i_dev p) n" "n < fs_size V (i_dev p)"
    and k: "k \<le> NDIRECT" "i_addrs p k = 0"
  defines "V' \<equiv> set_used V (i_dev p) n" and "p' \<equiv> p\<lparr>i_addrs := (i_addrs p)(k := of_nat n)\<rparr>"
  shows "grown have1 V p V' p'" "Suc (nfree V' (i_dev p)) = nfree V (i_dev p)" "(of_nat n :: uint) \<noteq> 0"
    and "\<And>bm. bm < MAXFILE \<Longrightarrow> k = NDIRECT \<Longrightarrow> baddr V' p' bm = baddr V p bm"
proof -
  note a = adds_slot [OF ok wf n k, folded V'_def p'_def] and f = set_used_facts [OF ok n]
  show "grown have1 V p V' p'"
    unfolding grown_def using adds_wf [OF a(1) wf] adds_byte [OF a(1) wf _ a(2,3)] f(8) by (simp add: V'_def)
  show "Suc (nfree V' (i_dev p)) = nfree V (i_dev p)" using f(7) by (simp add: V'_def)
  show "(of_nat n :: uint) \<noteq> 0" by (rule data_blk_nonzero [OF f(1)])
  show "baddr V' p' bm = baddr V p bm" if "bm < MAXFILE" "k = NDIRECT" for bm using a(1) that by (simp add: adds_def)
qed

text \<open>The part of \<open>bmap\<close> behind the indirect block.\<close>

definition bmap_rest :: "uint \<Rightarrow> uint \<Rightarrow> nat \<Rightarrow> ('a kide_scheme, uint) K" where
  "bmap_rest dev ind bn =
     kbind (bread dev ind) (\<lambda>bp.
     kbind (kget (\<lambda>s. rd32 (b_data (bufs s bp)) (4 * (bn - NDIRECT)))) (\<lambda>a.
     kbind (if a = 0 then
         kbind (balloc dev) (\<lambda>addr.
         kseq (upd_data bp (\<lambda>d. wr32 d (4 * (bn - NDIRECT)) addr)) (
         kseq (bwrite bp) (
         kret addr)))
       else kret a) (\<lambda>addr.
     kseq (brelse bp) (kret addr))))"

lemma runs_bmap_rest:
  fixes s :: "'a kide_scheme"
  assumes s: "dst i r s V Map.empty" and ok: "disk_ok (havedisk1 r) V (i_dev p)" and wf: "file_wf V p"
    and bn: "NDIRECT \<le> bn" "bn < MAXFILE" "baddr V p bn = 0" and ind: "i_addrs p NDIRECT \<noteq> 0"
    and k: "Suc k \<le> nfree V (i_dev p)"
    and Q: "\<And>V' t. dst i r t V' Map.empty \<Longrightarrow> grown (havedisk1 r) V p V' p \<Longrightarrow> baddr V' p bn \<noteq> 0 \<Longrightarrow> k \<le> nfree V' (i_dev p)
      \<Longrightarrow> Q (baddr V' p bn) t"
  shows "runs (bmap_rest (i_dev p) (i_addrs p NDIRECT) bn) s Q"
proof -
  let ?a = "i_addrs p NDIRECT" and ?dev = "i_dev p"
  obtain n where n: "first_free V ?dev n" "n < fs_size V ?dev" using first_free_exists [of V ?dev] k by auto
  let ?W = "set_used V ?dev n"
  define V1 where "V1 = ?W((?dev, ?a) := sect (wr32 (V (?dev, ?a)) (4 * (bn - NDIRECT)) (of_nat n)))"
  note g = disk_ok_geometry [OF ok] and f = set_used_facts [OF ok n]
    and a = adds_ind [OF ok wf n ind bn, folded V1_def]
  have da: "data_blk V ?dev ?a" using wf_owned [OF wf owned_ind [OF ind]] by simp
  have c: "canon (havedisk1 r) ?dev ?a" by (rule data_blk_canon [OF g da])
  have w: "rd32 d (4 * (bn - NDIRECT)) = 0" if "sect d = V (?dev, ?a)" for d
    using word_of_sect [where V = V, OF that bn(1,2)] bn(3) baddr_indirect [OF bn(1) ind, of V] by simp
  have mf: "meta_free (Map.empty(b \<mapsto> (?dev, ?a))) V ?dev" for b
    using data_not_meta [OF g da] by (auto simp: meta_free_def dest: sym)
  have eq: "?W(( ?dev, ?a) := sect (wr32 (?W (?dev, ?a)) (4 * (bn - NDIRECT)) (of_nat n))) = V1"
    using f(5) [OF da] by (simp add: V1_def)
  have gr: "grown (havedisk1 r) V p V1 p"
    unfolding grown_def using adds_wf [OF a(1) wf] adds_byte [OF a(1) wf _ a(4,5)] a(2) by simp
  have bv: "baddr V1 p bn = of_nat n" using a(1) bn(2) by (simp add: adds_def)
  have nf: "k \<le> nfree V1 ?dev" using a(3) k by simp
  show ?thesis
    unfolding bmap_rest_def
    apply (rule runs_kbind, rule runs_bread [OF s c], simp, simp)
    subgoal premises t for b t
      apply (rule runs_kbind, rule runs_read [OF t(1)], rule runs_kbind)
      subgoal premises d for d
        apply (unfold w [OF d(1)], rule runs_if [rotated], simp)
        apply (rule runs_kbind, rule runs_balloc [OF g mf n(1) t(1)])
        subgoal premises u for u
          apply (rule runs_write [OF u(2) local_wr32], unfold eq, rule runs_kret)
          subgoal premises v for v
            apply (rule runs_kseq, rule runs_give_back [OF v(1) t(2)], rule runs_kret)
            using Q [OF _ gr _ nf] bv data_blk_nonzero [OF f(1)] by simp
          done
        done
      done
    done
qed

lemma meta_free_empty [simp]: "meta_free Map.empty V dev"
  by (simp add: meta_free_def)

lemma same_inode: "inodes r ip = p \<Longrightarrow> (inodes r)(ip := p) = inodes r"
  by auto

text \<open>A block that is missing: \<open>bmap\<close> adds it, and the indirect block before it if need be.\<close>

lemma runs_bmap_new:
  fixes s :: "'a kfs_scheme"
  assumes s: "dst i r s V Map.empty" and p: "inodes r ip = p" and ok: "disk_ok (havedisk1 r) V (i_dev p)"
    and wf: "file_wf V p" and bn: "bn < MAXFILE" "baddr V p bn = 0" and k: "room V p (Suc k)"
    and Q: "\<And>V' p' t. dst i (r\<lparr>inodes := (inodes r)(ip := p')\<rparr>) t V' Map.empty \<Longrightarrow> grown (havedisk1 r) V p V' p'
      \<Longrightarrow> baddr V' p' bn \<noteq> 0 \<Longrightarrow> room V' p' k \<Longrightarrow> Q (baddr V' p' bn) t"
  shows "runs (bmap ip bn) s Q"
proof -
  let ?dev = "i_dev p"
  obtain n where n: "first_free V ?dev n" "n < fs_size V ?dev"
    using first_free_exists [of V ?dev] k by (auto simp: room_def)
  note g = disk_ok_geometry [OF ok]
  let ?W = "set_used V ?dev n" and ?p = "\<lambda>j. p\<lparr>i_addrs := (i_addrs p)(j := of_nat n)\<rparr>"
  have rest: "runs (bmap_rest ?dev (i_addrs q NDIRECT) bn) t Q"
    if t: "dst i (r\<lparr>inodes := (inodes r)(ip := q)\<rparr>) t W Map.empty" and gr: "grown (havedisk1 r) V p W q"
      and b: "baddr W q bn = 0" "i_addrs q NDIRECT \<noteq> 0" "Suc k \<le> nfree W ?dev" "\<not> bn < NDIRECT" for q W t
  proof -
    have q: "disk_ok (havedisk1 r) W (i_dev q)" "file_wf W q" "i_dev q = ?dev"
      using gr ext_dev [of V p W q] by (simp_all add: grown_def)
    show ?thesis
    proof (rule runs_bmap_rest [OF t, where p = q and k = k, unfolded q(3)])
      show "disk_ok (havedisk1 (r\<lparr>inodes := (inodes r)(ip := q)\<rparr>)) W ?dev" using q by simp
      fix V' t'
      assume t': "dst i (r\<lparr>inodes := (inodes r)(ip := q)\<rparr>) t' V' Map.empty"
        "grown (havedisk1 (r\<lparr>inodes := (inodes r)(ip := q)\<rparr>)) W q V' q" "baddr V' q bn \<noteq> 0" "k \<le> nfree V' ?dev"
      then have "grown (havedisk1 r) V p V' q" using grown_trans [OF gr] by simp
      then show "Q (baddr V' q bn) t'" using t'(1,3,4) b(2) q(3) by (intro Q) (simp_all add: room_def)
    qed (use bn b q in simp_all)
  qed
  have new: "runs (kbind (balloc ?dev) (\<lambda>addr. kseq (upd_inode ip (\<lambda>p. p\<lparr>i_addrs := (i_addrs p)(j := addr)\<rparr>)) (kret addr))) s R"
    if "\<And>t. dst i (r\<lparr>inodes := (inodes r)(ip := ?p j)\<rparr>) t ?W Map.empty \<Longrightarrow> R (of_nat n) t" for R j
    by (rule runs_kbind, rule runs_balloc [OF g meta_free_empty n(1) s], rule runs_kseq, erule runs_upd_inode,
        rule runs_kret, rule that, simp add: p)
  show ?thesis
  proof (cases "bn < NDIRECT")
    case True
    then have z: "i_addrs p bn = 0" using bn(2) by (simp add: baddr_direct)
    note gs = grown_slot [OF ok wf n _ z]
    have "room ?W (?p bn) k" using True k gs(2) by (simp add: room_def)
    then show ?thesis
      unfolding bmap_def
      apply (intro runs_kbind runs_kget_inode [OF s, where g = "\<lambda>T. T ip"], unfold p)
      apply (simp only: True z if_True simp_thms)
      apply (rule new)
      using Q [of "?p bn" _ ?W] True gs by (simp add: baddr_direct)
  next
    case False
    have b: "bn - NDIRECT < NINDIRECT" using False bn(1) by simp
    have "runs (kbind (if i_addrs p NDIRECT = 0 then
             kbind (balloc ?dev) (\<lambda>addr.
             kseq (upd_inode ip (\<lambda>p. p\<lparr>i_addrs := (i_addrs p)(NDIRECT := addr)\<rparr>)) (
             kret addr))
           else kret (i_addrs p NDIRECT)) (\<lambda>ind. bmap_rest ?dev ind bn)) s Q"
    proof (rule runs_kbind, rule runs_if)
      assume z: "i_addrs p NDIRECT = 0"
      note gs = grown_slot [OF ok wf n _ z]
      show "runs (kbind (balloc ?dev) (\<lambda>addr. kseq (upd_inode ip (\<lambda>p. p\<lparr>i_addrs := (i_addrs p)(NDIRECT := addr)\<rparr>)) (kret addr)))
          s (\<lambda>ind t. runs (bmap_rest ?dev ind bn) t Q)"
        using rest [of "?p NDIRECT" _ ?W] gs bn k z False by (intro new) (simp add: room_def)
    next
      assume nz: "i_addrs p NDIRECT \<noteq> 0"
      have "grown (havedisk1 r) V p V p" using ok wf by (simp add: grown_def ext_refl)
      then show "runs (kret (i_addrs p NDIRECT)) s (\<lambda>ind t. runs (bmap_rest ?dev ind bn) t Q)"
        using rest [of p s V] nz bn k False s same_inode [OF p] by (intro runs_kret) (simp add: room_def)
    qed
    then show ?thesis
      unfolding bmap_def
      by (intro runs_kbind [where m = "kget _"] runs_kget_inode [OF s, where g = "\<lambda>T. T ip"],
          unfold p bmap_rest_def [symmetric]) (use False b in simp)
  qed
qed

lemma grown_refl: "disk_ok have1 V (i_dev p) \<Longrightarrow> file_wf V p \<Longrightarrow> grown have1 V p V p"
  by (simp add: grown_def ext_refl)

lemma runs_bmap:
  fixes s :: "'a kfs_scheme"
  assumes s: "dst i r s V Map.empty" and p: "inodes r ip = p" and ok: "disk_ok (havedisk1 r) V (i_dev p)"
    and wf: "file_wf V p" and bn: "bn < MAXFILE" and k: "room V p (Suc k)"
    and Q: "\<And>V' p' t. dst i (r\<lparr>inodes := (inodes r)(ip := p')\<rparr>) t V' Map.empty \<Longrightarrow> grown (havedisk1 r) V p V' p'
      \<Longrightarrow> baddr V' p' bn \<noteq> 0 \<Longrightarrow> room V' p' k \<Longrightarrow> (baddr V p bn \<noteq> 0 \<Longrightarrow> p' = p) \<Longrightarrow> Q (baddr V' p' bn) t"
  shows "runs (bmap ip bn) s Q"
proof (cases "baddr V p bn = 0")
  case True
  show ?thesis by (rule runs_bmap_new [OF s p ok wf bn True k]) (rule Q; use True in simp)
next
  case False
  have "room V p k" using k by (simp add: room_def)
  then show ?thesis
    using False same_inode [OF p] grown_refl [OF ok wf]
    by (intro runs_bmap_there [OF s p disk_ok_geometry [OF ok] wf bn] Q) simp_all
qed

section \<open>Reading\<close>

text \<open>One step of the loops: the part of the bytes that is in the block of \<open>off\<close>.\<close>

lemma chunk:
  fixes off rest :: nat
  assumes "m = min rest (512 - off mod 512)" "0 < rest"
  shows "0 < m" "m \<le> rest" "off mod 512 + m \<le> 512"
    and "\<And>x. x < m \<Longrightarrow> (off + x) div 512 = off div 512 \<and> (off + x) mod 512 = off mod 512 + x"
proof -
  have "off mod 512 < 512" by simp
  then show m: "0 < m" "m \<le> rest" "off mod 512 + m \<le> 512" using assms by linarith+
  show "(off + x) div 512 = off div 512 \<and> (off + x) mod 512 = off mod 512 + x" if "x < m" for x
  proof -
    have lt: "off mod 512 + x < 512" using that m(3) by simp
    have eq: "off + x = (off mod 512 + x) + off div 512 * 512" by simp
    show ?thesis unfolding eq div_mult_self1 [of 512, OF zero_neq_numeral [symmetric]] mod_mult_self1 using lt by simp
  qed
qed

lemma runs_readi_loop:
  fixes s :: "'a kfs_scheme"
  assumes s: "dst i r s V Map.empty" and p: "inodes r ip = p" and g: "geometry (havedisk1 r) V (i_dev p)"
    and wf: "file_wf V p" and nh: "no_holes V p sz" and n: "tot \<le> n" "off + (n - tot) \<le> sz"
    and Q: "\<And>t d. dst i r t V Map.empty
      \<Longrightarrow> (\<forall>j. d j = (if tot \<le> j \<and> j < n then file_byte V p (off + (j - tot)) else dst0 j)) \<Longrightarrow> Q d t"
  shows "runs (readi_loop ip dst0 tot off n) s Q"
  using s n Q
proof (induction "n - tot" arbitrary: s dst0 tot off rule: less_induct)
  case less
  show ?case
  proof (cases "tot < n")
    case False
    have "Q dst0 s" by (rule less.prems(4) [OF less.prems(1)]) (use False in auto)
    then show ?thesis using False by (subst readi_loop.simps) (simp add: runs_kret)
  next
    case True
    define m where "m = min (n - tot) (512 - off mod 512)"
    let ?bn = "off div 512"
    have "0 < n - tot" using True by simp
    note c = chunk [OF m_def this]
    have "?bn * 512 < sz" using less.prems(3) True div_times_less_eq_dividend [of off 512] by linarith
    then have bn: "?bn < MAXFILE" "baddr V p ?bn \<noteq> 0" using nh by (simp_all add: no_holes_def)
    have ca: "canon (havedisk1 r) (i_dev p) (baddr V p ?bn)"
      by (rule data_blk_canon [OF g]) (use wf_owned [OF wf owned_baddr [OF bn]] in simp)
    have rest: "runs (readi_loop ip (memmove_obj dst0 tot d (off mod 512) m) (tot + m) (off + m) n) u Q"
      if u: "dst i r u V Map.empty" and d: "sect d = V (i_dev p, baddr V p ?bn)" for u d
    proof (rule less.hyps [OF _ u])
      show "n - (tot + m) < n - tot" "tot + m \<le> n" "off + m + (n - (tot + m)) \<le> sz"
        using c(1,2) less.prems(2,3) True by simp_all
      fix t e
      assume t: "dst i r t V Map.empty" and e: "\<forall>j. e j = (if tot + m \<le> j \<and> j < n then file_byte V p (off + m + (j - (tot + m)))
          else memmove_obj dst0 tot d (off mod 512) m j)"
      have byte: "d (off mod 512 + x) = file_byte V p (off + x)" if "x < m" for x
      proof -
        have "off mod 512 + x < 512" using c(3) that by linarith
        then have "d (off mod 512 + x) = V (i_dev p, baddr V p ?bn) (off mod 512 + x)"
          unfolding d [symmetric] by (simp only: sect_at if_True)
        then show ?thesis using bn(2) unfolding file_byte_def by (simp only: c(4) [OF that] if_False)
      qed
      have "e j = (if tot \<le> j \<and> j < n then file_byte V p (off + (j - tot)) else dst0 j)" for j
      proof (cases "tot \<le> j \<and> j < tot + m")
        case True
        then have "j - tot < m" "j < n" using c(2) by linarith+
        then show ?thesis using True spec [OF e, of j] byte [OF \<open>j - tot < m\<close>] by (simp add: memmove_obj_at)
      next
        case False
        then show ?thesis using c(2) spec [OF e, of j] by (cases "tot \<le> j") (simp_all add: memmove_obj_at)
      qed
      then show "Q e t" using less.prems(4) [OF t] by simp
    qed
    show ?thesis
      apply (subst readi_loop.simps, unfold m_def [symmetric], rule runs_if [rotated], use True in simp)
      apply (rule runs_kbind, rule runs_bmap_there [OF less.prems(1) p g wf bn])
      apply (rule runs_kbind, rule runs_kget_inode [where g = "\<lambda>T. i_dev (T ip)"], assumption, unfold p)
      apply (rule runs_kbind, rule runs_bread [OF _ ca], assumption, simp, simp)
      apply (rule runs_kbind)
      subgoal premises t for t b u
        apply (unfold get_data_def, rule runs_read [OF t(3)], rule runs_kseq, rule runs_give_back [OF t(3,4)])
        apply (erule (1) rest)
        done
      done
  qed
qed

section \<open>Writing\<close>

text \<open>Changing block \<open>bn\<close> of the file.\<close>

lemma write_block:
  fixes d :: bytes
  assumes ok: "disk_ok have1 V (i_dev p)" and wf: "file_wf V p" and bn: "bn < MAXFILE" "baddr V p bn \<noteq> 0"
  defines "V' \<equiv> V((i_dev p, baddr V p bn) := d)"
  shows "disk_ok have1 V' (i_dev p)" "file_wf V' p" "ext V p V' p" "nfree V' (i_dev p) = nfree V (i_dev p)"
    and "\<And>bm. baddr V' p bm = baddr V p bm"
    and "\<And>x. x < MAXFILE * 512 \<Longrightarrow> file_byte V' p x = (if x div 512 = bn then d (x mod 512) else file_byte V p x)"
proof -
  let ?a = "baddr V p bn"
  note o = wf_owned [OF wf owned_baddr [OF bn]]
  note w = data_write [OF ok, where a = ?a and d = d, folded V'_def]
  show "disk_ok have1 V' (i_dev p)" "nfree V' (i_dev p) = nfree V (i_dev p)" using w o by simp_all
  have sb: "fs_sb V' (i_dev p) = fs_sb V (i_dev p)" using w o by simp
  note l = layout_cong [OF sb]
  show b: "baddr V' p bm = baddr V p bm" for bm
    using wf_not_ind [OF wf bn] by (simp add: baddr_def V'_def)
  have ow: "owned V' p = owned V p" by (simp add: owned_def b)
  have dk: "data_blk V' (i_dev p) = data_blk V (i_dev p)" by (simp add: data_blk_def l fun_eq_iff)
  have u: "used V' (i_dev p) m = used V (i_dev p) m" if "m < fs_size V (i_dev p)" for m
    using w(2) o scanned_less [OF that] by blast
  then have u': "used V' (i_dev p) (unat c) = used V (i_dev p) (unat c)" if "c \<in> owned V p" for c
    using wf_owned [OF wf that] by (simp add: data_blk_def)
  show "file_wf V' p" using wf u' unfolding file_wf_def b ow dk by blast
  have "(i_dev p, ?a) \<in> touchable V p" using owned_baddr [OF bn] by (simp add: touchable_def)
  then show "ext V p V' p" using sb u b by (auto simp: ext_def ow) (auto simp: V'_def)
  fix x
  assume "x < MAXFILE * 512"
  then have "x div 512 < MAXFILE" by (simp add: less_mult_imp_div_less)
  then show "file_byte V' p x = (if x div 512 = bn then d (x mod 512) else file_byte V p x)"
    using bn wf_inj [OF wf bn(1), of "x div 512"] unfolding file_byte_def b by (auto simp: V'_def)
qed

text \<open>File \<open>p\<close> of \<open>V\<close> has become \<open>p'\<close> of \<open>V'\<close>, with the bytes from \<open>lo\<close> to \<open>hi\<close> taken from \<open>f\<close>.\<close>

definition written :: "bool \<Rightarrow> view \<Rightarrow> inode \<Rightarrow> view \<Rightarrow> inode \<Rightarrow> nat \<Rightarrow> nat \<Rightarrow> (nat \<Rightarrow> uchar) \<Rightarrow> bool" where
  "written have1 V p V' p' lo hi f \<longleftrightarrow> disk_ok have1 V' (i_dev p) \<and> file_wf V' p' \<and> ext V p V' p'
     \<and> (\<forall>x<MAXFILE * 512. file_byte V' p' x = (if lo \<le> x \<and> x < hi then f x else file_byte V p x))
     \<and> (\<forall>x. lo \<le> x \<and> x < hi \<longrightarrow> baddr V' p' (x div 512) \<noteq> 0)
     \<and> ((\<forall>x. lo \<le> x \<and> x < hi \<longrightarrow> baddr V p (x div 512) \<noteq> 0) \<longrightarrow> p' = p)"

lemma written_none: "disk_ok have1 V (i_dev p) \<Longrightarrow> file_wf V p \<Longrightarrow> hi \<le> lo \<Longrightarrow> written have1 V p V p lo hi f"
  by (auto simp: written_def ext_refl)

lemma written_trans:
  assumes a: "written have1 V p V' p' lo mid f" and b: "written have1 V' p' V'' p'' mid hi f"
    and le: "lo \<le> mid" "mid \<le> hi" "hi \<le> MAXFILE * 512"
  shows "written have1 V p V'' p'' lo hi f"
proof -
  have e: "ext V p V' p'" "ext V' p' V'' p''" "file_wf V' p'" "file_wf V'' p''" "i_dev p' = i_dev p"
    using a b ext_dev [of V p V' p'] by (simp_all add: written_def)
  have nz: "baddr V'' p'' (x div 512) \<noteq> 0" if x: "lo \<le> x" "x < hi" for x
  proof (cases "mid \<le> x")
    case False
    have "x div 512 < MAXFILE" using x(2) le(3) by (intro less_mult_imp_div_less) simp
    moreover have "baddr V' p' (x div 512) \<noteq> 0" using a x(1) False by (simp add: written_def)
    ultimately show ?thesis using e(2) by (simp add: ext_def)
  qed (use b x in \<open>simp add: written_def\<close>)
  have "file_byte V'' p'' x = (if lo \<le> x \<and> x < hi then f x else file_byte V p x)" if "x < MAXFILE * 512" for x
    using a b that le(1,2) by (simp add: written_def)
  moreover have "p'' = p" if all: "\<forall>x. lo \<le> x \<and> x < hi \<longrightarrow> baddr V p (x div 512) \<noteq> 0"
  proof -
    have p': "p' = p" using a all le by (simp add: written_def)
    have "baddr V' p' (x div 512) \<noteq> 0" if "mid \<le> x" "x < hi" for x
    proof -
      have "x div 512 < MAXFILE" using that(2) le(3) by (intro less_mult_imp_div_less) simp
      then show ?thesis using e(1) all that le(1) by (simp add: ext_def)
    qed
    then show ?thesis using b p' by (simp add: written_def)
  qed
  ultimately show ?thesis using ext_trans [OF e(1-4)] b e(5) nz unfolding written_def by simp
qed

lemma in_block:
  fixes off x m :: nat
  assumes "off mod 512 + m \<le> 512"
  shows "off \<le> x \<and> x < off + m \<longleftrightarrow> x div 512 = off div 512 \<and> off mod 512 \<le> x mod 512 \<and> x mod 512 < off mod 512 + m"
    (is "?L \<longleftrightarrow> ?R")
proof
  assume ?L
  then obtain y where y: "x = off + y" "y < m" by (metis le_Suc_ex nat_add_left_cancel_less)
  have lt: "off mod 512 + y < 512" using y(2) assms by simp
  have eq: "off + y = (off mod 512 + y) + off div 512 * 512" by simp
  show ?R
    unfolding y(1) eq div_mult_self1 [of 512, OF zero_neq_numeral [symmetric]] mod_mult_self1 using lt y(2) by simp
next
  assume R: ?R
  have "x = x div 512 * 512 + x mod 512" "off = off div 512 * 512 + off mod 512" by simp_all
  then show ?L using R by linarith
qed

lemma written_step:
  fixes src :: bytes and tot :: nat
  assumes g: "grown have1 V p V1 p1" and bn: "off div 512 < MAXFILE" "baddr V1 p1 (off div 512) \<noteq> 0"
    and m: "0 < m" "off mod 512 + m \<le> 512" and same: "baddr V p (off div 512) \<noteq> 0 \<Longrightarrow> p1 = p"
  defines "W \<equiv> V1((i_dev p, baddr V1 p1 (off div 512)) :=
      sect (memmove_obj (V1 (i_dev p, baddr V1 p1 (off div 512))) (off mod 512) src tot m))"
  shows "written have1 V p W p1 off (off + m) (\<lambda>x. src (tot + (x - off)))" "nfree W (i_dev p) = nfree V1 (i_dev p)"
proof -
  let ?a = "baddr V1 p1 (off div 512)"
  let ?d = "sect (memmove_obj (V1 (i_dev p, ?a)) (off mod 512) src tot m)"
  have dev: "i_dev p1 = i_dev p" and ok: "disk_ok have1 V1 (i_dev p1)" "file_wf V1 p1" "ext V p V1 p1"
    using g ext_dev [of V p V1 p1] by (simp_all add: grown_def)
  note w = write_block [OF ok(1,2) bn, where d = ?d, unfolded dev, folded W_def]
  show "nfree W (i_dev p) = nfree V1 (i_dev p)" by (rule w(4))
  have "file_byte W p1 x = (if off \<le> x \<and> x < off + m then src (tot + (x - off)) else file_byte V p x)" if x: "x < MAXFILE * 512" for x
  proof (cases "x div 512 = off div 512")
    case False
    then have "\<not> (off \<le> x \<and> x < off + m)" using in_block [OF m(2)] by blast
    then show ?thesis using False w(6) [OF x] g x by (auto simp: grown_def)
  next
    case True
    have "file_byte W p1 x = ?d (x mod 512)" using w(6) [OF x] True by simp
    also have "\<dots> = (if off mod 512 \<le> x mod 512 \<and> x mod 512 < off mod 512 + m then src (tot + (x mod 512 - off mod 512))
        else V1 (i_dev p, ?a) (x mod 512))" by (simp add: sect_at memmove_obj_at)
    also have "V1 (i_dev p, ?a) (x mod 512) = file_byte V p x"
      using g x True bn(2) dev by (auto simp: grown_def file_byte_def)
    also have "x mod 512 - off mod 512 = x - off"
    proof -
      have "x = x div 512 * 512 + x mod 512" "off = off div 512 * 512 + off mod 512" by simp_all
      then show ?thesis using True by linarith
    qed
    finally show ?thesis using in_block [OF m(2), of x] True by simp
  qed
  moreover have "ext V p W p1" using ext_trans [OF ok(3) w(3) ok(2) w(2)] .
  moreover have "baddr W p1 (x div 512) \<noteq> 0" if "off \<le> x \<and> x < off + m" for x
    using that in_block [OF m(2), of x] bn(2) w(5) by simp
  ultimately show "written have1 V p W p1 off (off + m) (\<lambda>x. src (tot + (x - off)))"
    using w(1,2) same m(1) by (auto simp: written_def)
qed

lemma written_same:
  "written have1 V p V' p' lo hi f \<Longrightarrow> (\<And>x. lo \<le> x \<Longrightarrow> x < hi \<Longrightarrow> f x = g x) \<Longrightarrow> written have1 V p V' p' lo hi g"
  by (simp add: written_def)

lemma runs_writei_loop:
  fixes s :: "'a kfs_scheme"
  assumes "dst i (r\<lparr>inodes := (inodes r)(ip := p)\<rparr>) s V Map.empty"
    and "disk_ok (havedisk1 r) V (i_dev p)" "file_wf V p"
    and "tot \<le> n" "off + (n - tot) \<le> MAXFILE * 512"
    and "tot < n \<Longrightarrow> off mod 512 + (n - tot) \<le> k * 512" "room V p k"
    and "\<And>V' p' t. dst i (r\<lparr>inodes := (inodes r)(ip := p')\<rparr>) t V' Map.empty
      \<Longrightarrow> written (havedisk1 r) V p V' p' off (off + (n - tot)) (\<lambda>x. src (tot + (x - off))) \<Longrightarrow> Q () t"
  shows "runs (writei_loop ip src tot off n) s Q"
  using assms
proof (induction "n - tot" arbitrary: s V p tot off k rule: less_induct)
  case less
  let ?r = "\<lambda>p. r\<lparr>inodes := (inodes r)(ip := p)\<rparr>" and ?bn = "off div 512"
  note s = less.prems(1) and ok = less.prems(2) and wf = less.prems(3) and Q = less.prems(8)
  show ?case
  proof (cases "tot < n")
    case False
    have "Q () s" using written_none [OF ok wf] False by (intro Q [OF s]) simp
    then show ?thesis using False by (subst writei_loop.simps) (simp add: runs_kret)
  next
    case True
    define m where "m = min (n - tot) (512 - off mod 512)"
    have pos: "0 < n - tot" using True by simp
    note c = chunk [OF m_def pos]
    obtain k' where k': "k = Suc k'" using less.prems(6) [OF True] pos by (cases k) simp_all
    have lt: "off < MAXFILE * 512" using less.prems(5) pos by linarith
    have bn: "?bn < MAXFILE" by (rule less_mult_imp_div_less [OF lt])
    have k2: "(off + m) mod 512 + (n - (tot + m)) \<le> k' * 512" if "tot + m < n"
    proof -
      have "m = 512 - off mod 512" using that by (simp add: m_def min_def split: if_splits)
      then have m512: "off mod 512 + m = 512" by simp
      have "off + m = off div 512 * 512 + (off mod 512 + m)" by simp
      then have "(off + m) mod 512 = 0" by (simp only: m512 mod_mult_self3 mod_self)
      then show ?thesis using less.prems(6) [OF True] that m512 unfolding k' by simp
    qed
    have rest: "runs (writei_loop ip src (tot + m) (off + m) n) u Q"
      if g: "grown (havedisk1 r) V p V1 p1" and nz: "baddr V1 p1 ?bn \<noteq> 0" and rm: "room V1 p1 k'" and sm: "baddr V p ?bn \<noteq> 0 \<Longrightarrow> p1 = p"
        and u: "dst i (?r p1) u (V1((i_dev p, baddr V1 p1 ?bn) :=
          sect (memmove_obj (V1 (i_dev p, baddr V1 p1 ?bn)) (off mod 512) src tot m))) Map.empty" for V1 p1 u
    proof -
      define W where "W = V1((i_dev p, baddr V1 p1 ?bn) :=
        sect (memmove_obj (V1 (i_dev p, baddr V1 p1 ?bn)) (off mod 512) src tot m))"
      note w = written_step [OF g bn nz c(1,3) sm, where src = src and tot = tot, folded W_def]
      have dev: "i_dev p1 = i_dev p" using g ext_dev by (auto simp: grown_def)
      have okW: "disk_ok (havedisk1 r) W (i_dev p1)" "file_wf W p1" using w(1) dev by (simp_all add: written_def)
      have rmW: "room W p1 k'" using rm w(2) dev by (simp add: room_def)
      show ?thesis
      proof (rule less.hyps [OF _ u [folded W_def] okW _ _ k2 rmW])
        show "n - (tot + m) < n - tot" "tot + m \<le> n" "off + m + (n - (tot + m)) \<le> MAXFILE * 512"
          using c(1,2) pos less.prems(5) by linarith+
        fix V' p' t
        assume t: "dst i (?r p') t V' Map.empty"
          "written (havedisk1 r) W p1 V' p' (off + m) (off + m + (n - (tot + m))) (\<lambda>x. src (tot + m + (x - (off + m))))"
        have e: "off + m + (n - (tot + m)) = off + (n - tot)" using c(2) pos by linarith
        have "written (havedisk1 r) W p1 V' p' (off + m) (off + (n - tot)) (\<lambda>x. src (tot + (x - off)))"
          by (rule written_same [OF t(2) [unfolded e]]) simp
        from written_trans [OF w(1) this] show "Q () t"
          using c(2) less.prems(5) by (intro Q [OF t(1)]) simp
      qed
    qed
    show ?thesis
      apply (subst writei_loop.simps, unfold m_def [symmetric], rule runs_if [rotated], use True in simp)
      apply (rule runs_kbind, rule runs_bmap [OF s _ _ wf bn less.prems(7) [unfolded k']], simp, use ok in simp)
      subgoal premises t for V1 p1 t
      proof -
        have t1: "dst i (?r p1) t V1 Map.empty" using t(2) by simp
        have g: "grown (havedisk1 r) V p V1 p1" using t(3) by simp
        have dev: "i_dev p1 = i_dev p" and ok1: "geometry (havedisk1 r) V1 (i_dev p1)" "file_wf V1 p1"
          using g ext_dev [of V p V1 p1] by (simp_all add: grown_def disk_ok_def)
        have ca: "canon (havedisk1 (?r p1)) (i_dev p) (baddr V1 p1 ?bn)"
          using data_blk_canon [OF ok1(1)] wf_owned [OF ok1(2) owned_baddr [OF bn t(4)]] dev by simp
        have iv: "inodes (?r p1) ip = p1" by simp
        show ?thesis
          apply (rule runs_kbind, rule runs_kget_inode [OF t1, where g = "\<lambda>T. i_dev (T ip)"])
          apply (unfold iv dev)
          apply (rule runs_kbind, rule runs_bread [OF t1 ca], simp, simp)
          apply (rule runs_write_release_then [OF _ _ local_memmove_obj], assumption, assumption)
          apply (rule rest [OF g t(4,5,6)], assumption, assumption)
          done
      qed
      done
  qed
qed

section \<open>Inode blocks\<close>

text \<open>Writing a block between the super block and the map keeps the map and the data.\<close>

lemma meta_write:
  assumes ok: "disk_ok have1 V dev" and n: "2 \<le> n" "n < map_start V dev"
  shows "fs_sb (V((dev, of_nat n) := d)) dev = fs_sb V dev"
    and "\<And>m. scanned V dev m \<Longrightarrow> used (V((dev, of_nat n) := d)) dev m = used V dev m"
    and "disk_ok have1 (V((dev, of_nat n) := d)) dev" "nfree (V((dev, of_nat n) := d)) dev = nfree V dev"
    and "\<And>a. data_blk V dev a \<Longrightarrow> (V((dev, of_nat n) := d)) (dev, a) = V (dev, a)"
proof -
  let ?V = "V((dev, of_nat n) := d)"
  note g = disk_ok_geometry [OF ok]
  have me: "n < map_end V dev" "n < fs_size V dev" "map_end V dev \<le> fs_size V dev" "1 < fs_size V dev"
    using n g by (simp_all add: map_end_def geometry_def)
  have "(of_nat n :: uint) \<noteq> of_nat 1" using sector_eq_iff [OF g me(2,4)] n(1) by simp
  then show sb: "fs_sb ?V dev = fs_sb V dev" by (intro fs_sb_cong) simp
  note l = layout_cong [OF sb]
  show data: "?V (dev, a) = V (dev, a)" if "data_blk V dev a" for a
    using data_not_meta [OF g that me(1)] by simp
  show u: "used ?V dev m = used V dev m" if "scanned V dev m" for m
  proof -
    have "(of_nat (map_block V dev m) :: uint) \<noteq> of_nat n"
      using sector_eq_iff [OF g geometry_map [OF g that] me(2)] n(2) by (simp add: map_block_def)
    then show ?thesis by (simp add: used_def l)
  qed
  have m: "used ?V dev m = used V dev m" if "m < fs_size V dev" for m using u [OF scanned_less [OF that]] .
  have "?V (dev, a) = (\<lambda>_. 0)" if "unat a < fs_size V dev" "\<not> used V dev (unat a)" for a
  proof -
    have "data_blk V dev a" using that ok by (auto simp: disk_ok_def data_blk_def not_less)
    then show ?thesis using data that ok by (simp add: disk_ok_def)
  qed
  then show "disk_ok have1 ?V dev" using ok m me(3) by (simp add: disk_ok_def l)
  have "free_blks ?V dev = free_blks V dev" using m by (auto simp: free_blks_def l)
  then show "nfree ?V dev = nfree V dev" by (simp add: nfree_def)
qed

text \<open>Inode \<open>p\<close> is one of the inodes of the disk.\<close>

definition inum_ok :: "view \<Rightarrow> inode \<Rightarrow> bool" where
  "inum_ok V p \<longleftrightarrow> unat (i_inum p) < unat (sb_ninodes (fs_sb V (i_dev p)))"

lemma IBLOCK_nat: "IBLOCK inum = of_nat (unat inum div 8 + 2)"
proof -
  have "inum div 8 = of_nat (unat inum div 8)"
    using uint_bound [of inum] by (simp add: word_unat_eq_iff unat_div unat_of_nat_small)
  then show ?thesis by (simp add: IBLOCK_def)
qed

lemma inum_block: "inum_ok V p \<Longrightarrow> unat (i_inum p) div 8 + 2 < map_start V (i_dev p)"
  using div_le_mono [of "unat (i_inum p)" "unat (sb_ninodes (fs_sb V (i_dev p)))" 8]
  by (simp add: inum_ok_def map_start_def)

lemma inum_canon:
  assumes "geometry have1 V (i_dev p)" "inum_ok V p"
  shows "canon have1 (i_dev p) (IBLOCK (i_inum p))"
  unfolding IBLOCK_nat using inum_block [OF assms(2)] assms(1) by (intro geometry_canon) (auto simp: geometry_def)

lemma put_inode_keeps:
  assumes ok: "disk_ok have1 V (i_dev q)" and i: "inum_ok V q"
  shows "fs_sb (put_inode V q) (i_dev q) = fs_sb V (i_dev q)" "disk_ok have1 (put_inode V q) (i_dev q)"
    and "\<And>a. data_blk V (i_dev q) a \<Longrightarrow> put_inode V q (i_dev q, a) = V (i_dev q, a)"
    and "\<And>m. m < fs_size V (i_dev q) \<Longrightarrow> used (put_inode V q) (i_dev q) m = used V (i_dev q) m"
proof -
  note w = meta_write [OF ok _ inum_block [OF i]]
  show "fs_sb (put_inode V q) (i_dev q) = fs_sb V (i_dev q)" "disk_ok have1 (put_inode V q) (i_dev q)"
    using w(1,3) by (simp_all add: put_inode_def IBLOCK_nat del: of_nat_add)
  show "put_inode V q (i_dev q, a) = V (i_dev q, a)" if "data_blk V (i_dev q) a" for a
    using w(5) [OF _ that] unfolding put_inode_def IBLOCK_nat by simp
  show "used (put_inode V q) (i_dev q) m = used V (i_dev q) m" if "m < fs_size V (i_dev q)" for m
    using w(2) [OF _ scanned_less [OF that]] unfolding put_inode_def IBLOCK_nat by simp
qed

text \<open>A file does not change when its blocks and the map do not.\<close>

lemma file_same:
  assumes sb: "fs_sb V' (i_dev p) = fs_sb V (i_dev p)" and wf: "file_wf V p"
    and data: "\<And>a. a \<in> owned V p \<Longrightarrow> V' (i_dev p, a) = V (i_dev p, a)"
    and u: "\<And>a. a \<in> owned V p \<Longrightarrow> used V (i_dev p) (unat a) \<Longrightarrow> used V' (i_dev p) (unat a)"
  shows "baddr V' p bn = baddr V p bn" "owned V' p = owned V p" "file_wf V' p"
    and "x < MAXFILE * 512 \<Longrightarrow> file_byte V' p x = file_byte V p x"
proof -
  show b: "baddr V' p bn = baddr V p bn" for bn using data [OF owned_ind] by (simp add: baddr_def)
  show ow: "owned V' p = owned V p" by (simp add: owned_def b)
  have "data_blk V' (i_dev p) = data_blk V (i_dev p)" using layout_cong [OF sb] by (simp add: data_blk_def fun_eq_iff)
  then show "file_wf V' p" using wf u unfolding file_wf_def ow b by auto
  show "file_byte V' p x = file_byte V p x" if "x < MAXFILE * 512"
    using data [OF owned_baddr [OF less_mult_imp_div_less [OF that]]] by (simp add: file_byte_def b)
qed

definition file_ok :: "view \<Rightarrow> inode \<Rightarrow> bool" where
  "file_ok V p \<longleftrightarrow> file_wf V p \<and> unat (i_size p) \<le> MAXFILE * 512 \<and> no_holes V p (unat (i_size p))"

text \<open>
  What \<open>writei\<close> makes of a file: bytes \<open>lo\<close> to \<open>hi\<close> are those of \<open>f\<close>, the size covers them, no
  other inode and no sector of another file has changed, and a disk inode that agreed with the
  one in memory still does.
\<close>

definition updated :: "bool \<Rightarrow> view \<Rightarrow> inode \<Rightarrow> view \<Rightarrow> inode \<Rightarrow> nat \<Rightarrow> nat \<Rightarrow> (nat \<Rightarrow> uchar) \<Rightarrow> bool" where
  "updated have1 V p V' p' lo hi f \<longleftrightarrow> disk_ok have1 V' (i_dev p) \<and> file_ok V' p'
     \<and> p' = p\<lparr>i_addrs := i_addrs p', i_size := of_nat (max (unat (i_size p)) hi)\<rparr>
     \<and> (\<forall>x<MAXFILE * 512. file_byte V' p' x = (if lo \<le> x \<and> x < hi then f x else file_byte V p x))
     \<and> (\<forall>a. a \<notin> touchable V p \<longrightarrow> a \<noteq> (i_dev p, IBLOCK (i_inum p)) \<longrightarrow> V' a = V a)
     \<and> (\<forall>q. inum_ok V q \<longrightarrow> (i_dev q, i_inum q) \<noteq> (i_dev p, i_inum p) \<longrightarrow> disk_inode V' q = disk_inode V q)
     \<and> (disk_inode V p = p \<longrightarrow> disk_inode V' p' = p')"

lemma iblock_untouched:
  assumes ok: "disk_ok have1 V (i_dev p)" and wf: "file_wf V p" and q: "inum_ok V q"
  shows "(i_dev q, IBLOCK (i_inum q)) \<notin> touchable V p"
proof
  assume t: "(i_dev q, IBLOCK (i_inum q)) \<in> touchable V p"
  then have dev: "i_dev q = i_dev p" by (simp add: touchable_def)
  note b = inum_block [OF q, unfolded dev]
  have "unat (i_inum q) div 8 + 2 < fs_size V (i_dev p)" using b ok by (simp add: disk_ok_def geometry_def)
  from geometry_small [OF disk_ok_geometry [OF ok] this] have u: "unat (IBLOCK (i_inum q)) = unat (i_inum q) div 8 + 2"
    unfolding IBLOCK_nat by (subst unat_of_nat_small) simp_all
  have "data_blk V (i_dev p) (IBLOCK (i_inum q)) \<or> map_start V (i_dev p) \<le> unat (IBLOCK (i_inum q))"
    using t wf_owned [OF wf] dev by (auto simp: touchable_def)
  then show False using b u by (auto simp: data_blk_def map_end_def)
qed

lemma ext_disk_inode:
  assumes "disk_ok have1 V (i_dev p)" "file_wf V p" "inum_ok V q" "ext V p V' p'"
  shows "disk_inode V' q = disk_inode V q"
  using assms(4) iblock_untouched [OF assms(1-3)] by (simp add: ext_def disk_inode_def)

lemma no_holes_max:
  assumes nh: "no_holes V p sz" and e: "ext V p V' p'" and lo: "lo \<le> sz" "hi \<le> MAXFILE * 512"
    and nz: "\<And>x. lo \<le> x \<Longrightarrow> x < hi \<Longrightarrow> baddr V' p' (x div 512) \<noteq> 0"
  shows "no_holes V' p' (max sz hi)"
  unfolding no_holes_def
proof (intro allI impI)
  fix bn
  assume bn: "bn * 512 < max sz hi"
  show "bn < MAXFILE \<and> baddr V' p' bn \<noteq> 0"
  proof (cases "bn * 512 < sz")
    case True
    then show ?thesis using nh e by (simp add: no_holes_def ext_def)
  next
    case False
    then have "lo \<le> bn * 512" "bn * 512 < hi" using bn lo(1) by simp_all
    then show ?thesis using nz [of "bn * 512"] lo(2) by simp
  qed
qed

text \<open>The two ends of \<open>writei\<close>: the file has not become longer, or it has and the inode is written back.\<close>

lemma updated_same:
  assumes ok: "disk_ok have1 V (i_dev p)" and f: "file_ok V p" "inum_ok V p"
    and w: "written have1 V p V' p' lo hi f" and lo: "lo \<le> unat (i_size p)" "hi \<le> unat (i_size p) \<or> hi \<le> lo"
  shows "updated have1 V p V' p' lo hi f"
proof -
  have e: "ext V p V' p'" and wf: "file_wf V' p'" "file_wf V p" using w f by (simp_all add: written_def file_ok_def)
  have p': "p' = p"
  proof -
    have "baddr V p (x div 512) \<noteq> 0" if "lo \<le> x" "x < hi" for x
    proof -
      have "x div 512 * 512 < unat (i_size p)" using that lo(2) div_times_less_eq_dividend [of x 512] by linarith
      then show ?thesis using f(1) by (simp add: file_ok_def no_holes_def)
    qed
    then show ?thesis using w by (simp add: written_def)
  qed
  have "max (unat (i_size p)) hi = unat (i_size p)" using lo by auto
  moreover have "no_holes V' p' (unat (i_size p))" using f(1) e by (simp add: file_ok_def no_holes_def ext_def)
  moreover have "disk_inode V' q = disk_inode V q" if "inum_ok V q" for q by (rule ext_disk_inode [OF ok wf(2) that e])
  moreover have "V' a = V a" if "a \<notin> touchable V p" for a using ext_untouched [OF e that] .
  ultimately show ?thesis using w f unfolding updated_def written_def file_ok_def p' by simp
qed

lemma updated_grows:
  assumes ok: "disk_ok have1 V (i_dev p)" and f: "file_ok V p" "inum_ok V p"
    and w: "written have1 V p W p1 lo hi f" and lo: "lo \<le> unat (i_size p)" "unat (i_size p) < hi" "hi \<le> MAXFILE * 512"
  defines "p' \<equiv> p1\<lparr>i_size := of_nat hi\<rparr>"
  shows "updated have1 V p (put_inode W p') p' lo hi f"
proof -
  let ?V = "put_inode W p'"
  have e: "ext V p W p1" and wf: "file_wf W p1" "file_wf V p" and okW: "disk_ok have1 W (i_dev p)"
    using w f by (simp_all add: written_def file_ok_def)
  have dev: "i_dev p' = i_dev p" "i_inum p' = i_inum p" and p1: "p1 = p\<lparr>i_addrs := i_addrs p1\<rparr>"
    using e ext_dev [OF e] by (simp_all add: p'_def ext_def) (metis inode.select_convs(2) inode.surjective inode.update_convs(10))
  have io: "inum_ok W p'" using f(2) e dev by (simp add: inum_ok_def ext_def)
  note k = put_inode_keeps [of have1 W p', unfolded dev(1), OF okW io]
  have b: "baddr U p' = baddr U p1" "owned U p' = owned U p1" "file_byte U p' = file_byte U p1" for U
    by (simp_all add: fun_eq_iff baddr_def owned_def file_byte_def p'_def)
  have wf': "file_wf W p'" using wf(1) unfolding file_wf_def b by (simp add: p'_def)
  have s: "baddr ?V p' bn = baddr W p' bn" "file_wf ?V p'" "x < MAXFILE * 512 \<Longrightarrow> file_byte ?V p' x = file_byte W p' x" for bn x
    using file_same [of ?V p' W, OF _ wf', unfolded dev(1)] k wf_owned [OF wf', unfolded dev(1)]
    by (auto simp: data_blk_def)
  have sz: "unat (i_size p') = hi" using lo(3) by (simp add: p'_def unat_of_nat_small)
  have "no_holes W p1 (max (unat (i_size p)) hi)"
    using f(1) w by (intro no_holes_max [OF _ e lo(1,3)]) (simp_all add: file_ok_def written_def)
  then have "no_holes ?V p' hi" using lo(2) s(1) [unfolded b] unfolding no_holes_def b by simp
  then have fo: "file_ok ?V p'" using s(2) sz lo(3) by (simp add: file_ok_def)
  show ?thesis
    unfolding updated_def
  proof (intro conjI allI impI)
    show "disk_ok have1 ?V (i_dev p)" by (rule k(2))
    show "file_ok ?V p'" by (rule fo)
    show "p' = p\<lparr>i_addrs := i_addrs p', i_size := of_nat (max (unat (i_size p)) hi)\<rparr>"
      using arg_cong [OF p1, of "\<lambda>q. q\<lparr>i_size := of_nat hi\<rparr>"] lo(2) by (simp add: p'_def max_def)
    show "file_byte ?V p' x = (if lo \<le> x \<and> x < hi then f x else file_byte V p x)" if "x < MAXFILE * 512" for x
      using s(3) [OF that] w that unfolding written_def b by simp
    show "?V a = V a" if "a \<notin> touchable V p" "a \<noteq> (i_dev p, IBLOCK (i_inum p))" for a
      using ext_untouched [OF e that(1)] that(2) dev by (simp add: put_inode_def)
    show "disk_inode ?V q = disk_inode V q" if "inum_ok V q" "(i_dev q, i_inum q) \<noteq> (i_dev p, i_inum p)" for q
      using disk_inode_put_other [of q p' W] ext_disk_inode [OF ok wf(2) that(1) e] that(2) dev by auto
    show "disk_inode ?V p' = p'" by (simp add: disk_inode_put)
  qed
qed

section \<open>\<open>readi\<close> and \<open>writei\<close>\<close>

lemma sint_small:
  assumes "unat (w :: uint) < 2147483648"
  shows "sint w = int (unat w)"
proof -
  have len: "LENGTH(32) - Suc 0 = 31" by simp
  have "signed_take_bit 31 (uint w) = uint w"
  proof (rule signed_take_bit_int_eq_self)
    show "- (2 ^ 31) \<le> uint w" by (rule order_trans [OF _ uint_ge_0]) simp
    have "(2 :: int) ^ 31 = 2147483648" by simp
    moreover have "int (unat w) < 2147483648" using assms by linarith
    ultimately show "uint w < 2 ^ 31" unfolding uint_nat by linarith
  qed
  then show ?thesis unfolding sint_uint len by (simp only: uint_nat)
qed

text \<open>The number of bytes there are to transfer, by the computation of the code.\<close>

lemma clamp:
  fixes off n sz :: uint
  assumes "unat off \<le> unat sz" "unat off + unat n < 4294967296"
  shows "\<not> off > sz" "\<not> off + n < off"
    and "unat (if off + n > sz then sz - off else n) = min (unat n) (unat sz - unat off)"
proof -
  have "unat (off + n) = unat off + unat n" using assms(2) by (simp add: unat_word_ariths)
  moreover have "unat (sz - off) = unat sz - unat off" using assms(1) by (simp add: unat_sub word_le_nat_alt)
  ultimately show "\<not> off > sz" "\<not> off + n < off" "unat (if off + n > sz then sz - off else n) = min (unat n) (unat sz - unat off)"
    using assms by (auto simp: word_less_nat_alt min_def)
qed

lemma runs_readi:
  fixes s :: "'a kfs_scheme"
  assumes s: "dst i r s V Map.empty" and p: "inodes r ip = p" "i_type p \<noteq> T_DEV"
    and g: "geometry (havedisk1 r) V (i_dev p)" and f: "file_ok V p"
    and off: "unat off \<le> unat (i_size p)" "unat off + unat n < 4294967296"
    and m: "m = min (unat n) (unat (i_size p) - unat off)"
    and Q: "\<And>t d. dst i r t V Map.empty \<Longrightarrow> (\<forall>j. d j = (if j < m then file_byte V p (unat off + j) else dst0 j))
      \<Longrightarrow> Q (int m, d) t"
  shows "runs (readi dsw ip dst0 off n) s Q"
proof -
  note c = clamp [OF off]
  have wf: "file_wf V p" "no_holes V p (unat (i_size p))" "unat (i_size p) \<le> MAXFILE * 512" using f by (simp_all add: file_ok_def)
  define n' where "n' = (if off + n > i_size p then i_size p - off else n)"
  have n': "unat n' = m" using c(3) m by (simp add: n'_def)
  have "m < 2147483648" using wf(3) m by simp
  then have si: "sint n' = int m" using sint_small [of n'] n' by simp
  have "runs (readi_loop ip dst0 0 (unat off) (unat n')) s (\<lambda>d t. runs (kret (sint n', d)) t Q)"
    using off m n' Q by (intro runs_readi_loop [OF s p(1) g wf(1,2)]) (auto simp: si intro!: runs_kret)
  then show ?thesis
    unfolding readi_def using p(2) c(1,2)
    by (intro runs_kbind [where m = "kget _"] runs_kget_inode [OF s, where g = "\<lambda>T. T ip"], unfold p(1))
      (simp add: Let_def n'_def [symmetric] runs_kbind)
qed

lemma runs_writei:
  fixes s :: "'a kfs_scheme"
  assumes s: "dst i r s V Map.empty" and p: "inodes r ip = p" "i_type p \<noteq> T_DEV"
    and ok: "disk_ok (havedisk1 r) V (i_dev p)" and f: "file_ok V p" "inum_ok V p"
    and off: "unat off \<le> unat (i_size p)" "unat off + unat n < 4294967296"
    and m: "m = min (unat n) (MAXFILE * 512 - unat off)"
    and k: "unat off mod 512 + m \<le> k * 512" "room V p k"
    and Q: "\<And>V' p' t. dst i (r\<lparr>inodes := (inodes r)(ip := p')\<rparr>) t V' Map.empty
      \<Longrightarrow> updated (havedisk1 r) V p V' p' (unat off) (unat off + m) (\<lambda>x. src (x - unat off)) \<Longrightarrow> Q (int m) t"
  shows "runs (writei dsw ip src off n) s Q"
proof -
  let ?r = "\<lambda>p. r\<lparr>inodes := (inodes r)(ip := p)\<rparr>"
  have wf: "file_wf V p" "unat (i_size p) \<le> MAXFILE * 512" using f by (simp_all add: file_ok_def)
  have le: "unat off \<le> unat (of_nat (MAXFILE * 512) :: uint)" using off(1) wf(2) by simp
  note c = clamp [OF off] and c' = clamp [OF le off(2)]
  define n' where "n' = (if off + n > of_nat (MAXFILE * 512) then of_nat (MAXFILE * 512) - off else n)"
  have n': "unat n' = m" using c'(3) m unfolding n'_def by simp
  have mx: "unat off + m \<le> MAXFILE * 512" using m wf(2) off(1) by simp
  then have si: "sint n' = int m" using sint_small [of n'] n' by simp
  have sum: "unat (off + n') = unat off + m" using mx n' by (simp add: unat_word_ariths)
  have s': "dst i (?r p) s V Map.empty" using s same_inode [OF p(1)] by simp
  have fin: "runs (kseq (kbind (kget (\<lambda>s. i_size (inodes s ip))) (\<lambda>sz.
              kwhen (n' > 0 \<and> off + n' > sz) (
                kseq (upd_inode ip (\<lambda>p. p\<lparr>i_size := off + n'\<rparr>)) (iupdate ip)))) (
            kret (sint n'))) t Q"
    if t: "dst i (?r p1) t W Map.empty" and w: "written (havedisk1 r) V p W p1 (unat off) (unat off + m) (\<lambda>x. src (x - unat off))" for W p1 t
  proof -
    have e: "ext V p W p1" and okW: "disk_ok (havedisk1 r) W (i_dev p)" using w by (simp_all add: written_def)
    have p1: "i_dev p1 = i_dev p" "i_size p1 = i_size p" "i_inum p1 = i_inum p"
      using e unfolding ext_def by (metis inode.ext_inject inode.surjective inode.update_convs(10))+
    have iv: "inodes (?r p1) ip = p1" by simp
    show ?thesis
    proof (rule runs_kseq, rule runs_kbind, rule runs_kget_inode [OF t, where g = "\<lambda>T. i_size (T ip)"], unfold iv p1(2), rule runs_kwhen)
      assume gr: "n' > 0 \<and> off + n' > i_size p"
      define p' where "p' = p1\<lparr>i_size := of_nat (unat off + m)\<rparr>"
      have sz: "unat (i_size p) < unat off + m" using gr sum by (simp add: word_less_nat_alt)
      note up = updated_grows [OF ok f w off(1) sz mx, folded p'_def]
      have "of_nat (unat off + m) = off + n'" unfolding sum [symmetric] by (simp only: word_unat_eq_iff) (simp add: unsigned_of_nat)
      then have q: "p1\<lparr>i_size := off + n'\<rparr> = p'" by (simp only: p'_def)
      have io: "inum_ok W p'" using f(2) e p1 by (simp add: inum_ok_def ext_def p'_def)
      have ca: "canon (havedisk1 (?r p')) (i_dev p') (IBLOCK (i_inum p'))"
        using inum_canon [OF _ io] okW p1 by (simp add: disk_ok_def p'_def)
      show "runs (kseq (upd_inode ip (\<lambda>p. p\<lparr>i_size := off + n'\<rparr>)) (iupdate ip)) t (\<lambda>_ t. runs (kret (sint n')) t Q)"
        apply (rule runs_kseq, rule runs_upd_inode [OF t], unfold iv q)
        apply (rule runs_iupdate [where r = "?r p'", OF _ _ ca])
        using Q up si by (auto intro!: runs_kret)
    next
      assume "\<not> (n' > 0 \<and> off + n' > i_size p)"
      then have "unat off + m \<le> unat (i_size p) \<or> unat off + m \<le> unat off"
        using sum n' by (auto simp: word_less_nat_alt)
      from updated_same [OF ok f w off(1) this] show "runs (kret (sint n')) t Q"
        using Q [OF t] si by (auto intro!: runs_kret)
    qed
  qed
  have "runs (writei_loop ip src 0 (unat off) (unat n')) s (\<lambda>_ t. runs (kseq (kbind (kget (\<lambda>s. i_size (inodes s ip))) (\<lambda>sz.
              kwhen (n' > 0 \<and> off + n' > sz) (
                kseq (upd_inode ip (\<lambda>p. p\<lparr>i_size := off + n'\<rparr>)) (iupdate ip)))) (
            kret (sint n'))) t Q)"
    by (rule runs_writei_loop [OF s' ok wf(1) _ _ _ k(2)]) (use n' mx k(1) fin in auto)
  note loop = this
  show ?thesis
    unfolding writei_def Let_def n'_def [symmetric]
    by (rule runs_kbind, rule runs_kget_inode [OF s, where g = "\<lambda>T. T ip"], unfold p(1), rule runs_if,
        use p(2) in simp, rule runs_if, use c(1,2) in simp, rule runs_kseq, rule loop)
qed

section \<open>Correctness of reading and writing files\<close>

lemma updated_dev: "updated have1 V p V' p' lo hi f \<Longrightarrow> i_dev p' = i_dev p"
  unfolding updated_def by (metis inode.select_convs(1) inode.surjective inode.update_convs(9) inode.update_convs(10))

lemma updated_size:
  assumes "updated have1 V p V' p' lo hi f" "unat (i_size p) \<le> MAXFILE * 512" "hi \<le> MAXFILE * 512"
  shows "unat (i_size p') = max (unat (i_size p)) hi" "i_type p' = i_type p"
proof -
  have e: "p' = p\<lparr>i_addrs := i_addrs p', i_size := of_nat (max (unat (i_size p)) hi)\<rparr>" using assms(1) by (simp add: updated_def)
  have "i_size p' = of_nat (max (unat (i_size p)) hi)" by (subst e) simp
  then show "unat (i_size p') = max (unat (i_size p)) hi" using assms(2,3) by (simp add: unat_of_nat_small)
  show "i_type p' = i_type p" by (subst e) simp
qed

text \<open>A file that shares no block with the one written.\<close>

lemma updated_other:
  assumes ok: "disk_ok have1 V (i_dev p)" and f: "file_wf V p" "inum_ok V p"
    and u: "updated have1 V p V' p' lo hi f" and q: "i_dev q = i_dev p" "file_wf V q" "owned V q \<inter> owned V p = {}"
  shows "x < MAXFILE * 512 \<Longrightarrow> file_byte V' q x = file_byte V q x" "baddr V' q = baddr V q"
proof -
  have same: "V' (i_dev q, a) = V (i_dev q, a)" if a: "a \<in> owned V q" for a
  proof -
    have d: "data_blk V (i_dev p) a" "used V (i_dev p) (unat a)" using wf_owned [OF q(2) a] q(1) by simp_all
    have "(i_dev q, a) \<notin> touchable V p" using d q a by (auto simp: touchable_def data_blk_def)
    moreover have "a \<noteq> IBLOCK (i_inum p)"
      using data_not_meta [OF disk_ok_geometry [OF ok] d(1), of "unat (i_inum p) div 8 + 2"] inum_block [OF f(2)]
      unfolding IBLOCK_nat by (simp add: map_end_def)
    ultimately show ?thesis using u by (auto simp: updated_def)
  qed
  show b: "baddr V' q = baddr V q" by (rule HOL.ext) (simp add: baddr_def same [OF owned_ind])
  show "file_byte V' q x = file_byte V q x" if "x < MAXFILE * 512"
    using same [OF owned_baddr [OF less_mult_imp_div_less [OF that]]] by (simp add: file_byte_def b)
qed

text \<open>
  C20: \<open>readi\<close> on a regular file returns the number of bytes from the offset to the end of the
  request or of the file, whichever comes first, and those bytes of the file; the rest of the
  buffer, the disk and the inode table are unchanged. Behind the end of the file, or when
  offset plus count does not fit the word, it returns -1 and does nothing.
\<close>

theorem readi_correct:
  fixes s :: "'a kfs_scheme"
  assumes s: "cache_ok i s" "holds s = Map.empty" and p: "inodes s ip = p" "i_type p \<noteq> T_DEV"
    and g: "geometry (havedisk1 s) (bview s) (i_dev p)" and f: "file_ok (bview s) p"
  shows "(unat off \<le> unat (i_size p) \<and> unat off + unat n < 2 ^ 32 \<longrightarrow>
      runs (readi dsw ip buf off n) s (\<lambda>(k, d) t. k = int (min (unat n) (unat (i_size p) - unat off))
        \<and> (\<forall>j. d j = (if int j < k then file_byte (bview s) p (unat off + j) else buf j))
        \<and> cache_ok i t \<and> holds t = Map.empty \<and> bview t = bview s \<and> inodes t = inodes s))
    \<and> (\<not> (unat off \<le> unat (i_size p) \<and> unat off + unat n < 2 ^ 32) \<longrightarrow> readi dsw ip buf off n s = Done (- 1, buf) s)"
proof (intro conjI impI)
  have s0: "dst i s s (bview s) Map.empty" by (rule dst_start [OF s])
  assume "unat off \<le> unat (i_size p) \<and> unat off + unat n < 2 ^ 32"
  then show "runs (readi dsw ip buf off n) s (\<lambda>(k, d) t. k = int (min (unat n) (unat (i_size p) - unat off))
        \<and> (\<forall>j. d j = (if int j < k then file_byte (bview s) p (unat off + j) else buf j))
        \<and> cache_ok i t \<and> holds t = Map.empty \<and> bview t = bview s \<and> inodes t = inodes s)"
    by (intro runs_readi [OF s0 p g f _ _ refl]) (auto simp: dst_def dest: io_frame_inodes)
next
  assume "\<not> (unat off \<le> unat (i_size p) \<and> unat off + unat n < 2 ^ 32)"
  then have "off > i_size p \<or> off + n < off"
    using no_olen_add_nat [of off n] by (auto simp: word_less_nat_alt word_le_nat_alt not_le not_less)
  then show "readi dsw ip buf off n s = Done (- 1, buf) s" using p by (simp add: readi_def kdefs)
qed

text \<open>
  C19: \<open>writei\<close> on a regular file, with blocks enough free, writes the bytes up to the largest
  size a file can have and returns their number. The file then has these bytes in the range
  written and its old bytes elsewhere, its size covers the range and it is well formed, without
  holes and agrees with its disk inode if it did before; the free map is sound, and no other
  inode and no byte of a file that shares no block with it have changed.
\<close>

theorem writei_correct:
  fixes s :: "'a kfs_scheme"
  assumes s: "cache_ok i s" "holds s = Map.empty" and p: "inodes s ip = p" "i_type p \<noteq> T_DEV"
    and ok: "disk_ok (havedisk1 s) (bview s) (i_dev p)" and f: "file_ok (bview s) p" "inum_ok (bview s) p"
    and off: "unat off \<le> unat (i_size p)" "unat off + unat n < 2 ^ 32"
    and m: "m = min (unat n) (MAXFILE * 512 - unat off)"
    and k: "unat off mod 512 + m \<le> k * 512" "room (bview s) p k"
  shows "runs (writei dsw ip src off n) s (\<lambda>c t. c = int m \<and> cache_ok i t \<and> holds t = Map.empty
    \<and> updated (havedisk1 s) (bview s) p (bview t) (inodes t ip) (unat off) (unat off + m) (\<lambda>x. src (x - unat off))
    \<and> (\<forall>jp. jp \<noteq> ip \<longrightarrow> inodes t jp = inodes s jp)
    \<and> (\<forall>q x. i_dev q = i_dev p \<and> file_wf (bview s) q \<and> owned (bview s) q \<inter> owned (bview s) p = {} \<and> x < MAXFILE * 512
        \<longrightarrow> file_byte (bview t) q x = file_byte (bview s) q x))"
proof -
  have off': "unat off + unat n < 4294967296" using off(2) by simp
  show ?thesis
  proof (rule runs_writei [OF dst_start [OF s] p ok f off(1) off' m k])
    fix V' p' t
    assume t: "dst i (s\<lparr>inodes := (inodes s)(ip := p')\<rparr>) t V' Map.empty"
      and u: "updated (havedisk1 s) (bview s) p V' p' (unat off) (unat off + m) (\<lambda>x. src (x - unat off))"
    have "inodes t = (inodes s)(ip := p')" using dst_inodes [OF t] by simp
    moreover have "cache_ok i t" "holds t = Map.empty" "bview t = V'" using t by (simp_all add: dst_def)
    moreover have "file_byte V' q x = file_byte (bview s) q x"
      if "i_dev q = i_dev p" "file_wf (bview s) q" "owned (bview s) q \<inter> owned (bview s) p = {}" "x < MAXFILE * 512" for q x
      using updated_other(1) [OF ok _ f(2) u that(1-4)] f(1) by (simp add: file_ok_def)
    ultimately show "int m = int m \<and> cache_ok i t \<and> holds t = Map.empty
        \<and> updated (havedisk1 s) (bview s) p (bview t) (inodes t ip) (unat off) (unat off + m) (\<lambda>x. src (x - unat off))
        \<and> (\<forall>jp. jp \<noteq> ip \<longrightarrow> inodes t jp = inodes s jp)
        \<and> (\<forall>q x. i_dev q = i_dev p \<and> file_wf (bview s) q \<and> owned (bview s) q \<inter> owned (bview s) p = {} \<and> x < MAXFILE * 512
            \<longrightarrow> file_byte (bview t) q x = file_byte (bview s) q x)"
      using u by simp
  qed
qed

text \<open>
  C21: what is written to a file is what is read back: \<open>readi\<close> after \<open>writei\<close> at the same offset
  returns the same count and the bytes written.
\<close>

theorem writei_readi_roundtrip:
  fixes s :: "'a kfs_scheme"
  assumes s: "cache_ok i s" "holds s = Map.empty" and p: "inodes s ip = p" "i_type p \<noteq> T_DEV"
    and ok: "disk_ok (havedisk1 s) (bview s) (i_dev p)" and f: "file_ok (bview s) p" "inum_ok (bview s) p"
    and off: "unat off \<le> unat (i_size p)" "unat off + unat n \<le> MAXFILE * 512"
    and k: "unat off mod 512 + unat n \<le> k * 512" "room (bview s) p k"
  shows "runs (kbind (writei dsw ip src off n) (\<lambda>c. kbind (readi dsw ip buf off n) (\<lambda>(e, d). kret (c, e, d)))) s
    (\<lambda>(c, e, d) t. c = int (unat n) \<and> e = int (unat n) \<and> (\<forall>j<unat n. d j = src j))"
proof -
  have m: "unat n = min (unat n) (MAXFILE * 512 - unat off)" and o32: "unat off + unat n < 4294967296" using off by simp_all
  have sz: "unat (i_size p) \<le> MAXFILE * 512" using f by (simp add: file_ok_def)
  show ?thesis
  proof (rule runs_kbind, rule runs_writei [OF dst_start [OF s] p ok f off(1) o32 m k])
    fix V' p' t
    let ?r = "s\<lparr>inodes := (inodes s)(ip := p')\<rparr>"
    assume t: "dst i ?r t V' Map.empty"
      and u: "updated (havedisk1 s) (bview s) p V' p' (unat off) (unat off + unat n) (\<lambda>x. src (x - unat off))"
    note us = updated_size [OF u sz off(2)]
    have g: "geometry (havedisk1 ?r) V' (i_dev p')" "file_ok V' p'"
      using u updated_dev [OF u] by (simp_all add: updated_def disk_ok_def)
    have o': "unat off \<le> unat (i_size p')" and m': "unat n = min (unat n) (unat (i_size p') - unat off)"
      using us(1) off(1) by simp_all
    show "runs (kbind (readi dsw ip buf off n) (\<lambda>(e, d). kret (int (unat n), e, d))) t
        (\<lambda>(c, e, d) t. c = int (unat n) \<and> e = int (unat n) \<and> (\<forall>j<unat n. d j = src j))"
    proof (rule runs_kbind, rule runs_readi [OF t _ _ g o' o32 m'])
      show "inodes ?r ip = p'" "i_type p' \<noteq> T_DEV" using us p by simp_all
      fix t' d
      assume "\<forall>j. d j = (if j < unat n then file_byte V' p' (unat off + j) else buf j)"
      then have "d j = src j" if "j < unat n" for j using u that off(2) by (simp add: updated_def)
      then show "runs (case (int (unat n), d) of (e, d) \<Rightarrow> kret (int (unat n), e, d)) t'
          (\<lambda>(c, e, d) t. c = int (unat n) \<and> e = int (unat n) \<and> (\<forall>j<unat n. d j = src j))"
        by (simp add: runs_def kdefs)
    qed
  qed
qed

text \<open>An empty file on the disk of 64 blocks: for the witnesses.\<close>

lemma small_empty:
  assumes p: "T 3 = p" "i_dev p = 1" "i_inum p = 2" "i_addrs p = (\<lambda>_. 0)" "i_size p = 0"
  obtains s :: kfs where "cache_ok 0 s" "holds s = Map.empty" "inodes s = T"
    "disk_ok (havedisk1 s) (bview s) 1" "file_ok (bview s) p" "inum_ok (bview s) p" "room (bview s) p 1"
    "\<And>x. file_byte (bview s) p x = 0"
proof -
  obtain s :: kfs where s: "cache_ok 0 s" "holds s = Map.empty" "havedisk1 s" "inodes s = T"
      "\<forall>dev sec. bview s (dev, sec) = sect (small_disk dev sec)"
    using boot_fs_cached [of T small_disk] by blast
  let ?V = "bview s"
  note f = small_fs [OF s(5)]
  have "?V (1, a) = (\<lambda>_. 0)" if "unat a < 64" "\<not> used ?V 1 (unat a)" for a
  proof -
    have "\<not> unat a < 5" using that f(5) by blast
    then have "a \<noteq> 1" "a \<noteq> 4" by auto
    then show ?thesis using s(5) by (simp add: small_disk_def)
  qed
  then have ok: "disk_ok (havedisk1 s) ?V 1" using f(1,3-5) s(3) by (simp add: disk_ok_def)
  have b: "baddr ?V p bn = 0" for bn by (simp add: baddr_def p)
  have fo: "file_ok ?V p" by (auto simp: file_ok_def file_wf_def owned_def no_holes_def b p)
  have "sb_ninodes (fs_sb ?V 1) = 8"
    by (simp add: fs_sb_def s(5) sb_of_sect) (simp add: small_disk_def sb_of_def bytes_simps)
  then have io: "inum_ok ?V p" by (simp add: inum_ok_def p)
  have "free_blks ?V 1 = {5..<64}" using f(1,5) by (auto simp: free_blks_def)
  then have "room ?V p 1" by (simp add: room_def nfree_def p)
  then show ?thesis using that [of s] s ok fo io by (simp add: file_byte_def b)
qed

lemma small_file:
  obtains s :: kfs and p where "cache_ok 0 s" "holds s = Map.empty" "inodes s 3 = p" "i_type p \<noteq> T_DEV"
    "disk_ok (havedisk1 s) (bview s) (i_dev p)" "file_ok (bview s) p" "inum_ok (bview s) p" "i_size p = 0"
    "room (bview s) p 1"
proof -
  define p where "p = zero_inode\<lparr>i_dev := 1, i_inum := 2, i_type := T_FILE, i_ref := 1, i_flags := 3\<rparr>"
  have pf: "i_dev p = 1" "i_inum p = 2" "i_type p = 2" "i_addrs p = (\<lambda>_. 0)" "i_size p = 0" by (simp_all add: p_def zero_inode_def)
  obtain s :: kfs where s: "cache_ok 0 s" "holds s = Map.empty" "inodes s = (\<lambda>_. p)" "disk_ok (havedisk1 s) (bview s) 1"
      "file_ok (bview s) p" "inum_ok (bview s) p" "room (bview s) p 1"
    by (rule small_empty [of "\<lambda>_. p", OF refl pf(1,2,4,5)])
  show ?thesis by (rule that [of s p]) (use s pf in simp_all)
qed

theorem readi_correct_witness:
  "\<exists>s :: kfs. runs (readi (\<lambda>_. (None, None)) 3 (\<lambda>_. 9) 0 4) s (\<lambda>(k, d) t. k = 0 \<and> d 0 = 9)
     \<and> readi (\<lambda>_. (None, None)) 3 (\<lambda>_. 9) 1 4 s = Done (- 1, (\<lambda>_. 9)) s"
proof -
  obtain s :: kfs and p where s: "cache_ok 0 s" "holds s = Map.empty" "inodes s 3 = p" "i_type p \<noteq> T_DEV"
    "disk_ok (havedisk1 s) (bview s) (i_dev p)" "file_ok (bview s) p" "inum_ok (bview s) p" "i_size p = 0"
    by (rule small_file) blast
  note r = readi_correct [OF s(1-4) disk_ok_geometry [OF s(5)] s(6), of _ 4 "\<lambda>_. (None, None)" "\<lambda>_. 9"]
  have "runs (readi (\<lambda>_. (None, None)) 3 (\<lambda>_. 9) 0 4) s (\<lambda>(k, d) t. k = 0 \<and> d 0 = 9)"
    using r [of 0] s(8) by (auto elim!: runs_mono)
  moreover have "readi (\<lambda>_. (None, None)) 3 (\<lambda>_. 9) 1 4 s = Done (- 1, (\<lambda>_. 9)) s" using r [of 1] s(8) by simp
  ultimately show ?thesis by blast
qed

theorem writei_correct_witness:
  "\<exists>s :: kfs. i_size (inodes s 3) = 0 \<and> runs (writei (\<lambda>_. (None, None)) 3 (\<lambda>j. of_nat j + 65) 0 5) s (\<lambda>c t. c = 5
     \<and> i_size (inodes t 3) = 5 \<and> file_byte (bview t) (inodes t 3) 2 = 67)"
proof -
  obtain s :: kfs and p where s: "cache_ok 0 s" "holds s = Map.empty" "inodes s 3 = p" "i_type p \<noteq> T_DEV"
    "disk_ok (havedisk1 s) (bview s) (i_dev p)" "file_ok (bview s) p" "inum_ok (bview s) p" "i_size p = 0" "room (bview s) p 1"
    by (rule small_file) blast
  have w: "runs (writei (\<lambda>_. (None, None)) 3 (\<lambda>j. of_nat j + 65) 0 5) s (\<lambda>c t. c = int 5 \<and> cache_ok 0 t \<and> holds t = Map.empty
    \<and> updated (havedisk1 s) (bview s) p (bview t) (inodes t 3) (unat (0 :: uint)) (unat (0 :: uint) + 5) (\<lambda>x. of_nat (x - unat (0 :: uint)) + 65)
    \<and> (\<forall>jp. jp \<noteq> 3 \<longrightarrow> inodes t jp = inodes s jp)
    \<and> (\<forall>q x. i_dev q = i_dev p \<and> file_wf (bview s) q \<and> owned (bview s) q \<inter> owned (bview s) p = {} \<and> x < MAXFILE * 512
        \<longrightarrow> file_byte (bview t) q x = file_byte (bview s) q x))"
    by (rule writei_correct [OF s(1-7) _ _ _ _ s(9)]) simp_all
  have "runs (writei (\<lambda>_. (None, None)) 3 (\<lambda>j. of_nat j + 65) 0 5) s (\<lambda>c t. c = 5
     \<and> i_size (inodes t 3) = 5 \<and> file_byte (bview t) (inodes t 3) 2 = 67)"
  proof (rule runs_mono [OF w], elim conjE)
    fix c :: int and t
    assume c: "c = int 5" and u: "updated (havedisk1 s) (bview s) p (bview t) (inodes t 3) (unat (0 :: uint)) (unat (0 :: uint) + 5)
      (\<lambda>x. of_nat (x - unat (0 :: uint)) + 65)"
    have "unat (i_size (inodes t 3)) = 5" using updated_size(1) [OF u] s(8) by simp
    then have "i_size (inodes t 3) = 5" by (simp add: word_unat_eq_iff)
    moreover have "file_byte (bview t) (inodes t 3) 2 = 67" using u by (simp add: updated_def)
    ultimately show "c = 5 \<and> i_size (inodes t 3) = 5 \<and> file_byte (bview t) (inodes t 3) 2 = 67" using c by simp
  qed
  then show ?thesis using s(3,8) by (intro exI [of _ s]) simp
qed

theorem writei_readi_roundtrip_witness:
  "\<exists>s :: kfs. runs (kbind (writei (\<lambda>_. (None, None)) 3 (\<lambda>j. of_nat j + 65) 0 5) (\<lambda>c.
     kbind (readi (\<lambda>_. (None, None)) 3 (\<lambda>_. 0) 0 5) (\<lambda>(e, d). kret (c, e, d)))) s (\<lambda>(c, e, d) t. e = 5 \<and> d 2 = 67)"
proof -
  obtain s :: kfs and p where s: "cache_ok 0 s" "holds s = Map.empty" "inodes s 3 = p" "i_type p \<noteq> T_DEV"
    "disk_ok (havedisk1 s) (bview s) (i_dev p)" "file_ok (bview s) p" "inum_ok (bview s) p" "i_size p = 0" "room (bview s) p 1"
    by (rule small_file) blast
  have "runs (kbind (writei (\<lambda>_. (None, None)) 3 (\<lambda>j. of_nat j + 65) 0 5) (\<lambda>c.
     kbind (readi (\<lambda>_. (None, None)) 3 (\<lambda>_. 0) 0 5) (\<lambda>(e, d). kret (c, e, d)))) s
     (\<lambda>(c, e, d) t. c = int (unat (5 :: uint)) \<and> e = int (unat (5 :: uint)) \<and> (\<forall>j<unat (5 :: uint). d j = of_nat j + 65))"
    using s(8) by (intro writei_readi_roundtrip [OF s(1-7) _ _ _ s(9)]) simp_all
  then show ?thesis by (intro exI [of _ s]) (auto elim!: runs_mono)
qed

end
