(* ===== verification/Dir_Map.thy ===== *)
theory Dir_Map
  imports Fs_Content Fs_Dir
begin

text \<open>
  Directories as maps from names to inode numbers: what \<open>dirlookup\<close> and \<open>dirlink\<close> of
  \<open>kernel/fs.c\<close> do, over the contents of files (\<open>Fs_Content\<close>) and the inode cache (\<open>Fs_Inode\<close>).
\<close>

section \<open>Names\<close>

text \<open>The name in an array of 14 bytes: up to the first NUL.\<close>

definition name_of :: "bytes \<Rightarrow> uchar list" where
  "name_of n = takeWhile (\<lambda>c. c \<noteq> 0) (map n [0..<DIRSIZ])"

lemma strncmp_from_names:
  "strncmp_from p q i n = 0 \<longleftrightarrow> takeWhile (\<lambda>c. c \<noteq> 0) (map p [i..<i + n]) = takeWhile (\<lambda>c. c \<noteq> 0) (map q [i..<i + n])"
proof (induction n arbitrary: i)
  case (Suc n)
  have e: "[i..<i + Suc n] = i # [i + 1..<i + 1 + n]" using upt_conv_Cons [of i "i + Suc n"] by (simp del: upt_Suc)
  have d: "uint (p i) - uint (q i) = 0 \<longleftrightarrow> p i = q i" by simp
  show ?case
  proof (cases "p i \<noteq> 0 \<and> p i = q i")
    case True
    then show ?thesis unfolding e using Suc [of "i + 1"] by simp
  next
    case False
    then have "strncmp_from p q i (Suc n) = 0 \<longleftrightarrow> p i = q i" using d False by (simp only: strncmp_from.simps if_False)
    then show ?thesis unfolding e using False by (auto simp del: strncmp_from.simps)
  qed
qed simp

lemma namecmp_iff: "namecmp s t = 0 \<longleftrightarrow> name_of s = name_of t"
  using strncmp_from_names [of s t 0 14] by (simp add: namecmp_def strncmp_def name_of_def)

lemma name_of_cong: "(\<And>i. i < DIRSIZ \<Longrightarrow> m i = n i) \<Longrightarrow> name_of m = name_of n"
  unfolding name_of_def by (rule arg_cong [of _ _ "takeWhile _"], rule map_cong) auto

lemma name_of_strncpy: "name_of (strncpy s t (int DIRSIZ)) = name_of t"
proof -
  have "strncmp t (strncpy s t (int DIRSIZ)) DIRSIZ = 0" unfolding strncmp_0 by (rule strncpy_same_prefix) simp
  then show ?thesis using namecmp_iff [of t "strncpy s t (int DIRSIZ)"] by (simp add: namecmp_def)
qed

section \<open>The entries of a directory\<close>

text \<open>Entry \<open>k\<close> of the directory: its inode number, 0 when it is unused, and its name.\<close>

definition ent_inum :: "view \<Rightarrow> inode \<Rightarrow> nat \<Rightarrow> ushort" where
  "ent_inum V p k = rd16 (file_byte V p) (16 * k)"

definition ent_name :: "view \<Rightarrow> inode \<Rightarrow> nat \<Rightarrow> uchar list" where
  "ent_name V p k = name_of (\<lambda>i. file_byte V p (16 * k + 2 + i))"

text \<open>A search reads whole blocks.\<close>

definition dir_slots :: "inode \<Rightarrow> nat" where
  "dir_slots p = (unat (i_size p) + 511) div 512 * 32"

definition ent_at :: "view \<Rightarrow> inode \<Rightarrow> uchar list \<Rightarrow> nat option" where
  "ent_at V p n = find (\<lambda>k. ent_inum V p k \<noteq> 0 \<and> ent_name V p k = n) [0..<dir_slots p]"

definition dir_map :: "view \<Rightarrow> inode \<Rightarrow> uchar list \<rightharpoonup> ushort" where
  "dir_map V p n = map_option (ent_inum V p) (ent_at V p n)"

text \<open>A directory: whole entries, and none behind its size.\<close>

definition dir_ok :: "view \<Rightarrow> inode \<Rightarrow> bool" where
  "dir_ok V p \<longleftrightarrow> i_type p = T_DIR \<and> file_ok V p \<and> 16 dvd unat (i_size p)
     \<and> (\<forall>k. unat (i_size p) \<le> 16 * k \<longrightarrow> 16 * k < MAXFILE * 512 \<longrightarrow> ent_inum V p k = 0)"

lemma block_ents:
  assumes d: "sect d = V (i_dev p, baddr V p b)" "baddr V p b \<noteq> 0" and k: "k < 32"
  shows "de_inum d k = ent_inum V p (32 * b + k)" "name_of (de_name d k) = ent_name V p (32 * b + k)"
proof -
  have at: "file_byte V p (16 * (32 * b + k) + j) = d (16 * k + j)" if "j < 16" for j
  proof -
    have lt: "16 * k + j < 512" and e: "16 * (32 * b + k) + j = 16 * k + j + b * 512" using that k by simp_all
    have "(16 * (32 * b + k) + j) div 512 = b" "(16 * (32 * b + k) + j) mod 512 = 16 * k + j"
      unfolding e using lt by simp_all
    note this lt
    then show ?thesis using d sect_at [of d "16 * k + j"] by (simp add: file_byte_def)
  qed
  show "de_inum d k = ent_inum V p (32 * b + k)"
    using at [of 0] at [of 1] by (simp add: de_inum_def ent_inum_def rd16_def)
  have "de_name d k i = file_byte V p (16 * (32 * b + k) + 2 + i)" if "i < DIRSIZ" for i
    using at [of "2 + i"] that by (simp add: de_name_def add.assoc)
  then show "name_of (de_name d k) = ent_name V p (32 * b + k)"
    unfolding ent_name_def by (rule name_of_cong)
qed

lemma block_find:
  assumes "sect d = V (i_dev p, baddr V p b)" "baddr V p b \<noteq> 0"
  shows "dir_find name d = find (\<lambda>k. ent_inum V p (32 * b + k) \<noteq> 0 \<and> ent_name V p (32 * b + k) = name_of name) [0..<32]"
  unfolding dir_find_def
proof (rule find_cong [OF refl])
  fix k assume "k \<in> set [0..<32::nat]"
  then have "k < 32" by (simp only: set_upt atLeastLessThan_iff)
  then show "(de_inum d k \<noteq> 0 \<and> namecmp name (de_name d k) = 0)
      = (ent_inum V p (32 * b + k) \<noteq> 0 \<and> ent_name V p (32 * b + k) = name_of name)"
    using block_ents [of d V p b, OF assms] unfolding namecmp_iff by metis
qed

section \<open>Looking up a name\<close>

text \<open>What \<open>iget\<close> needs: the inode is in the cache already, or a slot is free.\<close>

definition iroom :: "(nat \<Rightarrow> inode) \<Rightarrow> uint \<Rightarrow> uint \<Rightarrow> bool" where
  "iroom T dev inum \<longleftrightarrow> (\<exists>ip<NINODE. i_ref (T ip) = 0 \<or> (i_dev (T ip), i_inum (T ip)) = (dev, inum))"

text \<open>The table after a successful \<open>iget\<close> that returned slot \<open>ip\<close>.\<close>

definition got :: "uint \<Rightarrow> uint \<Rightarrow> (nat \<Rightarrow> inode) \<Rightarrow> nat \<Rightarrow> (nat \<Rightarrow> inode) \<Rightarrow> bool" where
  "got dev inum T ip T' \<longleftrightarrow> ip < NINODE \<and> T' = T(ip := gotten dev inum (T ip)) \<and> icache_ok T'
     \<and> (i_ref (T ip) > 0 \<longrightarrow> i_dev (T ip) = dev \<and> i_inum (T ip) = inum)
     \<and> icount T' = (icount T)((dev, inum) := icount T (dev, inum) + 1)"

lemma runs_iget_got:
  fixes s :: "'a kfs_scheme"
  assumes "dst i r s V h" "icache_ok (inodes r)" "iroom (inodes r) dev inum"
    and "\<And>ip T t. got dev inum (inodes r) ip T \<Longrightarrow> dst i (r\<lparr>inodes := T\<rparr>) t V h \<Longrightarrow> Q ip t"
  shows "runs (iget dev inum) s Q"
  by (rule runs_iget [OF assms(1,2)]) (use assms(3,4) in \<open>auto simp: iroom_def got_def\<close>)

lemma find_from:
  assumes "\<And>j. j < b \<Longrightarrow> \<not> P j" "find (\<lambda>k. P (b + k)) [0..<m] = Some k" "b + m \<le> n"
  shows "find P [0..<n] = Some (b + k)"
proof -
  have k: "k < m" "P (b + k)" "\<And>j. j < k \<Longrightarrow> \<not> P (b + j)" using assms(2) unfolding find_upt_Some by blast+
  have "\<not> P j" if "j < b + k" for j using that assms(1) k(3) [of "j - b"] by (cases "j < b") simp_all
  then show ?thesis unfolding find_upt_Some using k assms(3) by simp
qed

lemma runs_dirlookup_loop:
  fixes s :: "'a kfs_scheme"
  assumes s: "dst i r s V Map.empty" and p: "inodes r dp = p" and g: "geometry (havedisk1 r) V (i_dev p)" and f: "file_ok V p"
    and before: "\<And>k. k < 32 * b \<Longrightarrow> \<not> (ent_inum V p k \<noteq> 0 \<and> ent_name V p k = name_of name)"
    and ic: "\<And>k. ent_at V p (name_of name) = Some k \<Longrightarrow> icache_ok (inodes r) \<and> iroom (inodes r) (i_dev p) (ucast (ent_inum V p k))"
    and N: "\<And>t. ent_at V p (name_of name) = None \<Longrightarrow> dst i r t V Map.empty \<Longrightarrow> Q None t"
    and S: "\<And>k ip T t. ent_at V p (name_of name) = Some k \<Longrightarrow> got (i_dev p) (ucast (ent_inum V p k)) (inodes r) ip T
      \<Longrightarrow> dst i (r\<lparr>inodes := T\<rparr>) t V Map.empty \<Longrightarrow> Q (Some (ip, 16 * k)) t"
  shows "runs (dirlookup_loop dp name (unat (i_size p)) (512 * b)) s Q"
  using s before
proof (induction "MAXFILE - b" arbitrary: b s rule: less_induct)
  case less
  let ?P = "\<lambda>k. ent_inum V p k \<noteq> 0 \<and> ent_name V p k = name_of name"
  have wf: "file_wf V p" "no_holes V p (unat (i_size p))" using f by (simp_all add: file_ok_def)
  show ?case
  proof (cases "512 * b < unat (i_size p)")
    case False
    then have "dir_slots p \<le> 32 * b" by (simp add: dir_slots_def)
    then have "ent_at V p (name_of name) = None" using less.prems(2) unfolding ent_at_def find_upt_None by auto
    then show ?thesis using False N less.prems(1) by (subst dirlookup_loop.simps) (auto intro: runs_kret)
  next
    case True
    then have b: "b < MAXFILE" "baddr V p b \<noteq> 0" using wf(2) by (simp_all add: no_holes_def mult.commute)
    have "b + 1 \<le> (unat (i_size p) + 511) div 512" using True by (simp add: less_eq_div_iff_mult_less_eq)
    then have sl: "32 * b + 32 \<le> dir_slots p" unfolding dir_slots_def by linarith
    have ca: "canon (havedisk1 r) (i_dev p) (baddr V p b)"
      by (rule data_blk_canon [OF g]) (use wf_owned [OF wf(1) owned_baddr [OF b]] in simp)
    have bq: "512 * b div 512 = b" by simp
    have fin: "runs (case dir_find name d of
            Some k \<Rightarrow>
              kseq (brelse bp) (
              kbind (iget (i_dev p) (ucast (de_inum d k))) (\<lambda>ip.
              kret (Some (ip, 512 * b + 16 * k))))
          | None \<Rightarrow> kseq (brelse bp) (dirlookup_loop dp name (unat (i_size p)) (512 * b + 512))) u Q"
      if u: "dst i r u V (Map.empty(bp \<mapsto> (i_dev p, baddr V p b)))" and d: "sect d = V (i_dev p, baddr V p b)" for d bp u
    proof (cases "dir_find name d")
      case None
      then have no: "\<not> ?P (32 * b + k)" if "k < 32" for k
        using that unfolding block_find [where p = p, OF d b(2)] find_upt_None by blast
      have "\<not> ?P k" if "k < 32 * (b + 1)" for k
        using less.prems(2) [of k] no [of "k - 32 * b"] that by (cases "k < 32 * b") simp_all
      then have "runs (dirlookup_loop dp name (unat (i_size p)) (512 * (b + 1))) t Q" if "dst i r t V Map.empty" for t
        using that b(1) by (intro less.hyps) auto
      then show ?thesis using None runs_give_back [OF u, simplified] by (auto intro!: runs_kseq simp: add.commute)
    next
      case (Some k)
      then have k: "find (\<lambda>k. ?P (32 * b + k)) [0..<32] = Some k" unfolding block_find [where p = p, OF d b(2)] .
      have at: "ent_at V p (name_of name) = Some (32 * b + k)"
        unfolding ent_at_def by (rule find_from [OF less.prems(2) k sl])
      have "k < 32" using k unfolding find_upt_Some by blast
      then have e: "de_inum d k = ent_inum V p (32 * b + k)" by (rule block_ents(1) [OF d b(2)])
      note ic = ic [OF at]
      show ?thesis unfolding Some option.case e
        apply (rule runs_kseq, rule runs_give_back [OF u], simp, rule runs_kbind)
        apply (erule runs_iget_got, use ic in blast, use ic in blast)
        apply (rule runs_kret, drule (1) S [OF at], simp add: algebra_simps)
        done
    qed
    show ?thesis
      apply (subst dirlookup_loop.simps, rule runs_if, rule runs_kbind, unfold bq)
      apply (rule runs_bmap_there [OF less.prems(1) p g wf(1) b])
      subgoal premises t for t
        apply (rule runs_kbind, rule runs_kget_inode [OF t(2), where g = "\<lambda>T. i_dev (T dp)"], unfold p)
        apply (rule runs_kbind, rule runs_bread [OF t(2) ca], simp, simp)
        subgoal premises u for bp u
          apply (rule runs_kbind, rule runs_kget_data [OF u(1), where g = "\<lambda>d. d"], simp)
          apply (rule fin [OF u(1)], assumption)
          done
        done
      using True apply simp
      done
  qed
qed

lemma runs_dirlookup:
  fixes s :: "'a kfs_scheme"
  assumes s: "dst i r s V Map.empty" and p: "inodes r dp = p" "i_type p = T_DIR" and g: "geometry (havedisk1 r) V (i_dev p)"
    and f: "file_ok V p"
    and ic: "\<And>k. ent_at V p (name_of name) = Some k \<Longrightarrow> icache_ok (inodes r) \<and> iroom (inodes r) (i_dev p) (ucast (ent_inum V p k))"
    and N: "\<And>t. ent_at V p (name_of name) = None \<Longrightarrow> dst i r t V Map.empty \<Longrightarrow> Q None t"
    and S: "\<And>k ip T t. ent_at V p (name_of name) = Some k \<Longrightarrow> got (i_dev p) (ucast (ent_inum V p k)) (inodes r) ip T
      \<Longrightarrow> dst i (r\<lparr>inodes := T\<rparr>) t V Map.empty \<Longrightarrow> Q (Some (ip, 16 * k)) t"
  shows "runs (dirlookup dp name) s Q"
  unfolding dirlookup_def
  apply (rule runs_kbind, rule runs_kget_inode [OF s, where g = "\<lambda>T. T dp"], unfold p(1), rule runs_if, use p(2) in simp)
  using runs_dirlookup_loop [where b = 0, OF s p(1) g f, of name Q] ic N S by simp

section \<open>Adding a name\<close>

text \<open>The slot \<open>dirlink\<close> uses: the first unused one, or the one behind the last.\<close>

definition new_ent :: "view \<Rightarrow> inode \<Rightarrow> nat" where
  "new_ent V p = (case find (\<lambda>k. ent_inum V p k = 0) [0..<unat (i_size p) div 16] of Some k \<Rightarrow> k | None \<Rightarrow> unat (i_size p) div 16)"

lemma runs_dirlink_slot:
  fixes s :: "'a kfs_scheme"
  assumes s: "dst i r s V Map.empty" and p: "inodes r dp = p" "i_type p = T_DIR" and g: "geometry (havedisk1 r) V (i_dev p)"
    and f: "file_ok V p" "16 dvd unat (i_size p)"
    and before: "\<And>j. j < k \<Longrightarrow> ent_inum V p j \<noteq> 0" "16 * k \<le> unat (i_size p)"
    and Q: "\<And>t de. dst i r t V Map.empty \<Longrightarrow> Q (16 * new_ent V p, de) t"
  shows "runs (dirlink_slot dp de (unat (i_size p)) (16 * k)) s Q"
  using s before
proof (induction "unat (i_size p) - 16 * k" arbitrary: k s de rule: less_induct)
  case less
  have mx: "unat (i_size p) \<le> MAXFILE * 512" using f(1) by (simp add: file_ok_def)
  obtain m where m: "unat (i_size p) = 16 * m" using f(2) by blast
  show ?case
  proof (cases "16 * k < unat (i_size p)")
    case False
    then have "k = m" using less.prems(3) m by simp
    then have "find (\<lambda>k. ent_inum V p k = 0) [0..<m] = None" using less.prems(2) unfolding find_upt_None by blast
    then have "16 * k = 16 * new_ent V p" using \<open>k = m\<close> m by (simp add: new_ent_def)
    then show ?thesis using False Q [OF less.prems(1)] by (subst dirlink_slot.simps) (simp add: runs_kret)
  next
    case True
    have le: "16 * k + 16 \<le> unat (i_size p)" using True m by simp
    have u: "unat (of_nat (16 * k) :: uint) = 16 * k" using True mx by (intro unat_of_nat_small) simp
    have fin: "runs (if int 16 \<noteq> 16 then kpanic ''dirlink read''
          else if de_inum de' 0 = 0 then kret (16 * k, de')
          else dirlink_slot dp de' (unat (i_size p)) (16 * k + 16)) t Q"
      if t: "dst i r t V Map.empty" and d: "\<And>j. de' j = (if j < 16 then file_byte V p (16 * k + j) else de j)" for t de'
    proof -
      have e: "de_inum de' 0 = ent_inum V p k" using d [of 0] d [of 1] by (simp add: de_inum_def ent_inum_def rd16_def)
      show ?thesis
      proof (cases "ent_inum V p k = 0")
        case z: True
        have "find (\<lambda>k. ent_inum V p k = 0) [0..<m] = Some k" unfolding find_upt_Some using z less.prems(2) True m by auto
        then have "16 * k = 16 * new_ent V p" using m by (simp add: new_ent_def)
        then show ?thesis using e z Q [OF t] by (simp add: runs_kret)
      next
        case nz: False
        have "runs (dirlink_slot dp de' (unat (i_size p)) (16 * (k + 1))) t Q"
          by (rule less.hyps [OF _ t]) (use True le nz less.prems(2) in \<open>auto simp: less_Suc_eq\<close>)
        then show ?thesis using e nz by (simp add: add.commute)
      qed
    qed
    show ?thesis
      apply (subst dirlink_slot.simps, rule runs_if, rule runs_kbind)
       apply (rule runs_readi [OF less.prems(1) p(1) _ g f(1), where m = 16])
      using p(2) u le mx fin True by simp_all
  qed
qed

text \<open>The entry written: the number, and the name padded with zeros.\<close>

lemma mk_dirent_at:
  "rd16 (mk_dirent de name inum) 0 = ucast inum" "name_of (\<lambda>i. mk_dirent de name inum (2 + i)) = name_of name"
proof -
  show "rd16 (mk_dirent de name inum) 0 = ucast inum" by (simp add: mk_dirent_def)
  have "mk_dirent de name inum (2 + i) = strncpy (de_name de 0) name (int DIRSIZ) i" if "i < DIRSIZ" for i
    using that by (simp add: mk_dirent_def wr16_other memmove_obj_at)
  then have "name_of (\<lambda>i. mk_dirent de name inum (2 + i)) = name_of (strncpy (de_name de 0) name (int DIRSIZ))"
    by (rule name_of_cong)
  then show "name_of (\<lambda>i. mk_dirent de name inum (2 + i)) = name_of name" by (simp only: name_of_strncpy)
qed

lemma ent_cong:
  assumes "\<And>x. x < 16 \<Longrightarrow> file_byte V p (16 * k + x) = e x"
  shows "ent_inum V p k = rd16 e 0" "ent_name V p k = name_of (\<lambda>i. e (2 + i))"
proof -
  show "ent_inum V p k = rd16 e 0" using assms [of 0] assms [of 1] by (simp add: ent_inum_def rd16_def)
  have "file_byte V p (16 * k + 2 + i) = e (2 + i)" if "i < DIRSIZ" for i using assms [of "2 + i"] that by (simp add: add.assoc)
  then show "ent_name V p k = name_of (\<lambda>i. e (2 + i))" unfolding ent_name_def by (rule name_of_cong)
qed

lemma ent_at_all:
  assumes "dir_ok V p"
  shows "ent_at V p n = find (\<lambda>k. ent_inum V p k \<noteq> 0 \<and> ent_name V p k = n) [0..<MAXFILE * 32]"
proof -
  let ?P = "\<lambda>k. ent_inum V p k \<noteq> 0 \<and> ent_name V p k = n"
  have sz: "unat (i_size p) \<le> MAXFILE * 512" using assms by (simp add: dir_ok_def file_ok_def)
  have sl: "dir_slots p \<le> MAXFILE * 32" using div_le_mono [of "unat (i_size p) + 511" "MAXFILE * 512 + 511" 512] sz by (simp add: dir_slots_def)
  have no: "\<not> ?P k" if "dir_slots p \<le> k" "k < MAXFILE * 32" for k
  proof -
    have "unat (i_size p) \<le> 16 * dir_slots p" by (simp add: dir_slots_def)
    then have "unat (i_size p) \<le> 16 * k" "16 * k < MAXFILE * 512" using that by simp_all
    then show ?thesis using assms unfolding dir_ok_def by blast
  qed
  show ?thesis
  proof (cases "ent_at V p n")
    case None
    then have "\<not> ?P k" if "k < MAXFILE * 32" for k
      using no [OF _ that] unfolding ent_at_def find_upt_None by (cases "dir_slots p \<le> k") auto
    then have "find ?P [0..<MAXFILE * 32] = None" unfolding find_upt_None by blast
    then show ?thesis using None by simp
  next
    case (Some k)
    then have "find ?P [0..<MAXFILE * 32] = Some k" using sl unfolding ent_at_def find_upt_Some by auto
    then show ?thesis using Some by simp
  qed
qed

lemma new_ent_free:
  assumes "dir_ok V p" "16 * new_ent V p < MAXFILE * 512"
  shows "ent_inum V p (new_ent V p) = 0" "16 * new_ent V p \<le> unat (i_size p)"
proof -
  obtain m where m: "unat (i_size p) = 16 * m" using assms(1) by (auto simp: dir_ok_def)
  have "ent_inum V p (new_ent V p) = 0 \<and> 16 * new_ent V p \<le> unat (i_size p)"
  proof (cases "find (\<lambda>k. ent_inum V p k = 0) [0..<m]")
    case None
    then have "new_ent V p = m" using m by (simp add: new_ent_def)
    then show ?thesis using assms m by (simp add: dir_ok_def)
  next
    case (Some k)
    then have "new_ent V p = k" using m by (simp add: new_ent_def)
    moreover have "k < m" "ent_inum V p k = 0" using Some unfolding find_upt_Some by blast+
    ultimately show ?thesis using m by simp
  qed
  then show "ent_inum V p (new_ent V p) = 0" "16 * new_ent V p \<le> unat (i_size p)" by simp_all
qed

lemma dir_added:
  assumes d: "dir_ok V p" and k: "k = new_ent V p" "16 * k < MAXFILE * 512"
    and u: "updated have1 V p V' p' (16 * k) (16 * k + 16) (\<lambda>x. mk_dirent de name inum (x - 16 * k))"
    and n: "dir_map V p (name_of name) = None" "(ucast inum :: ushort) \<noteq> 0"
  shows "dir_ok V' p'" "dir_map V' p' = (dir_map V p)(name_of name \<mapsto> ucast inum)"
proof -
  have sz: "unat (i_size p) \<le> MAXFILE * 512" "16 dvd unat (i_size p)" using d by (simp_all add: dir_ok_def file_ok_def)
  have hi: "16 * k + 16 \<le> MAXFILE * 512" using k(2) by simp
  note s' = updated_size [OF u sz(1) hi] and free = new_ent_free [OF d, folded k(1), OF k(2)]
  have b: "file_byte V' p' x = (if 16 * k \<le> x \<and> x < 16 * k + 16 then mk_dirent de name inum (x - 16 * k) else file_byte V p x)"
    if "x < MAXFILE * 512" for x using u that unfolding updated_def by blast
  have ek: "ent_inum V' p' k = ucast inum" "ent_name V' p' k = name_of name"
  proof -
    have e: "file_byte V' p' (16 * k + j) = mk_dirent de name inum j" if "j < 16" for j using b [of "16 * k + j"] that hi by simp
    from ent_cong [OF e] show "ent_inum V' p' k = ucast inum" "ent_name V' p' k = name_of name" by (simp_all only: mk_dirent_at)
  qed
  have ej: "ent_inum V' p' j = ent_inum V p j" "ent_name V' p' j = ent_name V p j" if "j \<noteq> k" "j < MAXFILE * 32" for j
  proof -
    have e: "file_byte V' p' (16 * j + x) = file_byte V p (16 * j + x)" if "x < 16" for x
      using b [of "16 * j + x"] that \<open>j \<noteq> k\<close> \<open>j < MAXFILE * 32\<close> by auto
    show "ent_inum V' p' j = ent_inum V p j" "ent_name V' p' j = ent_name V p j"
      using ent_cong [OF e] ent_cong [OF refl, of V p j] by simp_all
  qed
  have "ent_inum V' p' j = 0" if "unat (i_size p') \<le> 16 * j" "16 * j < MAXFILE * 512" for j
  proof -
    have "j \<noteq> k" "unat (i_size p) \<le> 16 * j" using that(1) s'(1) by auto
    then show ?thesis using ej(1) [of j] that(2) d by (simp add: dir_ok_def)
  qed
  then show d': "dir_ok V' p'"
    using d u s' sz(2) by (auto simp: dir_ok_def updated_def max_def)
  have km: "k < MAXFILE * 32" using k(2) by simp
  show "dir_map V' p' = (dir_map V p)(name_of name \<mapsto> ucast inum)"
  proof
    fix x
    let ?P = "\<lambda>j. ent_inum V p j \<noteq> 0 \<and> ent_name V p j = x" and ?P' = "\<lambda>j. ent_inum V' p' j \<noteq> 0 \<and> ent_name V' p' j = x"
    show "dir_map V' p' x = ((dir_map V p)(name_of name \<mapsto> ucast inum)) x"
    proof (cases "x = name_of name")
      case True
      then have "\<not> ?P j" if "j < MAXFILE * 32" for j using n(1) that unfolding dir_map_def ent_at_all [OF d] by (auto simp: find_upt_None)
      then have "\<not> ?P' j" if "j < k" for j using that ej [of j] km by auto
      then have "find ?P' [0..<MAXFILE * 32] = Some k" unfolding find_upt_Some using ek True n(2) km by auto
      then show ?thesis using True ek(1) by (simp add: dir_map_def ent_at_all [OF d'])
    next
      case False
      have same: "?P' j = ?P j" if "j < MAXFILE * 32" for j using ej [of j] ek free(1) False that by (cases "j = k") auto
      have "find ?P' [0..<MAXFILE * 32] = find ?P [0..<MAXFILE * 32]"
        by (rule find_cong [OF refl]) (use same in \<open>simp only: set_upt atLeastLessThan_iff\<close>)
      moreover have "ent_inum V' p' j = ent_inum V p j" if "find ?P [0..<MAXFILE * 32] = Some j" for j
        using that ej(1) [of j] free(1) unfolding find_upt_Some by auto
      ultimately show ?thesis using False
        by (cases "find ?P [0..<MAXFILE * 32]") (simp_all add: dir_map_def ent_at_all [OF d'] ent_at_all [OF d])
    qed
  qed
qed

text \<open>The table of inodes as before, but for slots that were free.\<close>

definition kept :: "(nat \<Rightarrow> inode) \<Rightarrow> (nat \<Rightarrow> inode) \<Rightarrow> bool" where
  "kept T T' \<longleftrightarrow> icache_ok T' \<and> icount T' = icount T \<and> (\<forall>jp<NINODE. i_ref (T jp) > 0 \<longrightarrow> T' jp = T jp)"

lemma kept_refl: "icache_ok T \<Longrightarrow> kept T T"
  by (simp add: kept_def)

lemma kept_got_put:
  assumes g: "got dev inum T ip T1" and ok: "icache_ok T"
  shows "kept T (T1(ip := (T1 ip)\<lparr>i_ref := i_ref (T1 ip) - 1\<rparr>))" "i_ref (T1 ip) \<noteq> 1 \<or> i_flags (T1 ip) AND I_VALID = 0"
proof -
  let ?q = "(T1 ip)\<lparr>i_ref := i_ref (T1 ip) - 1\<rparr>"
  have ip: "ip < NINODE" and T1: "T1 = T(ip := gotten dev inum (T ip))" and ok1: "icache_ok T1"
    and same: "i_ref (T ip) > 0 \<Longrightarrow> i_dev (T ip) = dev \<and> i_inum (T ip) = inum"
    and c1: "icount T1 = (icount T)((dev, inum) := icount T (dev, inum) + 1)" using g by (auto simp: got_def)
  have r: "i_ref (T ip) \<ge> 0" using ok ip by (simp add: icache_ok_def)
  have q: "(i_dev (T1 ip), i_inum (T1 ip)) = (dev, inum)" "i_ref (T1 ip) = i_ref (T ip) + 1" "i_ref (T ip) = 0 \<Longrightarrow> i_flags (T1 ip) = 0"
    using same r by (auto simp: T1 gotten_def)
  show "i_ref (T1 ip) \<noteq> 1 \<or> i_flags (T1 ip) AND I_VALID = 0" using q r by auto
  have "icache_ok (T1(ip := ?q))" using q r by (intro icache_ok_ref [OF ok1 ip]) auto
  moreover have "icount (T1(ip := ?q)) = icount T" using ip q c1 by (auto simp: icount_upd fun_eq_iff)
  moreover have "(T1(ip := ?q)) jp = T jp" if "jp < NINODE" "i_ref (T jp) > 0" for jp
    using that by (cases "jp = ip") (auto simp: T1 gotten_def)
  ultimately show "kept T (T1(ip := ?q))" by (simp add: kept_def)
qed

lemma runs_dirlink_old:
  fixes s :: "'a kfs_scheme"
  assumes s: "dst i r s V Map.empty" and p: "inodes r dp = p" "dir_ok V p" and g: "geometry (havedisk1 r) V (i_dev p)"
    and ic: "icache_ok (inodes r)" "dir_map V p (name_of name) = Some j" "iroom (inodes r) (i_dev p) (ucast j)"
    and Q: "\<And>T t. kept (inodes r) T \<Longrightarrow> dst i (r\<lparr>inodes := T\<rparr>) t V Map.empty \<Longrightarrow> Q (- 1) t"
  shows "runs (dirlink dp name inum) s Q"
proof -
  obtain k where k: "ent_at V p (name_of name) = Some k" "ent_inum V p k = j" using ic(2) by (auto simp: dir_map_def)
  have d: "i_type p = T_DIR" "file_ok V p" using p(2) by (simp_all add: dir_ok_def)
  have fin: "runs (kseq (iput ip) (kret (- 1))) t Q"
    if "got (i_dev p) (ucast (ent_inum V p k)) (inodes r) ip T" "dst i (r\<lparr>inodes := T\<rparr>) t V Map.empty" for ip T t
    using kept_got_put [OF that(1) ic(1)] Q
    by (intro runs_kseq runs_iput [OF that(2) refl]) (auto intro!: runs_kret)
  show ?thesis
    unfolding dirlink_def
    by (rule runs_kbind, rule runs_dirlookup [OF s p(1) d(1) g d(2)]) (use k ic fin in auto)
qed

lemma runs_dirlink_new:
  fixes s :: "'a kfs_scheme"
  assumes s: "dst i r s V Map.empty" and p: "inodes r dp = p" "dir_ok V p" and ok: "disk_ok (havedisk1 r) V (i_dev p)" "inum_ok V p"
    and n: "dir_map V p (name_of name) = None" "(ucast inum :: ushort) \<noteq> 0" and k: "16 * new_ent V p < MAXFILE * 512" "room V p 1"
    and Q: "\<And>V' p' t. dst i (r\<lparr>inodes := (inodes r)(dp := p')\<rparr>) t V' Map.empty \<Longrightarrow> dir_ok V' p'
      \<Longrightarrow> dir_map V' p' = (dir_map V p)(name_of name \<mapsto> ucast inum)
      \<Longrightarrow> (\<exists>f. updated (havedisk1 r) V p V' p' (16 * new_ent V p) (16 * new_ent V p + 16) f) \<Longrightarrow> Q 0 t"
  shows "runs (dirlink dp name inum) s Q"
proof -
  let ?k = "new_ent V p"
  have d: "i_type p = T_DIR" "file_ok V p" "16 dvd unat (i_size p)" using p(2) by (simp_all add: dir_ok_def)
  note g = disk_ok_geometry [OF ok(1)] and fr = new_ent_free [OF p(2) k(1)]
  have none: "ent_at V p (name_of name) = None" using n(1) by (simp add: dir_map_def)
  have u: "unat (of_nat (16 * ?k) :: uint) = 16 * ?k" using k(1) by (intro unat_of_nat_small) simp
  have c: "(16 * x) mod 512 + 16 \<le> (512 :: nat)" for x
  proof -
    have "(16 * x) mod 512 = 16 * (x mod 32)" using mult_mod_right [of 16 x 32] by simp
    moreover have "x mod 32 < 32" by simp
    ultimately show ?thesis by linarith
  qed
  have fin: "runs (kbind (writei devsw dp (mk_dirent de name inum) (of_nat (16 * ?k)) 16) (\<lambda>r.
           if r \<noteq> 16 then kpanic ''dirlink'' else kret 0)) t Q" if t: "dst i r t V Map.empty" for de t
  proof (rule runs_kbind, rule runs_writei [OF t p(1) _ ok(1) d(2) ok(2), where m = 16 and k = 1], unfold u)
    fix V' p' t'
    assume t': "dst i (r\<lparr>inodes := (inodes r)(dp := p')\<rparr>) t' V' Map.empty"
      and up: "updated (havedisk1 r) V p V' p' (16 * ?k) (16 * ?k + 16) (\<lambda>x. mk_dirent de name inum (x - 16 * ?k))"
    have "Q 0 t'" by (rule Q [OF t' dir_added [OF p(2) refl k(1) up n]]) (use up in blast)
    then show "runs (if int 16 \<noteq> 16 then kpanic ''dirlink'' else kret 0) t' Q" by (simp add: runs_kret)
  qed (use d fr k c [of ?k] in \<open>simp_all\<close>)
  have slot: "runs (dirlink_slot dp (\<lambda>_. 0) (unat (i_size p)) 0) t (\<lambda>x t'. runs (case x of (off, de) \<Rightarrow>
      kbind (writei devsw dp (mk_dirent de name inum) (of_nat off) 16) (\<lambda>r. if r \<noteq> 16 then kpanic ''dirlink'' else kret 0)) t' Q)"
    if t: "dst i r t V Map.empty" for t
    using runs_dirlink_slot [where k = 0, OF t p(1) d(1) g d(2,3)] fin by (simp only: mult_0_right not_less0) simp
  have "runs (kbind (kget (\<lambda>s. unat (i_size (inodes s dp)))) (\<lambda>sz. kbind (dirlink_slot dp (\<lambda>_. 0) sz 0) (\<lambda>(off, de).
      kbind (writei devsw dp (mk_dirent de name inum) (of_nat off) 16) (\<lambda>r. if r \<noteq> 16 then kpanic ''dirlink'' else kret 0)))) t Q"
    if t: "dst i r t V Map.empty" for t
    using slot [OF t] by (intro runs_kbind runs_kget_inode [OF t, where g = "\<lambda>T. unat (i_size (T dp))"]) (simp add: p(1))
  then show ?thesis
    unfolding dirlink_def
    by (intro runs_kbind runs_dirlookup [OF s p(1) d(1) g d(2)]) (use none in auto)
qed

section \<open>The contract\<close>

text \<open>A directory in the cache that can be searched and changed.\<close>

definition dir_ready :: "nat \<Rightarrow> 'a kfs_scheme \<Rightarrow> nat \<Rightarrow> bool" where
  "dir_ready i s dp \<longleftrightarrow> cache_ok i s \<and> holds s = Map.empty \<and> icache_ok (inodes s) \<and> dp < NINODE \<and> i_ref (inodes s dp) > 0
     \<and> dir_ok (bview s) (inodes s dp) \<and> disk_ok (havedisk1 s) (bview s) (i_dev (inodes s dp)) \<and> inum_ok (bview s) (inodes s dp)"

abbreviation entries :: "'a kfs_scheme \<Rightarrow> nat \<Rightarrow> uchar list \<rightharpoonup> ushort" where
  "entries s dp \<equiv> dir_map (bview s) (inodes s dp)"

lemma dst_have: "dst i r s V h \<Longrightarrow> havedisk1 s = havedisk1 r"
  by (simp add: dst_def io_frame_def io_same_def)

lemma dir_ready_kept:
  assumes "dir_ready i s dp" "kept (inodes s) T" "dst i (s\<lparr>inodes := T\<rparr>) t (bview s) Map.empty"
  shows "dir_ready i t dp" "inodes t dp = inodes s dp"
proof -
  have T: "inodes t = T" "havedisk1 t = havedisk1 s" using dst_inodes [OF assms(3)] dst_have [OF assms(3)] by simp_all
  have "dp < NINODE" "i_ref (inodes s dp) > 0" using assms(1) by (simp_all add: dir_ready_def)
  then show d: "inodes t dp = inodes s dp" using T assms(2) by (simp add: kept_def)
  show "dir_ready i t dp" using assms d T by (simp add: dir_ready_def kept_def dst_def)
qed

lemma updated_sb:
  assumes ok: "disk_ok have1 V (i_dev p)" and f: "file_wf V p" "inum_ok V p" and u: "updated have1 V p V' p' lo hi f"
  shows "fs_sb V' (i_dev p) = fs_sb V (i_dev p)"
proof -
  have "(i_dev p, 1) \<notin> touchable V p"
    using wf_owned [OF f(1), of 1] by (auto simp: touchable_def data_blk_def map_end_def map_start_def)
  moreover have "IBLOCK (i_inum p) \<noteq> 1"
  proof -
    have "unat (i_inum p) div 8 + 2 < fs_size V (i_dev p)" using inum_block [OF f(2)] ok by (simp add: disk_ok_def geometry_def)
    from geometry_small [OF disk_ok_geometry [OF ok] this] have "unat (IBLOCK (i_inum p)) = unat (i_inum p) div 8 + 2"
      unfolding IBLOCK_nat by (subst unat_of_nat_small) simp_all
    then show ?thesis by auto
  qed
  ultimately have "V' (i_dev p, 1) = V (i_dev p, 1)" using u by (auto simp: updated_def)
  then show ?thesis by (simp add: fs_sb_def)
qed

lemma dir_ready_updated:
  assumes s: "dir_ready i s dp" and t: "dst i (s\<lparr>inodes := (inodes s)(dp := p')\<rparr>) t V' Map.empty"
    and u: "updated (havedisk1 s) (bview s) (inodes s dp) V' p' lo hi f" and d: "dir_ok V' p'"
  shows "dir_ready i t dp" "\<forall>jp. jp \<noteq> dp \<longrightarrow> inodes t jp = inodes s jp" "icount (inodes t) = icount (inodes s)"
proof -
  let ?p = "inodes s dp"
  have p': "i_dev p' = i_dev ?p" "i_inum p' = i_inum ?p" "i_ref p' = i_ref ?p"
    using u unfolding updated_def by (metis inode.select_convs inode.surjective inode.update_convs(9,10))+
  have T: "inodes t = (inodes s)(dp := p')" "havedisk1 t = havedisk1 s" using dst_inodes [OF t] dst_have [OF t] by simp_all
  have dp: "dp < NINODE" "i_ref ?p > 0" "icache_ok (inodes s)" "inum_ok (bview s) ?p" "disk_ok (havedisk1 s) (bview s) (i_dev ?p)"
    "file_ok (bview s) ?p" using s by (simp_all add: dir_ready_def dir_ok_def)
  have "icache_ok (inodes t)" unfolding T(1)
    by (rule icache_ok_upd [OF dp(3,1)]) (use dp(1-3) p' in \<open>auto simp: icache_ok_def\<close>)
  moreover have "fs_sb V' (i_dev ?p) = fs_sb (bview s) (i_dev ?p)" by (rule updated_sb [OF dp(5) _ dp(4) u]) (use dp(6) in \<open>simp add: file_ok_def\<close>)
  then have "inum_ok V' p'" using dp(4) p' by (simp add: inum_ok_def)
  ultimately show "dir_ready i t dp" using d t u p' T dp(1,2) by (simp add: dir_ready_def dst_def updated_def)
  show "\<forall>jp. jp \<noteq> dp \<longrightarrow> inodes t jp = inodes s jp" by (simp add: T)
  show "icount (inodes t) = icount (inodes s)" unfolding T(1) by (rule icount_same) (use dp p' in auto)
qed

text \<open>
  C22: A directory is a finite map from names to inode numbers. \<open>dirlookup\<close> returns a counted reference to the
  inode of the name, and nothing when the name is not there. \<open>dirlink\<close> of a new name adds it, with
  the number, and changes no other name, no other inode and no reference count; of a name that is
  there it returns -1 and changes nothing. A name counts up to its 14th character.
\<close>

theorem directory_map:
  fixes s :: "'a kfs_scheme"
  assumes "dir_ready i s dp" "dev = i_dev (inodes s dp)"
  shows "(case entries s dp (name_of name) of
      None \<Rightarrow> runs (dirlookup dp name) s (\<lambda>r t. r = None \<and> dir_ready i t dp \<and> bview t = bview s \<and> inodes t = inodes s)
        \<and> ((ucast inum :: ushort) \<noteq> 0 \<and> 16 * new_ent (bview s) (inodes s dp) < MAXFILE * 512 \<and> room (bview s) (inodes s dp) 1 \<longrightarrow>
          runs (dirlink dp name inum) s (\<lambda>r t. r = 0 \<and> dir_ready i t dp
            \<and> entries t dp = (entries s dp)(name_of name \<mapsto> ucast inum)
            \<and> (\<forall>jp. jp \<noteq> dp \<longrightarrow> inodes t jp = inodes s jp) \<and> icount (inodes t) = icount (inodes s)
            \<and> (\<forall>q. inum_ok (bview s) q \<longrightarrow> (i_dev q, i_inum q) \<noteq> (dev, i_inum (inodes s dp))
                \<longrightarrow> disk_inode (bview t) q = disk_inode (bview s) q)))
    | Some j \<Rightarrow> iroom (inodes s) dev (ucast j) \<longrightarrow>
        runs (dirlookup dp name) s (\<lambda>r t. bview t = bview s \<and> (\<exists>ip off. r = Some (ip, off) \<and> got dev (ucast j) (inodes s) ip (inodes t)))
        \<and> runs (dirlink dp name inum) s (\<lambda>r t. r = - 1 \<and> dir_ready i t dp \<and> bview t = bview s \<and> kept (inodes s) (inodes t)))"
proof -
  have s: "dst i s s (bview s) Map.empty" using assms(1) by (intro dst_start) (simp_all add: dir_ready_def)
  have d: "icache_ok (inodes s)" "dir_ok (bview s) (inodes s dp)" "i_type (inodes s dp) = T_DIR" "file_ok (bview s) (inodes s dp)"
    "disk_ok (havedisk1 s) (bview s) dev" "inum_ok (bview s) (inodes s dp)" using assms by (simp_all add: dir_ready_def dir_ok_def)
  note g = disk_ok_geometry [OF d(5), unfolded assms(2)]
  show ?thesis
  proof (cases "entries s dp (name_of name)")
    case None
    then have at: "ent_at (bview s) (inodes s dp) (name_of name) = None" by (simp add: dir_map_def)
    have "runs (dirlookup dp name) s (\<lambda>r t. r = None \<and> dir_ready i t dp \<and> bview t = bview s \<and> inodes t = inodes s)"
    proof (rule runs_dirlookup [OF s refl d(3) g d(4)])
      fix t assume t: "dst i s t (bview s) Map.empty"
      then show "None = None \<and> dir_ready i t dp \<and> bview t = bview s \<and> inodes t = inodes s"
        using dir_ready_kept(1) [OF assms(1) kept_refl [OF d(1)], of t] dst_inodes [OF t] by (simp add: dst_def)
    qed (use at in simp_all)
    moreover have "runs (dirlink dp name inum) s (\<lambda>r t. r = 0 \<and> dir_ready i t dp
            \<and> entries t dp = (entries s dp)(name_of name \<mapsto> ucast inum)
            \<and> (\<forall>jp. jp \<noteq> dp \<longrightarrow> inodes t jp = inodes s jp) \<and> icount (inodes t) = icount (inodes s)
            \<and> (\<forall>q. inum_ok (bview s) q \<longrightarrow> (i_dev q, i_inum q) \<noteq> (dev, i_inum (inodes s dp))
                \<longrightarrow> disk_inode (bview t) q = disk_inode (bview s) q))"
      if a: "(ucast inum :: ushort) \<noteq> 0" "16 * new_ent (bview s) (inodes s dp) < MAXFILE * 512" "room (bview s) (inodes s dp) 1"
    proof (rule runs_dirlink_new [OF s refl d(2) d(5) [unfolded assms(2)] d(6) None a], elim exE)
      fix V' p' t f
      assume t: "dst i (s\<lparr>inodes := (inodes s)(dp := p')\<rparr>) t V' Map.empty" and V': "dir_ok V' p'"
        "dir_map V' p' = (entries s dp)(name_of name \<mapsto> ucast inum)"
        and u: "updated (havedisk1 s) (bview s) (inodes s dp) V' p' (16 * new_ent (bview s) (inodes s dp)) (16 * new_ent (bview s) (inodes s dp) + 16) f"
      have "bview t = V'" "inodes t dp = p'" using t dst_inodes [OF t] by (simp_all add: dst_def)
      then show "0 = 0 \<and> dir_ready i t dp \<and> entries t dp = (entries s dp)(name_of name \<mapsto> ucast inum)
            \<and> (\<forall>jp. jp \<noteq> dp \<longrightarrow> inodes t jp = inodes s jp) \<and> icount (inodes t) = icount (inodes s)
            \<and> (\<forall>q. inum_ok (bview s) q \<longrightarrow> (i_dev q, i_inum q) \<noteq> (dev, i_inum (inodes s dp))
                \<longrightarrow> disk_inode (bview t) q = disk_inode (bview s) q)"
        using dir_ready_updated [OF assms(1) t u V'(1)] V'(2) u assms(2) by (simp add: updated_def)
    qed
    ultimately show ?thesis using None by simp
  next
    case (Some j)
    then obtain k where k: "ent_at (bview s) (inodes s dp) (name_of name) = Some k" "ent_inum (bview s) (inodes s dp) k = j"
      by (auto simp: dir_map_def)
    have "runs (dirlookup dp name) s (\<lambda>r t. bview t = bview s \<and> (\<exists>ip off. r = Some (ip, off) \<and> got dev (ucast j) (inodes s) ip (inodes t)))"
      if "iroom (inodes s) dev (ucast j)"
    proof (rule runs_dirlookup [OF s refl d(3) g d(4)])
      fix k' ip T t
      assume "ent_at (bview s) (inodes s dp) (name_of name) = Some k'" "dst i (s\<lparr>inodes := T\<rparr>) t (bview s) Map.empty"
        "got (i_dev (inodes s dp)) (ucast (ent_inum (bview s) (inodes s dp) k')) (inodes s) ip T"
      then show "bview t = bview s \<and> (\<exists>ip' off. Some (ip, 16 * k') = Some (ip', off) \<and> got dev (ucast j) (inodes s) ip' (inodes t))"
        using dst_inodes k assms(2) by (fastforce simp: dst_def)
    qed (use k d(1) assms(2) that in auto)
    moreover have "runs (dirlink dp name inum) s (\<lambda>r t. r = - 1 \<and> dir_ready i t dp \<and> bview t = bview s \<and> kept (inodes s) (inodes t))"
      if "iroom (inodes s) dev (ucast j)"
    proof (rule runs_dirlink_old [OF s refl d(2) g d(1) Some])
      fix T t assume t: "kept (inodes s) T" "dst i (s\<lparr>inodes := T\<rparr>) t (bview s) Map.empty"
      then show "- 1 = - 1 \<and> dir_ready i t dp \<and> bview t = bview s \<and> kept (inodes s) (inodes t)"
        using dir_ready_kept [OF assms(1) t] dst_inodes [OF t(2)] by (simp add: dst_def)
    qed (use that assms(2) in simp)
    ultimately show ?thesis using Some by simp
  qed
qed

text \<open>An empty directory in slot 3 of the cache.\<close>

lemma small_dir:
  obtains s :: kfs where "dir_ready 0 s 3" "entries s 3 = Map.empty" "new_ent (bview s) (inodes s 3) = 0" "room (bview s) (inodes s 3) 1"
proof -
  define p where "p = zero_inode\<lparr>i_dev := 1, i_inum := 2, i_type := T_DIR, i_ref := 1, i_flags := 3\<rparr>"
  let ?T = "(\<lambda>_. zero_inode)(3 := p)"
  have pf: "i_dev p = 1" "i_inum p = 2" "i_addrs p = (\<lambda>_. 0)" "i_size p = 0" "i_type p = T_DIR" "i_ref p = 1"
    by (simp_all add: p_def zero_inode_def)
  have T3: "?T 3 = p" by simp
  obtain s :: kfs where s: "cache_ok 0 s" "holds s = Map.empty" "inodes s = ?T" "disk_ok (havedisk1 s) (bview s) 1"
      "file_ok (bview s) p" "inum_ok (bview s) p" "room (bview s) p 1" and z: "\<And>x. file_byte (bview s) p x = 0"
    by (rule small_empty [of ?T, OF T3 pf(1-4)]) blast
  have "ent_inum (bview s) p k = 0" for k by (simp add: ent_inum_def rd16_def z)
  then have d: "dir_ok (bview s) p" using s(5) pf by (simp add: dir_ok_def)
  moreover have "icache_ok ?T" by (auto simp: icache_ok_def pf zero_inode_def)
  ultimately have "dir_ready 0 s 3" using s pf by (simp add: dir_ready_def)
  moreover have "dir_map (bview s) p = Map.empty" "new_ent (bview s) p = 0"
    by (simp_all add: dir_map_def ent_at_def dir_slots_def new_ent_def pf fun_eq_iff)
  ultimately show ?thesis using that [of s] s(3,7) by simp
qed

theorem directory_map_witness:
  "\<exists>s :: kfs. runs (dirlink 3 (str_obj [97, 98]) 5) s (\<lambda>r t. r = 0 \<and> entries t 3 = [[97, 98] \<mapsto> 5])"
proof -
  obtain s :: kfs where s: "dir_ready 0 s 3" "entries s 3 = Map.empty" "new_ent (bview s) (inodes s 3) = 0" "room (bview s) (inodes s 3) 1"
    by (rule small_dir)
  have "[0..<DIRSIZ] = 0 # 1 # 2 # [3..<DIRSIZ]" by (simp add: upt_conv_Cons)
  then have n: "name_of (str_obj [97, 98]) = [97, 98]" by (simp only: name_of_def) (simp add: str_obj_def)
  have "runs (dirlink 3 (str_obj [97, 98]) 5) s (\<lambda>r t. r = 0 \<and> entries t 3 = [[97, 98] \<mapsto> 5])"
    using directory_map [OF s(1) refl, of "str_obj [97, 98]" 5] s(2-4) by (auto simp: n elim!: runs_mono)
  then show ?thesis by blast
qed

end
