(* ===== verification/Tag_Map.thy ===== *)
theory Tag_Map
  imports Tags
begin

text \<open>
  A tag block as a finite map. \<open>tag_map d\<close> gives for a key the 18 bytes of its value; \<open>tags_ok\<close>
  says that every slot in use has a key that ends within its 10 bytes and that no key has two
  slots. The three ways in which the tag calls change a block are updates of this map, and
  \<open>searchEnd\<close> finds no room exactly when the map has sixteen keys.
\<close>

definition valid_key :: "uchar list \<Rightarrow> bool" where
  "valid_key k \<longleftrightarrow> 1 \<le> length k \<and> length k \<le> 9 \<and> 0 \<notin> set k"

definition has_key :: "bytes \<Rightarrow> nat \<Rightarrow> uchar list \<Rightarrow> bool" where
  "has_key d i k \<longleftrightarrow> (\<forall>j\<le>length k. d (i + j) = str_obj k j)"

definition tags_ok :: "bytes \<Rightarrow> bool" where
  "tags_ok d \<longleftrightarrow> (\<forall>i\<in>set slots. d i \<noteq> 0 \<longrightarrow> (\<exists>k. valid_key k \<and> has_key d i k))
     \<and> (\<forall>i\<in>set slots. \<forall>j\<in>set slots. \<forall>k. valid_key k \<and> has_key d i k \<and> has_key d j k \<longrightarrow> i = j)"

definition tag_value :: "bytes \<Rightarrow> nat \<Rightarrow> uchar list" where
  "tag_value d i = map (\<lambda>j. d (i + 10 + j)) [0..<18]"

definition tag_map :: "bytes \<Rightarrow> uchar list \<rightharpoonup> uchar list" where
  "tag_map d k = (if valid_key k then map_option (tag_value d) (key_pos k d) else None)"

definition padded :: "bytes \<Rightarrow> nat \<Rightarrow> uchar list" where
  "padded v n = map (\<lambda>j. if j < n then v j else 0) [0..<18]"

section \<open>Slots\<close>

lemma in_slots: "i \<in> set slots \<longleftrightarrow> (\<exists>k<16. i = 32 * k)"
  by (auto simp: slots_def)

lemma slots_apart: "i \<in> set slots \<Longrightarrow> j \<in> set slots \<Longrightarrow> i \<noteq> j \<Longrightarrow> i + 32 \<le> j \<or> j + 32 \<le> i"
  by (auto simp: in_slots)

lemma slots_bound: "i \<in> set slots \<Longrightarrow> i + 32 \<le> 512"
  by (auto simp: in_slots)

lemma card_slots: "card (set slots) = 16" "finite (set slots)"
  by (simp_all add: slots_def card_image inj_on_def)

lemma has_key_start: "has_key d i k \<Longrightarrow> valid_key k \<Longrightarrow> d i \<noteq> 0"
  unfolding has_key_def valid_key_def by (cases k) (auto simp: str_obj_def dest: spec [of _ 0])

lemma has_key_inj:
  assumes "valid_key k" "valid_key l" "has_key d i k" "has_key d i l"
  shows "k = l"
proof -
  have nz: "k ! j \<noteq> 0" if "j < length k" "valid_key k" for j and k :: "uchar list"
    using that unfolding valid_key_def by (metis nth_mem)
  have le: "length b \<le> length a" if "valid_key b" "has_key d i a" "has_key d i b" for a b
    using that nz [of "length a" b] unfolding has_key_def str_obj_def by (metis le_refl linorder_not_le nat_less_le)
  have "length k = length l" using le [of k l] le [of l k] assms by simp
  moreover have "k ! j = l ! j" if "j < length k" for j
    using assms(3,4) that calculation unfolding has_key_def str_obj_def by (metis less_imp_le_nat)
  ultimately show ?thesis by (rule nth_equalityI)
qed

lemma key_match_iff:
  assumes "valid_key k" "i + 10 \<le> 512" "j \<le> length k" "j + n = 10"
  shows "key_match (str_obj k) (length k) d i j n \<longleftrightarrow> (\<forall>m. j \<le> m \<and> m \<le> length k \<longrightarrow> d (i + m) = str_obj k m)"
  using assms(3,4)
proof (induction n arbitrary: j)
  case 0
  then show ?case using assms(1) by (simp add: valid_key_def)
next
  case (Suc n)
  have split: "(\<forall>m. j \<le> m \<and> m \<le> length k \<longrightarrow> P m) \<longleftrightarrow> P j \<and> (\<forall>m. Suc j \<le> m \<and> m \<le> length k \<longrightarrow> P m)" for P
    using Suc.prems(1) by (metis Suc_leD le_antisym not_less_eq_eq)
  show ?case
  proof (cases "j = length k")
    case True
    then show ?thesis using assms(2) Suc.prems by (auto simp: str_obj_def)
  next
    case False
    then have "key_match (str_obj k) (length k) d i (Suc j) n \<longleftrightarrow> (\<forall>m. Suc j \<le> m \<and> m \<le> length k \<longrightarrow> d (i + m) = str_obj k m)"
      using Suc.prems by (intro Suc.IH) auto
    then show ?thesis using False assms(2) Suc.prems unfolding split by auto
  qed
qed

lemma key_pos_find: "valid_key k \<Longrightarrow> key_pos k d = find (\<lambda>i. has_key d i k) slots"
  unfolding key_pos_def
proof (rule find_cong [OF refl])
  fix i assume "valid_key k" "i \<in> set slots"
  then show "key_match (str_obj k) (length k) d i 0 10 = has_key d i k"
    using key_match_iff [of k i 0 10 d] slots_bound [of i] by (simp add: has_key_def)
qed

lemma key_pos_in: "key_pos k d = Some i \<Longrightarrow> i \<in> set slots"
  by (auto simp: key_pos_def find_Some_iff)

lemma key_pos_None: "valid_key k \<Longrightarrow> key_pos k d = None \<longleftrightarrow> (\<forall>i\<in>set slots. \<not> has_key d i k)"
  by (auto simp: key_pos_find find_None_iff)

lemma key_pos_Some:
  assumes "valid_key k" "tags_ok d"
  shows "key_pos k d = Some i \<longleftrightarrow> i \<in> set slots \<and> has_key d i k"
proof
  show "i \<in> set slots \<and> has_key d i k" if "key_pos k d = Some i"
    using that assms(1) by (auto simp: key_pos_find find_Some_iff)
  assume i: "i \<in> set slots \<and> has_key d i k"
  then obtain j where j: "key_pos k d = Some j" using key_pos_None [OF assms(1), of d] by (cases "key_pos k d") auto
  then have "j \<in> set slots \<and> has_key d j k" using assms(1) by (auto simp: key_pos_find find_Some_iff)
  then show "key_pos k d = Some i" using assms i j unfolding tags_ok_def by blast
qed

lemma tag_map_Some:
  assumes "tags_ok d"
  shows "tag_map d k = Some v \<longleftrightarrow> valid_key k \<and> (\<exists>i\<in>set slots. has_key d i k \<and> v = tag_value d i)"
  using key_pos_Some [OF _ assms, of k] by (auto simp: tag_map_def)

section \<open>Changing one slot\<close>

lemma slot_change:
  assumes ok: "tags_ok d" and i: "i \<in> set slots" and same: "\<forall>x. x < i \<or> i + 32 \<le> x \<longrightarrow> e x = d x"
    and new: "e i = 0 \<or> (\<exists>k. valid_key k \<and> has_key e i k \<and> (has_key d i k \<or> key_pos k d = None))"
  shows "tags_ok e" "tag_map e = (\<lambda>k. if valid_key k \<and> has_key e i k then Some (tag_value e i)
     else if has_key d i k then None else tag_map d k)"
proof -
  have other: "has_key e j k = has_key d j k" if "j \<in> set slots" "j \<noteq> i" "valid_key k" for j k
    using slots_apart [OF that(1) i that(2)] that(3) same unfolding has_key_def valid_key_def by auto
  have val: "tag_value e j = tag_value d j" if "j \<in> set slots" "j \<noteq> i" for j
    using slots_apart [OF that(1) i that(2)] same unfolding tag_value_def by auto
  have only: "j = i" if j: "j \<in> set slots" "has_key e j k" and k: "has_key e i k" "valid_key k" for j k
  proof (rule ccontr)
    assume "j \<noteq> i"
    then have "has_key d j k" using other j k by simp
    moreover obtain l where l: "valid_key l" "has_key e i l" "has_key d i l \<or> key_pos l d = None"
      using new has_key_start [OF k] by blast
    have "has_key d i k \<or> key_pos k d = None" using l(3) unfolding has_key_inj [OF l(1) k(2) l(2) k(1)] .
    then have "has_key d i k \<or> \<not> has_key d j k" using key_pos_None [OF k(2), of d] j(1) by blast
    moreover have "\<not> (has_key d i k \<and> has_key d j k)" using ok i j(1) k(2) \<open>j \<noteq> i\<close> unfolding tags_ok_def by blast
    ultimately show False by blast
  qed
  show ok': "tags_ok e"
    unfolding tags_ok_def
  proof (intro conjI ballI impI allI)
    fix j assume j: "j \<in> set slots" "e j \<noteq> 0"
    show "\<exists>k. valid_key k \<and> has_key e j k"
    proof (cases "j = i")
      case False
      then have "d j \<noteq> 0" using j slots_apart [OF j(1) i False] same by auto
      then show ?thesis using ok j(1) other False unfolding tags_ok_def by blast
    qed (use new j in blast)
  next
    fix j l k assume a: "j \<in> set slots" "l \<in> set slots" "valid_key k \<and> has_key e j k \<and> has_key e l k"
    have "j = l" if "j \<noteq> i" "l \<noteq> i"
      using ok a other [OF a(1) that(1)] other [OF a(2) that(2)] unfolding tags_ok_def by blast
    then show "j = l" using only [OF a(1)] only [OF a(2)] a(3) by blast
  qed
  show "tag_map e = (\<lambda>k. if valid_key k \<and> has_key e i k then Some (tag_value e i)
     else if has_key d i k then None else tag_map d k)"
  proof
    fix k
    show "tag_map e k = (if valid_key k \<and> has_key e i k then Some (tag_value e i)
      else if has_key d i k then None else tag_map d k)"
    proof (cases "valid_key k")
      case True
      have "tag_map e k = None" if "\<not> has_key e i k" "has_key d i k"
      proof -
        have "\<not> has_key e j k" if j: "j \<in> set slots" for j
        proof (cases "j = i")
          case False
          then have "\<not> has_key d j k" using ok i j True \<open>has_key d i k\<close> unfolding tags_ok_def by blast
          then show ?thesis using other [OF j False True] by simp
        qed (use \<open>\<not> has_key e i k\<close> in simp)
        then show ?thesis using key_pos_None [OF True, of e] by (simp add: tag_map_def)
      qed
      moreover have "tag_map e k = tag_map d k" if "\<not> has_key e i k" "\<not> has_key d i k"
      proof -
        have "find (\<lambda>j. has_key e j k) slots = find (\<lambda>j. has_key d j k) slots"
        proof (rule find_cong [OF refl])
          show "has_key e j k = has_key d j k" if "j \<in> set slots" for j
            using that \<open>\<not> has_key e i k\<close> \<open>\<not> has_key d i k\<close> other [OF that _ True] by (cases "j = i") simp_all
        qed
        then have "key_pos k e = key_pos k d" by (simp add: key_pos_find True)
        moreover have "map_option (tag_value e) (key_pos k d) = map_option (tag_value d) (key_pos k d)"
          using that val key_pos_Some [OF True ok] by (cases "key_pos k d") auto
        ultimately show ?thesis by (simp add: tag_map_def True)
      qed
      moreover have "tag_map e k = Some (tag_value e i)" if "has_key e i k"
        using that True i by (simp add: tag_map_Some [OF ok']) blast
      ultimately show ?thesis using True by simp
    qed (simp add: tag_map_def)
  qed
qed

lemma new_slot_map:
  assumes ok: "tags_ok d" and i: "searchEnd d = Some i" and k: "valid_key k" "key_pos k d = None" and n: "n \<le> 18"
  shows "tags_ok (new_slot k v n i d)" "tag_map (new_slot k v n i d) = (tag_map d)(k \<mapsto> padded v n)"
proof -
  let ?e = "new_slot k v n i d"
  have sl: "i \<in> set slots" "d i = 0" using i by (auto simp: searchEnd_def find_Some_iff)
  have len: "length k \<le> 9" using k(1) by (simp add: valid_key_def)
  have at: "?e x = (if i + 10 \<le> x \<and> x < i + 10 + n then v (x - (i + 10))
     else if i \<le> x \<and> x < i + length k then k ! (x - i) else if i \<le> x \<and> x < i + 28 then 0 else d x)" for x
    using len n by (auto simp: new_slot_def memmove_obj_at memset_at str_obj_def)
  have hk: "has_key ?e i k" using len unfolding has_key_def at by (auto simp: str_obj_def)
  have same: "\<forall>x. x < i \<or> i + 32 \<le> x \<longrightarrow> ?e x = d x" using len n by (auto simp: at)
  have new: "?e i = 0 \<or> (\<exists>k. valid_key k \<and> has_key ?e i k \<and> (has_key d i k \<or> key_pos k d = None))"
    using hk k by blast
  note c = slot_change [OF ok sl(1) same new]
  show "tags_ok ?e" by (rule c(1))
  have val: "tag_value ?e i = padded v n" using n len by (simp add: tag_value_def padded_def at)
  have eq: "l = k" if "valid_key l" "has_key ?e i l" for l using has_key_inj [OF that(1) k(1) that(2) hk] .
  have none: "tag_map d l = None" if "has_key d i l" for l
    using that has_key_start [of d i l] sl(2) by (auto simp: tag_map_def)
  show "tag_map ?e = (tag_map d)(k \<mapsto> padded v n)"
    unfolding c(2) using eq hk k(1) val none by (auto simp: fun_eq_iff)
qed

lemma new_value_map:
  assumes ok: "tags_ok d" and k: "valid_key k" "key_pos k d = Some i" and n: "n \<le> 18"
  shows "tags_ok (new_value v n i d)" "tag_map (new_value v n i d) = (tag_map d)(k \<mapsto> padded v n)"
proof -
  let ?e = "new_value v n i d"
  have sl: "i \<in> set slots" "has_key d i k" using key_pos_Some [OF k(1) ok, of i] k(2) by simp_all
  have len: "length k \<le> 9" using k(1) by (simp add: valid_key_def)
  have at: "?e x = (if i + 10 \<le> x \<and> x < i + 10 + n then v (x - (i + 10))
     else if i + 10 \<le> x \<and> x < i + 28 then 0 else d x)" for x
    using n by (simp add: new_value_def memmove_obj_at memset_at)
  have hk: "has_key ?e i l = has_key d i l" if "valid_key l" for l
  proof -
    have "?e (i + j) = d (i + j)" if "j \<le> length l" for j
      using that \<open>valid_key l\<close> unfolding at valid_key_def by simp
    then show ?thesis by (simp add: has_key_def)
  qed
  have same: "\<forall>x. x < i \<or> i + 32 \<le> x \<longrightarrow> ?e x = d x" using n by (auto simp: at)
  have new: "?e i = 0 \<or> (\<exists>k. valid_key k \<and> has_key ?e i k \<and> (has_key d i k \<or> key_pos k d = None))"
    by (intro disjI2 exI [of _ k] conjI disjI1 k(1) sl(2)) (simp only: hk [OF k(1)] sl(2))
  note c = slot_change [OF ok sl(1) same new]
  show "tags_ok ?e" by (rule c(1))
  have val: "tag_value ?e i = padded v n" using n by (simp add: tag_value_def padded_def at)
  have eq: "l = k" if "valid_key l" "has_key d i l" for l using has_key_inj [OF that(1) k(1) that(2) sl(2)] .
  have inv: "tag_map d l = None" if "\<not> valid_key l" for l using that by (simp add: tag_map_def)
  show "tag_map ?e = (tag_map d)(k \<mapsto> padded v n)"
  proof
    fix l
    show "tag_map ?e l = ((tag_map d)(k \<mapsto> padded v n)) l"
    proof (cases "valid_key l")
      case True
      then have "has_key d i l \<longleftrightarrow> l = k" using eq sl(2) by blast
      then show ?thesis unfolding c(2) hk [OF True] using True val by simp
    next
      case False
      then have "l \<noteq> k" using k(1) by blast
      then show ?thesis unfolding c(2) using False inv by simp
    qed
  qed
qed

lemma remove_map:
  assumes ok: "tags_ok d" and k: "valid_key k" "key_pos k d = Some i"
  shows "tags_ok (memset d i 0 28)" "tag_map (memset d i 0 28) = (tag_map d)(k := None)"
proof -
  let ?e = "memset d i 0 28"
  have sl: "i \<in> set slots" "has_key d i k" using key_pos_Some [OF k(1) ok, of i] k(2) by simp_all
  have same: "\<forall>x. x < i \<or> i + 32 \<le> x \<longrightarrow> ?e x = d x" by (auto simp: memset_at)
  have z: "?e i = 0" by (simp add: memset_at)
  note c = slot_change [OF ok sl(1) same disjI1 [OF z]]
  show "tags_ok ?e" by (rule c(1))
  have eq: "l = k" if "valid_key l" "has_key d i l" for l using has_key_inj [OF that(1) k(1) that(2) sl(2)] .
  have inv: "tag_map d l = None" if "\<not> valid_key l" for l using that by (simp add: tag_map_def)
  show "tag_map ?e = (tag_map d)(k := None)"
  proof
    fix l
    show "tag_map ?e l = ((tag_map d)(k := None)) l"
    proof (cases "valid_key l")
      case True
      then have "has_key d i l \<longleftrightarrow> l = k" "\<not> has_key ?e i l" using eq sl(2) z has_key_start [OF _ True, of ?e i] by auto
      then show ?thesis unfolding c(2) by simp
    next
      case False
      then have "l \<noteq> k" using k(1) by blast
      then show ?thesis unfolding c(2) using False inv by simp
    qed
  qed
qed

section \<open>Room for another tag\<close>

lemma tag_count:
  assumes "tags_ok d"
  shows "card (dom (tag_map d)) = card {i \<in> set slots. d i \<noteq> 0}" "finite (dom (tag_map d))"
proof -
  let ?pos = "\<lambda>k. the (key_pos k d)"
  have dom: "dom (tag_map d) = {k. valid_key k \<and> (\<exists>i\<in>set slots. has_key d i k)}"
    using tag_map_Some [OF assms] by (auto simp: dom_def)
  have pos: "?pos k = i" if "valid_key k" "i \<in> set slots" "has_key d i k" for k i
    using that key_pos_Some [OF that(1) assms, of i] by simp
  have "bij_betw ?pos (dom (tag_map d)) {i \<in> set slots. d i \<noteq> 0}"
  proof (rule bij_betw_imageI)
    show "inj_on ?pos (dom (tag_map d))"
    proof (rule inj_onI)
      fix k l assume "k \<in> dom (tag_map d)" "l \<in> dom (tag_map d)" and eq: "?pos k = ?pos l"
      then obtain i j where k: "valid_key k" "i \<in> set slots" "has_key d i k" and l: "valid_key l" "j \<in> set slots" "has_key d j l"
        unfolding dom by blast
      have "j = i" using pos [OF k] pos [OF l] eq by simp
      then show "k = l" using has_key_inj [OF k(1) l(1) k(3)] l(3) by simp
    qed
    show "?pos ` dom (tag_map d) = {i \<in> set slots. d i \<noteq> 0}"
    proof (intro equalityI subsetI)
      fix i assume "i \<in> ?pos ` dom (tag_map d)"
      then obtain k j where k: "valid_key k" "j \<in> set slots" "has_key d j k" "i = ?pos k" unfolding dom by blast
      then show "i \<in> {i \<in> set slots. d i \<noteq> 0}" using pos [OF k(1-3)] has_key_start [OF k(3,1)] by simp
    next
      fix i assume i: "i \<in> {i \<in> set slots. d i \<noteq> 0}"
      then obtain k where k: "valid_key k" "has_key d i k" using assms unfolding tags_ok_def by blast
      then have "k \<in> dom (tag_map d)" "?pos k = i" using i pos [OF k(1) _ k(2)] unfolding dom by auto
      then show "i \<in> ?pos ` dom (tag_map d)" by blast
    qed
  qed
  then show "card (dom (tag_map d)) = card {i \<in> set slots. d i \<noteq> 0}" "finite (dom (tag_map d))"
    using bij_betw_finite [of ?pos "dom (tag_map d)"] by (auto dest: bij_betw_same_card)
qed

lemma searchEnd_None:
  assumes "tags_ok d"
  shows "searchEnd d = None \<longleftrightarrow> card (dom (tag_map d)) = 16"
proof -
  have "searchEnd d = None \<longleftrightarrow> {i \<in> set slots. d i \<noteq> 0} = set slots" by (auto simp: searchEnd_def find_None_iff)
  also have "\<dots> \<longleftrightarrow> card {i \<in> set slots. d i \<noteq> 0} = 16"
    using card_subset_eq [OF card_slots(2), of "{i \<in> set slots. d i \<noteq> 0}"] card_slots(1) by auto
  finally show ?thesis by (simp add: tag_count [OF assms])
qed

lemma tags_ok_zero: "tags_ok (\<lambda>_. 0)" "tag_map (\<lambda>_. 0) = Map.empty"
proof -
  have "\<not> has_key (\<lambda>_. 0) i k" if "valid_key k" for i k using has_key_start [of "\<lambda>_. 0" i k] that by auto
  then show "tags_ok (\<lambda>_. 0)" "tag_map (\<lambda>_. 0) = Map.empty"
    using key_pos_None [of _ "\<lambda>_. 0"] by (auto simp: tags_ok_def tag_map_def fun_eq_iff)
qed

text \<open>Only the 512 bytes of the block matter.\<close>

lemma tag_cong:
  assumes "sect d = sect e"
  shows "tag_map d = tag_map e" "tags_ok d = tags_ok e" "searchEnd d = searchEnd e"
    "valid_key k \<Longrightarrow> key_pos k d = key_pos k e"
proof -
  have eq: "d x = e x" if "x < 512" for x using assms that unfolding sect_eq_iff by simp
  have hk: "has_key d i k = has_key e i k" if "i \<in> set slots" "valid_key k" for i k
    using slots_bound [OF that(1)] that(2) eq unfolding has_key_def valid_key_def by simp
  have z: "d i = e i" if "i \<in> set slots" for i using slots_bound [OF that] eq by simp
  show kp: "key_pos k d = key_pos k e" if "valid_key k" for k
    using hk [OF _ that] by (simp add: key_pos_find [OF that] cong: find_cong)
  have "tag_value d i = tag_value e i" if "i \<in> set slots" for i
    using slots_bound [OF that] eq by (simp add: tag_value_def)
  then have "map_option (tag_value d) (key_pos k e) = map_option (tag_value e) (key_pos k e)" if "valid_key k" for k
    using key_pos_in [of k e] by (cases "key_pos k e") auto
  then show "tag_map d = tag_map e" using kp by (auto simp: tag_map_def fun_eq_iff)
  have *: "(\<exists>k. valid_key k \<and> has_key d i k) = (\<exists>k. valid_key k \<and> has_key e i k)" if "i \<in> set slots" for i
    using hk [OF that] by blast
  have "(\<forall>k. valid_key k \<and> has_key d i k \<and> has_key d j k \<longrightarrow> i = j) = (\<forall>k. valid_key k \<and> has_key e i k \<and> has_key e j k \<longrightarrow> i = j)"
    if "i \<in> set slots" "j \<in> set slots" for i j using hk [OF that(1)] hk [OF that(2)] by blast
  then show "tags_ok d = tags_ok e" unfolding tags_ok_def using * z by simp
  show "searchEnd d = searchEnd e" using z by (simp add: searchEnd_def cong: find_cong)
qed

end
