(* ===== verification/Ring.thy ===== *)
theory Ring
  imports Xv6_Prelude
begin

text \<open>
  Ring buffers: an array of \<open>N\<close> bytes with two 32-bit counters that run on and wrap around, the
  next byte to read and the next to write. The kernel has two, the pipe and the line input of
  the console. The locale is what they share; its lemmas show that a ring is a queue,
  also when a counter wraps around.
\<close>

definition ring_list :: "nat \<Rightarrow> (nat \<Rightarrow> uchar) \<Rightarrow> uint \<Rightarrow> uint \<Rightarrow> uchar list" where
  "ring_list N d r w = map (\<lambda>k. d (unat (r + of_nat k) mod N)) [0..<unat (w - r)]"

locale ring =
  fixes N :: nat
    and data :: "'s \<Rightarrow> nat \<Rightarrow> uchar"
    and nread nwrite :: "'s \<Rightarrow> uint"
    and put :: "uchar \<Rightarrow> 's \<Rightarrow> 's"
    and get :: "'s \<Rightarrow> 's"
  assumes size: "0 < N" "N dvd 2 ^ 32" "N < 2 ^ 32"
    and put: "data (put c s) = (data s)(unat (nwrite s) mod N := c)"
      "nread (put c s) = nread s" "nwrite (put c s) = nwrite s + 1"
    and get: "data (get s) = data s" "nread (get s) = nread s + 1" "nwrite (get s) = nwrite s"
begin

definition fill :: "'s \<Rightarrow> nat" where
  "fill s = unat (nwrite s - nread s)"

definition contents :: "'s \<Rightarrow> uchar list" where
  "contents s = ring_list N (data s) (nread s) (nwrite s)"

lemma contents_cells: "contents s = map (\<lambda>k. data s (unat (nread s + of_nat k) mod N)) [0..<fill s]"
  by (simp add: contents_def ring_list_def fill_def)

definition ring_ok :: "'s \<Rightarrow> bool" where
  "ring_ok s \<longleftrightarrow> fill s \<le> N"

lemma length_contents [simp]: "length (contents s) = fill s"
  by (simp add: contents_cells)

lemma empty_iff: "nread s = nwrite s \<longleftrightarrow> contents s = []"
  by (auto simp: contents_cells fill_def unsigned_eq_0_iff)

lemma nwrite_fill: "nwrite s = nread s + of_nat (fill s)"
  by (simp add: fill_def)

lemma full_iff:
  shows "nwrite s = nread s + of_nat N \<longleftrightarrow> length (contents s) = N"
proof
  assume "nwrite s = nread s + of_nat N"
  then show "length (contents s) = N" using size(3) by (simp add: fill_def unat_of_nat_small)
next
  assume "length (contents s) = N"
  then have "unat (nwrite s - nread s) = unat (of_nat N :: uint)" using size(3) by (simp add: fill_def unat_of_nat_small)
  then have "nwrite s - nread s = of_nat N" by (simp only: word_unat_eq_iff)
  then show "nwrite s = nread s + of_nat N" by (simp add: algebra_simps)
qed

text \<open>The cell of a counter: the counter wraps at a multiple of \<open>N\<close>.\<close>

lemma cell_add: "unat (a + of_nat k :: uint) mod N = (unat a + k) mod N"
proof -
  have "unat (a + of_nat k :: uint) = (unat a + k) mod 2 ^ 32"
    by (simp add: unat_word_ariths unat_of_nat mod_add_right_eq)
  then show ?thesis using size(2) by (simp add: mod_mod_cancel)
qed

lemma cell_inj:
  assumes "i < N" "j < N" "unat (a + of_nat i :: uint) mod N = unat (a + of_nat j :: uint) mod N"
  shows "i = j"
proof -
  have eq: "(unat a + i) mod N = (unat a + j) mod N" using assms(3) by (simp only: cell_add)
  have "x = y" if "x \<le> y" "y < N" "(unat a + x) mod N = (unat a + y) mod N" for x y
  proof -
    have "N dvd (unat a + y) - (unat a + x)" using that by (metis mod_eq_dvd_iff_nat add_left_mono)
    then have "N dvd y - x" by simp
    then show ?thesis using that by (metis diff_is_0_eq' dvd_imp_le le_antisym less_imp_diff_less not_gr_zero not_less zero_less_diff)
  qed
  then show ?thesis using assms(1,2) eq by (cases "i \<le> j") (simp_all, metis nat_le_linear)
qed

lemma contents_put:
  assumes "fill s < N"
  shows "contents (put c s) = contents s @ [c]" "fill (put c s) = Suc (fill s)"
proof -
  have "unat (nwrite s - nread s) + 1 < 2 ^ 32" using assms size(3) by (simp add: fill_def)
  then have "unat (nwrite s - nread s + 1) = Suc (unat (nwrite s - nread s))" by (simp add: unat_word_ariths)
  then show f: "fill (put c s) = Suc (fill s)" by (simp add: fill_def put algebra_simps)
  have old: "unat (nread s + of_nat k) mod N \<noteq> unat (nwrite s) mod N" if "k < fill s" for k
    using cell_inj [of k "fill s" "nread s"] that assms by (subst nwrite_fill) auto
  show "contents (put c s) = contents s @ [c]"
    unfolding contents_cells f upt_Suc_append [OF le0] map_append
    by (simp add: put old) (simp add: fill_def)
qed

lemma contents_get:
  assumes "contents s \<noteq> []"
  shows "contents s = data s (unat (nread s) mod N) # contents (get s)" "fill s = Suc (fill (get s))"
proof -
  have "fill s \<noteq> 0" using assms by (simp add: contents_cells)
  then have "nwrite s - nread s \<noteq> 0" by (auto simp: fill_def)
  then have "unat (nwrite s - nread s - 1) = unat (nwrite s - nread s) - 1" by (rule unat_minus_one)
  then have "unat (nwrite s - nread s) = Suc (unat (nwrite s - nread s - 1))" using \<open>fill s \<noteq> 0\<close> by (simp add: fill_def)
  then show f: "fill s = Suc (fill (get s))" by (simp add: fill_def get algebra_simps)
  show "contents s = data s (unat (nread s) mod N) # contents (get s)"
    unfolding contents_cells f by (simp add: upt_conv_Cons get map_Suc_upt [symmetric] add.assoc del: upt_Suc)
qed

lemma ring_ok_put: "fill s < N \<Longrightarrow> ring_ok (put c s)"
  by (simp add: ring_ok_def contents_put(2))

lemma ring_ok_get: "ring_ok s \<Longrightarrow> contents s \<noteq> [] \<Longrightarrow> ring_ok (get s)"
  using contents_get(2) [of s] by (simp add: ring_ok_def)

end

end
