(* ===== verification/Console_In.thy ===== *)
theory Console_In
  imports Ring Console_Out
begin

text \<open>
  Input from the console (\<open>consoleintr\<close> of \<open>kernel/console.c\<close>, \<open>kernel/uart.c\<close>). The ring
  \<open>input\<close> holds the lines handed to readers and behind them the line being edited; a typed
  character changes the two as \<open>edit\<close> says. Echoing touches the screen and the serial port only.
\<close>

section \<open>Output changes the screen only\<close>

definition screen :: "'a kcons_scheme \<Rightarrow> 'a kcons_scheme \<Rightarrow> bool" where
  "screen s t \<longleftrightarrow> (\<exists>u m p. t = s\<lparr>uart_out := u, crt := m, crt_pos := p\<rparr>)"

lemma screen_refl [simp]: "screen s s"
  unfolding screen_def by (intro exI [of _ "uart_out s"] exI [of _ "crt s"] exI [of _ "crt_pos s"]) simp

lemma screen_trans: "screen s t \<Longrightarrow> screen t u \<Longrightarrow> screen s u"
  unfolding screen_def by (elim exE) (simp, blast)

lemma screen_same:
  assumes "screen s t"
  shows "panicked t = panicked s" "held t = held s" "cons_locking t = cons_locking s" "ptable t = ptable s"
    "input_buf t = input_buf s" "input_r t = input_r s" "input_w t = input_w s" "input_e t = input_e s"
    "uart_in t = uart_in s" "uart_on t = uart_on s" "phys t = phys s" "kbd_in t = kbd_in s" "kbd_shift t = kbd_shift s"
  using assms by (auto simp: screen_def)

lemma runs_consputc:
  assumes "\<not> panicked s"
  shows "runs (consputc c) s (\<lambda>_. screen s)"
proof -
  have "screen s (s\<lparr>uart_out := u, crt_pos := p, crt := m\<rparr>)" for u m p
    unfolding screen_def by (intro exI [of _ u] exI [of _ m] exI [of _ p]) simp
  moreover have "screen s (s\<lparr>crt_pos := p, crt := m\<rparr>)" for m p
    unfolding screen_def by (intro exI [of _ "uart_out s"] exI [of _ m] exI [of _ p]) simp
  ultimately show ?thesis
    using assms by (auto simp: consputc_def uartputc_def cgaputc_def runs_def kdefs Let_def split: prod.splits)
qed

lemma runs_conswrite:
  assumes "\<not> panicked s"
  shows "runs (conswrite cs) s (\<lambda>_. screen s)"
  unfolding conswrite_def
  by (rule runs_kforeach [where I = "\<lambda>_. screen s"])
     (use assms in \<open>auto intro!: runs_mono [OF runs_consputc] dest: screen_same(1) intro: screen_trans\<close>)

lemma screen_held: "screen (s\<lparr>held := h\<rparr>) t \<Longrightarrow> screen s (t\<lparr>held := held s\<rparr>)"
  unfolding screen_def by (elim exE) (auto intro!: exI)

lemma runs_cprintf:
  assumes "\<not> panicked s" "cons_locking s \<Longrightarrow> L_cons \<notin> set (held s)" "cprintf_chars fmt args \<noteq> None"
  shows "runs (cprintf fmt args) s (\<lambda>_. screen s)"
proof -
  obtain cs where cs: "cprintf_chars fmt args = Some cs" using assms(3) by blast
  show ?thesis
  proof (cases "cons_locking s")
    case True
    let ?s = "s\<lparr>held := L_cons # held s\<rparr>"
    obtain t where t: "conswrite cs ?s = Done () t" "screen ?s t"
      using runs_conswrite [of ?s cs] assms(1) by (auto simp: runs_def)
    then have "held t = L_cons # held s" by (auto simp: screen_def)
    then have "cprintf fmt args s = Done () (t\<lparr>held := held s\<rparr>)"
      using t(1) True assms(2) by (simp add: cprintf_def cs kdefs acquire_def release_def)
    then show ?thesis using screen_held [OF t(2)] by (auto intro!: runsI)
  next
    case False
    then have "cprintf fmt args s = conswrite cs s"
      using runs_conswrite [OF assms(1), of cs] by (auto simp: cprintf_def cs kdefs runs_def)
    then show ?thesis using runs_conswrite [OF assms(1), of cs] by (simp add: runs_def)
  qed
qed

lemma runs_procdump:
  assumes "\<not> panicked s" "cons_locking s \<Longrightarrow> L_cons \<notin> set (held s)"
  shows "runs procdump s (\<lambda>_. screen s)"
proof -
  have pr: "runs (cprintf fmt args) t (\<lambda>_. screen s)" if "screen s t" "cprintf_chars fmt args \<noteq> None" for fmt args t
    using that assms screen_same [OF that(1)]
    by (intro runs_mono [OF runs_cprintf]) (auto intro: screen_trans)
  have loop: "runs (kforeach pcs (\<lambda>pc. cprintf '' %p'' [VInt pc])) t (\<lambda>_. screen s)" if "screen s t" for pcs t
    by (rule runs_kforeach [where I = "\<lambda>_. screen s"]) (use that pr in auto)
  show ?thesis
    unfolding procdump_def
    by (rule runs_kforeach [where I = "\<lambda>_. screen s"])
       (auto intro!: runs_kbind runs_kget runs_kwhen runs_kseq runs_mono [OF pr] runs_mono [OF loop] pr)
qed

section \<open>The input ring\<close>

definition in_put :: "uchar \<Rightarrow> 'a kcons_scheme \<Rightarrow> 'a kcons_scheme" where
  "in_put c s = s\<lparr>input_buf := (input_buf s)(in_at (input_e s) := c), input_e := input_e s + 1\<rparr>"

definition in_get :: "'a kcons_scheme \<Rightarrow> 'a kcons_scheme" where
  "in_get s = s\<lparr>input_r := input_r s + 1\<rparr>"

interpretation inp: ring INPUT_BUF input_buf input_r input_e in_put in_get
  by unfold_locales (simp_all add: in_put_def in_get_def in_at_def)

text \<open>The lines handed over, and the line being edited.\<close>

definition committed :: "'a kcons_scheme \<Rightarrow> uchar list" where
  "committed s = ring_list INPUT_BUF (input_buf s) (input_r s) (input_w s)"

definition editing :: "'a kcons_scheme \<Rightarrow> uchar list" where
  "editing s = ring_list INPUT_BUF (input_buf s) (input_w s) (input_e s)"

definition input_ok :: "'a kcons_scheme \<Rightarrow> bool" where
  "input_ok s \<longleftrightarrow> unat (input_w s - input_r s) + unat (input_e s - input_w s) \<le> INPUT_BUF"

lemma ring_list_split:
  assumes "unat (w - r) + unat (e - w) < 4294967296"
  shows "ring_list N d r e = ring_list N d r w @ ring_list N d w e" "unat (e - r) = unat (w - r) + unat (e - w)"
proof -
  have "unat ((w - r) + (e - w)) = unat (w - r) + unat (e - w)" using assms by (simp only: unat_word_ariths) simp
  then show u: "unat (e - r) = unat (w - r) + unat (e - w)" by simp
  have sh: "r + of_nat (unat (w - r) + k) = w + of_nat k" for k by (simp add: algebra_simps)
  have "map (\<lambda>k. d (unat (r + of_nat k) mod N)) [unat (w - r)..<unat (w - r) + unat (e - w)] = ring_list N d w e"
    unfolding ring_list_def
  proof (rule nth_equalityI)
    fix i
    assume "i < length (map (\<lambda>k. d (unat (r + of_nat k) mod N)) [unat (w - r)..<unat (w - r) + unat (e - w)])"
    then have i: "i < unat (e - w)" by simp
    show "map (\<lambda>k. d (unat (r + of_nat k) mod N)) [unat (w - r)..<unat (w - r) + unat (e - w)] ! i
      = map (\<lambda>k. d (unat (w + of_nat k) mod N)) [0..<unat (e - w)] ! i"
      using i sh [of i] by (simp add: nth_upt)
  qed simp
  then show "ring_list N d r e = ring_list N d r w @ ring_list N d w e"
    unfolding ring_list_def [of N d r] u by (simp only: upt_add_eq_append [OF le0] map_append)
qed

lemma length_lines: "length (committed s) = unat (input_w s - input_r s)" "length (editing s) = unat (input_e s - input_w s)"
  by (simp_all add: committed_def editing_def ring_list_def)

lemma input_contents:
  assumes "input_ok s"
  shows "inp.contents s = committed s @ editing s" "inp.fill s = length (committed s) + length (editing s)"
    "unat (input_e s - input_r s) = length (committed s) + length (editing s)"
  using ring_list_split [of "input_w s" "input_r s" "input_e s"] assms
  by (simp_all add: inp.contents_def committed_def [symmetric] editing_def [symmetric] inp.fill_def length_lines input_ok_def)

lemma input_ok_iff: "input_ok s \<longleftrightarrow> length (committed s) + length (editing s) \<le> INPUT_BUF"
  by (simp add: input_ok_def length_lines)

lemma put_lines:
  assumes "input_ok s" "length (committed s) + length (editing s) < INPUT_BUF"
  shows "committed (in_put c s) = committed s" "editing (in_put c s) = editing s @ [c]" "input_ok (in_put c s)"
proof -
  have f: "inp.fill s < INPUT_BUF" using assms by (simp add: input_contents)
  have e: "unat (input_e s - input_w s) < INPUT_BUF" using assms(2) by (simp add: length_lines)
  then have "unat (input_e s - input_w s + 1) = unat (input_e s - input_w s) + 1" by (simp add: unat_word_ariths)
  then have u: "unat (input_e (in_put c s) - input_w (in_put c s)) = unat (input_e s - input_w s) + 1"
    by (simp add: in_put_def algebra_simps)
  have w: "input_w (in_put c s) - input_r (in_put c s) = input_w s - input_r s" by (simp add: in_put_def)
  show ok: "input_ok (in_put c s)" using assms(2) u w by (simp add: input_ok_def length_lines)
  have "committed (in_put c s) @ editing (in_put c s) = committed s @ editing s @ [c]"
    using inp.contents_put(1) [OF f, of c] input_contents(1) [OF ok] input_contents(1) [OF assms(1)] by simp
  moreover have "length (committed (in_put c s)) = length (committed s)" using w by (simp only: length_lines)
  ultimately show "committed (in_put c s) = committed s" "editing (in_put c s) = editing s @ [c]" by simp_all
qed

lemma erase_lines:
  assumes "input_ok s" "input_e s \<noteq> input_w s"
  defines "t \<equiv> s\<lparr>input_e := input_e s - 1\<rparr>"
  shows "committed t = committed s" "editing t = butlast (editing s)" "input_ok t"
    "last (editing s) = input_buf s (in_at (input_e s - 1))" "editing s \<noteq> []"
proof -
  define n where "n = unat (input_e s - input_w s) - 1"
  have nz: "input_e s - input_w s \<noteq> 0" using assms(2) by simp
  then have u: "unat (input_e s - input_w s) = Suc n" by (simp add: n_def unat_gt_0)
  have comm: "input_e s - 1 - input_w s = input_e s - input_w s - 1" by (rule diff_right_commute)
  have n: "unat (input_e s - 1 - input_w s) = n" unfolding comm n_def by (rule unat_minus_one [OF nz])
  then have last: "input_w s + of_nat n = input_e s - 1" by auto
  show "committed t = committed s" by (simp add: committed_def t_def)
  have "editing s = map (\<lambda>k. input_buf s (unat (input_w s + of_nat k) mod INPUT_BUF)) [0..<Suc n]"
    by (simp only: editing_def ring_list_def u)
  also have "\<dots> = editing t @ [input_buf s (in_at (input_e s - 1))]"
    using last by (simp add: editing_def ring_list_def t_def n in_at_def)
  finally have e: "editing s = editing t @ [input_buf s (in_at (input_e s - 1))]" .
  then show "editing t = butlast (editing s)" "last (editing s) = input_buf s (in_at (input_e s - 1))" "editing s \<noteq> []"
    by simp_all
  show "input_ok t" using assms(1) e \<open>committed t = committed s\<close> by (simp add: input_ok_iff)
qed

lemma commit_lines:
  assumes "input_ok s"
  defines "t \<equiv> s\<lparr>input_w := input_e s\<rparr>"
  shows "committed t = committed s @ editing s" "editing t = []" "input_ok t"
proof -
  show e: "editing t = []" by (simp add: editing_def t_def ring_list_def)
  have "committed t = inp.contents s" by (simp add: committed_def t_def inp.contents_def)
  then show c: "committed t = committed s @ editing s" using input_contents(1) [OF assms(1)] by simp
  show "input_ok t" using c e assms(1) by (simp add: input_ok_iff)
qed

lemma lines_cong:
  assumes "input_buf t = input_buf s" "input_r t = input_r s" "input_w t = input_w s" "input_e t = input_e s"
  shows "committed t = committed s" "editing t = editing s" "input_ok t = input_ok s"
  using assms by (simp_all add: committed_def editing_def input_ok_def)

section \<open>The line editor\<close>

text \<open>
  A character typed, with the lines handed over and the line being edited: control-U erases the
  line, backspace its last character, a newline or control-D hands it over, as does a full
  buffer; control-P lists the processes.
\<close>

definition edit :: "int \<Rightarrow> uchar list \<times> uchar list \<Rightarrow> uchar list \<times> uchar list" where
  "edit c = (\<lambda>(L, E).
     if c = 0x10 then (L, E)
     else if c = 0x15 then (L, rev (dropWhile (\<lambda>b. b \<noteq> 10) (rev E)))
     else if c = 0x08 \<or> c = 0x7f then (L, butlast E)
     else if c = 0 \<or> INPUT_BUF \<le> length L + length E then (L, E)
     else
       let c' = (if c = 0x0d then 0x0a else c); E' = E @ [of_int c']
       in if c' = 0x0a \<or> c' = 0x04 \<or> length L + length E' = INPUT_BUF then (L @ E', []) else (L, E'))"

definition typed :: "'a kcons_scheme \<Rightarrow> 'a kcons_scheme \<Rightarrow> bool" where
  "typed s t \<longleftrightarrow> (\<exists>u m p b w e T. t = s\<lparr>uart_out := u, crt := m, crt_pos := p,
     input_buf := b, input_w := w, input_e := e, ptable := T\<rparr>)"

lemma typed_screen: "screen s t \<Longrightarrow> typed s t"
  unfolding screen_def typed_def
  by (elim exE, intro exI [of _ "input_buf s"] exI [of _ "input_w s"] exI [of _ "input_e s"] exI [of _ "ptable s"] exI) simp

lemma typed_trans: "typed s t \<Longrightarrow> typed t u \<Longrightarrow> typed s u"
  unfolding typed_def by (elim exE) (simp, blast)

lemma typed_same:
  assumes "typed s t"
  shows "panicked t = panicked s" "held t = held s" "cons_locking t = cons_locking s" "input_r t = input_r s"
    "uart_in t = uart_in s" "uart_on t = uart_on s" "kbd_in t = kbd_in s" "kbd_shift t = kbd_shift s"
  using assms by (auto simp: typed_def)

text \<open>What one character does: the lines, and who is woken.\<close>

definition edits :: "'a kcons_scheme \<Rightarrow> uchar list \<times> uchar list \<Rightarrow> 'a kcons_scheme \<Rightarrow> bool" where
  "edits s l t \<longleftrightarrow> typed s t \<and> input_ok t \<and> (committed t, editing t) = l
     \<and> ptable t = (if committed t = committed s then ptable s else wake_table ChInput (ptable s))"

lemma edits_screen: "input_ok s \<Longrightarrow> screen s t \<Longrightarrow> edits s (committed s, editing s) t"
  using screen_same(4-8) [of s t] lines_cong [of t s] by (simp add: edits_def typed_screen)

lemma runs_erase:
  assumes "\<not> panicked s" "input_ok s" "input_e s \<noteq> input_w s"
  shows "runs erase s (\<lambda>_. edits s (committed s, butlast (editing s)))"
proof -
  let ?t = "s\<lparr>input_e := input_e s - 1\<rparr>"
  have t: "typed s ?t" unfolding typed_def
    by (intro exI [of _ "uart_out s"] exI [of _ "crt s"] exI [of _ "crt_pos s"] exI [of _ "input_buf s"]
        exI [of _ "input_w s"] exI [of _ "input_e s - 1"] exI [of _ "ptable s"]) simp
  note e = erase_lines [OF assms(2,3)]
  have "runs (consputc BACKSPACE) ?t (\<lambda>_. screen ?t)" by (rule runs_consputc) (use assms in simp)
  then have "runs (consputc BACKSPACE) ?t (\<lambda>_. edits s (committed s, butlast (editing s)))"
  proof (rule runs_mono)
    fix u assume u: "screen ?t u"
    then show "edits s (committed s, butlast (editing s)) u"
      using screen_same(4-8) [OF u] lines_cong [of u ?t] e typed_trans [OF t typed_screen [OF u]] by (simp add: edits_def)
  qed
  then show ?thesis unfolding erase_def by (intro runs_kseq runs_kmod) simp
qed

lemma kill_line_eq:
  "input_ok s \<Longrightarrow> kill_line (input_buf s) (input_w s) (input_e s) = length (takeWhile (\<lambda>b. b \<noteq> 10) (rev (editing s)))"
proof (induction "length (editing s)" arbitrary: s)
  case 0
  then have "input_e s - input_w s = 0" by (simp add: length_lines(2) unsigned_eq_0_iff)
  then have "input_e s = input_w s" by simp
  then show ?case using 0(1) by (subst kill_line.simps) simp
next
  case (Suc n)
  have ne: "input_e s \<noteq> input_w s" using Suc(2) by (auto simp: length_lines(2))
  let ?t = "s\<lparr>input_e := input_e s - 1\<rparr>"
  note e = erase_lines [OF Suc(3) ne]
  have ed: "editing s = editing ?t @ [input_buf s (in_at (input_e s - 1))]"
    using append_butlast_last_id [OF e(5)] e(2,4) by simp
  have "kill_line (input_buf s) (input_w s) (input_e s - 1) = length (takeWhile (\<lambda>b. b \<noteq> 10) (rev (editing ?t)))"
    using Suc(1) [of ?t] Suc(2) e(3) ed by simp
  then show ?case using ne by (subst kill_line.simps) (simp add: ed)
qed

lemma runs_kill:
  assumes "\<not> panicked s" "input_ok s"
  shows "k \<le> length (editing s) \<Longrightarrow>
    runs (kforeach [0..<k] (\<lambda>_. erase)) s (\<lambda>_. edits s (committed s, take (length (editing s) - k) (editing s)))"
proof -
  assume k: "k \<le> length (editing s)"
  let ?I = "\<lambda>j. edits s (committed s, take (length (editing s) - j) (editing s))"
  show ?thesis
  proof (rule runs_kforeach [where I = ?I])
    show "?I 0 s" using edits_screen [OF assms(2) screen_refl] by simp
    fix j t
    assume j: "j < length [0..<k]" and t: "?I j t"
    have tt: "typed s t" "input_ok t" "committed t = committed s" "editing t = take (length (editing s) - j) (editing s)" "ptable t = ptable s"
      using t by (auto simp: edits_def)
    have "editing t \<noteq> []" using j k tt(4) by auto
    then have "input_e t \<noteq> input_w t" by (auto simp: editing_def ring_list_def)
    then have "runs erase t (\<lambda>_. edits t (committed t, butlast (editing t)))"
      using assms(1) tt typed_same(1) [OF tt(1)] by (intro runs_erase) auto
    then show "runs erase t (\<lambda>_. ?I (Suc j))"
    proof (rule runs_mono)
      fix u assume u: "edits t (committed t, butlast (editing t)) u"
      have "butlast (take (length (editing s) - j) (editing s)) = take (length (editing s) - Suc j) (editing s)"
        using j k by (simp add: butlast_take)
      then show "?I (Suc j) u" using u tt typed_trans [OF tt(1)] by (auto simp: edits_def)
    qed
  qed simp
qed

lemma drop_line: "rev (dropWhile P (rev xs)) = take (length xs - length (takeWhile P (rev xs))) xs"
  by (metis dropWhile_eq_drop rev_drop rev_rev_ident length_rev)

lemma runs_store:
  fixes s :: "'a kcons_scheme"
  assumes "\<not> panicked s" "input_ok s" "length (committed s) + length (editing s) < INPUT_BUF" "L_ptable \<notin> set (held s)"
  shows "runs (kseq (kmod (\<lambda>s. s\<lparr>input_buf := (input_buf s)(in_at (input_e s) := of_int c), input_e := input_e s + 1\<rparr>)) (
      kseq (consputc c) (
      kbind (kget (\<lambda>s. input_e s = input_r s + of_nat INPUT_BUF)) (\<lambda>full.
      kwhen (c = 0x0a \<or> c = 0x04 \<or> full) (
        kseq (kmod (\<lambda>s. s\<lparr>input_w := input_e s\<rparr>)) (wakeup ChInput)))))) s
    (\<lambda>_. edits s (let E = editing s @ [of_int c]
      in if c = 0x0a \<or> c = 0x04 \<or> length (committed s) + length E = INPUT_BUF then (committed s @ E, []) else (committed s, E)))"
proof -
  let ?s = "in_put (of_int c) s" and ?E = "editing s @ [of_int c]"
  note put = put_lines [OF assms(2,3), of "of_int c"]
  have ty: "typed s ?s" unfolding typed_def in_put_def
    by (intro exI [of _ "uart_out s"] exI [of _ "crt s"] exI [of _ "crt_pos s"] exI
        [of _ "(input_buf s)(in_at (input_e s) := of_int c)"] exI [of _ "input_w s"] exI [of _ "input_e s + 1"] exI [of _ "ptable s"]) simp
  have "runs (kbind (kget (\<lambda>s. input_e s = input_r s + of_nat INPUT_BUF)) (\<lambda>full.
      kwhen (c = 0x0a \<or> c = 0x04 \<or> full) (
        kseq (kmod (\<lambda>s. s\<lparr>input_w := input_e s\<rparr>)) (wakeup ChInput)))) t
    (\<lambda>_. edits s (let E = ?E
      in if c = 0x0a \<or> c = 0x04 \<or> length (committed s) + length E = INPUT_BUF then (committed s @ E, []) else (committed s, E)))"
    if t: "screen ?s t" for t
  proof -
    note lt = lines_cong [of t ?s, OF screen_same(5-8) [OF t]]
    have ct: "committed t = committed s" "editing t = ?E" "input_ok t" "ptable t = ptable s" "L_ptable \<notin> set (held t)" "typed s t"
      using lt put screen_same(2,4) [OF t] assms(4) typed_trans [OF ty typed_screen [OF t]] by (simp_all add: in_put_def)
    have full: "input_e t = input_r t + of_nat INPUT_BUF \<longleftrightarrow> length (committed s) + length ?E = INPUT_BUF"
      unfolding inp.full_iff using input_contents(2) [OF ct(3)] ct(1,2) by simp
    show ?thesis
    proof (cases "c = 0x0a \<or> c = 0x04 \<or> length (committed s) + length ?E = INPUT_BUF")
      case True
      let ?t = "t\<lparr>input_w := input_e t, ptable := wake_table ChInput (ptable t)\<rparr>"
      note cm = commit_lines [OF ct(3)]
      have "typed t ?t" unfolding typed_def
        by (intro exI [of _ "uart_out t"] exI [of _ "crt t"] exI [of _ "crt_pos t"] exI [of _ "input_buf t"]
            exI [of _ "input_e t"] exI [of _ "input_e t"] exI [of _ "wake_table ChInput (ptable t)"]) simp
      then have "edits s (committed s @ ?E, []) ?t"
        using cm ct typed_trans [OF ct(6)] lines_cong [of ?t "t\<lparr>input_w := input_e t\<rparr>"] by (simp add: edits_def)
      moreover have "wakeup ChInput (t\<lparr>input_w := input_e t\<rparr>) = Done () ?t" using ct(5) by (simp add: wakeup_eq)
      ultimately show ?thesis
        using True full by (intro runs_kbind runs_kget runs_kwhen runs_kseq runs_kmod) (auto simp: Let_def intro!: runsI)
    next
      case False
      then have "edits s (committed s, ?E) t" using ct by (simp add: edits_def)
      then show ?thesis using False full by (intro runs_kbind runs_kget runs_kwhen) (auto simp: Let_def)
    qed
  qed
  then have "runs (kseq (consputc c) (
      kbind (kget (\<lambda>s. input_e s = input_r s + of_nat INPUT_BUF)) (\<lambda>full.
      kwhen (c = 0x0a \<or> c = 0x04 \<or> full) (
        kseq (kmod (\<lambda>s. s\<lparr>input_w := input_e s\<rparr>)) (wakeup ChInput))))) ?s
    (\<lambda>_. edits s (let E = ?E
      in if c = 0x0a \<or> c = 0x04 \<or> length (committed s) + length E = INPUT_BUF then (committed s @ E, []) else (committed s, E)))"
    using assms(1) by (intro runs_kseq runs_mono [OF runs_consputc]) (auto simp: in_put_def)
  then show ?thesis unfolding in_put_def by (intro runs_kseq [of "kmod _"] runs_kmod)
qed

lemma runs_consoleintr_char:
  fixes s :: "'a kcons_scheme"
  assumes "\<not> panicked s" "input_ok s" "cons_locking s \<Longrightarrow> L_cons \<notin> set (held s)" "L_ptable \<notin> set (held s)"
  shows "runs (consoleintr_char c) s (\<lambda>_. edits s (edit c (committed s, editing s)))"
proof -
  have kill: "rev (dropWhile (\<lambda>b. b \<noteq> 10) (rev (editing s)))
      = take (length (editing s) - kill_line (input_buf s) (input_w s) (input_e s)) (editing s)"
    unfolding kill_line_eq [OF assms(2)] by (rule drop_line)
  have k: "kill_line (input_buf s) (input_w s) (input_e s) \<le> length (editing s)"
    unfolding kill_line_eq [OF assms(2)] using length_takeWhile_le [of _ "rev (editing s)"] by simp
  consider "c = 0x10" | "c = 0x15" | "c = 0x08 \<or> c = 0x7f"
    | "c = 0 \<or> INPUT_BUF \<le> length (committed s) + length (editing s)" "c \<noteq> 0x10" "c \<noteq> 0x15" "\<not> (c = 0x08 \<or> c = 0x7f)"
    | "c \<noteq> 0" "length (committed s) + length (editing s) < INPUT_BUF" "c \<noteq> 0x10" "c \<noteq> 0x15" "\<not> (c = 0x08 \<or> c = 0x7f)"
    by linarith
  then show ?thesis
  proof cases
    case 1
    then show ?thesis
      using runs_mono [OF runs_procdump [OF assms(1,3)] edits_screen [OF assms(2)]] by (simp add: consoleintr_char_def edit_def)
  next
    case 2
    then show ?thesis
      using runs_kill [OF assms(1,2) k] unfolding consoleintr_char_def edit_def
      by (auto simp: kill intro!: runs_kbind runs_kget)
  next
    case 3
    have "editing s = [] \<longleftrightarrow> input_e s = input_w s" by (auto simp: editing_def ring_list_def unsigned_eq_0_iff)
    then have "runs (kwhen (input_e s \<noteq> input_w s) erase) s (\<lambda>_. edits s (committed s, butlast (editing s)))"
      using runs_erase [OF assms(1,2)] edits_screen [OF assms(2) screen_refl] by (intro runs_kwhen) auto
    then show ?thesis
      using 3 unfolding consoleintr_char_def edit_def by (auto intro!: runs_kbind runs_kget)
  next
    case 4
    then show ?thesis
      using edits_screen [OF assms(2) screen_refl] input_contents(3) [OF assms(2)]
      unfolding consoleintr_char_def edit_def by (auto intro!: runs_kbind runs_kget runs_kwhen)
  next
    case 5
    then have room: "unat (input_e s - input_r s) < INPUT_BUF" using input_contents(3) [OF assms(2)] by simp
    have "edit c (committed s, editing s) = (let c' = (if c = 0x0d then 0x0a else c); E = editing s @ [of_int c']
      in if c' = 0x0a \<or> c' = 0x04 \<or> length (committed s) + length E = INPUT_BUF then (committed s @ E, []) else (committed s, E))"
      using 5 by (simp add: edit_def Let_def)
    then show ?thesis
      using 5 room runs_store [OF assms(1,2) 5(2) assms(4), of "if c = 0x0d then 0x0a else c"]
      unfolding consoleintr_char_def Let_def
      by (simp only: if_False simp_thms) (intro runs_kbind runs_kget runs_kwhen, simp_all only: Let_def simp_thms)
  qed
qed

section \<open>The interrupt handlers\<close>

text \<open>From \<open>s\<close> to \<open>t\<close> input was taken from the devices and edited into the lines \<open>l\<close>.\<close>

definition took :: "'a kcons_scheme \<Rightarrow> 'a kcons_scheme \<Rightarrow> bool" where
  "took s t \<longleftrightarrow> (\<exists>q k h. t = s\<lparr>uart_in := q, kbd_in := k, kbd_shift := h\<rparr>)"

definition keyed :: "'a kcons_scheme \<Rightarrow> uchar list \<times> uchar list \<Rightarrow> 'a kcons_scheme \<Rightarrow> bool" where
  "keyed s l t \<longleftrightarrow> (\<exists>u. took s u \<and> typed u t) \<and> input_ok t \<and> (committed t, editing t) = l
     \<and> ptable t = (if committed t = committed s then ptable s else wake_table ChInput (ptable s))"

lemma took_same:
  assumes "took s t"
  shows "panicked t = panicked s" "held t = held s" "cons_locking t = cons_locking s" "ptable t = ptable s"
    "input_ok t = input_ok s" "committed t = committed s" "editing t = editing s"
  using assms by (auto simp: took_def input_ok_def committed_def editing_def)

lemma took_refl: "took s s"
  unfolding took_def by (intro exI [of _ "uart_in s"] exI [of _ "kbd_in s"] exI [of _ "kbd_shift s"]) simp

lemma typed_refl: "typed s s"
  by (rule typed_screen) simp

lemma took_typed:
  assumes "took s t" "typed t u" "took u v"
  shows "\<exists>w. took s w \<and> typed w v"
proof -
  obtain q k h where t: "t = s\<lparr>uart_in := q, kbd_in := k, kbd_shift := h\<rparr>" using assms(1) unfolding took_def by blast
  obtain x m p b w e T where u: "u = t\<lparr>uart_out := x, crt := m, crt_pos := p, input_buf := b, input_w := w, input_e := e, ptable := T\<rparr>"
    using assms(2) unfolding typed_def by blast
  obtain q k h where v: "v = u\<lparr>uart_in := q, kbd_in := k, kbd_shift := h\<rparr>" using assms(3) unfolding took_def by blast
  let ?w = "s\<lparr>uart_in := q, kbd_in := k, kbd_shift := h\<rparr>"
  have "v = ?w\<lparr>uart_out := x, crt := m, crt_pos := p, input_buf := b, input_w := w, input_e := e, ptable := T\<rparr>"
    unfolding v u t by simp
  then have "typed ?w v" unfolding typed_def by blast
  moreover have "took s ?w" unfolding took_def by blast
  ultimately show ?thesis by blast
qed

lemma keyed_held:
  assumes "keyed (s\<lparr>held := h\<rparr>) l t" "held s = h'"
  shows "keyed s l (t\<lparr>held := h'\<rparr>)"
proof -
  obtain u where u: "took (s\<lparr>held := h\<rparr>) u" "typed u t" using assms(1) by (auto simp: keyed_def)
  have "took s (u\<lparr>held := h'\<rparr>)" using u(1) assms(2) unfolding took_def by (elim exE) (auto intro!: exI)
  moreover have "typed (u\<lparr>held := h'\<rparr>) (t\<lparr>held := h'\<rparr>)"
  proof -
    obtain v m p b w e T where "t = u\<lparr>uart_out := v, crt := m, crt_pos := p, input_buf := b, input_w := w, input_e := e, ptable := T\<rparr>"
      using u(2) unfolding typed_def by blast
    then have "t\<lparr>held := h'\<rparr> = u\<lparr>held := h', uart_out := v, crt := m, crt_pos := p, input_buf := b, input_w := w, input_e := e, ptable := T\<rparr>"
      by simp
    then show ?thesis unfolding typed_def by blast
  qed
  ultimately show ?thesis
    using assms(1) lines_cong [of "t\<lparr>held := h'\<rparr>" t] lines_cong [of "s\<lparr>held := h\<rparr>" s] by (auto simp: keyed_def)
qed

lemma edit_prefix: "\<exists>K. fst (edit c l) = fst l @ K"
  by (cases l) (auto simp: edit_def Let_def)

lemma fold_edit_prefix: "\<exists>K. fst (fold edit cs l) = fst l @ K"
proof (induction cs arbitrary: l)
  case (Cons c cs)
  obtain K where "fst (edit c l) = fst l @ K" using edit_prefix by blast
  moreover obtain K' where "fst (fold edit cs (edit c l)) = fst (edit c l) @ K'" using Cons by blast
  ultimately show ?case by simp
qed simp

text \<open>
  What \<open>consoleintr\<close> expects of the function it is given: it returns the waiting characters one
  after the other and then a negative number, and touches nothing but its device.
\<close>

locale input_device =
  fixes getc :: "('a kcons_scheme, int) K"
    and pending :: "'a kcons_scheme \<Rightarrow> int list"
  assumes getc_none: "pending s = [] \<Longrightarrow> runs getc s (\<lambda>r t. r < 0 \<and> took s t \<and> pending t = [])"
    and getc_some: "pending s = c # cs \<Longrightarrow> runs getc s (\<lambda>r t. r = c \<and> 0 \<le> c \<and> took s t \<and> pending t = cs)"
    and pending_typed: "typed s t \<Longrightarrow> pending t = pending s"
    and pending_held: "pending (s\<lparr>held := h\<rparr>) = pending s"
begin

lemma runs_loop:
  assumes "\<not> panicked s" "input_ok s" "cons_locking s \<Longrightarrow> L_cons \<notin> set (held s)" "L_ptable \<notin> set (held s)"
    and "pending s = xs" "length xs \<le> n"
  shows "runs (consoleintr_loop (Suc n) getc) s (\<lambda>_ t. keyed s (fold edit (pending s) (committed s, editing s)) t \<and> pending t = [])"
  using assms
proof (induction xs arbitrary: s n)
  case Nil
  then have "pending s = []" by simp
  have "runs getc s (\<lambda>c t. runs (if c \<ge> 0 then kseq (consoleintr_char c) (consoleintr_loop n getc) else kret ()) t
      (\<lambda>_ t. keyed s (fold edit (pending s) (committed s, editing s)) t \<and> pending t = []))"
  proof (rule runs_mono [OF getc_none [OF \<open>pending s = []\<close>]])
    fix r :: int and t assume t: "r < 0 \<and> took s t \<and> pending t = []"
    then have "keyed s (committed s, editing s) t"
      using Nil(2) took_same [of s t] typed_refl by (auto simp: keyed_def)
    then show "runs (if r \<ge> 0 then kseq (consoleintr_char r) (consoleintr_loop n getc) else kret ()) t
      (\<lambda>_ t. keyed s (fold edit (pending s) (committed s, editing s)) t \<and> pending t = [])"
      using t \<open>pending s = []\<close> by (simp add: runs_kret)
  qed
  then show ?case by (simp only: consoleintr_loop.simps) (rule runs_kbind)
next
  case (Cons c cs)
  note p = Cons.prems(5)
  obtain m where m: "n = Suc m" "length cs \<le> m" using Cons.prems(6) by (cases n) auto
  have "runs getc s (\<lambda>r t. runs (if r \<ge> 0 then kseq (consoleintr_char r) (consoleintr_loop n getc) else kret ()) t
      (\<lambda>_ t. keyed s (fold edit (pending s) (committed s, editing s)) t \<and> pending t = []))"
  proof (rule runs_mono [OF getc_some [OF p]])
    fix r :: int and t assume t: "r = c \<and> 0 \<le> c \<and> took s t \<and> pending t = cs"
    note st = took_same [of s t]
    have "runs (consoleintr_char c) t (\<lambda>_ u. runs (consoleintr_loop n getc) u
      (\<lambda>_ v. keyed s (fold edit (pending s) (committed s, editing s)) v \<and> pending v = []))"
    proof (rule runs_mono [OF runs_consoleintr_char])
      fix u assume u: "edits t (edit c (committed t, editing t)) u"
      have ty: "typed t u" and iu: "input_ok u" and lu: "(committed u, editing u) = edit c (committed s, editing s)"
        and pu: "ptable u = (if committed u = committed s then ptable s else wake_table ChInput (ptable s))"
        using u t st by (auto simp: edits_def)
      have "runs (consoleintr_loop n getc) u (\<lambda>_ v. keyed u (fold edit (pending u) (committed u, editing u)) v \<and> pending v = [])"
        using Cons.prems(1,3,4) st t typed_same [OF ty] iu m(2) pending_typed [OF ty] unfolding m(1) by (intro Cons.IH) auto
      then show "runs (consoleintr_loop n getc) u
        (\<lambda>_ v. keyed s (fold edit (pending s) (committed s, editing s)) v \<and> pending v = [])"
      proof (rule runs_mono)
        fix v assume v: "keyed u (fold edit (pending u) (committed u, editing u)) v \<and> pending v = []"
        have l: "(committed v, editing v) = fold edit (pending s) (committed s, editing s)"
          using v t pending_typed [OF ty] lu p by (simp add: keyed_def)
        obtain K where K: "committed u = committed s @ K" using edit_prefix [of c "(committed s, editing s)"] lu by (metis fst_conv)
        obtain K' where K': "committed v = committed u @ K'"
          using fold_edit_prefix [of "pending u" "(committed u, editing u)"] v by (auto simp: keyed_def) (metis fst_conv)
        have "ptable v = (if committed v = committed s then ptable s else wake_table ChInput (ptable s))"
          using v pu K K' by (auto simp: keyed_def wake_table_twice)
        moreover obtain w where "took u w" "typed w v" using v by (auto simp: keyed_def)
        then have "\<exists>w. took s w \<and> typed w v" using took_typed [of s t u w] t ty by (meson typed_trans)
        ultimately show "keyed s (fold edit (pending s) (committed s, editing s)) v \<and> pending v = []"
          using v l by (simp add: keyed_def)
      qed
    qed (use Cons.prems st t in auto)
    then show "runs (if r \<ge> 0 then kseq (consoleintr_char r) (consoleintr_loop n getc) else kret ()) t
      (\<lambda>_ t. keyed s (fold edit (pending s) (committed s, editing s)) t \<and> pending t = [])"
      using t by (auto intro!: runs_kseq)
  qed
  then show ?case by (simp only: consoleintr_loop.simps(2) [of n]) (rule runs_kbind)
qed

lemma runs_consoleintr:
  assumes "\<not> panicked s" "input_ok s" "held s = []" "length (pending s) \<le> n"
  shows "runs (consoleintr (Suc n) getc) s
    (\<lambda>_ t. keyed s (fold edit (pending s) (committed s, editing s)) t \<and> pending t = [])"
proof -
  let ?s = "s\<lparr>held := [L_input]\<rparr>"
  have "runs (consoleintr_loop (Suc n) getc) ?s
    (\<lambda>_ t. keyed ?s (fold edit (pending ?s) (committed ?s, editing ?s)) t \<and> pending t = [])"
    using assms by (intro runs_loop) (auto simp: pending_held input_ok_def)
  then obtain t where t: "consoleintr_loop (Suc n) getc ?s = Done () t"
    "keyed ?s (fold edit (pending ?s) (committed ?s, editing ?s)) t" "pending t = []" by (auto simp: runs_def)
  have "held t = [L_input]" using t(2) by (auto simp: keyed_def took_def typed_def)
  then have "consoleintr (Suc n) getc s = Done () (t\<lparr>held := []\<rparr>)"
    using t(1) assms(3) by (simp add: consoleintr_def kdefs acquire_def release_def)
  moreover have "keyed s (fold edit (pending s) (committed s, editing s)) (t\<lparr>held := []\<rparr>)"
    using keyed_held [OF t(2), of "[]"] assms(3) by (simp add: pending_held committed_def editing_def)
  ultimately show ?thesis using t(3) by (auto intro!: runsI simp: pending_held)
qed

end

section \<open>The two devices\<close>

text \<open>The characters that wait in the serial port, and those the waiting scan codes stand for.\<close>

definition uart_pending :: "'a kcons_scheme \<Rightarrow> int list" where
  "uart_pending s = (if uart_on s then map uint (uart_in s) else [])"

primrec kbd_codes :: "uint \<Rightarrow> uchar list \<Rightarrow> int list" where
  "kbd_codes sh [] = []"
| "kbd_codes sh (b # bs) = snd (kbd_step sh b) # kbd_codes (fst (kbd_step sh b)) bs"

definition kbd_pending :: "'a kcons_scheme \<Rightarrow> int list" where
  "kbd_pending s = kbd_codes (kbd_shift s) (kbd_in s)"

lemma kbd_step_nonneg: "0 \<le> snd (kbd_step sh b)"
  by (auto simp: kbd_step_def Let_def split: prod.split)

lemma length_kbd_codes [simp]: "length (kbd_codes sh bs) = length bs"
  by (induction bs arbitrary: sh) auto

lemma took_uart_in: "took s (s\<lparr>uart_in := q\<rparr>)"
  unfolding took_def by (intro exI [of _ q] exI [of _ "kbd_in s"] exI [of _ "kbd_shift s"]) simp

lemma took_kbd_in: "took s (s\<lparr>kbd_in := k, kbd_shift := h\<rparr>)"
  unfolding took_def by (intro exI [of _ "uart_in s"] exI [of _ k] exI [of _ h]) simp

interpretation uart: input_device uartgetc uart_pending
proof unfold_locales
  show "uart_pending t = uart_pending s" if "typed s t" for s t :: "'a kcons_scheme"
    using that by (auto simp: typed_def uart_pending_def)
  show "runs uartgetc s (\<lambda>r t. r < 0 \<and> took s t \<and> uart_pending t = [])" if "uart_pending s = []" for s :: "'a kcons_scheme"
    using that by (auto intro!: runsI simp: uartgetc_def uart_pending_def took_refl split: if_splits)
  show "runs uartgetc s (\<lambda>r t. r = c \<and> 0 \<le> c \<and> took s t \<and> uart_pending t = cs)" if "uart_pending s = c # cs"
    for s :: "'a kcons_scheme" and c cs
    using that by (auto intro!: runsI simp: uartgetc_def uart_pending_def took_uart_in split: if_splits list.splits)
  show "uart_pending (s\<lparr>held := h\<rparr>) = uart_pending s" for s :: "'a kcons_scheme" and h by (simp add: uart_pending_def)
qed

interpretation kbd: input_device kbdgetc kbd_pending
proof unfold_locales
  show "kbd_pending t = kbd_pending s" if "typed s t" for s t :: "'a kcons_scheme"
    using that by (auto simp: typed_def kbd_pending_def)
  show "runs kbdgetc s (\<lambda>r t. r < 0 \<and> took s t \<and> kbd_pending t = [])" if "kbd_pending s = []" for s :: "'a kcons_scheme"
    using that by (cases "kbd_in s") (auto intro!: runsI simp: kbdgetc_def kbd_pending_def took_refl)
  show "runs kbdgetc s (\<lambda>r t. r = c \<and> 0 \<le> c \<and> took s t \<and> kbd_pending t = cs)" if "kbd_pending s = c # cs"
    for s :: "'a kcons_scheme" and c cs
    using that kbd_step_nonneg [of "kbd_shift s" "hd (kbd_in s)"]
    by (cases "kbd_in s"; cases "kbd_step (kbd_shift s) (hd (kbd_in s))")
      (auto simp: runs_def kbdgetc_def kbd_pending_def took_kbd_in)
  show "kbd_pending (s\<lparr>held := h\<rparr>) = kbd_pending s" for s :: "'a kcons_scheme" and h by (simp add: kbd_pending_def)
qed

text \<open>What the interrupt handlers leave behind when the characters \<open>cs\<close> waited in the device.\<close>

definition line_edited :: "'a kcons_scheme \<Rightarrow> int list \<Rightarrow> 'a kcons_scheme \<Rightarrow> bool" where
  "line_edited s cs t \<longleftrightarrow> (committed t, editing t) = fold edit cs (committed s, editing s)
     \<and> length (committed t) + length (editing t) \<le> INPUT_BUF \<and> held t = []
     \<and> ptable t = (if committed t = committed s then ptable s else wake_table ChInput (ptable s))
     \<and> (\<exists>u. took s u \<and> typed u t)"

lemma line_edited_keyed:
  "keyed s (fold edit cs (committed s, editing s)) t \<Longrightarrow> held s = [] \<Longrightarrow> line_edited s cs t"
  unfolding line_edited_def keyed_def input_ok_iff by (auto simp: took_def typed_def)

text \<open>
  C33: The console's input buffer refines a line editor. In a state that has not panicked, with no
  lock held and at most 128 characters in the buffer, the interrupt handlers of the serial port
  and of the keyboard return, with no lock held and no character left waiting. The lines handed
  over to readers and the line being edited are those that the waiting characters, typed one
  after the other, make of the lines before: erasing never reaches into a line handed over, and
  the buffer never holds more than 128 characters, however the 32-bit positions wrap around.
  The readers are woken when a line was handed over, and nothing but the devices, the screen,
  the input buffer and the sleeping readers changes.
\<close>

theorem console_line_editor:
  assumes "\<not> panicked s" "held s = []" "input_ok s"
  shows "runs uartintr s (\<lambda>_ t. line_edited s (uart_pending s) t \<and> uart_pending t = [])
    \<and> runs kbdintr s (\<lambda>_ t. line_edited s (kbd_pending s) t \<and> kbd_pending t = [])"
proof
  have "runs (consoleintr (Suc (length (uart_in s))) uartgetc) s (\<lambda>_ t. line_edited s (uart_pending s) t \<and> uart_pending t = [])"
    using assms(2) by (intro runs_mono [OF uart.runs_consoleintr [OF assms(1,3,2)]]) (auto simp: uart_pending_def line_edited_keyed)
  then show "runs uartintr s (\<lambda>_ t. line_edited s (uart_pending s) t \<and> uart_pending t = [])"
    by (simp add: uartintr_def runs_def)
  have "runs (consoleintr (Suc (length (kbd_in s))) kbdgetc) s (\<lambda>_ t. line_edited s (kbd_pending s) t \<and> kbd_pending t = [])"
    using assms(2) by (intro runs_mono [OF kbd.runs_consoleintr [OF assms(1,3,2)]]) (auto simp: kbd_pending_def line_edited_keyed)
  then show "runs kbdintr s (\<lambda>_ t. line_edited s (kbd_pending s) t \<and> kbd_pending t = [])"
    by (simp add: kbdintr_def runs_def)
qed

text \<open>A console on which \<open>hxx\<close>, two backspaces, \<open>i\<close> and a return wait in the serial port, and
  whose positions are about to wrap around.\<close>

definition typing :: kcons where
  "typing = \<lparr>held = [], ptable = (\<lambda>_. zero_proc), cur = Some 0, initproc = Some 0, nextpid = 2, phys = (\<lambda>_. 0),
     freelist = 0, kend = 0,
     bufs = (\<lambda>_. \<lparr>b_flags = 0, b_dev = 0, b_sector = 0, b_prev = 0, b_next = 0, b_qnext = None, b_data = (\<lambda>_. 0)\<rparr>),
     idequeue = None, havedisk1 = False, taskfile = (\<lambda>_. 0), disk = (\<lambda>_ _ _. 0), ide_err = False,
     panicked = False, cons_locking = True, uart_on = True, uart_out = [], uart_in = [104, 120, 120, 8, 8, 105, 13],
     crt = (\<lambda>_. 0), crt_pos = 0, kbd_in = [], kbd_shift = 0, input_buf = (\<lambda>_. 0), input_r = - 1, input_w = - 1, input_e = - 1\<rparr>"

theorem console_line_editor_witness:
  "runs uartintr typing (\<lambda>_ t. committed t = [104, 105, 10] \<and> editing t = [] \<and> held t = [])"
proof -
  have l: "committed typing = []" "editing typing = []" "uart_pending typing = [104, 120, 120, 8, 8, 105, 13]"
    by (simp_all add: typing_def committed_def editing_def ring_list_def uart_pending_def)
  have "runs uartintr typing (\<lambda>_ t. line_edited typing (uart_pending typing) t \<and> uart_pending t = [])"
    by (rule console_line_editor [THEN conjunct1]) (simp_all add: typing_def input_ok_def)
  then show ?thesis by (rule runs_mono) (simp add: line_edited_def l edit_def Let_def)
qed

end
