(* ===== verification/Tag_Files.thy ===== *)
theory Tag_Files
  imports Tag_Map Fs_Content Console_In
begin

text \<open>
  The tag calls on an open file (\<open>tagFile\<close>, \<open>removeFileTag\<close>, \<open>getFileTag\<close> of \<open>kernel/fs.c\<close>)
  as operations on the finite map of the file's tags. \<open>tst\<close> is the disk state of the file
  system proofs without the console output, which the tag calls write to at every step.
\<close>

section \<open>The disk state, console output aside\<close>

definition tst :: "nat \<Rightarrow> 'a kfile_scheme \<Rightarrow> (nat \<Rightarrow> inode) \<Rightarrow> view \<Rightarrow> (nat \<Rightarrow> (uint \<times> uint) option)
    \<Rightarrow> 'a kfile_scheme \<Rightarrow> bool" where
  "tst i r T V h s \<longleftrightarrow> dst i s s V h \<and> inodes s = T \<and> ftable s = ftable r \<and> \<not> panicked s
     \<and> p_ofile (ptable s i) = p_ofile (ptable r i) \<and> havedisk1 s = havedisk1 r"

lemma tst_dst: "tst i r T V h s \<Longrightarrow> dst i s s V h"
  by (simp add: tst_def)

lemma dst_self: "dst i r s V h \<Longrightarrow> dst i s s V h"
  by (simp add: dst_def)

lemma io_frame_file:
  fixes s t :: "'a kfile_scheme"
  assumes "io_frame i s t"
  shows "ftable t = ftable s" "panicked t = panicked s" "p_ofile (ptable t i) = p_ofile (ptable s i)"
    "havedisk1 t = havedisk1 s" "inodes t = inodes s"
proof -
  have "kide.more t = kide.more s" using assms by (simp add: io_frame_def io_same_def)
  then show "ftable t = ftable s" "panicked t = panicked s" "inodes t = inodes s"
    by (cases s rule: kfile.cases_scheme, cases t rule: kfile.cases_scheme; simp)+
  have "\<exists>c. ptable t i = (ptable s i)\<lparr>p_chan := c\<rparr>" using assms by (auto simp: io_frame_def tab_rel_def dest: spec [of _ i])
  then show "p_ofile (ptable t i) = p_ofile (ptable s i)" by auto
  show "havedisk1 t = havedisk1 s" using assms by (simp add: io_frame_def io_same_def)
qed

lemma tst_step:
  assumes "tst i r T V h s" "dst i (s\<lparr>inodes := T'\<rparr>) t V' h'"
  shows "tst i r T' V' h' t"
  using assms io_frame_file [OF dst_frame [OF assms(2)]] dst_self [OF assms(2)] by (simp add: tst_def)

lemma tst_same:
  assumes "tst i r T V h s" "dst i s t V' h'"
  shows "tst i r T V' h' t"
proof -
  have "s\<lparr>inodes := T\<rparr> = s" using assms(1) by (auto simp: tst_def)
  then show ?thesis using tst_step [OF assms(1), of T t V' h'] assms(2) by simp
qed

lemma tst_cprintf:
  assumes "tst i r T V h s" "cprintf_chars fmt args \<noteq> None" "\<And>t. tst i r T V h t \<Longrightarrow> Q () t"
  shows "runs (cprintf fmt args) s Q"
proof -
  have d: "dst i s s V h" and s: "inodes s = T" "ftable s = ftable r" "\<not> panicked s"
    "p_ofile (ptable s i) = p_ofile (ptable r i)" "havedisk1 s = havedisk1 r" using assms(1) by (simp_all add: tst_def)
  have "runs (cprintf fmt args) s (\<lambda>_. screen s)"
    using dst_ready [OF d] s(3) assms(2) by (intro runs_cprintf) auto
  then show ?thesis
  proof (rule runs_mono)
    fix a :: unit and t assume "screen s t"
    then obtain u m p where t: "t = s\<lparr>uart_out := u, crt := m, crt_pos := p\<rparr>" unfolding screen_def by blast
    have "dst i t t V h"
      using d unfolding t by (simp add: dst_def cache_ok_def io_ready_def ide_inv_def bview_def holds_def synced_def)
    then have "tst i r T V h t" using s by (simp add: tst_def t)
    then show "Q a t" using assms(3) by simp
  qed
qed

lemma tst_bread:
  assumes "tst i r T V h s" "canon (havedisk1 r) dev sec" "(dev, sec) \<notin> ran h" "card (dom h) < NBUF"
    and "\<And>b t. tst i r T V (h(b \<mapsto> (dev, sec))) t \<Longrightarrow> b \<notin> dom h \<Longrightarrow> Q b t"
  shows "runs (bread dev sec) s Q"
  using assms(1-4) tst_same [OF assms(1)] assms(5)
  by (intro runs_bread [OF tst_dst [OF assms(1)]]) (auto simp: tst_def)

lemma tst_give_back:
  assumes "tst i r T V (h(b \<mapsto> a)) s" "b \<notin> dom h" "\<And>t. tst i r T V h t \<Longrightarrow> Q () t"
  shows "runs (brelse b) s Q"
  by (rule runs_give_back [OF tst_dst [OF assms(1)] assms(2)], rule assms(3), rule tst_same [OF assms(1)])

lemma tst_write_release:
  assumes "tst i r T V (h(b \<mapsto> a)) s" "b \<notin> dom h" "local f"
    and "\<And>t. tst i r T (V(a := sect (f (V a)))) h t \<Longrightarrow> runs m t Q"
  shows "runs (kseq (upd_data b f) (kseq (bwrite b) (kseq (brelse b) m))) s Q"
  by (rule runs_write_release_then [OF tst_dst [OF assms(1)] assms(2,3)], rule assms(4), rule tst_same [OF assms(1)])

lemma tst_get_data:
  assumes "tst i r T V (h(b \<mapsto> a)) s" "\<And>d. sect d = V a \<Longrightarrow> Q d s"
  shows "runs (get_data b) s Q"
  by (rule runs_get_data [OF tst_dst [OF assms(1)]]) (simp, rule assms(2))

lemma tst_sect: "tst i r T V h s \<Longrightarrow> sect (V a) = V a"
  using tst_dst dst_sect by blast

lemma tst_iunlock:
  assumes "tst i r T V h s" "i_flags (T ip) AND I_BUSY \<noteq> 0" "i_ref (T ip) \<ge> 1"
    and "\<And>t. tst i r (T(ip := (T ip)\<lparr>i_flags := i_flags (T ip) AND NOT I_BUSY\<rparr>)) V h t \<Longrightarrow> Q () t"
  shows "runs (iunlock ip) s Q"
proof -
  have T: "inodes s = T" using assms(1) by (simp add: tst_def)
  show ?thesis
    by (rule runs_iunlock [OF tst_dst [OF assms(1)] fun_cong [OF T] assms(2,3)], rule assms(4),
        rule tst_step [OF assms(1)]) (simp only: T)
qed

text \<open>An inode that is loaded and not locked.\<close>

lemma tst_ilock:
  assumes "tst i r T V h s" "i_flags (T ip) AND I_BUSY = 0" "i_flags (T ip) AND I_VALID \<noteq> 0" "i_ref (T ip) \<ge> 1"
    and "\<And>t. tst i r (T(ip := (T ip)\<lparr>i_flags := i_flags (T ip) OR I_BUSY\<rparr>)) V h t \<Longrightarrow> Q () t"
  shows "runs (ilock ip) s Q"
proof -
  have T: "inodes s = T" using assms(1) by (simp add: tst_def)
  have l: "locked V (T ip) = (T ip)\<lparr>i_flags := i_flags (T ip) OR I_BUSY\<rparr>"
    using assms(3) by (simp add: locked_def Let_def valid_or_busy)
  show ?thesis
    by (rule runs_ilock [OF tst_dst [OF assms(1)] fun_cong [OF T] assms(4,2)], use assms(3) in simp, use assms(3) in simp,
        rule assms(5), rule tst_step [OF assms(1)]) (simp only: T l)
qed

lemma tst_kget: "tst i r T V h s \<Longrightarrow> Q (g T) s \<Longrightarrow> runs (kget (\<lambda>s. g (inodes s))) s Q"
  by (rule runs_kget) (simp add: tst_def)

lemma tst_upd_inode:
  assumes "tst i r T V h s" "\<And>t. tst i r (T(ip := f (T ip))) V h t \<Longrightarrow> Q () t"
  shows "runs (upd_inode ip f) s Q"
proof -
  have T: "inodes s = T" using assms(1) by (simp add: tst_def)
  show ?thesis
    by (rule runs_upd_inode [OF tst_dst [OF assms(1)]], rule assms(2), rule tst_step [OF assms(1)]) (simp add: T)
qed

section \<open>The tags of a file\<close>

definition file_tags :: "view \<Rightarrow> inode \<Rightarrow> uchar list \<rightharpoonup> uchar list" where
  "file_tags V p = (if i_tags p = 0 then Map.empty else tag_map (V (i_dev p, i_tags p)))"

definition tags_wf :: "view \<Rightarrow> inode \<Rightarrow> bool" where
  "tags_wf V p \<longleftrightarrow> i_tags p \<noteq> 0 \<longrightarrow> data_blk V (i_dev p) (i_tags p) \<and> used V (i_dev p) (unat (i_tags p))
     \<and> tags_ok (V (i_dev p, i_tags p))"

text \<open>Nothing changes but block \<open>a\<close> and blocks of the free map, in which bits are only set.\<close>

definition keeps :: "view \<Rightarrow> view \<Rightarrow> uint \<Rightarrow> uint \<Rightarrow> bool" where
  "keeps V V' dev a \<longleftrightarrow> (\<forall>x. x \<noteq> (dev, a) \<and> \<not> (fst x = dev \<and> map_start V dev \<le> unat (snd x) \<and> unat (snd x) < map_end V dev)
       \<longrightarrow> V' x = V x)
     \<and> (\<forall>m<fs_size V dev. used V dev m \<longrightarrow> used V' dev m)"

lemma keeps_refl: "keeps V V dev a"
  by (simp add: keeps_def)

lemma keeps_write:
  assumes "keeps V V' dev a" "fs_sb V' dev = fs_sb V dev" "disk_ok have1 V' dev" "data_blk V' dev a" "used V' dev (unat a)"
  shows "keeps V (V'((dev, a) := d)) dev a"
  using assms data_write(2) [OF assms(3-5)] layout_cong [OF assms(2)] by (simp add: keeps_def)

text \<open>A file has got block \<open>a\<close> for its tags \<open>m\<close>: it had it before, or it was free and zero.\<close>

definition has_block :: "bool \<Rightarrow> view \<Rightarrow> inode \<Rightarrow> view \<Rightarrow> uint \<Rightarrow> bool" where
  "has_block have1 V p V' a \<longleftrightarrow> disk_ok have1 V' (i_dev p) \<and> data_blk V' (i_dev p) a \<and> used V' (i_dev p) (unat a)
     \<and> tags_ok (V' (i_dev p, a)) \<and> tag_map (V' (i_dev p, a)) = file_tags V p \<and> keeps V V' (i_dev p) a
     \<and> fs_sb V' (i_dev p) = fs_sb V (i_dev p) \<and> (i_tags p = 0 \<longrightarrow> \<not> used V (i_dev p) (unat a))
     \<and> (i_tags p \<noteq> 0 \<longrightarrow> a = i_tags p)"

lemma has_block_old:
  "disk_ok have1 V (i_dev p) \<Longrightarrow> tags_wf V p \<Longrightarrow> i_tags p \<noteq> 0 \<Longrightarrow> has_block have1 V p V (i_tags p)"
  by (simp add: has_block_def tags_wf_def file_tags_def keeps_refl)

lemma has_block_new:
  assumes ok: "disk_ok have1 V (i_dev p)" and z: "i_tags p = 0" and n: "first_free V (i_dev p) n" "n < fs_size V (i_dev p)"
  shows "has_block have1 V p (set_used V (i_dev p) n) (of_nat n)"
proof -
  let ?dev = "i_dev p" and ?V = "set_used V (i_dev p) n"
  note f = set_used_facts [OF ok n] and g = disk_ok_geometry [OF ok]
  have sc: "scanned V ?dev n" using n(1) by (simp add: first_free_def)
  have mb: "unat (of_nat (map_block V ?dev n) :: uint) = map_block V ?dev n"
    using geometry_small [OF g geometry_map [OF g sc]] by (simp add: unat_of_nat_small)
  have "keeps V ?V ?dev (of_nat n)"
    unfolding keeps_def
  proof (intro conjI allI impI)
    fix x :: "uint \<times> uint"
    assume x: "x \<noteq> (?dev, of_nat n) \<and> \<not> (fst x = ?dev \<and> map_start V ?dev \<le> unat (snd x) \<and> unat (snd x) < map_end V ?dev)"
    have "x \<noteq> (?dev, of_nat (map_block V ?dev n))"
    proof
      assume "x = (?dev, of_nat (map_block V ?dev n))"
      then have "unat (snd x) = map_block V ?dev n" "fst x = ?dev" using mb by simp_all
      then show False using x map_block_end [OF sc] by (simp add: map_block_def)
    qed
    then show "?V x = V x" by (rule set_used_other)
  qed (use f(6) in blast)
  moreover have "?V (?dev, of_nat n) = (\<lambda>_. 0)" using f(1,3,5) by simp
  moreover have "used ?V ?dev n" "\<not> used V ?dev n" using f(6) [OF n(2)] n(1) by (simp_all add: first_free_def)
  ultimately show ?thesis
    using f tags_ok_zero z layout_cong [OF f(4)] by (simp add: has_block_def file_tags_def data_blk_def)
qed

lemma tag_block_runs:
  assumes s: "tst i r T V Map.empty s" and p: "p = T ip" and ok: "disk_ok (havedisk1 r) V (i_dev p)" "tags_wf V p"
    and free: "i_tags p = 0 \<Longrightarrow> nfree V (i_dev p) > 0"
    and Q: "\<And>b t V' a. has_block (havedisk1 r) V p V' a
      \<Longrightarrow> tst i r (T(ip := p\<lparr>i_tags := a\<rparr>)) V' (Map.empty(b \<mapsto> (i_dev p, a))) t \<Longrightarrow> Q b t"
  shows "runs (tag_block ip msg) s Q"
proof -
  have read: "runs (kbind (kget (\<lambda>s. i_tags (inodes s ip))) (\<lambda>a. bread (i_dev p) a)) t Q"
    if "has_block (havedisk1 r) V p V' a" "tst i r (T(ip := p\<lparr>i_tags := a\<rparr>)) V' Map.empty t" for V' a t
  proof (rule runs_kbind, rule tst_kget [OF that(2)])
    have "canon (havedisk1 r) (i_dev p) a"
      using that(1) by (auto simp: has_block_def intro!: data_blk_canon disk_ok_geometry)
    then show "runs (bread (i_dev p) (i_tags ((T(ip := p\<lparr>i_tags := a\<rparr>)) ip))) t Q"
      using Q [OF that(1)] by (auto intro!: tst_bread [OF that(2)])
  qed
  show ?thesis
    unfolding tag_block_def
  proof (rule runs_kbind, rule tst_kget [OF s], fold p, rule runs_kseq, cases "i_tags p = 0")
    case False
    have "T(ip := p\<lparr>i_tags := i_tags p\<rparr>) = T" using p by auto
    then have "runs (kbind (kget (\<lambda>s. i_tags (inodes s ip))) (\<lambda>a. bread (i_dev p) a)) s Q"
      using s by (intro read [OF has_block_old [OF ok False]]) simp
    then show "runs (kwhen (i_tags p = 0) (kseq (kwhen msg (cprintf (''allocating since first time'' @ NL) []))
        (kbind (balloc (i_dev p)) (\<lambda>a. upd_inode ip (\<lambda>p. p\<lparr>i_tags := a\<rparr>))))) s
      (\<lambda>_ t. runs (kbind (kget (\<lambda>s. i_tags (inodes s ip))) (\<lambda>a. bread (i_dev p) a)) t Q)"
      using False by (intro runs_kwhen) simp_all
  next
    case True
    obtain n where n: "first_free V (i_dev p) n" "n < fs_size V (i_dev p)"
      using first_free_exists [OF free [OF True]] by blast
    note b = has_block_new [OF ok(1) True n]
    have al: "runs (kbind (balloc (i_dev p)) (\<lambda>a. upd_inode ip (\<lambda>p. p\<lparr>i_tags := a\<rparr>))) t
        (\<lambda>_ t. runs (kbind (kget (\<lambda>s. i_tags (inodes s ip))) (\<lambda>a. bread (i_dev p) a)) t Q)"
      if t: "tst i r T V Map.empty t" for t
    proof (rule runs_kbind, rule runs_balloc [OF _ _ n(1) tst_dst [OF t]])
      show "geometry (havedisk1 t) V (i_dev p)" using t disk_ok_geometry [OF ok(1)] by (simp add: tst_def)
      show "meta_free Map.empty V (i_dev p)" by simp
      fix u assume "dst i t u (set_used V (i_dev p) n) Map.empty"
      then have u: "tst i r T (set_used V (i_dev p) n) Map.empty u" by (rule tst_same [OF t])
      show "runs (upd_inode ip (\<lambda>p. p\<lparr>i_tags := of_nat n\<rparr>)) u
        (\<lambda>_ t. runs (kbind (kget (\<lambda>s. i_tags (inodes s ip))) (\<lambda>a. bread (i_dev p) a)) t Q)"
        by (rule tst_upd_inode [OF u], rule read [OF b]) (simp add: p)
    qed
    show "runs (kwhen (i_tags p = 0) (kseq (kwhen msg (cprintf (''allocating since first time'' @ NL) []))
        (kbind (balloc (i_dev p)) (\<lambda>a. upd_inode ip (\<lambda>p. p\<lparr>i_tags := a\<rparr>))))) s
      (\<lambda>_ t. runs (kbind (kget (\<lambda>s. i_tags (inodes s ip))) (\<lambda>a. bread (i_dev p) a)) t Q)"
      using True by (auto intro!: runs_kwhen runs_kseq al s tst_cprintf [OF s])
  qed
qed

lemma tst_searchKey:
  assumes s: "tst i r T V h s" and d: "sect d = V a" and k: "valid_key k" and Q: "\<And>t. tst i r T V h t \<Longrightarrow> Q (key_pos k (V a)) t"
  shows "runs (searchKey k d) s Q"
proof -
  have "key_pos k d = key_pos k (V a)" using tag_cong(4) [OF _ k, of d "V a"] d tst_sect [OF s] by simp
  then show ?thesis
    using Q s unfolding searchKey_def by (cases "key_pos k (V a)") (auto intro!: runs_kseq runs_kret tst_cprintf [OF s])
qed

lemma local_new_slot: "local (new_slot k v n i)" "local (new_value v n i)" "local (\<lambda>d. memset d i 0 28)"
  unfolding new_slot_def new_value_def
  by (rule localI, simp add: memmove_obj_at memset_at)+

lemma tag_write_runs:
  assumes s: "tst i r T V (Map.empty(b \<mapsto> (dev, a))) s" and p: "i_flags (T ip) AND I_BUSY \<noteq> 0" "i_ref (T ip) \<ge> 1"
    and ok: "tags_ok (V (dev, a))" and k: "valid_key k" and n: "n \<le> 18" and m: "m = tag_map (V (dev, a))"
    and Q: "\<And>res d t. (if k \<in> dom m \<or> card (dom m) < 16 then res = 1 \<and> tags_ok d \<and> tag_map d = m(k \<mapsto> padded v n)
        else res = - 1 \<and> tags_ok d \<and> tag_map d = m)
      \<Longrightarrow> tst i r (T(ip := (T ip)\<lparr>i_flags := i_flags (T ip) AND NOT I_BUSY\<rparr>)) (V((dev, a) := d)) Map.empty t \<Longrightarrow> Q res t"
  shows "runs (tag_write ip k v n b) s Q"
proof -
  let ?V = "V (dev, a)"
  have dom: "k \<in> dom m \<longleftrightarrow> key_pos k ?V \<noteq> None" using k by (auto simp: m tag_map_def)
  have upd: "runs (kseq (upd_data b f) (kseq (bwrite b) (kseq (brelse b) (kseq (iunlock ip) (kret 1))))) t Q"
    if t: "tst i r T V (Map.empty(b \<mapsto> (dev, a))) t" and f: "local f"
      "tags_ok (f ?V)" "tag_map (f ?V) = m(k \<mapsto> padded v n)" "k \<in> dom m \<or> card (dom m) < 16" for f t
  proof (rule tst_write_release [OF t _ f(1)], simp, rule runs_kseq)
    fix u assume u: "tst i r T (V((dev, a) := sect (f ?V))) Map.empty u"
    show "runs (iunlock ip) u (\<lambda>_ t. runs (kret 1) t Q)"
      by (rule tst_iunlock [OF u p], rule runs_kret, rule Q)
        (use f tag_cong [of "sect (f ?V)" "f ?V"] in auto)
  qed
  have none: "runs (kseq (brelse b) (kseq (iunlock ip) (kseq (cprintf (''no more space'' @ NL) []) (kret (- 1))))) t Q"
    if t: "tst i r T V (Map.empty(b \<mapsto> (dev, a))) t" and "\<not> (k \<in> dom m \<or> card (dom m) < 16)" for t
    apply (rule runs_kseq, rule tst_give_back [OF t], simp, rule runs_kseq, erule tst_iunlock [where T = T and ip = ip, OF _ p], rule runs_kseq)
    apply (erule tst_cprintf, simp, rule runs_kret, rule Q [of _ "?V"])
    using that ok m by simp_all
  show ?thesis
    unfolding tag_write_def
  proof (rule runs_kbind, rule tst_get_data [OF s], rule runs_kbind, rule tst_searchKey [OF s _ k], assumption)
    fix d t assume d: "sect d = ?V" and t: "tst i r T V (Map.empty(b \<mapsto> (dev, a))) t"
    have end_pos: "searchEnd d = searchEnd ?V" using tag_cong(3) [of d "?V"] d tst_sect [OF s] by simp
    have full: "searchEnd ?V = None \<longleftrightarrow> \<not> card (dom m) < 16"
    proof -
      have "card (dom m) \<le> 16" using tag_count [OF ok] card_mono [OF card_slots(2)] card_slots(1)
        by (metis (no_types, lifting) m mem_Collect_eq subsetI)
      then show ?thesis using searchEnd_None [OF ok] m by auto
    qed
    show "runs (case key_pos k ?V of None \<Rightarrow> (case searchEnd d of
          None \<Rightarrow> kseq (brelse b) (kseq (iunlock ip) (kseq (cprintf (''no more space'' @ NL) []) (kret (- 1))))
        | Some i \<Rightarrow> kseq (cprintf (''endPosition for creating new: %x'' @ NL) [VInt (of_nat i)])
            (kseq (upd_data b (new_slot k v n i)) (kseq (bwrite b) (kseq (brelse b) (kseq (iunlock ip) (kret 1))))))
      | Some i \<Rightarrow> kseq (cprintf (''keyPosition for updating: %x'' @ NL) [VInt (case searchEnd d of Some e \<Rightarrow> of_nat e | None \<Rightarrow> - 1)])
            (kseq (upd_data b (new_value v n i)) (kseq (bwrite b) (kseq (brelse b) (kseq (iunlock ip) (kret 1)))))) t Q"
    proof (cases "key_pos k ?V")
      case (Some j)
      have "runs (kseq (upd_data b (new_value v n j)) (kseq (bwrite b) (kseq (brelse b) (kseq (iunlock ip) (kret 1))))) u Q"
        if "tst i r T V (Map.empty(b \<mapsto> (dev, a))) u" for u
        using new_value_map [OF ok k Some n, of v] dom m Some by (intro upd [OF that]) (auto intro: local_new_slot)
      then show ?thesis using Some by (auto intro!: runs_kseq [where m = "cprintf _ _"] tst_cprintf [OF t])
    next
      case None
      show ?thesis
      proof (cases "searchEnd ?V")
        case (Some j)
        have "runs (kseq (upd_data b (new_slot k v n j)) (kseq (bwrite b) (kseq (brelse b) (kseq (iunlock ip) (kret 1))))) u Q"
          if "tst i r T V (Map.empty(b \<mapsto> (dev, a))) u" for u
          using new_slot_map [OF ok Some k None n, of v] full m Some by (intro upd [OF that]) (auto intro: local_new_slot)
        then show ?thesis using None Some by (auto simp: end_pos intro!: runs_kseq [where m = "cprintf _ _"] tst_cprintf [OF t])
      qed (use none [OF t] None dom full in \<open>simp add: end_pos\<close>)
    qed
  qed
qed

section \<open>The calls\<close>

text \<open>
  Descriptor \<open>fd\<close> of process \<open>i\<close> is a writable file on inode slot \<open>ip\<close>; the inode is loaded, not
  locked, and has its tags in order.
\<close>

definition tag_open :: "nat \<Rightarrow> 'a kfile_scheme \<Rightarrow> int \<Rightarrow> nat \<Rightarrow> bool" where
  "tag_open i s fd ip \<longleftrightarrow> 0 \<le> fd \<and> fd < int NOFILE \<and> (\<exists>f. p_ofile (ptable s i) (nat fd) = Some f
     \<and> f_type (ftable s f) = FD_INODE \<and> f_writable (ftable s f) \<and> f_ip (ftable s f) = Some ip)"

definition inode_ready :: "bool \<Rightarrow> view \<Rightarrow> inode \<Rightarrow> bool" where
  "inode_ready have1 V p \<longleftrightarrow> i_ref p \<ge> 1 \<and> i_flags p AND I_BUSY = 0 \<and> i_flags p AND I_VALID \<noteq> 0
     \<and> disk_ok have1 V (i_dev p) \<and> tags_wf V p"

definition tag_ready :: "nat \<Rightarrow> 'a kfile_scheme \<Rightarrow> int \<Rightarrow> nat \<Rightarrow> bool" where
  "tag_ready i s fd ip \<longleftrightarrow> cache_ok i s \<and> holds s = Map.empty \<and> \<not> panicked s \<and> tag_open i s fd ip
     \<and> inode_ready (havedisk1 s) (bview s) (inodes s ip)"

lemma ready_tst: "tag_ready i s fd ip \<Longrightarrow> tst i s (inodes s) (bview s) Map.empty s"
  using dst_start [of i s] by (simp add: tag_ready_def tst_def)

lemma ready_file: "tag_ready i s fd ip \<Longrightarrow> tag_file fd f_writable s = Done (TagInode ip) s"
  using dst_ready [OF tst_dst [OF ready_tst, of i s fd ip]]
  by (auto simp: tag_ready_def tag_open_def tag_file_def kdefs cur_proc_def)

lemma ready_bind: "tag_ready i s fd ip \<Longrightarrow> runs (f (TagInode ip)) s Q \<Longrightarrow> runs (kbind (tag_file fd f_writable) f) s Q"
  by (simp add: runs_def kbind_def ready_file)

lemma tst_ready:
  assumes "tst i s T V Map.empty t" "tag_ready i s fd ip" "inode_ready (havedisk1 s) V (T ip)"
  shows "tag_ready i t fd ip" "bview t = V" "inodes t = T"
  using assms by (auto simp: tst_def dst_def tag_ready_def tag_open_def)

lemma unlock_lock: "f AND I_BUSY = 0 \<Longrightarrow> (f OR I_BUSY) AND NOT I_BUSY = (f :: uint)"
  by (rule bit_word_eqI) (auto simp: bit_simps flag_simps bit_flag_iff intro: gr0I)

lemma busy_or: "(f OR I_BUSY) AND I_BUSY \<noteq> (0 :: uint)"
  by (simp add: flag_simps)

text \<open>What a change of the tags leaves as it was.\<close>

definition only_tags :: "'a kfile_scheme \<Rightarrow> nat \<Rightarrow> 'a kfile_scheme \<Rightarrow> bool" where
  "only_tags s ip t \<longleftrightarrow> (let p = inodes s ip; a = i_tags (inodes t ip) in
     inodes t = (inodes s)(ip := p\<lparr>i_tags := a\<rparr>) \<and> keeps (bview s) (bview t) (i_dev p) a
     \<and> (a \<noteq> i_tags p \<longrightarrow> i_tags p = 0 \<and> \<not> used (bview s) (i_dev p) (unat a)))"

lemma tags_changed:
  assumes s: "tag_ready i s fd ip" and p: "p = inodes s ip" and hb: "has_block (havedisk1 s) (bview s) p V' a"
    and d: "tags_ok d" and t: "tst i s ((inodes s)(ip := p\<lparr>i_tags := a\<rparr>)) (V'((i_dev p, a) := d)) Map.empty t"
  shows "tag_ready i t fd ip \<and> only_tags s ip t \<and> file_tags (bview t) (inodes t ip) = tag_map d"
proof -
  let ?W = "V'((i_dev p, a) := d)" and ?V = "bview s"
  have h: "disk_ok (havedisk1 s) V' (i_dev p)" "data_blk V' (i_dev p) a" "used V' (i_dev p) (unat a)"
    "keeps ?V V' (i_dev p) a" "fs_sb V' (i_dev p) = fs_sb ?V (i_dev p)"
    "i_tags p = 0 \<longrightarrow> \<not> used ?V (i_dev p) (unat a)" "i_tags p \<noteq> 0 \<longrightarrow> a = i_tags p"
    using hb by (simp_all add: has_block_def)
  note w = data_write [OF h(1-3), where d = d]
  have a0: "a \<noteq> 0" using data_blk_nonzero [OF h(2)] .
  have used: "used ?W (i_dev p) (unat a)" using w(2) [of "unat a"] h(2,3) by (simp add: data_blk_def)
  have "data_blk ?W (i_dev p) a" using h(2) layout_cong [OF w(1)] by (simp add: data_blk_def)
  then have ir: "inode_ready (havedisk1 s) ?W (((inodes s)(ip := p\<lparr>i_tags := a\<rparr>)) ip)"
    using s w(3) d used by (simp add: inode_ready_def tags_wf_def tag_ready_def p)
  note r = tst_ready [OF t s ir]
  have "only_tags s ip t"
    using h(6,7) keeps_write [OF h(4,5,1-3), of d] unfolding only_tags_def Let_def r(2,3) p [symmetric] by auto
  moreover have "file_tags (bview t) (inodes t ip) = tag_map d" using a0 by (simp add: file_tags_def r(2,3))
  ultimately show ?thesis using r(1) by simp
qed

lemma tags_same:
  assumes s: "tag_ready i s fd ip" and t: "tst i s (inodes s) (bview s) Map.empty t"
  shows "tag_ready i t fd ip \<and> only_tags s ip t \<and> file_tags (bview t) (inodes t ip) = file_tags (bview s) (inodes s ip)"
proof -
  have ir: "inode_ready (havedisk1 s) (bview s) (inodes s ip)" using s by (simp add: tag_ready_def)
  note r = tst_ready [OF t s ir]
  show ?thesis using r(1) unfolding only_tags_def Let_def r(2,3) by (simp add: keeps_refl)
qed

text \<open>The inode of an open file is locked, and the lock is given back at the end.\<close>

lemma ready_lock:
  assumes s: "tag_ready i s fd ip" and p: "p = inodes s ip"
    and Q: "\<And>t. tst i s ((inodes s)(ip := p\<lparr>i_flags := i_flags p OR I_BUSY\<rparr>)) (bview s) Map.empty t \<Longrightarrow> runs m t Q"
  shows "runs (kseq (ilock ip) m) s Q"
  by (rule runs_kseq, rule tst_ilock [OF ready_tst [OF s]])
    (use s Q in \<open>simp_all add: tag_ready_def inode_ready_def p\<close>)

lemma ready_unlock:
  assumes s: "tag_ready i s fd ip" and p: "p = inodes s ip"
    and t: "tst i s ((inodes s)(ip := p\<lparr>i_flags := i_flags p OR I_BUSY, i_tags := a\<rparr>)) V h t"
    and Q: "\<And>t. tst i s ((inodes s)(ip := p\<lparr>i_tags := a\<rparr>)) V h t \<Longrightarrow> Q () t"
  shows "runs (iunlock ip) t Q"
proof (rule tst_iunlock [OF t])
  have f: "i_flags p AND I_BUSY = 0" "i_ref p \<ge> 1" using s by (simp_all add: tag_ready_def inode_ready_def p)
  let ?T = "(inodes s)(ip := p\<lparr>i_flags := i_flags p OR I_BUSY, i_tags := a\<rparr>)"
  show "i_flags (?T ip) AND I_BUSY \<noteq> 0" "i_ref (?T ip) \<ge> 1" using f busy_or by simp_all
  fix u assume "tst i s (?T(ip := (?T ip)\<lparr>i_flags := i_flags (?T ip) AND NOT I_BUSY\<rparr>)) V h u"
  then have "tst i s ((inodes s)(ip := p\<lparr>i_tags := a\<rparr>)) V h u" using unlock_lock [OF f(1)] by simp
  then show "Q () u" by (rule Q)
qed

lemma valid_not_bad: "valid_key k \<Longrightarrow> \<not> bad_key (Some k)"
  by (auto simp: valid_key_def bad_key_def)

lemma tagFile_runs:
  assumes s: "tag_ready i s fd ip" and k: "valid_key k" and n: "0 \<le> n" "n \<le> 18"
    and free: "i_tags (inodes s ip) = 0 \<Longrightarrow> nfree (bview s) (i_dev (inodes s ip)) > 0"
    and m: "m = file_tags (bview s) (inodes s ip)"
  shows "runs (tagFile fd (Some k) (Some v) n) s (\<lambda>res t. tag_ready i t fd ip \<and> only_tags s ip t
    \<and> (if k \<in> dom m \<or> card (dom m) < 16 then res = 1 \<and> file_tags (bview t) (inodes t ip) = m(k \<mapsto> padded v (nat n))
       else res = - 1 \<and> file_tags (bview t) (inodes t ip) = m))"
    (is "runs _ s ?Q")
proof -
  define p where "p = inodes s ip"
  let ?q = "p\<lparr>i_flags := i_flags p OR I_BUSY\<rparr>" and ?V = "bview s" and ?T = "inodes s"
  have rd: "i_flags p AND I_BUSY = 0" "i_ref p \<ge> 1" "disk_ok (havedisk1 s) ?V (i_dev p)" "tags_wf ?V ?q"
    using s by (simp_all add: tag_ready_def inode_ready_def p_def tags_wf_def)
  have blk: "runs (kbind (tag_block ip True) (\<lambda>b. tag_write ip k v (nat n) b)) t ?Q"
    if t: "tst i s (?T(ip := ?q)) ?V Map.empty t" for t
  proof (rule runs_kbind, rule tag_block_runs [OF t, of ?q ip])
    fix b u V' a
    assume "has_block (havedisk1 s) ?V ?q V' a"
      and u: "tst i s ((?T(ip := ?q))(ip := ?q\<lparr>i_tags := a\<rparr>)) V' (Map.empty(b \<mapsto> (i_dev ?q, a))) u"
    then have hb: "has_block (havedisk1 s) ?V p V' a" by (simp add: has_block_def file_tags_def)
    then have tg: "tags_ok (V' (i_dev p, a))" "m = tag_map (V' (i_dev p, a))" using m by (simp_all add: has_block_def p_def)
    show "runs (tag_write ip k v (nat n) b) u ?Q"
    proof (rule tag_write_runs [where dev = "i_dev p" and a = a and T = "?T(ip := ?q\<lparr>i_tags := a\<rparr>)" and V = V' and m = m])
      fix res :: int and d w
      assume res: "if k \<in> dom m \<or> card (dom m) < 16 then res = 1 \<and> tags_ok d \<and> tag_map d = m(k \<mapsto> padded v (nat n))
          else res = - 1 \<and> tags_ok d \<and> tag_map d = m"
        and "tst i s ((?T(ip := ?q\<lparr>i_tags := a\<rparr>))(ip := ((?T(ip := ?q\<lparr>i_tags := a\<rparr>)) ip)
          \<lparr>i_flags := i_flags ((?T(ip := ?q\<lparr>i_tags := a\<rparr>)) ip) AND NOT I_BUSY\<rparr>)) (V'((i_dev p, a) := d)) Map.empty w"
      then have w: "tst i s (?T(ip := p\<lparr>i_tags := a\<rparr>)) (V'((i_dev p, a) := d)) Map.empty w" using unlock_lock [OF rd(1)] by simp
      have "tags_ok d" using res by (simp split: if_splits)
      from tags_changed [OF s p_def hb this w] show "?Q res w" using res by (simp split: if_splits)
    qed (use u rd n k tg busy_or in simp_all)
  qed (use rd free p_def in simp_all)
  have "runs (kseq (ilock ip) (kbind (tag_block ip True) (\<lambda>b. tag_write ip k v (nat n) b))) s ?Q"
    by (rule ready_lock [OF s p_def], rule blk)
  then show ?thesis
    using ready_file [OF s] n valid_not_bad [OF k] by (simp add: tagFile_def runs_def kbind_def [of "tag_file _ _"] not_less)
qed

lemma removeFileTag_runs:
  assumes s: "tag_ready i s fd ip" and k: "valid_key k" and m: "m = file_tags (bview s) (inodes s ip)"
  shows "runs (removeFileTag fd (Some k)) s (\<lambda>res t. tag_ready i t fd ip \<and> only_tags s ip t
    \<and> (if k \<in> dom m then res = 1 \<and> file_tags (bview t) (inodes t ip) = m(k := None)
       else res = - 1 \<and> file_tags (bview t) (inodes t ip) = m))"
    (is "runs _ s ?Q")
proof (cases "i_tags (inodes s ip) = 0")
  case True
  then have "removeFileTag fd (Some k) s = Done (- 1) s"
    using ready_file [OF s] by (simp add: removeFileTag_def kdefs)
  moreover have "m = Map.empty" using True m by (simp add: file_tags_def)
  ultimately show ?thesis using tags_same [OF s ready_tst [OF s]] m by (simp add: runs_def)
next
  case False
  define p where "p = inodes s ip"
  let ?q = "p\<lparr>i_flags := i_flags p OR I_BUSY\<rparr>" and ?V = "bview s" and ?T = "inodes s" and ?a = "(i_dev p, i_tags p)"
  have rd: "disk_ok (havedisk1 s) ?V (i_dev p)" "tags_wf ?V p" "i_tags p \<noteq> 0"
    using s False by (simp_all add: tag_ready_def inode_ready_def p_def)
  have qs: "i_dev ?q = i_dev p" "i_tags ?q = i_tags p" by simp_all
  note hb = has_block_old [OF rd]
  have tg: "tags_ok (?V ?a)" "m = tag_map (?V ?a)" "canon (havedisk1 s) (i_dev p) (i_tags p)"
    using rd m by (auto simp: tags_wf_def file_tags_def p_def intro: data_blk_canon disk_ok_geometry)
  have fin: "runs (iunlock ip) t (\<lambda>_ u. runs (kret res) u ?Q)"
    if t: "tst i s (?T(ip := ?q)) (?V(?a := d)) Map.empty t" and d: "tags_ok d" and
      res: "if k \<in> dom m then res = 1 \<and> tag_map d = m(k := None) else res = - 1 \<and> tag_map d = m" for res d t
    using t d res tags_changed [OF s p_def hb d]
    by (intro ready_unlock [OF s p_def, where a = "i_tags p"]) (auto intro!: runs_kret split: if_splits)
  have found: "runs (case key_pos k (?V ?a) of None \<Rightarrow> kseq (brelse b) (kseq (iunlock ip) (kret (- 1)))
      | Some j \<Rightarrow> kseq (upd_data b (\<lambda>d. memset d j 0 28)) (kseq (bwrite b) (kseq (brelse b) (kseq (iunlock ip) (kret 1))))) t ?Q"
    if t: "tst i s (?T(ip := ?q)) ?V (Map.empty(b \<mapsto> ?a)) t" for b t
  proof (cases "key_pos k (?V ?a)")
    case None
    then have "k \<notin> dom m" by (simp add: tg(2) tag_map_def domIff)
    then have "runs (kseq (brelse b) (kseq (iunlock ip) (kret (- 1)))) t ?Q"
      by (intro runs_kseq, intro tst_give_back [OF t], simp, intro runs_kseq fin [where d = "?V ?a"]) (use tg in simp_all)
    then show ?thesis by (simp only: None option.case)
  next
    case (Some j)
    then have dom: "k \<in> dom m" using k by (auto simp: tg(2) tag_map_def)
    have un: "runs (kseq (iunlock ip) (kret 1)) u ?Q" if u: "tst i s (?T(ip := ?q)) (?V(?a := sect (memset (?V ?a) j 0 28))) Map.empty u" for u
      using remove_map [OF tg(1) k Some] tag_cong [of "sect (memset (?V ?a) j 0 28)" "memset (?V ?a) j 0 28"] dom tg(2)
      by (intro runs_kseq fin [OF u]) simp_all
    have "runs (kseq (upd_data b (\<lambda>d. memset d j 0 28)) (kseq (bwrite b) (kseq (brelse b) (kseq (iunlock ip) (kret 1))))) t ?Q"
      by (rule tst_write_release [OF t _ local_new_slot(3)], simp, rule un)
    then show ?thesis by (simp only: Some option.case)
  qed
  have "runs (kseq (ilock ip) (kbind (kget (\<lambda>s. inodes s ip)) (\<lambda>p. kbind (bread (i_dev p) (i_tags p)) (\<lambda>b.
      kbind (get_data b) (\<lambda>str. kbind (searchKey k str) (\<lambda>kpos. case kpos of
          None \<Rightarrow> kseq (brelse b) (kseq (iunlock ip) (kret (- 1)))
        | Some j \<Rightarrow> kseq (upd_data b (\<lambda>d. memset d j 0 28)) (kseq (bwrite b) (kseq (brelse b) (kseq (iunlock ip) (kret 1)))))))))) s ?Q"
    apply (rule ready_lock [OF s p_def], rule runs_kbind, rule tst_kget, assumption)
    apply (rule runs_kbind, rule tst_bread, assumption)
    subgoal using tg(3) by simp
    apply (simp, simp, rule runs_kbind, rule tst_get_data, assumption)
    apply (rule runs_kbind, rule tst_searchKey [OF _ _ k], assumption, assumption)
    apply (simp only: fun_upd_same qs)
    by (rule found)
  then show ?thesis
    unfolding removeFileTag_def
    apply (intro ready_bind [OF s], simp only: tag_target.case)
    apply (rule runs_kbind, rule runs_kget, subst if_not_P)
    using False valid_not_bad [OF k] by simp_all
qed

section \<open>Reading a tag\<close>

lemma tag_len_spec:
  "j \<le> tag_len f len j c \<and> tag_len f len j c \<le> j + c
     \<and> (\<forall>x. j \<le> x \<and> x < tag_len f len j c \<longrightarrow> int x < len \<or> f x \<noteq> 0)
     \<and> (tag_len f len j c < j + c \<longrightarrow> len \<le> int (tag_len f len j c) \<and> f (tag_len f len j c) = 0)"
proof (induction c arbitrary: j)
  case (Suc c)
  show ?case
  proof (cases "int j < len \<or> f j \<noteq> 0")
    case True
    have "int x < len \<or> f x \<noteq> 0" if "j \<le> x" "x < tag_len f len (j + 1) c" for x
      using Suc [of "j + 1"] that True by (cases "x = j") auto
    then show ?thesis using True Suc [of "j + 1"] by simp
  qed simp
qed simp

text \<open>
  What \<open>getFileTag\<close> delivers of a value \<open>v\<close> for a buffer of \<open>len\<close> bytes: the number of bytes of
  the value, at least as many as the buffer has, and in the buffer those bytes if they fit.
\<close>

definition tag_got :: "uchar list \<Rightarrow> int \<Rightarrow> bytes \<Rightarrow> int \<times> bytes \<Rightarrow> bool" where
  "tag_got v len buf r \<longleftrightarrow> (\<exists>n\<le>18. fst r = int n \<and> (\<forall>j<n. int j < len \<or> v ! j \<noteq> 0)
     \<and> (n < 18 \<longrightarrow> len \<le> int n \<and> v ! n = 0)
     \<and> snd r = (if int n \<le> len then \<lambda>j. if j < n then v ! j else buf j else buf))"

lemma tag_got_read:
  assumes "sect d = e" "j \<in> set slots" "n = tag_len (\<lambda>x. d (j + 10 + x)) len 0 18"
  shows "tag_got (tag_value (e) j) len buf (int n, if int n > len then buf else memmove_obj buf 0 d (j + 10) n)"
proof -
  have at: "d (j + 10 + x) = tag_value (e) j ! x" if "x < 18" for x
  proof -
    have "j + 10 + x < 512" using that slots_bound [OF assms(2)] by linarith
    then have "d (j + 10 + x) = e (j + 10 + x)" using fun_cong [OF assms(1), of "j + 10 + x"] by (simp add: sect_at)
    then show ?thesis using that by (simp add: tag_value_def)
  qed
  have l: "n \<le> 18" "\<forall>x<n. int x < len \<or> d (j + 10 + x) \<noteq> 0" "n < 18 \<longrightarrow> len \<le> int n \<and> d (j + 10 + n) = 0"
    using tag_len_spec [of 0 "\<lambda>x. d (j + 10 + x)" len 18] unfolding assms(3) [symmetric] by auto
  have "int x < len \<or> tag_value (e) j ! x \<noteq> 0" if "x < n" for x using l(1) spec [OF l(2), of x] that at [of x] by simp
  moreover have "n < 18 \<longrightarrow> len \<le> int n \<and> tag_value (e) j ! n = 0" using l(3) at [of n] by simp
  moreover have "memmove_obj buf 0 d (j + 10) n = (\<lambda>x. if x < n then tag_value (e) j ! x else buf x)"
  proof
    fix x
    show "memmove_obj buf 0 d (j + 10) n x = (if x < n then tag_value (e) j ! x else buf x)"
      using l(1) at [of x] by (simp add: memmove_obj_at)
  qed
  ultimately show ?thesis using l(1) unfolding tag_got_def by (intro exI [of _ n]) simp
qed

lemma getFileTag_runs:
  assumes s: "tag_ready i s fd ip" and k: "valid_key k" and m: "m = file_tags (bview s) (inodes s ip)"
  shows "runs (getFileTag fd (Some k) buf len) s (\<lambda>r t. tag_ready i t fd ip \<and> only_tags s ip t
    \<and> file_tags (bview t) (inodes t ip) = m
    \<and> (case m k of None \<Rightarrow> r = (- 1, buf) | Some v \<Rightarrow> tag_got v len buf r))"
    (is "runs _ s ?Q")
proof -
  define p where "p = inodes s ip"
  let ?q = "p\<lparr>i_flags := i_flags p OR I_BUSY\<rparr>" and ?V = "bview s" and ?T = "inodes s" and ?a = "(i_dev p, i_tags p)"
  have rd: "disk_ok (havedisk1 s) ?V (i_dev p)" "tags_wf ?V p" using s by (simp_all add: tag_ready_def inode_ready_def p_def)
  have qs: "i_dev ?q = i_dev p" "i_tags ?q = i_tags p" by simp_all
  have st: "?T(ip := p\<lparr>i_tags := i_tags p\<rparr>) = ?T" by (simp add: p_def)
  have un: "runs (kseq (iunlock ip) (kret r)) t ?Q"
    if t: "tst i s (?T(ip := ?q)) ?V Map.empty t" and r: "case m k of None \<Rightarrow> r = (- 1, buf) | Some v \<Rightarrow> tag_got v len buf r" for r t
  proof (rule runs_kseq, rule ready_unlock [OF s p_def, where a = "i_tags p"])
    show "tst i s (?T(ip := p\<lparr>i_flags := i_flags p OR I_BUSY, i_tags := i_tags p\<rparr>)) ?V Map.empty t" using t by simp
    fix u assume "tst i s (?T(ip := p\<lparr>i_tags := i_tags p\<rparr>)) ?V Map.empty u"
    then have "tst i s ?T ?V Map.empty u" by (simp only: st)
    from tags_same [OF s this] show "runs (kret r) u ?Q" using r m by (intro runs_kret) simp
  qed
  have give: "runs (kseq (brelse b) (kseq (iunlock ip) (kret r))) t ?Q"
    if t: "tst i s (?T(ip := ?q)) ?V (Map.empty(b \<mapsto> ?a)) t"
      and r: "case m k of None \<Rightarrow> r = (- 1, buf) | Some v \<Rightarrow> tag_got v len buf r" for r t b
    by (rule runs_kseq, rule tst_give_back [OF t], simp, rule un [OF _ r])
  show ?thesis
    unfolding getFileTag_def
    apply (intro ready_bind [OF s], simp only: tag_target.case, subst if_not_P, rule valid_not_bad [OF k])
    apply (rule ready_lock [OF s p_def], rule runs_kbind, rule tst_kget, assumption)
    apply (simp only: fun_upd_same qs, rule runs_if)
    subgoal premises z for t
    proof -
      have "m k = None" using z m by (simp add: file_tags_def p_def)
      then show ?thesis by (intro runs_kseq [where m = "cprintf _ _"] tst_cprintf [OF z(1)] un) simp_all
    qed
    apply (rule runs_kbind, rule tst_bread, assumption)
    subgoal using rd by (auto simp: tags_wf_def intro: data_blk_canon disk_ok_geometry)
    apply (simp, simp, rule runs_kbind, rule tst_get_data, assumption)
    apply (simp only: option.sel, rule runs_kbind, rule tst_searchKey [OF _ _ k], assumption, assumption)
    apply (rule runs_kseq, rule tst_cprintf, assumption, simp)
    subgoal premises u for t0 b t1 d t2 t
    proof (cases "key_pos k (?V ?a)")
      case None
      then have "m k = None" using u m by (simp add: file_tags_def p_def tag_map_def)
      then show ?thesis
        unfolding None option.case
        by (intro runs_kseq [where m = "cprintf _ _"] tst_cprintf [OF u(7)] give) simp_all
    next
      case (Some j)
      have "tags_ok (?V ?a)" using rd(2) u(2) by (simp add: tags_wf_def)
      then have j: "j \<in> set slots" "m k = Some (tag_value (?V ?a) j)"
        using Some k u(2) m key_pos_in by (auto simp: file_tags_def p_def tag_map_def)
      note got = tag_got_read [OF u(5) j(1) refl, of len buf]
      show ?thesis
        unfolding Some option.case Let_def
      proof (rule runs_if)
        let ?n = "tag_len (\<lambda>x. d (j + 10 + x)) len 0 18"
        show "runs (kseq (cprintf (''%d'' @ NL) [VInt (of_nat ?n)]) (kseq (cprintf (''error'' @ NL) [])
            (kseq (brelse b) (kseq (iunlock ip) (kret (int ?n, buf)))))) t ?Q" if "int ?n > len"
          apply (rule runs_kseq, rule tst_cprintf [OF u(7)], simp, rule runs_kseq, erule tst_cprintf, simp, erule give)
          using got j(2) that by simp
        show "runs (kseq (cprintf (''position of start: %x'' @ NL) [VInt (of_nat j)]) (kseq (brelse b) (kseq (iunlock ip)
            (kret (int ?n, memmove_obj buf 0 d (j + 10) ?n))))) t ?Q" if "\<not> int ?n > len"
          apply (rule runs_kseq, rule tst_cprintf [OF u(7)], simp, erule give)
          using got j(2) that by simp
      qed
    qed
    done
qed

section \<open>The contract\<close>

lemma tag_calls_refused:
  assumes "tag_ready i s fd ip"
  shows "bad_key key \<or> value = None \<or> n < 0 \<or> n > 18 \<Longrightarrow> tagFile fd key value n s = Done (- 1) s"
    "bad_key key \<Longrightarrow> removeFileTag fd key s = Done (- 1) s"
  using ready_file [OF assms] by (auto simp: tagFile_def removeFileTag_def kdefs split: option.splits)

text \<open>
  C34: The tag calls on an open, writable file are operations on a finite map from keys to values
  of 18 bytes, of at most 16 keys. \<open>tagFile\<close> enters the value, padded with zeros, and returns 1;
  with 16 other keys in the map it returns -1 and changes nothing. \<open>removeFileTag\<close> takes the key
  out, or returns -1 when it is not there. \<open>getFileTag\<close> delivers the value and changes nothing.
  A key that is missing, empty or longer than 9 characters, a missing value and a length that is negative or more than
  18 are refused with -1, and nothing changes.
  The first tag takes a free block of the disk. Nothing else changes: no other inode, no other
  field of the inode, no block of the disk but the file's tag block and the free map, in which
  bits are only set; and the file is again ready for the next call.
\<close>

theorem tag_calls_map:
  assumes "tag_ready i s fd ip" "valid_key k" "m = file_tags (bview s) (inodes s ip)"
  shows "(bad_key key \<or> value = None \<or> n < 0 \<or> n > 18 \<longrightarrow> tagFile fd key value n s = Done (- 1) s)
    \<and> (bad_key key \<longrightarrow> removeFileTag fd key s = Done (- 1) s)
    \<and> (0 \<le> n \<and> n \<le> 18 \<and> (i_tags (inodes s ip) = 0 \<longrightarrow> nfree (bview s) (i_dev (inodes s ip)) > 0) \<longrightarrow>
      runs (tagFile fd (Some k) (Some v) n) s (\<lambda>res t. tag_ready i t fd ip \<and> only_tags s ip t
        \<and> (if k \<in> dom m \<or> card (dom m) < 16 then res = 1 \<and> file_tags (bview t) (inodes t ip) = m(k \<mapsto> padded v (nat n))
           else res = - 1 \<and> file_tags (bview t) (inodes t ip) = m)))
    \<and> runs (removeFileTag fd (Some k)) s (\<lambda>res t. tag_ready i t fd ip \<and> only_tags s ip t
        \<and> (if k \<in> dom m then res = 1 \<and> file_tags (bview t) (inodes t ip) = m(k := None)
           else res = - 1 \<and> file_tags (bview t) (inodes t ip) = m))
    \<and> runs (getFileTag fd (Some k) buf len) s (\<lambda>r t. tag_ready i t fd ip \<and> only_tags s ip t
        \<and> file_tags (bview t) (inodes t ip) = m
        \<and> (case m k of None \<Rightarrow> r = (- 1, buf) | Some w \<Rightarrow> tag_got w len buf r))"
  using tag_calls_refused [OF assms(1)] tagFile_runs [OF assms(1,2) _ _ _ assms(3)] removeFileTag_runs [OF assms]
    getFileTag_runs [OF assms] by blast

text \<open>A machine with one process that has an empty file open as descriptor 3.\<close>

lemma small_open:
  obtains s :: kfile where "tag_ready 0 s 3 2" "i_tags (inodes s 2) = 0" "nfree (bview s) (i_dev (inodes s 2)) > 0"
proof -
  define p where "p = zero_inode\<lparr>i_dev := 1, i_inum := 2, i_type := T_FILE, i_ref := 1, i_flags := 2\<rparr>"
  define f where "f = \<lparr>f_type = FD_INODE, f_ref = 1, f_readable = True, f_writable = True, f_pipe = 0, f_ip = Some 2, f_off = 0\<rparr>"
  define e where "e = \<lparr>panicked = False, cons_locking = True, uart_on = False, uart_out = [],
    uart_in = [], crt = (\<lambda>_. 0), crt_pos = 0, kbd_in = [], kbd_shift = 0, input_buf = (\<lambda>_. 0), input_r = 0, input_w = 0,
    input_e = 0, inodes = (\<lambda>_. p), ftable = (\<lambda>_. f), 
    pipes = (\<lambda>_. \<lparr>pi_data = (\<lambda>_. 0), pi_nread = 0, pi_nwrite = 0, pi_readopen = False, pi_writeopen = False\<rparr>)\<rparr>"
  obtain t :: kfile where t: "cache_ok 0 t" "holds t = Map.empty" "io_frame 0 (boot_disk small_disk e) t"
      "\<forall>dev sec. bview t (dev, sec) = sect (small_disk dev sec)"
    using boot_disk_cached [of small_disk e] by blast
  have tr: "ftable t = (\<lambda>_. f)" "\<not> panicked t" "havedisk1 t" "inodes t = (\<lambda>_. p)"
    using io_frame_file [OF t(3)] by (simp_all add: e_def boot_disk_def)
  let ?s = "t\<lparr>ptable := (ptable t)(0 := (ptable t 0)\<lparr>p_ofile := (\<lambda>_. Some 5)\<rparr>)\<rparr>" and ?V = "bview t"
  have V: "bview ?s = ?V" "holds ?s = Map.empty" using t(2) by (simp_all add: bview_def holds_def fun_eq_iff)
  have c: "cache_ok 0 ?s" using t(1) by (simp add: cache_ok_def io_ready_def ide_inv_def)
  note sf = small_fs [OF t(4)]
  have pf: "i_dev p = 1" "i_tags p = 0" "i_ref p = 1" "i_flags p = 2" by (simp_all add: p_def zero_inode_def)
  have "?V (1, a) = (\<lambda>_. 0)" if "unat a < 64" "\<not> used ?V 1 (unat a)" for a
  proof -
    have "\<not> unat a < 5" using that sf(5) by blast
    then have "a \<noteq> 1" "a \<noteq> 4" by auto
    then show ?thesis using t(4) by (simp add: small_disk_def)
  qed
  then have "disk_ok True ?V 1" using sf(1,3-5) by (simp add: disk_ok_def)
  then have "tag_ready 0 ?s 3 2"
    using c V tr pf by (simp add: tag_ready_def tag_open_def inode_ready_def tags_wf_def f_def)
  moreover have "free_blks ?V 1 = {5..<64}" using sf(1,5) by (auto simp: free_blks_def)
  then have "nfree ?V 1 > 0" by (simp add: nfree_def)
  ultimately show ?thesis using that [of ?s] V tr pf by simp
qed

theorem tag_calls_map_witness:
  "\<exists>s :: kfile. runs (tagFile 3 (Some [107, 101, 121]) (Some (\<lambda>j. of_nat j + 65)) 2) s
     (\<lambda>res t. res = 1 \<and> file_tags (bview t) (inodes t 2) = [[107, 101, 121] \<mapsto> 65 # 66 # replicate 16 0])"
proof -
  obtain s :: kfile where s: "tag_ready 0 s 3 2" "i_tags (inodes s 2) = 0" "nfree (bview s) (i_dev (inodes s 2)) > 0"
    by (rule small_open)
  have m: "Map.empty = file_tags (bview s) (inodes s 2)" using s(2) by (simp add: file_tags_def)
  have k: "valid_key [107, 101, 121]" by (simp add: valid_key_def)
  have "padded (\<lambda>j. of_nat j + 65) 2 = 65 # 66 # replicate 16 0"
    by (simp add: padded_def upt_rec numeral_eq_Suc)
  then show ?thesis
    using tag_calls_map [OF s(1) k m, where n = 2 and v = "\<lambda>j. of_nat j + 65", THEN conjunct2, THEN conjunct2, THEN conjunct1] s(2,3) by (auto elim!: runs_mono)
qed

end
