(* ===== verification/Pipe_Queue.thy ===== *)
theory Pipe_Queue
  imports Ring File Fs_Inode
begin

text \<open>
  Pipes are queues (\<open>kernel/pipe.c\<close>). The ring of theory \<open>Ring\<close> is interpreted on the pipe, and
  \<open>pipewrite\<close> and \<open>piperead\<close> are shown to append to the queue and to take from its front, to
  block exactly when they must and to wake the other side.
\<close>

interpretation pr: ring PIPESIZE pi_data pi_nread pi_nwrite pipe_put "\<lambda>x. snd (pipe_get x)"
  by unfold_locales (simp_all add: pipe_put_def pipe_get_def)

definition pipe_list :: "pipe \<Rightarrow> uchar list" where
  "pipe_list x = ring_list PIPESIZE (pi_data x) (pi_nread x) (pi_nwrite x)"

lemma pipe_list_contents: "pipe_list x = pr.contents x"
  by (simp add: pipe_list_def pr.contents_def)

lemma pipe_full_iff: "pipe_full x \<longleftrightarrow> length (pipe_list x) = PIPESIZE"
  unfolding pipe_full_def pr.full_iff pipe_list_contents ..

lemma pipe_empty_iff: "pipe_empty x \<longleftrightarrow> pipe_list x = []"
  unfolding pipe_empty_def pr.empty_iff pipe_list_contents ..

lemma pipe_put_list: "length (pipe_list x) < PIPESIZE \<Longrightarrow> pipe_list (pipe_put c x) = pipe_list x @ [c]"
  by (simp add: pipe_list_contents pr.contents_put)

lemma pipe_get_list:
  "pipe_list x \<noteq> [] \<Longrightarrow> pipe_list x = fst (pipe_get x) # pipe_list (snd (pipe_get x))"
  unfolding pipe_list_contents using pr.contents_get(1) [of x] by (simp add: pipe_get_def)

lemma pipe_ends [simp]:
  "pi_readopen (pipe_put c x) = pi_readopen x" "pi_writeopen (pipe_put c x) = pi_writeopen x"
  "pi_readopen (snd (pipe_get x)) = pi_readopen x" "pi_writeopen (snd (pipe_get x)) = pi_writeopen x"
  by (simp_all add: pipe_put_def pipe_get_def)

section \<open>Writing\<close>

definition puts :: "bytes \<Rightarrow> nat list \<Rightarrow> pipe \<Rightarrow> pipe" where
  "puts src js x = fold (\<lambda>j. pipe_put (src j)) js x"

lemma puts_list: "length (pipe_list x) + length js \<le> PIPESIZE \<Longrightarrow> pipe_list (puts src js x) = pipe_list x @ map src js"
  by (induction js arbitrary: x) (simp_all add: puts_def pipe_put_list)

lemma puts_open [simp]: "pi_readopen (puts src js x) = pi_readopen x" "pi_writeopen (puts src js x) = pi_writeopen x"
  by (induction js arbitrary: x) (simp_all add: puts_def)

text \<open>The loop writes what fits, and then returns, gives up or sleeps.\<close>

lemma pipewrite_loop_eq:
  fixes s :: "'a kfile_scheme"
  assumes "held s = [pipe_lock p]" "cur s = Some i" "length (pipe_list (pipes s p)) \<le> PIPESIZE" "k \<le> nat n"
    and "m = min k (PIPESIZE - length (pipe_list (pipes s p)))"
    and "y = puts src [nat n - k..<nat n - k + m] (pipes s p)"
  shows "pipewrite_loop p src n k s =
    (if m = k then Done n (s\<lparr>pipes := (pipes s)(p := y), ptable := wake_table (chan_nread p) (ptable s), held := []\<rparr>)
     else if \<not> pi_readopen y \<or> p_killed (ptable s i) then Done (- 1) (s\<lparr>pipes := (pipes s)(p := y), held := []\<rparr>)
     else Sleep (chan_nwrite p) (s\<lparr>pipes := (pipes s)(p := y), held := [L_ptable],
       ptable := (wake_table (chan_nread p) (ptable s))(i :=
         (wake_table (chan_nread p) (ptable s) i)\<lparr>p_chan := Some (chan_nwrite p), p_state := SLEEPING\<rparr>)\<rparr>))"
  using assms
proof (induction k arbitrary: s m)
  case 0
  have "y = pipes s p" using "0.prems"(5,6) by (simp add: puts_def)
  then show ?case using "0.prems" by (simp add: kdefs wakeup_eq release_def fun_upd_idem)
next
  case (Suc k)
  let ?x = "pipes s p" and ?a = "nat n - Suc k"
  show ?case
  proof (cases "pipe_full ?x")
    case True
    then have m: "m = 0" using Suc.prems(5) by (simp add: pipe_full_iff)
    then have y: "y = ?x" using Suc.prems(6) by (simp add: puts_def)
    have "kseq (wakeup (chan_nread p)) (sleep (chan_nwrite p) (pipe_lock p)) s = (Sleep (chan_nwrite p)
        (s\<lparr>pipes := (pipes s)(p := y), held := [L_ptable], ptable := (wake_table (chan_nread p) (ptable s))(i :=
         (wake_table (chan_nread p) (ptable s) i)\<lparr>p_chan := Some (chan_nwrite p), p_state := SLEEPING\<rparr>)\<rparr>) :: (int, 'a kfile_scheme) outcome)"
      using Suc.prems(1,2) by (simp add: kseq_def kbind_def wakeup_eq y fun_upd_idem sleep_eq [of _ i])
    then show ?thesis
      using True m y Suc.prems(1,2) by (simp add: kbind_def kget_def cur_proc_def) (simp add: kdefs release_def fun_upd_idem)
  next
    case False
    then have lt: "length (pipe_list ?x) < PIPESIZE" using Suc.prems(3) by (simp add: pipe_full_iff)
    let ?s = "s\<lparr>pipes := (pipes s)(p := pipe_put (src ?a) ?x)\<rparr>"
    define m' where "m' = min k (PIPESIZE - length (pipe_list (pipes ?s p)))"
    have m: "m = Suc m'" using Suc.prems(5) lt by (auto simp: m'_def pipe_put_list min_def)
    have a: "nat n - k = Suc ?a" using Suc.prems(4) by simp
    have y: "y = puts src [nat n - k..<nat n - k + m'] (pipes ?s p)"
      using Suc.prems(6) unfolding m a by (simp add: puts_def upt_conv_Cons del: upt_Suc)
    have e: "pipewrite_loop p src n (Suc k) s = pipewrite_loop p src n k ?s"
      using False by (simp add: kdefs upd_pipe_def)
    have h: "held ?s = [pipe_lock p]" "cur ?s = Some i" "length (pipe_list (pipes ?s p)) \<le> PIPESIZE" "k \<le> nat n"
      using Suc.prems(1,2,4) lt by (simp_all add: pipe_put_list)
    show ?thesis unfolding e Suc.IH [OF h m'_def y] m by (simp add: fun_upd_def cong: if_cong)
  qed
qed

section \<open>Reading\<close>

lemma piperead_copy_takes:
  fixes s :: "'a kfile_scheme"
  assumes "L = pipe_list (pipes s p)" "m = min k (length L)"
  shows "\<exists>y d. piperead_copy p buf i k s = Done (int (i + m), d) (s\<lparr>pipes := (pipes s)(p := y)\<rparr>)
    \<and> pipe_list y = drop m L \<and> pi_readopen y = pi_readopen (pipes s p) \<and> pi_writeopen y = pi_writeopen (pipes s p)
    \<and> (\<forall>j. d j = (if i \<le> j \<and> j < i + m then L ! (j - i) else buf j))"
  using assms
proof (induction k arbitrary: s buf i L m)
  case 0
  then show ?case by (intro exI [of _ "pipes s p"] exI [of _ buf]) (auto simp: kdefs fun_upd_idem)
next
  case (Suc k)
  let ?x = "pipes s p"
  show ?case
  proof (cases "pipe_empty ?x")
    case True
    then show ?thesis
      using Suc.prems by (intro exI [of _ ?x] exI [of _ buf]) (auto simp: kdefs fun_upd_idem pipe_empty_iff)
  next
    case False
    let ?s = "s\<lparr>pipes := (pipes s)(p := snd (pipe_get ?x))\<rparr>"
    define L' where "L' = pipe_list (pipes ?s p)"
    have L: "L = fst (pipe_get ?x) # L'" using False pipe_get_list [of ?x] Suc.prems(1) by (simp add: pipe_empty_iff L'_def)
    define m' where "m' = min k (length L')"
    have m: "m = Suc m'" using Suc.prems(2) L by (simp add: m'_def)
    obtain y d where yd: "piperead_copy p (buf(i := fst (pipe_get ?x))) (i + 1) k ?s = Done (int (i + 1 + m'), d) (?s\<lparr>pipes := (pipes ?s)(p := y)\<rparr>)"
        "pipe_list y = drop m' L'" "pi_readopen y = pi_readopen (pipes ?s p)" "pi_writeopen y = pi_writeopen (pipes ?s p)"
        "\<forall>j. d j = (if i + 1 \<le> j \<and> j < i + 1 + m' then L' ! (j - (i + 1)) else (buf(i := fst (pipe_get ?x))) j)"
      using Suc.IH [OF L'_def m'_def] by blast
    have e: "piperead_copy p buf i (Suc k) s = Done (int (i + m), d) (s\<lparr>pipes := (pipes s)(p := y)\<rparr>)"
      using False yd(1) m by (simp add: kdefs upd_pipe_def)
    have dj: "d j = (if i \<le> j \<and> j < i + m then L ! (j - i) else buf j)" for j
      using yd(5) L m by (cases "j = i") (auto simp: nth_Cons')
    show ?thesis by (intro exI [of _ y] exI [of _ d] conjI allI e dj) (use yd(2-4) L m in simp_all)
  qed
qed

section \<open>A pipe is a queue\<close>

text \<open>
  C23: a pipe is a queue of at most 512 bytes. \<open>pipewrite\<close> of bytes that fit appends them in
  order, returns their number and wakes the readers; \<open>piperead\<close> on a pipe with bytes, or one
  that no writer has open, takes as many bytes as are wanted and there are from the front, in
  order, and wakes the writers. No other pipe changes, and the counters may wrap around.
\<close>

theorem pipe_queue:
  fixes s :: "'a kfile_scheme"
  assumes s: "held s = []" "cur s = Some i" and n: "0 \<le> n" and L: "pipe_list (pipes s p) = L" "length L \<le> PIPESIZE"
  shows "(length L + nat n \<le> PIPESIZE \<longrightarrow> runs (pipewrite p src n) s (\<lambda>r t. r = n
        \<and> pipe_list (pipes t p) = L @ map src [0..<nat n] \<and> (\<forall>q. q \<noteq> p \<longrightarrow> pipes t q = pipes s q)
        \<and> ptable t = wake_table (chan_nread p) (ptable s) \<and> held t = []))
    \<and> (L \<noteq> [] \<or> \<not> pi_writeopen (pipes s p) \<longrightarrow> runs (piperead p buf n) s (\<lambda>(r, d) t. r = int (min (nat n) (length L))
        \<and> (\<forall>j. d j = (if j < min (nat n) (length L) then L ! j else buf j)) \<and> pipe_list (pipes t p) = drop (nat n) L
        \<and> (\<forall>q. q \<noteq> p \<longrightarrow> pipes t q = pipes s q) \<and> ptable t = wake_table (chan_nwrite p) (ptable s) \<and> held t = []))"
proof (intro conjI impI)
  let ?s = "s\<lparr>held := [pipe_lock p]\<rparr>"
  assume fit: "length L + nat n \<le> PIPESIZE"
  define y where "y = puts src [0..<nat n] (pipes s p)"
  have m: "nat n = min (nat n) (PIPESIZE - length (pipe_list (pipes ?s p)))" using fit L by simp
  have "pipewrite_loop p src n (nat n) ?s = Done n (?s\<lparr>pipes := (pipes ?s)(p := y), ptable := wake_table (chan_nread p) (ptable ?s), held := []\<rparr>)"
    using pipewrite_loop_eq [where s = ?s and p = p and i = i and k = "nat n" and n = n, OF _ _ _ _ m refl] s L by (simp add: y_def)
  moreover have "pipe_list y = L @ map src [0..<nat n]" using puts_list [of "pipes s p" "[0..<nat n]" src] fit L by (simp add: y_def)
  ultimately show "runs (pipewrite p src n) s (\<lambda>r t. r = n
        \<and> pipe_list (pipes t p) = L @ map src [0..<nat n] \<and> (\<forall>q. q \<noteq> p \<longrightarrow> pipes t q = pipes s q)
        \<and> ptable t = wake_table (chan_nread p) (ptable s) \<and> held t = [])"
    using s by (simp add: pipewrite_def runs_def kdefs acquire_def)
next
  let ?s = "s\<lparr>held := [pipe_lock p]\<rparr>"
  assume ready: "L \<noteq> [] \<or> \<not> pi_writeopen (pipes s p)"
  obtain y d where yd: "piperead_copy p buf 0 (nat n) ?s = Done (int (0 + min (nat n) (length L)), d) (?s\<lparr>pipes := (pipes ?s)(p := y)\<rparr>)"
      "pipe_list y = drop (min (nat n) (length L)) L"
      "\<forall>j. d j = (if 0 \<le> j \<and> j < 0 + min (nat n) (length L) then L ! (j - 0) else buf j)"
    using piperead_copy_takes [of L ?s p "min (nat n) (length L)" "nat n" buf 0] L(1) by auto
  have "\<not> (pipe_empty (pipes s p) \<and> pi_writeopen (pipes s p))" using ready L(1) by (auto simp: pipe_empty_iff)
  then show "runs (piperead p buf n) s (\<lambda>(r, d) t. r = int (min (nat n) (length L))
        \<and> (\<forall>j. d j = (if j < min (nat n) (length L) then L ! j else buf j)) \<and> pipe_list (pipes t p) = drop (nat n) L
        \<and> (\<forall>q. q \<noteq> p \<longrightarrow> pipes t q = pipes s q) \<and> ptable t = wake_table (chan_nwrite p) (ptable s) \<and> held t = [])"
    using s yd by (auto simp: piperead_def piperead_loop_def runs_def kdefs acquire_def release_def wakeup_eq min_def)
qed

text \<open>
  C24: when a pipe is full or empty its users wait without losing bytes. A writer with more bytes
  than fit writes what fits, wakes the readers and sleeps until a reader wakes it; a
  reader of an empty pipe with a writer sleeps until a writer wakes it; and a writer without
  readers or either of them when killed returns -1 with the lock given back.
\<close>

theorem pipe_blocks:
  fixes s :: "'a kfile_scheme"
  assumes s: "held s = []" "cur s = Some i" and L: "pipe_list (pipes s p) = L" "length L \<le> PIPESIZE"
  shows "(PIPESIZE < length L + nat n \<longrightarrow> (if pi_readopen (pipes s p) \<and> \<not> p_killed (ptable s i)
       then \<exists>t. pipewrite p src n s = Sleep (chan_nwrite p) t \<and> pipe_list (pipes t p) = L @ map src [0..<PIPESIZE - length L]
         \<and> p_state (ptable t i) = SLEEPING \<and> p_chan (ptable t i) = Some (chan_nwrite p)
         \<and> (\<forall>j. j \<noteq> i \<longrightarrow> ptable t j = wake_table (chan_nread p) (ptable s) j)
       else runs (pipewrite p src n) s (\<lambda>r t. r = - 1 \<and> held t = [] \<and> ptable t = ptable s)))
    \<and> (L = [] \<and> pi_writeopen (pipes s p) \<longrightarrow>
       (if \<not> p_killed (ptable s i)
        then \<exists>t. piperead p buf n s = Sleep (chan_nread p) t \<and> pipes t = pipes s \<and> p_state (ptable t i) = SLEEPING
          \<and> p_chan (ptable t i) = Some (chan_nread p)
        else piperead p buf n s = Done (- 1, buf) s))"
proof (intro conjI impI)
  let ?s = "s\<lparr>held := [pipe_lock p]\<rparr>" and ?m = "PIPESIZE - length L"
  assume many: "PIPESIZE < length L + nat n"
  define y where "y = puts src [0..<?m] (pipes s p)"
  have m: "?m = min (nat n) (PIPESIZE - length (pipe_list (pipes ?s p)))" using many L by simp
  note w = pipewrite_loop_eq [where s = ?s and p = p and i = i and k = "nat n" and n = n and src = src, OF _ _ _ _ m refl]
  have ne: "?m \<noteq> nat n" using many L(2) by arith
  have y: "pipe_list y = L @ map src [0..<?m]" "pi_readopen y = pi_readopen (pipes s p)"
    using puts_list [of "pipes s p" "[0..<?m]" src] L by (simp_all add: y_def)
  have pw: "pipewrite p src n s = pipewrite_loop p src n (nat n) ?s" using s by (simp add: pipewrite_def kdefs acquire_def)
  show "if pi_readopen (pipes s p) \<and> \<not> p_killed (ptable s i)
       then \<exists>t. pipewrite p src n s = Sleep (chan_nwrite p) t \<and> pipe_list (pipes t p) = L @ map src [0..<?m]
         \<and> p_state (ptable t i) = SLEEPING \<and> p_chan (ptable t i) = Some (chan_nwrite p)
         \<and> (\<forall>j. j \<noteq> i \<longrightarrow> ptable t j = wake_table (chan_nread p) (ptable s) j)
       else runs (pipewrite p src n) s (\<lambda>r t. r = - 1 \<and> held t = [] \<and> ptable t = ptable s)"
    using w s L ne y by (simp add: pw runs_def y_def)
next
  assume e: "L = [] \<and> pi_writeopen (pipes s p)"
  have "sleep (chan_nread p) (pipe_lock p) (s\<lparr>held := [pipe_lock p]\<rparr>) = (Sleep (chan_nread p) (s\<lparr>held := [L_ptable],
      ptable := (ptable s)(i := (ptable s i)\<lparr>p_chan := Some (chan_nread p), p_state := SLEEPING\<rparr>)\<rparr>) :: (int \<times> bytes, 'a kfile_scheme) outcome)"
    using s(2) by (subst sleep_eq [of _ i]) simp_all
  then show "if \<not> p_killed (ptable s i)
        then \<exists>t. piperead p buf n s = Sleep (chan_nread p) t \<and> pipes t = pipes s \<and> p_state (ptable t i) = SLEEPING
          \<and> p_chan (ptable t i) = Some (chan_nread p)
        else piperead p buf n s = Done (- 1, buf) s"
    using e s L(1) by (simp add: piperead_def piperead_loop_def kdefs acquire_def release_def pipe_empty_iff cur_proc_def held_nil)
qed

text \<open>A machine with one process and one empty pipe: for the witnesses.\<close>

definition pipe_machine :: "uint \<Rightarrow> kfile" where
  "pipe_machine c = \<lparr>held = [], ptable = (\<lambda>_. zero_proc), cur = Some 0, initproc = Some 0, nextpid = 2, phys = (\<lambda>_. 0),
     freelist = 0, kend = 0,
     bufs = (\<lambda>_. \<lparr>b_flags = 0, b_dev = 0, b_sector = 0, b_prev = 0, b_next = 0, b_qnext = None, b_data = (\<lambda>_. 0)\<rparr>),
     idequeue = None, havedisk1 = False, taskfile = (\<lambda>_. 0), disk = (\<lambda>_ _ _. 0), ide_err = False,
     panicked = False, cons_locking = True, uart_on = False, uart_out = [], uart_in = [], crt = (\<lambda>_. 0), crt_pos = 0,
     kbd_in = [], kbd_shift = 0, input_buf = (\<lambda>_. 0), input_r = 0, input_w = 0, input_e = 0, inodes = (\<lambda>_. zero_inode),
     ftable = (\<lambda>_. \<lparr>f_type = FD_NONE, f_ref = 0, f_readable = False, f_writable = False, f_pipe = 0, f_ip = None, f_off = 0\<rparr>),
     pipes = (\<lambda>_. \<lparr>pi_data = (\<lambda>_. 0), pi_nread = c, pi_nwrite = c, pi_readopen = True, pi_writeopen = True\<rparr>)\<rparr>"

text \<open>Both counters start one before their wrap-around.\<close>

theorem pipe_queue_witness:
  "runs (pipewrite 4096 (\<lambda>j. of_nat j + 65) 3) (pipe_machine (- 1)) (\<lambda>r t. r = 3 \<and> pipe_list (pipes t 4096) = [65, 66, 67])"
proof -
  have L: "pipe_list (pipes (pipe_machine (- 1)) 4096) = []" by (simp add: pipe_list_def ring_list_def pipe_machine_def)
  have "runs (pipewrite 4096 (\<lambda>j. of_nat j + 65) 3) (pipe_machine (- 1)) (\<lambda>r t. r = 3
        \<and> pipe_list (pipes t 4096) = [] @ map (\<lambda>j. of_nat j + 65) [0..<nat 3] \<and> (\<forall>q. q \<noteq> 4096 \<longrightarrow> pipes t q = pipes (pipe_machine (- 1)) q)
        \<and> ptable t = wake_table (chan_nread 4096) (ptable (pipe_machine (- 1))) \<and> held t = [])"
    using pipe_queue [OF _ _ _ L, of 0 3 "\<lambda>j. of_nat j + 65" "\<lambda>_. 0"] by (simp add: pipe_machine_def)
  then show ?thesis by (rule runs_mono) (simp add: upt_rec)
qed

theorem pipe_blocks_witness:
  "\<exists>t. pipewrite 4096 (\<lambda>j. of_nat j) 513 (pipe_machine 7) = Sleep (chan_nwrite 4096) t
     \<and> length (pipe_list (pipes t 4096)) = 512"
proof -
  have L: "pipe_list (pipes (pipe_machine 7) 4096) = []" by (simp add: pipe_list_def ring_list_def pipe_machine_def)
  have o: "pi_readopen (pipes (pipe_machine 7) 4096) \<and> \<not> p_killed (ptable (pipe_machine 7) 0)"
    by (simp add: pipe_machine_def zero_proc_def)
  have "held (pipe_machine 7) = []" "cur (pipe_machine 7) = Some 0" by (simp_all add: pipe_machine_def)
  from pipe_blocks [OF this L, where n = 513, THEN conjunct1, unfolded if_P [OF o]] show ?thesis by fastforce
qed

end
