(* ===== verification/Vm_Map.thy ===== *)
theory Vm_Map
  imports Vm
begin

text \<open>
  Page tables as maps (\<open>walkpgdir\<close>, \<open>mappages\<close> of \<open>kernel/vm.c\<close>). \<open>pte m d v\<close> is the entry of
  virtual page \<open>v\<close> in the directory at \<open>d\<close>, 0 when there is no table for it. \<open>pgdir_ok\<close> says
  that the directory and its tables are different pages outside the pool of free pages. Proofs
  about user memory see page tables through these only.
\<close>

section \<open>Words\<close>

definition vpn :: "uint \<Rightarrow> nat" where
  "vpn va = unat va div 4096"

lemma vpn_less: "vpn va < 1048576"
  using uint_bound [of va] by (simp add: vpn_def less_mult_imp_div_less)

lemma unat_PDX: "unat (PDX va) = vpn va div 1024"
proof -
  have m: "(0x3FF :: uint) = mask 10" by (simp add: mask_eq_exp_minus_1)
  have "unat (PDX va) = take_bit 10 (unat va div 4194304)"
    by (simp add: PDX_def m take_bit_eq_mask [symmetric] unsigned_take_bit_eq unat_drop_bit_eq drop_bit_eq_div unat_div)
  also have "\<dots> = unat va div 4194304"
    using uint_bound [of va] by (simp add: take_bit_eq_mod less_mult_imp_div_less)
  finally show ?thesis by (simp add: vpn_def div_mult2_eq [symmetric])
qed

lemma unat_PTX: "unat (PTX va) = vpn va mod 1024"
proof -
  have m: "(0x3FF :: uint) = mask 10" by (simp add: mask_eq_exp_minus_1)
  have "unat (PTX va) = take_bit 10 (unat va div 4096)"
    by (simp add: PTX_def m take_bit_eq_mask [symmetric] unsigned_take_bit_eq unat_drop_bit_eq drop_bit_eq_div unat_div)
  then show ?thesis by (simp add: vpn_def take_bit_eq_mod)
qed

lemma PTE_ADDR_round: "PTE_ADDR w = PGROUNDDOWN w"
  by (simp add: PTE_ADDR_def PGROUNDDOWN_def)

lemma PTE_ADDR_aligned: "PTE_ADDR w mod PGSIZE = 0"
  by (simp add: PTE_ADDR_round word_mod_eq_0 unat_PGROUNDDOWN)

lemma PTE_ADDR_or:
  assumes "p mod PGSIZE = 0" "w < PGSIZE"
  shows "PTE_ADDR (p OR w) = p"
proof -
  have m: "(0xFFF :: uint) = mask 12" by (simp add: mask_eq_exp_minus_1)
  have p: "\<not> bit p n" if "n < 12" for n
  proof -
    have "unat p mod 4096 = 0" using assms(1) by (simp add: word_mod_eq_0)
    then have "take_bit 12 (unat p) = 0" by (simp add: take_bit_eq_mod)
    then have "\<not> bit (take_bit 12 (unat p)) n" by simp
    then show ?thesis using that by (simp add: bit_simps)
  qed
  have w: "\<not> bit w n" if "12 \<le> n" for n
  proof -
    have "unat w < 4096" using assms(2) by (simp add: word_less_nat_alt)
    then have "take_bit 12 (unat w) = unat w" by (simp add: take_bit_eq_mod)
    then have "bit (unat w) n = bit (take_bit 12 (unat w)) n" by simp
    then show ?thesis using that by (simp add: bit_simps bit_unsigned_iff)
  qed
  show ?thesis unfolding PTE_ADDR_def m
    by (rule bit_word_eqI) (use p w in \<open>auto simp: bit_simps dest: leI intro: ccontr\<close>)
qed

lemma page_ok_less: "page_ok e p \<Longrightarrow> unat p + 4096 \<le> 0x1000000 \<and> unat p mod 4096 = 0"
proof -
  assume a: "page_ok e p"
  then have "unat p mod 4096 = 0" "unat p < 0x1000000"
    by (auto simp: page_ok_def word_mod_eq_0 word_less_nat_alt)
  then show ?thesis using aligned_step [of "unat p" 4096 "0x1000000"] by auto
qed

lemma unat_entry:
  assumes "page_ok e p" "x < (1024 :: nat)" "unat i = x"
  shows "unat (p + 4 * i) = unat p + 4 * x"
  using page_ok_less [OF assms(1)] assms(2,3) by (simp add: unat_word_ariths)

section \<open>The tables of a directory\<close>

definition pde :: "bytes \<Rightarrow> uint \<Rightarrow> nat \<Rightarrow> uint" where
  "pde m d x = rd32 m (unat d + 4 * x)"

definition pgtab :: "bytes \<Rightarrow> uint \<Rightarrow> nat \<Rightarrow> uint" where
  "pgtab m d x = PTE_ADDR (pde m d x)"

definition has_tab :: "bytes \<Rightarrow> uint \<Rightarrow> nat \<Rightarrow> bool" where
  "has_tab m d x \<longleftrightarrow> x < 1024 \<and> pde m d x AND PTE_P \<noteq> 0"

definition pte :: "bytes \<Rightarrow> uint \<Rightarrow> nat \<Rightarrow> uint" where
  "pte m d v = (if has_tab m d (v div 1024) then rd32 m (unat (pgtab m d (v div 1024)) + 4 * (v mod 1024)) else 0)"

definition tables :: "bytes \<Rightarrow> uint \<Rightarrow> uint set" where
  "tables m d = pgtab m d ` {x. has_tab m d x}"

definition pgdir_ok :: "uint \<Rightarrow> uint list \<Rightarrow> bytes \<Rightarrow> uint \<Rightarrow> bool" where
  "pgdir_ok e ps m d \<longleftrightarrow> page_ok e d \<and> d \<notin> set ps \<and> d \<notin> tables m d \<and> tables m d \<inter> set ps = {}
     \<and> (\<forall>t\<in>tables m d. page_ok e t) \<and> inj_on (pgtab m d) {x. has_tab m d x}"

lemma pde_cong: "(\<And>i. i \<in> page_bytes d \<Longrightarrow> m' i = m i) \<Longrightarrow> x < 1024 \<Longrightarrow> pde m' d x = pde m d x"
  unfolding pde_def by (rule rd32_cong) (auto simp: page_bytes_def)

lemma has_tab_cong: "(\<And>i. i \<in> page_bytes d \<Longrightarrow> m' i = m i) \<Longrightarrow> has_tab m' d x = has_tab m d x"
  using pde_cong [where d = d and m' = m' and m = m and x = x] by (auto simp: has_tab_def)

lemma tables_cong:
  assumes "\<And>i. i \<in> page_bytes d \<Longrightarrow> m' i = m i"
  shows "tables m' d = tables m d" "has_tab m d x \<Longrightarrow> pgtab m' d x = pgtab m d x"
proof -
  show "pgtab m' d x = pgtab m d x" if "has_tab m d x" for x
    using that pde_cong [where d = d and x = x, OF assms] by (simp add: pgtab_def has_tab_def)
  then show "tables m' d = tables m d"
    using has_tab_cong [OF assms] by (auto simp: tables_def image_iff)
qed

lemma pte_cong:
  assumes "\<And>i. i \<in> page_bytes d \<Longrightarrow> m' i = m i" "\<And>t i. t \<in> tables m d \<Longrightarrow> i \<in> page_bytes t \<Longrightarrow> m' i = m i"
  shows "pte m' d v = pte m d v"
proof (cases "has_tab m d (v div 1024)")
  case True
  let ?t = "pgtab m d (v div 1024)"
  have "?t \<in> tables m d" using True by (simp add: tables_def)
  then have "rd32 m' (unat ?t + 4 * (v mod 1024)) = rd32 m (unat ?t + 4 * (v mod 1024))"
    by (intro rd32_cong assms(2)) (auto simp: page_bytes_def)
  then show ?thesis
    using True has_tab_cong [OF assms(1)] tables_cong(2) [OF assms(1) True] by (simp add: pte_def)
qed (use has_tab_cong [OF assms(1)] in \<open>simp add: pte_def\<close>)

lemma pgdir_ok_cong:
  assumes "\<And>i. i \<in> page_bytes d \<Longrightarrow> m' i = m i"
  shows "pgdir_ok e ps m' d = pgdir_ok e ps m d"
proof -
  have "inj_on (pgtab m' d) {x. has_tab m' d x} = inj_on (pgtab m d) {x. has_tab m d x}"
    using has_tab_cong [OF assms] tables_cong(2) [OF assms] by (auto simp: inj_on_def)
  then show ?thesis by (simp only: pgdir_ok_def tables_cong(1) [OF assms])
qed

lemma page_bytes_other: "page_ok e p \<Longrightarrow> page_ok e q \<Longrightarrow> p \<noteq> q \<Longrightarrow> page_bytes p \<inter> page_bytes q = {}"
  by (rule page_bytes_disjoint) (simp_all add: page_ok_def)

lemma pgdir_ok_tab:
  assumes "pgdir_ok e ps m d" "has_tab m d x"
  shows "pgtab m d x \<in> tables m d" "page_ok e (pgtab m d x)" "pgtab m d x \<noteq> d"
proof -
  show "pgtab m d x \<in> tables m d" using assms(2) by (simp add: tables_def)
  then show "page_ok e (pgtab m d x)" "pgtab m d x \<noteq> d" using assms(1) by (auto simp: pgdir_ok_def)
qed

lemma page_entry: "i < 1024 \<Longrightarrow> unat t + 4 * i \<le> a \<Longrightarrow> a < unat t + 4 * i + 4 \<Longrightarrow> a \<in> page_bytes t"
  by (auto simp: page_bytes_def)

lemma set_pte:
  fixes w :: uint and v :: nat
  assumes ok: "pgdir_ok e ps m d" and tab: "has_tab m d (v div 1024)"
  defines "t \<equiv> pgtab m d (v div 1024)"
  defines "m' \<equiv> wr32 m (unat t + 4 * (v mod 1024)) w"
  shows "pgdir_ok e ps m' d" "tables m' d = tables m d" "pte m' d u = (if u = v then w else pte m d u)"
    "a \<notin> page_bytes t \<Longrightarrow> m' a = m a"
proof -
  note t = pgdir_ok_tab [OF ok tab, folded t_def]
  show out: "m' a = m a" if "a \<notin> page_bytes t" for a
    using that page_entry [of "v mod 1024" t a] unfolding m'_def by (intro wr32_other) force
  have "page_bytes d \<inter> page_bytes t = {}" using ok t by (intro page_bytes_other) (auto simp: pgdir_ok_def)
  then have dir: "m' i = m i" if "i \<in> page_bytes d" for i using that out by blast
  show "pgdir_ok e ps m' d" "tables m' d = tables m d" using ok pgdir_ok_cong [OF dir] tables_cong(1) [OF dir] by auto
  have same: "has_tab m' d x = has_tab m d x" "has_tab m d x \<Longrightarrow> pgtab m' d x = pgtab m d x" for x
    using has_tab_cong [OF dir] tables_cong(2) [OF dir] by auto
  show "pte m' d u = (if u = v then w else pte m d u)"
  proof (cases "has_tab m d (u div 1024)")
    case True
    show ?thesis
    proof (cases "u div 1024 = v div 1024")
      case same_tab: True
      have "u = v \<longleftrightarrow> u mod 1024 = v mod 1024" using same_tab by (metis div_mult_mod_eq)
      moreover have "rd32 m' (unat t + 4 * (u mod 1024)) = (if u mod 1024 = v mod 1024 then w else rd32 m (unat t + 4 * (u mod 1024)))"
      proof (cases "u mod 1024 = v mod 1024")
        case False
        then show ?thesis unfolding m'_def by (subst rd32_wr32_other) (linarith, simp)
      qed (simp add: m'_def)
      ultimately show ?thesis using True same_tab same(1) same(2) [OF tab] by (simp add: pte_def t_def)
    next
      case False
      let ?t = "pgtab m d (u div 1024)"
      have "?t \<noteq> t" using ok True tab False by (auto simp: pgdir_ok_def inj_on_def t_def)
      then have "page_bytes ?t \<inter> page_bytes t = {}"
        using t pgdir_ok_tab [OF ok True] by (intro page_bytes_other) auto
      then have "rd32 m' (unat ?t + 4 * (u mod 1024)) = rd32 m (unat ?t + 4 * (u mod 1024))"
        using page_entry [of "u mod 1024" ?t] by (intro rd32_cong out) force
      then show ?thesis using True False same by (auto simp: pte_def)
    qed
  next
    case False
    then show ?thesis using tab same(1) by (auto simp: pte_def)
  qed
qed

lemma add_table:
  fixes m :: bytes
  assumes ok: "pgdir_ok e (t # ps) m d" and t: "page_ok e t" "t \<notin> set ps" and x: "x < 1024" "\<not> has_tab m d x"
  defines "w \<equiv> t OR PTE_P OR PTE_W OR PTE_U"
  defines "m' \<equiv> wr32 (memset m (unat t) 0 4096) (unat d + 4 * x) w"
  shows "pgdir_ok e ps m' d" "tables m' d = insert t (tables m d)" "has_tab m' d x" "pgtab m' d x = t"
    "pte m' d u = pte m d u" "a \<notin> page_bytes d \<Longrightarrow> a \<notin> page_bytes t \<Longrightarrow> m' a = m a"
proof -
  have td: "t \<noteq> d" "t \<notin> tables m d" "page_ok e d" using ok by (auto simp: pgdir_ok_def)
  have dis: "page_bytes d \<inter> page_bytes t = {}" using t td by (intro page_bytes_other) auto
  show out: "m' a = m a" if "a \<notin> page_bytes d" "a \<notin> page_bytes t" for a
  proof -
    have "m' a = memset m (unat t) 0 4096 a"
      using that page_entry [of x d a] x(1) unfolding m'_def by (intro wr32_other) force
    then show ?thesis using that by (auto simp: memset_at page_bytes_def)
  qed
  have pd: "pde m' d y = (if y = x then w else pde m d y)" if "y < 1024" for y
  proof (cases "y = x")
    case False
    have "pde m' d y = rd32 (memset m (unat t) 0 4096) (unat d + 4 * y)"
      using False unfolding pde_def m'_def by (intro rd32_wr32_other) linarith
    also have "\<dots> = rd32 m (unat d + 4 * y)"
      using dis page_entry [of y d] that by (intro rd32_cong) (force simp: memset_at page_bytes_def)
    finally show ?thesis using False by (simp add: pde_def)
  qed (simp add: pde_def m'_def)
  have tx: "PTE_ADDR w = t" "w AND PTE_P \<noteq> 0"
    using PTE_ADDR_or [of t "PTE_P OR PTE_W OR PTE_U"] t(1)
    by (simp_all add: w_def page_ok_def or.assoc flag_simps bit_or_iff)
  have has: "has_tab m' d y \<longleftrightarrow> y = x \<or> has_tab m d y" for y
    using pd [of y] x(1) tx(2) by (cases "y = x") (auto simp: has_tab_def)
  have tab: "has_tab m d y \<Longrightarrow> pgtab m' d y = pgtab m d y" for y
    using pd [of y] x(2) by (auto simp: pgtab_def has_tab_def)
  show hx: "has_tab m' d x" "pgtab m' d x = t" using has pd [OF x(1)] tx(1) by (auto simp: pgtab_def)
  have hs: "{y. has_tab m' d y} = insert x {y. has_tab m d y}" using has by auto
  have im: "pgtab m' d ` {y. has_tab m d y} = tables m d" using tab by (auto simp: tables_def intro!: image_cong)
  show tabs: "tables m' d = insert t (tables m d)"
    unfolding tables_def [of m'] hs image_insert hx(2) im ..
  have "inj_on (pgtab m' d) {y. has_tab m d y} = inj_on (pgtab m d) {y. has_tab m d y}"
    using tab by (intro inj_on_cong) simp
  moreover have "pgtab m' d ` ({y. has_tab m d y} - {x}) \<subseteq> tables m d" using im by blast
  ultimately have "inj_on (pgtab m' d) {y. has_tab m' d y}"
    using ok td(2) unfolding hs inj_on_insert hx(2) by (auto simp: pgdir_ok_def)
  then show "pgdir_ok e ps m' d" using ok t td by (auto simp: pgdir_ok_def tabs)
  show "pte m' d u = pte m d u"
  proof (cases "u div 1024 = x")
    case True
    have "rd32 m' (unat t + 4 * (u mod 1024)) = rd32 (\<lambda>_. 0) (unat t + 4 * (u mod 1024))"
    proof (rule rd32_cong)
      fix i assume "unat t + 4 * (u mod 1024) \<le> i" "i < unat t + 4 * (u mod 1024) + 4"
      then have i: "i \<in> page_bytes t" using page_entry [of "u mod 1024" t i] by simp
      then have "i \<notin> page_bytes d" using dis by blast
      then have "m' i = memset m (unat t) 0 4096 i"
        using page_entry [of x d i] x(1) unfolding m'_def by (intro wr32_other) force
      then show "m' i = 0" using i by (simp add: memset_at page_bytes_def)
    qed
    then show ?thesis using True x hx by (simp add: pte_def rd32_def)
  next
    case False
    show ?thesis
    proof (cases "has_tab m d (u div 1024)")
      case True
      let ?t = "pgtab m d (u div 1024)"
      have "?t \<in> tables m d" "?t \<noteq> d" "page_ok e ?t" using ok True pgdir_ok_tab [OF ok] by auto
      then have "page_bytes ?t \<inter> page_bytes d = {}" "page_bytes ?t \<inter> page_bytes t = {}"
        using page_bytes_other [of e ?t d] page_bytes_other [of e ?t t] td t by auto
      then have "rd32 m' (unat ?t + 4 * (u mod 1024)) = rd32 m (unat ?t + 4 * (u mod 1024))"
        using page_entry [of "u mod 1024" ?t] by (intro rd32_cong out) force+
      then show ?thesis using True False has tab by (simp add: pte_def)
    qed (use False has in \<open>simp add: pte_def\<close>)
  qed
qed

section \<open>walkpgdir and mappages\<close>

text \<open>
  The state while the tables of directory \<open>d\<close> are built: free pages \<open>ps\<close>, entries \<open>f\<close>. From \<open>s\<close>
  to \<open>s'\<close> free pages have become tables, and only the directory and its tables have changed.
\<close>

definition vst :: "uint list \<Rightarrow> uint \<Rightarrow> (nat \<Rightarrow> uint) \<Rightarrow> 'a kmem_scheme \<Rightarrow> bool" where
  "vst ps d f s \<longleftrightarrow> kmem_inv ps s \<and> pgdir_ok (kend s) ps (phys s) d \<and> L_kmem \<notin> set (held s) \<and> pte (phys s) d = f"

definition vm_to :: "uint \<Rightarrow> uint list \<Rightarrow> 'a kmem_scheme \<Rightarrow> uint list \<Rightarrow> 'a kmem_scheme \<Rightarrow> bool" where
  "vm_to d ps s ps' s' \<longleftrightarrow> (\<exists>m fl. s' = s\<lparr>phys := m, freelist := fl\<rparr>)
     \<and> (\<exists>us. ps = us @ ps' \<and> tables (phys s') d = tables (phys s) d \<union> set us)
     \<and> (\<forall>a. (\<forall>p\<in>insert d (tables (phys s') d). a \<notin> page_bytes p) \<longrightarrow> phys s' a = phys s a)"

lemma vm_to_refl: "vm_to d ps s ps s"
  unfolding vm_to_def by (auto intro!: exI [of _ "phys s"] exI [of _ "freelist s"])

lemma vm_to_trans:
  assumes "vm_to d ps s ps1 s1" "vm_to d ps1 s1 ps2 s2"
  shows "vm_to d ps s ps2 s2"
  using assms unfolding vm_to_def by (clarsimp) (metis Un_assoc Un_iff append_assoc set_append insert_iff)

lemma entry_addr:
  assumes "pgdir_ok e ps m d" "has_tab m d (vpn va div 1024)"
  shows "unat (pgtab m d (vpn va div 1024) + 4 * PTX va) = unat (pgtab m d (vpn va div 1024)) + 4 * (vpn va mod 1024)"
  using unat_entry [OF pgdir_ok_tab(2) [OF assms]] unat_PTX [of va] by simp

lemma dir_addr:
  assumes "page_ok e d"
  shows "unat (d + 4 * PDX va) = unat d + 4 * (vpn va div 1024)" "vpn va div 1024 < 1024"
  using unat_entry [OF assms, of "vpn va div 1024"] unat_PDX [of va] vpn_less [of va]
  by (simp_all add: less_mult_imp_div_less)

lemma walk_lookup:
  assumes "vst ps d f s"
  shows "runs (walkpgdir d va False) s (\<lambda>r s'. s' = s \<and>
    (if has_tab (phys s) d (vpn va div 1024)
     then \<exists>p. r = Some p \<and> unat p = unat (pgtab (phys s) d (vpn va div 1024)) + 4 * (vpn va mod 1024) else r = None))"
proof -
  let ?x = "vpn va div 1024"
  have ok: "pgdir_ok (kend s) ps (phys s) d" using assms by (simp add: vst_def)
  note a = dir_addr [of "kend s" d va]
  have "rd32 (phys s) (unat (d + 4 * PDX va)) = pde (phys s) d ?x" "?x < 1024"
    using a ok by (simp_all add: pde_def pgdir_ok_def)
  then show ?thesis
    using entry_addr [OF ok] unfolding walkpgdir_def mem_rd32_def
    by (intro runs_kbind runs_kget) (auto simp: has_tab_def pgtab_def intro!: runs_kret)
qed

lemma walk_create:
  assumes "vst ps d f s"
  shows "runs (walkpgdir d va True) s (\<lambda>r s'. case r of
      None \<Rightarrow> ps = [] \<and> s' = s \<and> \<not> has_tab (phys s) d (vpn va div 1024)
    | Some p \<Rightarrow> \<exists>ps'. vst ps' d f s' \<and> vm_to d ps s ps' s' \<and> has_tab (phys s') d (vpn va div 1024)
        \<and> unat p = unat (pgtab (phys s') d (vpn va div 1024)) + 4 * (vpn va mod 1024))"
proof -
  let ?x = "vpn va div 1024"
  have ok: "pgdir_ok (kend s) ps (phys s) d" and inv: "kmem_inv ps s" and l: "L_kmem \<notin> set (held s)"
    and f: "pte (phys s) d = f" using assms by (simp_all add: vst_def)
  note a = dir_addr [of "kend s" d va]
  have rd: "rd32 (phys s) (unat (d + 4 * PDX va)) = pde (phys s) d ?x" and x: "?x < 1024"
    using a ok by (simp_all add: pde_def pgdir_ok_def)
  show ?thesis
  proof (cases "has_tab (phys s) d ?x")
    case True
    then have "unat (PTE_ADDR (pde (phys s) d ?x) + 4 * PTX va) = unat (pgtab (phys s) d ?x) + 4 * (vpn va mod 1024)"
      using entry_addr [OF ok] by (simp add: pgtab_def)
    then show ?thesis
      using True assms vm_to_refl unfolding walkpgdir_def mem_rd32_def
      by (intro runs_kbind runs_kget) (auto simp: rd has_tab_def intro!: runs_kret exI [of _ ps])
  next
    case False
    then have np: "pde (phys s) d ?x AND PTE_P = 0" using x by (simp add: has_tab_def)
    show ?thesis
    proof (cases ps)
      case Nil
      then have "walkpgdir d va True s = Done None s"
        using kmem_inv_none [of s] inv l by (simp add: walkpgdir_def kdefs mem_rd32_def rd np)
      then show ?thesis using Nil False by (auto intro!: runsI)
    next
      case (Cons t ps')
      let ?fl = "rd32 (phys s) (unat t)"
      define m' where "m' = wr32 (memset (phys s) (unat t) 0 4096) (unat d + 4 * ?x) (t OR PTE_P OR PTE_W OR PTE_U)"
      have t: "page_ok (kend s) t" "t \<notin> set ps'" "t \<noteq> 0" "distinct ps'" "\<forall>p\<in>set ps'. page_ok (kend s) p"
        using inv Cons by (auto simp: kmem_inv_def page_ok_def)
      note add = add_table [OF ok [unfolded Cons] t(1,2) x False, folded m'_def]
      have "kmem_inv ps' (s\<lparr>freelist := ?fl\<rparr>)" using kmem_inv_alloc(2) [of t ps' s] inv l Cons by simp
      moreover have "m' i = phys s i" if "p \<in> set ps'" "i \<in> page_bytes p" for p i
      proof (rule add(6))
        have "p \<noteq> d" "p \<noteq> t" "page_ok (kend s) p" "page_ok (kend s) d" using that t ok Cons by (auto simp: pgdir_ok_def)
        then show "i \<notin> page_bytes d" "i \<notin> page_bytes t"
          using that(2) t(1) page_bytes_other [of "kend s" p d] page_bytes_other [of "kend s" p t] by blast+
      qed
      ultimately have inv': "kmem_inv ps' (s\<lparr>freelist := ?fl, phys := m'\<rparr>)" by (auto elim!: kmem_inv_frame)
      have addr: "unat (t + 4 * PTX va) = unat t + 4 * (vpn va mod 1024)"
        using unat_entry [OF t(1), of "vpn va mod 1024"] unat_PTX by simp
      have "walkpgdir d va True s = Done (Some (t + 4 * PTX va)) (s\<lparr>freelist := ?fl, phys := m'\<rparr>)"
        using kmem_inv_alloc(1) [of t ps' s] inv l Cons np t(3) a(1) ok
        by (simp add: walkpgdir_def kdefs mem_rd32_def mem_memset_def mem_wr32_def np [unfolded pde_def] m'_def pgdir_ok_def)
      moreover have "vst ps' d f (s\<lparr>freelist := ?fl, phys := m'\<rparr>)"
        using inv' add(1,5) l f by (auto simp: vst_def)
      moreover have "vm_to d ps s ps' (s\<lparr>freelist := ?fl, phys := m'\<rparr>)"
        unfolding vm_to_def using Cons add(2,6)
        by (auto intro!: exI [of _ "[t]"] exI [of _ m'] exI [of _ ?fl])
      ultimately show ?thesis using add(3,4) addr by (auto intro!: runsI)
    qed
  qed
qed

lemma write_entry:
  assumes "vst ps d f s" "has_tab (phys s) d (v div 1024)"
    "unat p = unat (pgtab (phys s) d (v div 1024)) + 4 * (v mod 1024)"
  shows "runs (mem_wr32 p w) s (\<lambda>_ s'. vst ps d (f(v := w)) s' \<and> vm_to d ps s ps s')"
proof -
  let ?t = "pgtab (phys s) d (v div 1024)"
  define m' where "m' = wr32 (phys s) (unat ?t + 4 * (v mod 1024)) w"
  have ok: "pgdir_ok (kend s) ps (phys s) d" and inv: "kmem_inv ps s" using assms by (simp_all add: vst_def)
  note set = set_pte [OF ok assms(2), where w = w, folded m'_def]
  have "m' i = phys s i" if "q \<in> set ps" "i \<in> page_bytes q" for q i
  proof (rule set(4))
    have "q \<noteq> ?t" "page_ok (kend s) q" using that ok inv pgdir_ok_tab(1) [OF ok assms(2)]
      by (auto simp: pgdir_ok_def kmem_inv_def)
    then show "i \<notin> page_bytes ?t"
      using that(2) page_bytes_other [OF _ pgdir_ok_tab(2) [OF ok assms(2)], of q] by blast
  qed
  then have "kmem_inv ps (s\<lparr>phys := m'\<rparr>)" using inv by (auto elim!: kmem_inv_frame)
  then have "vst ps d (f(v := w)) (s\<lparr>phys := m'\<rparr>)" using assms(1) set(1,3) by (auto simp: vst_def)
  moreover have "vm_to d ps s ps (s\<lparr>phys := m'\<rparr>)"
    unfolding vm_to_def using set(2,4) pgdir_ok_tab(1) [OF ok assms(2)]
    by (auto intro!: exI [of _ m'] exI [of _ "freelist s"])
  ultimately show ?thesis using assms(3) unfolding mem_wr32_def m'_def by (intro runs_kmod) simp
qed

text \<open>The entries \<open>mappages\<close> writes for \<open>n\<close> pages from page \<open>v0\<close> on.\<close>

definition mapped :: "nat \<Rightarrow> nat \<Rightarrow> uint \<Rightarrow> uint \<Rightarrow> (nat \<Rightarrow> uint) \<Rightarrow> nat \<Rightarrow> uint" where
  "mapped v0 n pa perm f = (\<lambda>v. if v0 \<le> v \<and> v < v0 + n then (pa + of_nat (4096 * (v - v0))) OR perm OR PTE_P else f v)"

lemma mapped_0: "mapped v0 0 pa perm f = f"
  by (rule ext) (auto simp: mapped_def)

lemma mapped_Suc: "mapped (Suc v0) n (pa + PGSIZE) perm (f(v0 := pa OR perm OR PTE_P)) = mapped v0 (Suc n) pa perm f"
proof (rule ext)
  fix v
  show "mapped (Suc v0) n (pa + PGSIZE) perm (f(v0 := pa OR perm OR PTE_P)) v = mapped v0 (Suc n) pa perm f v"
  proof (cases "v0 < v \<and> v < v0 + Suc n")
    case True
    then obtain k where k: "v = Suc (v0 + k)" by (metis add_Suc_right less_iff_Suc_add)
    have "pa + PGSIZE + of_nat (4096 * (v - Suc v0)) = pa + of_nat (4096 * (v - v0))" using k by (simp add: algebra_simps)
    then show ?thesis using True by (simp add: mapped_def)
  qed (auto simp: mapped_def)
qed

lemma read_entry:
  assumes "vst ps d f s" "has_tab (phys s) d (v div 1024)"
    "unat p = unat (pgtab (phys s) d (v div 1024)) + 4 * (v mod 1024)"
  shows "mem_rd32 p s = Done (f v) s"
  using assms by (auto simp: mem_rd32_def kdefs vst_def pte_def)

lemma mappages_step:
  fixes s :: "'a kmem_scheme"
  assumes "vst ps d f s" "f (vpn a) AND PTE_P = 0"
    and none: "ps = [] \<Longrightarrow> Q (- 1) s"
    and go: "\<And>s' ps'. vst ps' d (f(vpn a := pa OR perm OR PTE_P)) s' \<Longrightarrow> vm_to d ps s ps' s' \<Longrightarrow>
      runs (if unat (lst - a) < 4096 then kret 0 else mappages_loop d lst (a + PGSIZE) (pa + PGSIZE) perm) s' Q"
  shows "runs (mappages_loop d lst a pa perm) s Q"
proof (subst mappages_loop.simps, rule runs_kbind, rule runs_mono [OF walk_create [OF assms(1), of a]])
  fix r :: "uint option" and s1 :: "'a kmem_scheme"
  assume r: "case r of
      None \<Rightarrow> ps = [] \<and> s1 = s \<and> \<not> has_tab (phys s) d (vpn a div 1024)
    | Some p \<Rightarrow> \<exists>ps'. vst ps' d f s1 \<and> vm_to d ps s ps' s1 \<and> has_tab (phys s1) d (vpn a div 1024)
        \<and> unat p = unat (pgtab (phys s1) d (vpn a div 1024)) + 4 * (vpn a mod 1024)"
  show "runs (case r of None \<Rightarrow> kret (- 1) | Some e \<Rightarrow> kbind (mem_rd32 e) (\<lambda>v.
           if v AND PTE_P \<noteq> 0 then kpanic ''remap''
           else kseq (mem_wr32 e (pa OR perm OR PTE_P)) (
             if unat (lst - a) < 4096 then kret 0
             else mappages_loop d lst (a + PGSIZE) (pa + PGSIZE) perm))) s1 Q"
  proof (cases r)
    case None
    then show ?thesis using r none by (auto intro: runs_kret)
  next
    case (Some p)
    then obtain ps1 where s1: "vst ps1 d f s1" "vm_to d ps s ps1 s1" "has_tab (phys s1) d (vpn a div 1024)"
        "unat p = unat (pgtab (phys s1) d (vpn a div 1024)) + 4 * (vpn a mod 1024)" using r by auto
    note w = write_entry [OF s1(1,3,4), of "pa OR perm OR PTE_P"]
    have "runs (if unat (lst - a) < 4096 then kret 0 else mappages_loop d lst (a + PGSIZE) (pa + PGSIZE) perm) s2 Q"
      if "vst ps1 d (f(vpn a := pa OR perm OR PTE_P)) s2 \<and> vm_to d ps1 s1 ps1 s2" for s2
      using that go vm_to_trans [OF s1(2)] by blast
    then have K: "runs (kseq (mem_wr32 p (pa OR perm OR PTE_P)) (
        if unat (lst - a) < 4096 then kret 0 else mappages_loop d lst (a + PGSIZE) (pa + PGSIZE) perm)) s1 Q"
      by (intro runs_kseq runs_mono [OF w])
    show ?thesis
      unfolding Some option.case
      by (rule runs_kbind, rule runsI, rule read_entry [OF s1(1,3,4)]) (use K in \<open>simp only: assms(2) simp_thms if_False\<close>)
  qed
qed

lemma vpn_step: "unat a mod 4096 = 0 \<Longrightarrow> unat a + 4096 < 4294967296 \<Longrightarrow>
    unat (a + PGSIZE) = unat a + 4096 \<and> vpn (a + PGSIZE) = Suc (vpn a)"
  by (simp add: vpn_def unat_word_ariths)

lemma mappages_loop_runs:
  assumes "vst ps d f s" "unat a mod 4096 = 0" "unat lst = unat a + 4096 * n"
    "\<And>v. vpn a \<le> v \<Longrightarrow> v \<le> vpn a + n \<Longrightarrow> f v AND PTE_P = 0"
  shows "runs (mappages_loop d lst a pa perm) s (\<lambda>r s'. \<exists>ps' k. vst ps' d (mapped (vpn a) k pa perm f) s' \<and> vm_to d ps s ps' s'
    \<and> (if r = 0 then k = Suc n else r = - 1 \<and> k \<le> n \<and> ps' = []))"
  using assms
proof (induction n arbitrary: a pa f s ps)
  case 0
  have l: "unat (lst - a) < 4096" using 0(3) by (metis add_0_right mult_0_right unat_0 diff_self word_unat_eq_iff zero_less_numeral)
  have m1: "mapped (vpn a) (Suc 0) pa perm f = f(vpn a := pa OR perm OR PTE_P)"
    by (rule ext) (simp add: mapped_def le_antisym less_Suc_eq_le)
  show ?case
  proof (rule mappages_step [OF 0(1)])
    show "f (vpn a) AND PTE_P = 0" using 0(4) by simp
    show "\<exists>ps' k. vst ps' d (mapped (vpn a) k pa perm f) s \<and> vm_to d ps s ps' s
      \<and> (if (- 1 :: int) = 0 then k = Suc 0 else (- 1 :: int) = - 1 \<and> k \<le> 0 \<and> ps' = [])" if "ps = []"
      using 0(1) that vm_to_refl by (intro exI [of _ ps] exI [of _ 0]) (simp add: mapped_0)
  qed (use l m1 in \<open>auto intro!: runs_kret\<close>)
next
  case (Suc n)
  have up: "unat a + 4096 < 4294967296" using Suc.prems(3) uint_bound [of lst] by simp
  note st = vpn_step [OF Suc.prems(2) up]
  have le: "a \<le> lst" using Suc.prems(3) by (simp add: word_le_nat_alt)
  have l: "\<not> unat (lst - a) < 4096" using Suc.prems(3) le by (simp add: unat_sub)
  show ?case
  proof (rule mappages_step [OF Suc.prems(1)])
    show "f (vpn a) AND PTE_P = 0" using Suc.prems(4) by simp
    show "\<exists>ps' k. vst ps' d (mapped (vpn a) k pa perm f) s \<and> vm_to d ps s ps' s
      \<and> (if (- 1 :: int) = 0 then k = Suc (Suc n) else (- 1 :: int) = - 1 \<and> k \<le> Suc n \<and> ps' = [])" if "ps = []"
      using Suc.prems(1) that vm_to_refl by (intro exI [of _ ps] exI [of _ 0]) (simp add: mapped_0)
    fix s1 ps1
    let ?f = "f(vpn a := pa OR perm OR PTE_P)"
    assume s1: "vst ps1 d ?f s1" "vm_to d ps s ps1 s1"
    have "runs (mappages_loop d lst (a + PGSIZE) (pa + PGSIZE) perm) s1 (\<lambda>r s'. \<exists>ps' k.
        vst ps' d (mapped (vpn (a + PGSIZE)) k (pa + PGSIZE) perm ?f) s' \<and> vm_to d ps1 s1 ps' s'
        \<and> (if r = 0 then k = Suc n else r = - 1 \<and> k \<le> n \<and> ps' = []))"
      using Suc.prems(2-4) st by (intro Suc.IH [OF s1(1)]) auto
    then have "runs (mappages_loop d lst (a + PGSIZE) (pa + PGSIZE) perm) s1 (\<lambda>r s'. \<exists>ps' k.
        vst ps' d (mapped (vpn a) k pa perm f) s' \<and> vm_to d ps s ps' s'
        \<and> (if r = 0 then k = Suc (Suc n) else r = - 1 \<and> k \<le> Suc n \<and> ps' = []))"
    proof (rule runs_mono)
      fix r s'
      assume "\<exists>ps' k. vst ps' d (mapped (vpn (a + PGSIZE)) k (pa + PGSIZE) perm ?f) s' \<and> vm_to d ps1 s1 ps' s'
        \<and> (if r = (0 :: int) then k = Suc n else r = - 1 \<and> k \<le> n \<and> ps' = [])"
      then obtain ps' k where "vst ps' d (mapped (vpn a) (Suc k) pa perm f) s'" "vm_to d ps1 s1 ps' s'"
        "if r = 0 then k = Suc n else r = - 1 \<and> k \<le> n \<and> ps' = []" using st mapped_Suc by auto
      then show "\<exists>ps' k. vst ps' d (mapped (vpn a) k pa perm f) s' \<and> vm_to d ps s ps' s'
        \<and> (if r = 0 then k = Suc (Suc n) else r = - 1 \<and> k \<le> Suc n \<and> ps' = [])"
        using vm_to_trans [OF s1(2)] by (intro exI [of _ ps'] exI [of _ "Suc k"]) (auto split: if_splits)
    qed
    then show "runs (if unat (lst - a) < 4096 then kret 0 else mappages_loop d lst (a + PGSIZE) (pa + PGSIZE) perm) s1
      (\<lambda>r s'. \<exists>ps' k. vst ps' d (mapped (vpn a) k pa perm f) s' \<and> vm_to d ps s ps' s'
        \<and> (if r = 0 then k = Suc (Suc n) else r = - 1 \<and> k \<le> Suc n \<and> ps' = []))" using l by simp
  qed
qed

section \<open>Translation\<close>

definition translate :: "(nat \<Rightarrow> uint) \<Rightarrow> uint \<Rightarrow> uint option" where
  "translate f va = (if f (vpn va) AND PTE_P = 0 then None else Some (PTE_ADDR (f (vpn va)) + (va AND 0xFFF)))"

lemma vtop_translate:
  assumes "pgdir_ok e ps m d"
  shows "vtop m d va = translate (pte m d) va"
proof -
  let ?x = "vpn va div 1024"
  have rd: "rd32 m (unat (d + 4 * PDX va)) = pde m d ?x" "?x < 1024"
    using dir_addr [of e d va] assms by (simp_all add: pde_def pgdir_ok_def)
  show ?thesis
  proof (cases "has_tab m d ?x")
    case True
    then have "rd32 m (unat (PTE_ADDR (pde m d ?x) + 4 * PTX va)) = pte m d (vpn va)"
      using entry_addr [OF assms] by (simp add: pte_def pgtab_def)
    then show ?thesis using True by (simp add: vtop_def translate_def rd Let_def has_tab_def)
  next
    case False
    then show ?thesis using rd by (simp add: vtop_def translate_def Let_def has_tab_def pte_def)
  qed
qed

lemma low_bits: "unat ((va :: uint) AND 0xFFF) = unat va mod 4096"
proof -
  have "va AND 0xFFF = take_bit 12 va" by (simp add: take_bit_eq_mask mask_eq_exp_minus_1)
  then show ?thesis by (simp add: unsigned_take_bit_eq take_bit_eq_mod unat_mod)
qed

lemma translate_mapped:
  assumes "unat la mod 4096 = 0" "unat pa mod 4096 = 0" "perm < PGSIZE"
    "i < 4096 * n" "unat la + i < 4294967296" "unat pa + i < 4294967296"
  shows "translate (mapped (vpn la) n pa perm f) (la + of_nat i) = Some (pa + of_nat i)"
proof -
  let ?va = "la + of_nat i" and ?q = "4096 * (i div 4096)"
  have u: "unat ?va = unat la + i" "unat (pa + of_nat i) = unat pa + i"
    using assms(5,6) by (simp_all add: unat_word_ariths unat_of_nat)
  have v: "vpn ?va = vpn la + i div 4096"
    using u(1) assms(1) by (simp add: vpn_def div_add1_eq [of "unat la" i])
  have in_range: "i div 4096 < n" using assms(4) by (simp add: less_mult_imp_div_less mult.commute)
  let ?w = "(pa + of_nat ?q) OR (perm OR PTE_P)"
  have e: "mapped (vpn la) n pa perm f (vpn ?va) = ?w" using v in_range by (simp add: mapped_def or.assoc)
  have "?q \<le> i" by simp
  then have uq: "unat (pa + of_nat ?q) = unat pa + ?q"
    using assms(6) by (simp add: unat_word_ariths unat_of_nat)
  have "PTE_ADDR ?w = pa + of_nat ?q"
  proof (rule PTE_ADDR_or)
    show "(pa + of_nat ?q) mod PGSIZE = 0" using uq assms(2) by (simp add: word_mod_eq_0)
    have "uint perm OR uint PTE_P < 2 ^ 12" using assms(3) by (intro OR_upper) (simp_all add: word_less_def)
    then show "perm OR PTE_P < PGSIZE" by (simp add: word_less_def uint_or)
  qed
  moreover have "?w AND PTE_P \<noteq> 0" by (simp add: flag_simps bit_or_iff)
  moreover have "unat (?va AND 0xFFF) = i mod 4096" using u(1) assms(1) by (simp add: low_bits mod_add_eq [symmetric])
  then have "?va AND 0xFFF = of_nat (i mod 4096)" by (metis of_nat_unat ucast_id)
  then have "pa + of_nat ?q + (?va AND 0xFFF) = pa + of_nat i"
    by (simp only: add.assoc of_nat_add [symmetric] mult_div_mod_eq)
  ultimately show ?thesis by (simp add: translate_def e)
qed

lemma vpn_end:
  assumes "0 < sz" "unat la + unat sz \<le> 4294967296"
  shows "unat (la + sz - 1) = unat la + unat sz - 1" "vpn la \<le> vpn (la + sz - 1)"
    "unat (PGROUNDDOWN (la + sz - 1)) = unat (PGROUNDDOWN la) + 4096 * (vpn (la + sz - 1) - vpn la)"
proof -
  have sz: "1 \<le> unat sz" using assms(1) by (simp add: word_less_nat_alt Suc_le_eq)
  have "la + sz - 1 = la + (sz - 1)" by simp
  moreover have "unat (sz - 1) = unat sz - 1" using sz by (simp add: unat_sub word_le_nat_alt)
  ultimately show u: "unat (la + sz - 1) = unat la + unat sz - 1"
    using assms(2) sz unat_word_ariths(1) [of la "sz - 1"] by (simp only:) simp
  show le: "vpn la \<le> vpn (la + sz - 1)" using sz unfolding vpn_def u by (intro div_le_mono) simp
  show "unat (PGROUNDDOWN (la + sz - 1)) = unat (PGROUNDDOWN la) + 4096 * (vpn (la + sz - 1) - vpn la)"
    unfolding unat_PGROUNDDOWN vpn_def [symmetric] using le by (simp add: diff_mult_distrib2 mult.commute)
qed

text \<open>
  C32: \<open>mappages\<close> builds the translation it is asked for. If no page of the range is mapped yet, it
  returns, and either 0, and then the hardware translates every address of the range to the
  physical address at the same offset, or -1, and then the free pages are used up. Outside the
  pages of the range every address is translated as before; the free pages it took have become
  page tables, the directory stays well formed, and no memory outside the directory and its
  tables changes.
\<close>

theorem mappages_maps:
  assumes "kmem_inv ps s" "L_kmem \<notin> set (held s)" "pgdir_ok (kend s) ps (phys s) d"
    and "unat la mod 4096 = 0" "unat pa mod 4096 = 0" "perm < PGSIZE" "0 < sz"
    and "unat la + unat sz \<le> 4294967296" "unat pa + unat sz \<le> 4294967296"
    and "\<And>v. vpn la \<le> v \<Longrightarrow> v \<le> vpn (la + sz - 1) \<Longrightarrow> pte (phys s) d v AND PTE_P = 0"
  shows "runs (mappages d la sz pa perm) s (\<lambda>r t. \<exists>ps'. kmem_inv ps' t \<and> pgdir_ok (kend t) ps' (phys t) d \<and> vm_to d ps s ps' t
    \<and> (\<forall>va. vpn va < vpn la \<or> vpn (la + sz - 1) < vpn va \<longrightarrow> vtop (phys t) d va = vtop (phys s) d va)
    \<and> (if r = 0 then \<forall>i<unat sz. vtop (phys t) d (la + of_nat i) = Some (pa + of_nat i) else r = - 1 \<and> ps' = []))"
proof -
  let ?n = "vpn (la + sz - 1) - vpn la" and ?f = "pte (phys s) d"
  note e = vpn_end [OF assms(7,8)]
  have down: "PGROUNDDOWN la = la" using assms(4) div_mult_mod_eq [of "unat la" 4096] by (simp add: word_unat_eq_iff unat_PGROUNDDOWN)
  have m: "runs (mappages d la sz pa perm) s (\<lambda>r t. \<exists>ps' k. vst ps' d (mapped (vpn la) k pa perm ?f) t \<and> vm_to d ps s ps' t
    \<and> (if r = 0 then k = Suc ?n else r = - 1 \<and> k \<le> ?n \<and> ps' = []))"
    unfolding mappages_def down
    by (rule mappages_loop_runs) (use assms e in \<open>auto simp: vst_def down\<close>)
  show ?thesis
  proof (rule runs_mono [OF m], elim exE conjE)
    fix r t ps' k
    assume t: "vst ps' d (mapped (vpn la) k pa perm ?f) t" "vm_to d ps s ps' t"
      and r: "if r = (0 :: int) then k = Suc ?n else r = - 1 \<and> k \<le> ?n \<and> ps' = []"
    have ok: "kmem_inv ps' t" "pgdir_ok (kend t) ps' (phys t) d" "pte (phys t) d = mapped (vpn la) k pa perm ?f"
      using t(1) by (simp_all add: vst_def)
    have k: "k \<le> Suc ?n" using r by (auto split: if_splits)
    have "vtop (phys t) d va = vtop (phys s) d va" if "vpn va < vpn la \<or> vpn (la + sz - 1) < vpn va" for va
      using that k e(2) unfolding vtop_translate [OF ok(2)] vtop_translate [OF assms(3)] translate_def ok(3)
      by (auto simp: mapped_def)
    moreover have "vtop (phys t) d (la + of_nat i) = Some (pa + of_nat i)" if "r = 0" "i < unat sz" for i
      unfolding vtop_translate [OF ok(2)] ok(3)
    proof (rule translate_mapped)
      have "unat la + i \<le> unat (la + sz - 1)" using that(2) e(1) by simp
      then have "unat la + i < 4096 * Suc (vpn (la + sz - 1))" by (simp add: vpn_def)
      moreover have "unat la = 4096 * vpn la" using assms(4) div_mult_mod_eq [of "unat la" 4096] by (simp add: vpn_def)
      ultimately show "i < 4096 * k" using that(1) r e(2) by (simp add: algebra_simps)
    qed (use assms that in auto)
    ultimately show "\<exists>ps'. kmem_inv ps' t \<and> pgdir_ok (kend t) ps' (phys t) d \<and> vm_to d ps s ps' t
      \<and> (\<forall>va. vpn va < vpn la \<or> vpn (la + sz - 1) < vpn va \<longrightarrow> vtop (phys t) d va = vtop (phys s) d va)
      \<and> (if r = 0 then \<forall>i<unat sz. vtop (phys t) d (la + of_nat i) = Some (pa + of_nat i) else r = - 1 \<and> ps' = [])"
      using ok t(2) r by (intro exI [of _ ps']) auto
  qed
qed

text \<open>A directory without tables at \<open>0x4000\<close> and the free pages \<open>0x3000\<close> and \<open>0x2000\<close>.\<close>

definition two_pages :: kmem where
  "two_pages = (kmem_boot 0x1800)\<lparr>freelist := 0x3000, phys := wr32 (\<lambda>_. 0) 0x3000 0x2000\<rparr>"

lemma two_pages_pde: "x < 1024 \<Longrightarrow> pde (phys two_pages) 0x4000 x = 0"
  by (simp add: pde_def two_pages_def rd32_wr32_other rd32_def [of "\<lambda>_. 0"])

lemma two_pages_ok:
  "kmem_inv [0x3000, 0x2000] two_pages" "pgdir_ok (kend two_pages) [0x3000, 0x2000] (phys two_pages) 0x4000"
  "pte (phys two_pages) 0x4000 v = 0" "held two_pages = []"
proof -
  show "kmem_inv [0x3000, 0x2000] two_pages"
    by (simp add: two_pages_def kmem_boot_def kmem_inv_def page_ok_def rd32_wr32_other rd32_def [of "\<lambda>_. 0"])
  have "\<not> has_tab (phys two_pages) 0x4000 x" for x using two_pages_pde [of x] by (auto simp: has_tab_def)
  then show "pgdir_ok (kend two_pages) [0x3000, 0x2000] (phys two_pages) 0x4000" "pte (phys two_pages) 0x4000 v = 0"
    by (auto simp: pgdir_ok_def tables_def pte_def page_ok_def two_pages_def kmem_boot_def)
  show "held two_pages = []" by (simp add: two_pages_def kmem_boot_def)
qed

theorem mappages_maps_witness:
  "runs (mappages 0x4000 0x1000 0x1000 0x2000 6) two_pages (\<lambda>r t. if r = 0 then vtop (phys t) 0x4000 0x1234 = Some 0x2234 else r = - 1)"
proof -
  have "runs (mappages 0x4000 0x1000 0x1000 0x2000 6) two_pages (\<lambda>r t. \<exists>ps'. kmem_inv ps' t
    \<and> pgdir_ok (kend t) ps' (phys t) 0x4000 \<and> vm_to 0x4000 [0x3000, 0x2000] two_pages ps' t
    \<and> (\<forall>va. vpn va < vpn 0x1000 \<or> vpn (0x1000 + 0x1000 - 1) < vpn va \<longrightarrow> vtop (phys t) 0x4000 va = vtop (phys two_pages) 0x4000 va)
    \<and> (if r = 0 then \<forall>i<unat (0x1000 :: uint). vtop (phys t) 0x4000 (0x1000 + of_nat i) = Some (0x2000 + of_nat i)
       else r = - 1 \<and> ps' = []))"
    by (rule mappages_maps) (use two_pages_ok in auto)
  then show ?thesis by (rule runs_mono) (auto dest: spec [of _ "0x234"] split: if_splits)
qed

end
