(* ===== verification/Gates.thy ===== *)
theory Gates
  imports Xv6_Prelude
begin

text \<open>
  Segment and gate descriptors (\<open>kernel/mmu.h\<close>), the interrupt descriptor table that \<open>tvinit\<close>
  fills in (\<open>kernel/trap.c\<close>) and the segments of a CPU that \<open>seginit\<close> and \<open>switchuvm\<close> set up
  (\<open>kernel/vm.c\<close>). A bit field is a word of its width. \<open>gate_word\<close> and \<open>seg_word\<close> are the 64 bits
  of a descriptor in memory, the first field lowest; the \<open>hw_\<close> functions take them apart as the
  processor does.
\<close>

section \<open>Descriptors\<close>

record segdesc =
  lim_15_0 :: "16 word"
  base_15_0 :: "16 word"
  base_23_16 :: "8 word"
  sd_type :: "4 word"
  sd_s :: "1 word"
  sd_dpl :: "2 word"
  sd_p :: "1 word"
  lim_19_16 :: "4 word"
  sd_avl :: "1 word"
  sd_rsv1 :: "1 word"
  sd_db :: "1 word"
  sd_g :: "1 word"
  base_31_24 :: "8 word"

record gatedesc =
  off_15_0 :: "16 word"
  gd_cs :: "16 word"
  gd_args :: "5 word"
  gd_rsv1 :: "3 word"
  gd_type :: "4 word"
  gd_s :: "1 word"
  gd_dpl :: "2 word"
  gd_p :: "1 word"
  off_31_16 :: "16 word"

abbreviation DPL_USER :: uint where "DPL_USER \<equiv> 3"
abbreviation STA_X :: uint where "STA_X \<equiv> 8"
abbreviation STA_W :: uint where "STA_W \<equiv> 2"
abbreviation STA_R :: uint where "STA_R \<equiv> 2"
abbreviation STS_T32A :: uint where "STS_T32A \<equiv> 9"
abbreviation STS_IG32 :: uint where "STS_IG32 \<equiv> 14"
abbreviation STS_TG32 :: uint where "STS_TG32 \<equiv> 15"

definition SEG :: "uint \<Rightarrow> uint \<Rightarrow> uint \<Rightarrow> uint \<Rightarrow> segdesc" where
  "SEG ty base lim dpl = \<lparr>lim_15_0 = ucast (drop_bit 12 lim AND 0xffff), base_15_0 = ucast (base AND 0xffff),
     base_23_16 = ucast (drop_bit 16 base AND 0xff), sd_type = ucast ty, sd_s = 1, sd_dpl = ucast dpl, sd_p = 1,
     lim_19_16 = ucast (drop_bit 28 lim), sd_avl = 0, sd_rsv1 = 0, sd_db = 1, sd_g = 1,
     base_31_24 = ucast (drop_bit 24 base)\<rparr>"

definition SEG16 :: "uint \<Rightarrow> uint \<Rightarrow> uint \<Rightarrow> uint \<Rightarrow> segdesc" where
  "SEG16 ty base lim dpl = \<lparr>lim_15_0 = ucast (lim AND 0xffff), base_15_0 = ucast (base AND 0xffff),
     base_23_16 = ucast (drop_bit 16 base AND 0xff), sd_type = ucast ty, sd_s = 1, sd_dpl = ucast dpl, sd_p = 1,
     lim_19_16 = ucast (drop_bit 16 lim), sd_avl = 0, sd_rsv1 = 0, sd_db = 1, sd_g = 0,
     base_31_24 = ucast (drop_bit 24 base)\<rparr>"

definition SETGATE :: "bool \<Rightarrow> uint \<Rightarrow> uint \<Rightarrow> uint \<Rightarrow> gatedesc" where
  "SETGATE istrap sel off d = \<lparr>off_15_0 = ucast (off AND 0xffff), gd_cs = ucast sel, gd_args = 0, gd_rsv1 = 0,
     gd_type = ucast (if istrap then STS_TG32 else STS_IG32), gd_s = 0, gd_dpl = ucast d, gd_p = 1,
     off_31_16 = ucast (drop_bit 16 off)\<rparr>"

section \<open>The tables\<close>

abbreviation SEG_KCODE :: nat where "SEG_KCODE \<equiv> 1"
abbreviation SEG_KDATA :: nat where "SEG_KDATA \<equiv> 2"
abbreviation SEG_KCPU :: nat where "SEG_KCPU \<equiv> 3"
abbreviation SEG_UCODE :: nat where "SEG_UCODE \<equiv> 4"
abbreviation SEG_UDATA :: nat where "SEG_UDATA \<equiv> 5"
abbreviation SEG_TSS :: nat where "SEG_TSS \<equiv> 6"
abbreviation T_SYSCALL_vec :: nat where "T_SYSCALL_vec \<equiv> 64"

definition selector :: "nat \<Rightarrow> uint" where
  "selector i = push_bit 3 (of_nat i)"

text \<open>The entry points \<open>vectors\<close> come from the generated \<open>vectors.S\<close>.\<close>

definition tvinit_loop :: "(nat \<Rightarrow> uint) \<Rightarrow> (nat \<Rightarrow> gatedesc) \<Rightarrow> nat \<Rightarrow> gatedesc" where
  "tvinit_loop vectors = fold (\<lambda>i idt. idt(i := SETGATE False (selector SEG_KCODE) (vectors i) 0)) [0..<256]"

definition tvinit :: "(nat \<Rightarrow> uint) \<Rightarrow> (nat \<Rightarrow> gatedesc) \<Rightarrow> nat \<Rightarrow> gatedesc" where
  "tvinit vectors idt = (tvinit_loop vectors idt)
     (T_SYSCALL_vec := SETGATE True (selector SEG_KCODE) (vectors T_SYSCALL_vec) DPL_USER)"

text \<open>\<open>a\<close> is the address of the CPU's \<open>cpu\<close> and \<open>proc\<close> variables, \<open>ts\<close> that of its task state.\<close>

definition seginit_gdt :: "uint \<Rightarrow> (nat \<Rightarrow> segdesc) \<Rightarrow> nat \<Rightarrow> segdesc" where
  "seginit_gdt a gdt = gdt(SEG_KCODE := SEG (STA_X OR STA_R) 0 0xffffffff 0,
     SEG_KDATA := SEG STA_W 0 0xffffffff 0,
     SEG_UCODE := SEG (STA_X OR STA_R) 0 0xffffffff DPL_USER,
     SEG_UDATA := SEG STA_W 0 0xffffffff DPL_USER,
     SEG_KCPU := SEG STA_W a 8 0)"

definition switchuvm_gdt :: "uint \<Rightarrow> (nat \<Rightarrow> segdesc) \<Rightarrow> nat \<Rightarrow> segdesc" where
  "switchuvm_gdt ts gdt = gdt(SEG_TSS := (SEG16 STS_T32A ts (104 - 1) 0)\<lparr>sd_s := 0\<rparr>)"

section \<open>What the processor reads\<close>

definition gate_word :: "gatedesc \<Rightarrow> 64 word" where
  "gate_word g = ucast (off_15_0 g) OR push_bit 16 (ucast (gd_cs g)) OR push_bit 32 (ucast (gd_args g))
     OR push_bit 37 (ucast (gd_rsv1 g)) OR push_bit 40 (ucast (gd_type g)) OR push_bit 44 (ucast (gd_s g))
     OR push_bit 45 (ucast (gd_dpl g)) OR push_bit 47 (ucast (gd_p g)) OR push_bit 48 (ucast (off_31_16 g))"

definition seg_word :: "segdesc \<Rightarrow> 64 word" where
  "seg_word d = ucast (lim_15_0 d) OR push_bit 16 (ucast (base_15_0 d)) OR push_bit 32 (ucast (base_23_16 d))
     OR push_bit 40 (ucast (sd_type d)) OR push_bit 44 (ucast (sd_s d)) OR push_bit 45 (ucast (sd_dpl d))
     OR push_bit 47 (ucast (sd_p d)) OR push_bit 48 (ucast (lim_19_16 d)) OR push_bit 52 (ucast (sd_avl d))
     OR push_bit 53 (ucast (sd_rsv1 d)) OR push_bit 54 (ucast (sd_db d)) OR push_bit 55 (ucast (sd_g d))
     OR push_bit 56 (ucast (base_31_24 d))"

text \<open>A field of \<open>n\<close> bits from bit \<open>k\<close> on, and the parts of a descriptor of either kind.\<close>

definition hw_field :: "nat \<Rightarrow> nat \<Rightarrow> 64 word \<Rightarrow> uint" where
  "hw_field k n w = ucast (take_bit n (drop_bit k w))"

definition hw_type :: "64 word \<Rightarrow> uint" where "hw_type w = hw_field 40 4 w"
definition hw_system :: "64 word \<Rightarrow> bool" where "hw_system w \<longleftrightarrow> \<not> bit w 44"
definition hw_dpl :: "64 word \<Rightarrow> uint" where "hw_dpl w = hw_field 45 2 w"
definition hw_present :: "64 word \<Rightarrow> bool" where "hw_present w \<longleftrightarrow> bit w 47"

definition hw_gate_off :: "64 word \<Rightarrow> uint" where
  "hw_gate_off w = hw_field 0 16 w OR push_bit 16 (hw_field 48 16 w)"

definition hw_gate_sel :: "64 word \<Rightarrow> uint" where
  "hw_gate_sel w = hw_field 16 16 w"

definition hw_seg_base :: "64 word \<Rightarrow> uint" where
  "hw_seg_base w = hw_field 16 24 w OR push_bit 24 (hw_field 56 8 w)"

definition hw_seg_limit :: "64 word \<Rightarrow> uint" where
  "hw_seg_limit w = (let l = hw_field 0 16 w OR push_bit 16 (hw_field 48 4 w)
     in if bit w 55 then push_bit 12 l OR 0xfff else l)"

text \<open>
  An \<open>int\<close> instruction is allowed to code of privilege level \<open>cpl\<close> when the gate is present and
  its level is not more privileged; the handler runs in the segment the gate names.
\<close>

definition int_allowed :: "uint \<Rightarrow> 64 word \<Rightarrow> bool" where
  "int_allowed cpl w \<longleftrightarrow> hw_present w \<and> cpl \<le> hw_dpl w"

section \<open>Encoding and decoding\<close>

lemmas hw_defs = hw_field_def hw_type_def hw_dpl_def hw_gate_off_def hw_gate_sel_def hw_seg_base_def

lemma bit_hw_field: "bit (hw_field k n w) i \<longleftrightarrow> i < n \<and> i < 32 \<and> bit w (k + i)"
  by (auto simp: hw_field_def bit_simps)

lemma bit_beyond: "LENGTH('a) \<le> n \<Longrightarrow> \<not> bit (x :: 'a::len word) n"
  using bit_imp_le_length [of x n] by linarith

lemmas gate_bits = bit_hw_field gate_word_def bit_simps bit_beyond
lemmas seg_bits = bit_hw_field seg_word_def bit_simps bit_beyond

lemma gate_fields:
  "hw_field 0 16 (gate_word g) = ucast (off_15_0 g)" "hw_field 48 16 (gate_word g) = ucast (off_31_16 g)"
  "hw_field 16 16 (gate_word g) = ucast (gd_cs g)" "hw_field 40 4 (gate_word g) = ucast (gd_type g)"
  "hw_field 45 2 (gate_word g) = ucast (gd_dpl g)" "bit (gate_word g) 44 = bit (gd_s g) 0" "bit (gate_word g) 47 = bit (gd_p g) 0"
proof -
  show "hw_field 0 16 (gate_word g) = ucast (off_15_0 g)"
  proof (rule bit_word_eqI)
    fix i show "bit (hw_field 0 16 (gate_word g)) i = bit (ucast (off_15_0 g) :: uint) i"
      by (cases "i < 16") (simp_all add: gate_bits)
  qed
  show "hw_field 48 16 (gate_word g) = ucast (off_31_16 g)"
  proof (rule bit_word_eqI)
    fix i show "bit (hw_field 48 16 (gate_word g)) i = bit (ucast (off_31_16 g) :: uint) i"
      by (cases "i < 16") (simp_all add: gate_bits)
  qed
  show "hw_field 16 16 (gate_word g) = ucast (gd_cs g)"
  proof (rule bit_word_eqI)
    fix i show "bit (hw_field 16 16 (gate_word g)) i = bit (ucast (gd_cs g) :: uint) i"
      by (cases "i < 16") (simp_all add: gate_bits)
  qed
  show "hw_field 40 4 (gate_word g) = ucast (gd_type g)"
  proof (rule bit_word_eqI)
    fix i show "bit (hw_field 40 4 (gate_word g)) i = bit (ucast (gd_type g) :: uint) i"
      by (cases "i < 4") (simp_all add: gate_bits)
  qed
  show "hw_field 45 2 (gate_word g) = ucast (gd_dpl g)"
  proof (rule bit_word_eqI)
    fix i show "bit (hw_field 45 2 (gate_word g)) i = bit (ucast (gd_dpl g) :: uint) i"
      by (cases "i < 2") (simp_all add: gate_bits)
  qed
qed (simp_all add: gate_bits)

lemma low_field: "(ucast ((x :: uint) AND 0xffff) :: 16 word) = ucast x" "(ucast (x AND 0xff) :: 8 word) = ucast x"
proof -
  have "x AND 0xffff = take_bit 16 x" "x AND 0xff = take_bit 8 x" by (simp_all add: take_bit_eq_mask mask_eq_exp_minus_1)
  then show "(ucast (x AND 0xffff) :: 16 word) = ucast x" "(ucast (x AND 0xff) :: 8 word) = ucast x"
    by (auto intro!: bit_word_eqI simp: bit_simps)
qed

lemma join_parts:
  "take_bit 16 x OR push_bit 16 (take_bit 16 (drop_bit 16 x)) = (x :: uint)"
  "(take_bit 16 x OR push_bit 16 (take_bit 8 (drop_bit 16 x))) OR push_bit 24 (take_bit 8 (drop_bit 24 x)) = x"
  "(push_bit 12 (take_bit 16 (drop_bit 12 x)) OR push_bit 28 (take_bit 4 (drop_bit 28 x))) OR 0xfff = x OR 0xfff"
proof -
  show "take_bit 16 x OR push_bit 16 (take_bit 16 (drop_bit 16 x)) = x"
    by (rule bit_word_eqI) (auto simp: bit_simps)
  show "(take_bit 16 x OR push_bit 16 (take_bit 8 (drop_bit 16 x))) OR push_bit 24 (take_bit 8 (drop_bit 24 x)) = x"
  proof (rule bit_word_eqI)
    fix i assume "i < LENGTH(32)"
    then show "bit ((take_bit 16 x OR push_bit 16 (take_bit 8 (drop_bit 16 x))) OR push_bit 24 (take_bit 8 (drop_bit 24 x))) i = bit x i"
      by (cases "i < 24") (auto simp: bit_simps not_less less_diff_conv2)
  qed
  have "(push_bit 12 (take_bit 16 (drop_bit 12 x)) OR push_bit 28 (take_bit 4 (drop_bit 28 x))) OR mask 12 = x OR mask 12"
  proof (rule bit_word_eqI)
    fix i assume "i < LENGTH(32)"
    then show "bit ((push_bit 12 (take_bit 16 (drop_bit 12 x)) OR push_bit 28 (take_bit 4 (drop_bit 28 x))) OR mask 12) i
      = bit (x OR mask 12) i"
      by (cases "i < 12"; cases "i < 28") (auto simp: bit_simps not_less less_diff_conv2)
  qed
  then show "(push_bit 12 (take_bit 16 (drop_bit 12 x)) OR push_bit 28 (take_bit 4 (drop_bit 28 x))) OR 0xfff = x OR 0xfff"
    by (simp add: mask_eq_exp_minus_1)
qed

lemma ucast_ucast_take: "(ucast (ucast (x :: uint) :: 'b::len word) :: uint) = take_bit LENGTH('b) x"
  by (rule bit_word_eqI) (auto simp: bit_simps)

lemma gate_decode:
  "hw_gate_off (gate_word (SETGATE t sel off d)) = off"
  "hw_gate_sel (gate_word (SETGATE t sel off d)) = take_bit 16 sel"
  "hw_type (gate_word (SETGATE t sel off d)) = (if t then STS_TG32 else STS_IG32)"
  "hw_dpl (gate_word (SETGATE t sel off d)) = take_bit 2 d"
  "hw_present (gate_word (SETGATE t sel off d))"
  "hw_system (gate_word (SETGATE t sel off d))"
  unfolding hw_gate_off_def hw_gate_sel_def hw_type_def hw_dpl_def hw_present_def hw_system_def gate_fields SETGATE_def
  by (simp_all add: low_field ucast_ucast_take join_parts)

lemma seg_fields:
  "hw_field 16 24 (seg_word d) = ucast (base_15_0 d) OR push_bit 16 (ucast (base_23_16 d))"
  "hw_field 56 8 (seg_word d) = ucast (base_31_24 d)"
  "hw_field 0 16 (seg_word d) = ucast (lim_15_0 d)" "hw_field 48 4 (seg_word d) = ucast (lim_19_16 d)"
  "hw_field 40 4 (seg_word d) = ucast (sd_type d)" "hw_field 45 2 (seg_word d) = ucast (sd_dpl d)"
  "bit (seg_word d) 44 = bit (sd_s d) 0" "bit (seg_word d) 47 = bit (sd_p d) 0" "bit (seg_word d) 55 = bit (sd_g d) 0"
proof -
  show "hw_field 16 24 (seg_word d) = ucast (base_15_0 d) OR push_bit 16 (ucast (base_23_16 d))"
  proof (rule bit_word_eqI)
    fix i show "bit (hw_field 16 24 (seg_word d)) i = bit (ucast (base_15_0 d) OR push_bit 16 (ucast (base_23_16 d)) :: uint) i"
      by (cases "i < 16"; cases "i < 24") (simp_all add: seg_bits less_diff_conv2 not_less)
  qed
  show "hw_field 56 8 (seg_word d) = ucast (base_31_24 d)"
  proof (rule bit_word_eqI)
    fix i show "bit (hw_field 56 8 (seg_word d)) i = bit (ucast (base_31_24 d) :: uint) i"
      by (cases "i < 8") (simp_all add: seg_bits)
  qed
  show "hw_field 0 16 (seg_word d) = ucast (lim_15_0 d)"
  proof (rule bit_word_eqI)
    fix i show "bit (hw_field 0 16 (seg_word d)) i = bit (ucast (lim_15_0 d) :: uint) i"
      by (cases "i < 16") (simp_all add: seg_bits)
  qed
  show "hw_field 48 4 (seg_word d) = ucast (lim_19_16 d)"
  proof (rule bit_word_eqI)
    fix i show "bit (hw_field 48 4 (seg_word d)) i = bit (ucast (lim_19_16 d) :: uint) i"
      by (cases "i < 4") (simp_all add: seg_bits)
  qed
  show "hw_field 40 4 (seg_word d) = ucast (sd_type d)"
  proof (rule bit_word_eqI)
    fix i show "bit (hw_field 40 4 (seg_word d)) i = bit (ucast (sd_type d) :: uint) i"
      by (cases "i < 4") (simp_all add: seg_bits)
  qed
  show "hw_field 45 2 (seg_word d) = ucast (sd_dpl d)"
  proof (rule bit_word_eqI)
    fix i show "bit (hw_field 45 2 (seg_word d)) i = bit (ucast (sd_dpl d) :: uint) i"
      by (cases "i < 2") (simp_all add: seg_bits)
  qed
qed (simp_all add: seg_bits)

lemma seg_decode:
  "hw_seg_base (seg_word (SEG ty base lim dpl)) = base"
  "hw_seg_limit (seg_word (SEG ty base lim dpl)) = lim OR 0xfff"
  "hw_type (seg_word (SEG ty base lim dpl)) = take_bit 4 ty"
  "hw_dpl (seg_word (SEG ty base lim dpl)) = take_bit 2 dpl"
  "hw_present (seg_word (SEG ty base lim dpl))"
  "\<not> hw_system (seg_word (SEG ty base lim dpl))"
  unfolding hw_seg_base_def hw_seg_limit_def hw_type_def hw_dpl_def hw_present_def hw_system_def seg_fields SEG_def Let_def
  by (simp_all add: low_field ucast_ucast_take join_parts)

lemma tvinit_at:
  "tvinit vectors idt i = (if i = T_SYSCALL_vec then SETGATE True (selector SEG_KCODE) (vectors i) DPL_USER
     else if i < 256 then SETGATE False (selector SEG_KCODE) (vectors i) 0 else idt i)"
proof -
  have "fold (\<lambda>i idt. idt(i := SETGATE False (selector SEG_KCODE) (vectors i) 0)) [0..<n] idt i
      = (if i < n then SETGATE False (selector SEG_KCODE) (vectors i) 0 else idt i)" for n
    by (induction n) auto
  then show ?thesis by (simp add: tvinit_def tvinit_loop_def)
qed

definition idt_word :: "(nat \<Rightarrow> uint) \<Rightarrow> (nat \<Rightarrow> gatedesc) \<Rightarrow> nat \<Rightarrow> 64 word" where
  "idt_word vectors idt i = gate_word (tvinit vectors idt i)"

definition gdt_word :: "uint \<Rightarrow> (nat \<Rightarrow> segdesc) \<Rightarrow> nat \<Rightarrow> 64 word" where
  "gdt_word a gdt k = seg_word (seginit_gdt a gdt k)"

text \<open>
  C40: The descriptor tables are well formed. Whatever was in the tables before, after \<open>tvinit\<close>
  the processor finds in each of the 256 gates the address of its vector, in the kernel code
  segment, and a present system gate; every gate turns interrupts off but the one for system
  calls, which is also the only one that user code may call with an \<open>int\<close> instruction. After
  \<open>seginit\<close> the code and data segments start at 0 and reach to the end of memory, the two user
  segments have user privilege and no other has, and the segment for the CPU's own variables
  starts at their address. A segment or gate is read back as \<open>SEG\<close> or \<open>SETGATE\<close> was given it.
\<close>

theorem descriptor_tables:
  "(\<forall>i<256. hw_gate_off (idt_word vectors idt i) = vectors i \<and> hw_gate_sel (idt_word vectors idt i) = selector SEG_KCODE \<and> hw_system (idt_word vectors idt i)
      \<and> hw_present (idt_word vectors idt i) \<and> (hw_type (idt_word vectors idt i) = STS_IG32 \<longleftrightarrow> i \<noteq> T_SYSCALL_vec)
      \<and> (int_allowed DPL_USER (idt_word vectors idt i) \<longleftrightarrow> i = T_SYSCALL_vec))
    \<and> (\<forall>k\<in>{SEG_KCODE, SEG_KDATA, SEG_UCODE, SEG_UDATA}. hw_seg_base (gdt_word a gdt k) = 0 \<and> hw_seg_limit (gdt_word a gdt k) = 0xffffffff
      \<and> hw_present (gdt_word a gdt k) \<and> \<not> hw_system (gdt_word a gdt k) \<and> hw_dpl (gdt_word a gdt k) = (if k = SEG_UCODE \<or> k = SEG_UDATA then DPL_USER else 0)
      \<and> hw_type (gdt_word a gdt k) = (if k = SEG_KCODE \<or> k = SEG_UCODE then 10 else 2))
    \<and> hw_seg_base (gdt_word a gdt SEG_KCPU) = a \<and> hw_dpl (gdt_word a gdt SEG_KCPU) = 0"
proof -
  have "take_bit 16 (selector 1) = selector 1" "take_bit 2 (3 :: uint) = 3" by (simp_all add: selector_def take_bit_eq_mod)
  then have "hw_gate_off (idt_word vectors idt i) = vectors i \<and> hw_gate_sel (idt_word vectors idt i) = selector SEG_KCODE \<and> hw_system (idt_word vectors idt i)
      \<and> hw_present (idt_word vectors idt i) \<and> (hw_type (idt_word vectors idt i) = STS_IG32 \<longleftrightarrow> i \<noteq> T_SYSCALL_vec)
      \<and> (int_allowed DPL_USER (idt_word vectors idt i) \<longleftrightarrow> i = T_SYSCALL_vec)" if "i < 256" for i
    using that by (simp add: idt_word_def tvinit_at gate_decode int_allowed_def)
  moreover have "hw_seg_base (gdt_word a gdt k) = 0 \<and> hw_seg_limit (gdt_word a gdt k) = 0xffffffff
      \<and> hw_present (gdt_word a gdt k) \<and> \<not> hw_system (gdt_word a gdt k) \<and> hw_dpl (gdt_word a gdt k) = (if k = SEG_UCODE \<or> k = SEG_UDATA then DPL_USER else 0)
      \<and> hw_type (gdt_word a gdt k) = (if k = SEG_KCODE \<or> k = SEG_UCODE then 10 else 2)" if "k \<in> {SEG_KCODE, SEG_KDATA, SEG_UCODE, SEG_UDATA}" for k
    using that by (auto simp: gdt_word_def seginit_gdt_def seg_decode take_bit_eq_mod)
  moreover have "hw_seg_base (gdt_word a gdt SEG_KCPU) = a" "hw_dpl (gdt_word a gdt SEG_KCPU) = 0" by (simp_all add: gdt_word_def seginit_gdt_def seg_decode)
  ultimately show ?thesis by blast
qed

theorem descriptor_tables_witness:
  "hw_gate_off (idt_word (\<lambda>i. 0x100000 + 7 * of_nat i) (\<lambda>_. SETGATE False 0 0 0) 64) = 0x1001c0
   \<and> int_allowed DPL_USER (idt_word (\<lambda>i. 0x100000 + 7 * of_nat i) (\<lambda>_. SETGATE False 0 0 0) 64)
   \<and> \<not> int_allowed DPL_USER (idt_word (\<lambda>i. 0x100000 + 7 * of_nat i) (\<lambda>_. SETGATE False 0 0 0) 14)
   \<and> hw_dpl (gdt_word 0 (\<lambda>_. SEG 0 0 0 0) SEG_UCODE) = 3"
  using descriptor_tables [of "\<lambda>i. 0x100000 + 7 * of_nat i" "\<lambda>_. SETGATE False 0 0 0" 0 "\<lambda>_. SEG 0 0 0 0"] by simp

end
