(* ===== verification/Intr_Ctl.thy ===== *)
theory Intr_Ctl
  imports Console
begin

text \<open>
  The interrupt controllers and the other devices that are only programmed at the start:
  \<open>kernel/picirq.c\<close>, \<open>kernel/ioapic.c\<close>, \<open>kernel/lapic.c\<close>, \<open>kernel/timer.c\<close> and \<open>uartinit\<close> of
  \<open>kernel/uart.c\<close>. What the kernel writes to a device is kept in order in a log: bytes to I/O
  ports, words to registers of the local APIC and of the I/O APIC. What a device answers is an
  argument. \<open>microdelay\<close> does nothing; the wait for the delivery of an interrupt command is
  taken to end.
\<close>

record devices =
  ismp :: bool
  lapic :: uint
  ioapicid :: uchar
  irqmask :: ushort
  uart_there :: bool
  ports :: "(ushort \<times> uchar) list"
  lapic_log :: "(nat \<times> uint) list"
  ioapic_log :: "(nat \<times> uint) list"
  low_mem :: bytes
  messages :: "string list"

definition outb :: "ushort \<Rightarrow> uchar \<Rightarrow> devices \<Rightarrow> devices" where
  "outb p v d = d\<lparr>ports := ports d @ [(p, v)]\<rparr>"

definition outs :: "(ushort \<times> uchar) list \<Rightarrow> devices \<Rightarrow> devices" where
  "outs ws d = fold (\<lambda>(p, v). outb p v) ws d"

definition say :: "string \<Rightarrow> varg list \<Rightarrow> devices \<Rightarrow> devices" where
  "say fmt args d = d\<lparr>messages := messages d @ [the (cprintf_chars fmt args)]\<rparr>"

abbreviation (input) T_IRQ0 :: nat where "T_IRQ0 \<equiv> 32"
abbreviation (input) IRQ_TIMER :: nat where "IRQ_TIMER \<equiv> 0"
abbreviation (input) IRQ_COM1 :: nat where "IRQ_COM1 \<equiv> 4"
abbreviation (input) IRQ_ERROR :: nat where "IRQ_ERROR \<equiv> 19"
abbreviation (input) IRQ_SPURIOUS :: nat where "IRQ_SPURIOUS \<equiv> 31"

section \<open>The two 8259A controllers\<close>

abbreviation (input) IO_PIC1 :: ushort where "IO_PIC1 \<equiv> 0x20"
abbreviation (input) IO_PIC2 :: ushort where "IO_PIC2 \<equiv> 0xA0"
abbreviation (input) IRQ_SLAVE :: nat where "IRQ_SLAVE \<equiv> 2"

definition irqmask_init :: ushort where
  "irqmask_init = 0xFFFF AND NOT (push_bit IRQ_SLAVE 1)"

definition picsetmask :: "ushort \<Rightarrow> devices \<Rightarrow> devices" where
  "picsetmask m d =
     outb (IO_PIC2 + 1) (ucast (drop_bit 8 m)) (outb (IO_PIC1 + 1) (ucast m) (d\<lparr>irqmask := m\<rparr>))"

definition picenable :: "nat \<Rightarrow> devices \<Rightarrow> devices" where
  "picenable irq d = picsetmask (irqmask d AND NOT (push_bit irq 1)) d"

definition picinit :: "devices \<Rightarrow> devices" where
  "picinit d =
     (let d = outs [(IO_PIC1 + 1, 0xFF), (IO_PIC2 + 1, 0xFF),
            (IO_PIC1, 0x11), (IO_PIC1 + 1, of_nat T_IRQ0), (IO_PIC1 + 1, push_bit IRQ_SLAVE 1), (IO_PIC1 + 1, 3),
            (IO_PIC2, 0x11), (IO_PIC2 + 1, of_nat (T_IRQ0 + 8)), (IO_PIC2 + 1, of_nat IRQ_SLAVE), (IO_PIC2 + 1, 3),
            (IO_PIC1, 0x68), (IO_PIC1, 0x0a), (IO_PIC2, 0x68), (IO_PIC2, 0x0a)] d
      in if irqmask d \<noteq> 0xFFFF then picsetmask (irqmask d) d else d)"

section \<open>The I/O APIC\<close>

abbreviation (input) REG_ID :: nat where "REG_ID \<equiv> 0"
abbreviation (input) REG_VER :: nat where "REG_VER \<equiv> 1"
abbreviation (input) REG_TABLE :: nat where "REG_TABLE \<equiv> 0x10"
abbreviation (input) INT_DISABLED :: uint where "INT_DISABLED \<equiv> 0x10000"

definition ioapicwrite :: "nat \<Rightarrow> uint \<Rightarrow> devices \<Rightarrow> devices" where
  "ioapicwrite reg v d = d\<lparr>ioapic_log := ioapic_log d @ [(reg, v)]\<rparr>"

definition ioapicinit :: "(nat \<Rightarrow> uint) \<Rightarrow> devices \<Rightarrow> devices" where
  "ioapicinit ioapicread d =
     (if \<not> ismp d then d
      else
        let maxintr = drop_bit 16 (ioapicread REG_VER) AND 0xFF;
            d = (if drop_bit 24 (ioapicread REG_ID) \<noteq> ucast (ioapicid d)
                 then say (''ioapicinit: id isn't equal to ioapicid; not a MP'' @ NL) [] d else d)
        in fold (\<lambda>i d. ioapicwrite (REG_TABLE + 2 * i + 1) 0
             (ioapicwrite (REG_TABLE + 2 * i) (INT_DISABLED OR of_nat (T_IRQ0 + i)) d)) [0..<unat maxintr + 1] d)"

definition ioapicenable :: "nat \<Rightarrow> nat \<Rightarrow> devices \<Rightarrow> devices" where
  "ioapicenable irq cpunum d =
     (if \<not> ismp d then d
      else ioapicwrite (REG_TABLE + 2 * irq + 1) (push_bit 24 (of_nat cpunum))
        (ioapicwrite (REG_TABLE + 2 * irq) (of_nat (T_IRQ0 + irq)) d))"

section \<open>The local APIC\<close>

abbreviation (input) LA_ID :: nat where "LA_ID \<equiv> 0x20 div 4"
abbreviation (input) LA_VER :: nat where "LA_VER \<equiv> 0x30 div 4"
abbreviation (input) LA_TPR :: nat where "LA_TPR \<equiv> 0x80 div 4"
abbreviation (input) LA_EOI :: nat where "LA_EOI \<equiv> 0xB0 div 4"
abbreviation (input) LA_SVR :: nat where "LA_SVR \<equiv> 0xF0 div 4"
abbreviation (input) LA_ESR :: nat where "LA_ESR \<equiv> 0x280 div 4"
abbreviation (input) LA_ICRLO :: nat where "LA_ICRLO \<equiv> 0x300 div 4"
abbreviation (input) LA_ICRHI :: nat where "LA_ICRHI \<equiv> 0x310 div 4"
abbreviation (input) LA_TIMER :: nat where "LA_TIMER \<equiv> 0x320 div 4"
abbreviation (input) LA_PCINT :: nat where "LA_PCINT \<equiv> 0x340 div 4"
abbreviation (input) LA_LINT0 :: nat where "LA_LINT0 \<equiv> 0x350 div 4"
abbreviation (input) LA_LINT1 :: nat where "LA_LINT1 \<equiv> 0x360 div 4"
abbreviation (input) LA_ERROR :: nat where "LA_ERROR \<equiv> 0x370 div 4"
abbreviation (input) LA_TICR :: nat where "LA_TICR \<equiv> 0x380 div 4"
abbreviation (input) LA_TDCR :: nat where "LA_TDCR \<equiv> 0x3E0 div 4"

abbreviation (input) LA_ENABLE :: uint where "LA_ENABLE \<equiv> 0x100"
abbreviation (input) LA_INIT :: uint where "LA_INIT \<equiv> 0x500"
abbreviation (input) LA_STARTUP :: uint where "LA_STARTUP \<equiv> 0x600"
abbreviation (input) LA_ASSERT :: uint where "LA_ASSERT \<equiv> 0x4000"
abbreviation (input) LA_LEVEL :: uint where "LA_LEVEL \<equiv> 0x8000"
abbreviation (input) LA_BCAST :: uint where "LA_BCAST \<equiv> 0x80000"
abbreviation (input) LA_X1 :: uint where "LA_X1 \<equiv> 0xB"
abbreviation (input) LA_PERIODIC :: uint where "LA_PERIODIC \<equiv> 0x20000"
abbreviation (input) LA_MASKED :: uint where "LA_MASKED \<equiv> 0x10000"

definition lapicw :: "nat \<Rightarrow> uint \<Rightarrow> devices \<Rightarrow> devices" where
  "lapicw i v d = d\<lparr>lapic_log := lapic_log d @ [(i, v)]\<rparr>"

definition lapicinit :: "uint \<Rightarrow> uint \<Rightarrow> devices \<Rightarrow> devices" where
  "lapicinit ver c d =
     (let d = say (''lapicinit: %d 0x%x'' @ NL) [VInt c, VInt (lapic d)] d
      in if lapic d = 0 then d
         else fold (\<lambda>(i, v). lapicw i v)
           ([(LA_SVR, LA_ENABLE OR of_nat (T_IRQ0 + IRQ_SPURIOUS)),
             (LA_TDCR, LA_X1), (LA_TIMER, LA_PERIODIC OR of_nat (T_IRQ0 + IRQ_TIMER)), (LA_TICR, 10000000),
             (LA_LINT0, LA_MASKED), (LA_LINT1, LA_MASKED)]
            @ (if drop_bit 16 ver AND 0xFF \<ge> 4 then [(LA_PCINT, LA_MASKED)] else [])
            @ [(LA_ERROR, of_nat (T_IRQ0 + IRQ_ERROR)), (LA_ESR, 0), (LA_ESR, 0), (LA_EOI, 0),
               (LA_ICRHI, 0), (LA_ICRLO, LA_BCAST OR LA_INIT OR LA_LEVEL), (LA_TPR, 0)]) d)"

text \<open>
  \<open>cpunum\<close> reads its number from the local APIC; with interrupts on it prints a warning, once:
  \<open>n\<close> is its static counter, \<open>ret\<close> the return address.
\<close>

definition cpunum :: "bool \<Rightarrow> uint \<Rightarrow> uint \<Rightarrow> uint \<Rightarrow> devices \<Rightarrow> uint \<times> uint \<times> devices" where
  "cpunum intr_on ret la_id n d =
     (let (n', d) = (if intr_on then
            (n + 1, if n = 0 then say (''cpu called from %x with interrupts enabled'' @ NL) [VInt ret] d else d)
            else (n, d))
      in (if lapic d \<noteq> 0 then drop_bit 24 la_id else 0, n', d))"

definition lapiceoi :: "devices \<Rightarrow> devices" where
  "lapiceoi d = (if lapic d \<noteq> 0 then lapicw LA_EOI 0 d else d)"

abbreviation (input) IO_RTC :: ushort where "IO_RTC \<equiv> 0x70"

definition lapicstartap :: "uchar \<Rightarrow> uint \<Rightarrow> devices \<Rightarrow> devices" where
  "lapicstartap apicid addr d =
     (let d = outs [(IO_RTC, 0xF), (IO_RTC + 1, 0x0A)] d;
          d = d\<lparr>low_mem := wr16 (wr16 (low_mem d) 0x467 0) 0x469 (ucast (drop_bit 4 addr))\<rparr>;
          sipi = [(LA_ICRHI, push_bit 24 (ucast apicid)), (LA_ICRLO, LA_STARTUP OR drop_bit 12 addr)]
      in fold (\<lambda>(i, v). lapicw i v)
           ([(LA_ICRHI, push_bit 24 (ucast apicid)), (LA_ICRLO, LA_INIT OR LA_LEVEL OR LA_ASSERT),
             (LA_ICRLO, LA_INIT OR LA_LEVEL)] @ sipi @ sipi) d)"

section \<open>The timer and the serial port\<close>

abbreviation (input) IO_TIMER1 :: ushort where "IO_TIMER1 \<equiv> 0x40"

definition TIMER_DIV :: "nat \<Rightarrow> nat" where
  "TIMER_DIV x = (1193182 + x div 2) div x"

definition timerinit :: "devices \<Rightarrow> devices" where
  "timerinit d =
     picenable IRQ_TIMER (outs [(IO_TIMER1 + 3, 0x00 OR 0x04 OR 0x30), (IO_TIMER1, of_nat (TIMER_DIV 100 mod 256)),
       (IO_TIMER1, of_nat (TIMER_DIV 100 div 256))] d)"

abbreviation (input) COM1 :: ushort where "COM1 \<equiv> 0x3f8"

definition uartinit :: "(ushort \<Rightarrow> uchar) \<Rightarrow> devices \<Rightarrow> devices" where
  "uartinit inb d =
     (let d = outs [(COM1 + 2, 0), (COM1 + 3, 0x80), (COM1 + 0, of_nat (115200 div 9600)), (COM1 + 1, 0),
            (COM1 + 3, 0x03), (COM1 + 4, 0), (COM1 + 1, 0x01)] d
      in if inb (COM1 + 5) = 0xFF then d
         else
           let d = ioapicenable IRQ_COM1 0 (picenable IRQ_COM1 (d\<lparr>uart_there := True\<rparr>))
           in outs (map (\<lambda>c. (COM1 + 0, of_char c)) (''xv6...'' @ NL)) d)"

section \<open>What the two 8259A controllers are told\<close>

text \<open>
  A controller reads the bytes written to its two ports as the 8259A data sheet has it. A byte with
  bit 4 set at the first port is the command word ICW1: it clears the mask and starts a sequence of
  further words at the second port, ICW2 (the vector of line 0), ICW3 (the cascade) unless ICW1 says that
  there is one controller, and ICW4 if ICW1 asks for it. A byte at the second port outside such a sequence is
  the mask. The other bytes at the first port do not touch any of this.
\<close>

record pic =
  pic_todo :: "nat list"
  pic_base :: uchar
  pic_icw3 :: uchar
  pic_icw4 :: uchar
  pic_mask :: uchar

definition pic_write :: "ushort \<Rightarrow> ushort \<times> uchar \<Rightarrow> pic \<Rightarrow> pic" where
  "pic_write io = (\<lambda>(p, v) c.
     if p = io \<and> bit v 4 then
       c\<lparr>pic_todo := 2 # (if bit v 1 then [] else [3]) @ (if bit v 0 then [4] else []),
         pic_icw3 := 0, pic_icw4 := 0, pic_mask := 0\<rparr>
     else if p = io + 1 then
       case pic_todo c of
         [] \<Rightarrow> c\<lparr>pic_mask := v\<rparr>
       | w # ws \<Rightarrow> (if w = 2 then c\<lparr>pic_todo := ws, pic_base := v AND 0xF8\<rparr>
           else if w = 3 then c\<lparr>pic_todo := ws, pic_icw3 := v\<rparr>
           else c\<lparr>pic_todo := ws, pic_icw4 := v\<rparr>)
     else c)"

definition pic_at :: "ushort \<Rightarrow> pic \<Rightarrow> devices \<Rightarrow> pic" where
  "pic_at io c d = fold (pic_write io) (ports d) c"

lemma pic_at_outb: "pic_at io c (outb p v d) = pic_write io (p, v) (pic_at io c d)"
  by (simp add: pic_at_def outb_def)

lemma pic_at_outs: "pic_at io c (outs ws d) = fold (pic_write io) ws (pic_at io c d)"
  unfolding outs_def by (induction ws arbitrary: d) (auto simp: pic_at_outb)

lemma pic_at_ports: "ports d' = ports d \<Longrightarrow> pic_at io c d' = pic_at io c d"
  by (simp add: pic_at_def)

text \<open>
  A line gets through when it is not masked, a line of the second controller also needs the
  cascade: its line at the first one open, and both set up for it. The processor is given the base vector
  of the controller plus the line.
\<close>

definition line_open :: "pic \<Rightarrow> pic \<Rightarrow> nat \<Rightarrow> bool" where
  "line_open m s j = (if j < 8 then \<not> bit (pic_mask m) j
     else \<not> bit (pic_mask s) (j - 8) \<and> \<not> bit (pic_mask m) IRQ_SLAVE \<and> bit (pic_icw3 m) IRQ_SLAVE \<and> pic_icw3 s = of_nat IRQ_SLAVE)"

definition line_vector :: "pic \<Rightarrow> pic \<Rightarrow> nat \<Rightarrow> nat" where
  "line_vector m s j = (if j < 8 then unat (pic_base m) + j else unat (pic_base s) + (j - 8))"

text \<open>Both controllers are set up, and their masks are the two bytes of \<open>irqmask\<close>.\<close>

definition pics_set :: "pic \<Rightarrow> pic \<Rightarrow> devices \<Rightarrow> bool" where
  "pics_set c1 c2 d \<longleftrightarrow>
     pic_at IO_PIC1 c1 d = \<lparr>pic_todo = [], pic_base = 32, pic_icw3 = 4, pic_icw4 = 3, pic_mask = ucast (irqmask d)\<rparr>
     \<and> pic_at IO_PIC2 c2 d = \<lparr>pic_todo = [], pic_base = 40, pic_icw3 = 2, pic_icw4 = 3, pic_mask = ucast (drop_bit 8 (irqmask d))\<rparr>"

lemma irqmask_outb [simp]: "irqmask (outb p v d) = irqmask d"
  by (simp add: outb_def)

lemma irqmask_outs [simp]: "irqmask (outs ws d) = irqmask d"
  unfolding outs_def by (induction ws arbitrary: d) auto

lemma pics_set_ports: "ports d' = ports d \<Longrightarrow> irqmask d' = irqmask d \<Longrightarrow> pics_set c1 c2 d' = pics_set c1 c2 d"
  using pic_at_ports [of d' d] by (simp add: pics_set_def)

lemma picsetmask_irqmask [simp]: "irqmask (picsetmask m d) = m"
  by (simp add: picsetmask_def)

lemma picsetmask_at:
  "pic_at IO_PIC1 c (picsetmask m d) = pic_write IO_PIC1 (IO_PIC1 + 1, ucast m) (pic_at IO_PIC1 c d)"
  "pic_at IO_PIC2 c (picsetmask m d) = pic_write IO_PIC2 (IO_PIC2 + 1, ucast (drop_bit 8 m)) (pic_at IO_PIC2 c d)"
  using pic_at_ports [of "d\<lparr>irqmask := m\<rparr>" d] by (simp_all add: picsetmask_def pic_at_outb pic_write_def)

lemma picsetmask_set:
  "pics_set c1 c2 d \<Longrightarrow> pics_set c1 c2 (picsetmask m d)"
  by (simp add: pics_set_def picsetmask_at) (simp add: pic_write_def)

lemma picenable_enables:
  assumes "irq < 16" "j < 16"
  shows "bit (irqmask (picenable irq d)) j \<longleftrightarrow> bit (irqmask d) j \<and> j \<noteq> irq"
  using assms by (auto simp: picenable_def bit_simps)

lemma picinit_set:
  assumes "irqmask d = irqmask_init"
  shows "pics_set c1 c2 (picinit d) \<and> irqmask (picinit d) = irqmask_init"
proof -
  have "irqmask_init \<noteq> 0xFFFF" by (simp add: irqmask_init_def)
  moreover have "bit (0x11 :: uchar) 4" "\<not> bit (0x11 :: uchar) 1" "bit (0x11 :: uchar) 0"
    "\<not> bit (0x68 :: uchar) 4" "\<not> bit (0x0a :: uchar) 4" "push_bit 2 (1 :: uchar) = 4" by code_simp+
  ultimately show ?thesis using assms
    by (simp add: picinit_def Let_def pics_set_def picsetmask_at pic_at_outs) (simp add: pic_write_def)
qed

section \<open>The lines that reach the processors\<close>

text \<open>The last word written to a register of the I/O APIC.\<close>

definition io_reg :: "nat \<Rightarrow> devices \<Rightarrow> uint option" where
  "io_reg r d = map_option snd (find (\<lambda>(q, _). q = r) (rev (ioapic_log d)))"

lemma io_reg_write: "io_reg r (ioapicwrite q v d) = (if r = q then Some v else io_reg r d)"
  by (simp add: io_reg_def ioapicwrite_def)

lemma ioapicwrite_keeps [simp]:
  "ismp (ioapicwrite q v d) = ismp d" "irqmask (ioapicwrite q v d) = irqmask d" "ports (ioapicwrite q v d) = ports d"
  by (simp_all add: ioapicwrite_def)

lemma outb_keeps [simp]: "ismp (outb p v d) = ismp d" "ioapic_log (outb p v d) = ioapic_log d"
  by (simp_all add: outb_def)

lemma outs_keeps [simp]: "ismp (outs ws d) = ismp d" "ioapic_log (outs ws d) = ioapic_log d"
  unfolding outs_def by (induction ws arbitrary: d) auto

lemma picsetmask_keeps [simp]: "ismp (picsetmask m d) = ismp d" "ioapic_log (picsetmask m d) = ioapic_log d"
  by (simp_all add: picsetmask_def)

lemma picenable_keeps [simp]: "ismp (picenable i d) = ismp d" "ioapic_log (picenable i d) = ioapic_log d"
  by (simp_all add: picenable_def)

lemma picinit_ismp [simp]: "ismp (picinit d) = ismp d"
  by (simp add: picinit_def Let_def)

text \<open>A driver enables its line in both controllers, as \<open>uartinit\<close>, \<open>consoleinit\<close> and \<open>ideinit\<close> do.\<close>

definition enable_line :: "nat \<times> nat \<Rightarrow> devices \<Rightarrow> devices" where
  "enable_line = (\<lambda>(irq, c) d. ioapicenable irq c (picenable irq d))"

definition io_disabled :: "nat \<Rightarrow> uint" where
  "io_disabled j = INT_DISABLED OR of_nat (T_IRQ0 + j)"

definition io_clear :: "nat \<Rightarrow> devices \<Rightarrow> devices" where
  "io_clear i d = ioapicwrite (REG_TABLE + 2 * i + 1) 0 (ioapicwrite (REG_TABLE + 2 * i) (io_disabled i) d)"

text \<open>The two words of the entry of a line of the I/O APIC.\<close>

definition io_entry :: "nat \<Rightarrow> devices \<Rightarrow> uint option \<times> uint option" where
  "io_entry j d = (io_reg (REG_TABLE + 2 * j) d, io_reg (REG_TABLE + 2 * j + 1) d)"

lemma io_entry_write:
  "io_entry j (ioapicwrite (17 + 2 * i) h (ioapicwrite (16 + 2 * i) l d))
     = (if j = i then (Some l, Some h) else io_entry j d)"
proof -
  have "2 * j \<noteq> 2 * i + 1" "2 * j + 1 \<noteq> 2 * i" by presburger+
  then show ?thesis by (simp add: io_entry_def io_reg_write)
qed

lemma io_entry_log: "ioapic_log d' = ioapic_log d \<Longrightarrow> io_entry j d' = io_entry j d"
  by (simp add: io_entry_def io_reg_def)

lemma io_clear_all:
  "io_entry j (fold io_clear [0..<n] d) = (if j < n then (Some (io_disabled j), Some 0) else io_entry j d)"
  "ports (fold io_clear [0..<n] d) = ports d" "irqmask (fold io_clear [0..<n] d) = irqmask d"
  "ismp (fold io_clear [0..<n] d) = ismp d"
  by (induction n) (simp_all add: io_clear_def io_entry_write)

lemma ioapicinit_clears:
  shows "ismp d \<Longrightarrow> j \<le> unat (drop_bit 16 (rd REG_VER) AND 0xFF) \<Longrightarrow> io_entry j (ioapicinit rd d) = (Some (io_disabled j), Some 0)"
    and "ismp (ioapicinit rd d) = ismp d" "irqmask (ioapicinit rd d) = irqmask d" "ports (ioapicinit rd d) = ports d"
    and "\<not> ismp d \<Longrightarrow> ioapicinit rd d = d"
proof -
  define d1 where "d1 = (if drop_bit 24 (rd REG_ID) \<noteq> ucast (ioapicid d)
    then say (''ioapicinit: id isn't equal to ioapicid; not a MP'' @ NL) [] d else d)"
  have d1: "ismp d1 = ismp d" "irqmask d1 = irqmask d" "ports d1 = ports d"
    by (auto simp: d1_def say_def)
  have e: "ioapicinit rd d = fold io_clear [0..<unat (drop_bit 16 (rd REG_VER) AND 0xFF) + 1] d1" if "ismp d"
    using that unfolding ioapicinit_def io_clear_def [abs_def] io_disabled_def d1_def Let_def by simp
  show u: "\<not> ismp d \<Longrightarrow> ioapicinit rd d = d" by (simp add: ioapicinit_def)
  show "ismp d \<Longrightarrow> j \<le> unat (drop_bit 16 (rd REG_VER) AND 0xFF) \<Longrightarrow> io_entry j (ioapicinit rd d) = (Some (io_disabled j), Some 0)"
    by (simp only: e io_clear_all(1)) simp
  show "ismp (ioapicinit rd d) = ismp d" "irqmask (ioapicinit rd d) = irqmask d" "ports (ioapicinit rd d) = ports d"
    using d1 u by (cases "ismp d"; simp add: e io_clear_all(2-4) del: upt_Suc)+
qed

definition line_entry :: "(nat \<rightharpoonup> nat) \<Rightarrow> nat \<Rightarrow> uint option \<times> uint option" where
  "line_entry on j = (case on j of
       None \<Rightarrow> (Some (INT_DISABLED OR of_nat (T_IRQ0 + j)), Some 0)
     | Some c \<Rightarrow> (Some (of_nat (T_IRQ0 + j)), Some (push_bit 24 (of_nat c))))"

definition lines_on :: "pic \<Rightarrow> pic \<Rightarrow> nat \<Rightarrow> (nat \<rightharpoonup> nat) \<Rightarrow> devices \<Rightarrow> bool" where
  "lines_on c1 c2 n on d \<longleftrightarrow> pics_set c1 c2 d \<and> (\<forall>j<16. bit (irqmask d) j \<longleftrightarrow> j \<noteq> IRQ_SLAVE \<and> on j = None)
     \<and> (ismp d \<longrightarrow> (\<forall>j\<le>n. io_entry j d = line_entry on j))"

lemma enable_line_keeps:
  "ports (enable_line (i, c) d) = ports (picenable i d)" "irqmask (enable_line (i, c) d) = irqmask (picenable i d)"
  "ismp (enable_line (i, c) d) = ismp d" "\<not> ismp d \<Longrightarrow> ioapic_log (enable_line (i, c) d) = ioapic_log d"
  by (simp_all add: enable_line_def ioapicenable_def)

lemma enable_line_on:
  assumes "lines_on c1 c2 n on d" "i < 16"
  shows "lines_on c1 c2 n (on(i \<mapsto> c)) (enable_line (i, c) d)"
proof -
  have "pics_set c1 c2 (enable_line (i, c) d)"
    using pics_set_ports [OF enable_line_keeps(1,2)] picsetmask_set assms(1) by (simp add: lines_on_def picenable_def)
  moreover have "bit (irqmask (enable_line (i, c) d)) j \<longleftrightarrow> j \<noteq> IRQ_SLAVE \<and> (on(i \<mapsto> c)) j = None" if "j < 16" for j
    using assms that picenable_enables [OF assms(2) that] by (auto simp: enable_line_keeps lines_on_def)
  moreover have "io_entry j (enable_line (i, c) d) = line_entry (on(i \<mapsto> c)) j" if "j \<le> n" "ismp d" for j
    using assms that io_entry_log [of "picenable i d" d j]
    by (auto simp: enable_line_def ioapicenable_def io_entry_write lines_on_def line_entry_def)
  ultimately show ?thesis by (simp add: lines_on_def enable_line_keeps)
qed

lemma enable_lines_on:
  "lines_on c1 c2 n on d \<Longrightarrow> fst ` set ls \<subseteq> {..<16} \<Longrightarrow>
     lines_on c1 c2 n (on ++ map_of (rev ls)) (fold enable_line ls d)
     \<and> ismp (fold enable_line ls d) = ismp d \<and> (\<not> ismp d \<longrightarrow> ioapic_log (fold enable_line ls d) = ioapic_log d)"
proof (induction ls arbitrary: on d)
  case (Cons l ls)
  obtain i c where l: "l = (i, c)" by (cases l)
  have e: "on(i \<mapsto> c) ++ map_of (rev ls) = on ++ map_of (rev (l # ls))"
    by (rule ext) (simp add: l map_add_def split: option.split)
  show ?case using Cons.IH [OF enable_line_on [of c1 c2 n on d i c], unfolded e] Cons.prems
    by (simp add: l enable_line_keeps)
qed simp

lemma irqmask_init_bits: "j < 16 \<Longrightarrow> bit irqmask_init j \<longleftrightarrow> j \<noteq> IRQ_SLAVE"
proof -
  have m: "(0xFFFF :: ushort) = mask 16" by (simp add: mask_eq_exp_minus_1)
  show "j < 16 \<Longrightarrow> bit irqmask_init j \<longleftrightarrow> j \<noteq> IRQ_SLAVE"
    unfolding irqmask_init_def m by (simp only: bit_simps) (auto simp: not_less)
qed

lemma picinit_log [simp]: "ioapic_log (picinit d) = ioapic_log d"
  by (simp add: picinit_def Let_def)

lemma pics_set_lines:
  assumes "pics_set c1 c2 d" "\<forall>j<16. bit (irqmask d) j \<longleftrightarrow> j \<noteq> IRQ_SLAVE \<and> on j = None" "j < 16"
  shows "line_open (pic_at IO_PIC1 c1 d) (pic_at IO_PIC2 c2 d) j \<longleftrightarrow> j = IRQ_SLAVE \<or> on j \<noteq> None"
    and "line_vector (pic_at IO_PIC1 c1 d) (pic_at IO_PIC2 c2 d) j = T_IRQ0 + j"
proof -
  have "bit (4 :: uchar) 2" by code_simp
  then show "line_open (pic_at IO_PIC1 c1 d) (pic_at IO_PIC2 c2 d) j \<longleftrightarrow> j = IRQ_SLAVE \<or> on j \<noteq> None"
    using assms by (auto simp: line_open_def pics_set_def bit_simps)
  show "line_vector (pic_at IO_PIC1 c1 d) (pic_at IO_PIC2 c2 d) j = T_IRQ0 + j"
    using assms(1,3) by (simp add: line_vector_def pics_set_def)
qed

text \<open>
  C39: the interrupt lines that can reach a processor are exactly those the drivers asked for. Whatever the
  state of the two 8259A controllers was, after \<open>picinit\<close> and \<open>ioapicinit\<close> and any sequence of drivers
  enabling their lines with \<open>picenable\<close> and \<open>ioapicenable\<close>, the controllers have left their
  initialisation sequence in x86 mode with automatic end of interrupt, an open line is one that a driver enabled or the
  cascade line 2, and line \<open>j\<close> raises vector \<open>T_IRQ0 + j\<close>. On a multiprocessor (\<open>ismp\<close>) the entry of
  every line of the I/O APIC is that vector, sent to the processor named last for the line, or, when no
  driver enabled it, has the disable bit and no processor; on a uniprocessor the I/O APIC is not touched.
\<close>
theorem interrupt_lines:
  assumes "irqmask d = irqmask_init" "fst ` set ls \<subseteq> {..<16}"
    and "d' = fold enable_line ls (ioapicinit rd (picinit d))"
    and "m = pic_at IO_PIC1 c1 d'" "s = pic_at IO_PIC2 c2 d'"
  shows "pic_todo m = [] \<and> pic_todo s = [] \<and> pic_icw4 m = 3 \<and> pic_icw4 s = 3
    \<and> (\<forall>j<16. (line_open m s j \<longleftrightarrow> j = IRQ_SLAVE \<or> j \<in> fst ` set ls) \<and> line_vector m s j = T_IRQ0 + j)
    \<and> (ismp d \<longrightarrow> (\<forall>j\<le>unat (drop_bit 16 (rd REG_VER) AND 0xFF).
      (io_reg (REG_TABLE + 2 * j) d', io_reg (REG_TABLE + 2 * j + 1) d') = (case map_of (rev ls) j of
          None \<Rightarrow> (Some (INT_DISABLED OR of_nat (T_IRQ0 + j)), Some 0)
        | Some c \<Rightarrow> (Some (of_nat (T_IRQ0 + j)), Some (push_bit 24 (of_nat c))))))
    \<and> (\<not> ismp d \<longrightarrow> ioapic_log d' = ioapic_log d)"
proof -
  let ?d = "ioapicinit rd (picinit d)" and ?n = "unat (drop_bit 16 (rd REG_VER) AND 0xFF)"
  have p: "pics_set c1 c2 (picinit d)" "irqmask (picinit d) = irqmask_init"
    using picinit_set [OF assms(1)] by simp_all
  then have "lines_on c1 c2 ?n Map.empty ?d"
    using ioapicinit_clears [where d = "picinit d" and rd = rd] pics_set_ports [of ?d "picinit d"] irqmask_init_bits
    by (simp add: lines_on_def line_entry_def io_disabled_def)
  from enable_lines_on [OF this assms(2)]
  have on: "lines_on c1 c2 ?n (map_of (rev ls)) d'" "ismp d' = ismp d" "\<not> ismp d \<Longrightarrow> ioapic_log d' = ioapic_log d"
    using ioapicinit_clears(2) [of rd "picinit d"] ioapicinit_clears(5) [where d = "picinit d" and rd = rd] by (simp_all add: assms(3))
  note l = pics_set_lines [of c1 c2 d' "map_of (rev ls)", folded assms(4,5)]
  have "map_of (rev ls) j \<noteq> None \<longleftrightarrow> j \<in> fst ` set ls" for j by (metis map_of_eq_None_iff set_map set_rev)
  then show ?thesis
    using on l unfolding lines_on_def io_entry_def line_entry_def by (simp add: pics_set_def assms(4,5))
qed

text \<open>The lines of the keyboard, the serial port and the disk, on a machine with 24 lines and two processors.\<close>

definition two_cpus :: devices where
  "two_cpus = \<lparr>ismp = True, lapic = 0xFEE00000, ioapicid = 0, irqmask = irqmask_init, uart_there = False, ports = [],
     lapic_log = [], ioapic_log = [], low_mem = (\<lambda>_. 0), messages = []\<rparr>"

theorem interrupt_lines_witness:
  "\<exists>d' m s. d' = fold enable_line [(1, 0), (4, 0), (14, 1)] (ioapicinit (\<lambda>_. 0x170011) (picinit two_cpus))
     \<and> line_open m s 14 \<and> \<not> line_open m s 0 \<and> line_vector m s 14 = 46
     \<and> (io_reg 44 d', io_reg 45 d') = (Some 46, Some 0x1000000) \<and> io_reg 56 d' = Some (INT_DISABLED OR 52)"
proof -
  let ?ls = "[(1, 0), (4, 0), (14, 1)] :: (nat \<times> nat) list" and ?rd = "\<lambda>_ :: nat. 0x170011 :: uint"
  let ?d = "fold enable_line ?ls (ioapicinit ?rd (picinit two_cpus))"
  define c where "c = \<lparr>pic_todo = [3], pic_base = 7, pic_icw3 = 0, pic_icw4 = 0, pic_mask = 1\<rparr>"
  define m where "m = pic_at IO_PIC1 c ?d"
  define s where "s = pic_at IO_PIC2 c ?d"
  have h: "irqmask two_cpus = irqmask_init" "ismp two_cpus" "fst ` set ?ls \<subseteq> {..<16}"
    by (simp_all add: two_cpus_def)
  have n: "unat (drop_bit 16 (0x170011 :: uint) AND 0xFF) = 23" by code_simp
  have t: "\<forall>j<16. (line_open m s j \<longleftrightarrow> j = IRQ_SLAVE \<or> j \<in> fst ` set ?ls) \<and> line_vector m s j = T_IRQ0 + j"
    "\<forall>j\<le>23. (io_reg (REG_TABLE + 2 * j) ?d, io_reg (REG_TABLE + 2 * j + 1) ?d) = (case map_of (rev ?ls) j of
          None \<Rightarrow> (Some (INT_DISABLED OR of_nat (T_IRQ0 + j)), Some 0)
        | Some c \<Rightarrow> (Some (of_nat (T_IRQ0 + j)), Some (push_bit 24 (of_nat c))))"
    using interrupt_lines [OF h(1,3) refl m_def s_def] h(2) unfolding n by blast+
  have "line_open m s 14" "\<not> line_open m s 0" "line_vector m s 14 = 46"
    using t(1) [rule_format, of 14] t(1) [rule_format, of 0] by simp_all
  moreover have "(io_reg 44 ?d, io_reg 45 ?d) = (Some 46, Some 0x1000000)" "io_reg 56 ?d = Some (INT_DISABLED OR 52)"
    using t(2) [rule_format, of 14] t(2) [rule_format, of 20] by simp_all
  ultimately show ?thesis by blast
qed

end
