(* ===== verification/Mp.thy ===== *)
theory Mp
  imports Intr_Ctl
begin

text \<open>
  The multiprocessor tables: \<open>kernel/mp.c\<close> and \<open>kernel/mp.h\<close>. The BIOS leaves a floating pointer
  structure in low memory that points to the configuration table; \<open>mpinit\<close> counts the processors of
  the table. Its loop over the entries of the table is a partial function: \<open>None\<close> is a loop that
  does not end. An entry past the end of \<open>cpus\<close> is a result of its own.
\<close>

record mpstate = devices +
  ncpu :: nat
  bcpu :: nat
  cpu_id :: "nat \<Rightarrow> uchar"

abbreviation (input) NCPU :: nat where "NCPU \<equiv> 8"

section \<open>The structures of mp.h\<close>

text \<open>Offsets of the fields of \<open>struct mp\<close> (16 bytes), \<open>struct mpconf\<close> (44), \<open>struct mpproc\<close> (20) and \<open>struct mpioapic\<close> (8).\<close>

definition mp_physaddr :: "bytes \<Rightarrow> uint \<Rightarrow> uint" where
  "mp_physaddr m p = rd32 m (unat p + 4)"

definition mp_imcrp :: "bytes \<Rightarrow> uint \<Rightarrow> uchar" where
  "mp_imcrp m p = m (unat p + 12)"

definition conf_length :: "bytes \<Rightarrow> uint \<Rightarrow> ushort" where
  "conf_length m p = rd16 m (unat p + 4)"

definition conf_version :: "bytes \<Rightarrow> uint \<Rightarrow> uchar" where
  "conf_version m p = m (unat p + 6)"

definition conf_lapicaddr :: "bytes \<Rightarrow> uint \<Rightarrow> uint" where
  "conf_lapicaddr m p = rd32 m (unat p + 36)"

definition proc_apicid :: "bytes \<Rightarrow> uint \<Rightarrow> uchar" where
  "proc_apicid m p = m (unat p + 1)"

definition proc_flags :: "bytes \<Rightarrow> uint \<Rightarrow> uchar" where
  "proc_flags m p = m (unat p + 3)"

definition ioapic_apicno :: "bytes \<Rightarrow> uint \<Rightarrow> uchar" where
  "ioapic_apicno m p = m (unat p + 1)"

abbreviation (input) sizeof_mp :: nat where "sizeof_mp \<equiv> 16"
abbreviation (input) sizeof_mpconf :: uint where "sizeof_mpconf \<equiv> 44"
abbreviation (input) MPBOOT :: uchar where "MPBOOT \<equiv> 2"
abbreviation (input) MPPROC :: uchar where "MPPROC \<equiv> 0"
abbreviation (input) MPBUS :: uchar where "MPBUS \<equiv> 1"
abbreviation (input) MPIOAPIC :: uchar where "MPIOAPIC \<equiv> 2"
abbreviation (input) MPIOINTR :: uchar where "MPIOINTR \<equiv> 3"
abbreviation (input) MPLINTR :: uchar where "MPLINTR \<equiv> 4"

section \<open>Finding the configuration table\<close>

definition mpbcpu :: "mpstate \<Rightarrow> nat" where
  "mpbcpu s = bcpu s"

text \<open>The sum of \<open>len\<close> bytes, returned as an unsigned byte.\<close>

definition sum_mp :: "bytes \<Rightarrow> uint \<Rightarrow> nat \<Rightarrow> uchar" where
  "sum_mp m addr len = fold (\<lambda>i t. t + m (unat addr + i)) [0..<len] 0"

definition sig :: "string \<Rightarrow> bytes" where
  "sig cs = (\<lambda>i. if i < length cs then of_char (cs ! i) else 0)"

text \<open>The steps of 16 bytes divide \<open>len\<close>, so the loop makes at most \<open>len div 16\<close> of them.\<close>

fun mpsearch1_loop :: "bytes \<Rightarrow> nat \<Rightarrow> uint \<Rightarrow> uint \<Rightarrow> uint option" where
  "mpsearch1_loop m 0 p e = None"
| "mpsearch1_loop m (Suc k) p e =
     (if p < e then
        if memcmp m (unat p) (sig ''_MP_'') 0 4 = 0 \<and> sum_mp m p sizeof_mp = 0 then Some p
        else mpsearch1_loop m k (p + of_nat sizeof_mp) e
      else None)"

definition mpsearch1 :: "bytes \<Rightarrow> uint \<Rightarrow> nat \<Rightarrow> uint option" where
  "mpsearch1 m addr len = mpsearch1_loop m (len div sizeof_mp) addr (addr + of_nat len)"

definition mpsearch :: "bytes \<Rightarrow> uint option" where
  "mpsearch m =
     (let p = push_bit 4 (push_bit 8 (ucast (m (0x400 + 0x0F))) OR ucast (m (0x400 + 0x0E))) :: uint;
          rom = mpsearch1 m 0xF0000 0x10000
      in if p \<noteq> 0 then (case mpsearch1 m p 1024 of Some mp \<Rightarrow> Some mp | None \<Rightarrow> rom)
         else
           let p = (push_bit 8 (ucast (m (0x400 + 0x14))) OR ucast (m (0x400 + 0x13))) * 1024
           in (case mpsearch1 m (p - 1024) 1024 of Some mp \<Rightarrow> Some mp | None \<Rightarrow> rom))"

text \<open>The floating pointer and the configuration table.\<close>

definition mpconfig :: "bytes \<Rightarrow> (uint \<times> uint) option" where
  "mpconfig m =
     (case mpsearch m of
        None \<Rightarrow> None
      | Some mp \<Rightarrow>
          if mp_physaddr m mp = 0 then None
          else
            let conf = mp_physaddr m mp
            in if memcmp m (unat conf) (sig ''PCMP'') 0 4 \<noteq> 0 then None
               else if conf_version m conf \<noteq> 1 \<and> conf_version m conf \<noteq> 4 then None
               else if sum_mp m conf (unat (conf_length m conf)) \<noteq> 0 then None
               else Some (mp, conf))"

section \<open>Walking the table\<close>

datatype mpresult = Mp_done mpstate | Mp_overrun

definition mp_say :: "string \<Rightarrow> varg list \<Rightarrow> mpstate \<Rightarrow> mpstate" where
  "mp_say fmt args s = s\<lparr>messages := messages s @ [the (cprintf_chars fmt args)]\<rparr>"

definition mp_proc :: "bytes \<Rightarrow> uint \<Rightarrow> mpstate \<Rightarrow> mpstate" where
  "mp_proc m p s =
     (let s = (if of_nat (ncpu s) \<noteq> (ucast (proc_apicid m p) :: uint)
               then (mp_say (''mpinit: ncpu=%d apicid=%d'' @ NL) [VInt (of_nat (ncpu s)), VInt (ucast (proc_apicid m p))] s)
                 \<lparr>ismp := False\<rparr> else s);
          s = (if proc_flags m p AND MPBOOT \<noteq> 0 then s\<lparr>bcpu := ncpu s\<rparr> else s)
      in s\<lparr>cpu_id := (cpu_id s)(ncpu s := of_nat (ncpu s)), ncpu := ncpu s + 1\<rparr>)"

partial_function (option) mp_loop :: "bytes \<Rightarrow> uint \<Rightarrow> uint \<Rightarrow> mpstate \<Rightarrow> mpresult option" where
  "mp_loop m e p s =
     (if \<not> p < e then Some (Mp_done s)
      else if m (unat p) = MPPROC then
        if \<not> ncpu s < NCPU then Some Mp_overrun else mp_loop m e (p + 20) (mp_proc m p s)
      else if m (unat p) = MPIOAPIC then mp_loop m e (p + 8) (s\<lparr>ioapicid := ioapic_apicno m p\<rparr>)
      else if m (unat p) = MPBUS \<or> m (unat p) = MPIOINTR \<or> m (unat p) = MPLINTR then mp_loop m e (p + 8) s
      else mp_loop m e p ((mp_say (''mpinit: unknown config type %x'' @ NL) [VInt (ucast (m (unat p)))] s)\<lparr>ismp := False\<rparr>))"

definition mpinit :: "bytes \<Rightarrow> (ushort \<Rightarrow> uchar) \<Rightarrow> mpstate \<Rightarrow> mpresult option" where
  "mpinit m inb s =
     (let s = s\<lparr>bcpu := 0\<rparr>
      in case mpconfig m of
           None \<Rightarrow> Some (Mp_done s)
         | Some (mp, conf) \<Rightarrow>
             (case mp_loop m (conf + ucast (conf_length m conf)) (conf + sizeof_mpconf)
                 (s\<lparr>ismp := True, lapic := conf_lapicaddr m conf\<rparr>) of
                Some (Mp_done s) \<Rightarrow>
                  Some (Mp_done
                    (if \<not> ismp s then s\<lparr>ncpu := 1, lapic := 0, ioapicid := 0\<rparr>
                     else if mp_imcrp m mp \<noteq> 0 then s\<lparr>ports := ports s @ [(0x22, 0x70), (0x23, inb 0x23 OR 1)]\<rparr>
                     else s))
              | r \<Rightarrow> r))"

section \<open>What the search finds\<close>

text \<open>A floating pointer structure at \<open>p\<close>: its signature, and sixteen bytes that add up to zero.\<close>

definition mp_at :: "bytes \<Rightarrow> uint \<Rightarrow> bool" where
  "mp_at m p \<longleftrightarrow> (\<forall>i<4. m (unat p + i) = of_char (''_MP_'' ! i)) \<and> (\<Sum>i<16. m (unat p + i)) = 0"

lemma sum_mp_eq: "sum_mp m p n = (\<Sum>i<n. m (unat p + i))"
proof -
  have "fold (\<lambda>i t. t + m (unat p + i)) [0..<n] 0 = (\<Sum>i<n. m (unat p + i))"
    by (induction n) (simp_all add: add.commute)
  then show ?thesis by (simp add: sum_mp_def)
qed

lemma mp_found: "memcmp m (unat p) (sig ''_MP_'') 0 4 = 0 \<and> sum_mp m p sizeof_mp = 0 \<longleftrightarrow> mp_at m p"
  by (simp add: mp_at_def memcmp_eq_0 sum_mp_eq sig_def)

lemma mpsearch1_loop_first:
  assumes "unat e = unat p + 16 * k"
  shows "mpsearch1_loop m k p e = find (mp_at m) (map (\<lambda>i. p + of_nat (16 * i)) [0..<k])"
  using assms
proof (induction k arbitrary: p)
  case (Suc k)
  have lt: "p < e" using Suc.prems by (simp add: word_less_nat_alt)
  have "mpsearch1_loop m k (p + 16) e = find (mp_at m) (map (\<lambda>i. (p + 16) + of_nat (16 * i)) [0..<k])"
  proof (cases k)
    case (Suc j)
    have "unat (p + 16) = unat p + 16"
      using uint_bound [of e] Suc.prems Suc by (subst unat_word_ariths) simp
    then show ?thesis using Suc.IH Suc.prems by simp
  qed simp
  moreover have "map (\<lambda>i. p + of_nat (16 * i)) [0..<Suc k] = p # map (\<lambda>i. (p + 16) + of_nat (16 * i)) [0..<k]"
    by (simp add: upt_conv_Cons map_Suc_upt [symmetric] del: upt_Suc) 
  ultimately show ?case using lt by (simp only: mpsearch1_loop.simps mp_found find.simps) simp
qed simp

section \<open>What the walk finds\<close>

text \<open>The entries of a table: processors with their APIC number and boot flag, I/O APICs, and the kinds that are skipped.\<close>

datatype mpentry = Processor uchar bool | Io_apic uchar | Other uchar

fun entry_size :: "mpentry \<Rightarrow> uint" where
  "entry_size (Processor a b) = 20"
| "entry_size _ = 8"

fun entry_at :: "bytes \<Rightarrow> uint \<Rightarrow> mpentry \<Rightarrow> bool" where
  "entry_at m p (Processor a b) \<longleftrightarrow> m (unat p) = MPPROC \<and> proc_apicid m p = a \<and> (proc_flags m p AND MPBOOT \<noteq> 0) = b"
| "entry_at m p (Io_apic a) \<longleftrightarrow> m (unat p) = MPIOAPIC \<and> ioapic_apicno m p = a"
| "entry_at m p (Other t) \<longleftrightarrow> m (unat p) = t \<and> t \<in> {MPBUS, MPIOINTR, MPLINTR}"

fun entries_at :: "bytes \<Rightarrow> uint \<Rightarrow> uint \<Rightarrow> mpentry list \<Rightarrow> uint \<Rightarrow> bool" where
  "entries_at m e p [] q \<longleftrightarrow> p = q"
| "entries_at m e p (x # xs) q \<longleftrightarrow> p < e \<and> entry_at m p x \<and> entries_at m e (p + entry_size x) xs q"

fun procs :: "mpentry list \<Rightarrow> (uchar \<times> bool) list" where
  "procs [] = []"
| "procs (Processor a b # es) = (a, b) # procs es"
| "procs (_ # es) = procs es"

fun ioapics :: "mpentry list \<Rightarrow> uchar list" where
  "ioapics [] = []"
| "ioapics (Io_apic a # es) = a # ioapics es"
| "ioapics (_ # es) = ioapics es"

text \<open>The numbers of the processors with the boot flag, and what the walk over entries \<open>es\<close> leaves.\<close>

definition boots :: "nat \<Rightarrow> (uchar \<times> bool) list \<Rightarrow> nat list" where
  "boots k ps = map fst (filter (\<lambda>(i, a, b). b) (enumerate k ps))"

definition in_order :: "nat \<Rightarrow> (uchar \<times> bool) list \<Rightarrow> bool" where
  "in_order k ps \<longleftrightarrow> map (unat \<circ> fst) ps = [k..<k + length ps]"

definition walked :: "mpentry list \<Rightarrow> mpstate \<Rightarrow> mpstate \<Rightarrow> bool" where
  "walked es s s' \<longleftrightarrow>
     ncpu s' = ncpu s + length (procs es) \<and> ismp s' = (ismp s \<and> in_order (ncpu s) (procs es))
     \<and> bcpu s' = last (bcpu s # boots (ncpu s) (procs es)) \<and> ioapicid s' = last (ioapicid s # ioapics es)
     \<and> cpu_id s' = (\<lambda>i. if ncpu s \<le> i \<and> i < ncpu s' then of_nat i else cpu_id s i)
     \<and> lapic s' = lapic s \<and> ports s' = ports s"

lemma walked_nil: "walked [] s s"
  by (auto simp: walked_def in_order_def boots_def fun_eq_iff)

lemma in_order_Cons: "in_order k ((a, b) # ps) \<longleftrightarrow> unat a = k \<and> in_order (Suc k) ps"
  by (auto simp: in_order_def upt_conv_Cons simp del: upt_Suc)

lemma boots_Cons: "boots k ((a, b) # ps) = (if b then [k] else []) @ boots (Suc k) ps"
  by (simp add: boots_def)

lemma apicid_eq: "n < 8 \<Longrightarrow> of_nat n = (ucast (a :: uchar) :: uint) \<longleftrightarrow> unat a = n"
proof -
  have "unat a < 2 ^ 8" using unsigned_less [of a] by simp
  then have "unat (ucast a :: uint) = unat a" by (simp add: unsigned_ucast_eq take_bit_nat_eq_self)
  moreover assume "n < 8"
  ultimately show ?thesis by (auto simp: word_unat_eq_iff unat_of_nat take_bit_nat_eq_self)
qed

lemma walked_processor:
  assumes "entry_at m p (Processor a b)" "ncpu s < NCPU" "walked es (mp_proc m p s) s'"
  shows "walked (Processor a b # es) s s'"
proof -
  have s1: "ncpu (mp_proc m p s) = Suc (ncpu s)" "ismp (mp_proc m p s) = (ismp s \<and> unat a = ncpu s)"
    "bcpu (mp_proc m p s) = (if b then ncpu s else bcpu s)" "ioapicid (mp_proc m p s) = ioapicid s"
    "cpu_id (mp_proc m p s) = (cpu_id s)(ncpu s := of_nat (ncpu s))" "lapic (mp_proc m p s) = lapic s"
    "ports (mp_proc m p s) = ports s"
    using assms(1) apicid_eq [OF assms(2), of a] by (auto simp: mp_proc_def Let_def mp_say_def)
  show ?thesis using assms(3) unfolding walked_def s1 by (auto simp: in_order_Cons boots_Cons fun_eq_iff)
qed

lemma mp_loop_walks:
  assumes "entries_at m e p es q" "ncpu s + length (procs es) \<le> NCPU"
  shows "\<exists>s'. mp_loop m e p s = mp_loop m e q s' \<and> walked es s s'"
  using assms
proof (induction es arbitrary: p s)
  case Nil
  then show ?case using walked_nil by auto
next
  case (Cons x es)
  show ?case
  proof (cases x)
    case (Processor a b)
    then have "\<exists>s'. mp_loop m e (p + 20) (mp_proc m p s) = mp_loop m e q s' \<and> walked es (mp_proc m p s) s'"
      using Cons by (intro Cons.IH) (simp_all add: mp_proc_def Let_def mp_say_def)
    then show ?thesis
      using Cons.prems Processor walked_processor [of m p a b s es]
      by (subst mp_loop.simps) auto
  next
    case (Io_apic a)
    then obtain s' where "mp_loop m e (p + 8) (s\<lparr>ioapicid := a\<rparr>) = mp_loop m e q s'" "walked es (s\<lparr>ioapicid := a\<rparr>) s'"
      using Cons.IH [of "p + 8" "s\<lparr>ioapicid := a\<rparr>"] Cons.prems by auto
    then show ?thesis using Cons.prems Io_apic
      by (intro exI [of _ s'], subst mp_loop.simps) (auto simp: walked_def)
  next
    case (Other t)
    then obtain s' where "mp_loop m e (p + 8) s = mp_loop m e q s'" "walked es s s'"
      using Cons.IH [of "p + 8" s] Cons.prems by auto
    then show ?thesis using Cons.prems Other
      by (intro exI [of _ s'], subst mp_loop.simps) (auto simp add: walked_def)
  qed
qed

text \<open>An entry of an unknown kind is never passed, and a ninth processor is written past the end of \<open>cpus\<close>.\<close>

lemma mp_loop_returns:
  assumes "mp_loop m e p s = Some r"
  shows "\<not> (p < e \<and> m (unat p) > 4)"
proof (rule mp_loop.raw_induct [where P = "\<lambda>m e p s r. \<not> (p < e \<and> m (unat p) > 4)", OF _ assms])
  fix loop m e p s r
  assume ih: "\<And>m e p s r. loop m e p s = Some r \<Longrightarrow> \<not> (p < e \<and> 4 < m (unat p))"
    and body: "(if \<not> p < e then Some (Mp_done s)
      else if m (unat p) = MPPROC then
        if \<not> ncpu s < NCPU then Some Mp_overrun else loop m e (p + 20) (mp_proc m p s)
      else if m (unat p) = MPIOAPIC then loop m e (p + 8) (s\<lparr>ioapicid := ioapic_apicno m p\<rparr>)
      else if m (unat p) = MPBUS \<or> m (unat p) = MPIOINTR \<or> m (unat p) = MPLINTR then loop m e (p + 8) s
      else loop m e p ((mp_say (''mpinit: unknown config type %x'' @ NL) [VInt (ucast (m (unat p)))] s)\<lparr>ismp := False\<rparr>)) = Some r"
  show "\<not> (p < e \<and> 4 < m (unat p))"
  proof
    assume u: "p < e \<and> m (unat p) > 4"
    then have "m (unat p) \<notin> {0, 1, 2, 3, 4}" by auto
    then have "\<exists>t. loop m e p t = Some r" using body u by (auto split: if_splits)
    then show False using ih u by blast
  qed
qed

lemma mp_loop_unknown:
  assumes "p < e" "m (unat p) > 4"
  shows "mp_loop m e p s = None"
  using assms mp_loop_returns [of m e p s] by (cases "mp_loop m e p s") auto

section \<open>The result of mpinit\<close>

definition conf_end :: "bytes \<Rightarrow> uint \<Rightarrow> uint" where
  "conf_end m conf = conf + ucast (conf_length m conf)"

lemma mpinit_loop:
  assumes "mpconfig m = Some (mp, conf)"
  shows "mpinit m inb s =
    (case mp_loop m (conf_end m conf) (conf + sizeof_mpconf) (s\<lparr>bcpu := 0, ismp := True, lapic := conf_lapicaddr m conf\<rparr>) of
       Some (Mp_done s) \<Rightarrow>
         Some (Mp_done
           (if \<not> ismp s then s\<lparr>ncpu := 1, lapic := 0, ioapicid := 0\<rparr>
            else if mp_imcrp m mp \<noteq> 0 then s\<lparr>ports := ports s @ [(0x22, 0x70), (0x23, inb 0x23 OR 1)]\<rparr>
            else s))
     | r \<Rightarrow> r)"
  by (simp add: mpinit_def assms conf_end_def)

text \<open>
  An entry of unknown kind anywhere in the table: the loop prints its message for ever. A table of
  more than eight processors: the ninth is written past the end of \<open>cpus\<close>.
\<close>

lemma mpinit_hangs:
  assumes "mpconfig m = Some (mp, conf)" "entries_at m (conf_end m conf) (conf + sizeof_mpconf) es q"
    "length (procs es) \<le> NCPU" "ncpu s = 0" "q < conf_end m conf" "m (unat q) > 4"
  shows "mpinit m inb s = None"
proof -
  let ?s = "s\<lparr>bcpu := 0, ismp := True, lapic := conf_lapicaddr m conf\<rparr>"
  obtain s' where "mp_loop m (conf_end m conf) (conf + sizeof_mpconf) ?s = mp_loop m (conf_end m conf) q s'"
    using mp_loop_walks [OF assms(2), of ?s] assms(3,4) by auto
  also have "\<dots> = None" using mp_loop_unknown assms(5,6) .
  finally show ?thesis by (simp add: mpinit_loop [OF assms(1)])
qed

lemma mpinit_overrun:
  assumes "mpconfig m = Some (mp, conf)" "entries_at m (conf_end m conf) (conf + sizeof_mpconf) es q"
    "length (procs es) = NCPU" "ncpu s = 0" "q < conf_end m conf" "m (unat q) = MPPROC"
  shows "mpinit m inb s = Some Mp_overrun"
proof -
  let ?s = "s\<lparr>bcpu := 0, ismp := True, lapic := conf_lapicaddr m conf\<rparr>"
  obtain s' where "mp_loop m (conf_end m conf) (conf + sizeof_mpconf) ?s = mp_loop m (conf_end m conf) q s'" "walked es ?s s'"
    using mp_loop_walks [OF assms(2), of ?s] assms(3,4) by auto
  moreover from this have "ncpu s' = NCPU" using assms(3,4) by (simp add: walked_def)
  then have "mp_loop m (conf_end m conf) q s' = Some Mp_overrun" using assms(5,6) by (subst mp_loop.simps) simp
  ultimately show ?thesis by (simp add: mpinit_loop [OF assms(1)])
qed

text \<open>
  C38: \<open>mpinit\<close> reads the machine off the configuration table. When the search finds a table whose
  entries \<open>es\<close> fill it and describe at most \<open>NCPU\<close> processors, \<open>mpinit\<close> returns, and the boot
  processor is the last one with the boot flag. When the processors are listed in the order of their
  APIC numbers from 0, the machine is a multiprocessor: \<open>ncpu\<close> is their number, each of the first
  \<open>ncpu\<close> entries of \<open>cpus\<close> has its index as its id, the local APIC is where the table says and
  \<open>ioapicid\<close> is the number of the last I/O APIC. Otherwise the kernel falls back to one
  processor and no APIC.
\<close>
theorem mpinit_table:
  assumes "mpconfig m = Some (mp, conf)" "entries_at m (conf_end m conf) (conf + sizeof_mpconf) es (conf_end m conf)"
    and "length (procs es) \<le> NCPU" "ncpu s = 0"
  shows "\<exists>s'. mpinit m inb s = Some (Mp_done s') \<and> mpbcpu s' = last (0 # boots 0 (procs es))
    \<and> (if in_order 0 (procs es)
       then ismp s' \<and> ncpu s' = length (procs es) \<and> (\<forall>i<ncpu s'. cpu_id s' i = of_nat i)
         \<and> lapic s' = conf_lapicaddr m conf \<and> ioapicid s' = last (ioapicid s # ioapics es)
       else \<not> ismp s' \<and> ncpu s' = 1 \<and> lapic s' = 0 \<and> ioapicid s' = 0)"
proof -
  let ?s = "s\<lparr>bcpu := 0, ismp := True, lapic := conf_lapicaddr m conf\<rparr>"
  obtain s' where "mp_loop m (conf_end m conf) (conf + sizeof_mpconf) ?s = mp_loop m (conf_end m conf) (conf_end m conf) s'"
    and w: "walked es ?s s'"
    using mp_loop_walks [OF assms(2), of ?s] assms(3,4) by auto
  moreover have "mp_loop m (conf_end m conf) (conf_end m conf) s' = Some (Mp_done s')" by (subst mp_loop.simps) simp
  ultimately show ?thesis using w assms(4) unfolding mpinit_loop [OF assms(1)]
    by (simp add: walked_def mpbcpu_def)
qed

text \<open>A machine with two processors, the first the boot processor, and one I/O APIC numbered 2.\<close>

definition mp_image :: "uchar list" where
  "mp_image =
    [95, 77, 80, 95, 64, 0, 0, 0, 1, 4, 96, 0, 0, 0, 0, 0, 0, 0, 0, 0, 0, 0, 0, 0, 0, 0, 0, 0, 0, 0, 0,
     0, 0, 0, 0, 0, 0, 0, 0, 0, 0, 0, 0, 0, 0, 0, 0, 0, 80, 67, 77, 80, 92, 0, 4, 142, 0, 0, 0, 0, 0, 0,
     0, 0, 0, 0, 0, 0, 0, 0, 0, 0, 0, 0, 0, 0, 0, 0, 0, 0, 0, 0, 3, 0, 0, 0, 224, 254, 0, 0, 0, 0, 0, 0,
     20, 3, 0, 0, 0, 0, 0, 0, 0, 0, 0, 0, 0, 0, 0, 0, 0, 0, 0, 1, 20, 1, 0, 0, 0, 0, 0, 0, 0, 0, 0, 0, 0,
     0, 0, 0, 0, 0, 2, 2, 17, 1, 0, 0, 192, 254]"

definition mp_mem :: bytes where
  "mp_mem a = (if 16 \<le> a \<and> a < 16 + length mp_image then mp_image ! (a - 16) else if a = 0x40E then 1 else 0)"

definition mp_start :: mpstate where
  "mp_start = \<lparr>ismp = False, lapic = 0, ioapicid = 0, irqmask = irqmask_init, uart_there = False, ports = [],
     lapic_log = [], ioapic_log = [], low_mem = mp_mem, messages = [], ncpu = 0, bcpu = 0, cpu_id = (\<lambda>_. 0)\<rparr>"

lemma mp_image_length: "length mp_image = 140"
  by (simp add: mp_image_def)

lemma mp_mem_at: "i < 140 \<Longrightarrow> mp_mem (16 + i) = mp_image ! i"
  by (simp add: mp_mem_def mp_image_length)

lemma mp_mem_sum:
  assumes "k + n \<le> 140"
  shows "(\<Sum>i<n. mp_mem (16 + k + i)) = sum_list (take n (drop k mp_image))"
proof -
  have "mp_mem (16 + k + i) = take n (drop k mp_image) ! i" if "i < n" for i
    using mp_mem_at [of "k + i"] assms that by (simp add: mp_image_length ac_simps)
  then show ?thesis using assms by (simp add: sum_list_sum_nth mp_image_length lessThan_atLeast0)
qed

lemma mp_mem_sig:
  assumes "k + 4 \<le> 140" "length cs = 4" "map of_char cs = take 4 (drop k mp_image)"
  shows "memcmp mp_mem (16 + k) (sig cs) 0 4 = 0"
proof -
  have "mp_mem (16 + k + i) = sig cs i" if "i < 4" for i
  proof -
    have "sig cs i = map of_char cs ! i" using that assms(2) by (simp add: sig_def)
    also have "\<dots> = mp_image ! (k + i)" using assms that by (simp add: mp_image_length)
    finally show ?thesis using mp_mem_at [of "k + i"] assms that by (simp add: ac_simps)
  qed
  then show ?thesis by (simp add: memcmp_eq_0)
qed

lemma mp_mem_config: "mpconfig mp_mem = Some (16, 64)"
proof -
  have "sum_mp mp_mem 16 16 = 0" "memcmp mp_mem 16 (sig ''_MP_'') 0 4 = 0"
    using mp_mem_sum [of 0 16] mp_mem_sig [of 0 "''_MP_''"] by (simp_all add: sum_mp_eq mp_image_def)
  moreover have "(1024 div 16 :: nat) = Suc 63" by simp
  ultimately have "mpsearch1 mp_mem 16 1024 = Some 16"
    unfolding mpsearch1_def by (simp only: mpsearch1_loop.simps) simp
  then have "mpsearch mp_mem = Some 16"
    by (simp add: mpsearch_def mp_mem_def [of 1039] mp_mem_def [of 1038] mp_image_length)
  moreover have "mp_physaddr mp_mem 16 = 64" "conf_version mp_mem 64 = 4" "conf_length mp_mem 64 = 92"
    by (simp_all add: mp_physaddr_def conf_version_def conf_length_def rd32_def rd16_def mp_mem_def mp_image_length)
      (simp_all add: mp_image_def)
  moreover have "sum_mp mp_mem 64 92 = 0" "memcmp mp_mem 64 (sig ''PCMP'') 0 4 = 0"
    using mp_mem_sum [of 48 92] mp_mem_sig [of 48 "''PCMP''"] by (simp_all add: sum_mp_eq mp_image_def)
  ultimately show ?thesis by (simp add: mpconfig_def)
qed

definition mp_entries :: "mpentry list" where
  "mp_entries = [Processor 0 True, Processor 1 False, Io_apic 2]"

lemma mp_mem_entries: "conf_end mp_mem 64 = 156" "entries_at mp_mem 156 (64 + sizeof_mpconf) mp_entries 156"
proof -
  show "conf_end mp_mem 64 = 156"
    by (simp add: conf_end_def conf_length_def rd16_def mp_mem_def mp_image_length) (simp add: mp_image_def)
  show "entries_at mp_mem 156 (64 + sizeof_mpconf) mp_entries 156"
    by (simp add: mp_entries_def proc_apicid_def proc_flags_def ioapic_apicno_def mp_mem_def mp_image_length)
      (simp add: mp_image_def)
qed

theorem mpinit_table_witness:
  "\<exists>s'. mpinit mp_mem (\<lambda>_. 0) mp_start = Some (Mp_done s') \<and> mpbcpu s' = 0 \<and> ismp s' \<and> ncpu s' = 2
     \<and> lapic s' = 0xFEE00000 \<and> ioapicid s' = 2"
proof -
  have p: "procs mp_entries = [(0, True), (1, False)]" "ioapics mp_entries = [2]"
    by (simp_all add: mp_entries_def)
  have o: "in_order 0 (procs mp_entries)" "boots 0 (procs mp_entries) = [0]"
    unfolding p by (simp_all add: in_order_def boots_def upt_rec)
  have l: "conf_lapicaddr mp_mem 64 = 0xFEE00000"
    by (simp add: conf_lapicaddr_def rd32_def mp_mem_def mp_image_length) (simp add: mp_image_def)
  show ?thesis
    using mpinit_table [OF mp_mem_config, of mp_entries mp_start "\<lambda>_. 0"] mp_mem_entries o l
    by (auto simp: p mp_start_def)
qed

end
