(* ===== verification/Bootmain.thy ===== *)
theory Bootmain
  imports Exec
begin

text \<open>
  The boot loader, \<open>kernel/bootmain.c\<close>: it reads the kernel, an ELF file, from the disk from sector
  1 on, sector by sector, and enters it. The state is the memory and the bytes written to the
  registers of the disk controller; \<open>dk\<close>, the contents of the sectors, is an argument. The
  controller answers a read with the sector whose number stands in its registers; the wait for
  it to be ready is taken to end. \<open>None\<close> is a loop that does not end.
\<close>

abbreviation (input) SECTSIZE :: nat where "SECTSIZE \<equiv> 512"

record boot =
  bmem :: bytes
  regs :: "nat \<Rightarrow> uchar"

type_synonym sectors = "nat \<Rightarrow> bytes"

section \<open>Reading sectors\<close>

definition boot_outb :: "nat \<Rightarrow> uchar \<Rightarrow> boot \<Rightarrow> boot" where
  "boot_outb p v s = s\<lparr>regs := (regs s)(p := v)\<rparr>"

text \<open>The sector number in the registers: 28 bits.\<close>

definition lba :: "(nat \<Rightarrow> uchar) \<Rightarrow> nat" where
  "lba r = unat (r 0x1F3) + 256 * unat (r 0x1F4) + 65536 * unat (r 0x1F5) + 16777216 * (unat (r 0x1F6) mod 16)"

definition insl_boot :: "sectors \<Rightarrow> uint \<Rightarrow> nat \<Rightarrow> boot \<Rightarrow> boot" where
  "insl_boot dk d cnt s = s\<lparr>bmem := memmove_obj (bmem s) (unat d) (dk (lba (regs s))) 0 (4 * cnt)\<rparr>"

definition readsect :: "sectors \<Rightarrow> uint \<Rightarrow> uint \<Rightarrow> boot \<Rightarrow> boot" where
  "readsect dk d off s =
     (let s = boot_outb 0x1F2 1 s;
          s = boot_outb 0x1F3 (ucast off) s;
          s = boot_outb 0x1F4 (ucast (drop_bit 8 off)) s;
          s = boot_outb 0x1F5 (ucast (drop_bit 16 off)) s;
          s = boot_outb 0x1F6 (ucast (drop_bit 24 off OR 0xE0)) s;
          s = boot_outb 0x1F7 0x20 s
      in insl_boot dk d (SECTSIZE div 4) s)"

partial_function (option) readseg_loop :: "sectors \<Rightarrow> uint \<Rightarrow> uint \<Rightarrow> uint \<Rightarrow> boot \<Rightarrow> boot option" where
  "readseg_loop dk va eva off s =
     (if va < eva then readseg_loop dk (va + of_nat SECTSIZE) eva (off + 1) (readsect dk va off s) else Some s)"

definition readseg :: "sectors \<Rightarrow> uint \<Rightarrow> uint \<Rightarrow> uint \<Rightarrow> boot \<Rightarrow> boot option" where
  "readseg dk va count off s =
     (let eva = va + count;
          va = va - off mod of_nat SECTSIZE;
          off = off div of_nat SECTSIZE + 1
      in readseg_loop dk va eva off s)"

section \<open>Loading the kernel\<close>

abbreviation (input) elf_addr :: nat where "elf_addr \<equiv> 0x10000"

definition at :: "bytes \<Rightarrow> nat \<Rightarrow> bytes" where
  "at m a = (\<lambda>i. m (a + i))"

text \<open>The loop over the program headers, from \<open>ph\<close>; a header is 32 bytes.\<close>

partial_function (option) boot_load :: "sectors \<Rightarrow> uint \<Rightarrow> uint \<Rightarrow> boot \<Rightarrow> boot option" where
  "boot_load dk ph eph s =
     (if ph < eph then
        let h = ph_of (at (bmem s) (unat ph)) in
        (case readseg dk (ph_va h) (ph_filesz h) (ph_offset h) s of
           None \<Rightarrow> None
         | Some s' \<Rightarrow>
             let h' = ph_of (at (bmem s') (unat ph));
                 s'' = (if ph_memsz h' > ph_filesz h'
                       then s'\<lparr>bmem := memset (bmem s') (unat (ph_va h + ph_filesz h')) 0 (unat (ph_memsz h' - ph_filesz h'))\<rparr> else s')
             in boot_load dk (ph + 32) eph s'')
      else Some s)"

text \<open>\<open>Returned\<close>: no ELF file, back to \<open>bootasm.S\<close>; \<open>Entered\<close>: the kernel runs from its entry point.\<close>

datatype boot_result = Returned boot | Entered uint boot

definition bootmain :: "sectors \<Rightarrow> boot \<Rightarrow> boot_result option" where
  "bootmain dk s =
     (case readseg dk (of_nat elf_addr) 4096 0 s of
        None \<Rightarrow> None
      | Some s \<Rightarrow>
          let elf = elf_of (at (bmem s) elf_addr) in
          if elf_magic elf \<noteq> ELF_MAGIC then Some (Returned s)
          else
            let ph = of_nat elf_addr + elf_phoff elf; eph = ph + 32 * ucast (elf_phnum elf) in
            (case boot_load dk ph eph s of
               None \<Rightarrow> None
             | Some s \<Rightarrow> Some (Entered (elf_entry (elf_of (at (bmem s) elf_addr))) s)))"

section \<open>What readseg reads\<close>

text \<open>The kernel file: the bytes of the disk from sector 1 on.\<close>

definition kernel_file :: "sectors \<Rightarrow> bytes" where
  "kernel_file dk i = dk (i div SECTSIZE + 1) (i mod SECTSIZE)"

lemma bytes_of_28:
  fixes x :: nat
  assumes "x < 2 ^ 28"
  shows "x mod 256 + 256 * (x div 256 mod 256) + 65536 * (x div 65536 mod 256) + 16777216 * (x div 16777216 mod 16) = x"
proof -
  define a b c where "a = x div 256" and "b = a div 256" and "c = b div 256"
  have d: "x div 65536 = b" "x div 16777216 = c" by (simp_all add: a_def b_def c_def div_mult2_eq [symmetric])
  have "c < 16" using assms unfolding d(2) [symmetric] by (simp add: less_mult_imp_div_less)
  moreover have "x = 256 * a + x mod 256" "a = 256 * b + a mod 256" "b = 256 * c + b mod 256" by (simp_all add: a_def b_def c_def)
  ultimately show ?thesis unfolding d a_def [symmetric] by simp
qed

lemma lba_of:
  fixes off :: uint
  assumes "unat off < 2 ^ 28" "r 0x1F3 = ucast off" "r 0x1F4 = ucast (drop_bit 8 off)" "r 0x1F5 = ucast (drop_bit 16 off)"
    "r 0x1F6 = ucast (drop_bit 24 off OR 0xE0)"
  shows "lba r = unat off"
proof -
  have u: "unat (ucast (drop_bit k off) :: uchar) = unat off div 2 ^ k mod 256" for k
    using uint_bound [of off] by (simp only: unsigned_ucast_eq unsigned_drop_bit_eq) (simp add: take_bit_eq_mod drop_bit_eq_div)
  have "unat (ucast (drop_bit 24 off OR 0xE0) :: uchar) mod 16 = unat off div 16777216 mod 16"
  proof -
    have "take_bit 4 (ucast (drop_bit 24 off OR 0xE0) :: uchar) = take_bit 4 (ucast (drop_bit 24 off))"
    proof (rule bit_word_eqI)
      fix n assume "n < LENGTH(8)"
      have "\<not> bit (0xE0 :: uint) n" if "n < 4"
      proof -
        have "n = 0 \<or> n = 1 \<or> n = 2 \<or> n = 3" using that by linarith
        then show ?thesis by auto
      qed
      then show "bit (take_bit 4 (ucast (drop_bit 24 off OR 0xE0) :: uchar)) n = bit (take_bit 4 (ucast (drop_bit 24 off) :: uchar)) n"
        by (auto simp: bit_simps)
    qed
    then have "unat (take_bit 4 (ucast (drop_bit 24 off OR 0xE0) :: uchar)) = unat (take_bit 4 (ucast (drop_bit 24 off) :: uchar))" by simp
    moreover have "unat (take_bit 4 (w :: uchar)) = unat w mod 16" for w
      by (simp only: unsigned_take_bit_eq) (simp add: take_bit_eq_mod)
    ultimately have "unat (ucast (drop_bit 24 off OR 0xE0) :: uchar) mod 16 = unat off div 2 ^ 24 mod 256 mod 16"
      by (simp only: u)
    then show ?thesis by (simp add: mod_mod_cancel)
  qed
  moreover have "unat (ucast off :: uchar) = unat off mod 256" using u [of 0] by simp
  ultimately have "lba r = unat off mod 256 + 256 * (unat off div 2 ^ 8 mod 256) + 65536 * (unat off div 2 ^ 16 mod 256)
      + 16777216 * (unat off div 16777216 mod 16)"
    unfolding lba_def assms(2-5) u by simp
  moreover have "(2 :: nat) ^ 8 = 256" "(2 :: nat) ^ 16 = 65536" by simp_all
  ultimately show ?thesis using bytes_of_28 [OF assms(1)] by (simp only:)
qed

lemma readsect_reads:
  assumes "unat off < 2 ^ 28"
  shows "bmem (readsect dk d off s) = (\<lambda>i. if unat d \<le> i \<and> i < unat d + SECTSIZE then dk (unat off) (i - unat d) else bmem s i)"
proof -
  have "lba ((regs s)(0x1F2 := 1, 0x1F3 := ucast off, 0x1F4 := ucast (drop_bit 8 off), 0x1F5 := ucast (drop_bit 16 off),
      0x1F6 := ucast (drop_bit 24 off OR 0xE0), 0x1F7 := 0x20)) = unat off"
    by (rule lba_of [OF assms]) simp_all
  then show ?thesis
    unfolding readsect_def Let_def insl_boot_def boot_outb_def by (auto simp: memmove_obj_at fun_eq_iff)
qed

text \<open>The bytes \<open>va\<close> to \<open>va + 512 n\<close> are those of sectors \<open>off\<close> to \<open>off + n\<close>; nothing else changes.\<close>

lemma readseg_loop_reads:
  assumes "unat va + 512 * n < 2 ^ 32" "unat off + n < 2 ^ 28" "unat eva \<le> unat va + 512 * n" "n = 0 \<or> unat va + 512 * (n - 1) < unat eva"
  shows "\<exists>s'. readseg_loop dk va eva off s = Some s'
    \<and> bmem s' = (\<lambda>i. if unat va \<le> i \<and> i < unat va + 512 * n then dk (unat off + (i - unat va) div 512) ((i - unat va) mod 512) else bmem s i)"
  using assms
proof (induction n arbitrary: va off s)
  case 0
  then have "\<not> va < eva" by (simp add: word_less_nat_alt)
  then have "readseg_loop dk va eva off s = Some s" by (simp add: readseg_loop.simps)
  moreover have "bmem s = (\<lambda>i. if unat va \<le> i \<and> i < unat va + 512 * 0 then dk (unat off + (i - unat va) div 512) ((i - unat va) mod 512) else bmem s i)"
    by (rule ext) auto
  ultimately show ?case by blast
next
  case (Suc n)
  have "va < eva" using Suc.prems(4) by (simp add: word_less_nat_alt)
  have u: "unat (va + 512) = unat va + 512" "unat (off + 1) = unat off + 1"
    using Suc.prems(1,2) by (simp_all add: unat_word_ariths)
  have h: "unat (va + 512) + 512 * n < 2 ^ 32" "unat (off + 1) + n < 2 ^ 28" "unat eva \<le> unat (va + 512) + 512 * n"
    using Suc.prems(1-3) unfolding u by simp_all
  have "n = 0 \<or> unat (va + 512) + 512 * (n - 1) < unat eva"
    using Suc.prems(4) unfolding u by (cases n) simp_all
  from Suc.IH [OF h this, of "readsect dk va off s"]
  obtain s' where s': "readseg_loop dk (va + 512) eva (off + 1) (readsect dk va off s) = Some s'"
    "bmem s' = (\<lambda>i. if unat va + 512 \<le> i \<and> i < unat va + 512 + 512 * n
        then dk (unat off + 1 + (i - (unat va + 512)) div 512) ((i - (unat va + 512)) mod 512) else bmem (readsect dk va off s) i)"
    unfolding u by blast
  have r0: "bmem (readsect dk va off s) i = (if unat va \<le> i \<and> i < unat va + 512 then dk (unat off) (i - unat va) else bmem s i)" for i
    using readsect_reads [of off dk va s] Suc.prems(2) by simp
  have "bmem s' i = (if unat va \<le> i \<and> i < unat va + 512 * Suc n then dk (unat off + (i - unat va) div 512) ((i - unat va) mod 512) else bmem s i)" for i
  proof (cases "unat va + 512 \<le> i")
    case True
    define j where "j = i - (unat va + 512)"
    have i: "i = unat va + 512 + j" using True by (simp add: j_def)
    have "(512 + j) div 512 = 1 + j div 512" "(512 + j) mod 512 = j mod 512" by simp_all
    then show ?thesis unfolding s'(2) r0 i by (simp add: add.assoc)
  next
    case False
    then have "unat va \<le> i \<Longrightarrow> (i - unat va) div 512 = 0 \<and> (i - unat va) mod 512 = i - unat va" by simp
    then show ?thesis using False unfolding s'(2) r0 by simp
  qed
  then have "bmem s' = (\<lambda>i. if unat va \<le> i \<and> i < unat va + 512 * Suc n then dk (unat off + (i - unat va) div 512) ((i - unat va) mod 512) else bmem s i)"
    by blast
  moreover have "readseg_loop dk va eva off s = Some s'"
    using s'(1) \<open>va < eva\<close> readseg_loop.simps [of dk va eva off s] by simp
  ultimately show ?case by blast
qed

text \<open>
  \<open>readseg\<close> puts \<open>count\<close> bytes of the kernel file from \<open>off\<close> at \<open>va\<close>. What else it writes lies between
  the sector boundaries around them.
\<close>

lemma readseg_reads:
  assumes "unat va + unat count + 512 < 2 ^ 32" "unat off mod 512 \<le> unat va"
  shows "\<exists>s'. readseg dk va count off s = Some s'
    \<and> (\<forall>i<unat count. bmem s' (unat va + i) = kernel_file dk (unat off + i))
    \<and> (\<forall>i. i < unat va - unat off mod 512 \<or> unat va + unat count + 511 < i \<longrightarrow> bmem s' i = bmem s i)"
proof -
  define k where "k = unat off mod 512"
  define q where "q = unat off div 512"
  define n where "n = (unat count + k + 511) div 512"
  have o: "unat off = 512 * q + k" "k < 512" by (simp_all add: k_def q_def)
  have kv: "k \<le> unat va" using assms(2) by (simp add: k_def)
  have n: "512 * n \<le> unat count + k + 511" "unat count + k \<le> 512 * n" "n = 0 \<or> 512 * (n - 1) < unat count + k"
    unfolding n_def by linarith+
  have u: "unat (off mod 512) = k" "unat (off div 512) = q"
    by (simp_all add: unat_mod unat_div k_def q_def)
  have q: "q < 2 ^ 23" using uint_bound [of off] o by simp
  then have q1: "unat (off div 512 + 1) = q + 1" by (subst unat_word_ariths(1)) (simp only: u(2), simp)
  have v: "unat (va - off mod 512) = unat va - k" "unat (va + count) = unat va + unat count"
    using assms(1) kv u(1) by (simp_all add: unat_sub word_le_nat_alt unat_word_ariths)
  have "n < 2 ^ 24" using n(1) assms(1) o(2) by simp
  then obtain s' where s': "readseg_loop dk (va - off mod 512) (va + count) (off div 512 + 1) s = Some s'"
    "bmem s' = (\<lambda>i. if unat va - k \<le> i \<and> i < unat va - k + 512 * n
        then dk (q + 1 + (i - (unat va - k)) div 512) ((i - (unat va - k)) mod 512) else bmem s i)"
    using readseg_loop_reads [of "va - off mod 512" n "off div 512 + 1" "va + count" dk s] assms(1) n q kv
    unfolding v q1 by fastforce
  have "bmem s' (unat va + i) = kernel_file dk (unat off + i)" if "i < unat count" for i
  proof -
    have "unat va + i - (unat va - k) = k + i" using kv by simp
    moreover have "(unat off + i) div 512 = q + (k + i) div 512" "(unat off + i) mod 512 = (k + i) mod 512"
      unfolding o(1) by (simp_all add: add.assoc)
    moreover have "unat va - k \<le> unat va + i" "unat va + i < unat va - k + 512 * n" using that n(2) kv by linarith+
    ultimately show ?thesis by (simp add: s'(2) kernel_file_def)
  qed
  moreover have "bmem s' i = bmem s i" if "i < unat va - k \<or> unat va + unat count + 511 < i" for i
    using that n(1) kv by (auto simp: s'(2))
  ultimately show ?thesis using s'(1) by (auto simp: readseg_def k_def Let_def)
qed

section \<open>What bootmain loads\<close>

definition prog :: "bytes \<Rightarrow> nat \<Rightarrow> proghdr" where
  "prog f j = ph_of (at f (unat (elf_phoff (elf_of f)) + 32 * j))"

definition phnum :: "bytes \<Rightarrow> nat" where
  "phnum f = unat (elf_phnum (elf_of f))"

text \<open>The first address of memory that loading a segment may change.\<close>

definition seg_low :: "proghdr \<Rightarrow> nat" where
  "seg_low h = unat (ph_va h) - unat (ph_offset h) mod SECTSIZE"

text \<open>
  A kernel that can be loaded: its program headers lie in its first page, its segments above the
  scratch page of the loader and in order of address, each away from the sectors of the next.
\<close>

definition seg_ok :: "proghdr \<Rightarrow> bool" where
  "seg_ok h \<longleftrightarrow> ph_filesz h \<le> ph_memsz h \<and> unat (ph_va h) + unat (ph_memsz h) + SECTSIZE < 2 ^ 32 \<and> 0x11000 \<le> seg_low h"

definition loadable :: "bytes \<Rightarrow> bool" where
  "loadable f \<longleftrightarrow> elf_magic (elf_of f) = ELF_MAGIC \<and> unat (elf_phoff (elf_of f)) + 32 * phnum f \<le> 4096
     \<and> (\<forall>j<phnum f. seg_ok (prog f j))
     \<and> (\<forall>j<phnum f. \<forall>k<j. unat (ph_va (prog f k)) + unat (ph_memsz (prog f k)) \<le> seg_low (prog f j))"

definition loaded :: "bytes \<Rightarrow> proghdr \<Rightarrow> bytes \<Rightarrow> bool" where
  "loaded f h m \<longleftrightarrow> (\<forall>i<unat (ph_memsz h). m (unat (ph_va h) + i) = (if i < unat (ph_filesz h) then f (unat (ph_offset h) + i) else 0))"

lemma ph_of_cong: "(\<And>i. i < 32 \<Longrightarrow> d i = d' i) \<Longrightarrow> ph_of d = ph_of d'"
  by (simp add: ph_of_def rd32_def)

lemma elf_of_cong: "(\<And>i. i < 52 \<Longrightarrow> d i = d' i) \<Longrightarrow> elf_of d = elf_of d'"
  by (simp add: elf_of_def rd32_def rd16_def)

definition scratch :: "bytes \<Rightarrow> bytes \<Rightarrow> bool" where
  "scratch f m \<longleftrightarrow> (\<forall>i<4096. m (elf_addr + i) = f i)"

text \<open>One segment, with the program header in the scratch page.\<close>

lemma load_segment:
  assumes "seg_ok h" "scratch (kernel_file dk) (bmem s)"
  shows "\<exists>s1 s2. readseg dk (ph_va h) (ph_filesz h) (ph_offset h) s = Some s1
    \<and> s2 = (if ph_memsz h > ph_filesz h
            then s1\<lparr>bmem := memset (bmem s1) (unat (ph_va h + ph_filesz h)) 0 (unat (ph_memsz h - ph_filesz h))\<rparr> else s1)
    \<and> scratch (kernel_file dk) (bmem s1) \<and> loaded (kernel_file dk) h (bmem s2) \<and> (\<forall>a < seg_low h. bmem s2 a = bmem s a)"
proof -
  let ?v = "unat (ph_va h)" and ?fs = "unat (ph_filesz h)" and ?ms = "unat (ph_memsz h)" and ?k = "unat (ph_offset h) mod 512"
  have le: "?fs \<le> ?ms" "?v + ?ms + 512 < 2 ^ 32" "0x11000 \<le> seg_low h"
    using assms(1) by (simp_all add: seg_ok_def word_le_nat_alt)
  have kv: "?k \<le> ?v" "seg_low h \<le> ?v" using le(3) unfolding seg_low_def by linarith+
  obtain s1 where s1: "readseg dk (ph_va h) (ph_filesz h) (ph_offset h) s = Some s1"
    "\<forall>i<?fs. bmem s1 (?v + i) = kernel_file dk (unat (ph_offset h) + i)"
    "\<forall>i. i < seg_low h \<or> ?v + ?fs + 511 < i \<longrightarrow> bmem s1 i = bmem s i"
    using readseg_reads [of "ph_va h" "ph_filesz h" "ph_offset h" dk s] le kv(1) unfolding seg_low_def by fastforce
  let ?s2 = "if ph_memsz h > ph_filesz h
            then s1\<lparr>bmem := memset (bmem s1) (unat (ph_va h + ph_filesz h)) 0 (unat (ph_memsz h - ph_filesz h))\<rparr> else s1"
  have u: "unat (ph_va h + ph_filesz h) = ?v + ?fs" using le by (simp add: unat_word_ariths)
  have w: "unat (ph_memsz h - ph_filesz h) = ?ms - ?fs" using assms(1) by (simp add: seg_ok_def unat_sub)
  have m2: "bmem ?s2 a = (if ?v + ?fs \<le> a \<and> a < ?v + ?ms then 0 else bmem s1 a)" for a
    using le(1) by (auto simp: memset_at u w word_less_nat_alt)
  have "scratch (kernel_file dk) (bmem s1)" using assms(2) s1(3) le(3) by (simp add: scratch_def)
  moreover have "loaded (kernel_file dk) h (bmem ?s2)" unfolding loaded_def m2 using s1(2) by auto
  moreover have "\<forall>a < seg_low h. bmem ?s2 a = bmem s a" unfolding m2 using s1(3) kv(2) by auto
  ultimately show ?thesis using s1(1) by blast
qed

lemma boot_load_loads:
  fixes dk :: sectors
  defines "f \<equiv> kernel_file dk"
  assumes "loadable f" "scratch f (bmem s)" "j \<le> phnum f" "unat ph = elf_addr + unat (elf_phoff (elf_of f)) + 32 * j"
    "unat eph = elf_addr + unat (elf_phoff (elf_of f)) + 32 * phnum f"
  shows "\<exists>s'. boot_load dk ph eph s = Some s' \<and> scratch f (bmem s') \<and> (\<forall>i. j \<le> i \<and> i < phnum f \<longrightarrow> loaded f (prog f i) (bmem s'))
    \<and> (\<forall>a. (\<forall>i. j \<le> i \<and> i < phnum f \<longrightarrow> a < seg_low (prog f i)) \<longrightarrow> bmem s' a = bmem s a)"
  using assms(3-5)
proof (induction "phnum f - j" arbitrary: j ph s)
  case 0
  then have "\<not> ph < eph" using assms(6) by (simp add: word_less_nat_alt)
  then have "boot_load dk ph eph s = Some s" by (simp add: boot_load.simps)
  then show ?case using 0 by auto
next
  case (Suc n)
  let ?h = "prog f j"
  have j: "j < phnum f" using Suc.hyps(2) by simp
  then have lt: "ph < eph" using Suc.prems(3) assms(6) by (simp add: word_less_nat_alt)
  have ok: "seg_ok ?h" "unat (elf_phoff (elf_of f)) + 32 * phnum f \<le> 4096" using assms(2) j by (auto simp: loadable_def)
  have hd: "ph_of (at m (unat ph)) = ?h" if "scratch f m" for m
    unfolding prog_def
  proof (rule ph_of_cong)
    fix i :: nat assume "i < 32"
    then have "unat (elf_phoff (elf_of f)) + 32 * j + i < 4096" using j ok(2) by linarith
    then show "at m (unat ph) i = at f (unat (elf_phoff (elf_of f)) + 32 * j) i"
      using that unfolding at_def Suc.prems(3) scratch_def by (simp add: add.assoc)
  qed
  obtain s1 s2 where s1: "readseg dk (ph_va ?h) (ph_filesz ?h) (ph_offset ?h) s = Some s1"
    and s2: "s2 = (if ph_memsz ?h > ph_filesz ?h
            then s1\<lparr>bmem := memset (bmem s1) (unat (ph_va ?h + ph_filesz ?h)) 0 (unat (ph_memsz ?h - ph_filesz ?h))\<rparr> else s1)"
    and l: "scratch f (bmem s1)" "loaded f ?h (bmem s2)" "\<forall>a < seg_low ?h. bmem s2 a = bmem s a"
    using load_segment [OF ok(1), of dk s] Suc.prems(1) unfolding f_def by blast
  have step: "boot_load dk ph eph s = boot_load dk (ph + 32) eph s2"
    using lt s1 hd [OF Suc.prems(1)] hd [OF l(1)] s2 by (subst boot_load.simps) (simp add: Let_def)
  have low: "elf_addr + 4096 \<le> seg_low ?h" using ok(1) by (simp add: seg_ok_def)
  have sc: "scratch f (bmem s2)" using Suc.prems(1) l(3) low by (simp add: scratch_def)
  have "unat (ph + 32) = elf_addr + unat (elf_phoff (elf_of f)) + 32 * Suc j"
    using Suc.prems(3) ok(2) j by (simp add: unat_word_ariths)
  moreover have "n = phnum f - Suc j" "Suc j \<le> phnum f" using Suc.hyps(2) by simp_all
  ultimately obtain s' where s': "boot_load dk (ph + 32) eph s2 = Some s'" "scratch f (bmem s')"
    "\<forall>i. Suc j \<le> i \<and> i < phnum f \<longrightarrow> loaded f (prog f i) (bmem s')"
    "\<forall>a. (\<forall>i. Suc j \<le> i \<and> i < phnum f \<longrightarrow> a < seg_low (prog f i)) \<longrightarrow> bmem s' a = bmem s2 a"
    using Suc.hyps(1) [of "Suc j" s2 "ph + 32"] sc by blast
  have "bmem s' (unat (ph_va ?h) + i) = bmem s2 (unat (ph_va ?h) + i)" if "i < unat (ph_memsz ?h)" for i
  proof -
    have "unat (ph_va ?h) + i < seg_low (prog f k)" if k: "Suc j \<le> k \<and> k < phnum f" for k
    proof -
      have "unat (ph_va ?h) + unat (ph_memsz ?h) \<le> seg_low (prog f k)" using assms(2) k unfolding loadable_def by auto
      then show ?thesis using \<open>i < unat (ph_memsz ?h)\<close> by simp
    qed
    then show ?thesis using s'(4) by blast
  qed
  then have lj: "loaded f ?h (bmem s')" using l(2) by (simp add: loaded_def)
  have "bmem s' a = bmem s a" if "\<forall>i. j \<le> i \<and> i < phnum f \<longrightarrow> a < seg_low (prog f i)" for a
    using that s'(4) l(3) j by auto
  moreover have "loaded f (prog f i) (bmem s')" if "j \<le> i \<and> i < phnum f" for i
    using that s'(3) lj by (cases "i = j") auto
  ultimately show ?case using step s'(1,2) by auto
qed

text \<open>
  C37: the boot loader loads the kernel. Let the disk hold, from sector 1 on, a kernel that can be
  loaded: an ELF file whose program headers lie in its first page and whose segments lie above
  the loader's scratch page, in order of address, each ending before the first sector of the next.
  Then \<open>bootmain\<close> enters the kernel at the entry point of the ELF header, whatever memory held
  before, with every segment in place: at its address the bytes of the file, and zeros from the
  file size to the memory size. A file without the ELF magic number is not entered.
\<close>
theorem bootmain_loads:
  assumes "loadable (kernel_file dk) \<or> elf_magic (elf_of (kernel_file dk)) \<noteq> ELF_MAGIC"
  shows "\<exists>s'. if elf_magic (elf_of (kernel_file dk)) = ELF_MAGIC
    then bootmain dk s = Some (Entered (elf_entry (elf_of (kernel_file dk))) s')
      \<and> (\<forall>j<phnum (kernel_file dk). loaded (kernel_file dk) (prog (kernel_file dk) j) (bmem s'))
    else bootmain dk s = Some (Returned s')"
proof -
  let ?f = "kernel_file dk"
  obtain s0 where s0: "readseg dk (of_nat elf_addr) 4096 0 s = Some s0" "\<forall>i<4096. bmem s0 (elf_addr + i) = ?f i"
    using readseg_reads [of "of_nat elf_addr" 4096 0 dk s] by auto
  have e: "elf_of (at m elf_addr) = elf_of ?f" if "scratch ?f m" for m
    by (rule elf_of_cong) (use that in \<open>simp add: at_def scratch_def\<close>)
  have sc: "scratch ?f (bmem s0)" using s0(2) by (simp add: scratch_def)
  show ?thesis
  proof (cases "elf_magic (elf_of ?f) = ELF_MAGIC")
    case False
    then show ?thesis using s0(1) e [OF sc] by (simp add: bootmain_def Let_def)
  next
    case True
    then have ld: "loadable ?f" using assms by simp
    then have b: "unat (elf_phoff (elf_of ?f)) + 32 * phnum ?f \<le> 4096" "elf_magic (elf_of ?f) = ELF_MAGIC" by (simp_all add: loadable_def)
    let ?ph = "of_nat elf_addr + elf_phoff (elf_of ?f)"
    let ?eph = "?ph + 32 * ucast (elf_phnum (elf_of ?f))"
    have ph: "unat ?ph = elf_addr + unat (elf_phoff (elf_of ?f)) + 32 * 0" using b(1) by (simp add: unat_word_ariths)
    have "unat (elf_phnum (elf_of ?f)) < 2 ^ 16" using unsigned_less [of "elf_phnum (elf_of ?f)"] by simp
    then have "unat (ucast (elf_phnum (elf_of ?f)) :: uint) = phnum ?f" by (simp add: phnum_def unsigned_ucast_eq take_bit_nat_eq_self)
    then have eph: "unat ?eph = elf_addr + unat (elf_phoff (elf_of ?f)) + 32 * phnum ?f"
      using ph b(1) by (simp add: unat_word_ariths)
    obtain s' where "boot_load dk ?ph ?eph s0 = Some s'" "scratch ?f (bmem s')" "\<forall>i<phnum ?f. loaded ?f (prog ?f i) (bmem s')"
      using boot_load_loads [OF ld sc _ ph eph] by auto
    then show ?thesis
      using s0(1) e [OF sc] e [of "bmem s'"] b(2) by (simp add: bootmain_def Let_def)
  qed
qed

text \<open>A kernel of one segment of three bytes of code and one byte of zeros, after the ELF header and one program header.\<close>

definition tiny_kernel :: "uchar list" where
  "tiny_kernel = [0x7F, 0x45, 0x4C, 0x46] @ replicate 20 0 @ [0x20, 0x00, 0x10, 0] @ [52, 0, 0, 0] @ replicate 12 0 @ [1, 0] @ replicate 6 0
     @ [1, 0, 0, 0, 84, 0, 0, 0, 0x00, 0x00, 0x10, 0, 0x00, 0x00, 0x10, 0, 3, 0, 0, 0, 4, 0, 0, 0] @ replicate 8 0 @ [0xEB, 0xFE, 0x90]"

definition tiny_disk :: sectors where
  "tiny_disk n i = (if n = 1 \<and> i < 87 then tiny_kernel ! i else 0)"

lemma tiny_file: "i < 512 \<Longrightarrow> kernel_file tiny_disk i = (if i < 87 then tiny_kernel ! i else 0)"
  by (simp add: kernel_file_def tiny_disk_def)

lemma tiny_headers:
  "elf_of (kernel_file tiny_disk) = \<lparr>elf_magic = ELF_MAGIC, elf_entry = 0x100020, elf_phoff = 52, elf_phnum = 1\<rparr>"
  "ph_of (at (kernel_file tiny_disk) 52) = \<lparr>ph_type = 1, ph_offset = 84, ph_va = 0x100000, ph_filesz = 3, ph_memsz = 4\<rparr>"
  by (simp_all add: elf_of_def ph_of_def at_def rd32_def rd16_def tiny_file) (simp_all add: tiny_kernel_def nth_append)

theorem bootmain_loads_witness:
  "\<exists>s'. bootmain tiny_disk \<lparr>bmem = (\<lambda>_. 0xFF), regs = (\<lambda>_. 0)\<rparr> = Some (Entered 0x100020 s')
     \<and> bmem s' 0x100000 = 0xEB \<and> bmem s' 0x100003 = 0"
proof -
  have n: "phnum (kernel_file tiny_disk) = 1" "prog (kernel_file tiny_disk) 0 = \<lparr>ph_type = 1, ph_offset = 84, ph_va = 0x100000, ph_filesz = 3, ph_memsz = 4\<rparr>"
    by (simp_all add: phnum_def prog_def tiny_headers)
  have "loadable (kernel_file tiny_disk)"
    by (simp add: loadable_def n tiny_headers seg_ok_def seg_low_def)
  then obtain s' where s': "bootmain tiny_disk \<lparr>bmem = (\<lambda>_. 0xFF), regs = (\<lambda>_. 0)\<rparr> = Some (Entered 0x100020 s')"
    "loaded (kernel_file tiny_disk) (prog (kernel_file tiny_disk) 0) (bmem s')"
    using bootmain_loads [of tiny_disk "\<lparr>bmem = (\<lambda>_. 0xFF), regs = (\<lambda>_. 0)\<rparr>"] by (auto simp: tiny_headers n)
  have "bmem s' (0x100000 + i) = (if i < 3 then kernel_file tiny_disk (84 + i) else 0)" if "i < 4" for i
    using s'(2) that by (simp add: loaded_def n)
  from this [of 0] this [of 3] show ?thesis using s'(1) by (simp add: tiny_file tiny_kernel_def nth_append)
qed

end
