(* ===== verification/User_Lib.thy ===== *)
theory User_Lib
  imports Console_Out
begin

text \<open>
  The user library (\<open>user/ulib.c\<close>, \<open>user/printf.c\<close>). A C string is the list of its characters
  before the NUL; a pointer into it is an offset. What a user program reads and writes is a
  record \<open>uio\<close>: the pieces in which the input arrives (a failing \<open>read\<close> as \<open>None\<close>), and the
  output to descriptors 1 and 2. One \<open>read\<close> returns at most one piece, or its beginning when the
  buffer is smaller; at the end of the input it returns 0.
\<close>

section \<open>Input and output of a user program\<close>

record uio =
  rd_chunks :: "string option list"
  out1 :: string
  out2 :: string

fun read_chunk :: "nat \<Rightarrow> string option list \<Rightarrow> int \<times> string \<times> string option list" where
  "read_chunk n [] = (0, [], [])"
| "read_chunk n (None # cs) = (- 1, [], cs)"
| "read_chunk n (Some c # cs) =
     (if length c \<le> n then (int (length c), c, cs) else (int n, take n c, Some (drop n c) # cs))"

definition put1 :: "string \<Rightarrow> uio \<Rightarrow> uio" where
  "put1 t w = w\<lparr>out1 := out1 w @ t\<rparr>"

definition put2 :: "string \<Rightarrow> uio \<Rightarrow> uio" where
  "put2 t w = w\<lparr>out2 := out2 w @ t\<rparr>"

text \<open>What a program has left to read, and a bound on the number of its reads.\<close>

fun stream :: "string option list \<Rightarrow> string" where
  "stream (Some c # cs) = c @ stream cs"
| "stream _ = []"

definition reads_left :: "string option list \<Rightarrow> nat" where
  "reads_left cs = sum_list (map (\<lambda>c. case c of None \<Rightarrow> 1 | Some t \<Rightarrow> Suc (length t)) cs)"

lemma read_chunk_less:
  "read_chunk n cs = (r, t, cs') \<Longrightarrow> 0 < r \<Longrightarrow> reads_left cs' < reads_left cs"
  by (induction n cs rule: read_chunk.induct) (auto simp: reads_left_def split: if_splits)

lemma read_chunk_stream:
  "read_chunk n cs = (r, t, cs') \<Longrightarrow> 0 < r \<Longrightarrow>
     stream cs = t @ stream cs' \<and> r = int (length t) \<and> length t \<le> n"
  by (induction n cs rule: read_chunk.induct) (auto split: if_splits)

section \<open>Strings\<close>

fun strcpy :: "bytes \<Rightarrow> nat \<Rightarrow> uchar list \<Rightarrow> bytes" where
  "strcpy s i [] = s(i := 0)"
| "strcpy s i (c # t) = strcpy (s(i := c)) (i + 1) t"

fun strchr :: "string \<Rightarrow> char \<Rightarrow> nat option" where
  "strchr [] c = None"
| "strchr (x # s) c = (if x = c then Some 0 else map_option Suc (strchr s c))"

lemma strchr_None: "strchr s c = None \<longleftrightarrow> c \<notin> set s"
  by (induction s) auto

fun gets_loop :: "nat \<Rightarrow> string option list \<Rightarrow> string \<times> string option list" where
  "gets_loop 0 cs = ([], cs)"
| "gets_loop (Suc k) cs =
     (case read_chunk 1 cs of (cc, t, cs') \<Rightarrow>
        if cc < 1 then ([], cs')
        else if hd t = CHR 0x0A \<or> hd t = CHR 0x0D then ([hd t], cs')
        else (case gets_loop k cs' of (r, cs'') \<Rightarrow> (hd t # r, cs'')))"

text \<open>The bytes \<open>gets\<close> stores before the NUL; the loop runs while \<open>i + 1 < max\<close>.\<close>

definition gets :: "nat \<Rightarrow> string option list \<Rightarrow> string \<times> string option list" where
  "gets mx cs = gets_loop (mx - 1) cs"

fun atoi_from :: "uint \<Rightarrow> string \<Rightarrow> uint" where
  "atoi_from n [] = n"
| "atoi_from n (c # s) =
     (if (48 :: nat) \<le> of_char c \<and> of_char c \<le> (57 :: nat) then atoi_from (n * 10 + of_char c - 48) s else n)"

definition atoi :: "string \<Rightarrow> uint" where
  "atoi s = atoi_from 0 s"

section \<open>printf\<close>

abbreviation uhexdigits :: string where "uhexdigits \<equiv> ''0123456789ABCDEF''"

definition uprintint_chars :: "uint \<Rightarrow> nat \<Rightarrow> bool \<Rightarrow> string" where
  "uprintint_chars xx base sg = rev (printint_buf uhexdigits xx base sg)"

text \<open>
  The characters \<open>printf\<close> puts out, one \<open>write\<close> each; the flag is \<open>state == '%'\<close>. As for
  \<open>cprintf\<close>, the result is \<open>None\<close> when the arguments do not match the format.
\<close>

fun uprintf_chars :: "bool \<Rightarrow> string \<Rightarrow> varg list \<Rightarrow> string option" where
  "uprintf_chars st [] args = Some []"
| "uprintf_chars False (c # fmt) args =
     (if c = CHR ''%'' then uprintf_chars True fmt args
      else map_option (\<lambda>r. c # r) (uprintf_chars False fmt args))"
| "uprintf_chars True (c # fmt) args =
     (if c = CHR ''d'' then
        (case args of VInt x # as \<Rightarrow> map_option (\<lambda>r. uprintint_chars x 10 True @ r) (uprintf_chars False fmt as)
         | _ \<Rightarrow> None)
      else if c = CHR ''x'' \<or> c = CHR ''p'' then
        (case args of VInt x # as \<Rightarrow> map_option (\<lambda>r. uprintint_chars x 16 False @ r) (uprintf_chars False fmt as)
         | _ \<Rightarrow> None)
      else if c = CHR ''s'' then
        (case args of VStr t # as \<Rightarrow>
           map_option (\<lambda>r. (case t of None \<Rightarrow> ''(null)'' | Some u \<Rightarrow> u) @ r) (uprintf_chars False fmt as)
         | _ \<Rightarrow> None)
      else if c = CHR ''c'' then
        (case args of VInt x # as \<Rightarrow> map_option (\<lambda>r. char_of (unat x) # r) (uprintf_chars False fmt as)
         | _ \<Rightarrow> None)
      else if c = CHR ''%'' then map_option (\<lambda>r. c # r) (uprintf_chars False fmt args)
      else map_option (\<lambda>r. CHR ''%'' # c # r) (uprintf_chars False fmt args))"

text \<open>The callers below pass arguments that match their formats.\<close>

definition uprintf :: "string \<Rightarrow> varg list \<Rightarrow> string" where
  "uprintf fmt args = (case uprintf_chars False fmt args of None \<Rightarrow> [] | Some t \<Rightarrow> t)"

section \<open>Reading back a printed number\<close>

definition decimal :: "char \<Rightarrow> bool" where
  "decimal c \<longleftrightarrow> (48 :: nat) \<le> of_char c \<and> of_char c \<le> (57 :: nat)"

lemma atoi_from_append:
  "list_all decimal s \<Longrightarrow> atoi_from n (s @ t) = atoi_from (atoi_from n s) t"
  by (induction s arbitrary: n) (auto simp: decimal_def)

lemma atoi_from_step: "decimal c \<Longrightarrow> atoi_from n [c] = n * 10 + of_nat (digit_val c)"
proof -
  assume c: "decimal c"
  then obtain k where k: "of_char c = (48 + k :: nat)" by (auto simp: decimal_def le_iff_add)
  then have "of_char c = (48 + of_nat k :: uint)"
    by (metis of_nat_add of_nat_numeral of_nat_of_char)
  moreover have "digit_val c = k" using c k by (simp add: digit_val_def decimal_def)
  ultimately show ?thesis using c by (simp add: decimal_def)
qed

lemma atoi_rev: "list_all decimal ds \<Longrightarrow> atoi_from 0 (rev ds) = of_nat (digits_val 10 ds)"
proof (induction ds)
  case (Cons d ds)
  then have "atoi_from 0 (rev (d # ds)) = atoi_from (of_nat (digits_val 10 ds)) [d]"
    by (simp only: rev.simps atoi_from_append list_all_rev list.pred_inject)
  also have "\<dots> = of_nat (digits_val 10 ds) * 10 + of_nat (digit_val d)"
    by (rule atoi_from_step) (use Cons.prems in simp)
  finally show ?case by simp
qed simp

lemma atoi_stops: "\<not> (\<exists>c t. s = c # t \<and> decimal c) \<Longrightarrow> atoi_from n s = n"
  by (cases s) (auto simp: decimal_def)

lemma printint_loop_decimal:
  assumes "\<And>d. d < 10 \<Longrightarrow> decimal (ds ! d)"
  shows "list_all decimal (printint_loop ds x 10)"
proof (induction x rule: less_induct)
  case (less x)
  then show ?case using assms div_smaller [of 10 x] by (subst printint_loop.simps) simp
qed

lemma uhex_decimal: "d < 10 \<Longrightarrow> decimal (uhexdigits ! d)"
  by (simp add: decimal_def numeral_nat less_Suc_eq) (elim disjE; simp)

lemma uprintint_loop_val: "digits_val 10 (printint_loop uhexdigits x 10) = x"
proof (induction x rule: less_induct)
  case (less x)
  have "d < 10 \<Longrightarrow> digit_val (uhexdigits ! d) = d" for d
    by (simp add: digit_val_def numeral_nat less_Suc_eq) (elim disjE; simp)
  then show ?case using less div_smaller [of 10 x] by (subst printint_loop.simps) simp
qed

text \<open>
  C27: \<open>atoi\<close> reads back what \<open>printf\<close> prints with \<open>%d\<close>, for every number that is not negative:
  it returns the same word, whatever follows the number, as long as it is not a digit.
\<close>

theorem atoi_printf:
  assumes "0 \<le> sint x" and "\<not> (\<exists>c u. t = c # u \<and> decimal c)"
  shows "\<exists>n. uprintf_chars False (''%d'' @ fmt) (VInt x # args) = map_option (\<lambda>r. n @ r) (uprintf_chars False fmt args)
    \<and> atoi (n @ t) = x"
proof (intro exI conjI)
  let ?n = "rev (printint_loop uhexdigits (unat x) 10)"
  show "uprintf_chars False (''%d'' @ fmt) (VInt x # args) = map_option (\<lambda>r. ?n @ r) (uprintf_chars False fmt args)"
    using assms(1) by (simp add: uprintint_chars_def printint_buf_def)
  have d: "list_all decimal (printint_loop uhexdigits (unat x) 10)"
    by (rule printint_loop_decimal [OF uhex_decimal])
  have "atoi (?n @ t) = atoi_from (atoi_from 0 ?n) t"
    unfolding atoi_def by (rule atoi_from_append) (use d in \<open>simp add: list_all_rev\<close>)
  then show "atoi (?n @ t) = x"
    by (simp only: atoi_rev [OF d] atoi_stops [OF assms(2)] uprintint_loop_val) simp
qed

theorem atoi_printf_witness:
  "\<exists>n. uprintf_chars False ''%d '' [VInt 343] = Some (n @ '' '') \<and> atoi (n @ '' '') = 343"
  using atoi_printf [of 343 "'' ''" "'' ''" "[]"] by (simp add: decimal_def)

end
