(* ===== verification/User_Text.thy ===== *)
theory User_Text
  imports User_Lib
begin

text \<open>
  The text tools \<open>user/cat.c\<close>, \<open>user/wc.c\<close> and \<open>user/grep.c\<close>: what they print for an input that
  arrives in pieces, and the regular expressions of \<open>grep\<close> against their meaning as sets of
  strings.
\<close>

section \<open>cat and wc\<close>

text \<open>The boolean is false when the program ended in \<open>exit\<close> after a read error.\<close>

function cat :: "uio \<Rightarrow> bool \<times> uio" where
  "cat w =
     (case read_chunk 512 (rd_chunks w) of (n, t, cs) \<Rightarrow>
        if n > 0 then cat (put1 t (w\<lparr>rd_chunks := cs\<rparr>))
        else if n < 0 then (False, put1 (uprintf ''cat: read error\<newline>'' []) (w\<lparr>rd_chunks := cs\<rparr>))
        else (True, w\<lparr>rd_chunks := cs\<rparr>))"
  by pat_completeness auto
termination
  by (relation "measure (\<lambda>w. reads_left (rd_chunks w))")
     (auto simp: put1_def dest: read_chunk_less [OF sym])

declare cat.simps [simp del]

record wcount =
  wc_l :: uint
  wc_w :: uint
  wc_c :: uint
  inword :: bool

abbreviation wc_space :: string where "wc_space \<equiv> [CHR '' '', CHR 0x0D, CHR 0x09, CHR 0x0A, CHR 0x0B]"

definition wc_char :: "char \<Rightarrow> wcount \<Rightarrow> wcount" where
  "wc_char x k =
     (let k = k\<lparr>wc_c := wc_c k + 1\<rparr>;
          k = (if x = CHR 0x0A then k\<lparr>wc_l := wc_l k + 1\<rparr> else k)
      in if strchr wc_space x \<noteq> None then k\<lparr>inword := False\<rparr>
         else if \<not> inword k then k\<lparr>wc_w := wc_w k + 1, inword := True\<rparr> else k)"

function wc_loop :: "wcount \<Rightarrow> string option list \<Rightarrow> int \<times> wcount \<times> string option list" where
  "wc_loop k cs =
     (case read_chunk 512 cs of (n, t, cs') \<Rightarrow>
        if n > 0 then wc_loop (fold wc_char t k) cs' else (n, k, cs'))"
  by pat_completeness auto
termination
  by (relation "measure (\<lambda>(k, cs). reads_left cs)") (auto dest: read_chunk_less [OF sym])

declare wc_loop.simps [simp del]

definition wc :: "string \<Rightarrow> uio \<Rightarrow> bool \<times> uio" where
  "wc name w =
     (case wc_loop \<lparr>wc_l = 0, wc_w = 0, wc_c = 0, inword = False\<rparr> (rd_chunks w) of (n, k, cs) \<Rightarrow>
        if n < 0 then (False, put1 (uprintf ''wc: read error\<newline>'' []) (w\<lparr>rd_chunks := cs\<rparr>))
        else (True, put1 (uprintf ''%d %d %d %s\<newline>'' [VInt (wc_l k), VInt (wc_w k), VInt (wc_c k), VStr (Some name)])
                (w\<lparr>rd_chunks := cs\<rparr>)))"

section \<open>Regular expressions\<close>

function matchhere :: "string \<Rightarrow> string \<Rightarrow> bool"
and matchstar :: "char \<Rightarrow> string \<Rightarrow> string \<Rightarrow> bool" where
  "matchhere [] tx = True"
| "matchhere (c # re) tx =
     (if re \<noteq> [] \<and> hd re = CHR ''*'' then matchstar c (tl re) tx
      else if c = CHR ''$'' \<and> re = [] then tx = []
      else (case tx of [] \<Rightarrow> False
            | d # tx' \<Rightarrow> (c = CHR ''.'' \<or> c = d) \<and> matchhere re tx'))"
| "matchstar c re tx =
     (matchhere re tx
      \<or> (case tx of [] \<Rightarrow> False | d # tx' \<Rightarrow> (d = c \<or> c = CHR ''.'') \<and> matchstar c re tx'))"
  by pat_completeness auto
termination
  by (relation "measures [\<lambda>x. case x of Inl (re, t) \<Rightarrow> 2 * length re | Inr (c, re, t) \<Rightarrow> 2 * length re + 1,
      \<lambda>x. case x of Inl (re, t) \<Rightarrow> length t | Inr (c, re, t) \<Rightarrow> length t]") auto

declare matchstar.simps [simp del]

text \<open>The \<open>do\<close> loop of \<open>match\<close> tries every suffix, the empty one included.\<close>

fun match_from :: "string \<Rightarrow> string \<Rightarrow> bool" where
  "match_from re [] = matchhere re []"
| "match_from re (d # tx) = (matchhere re (d # tx) \<or> match_from re tx)"

definition grep_match :: "string \<Rightarrow> string \<Rightarrow> bool" where
  "grep_match re tx =
     (if re \<noteq> [] \<and> hd re = CHR ''^'' then matchhere (tl re) tx else match_from re tx)"

section \<open>grep\<close>

text \<open>
  The buffer \<open>buf\<close> is the list of its 1024 characters. \<open>strchr\<close> from \<open>p\<close> finds the newline,
  stops at a NUL, or runs past the end of the buffer, after which the behaviour is undefined
  (\<open>None\<close>), as it is when \<open>m\<close> has become negative and \<open>read\<close> is to store before the buffer.
\<close>

abbreviation EOL :: char where "EOL \<equiv> CHR 0x0A"
abbreviation NUL :: char where "NUL \<equiv> CHR 0x00"

fun scan_line :: "string \<Rightarrow> nat option option" where
  "scan_line [] = None"
| "scan_line (x # s) =
     (if x = NUL then Some None else if x = EOL then Some (Some 0)
      else map_option (map_option Suc) (scan_line s))"

function grep_lines :: "string \<Rightarrow> string \<Rightarrow> nat \<Rightarrow> string \<Rightarrow> (string \<times> nat \<times> string) option" where
  "grep_lines pattern buf p out =
     (case scan_line (drop p buf) of
        None \<Rightarrow> None
      | Some None \<Rightarrow> Some (buf, p, out)
      | Some (Some k) \<Rightarrow>
          let tx = take k (drop p buf); q = p + k
          in if q < length buf then
               (if grep_match pattern tx
                then grep_lines pattern (buf[q := EOL]) (q + 1) (out @ take (k + 1) (drop p (buf[q := EOL])))
                else grep_lines pattern (buf[q := NUL]) (q + 1) out)
             else None)"
  by pat_completeness auto
termination
  by (relation "measure (\<lambda>(pattern, buf, p, out). length buf - p)") auto

declare grep_lines.simps [simp del]

function grep_loop :: "string \<Rightarrow> string \<Rightarrow> int \<Rightarrow> uio \<Rightarrow> (string \<times> uio) option" where
  "grep_loop pattern buf m w =
     (case read_chunk (nat (1024 - m)) (rd_chunks w) of (n, t, cs) \<Rightarrow>
        if n > 0 \<and> m < 0 then None
        else if n > 0 then
          let buf = take (nat m) buf @ t @ drop (nat m + length t) buf; m = m + n
          in (case grep_lines pattern buf 0 [] of
                None \<Rightarrow> None
              | Some (buf, p, out) \<Rightarrow>
                  let m = (if p = 0 then 0 else m);
                      m' = (if m > 0 then m - int p else m);
                      buf = (if m > 0 then take (nat m') (drop p buf) @ drop (nat m') buf else buf)
                  in grep_loop pattern buf m' (put1 out (w\<lparr>rd_chunks := cs\<rparr>)))
        else Some (buf, w\<lparr>rd_chunks := cs\<rparr>))"
  by pat_completeness auto
termination
  by (relation "measure (\<lambda>(pattern, buf, m, w). reads_left (rd_chunks w))")
     (auto simp: put1_def dest: read_chunk_less [OF sym])

declare grep_loop.simps [simp del]

text \<open>\<open>buf\<close> is a static array, all zero at the start.\<close>

definition grep :: "string \<Rightarrow> uio \<Rightarrow> uio option" where
  "grep pattern w = map_option snd (grep_loop pattern (replicate 1024 NUL) 0 w)"

section \<open>The main functions\<close>

text \<open>
  An argument is the name of a file with what reading it gives, or \<open>None\<close> when \<open>open\<close> fails.
  Without arguments a program reads its standard input. \<open>exit\<close> ends the loop.
\<close>

type_synonym uarg = "string \<times> string option list option"

fun cat_files :: "uarg list \<Rightarrow> uio \<Rightarrow> uio" where
  "cat_files [] w = w"
| "cat_files ((name, None) # args) w = put1 (uprintf ''cat: cannot open %s\<newline>'' [VStr (Some name)]) w"
| "cat_files ((name, Some cs) # args) w =
     (case cat (w\<lparr>rd_chunks := cs\<rparr>) of (ok, w') \<Rightarrow> if ok then cat_files args w' else w')"

definition cat_main :: "uarg list \<Rightarrow> uio \<Rightarrow> uio" where
  "cat_main args w = (if args = [] then snd (cat w) else cat_files args w)"

fun wc_files :: "uarg list \<Rightarrow> uio \<Rightarrow> uio" where
  "wc_files [] w = w"
| "wc_files ((name, None) # args) w = put1 (uprintf ''cat: cannot open %s\<newline>'' [VStr (Some name)]) w"
| "wc_files ((name, Some cs) # args) w =
     (case wc name (w\<lparr>rd_chunks := cs\<rparr>) of (ok, w') \<Rightarrow> if ok then wc_files args w' else w')"

definition wc_main :: "uarg list \<Rightarrow> uio \<Rightarrow> uio" where
  "wc_main args w = (if args = [] then snd (wc [] w) else wc_files args w)"

text \<open>\<open>buf\<close> keeps its contents from one file of \<open>grep\<close> to the next.\<close>

fun grep_files :: "string \<Rightarrow> string \<Rightarrow> uarg list \<Rightarrow> uio \<Rightarrow> uio option" where
  "grep_files pattern buf [] w = Some w"
| "grep_files pattern buf ((name, None) # args) w =
     Some (put1 (uprintf ''grep: cannot open %s\<newline>'' [VStr (Some name)]) w)"
| "grep_files pattern buf ((name, Some cs) # args) w =
     (case grep_loop pattern buf 0 (w\<lparr>rd_chunks := cs\<rparr>) of
        None \<Rightarrow> None
      | Some (buf', w') \<Rightarrow> grep_files pattern buf' args w')"

definition grep_main :: "string list \<Rightarrow> uarg list \<Rightarrow> uio \<Rightarrow> uio option" where
  "grep_main pats args w =
     (case pats of
        [] \<Rightarrow> Some (put2 (uprintf ''usage: grep pattern [file ...]\<newline>'' []) w)
      | pattern # _ \<Rightarrow>
          if args = [] then grep pattern w
          else grep_files pattern (replicate 1024 NUL) args w)"

section \<open>What a pattern matches\<close>

text \<open>
  A pattern is a sequence of characters, each possibly repeated, and a final \<open>$\<close>. Its meaning is
  a set of strings.
\<close>

datatype ritem = One char | Many char

fun rparse :: "string \<Rightarrow> ritem list \<times> bool" where
  "rparse [] = ([], False)"
| "rparse [c] = (if c = CHR ''$'' then ([], True) else ([One c], False))"
| "rparse (c # d # re) =
     (if d = CHR ''*'' then (Many c # fst (rparse re), snd (rparse re))
      else (One c # fst (rparse (d # re)), snd (rparse (d # re))))"

definition rchar :: "char \<Rightarrow> char \<Rightarrow> bool" where
  "rchar c d \<longleftrightarrow> c = CHR ''.'' \<or> c = d"

fun rlang :: "ritem list \<Rightarrow> string set" where
  "rlang [] = {[]}"
| "rlang (One c # is) = {d # v | d v. rchar c d \<and> v \<in> rlang is}"
| "rlang (Many c # is) = {u @ v | u v. list_all (rchar c) u \<and> v \<in> rlang is}"

definition starts :: "string \<Rightarrow> string \<Rightarrow> bool" where
  "starts re tx \<longleftrightarrow>
     (\<exists>u v. tx = u @ v \<and> u \<in> rlang (fst (rparse re)) \<and> (if snd (rparse re) then v = [] else True))"

lemma rlang_many: "rlang (Many c # is) = rlang is \<union> {d # v | d v. rchar c d \<and> v \<in> rlang (Many c # is)}"
proof (intro set_eqI iffI)
  fix w assume "w \<in> rlang (Many c # is)"
  then obtain u v where "w = u @ v" "list_all (rchar c) u" "v \<in> rlang is" by auto
  then show "w \<in> rlang is \<union> {d # v | d v. rchar c d \<and> v \<in> rlang (Many c # is)}" by (cases u) auto
next
  fix w assume "w \<in> rlang is \<union> {d # v | d v. rchar c d \<and> v \<in> rlang (Many c # is)}"
  then consider "w \<in> rlang is" | d u v where "w = (d # u) @ v" "list_all (rchar c) (d # u)" "v \<in> rlang is" by auto
  then show "w \<in> rlang (Many c # is)"
  proof cases
    case 1
    then show ?thesis by (simp, intro exI [of _ "[]"] exI [of _ w]) simp
  next
    case 2
    then show ?thesis by (simp only: rlang.simps) blast
  qed
qed

lemma starts_many:
  "starts (c # CHR ''*'' # re) tx \<longleftrightarrow>
     starts re tx \<or> (\<exists>d t. tx = d # t \<and> rchar c d \<and> starts (c # CHR ''*'' # re) t)"
proof -
  have eq: "fst (rparse (c # CHR ''*'' # re)) = Many c # fst (rparse re)"
    "snd (rparse (c # CHR ''*'' # re)) = snd (rparse re)" by simp_all
  show ?thesis
    unfolding starts_def eq
    by (subst rlang_many) (auto simp del: rlang.simps simp: Cons_eq_append_conv, blast+)
qed

lemma starts_one:
  assumes "\<not> (re \<noteq> [] \<and> hd re = CHR ''*'')" "\<not> (c = CHR ''$'' \<and> re = [])"
  shows "starts (c # re) tx \<longleftrightarrow> (\<exists>d t. tx = d # t \<and> rchar c d \<and> starts re t)"
proof -
  have eq: "fst (rparse (c # re)) = One c # fst (rparse re)" "snd (rparse (c # re)) = snd (rparse re)"
    using assms by (cases re; simp)+
  let ?stop = "\<lambda>v. if snd (rparse re) then v = [] else True"
  have "starts (c # re) tx \<longleftrightarrow> (\<exists>d u v. tx = d # u @ v \<and> rchar c d \<and> u \<in> rlang (fst (rparse re)) \<and> ?stop v)"
    unfolding starts_def eq rlang.simps mem_Collect_eq by (metis append_Cons)
  also have "\<dots> \<longleftrightarrow> (\<exists>d t. tx = d # t \<and> rchar c d \<and> starts re t)" unfolding starts_def by blast
  finally show ?thesis .
qed

lemma matchhere_lang:
  "matchhere re tx \<longleftrightarrow> starts re tx"
  "matchstar c re tx \<longleftrightarrow> starts (c # CHR ''*'' # re) tx"
proof (induction re tx and c re tx rule: matchhere_matchstar.induct)
  case (1 tx)
  then show ?case by (simp add: starts_def)
next
  case (2 c re tx)
  show ?case
  proof (cases "re \<noteq> [] \<and> hd re = CHR ''*''")
    case True
    then show ?thesis using 2 by (cases re) simp_all
  next
    case False
    show ?thesis
    proof (cases "c = CHR ''$'' \<and> re = []")
      case True
      then show ?thesis by (simp add: starts_def)
    next
      case nd: False
      have "matchhere (c # re) tx \<longleftrightarrow> (\<exists>d t. tx = d # t \<and> rchar c d \<and> matchhere re t)"
        using False nd by (auto simp: rchar_def split: list.splits)
      also have "\<dots> \<longleftrightarrow> starts (c # re) tx" unfolding starts_one [OF False nd] using 2(2) [OF False nd] by blast
      finally show ?thesis .
    qed
  qed
next
  case (3 c re tx)
  then show ?case
    by (subst matchstar.simps, subst starts_many) (auto simp: rchar_def split: list.splits)
qed

text \<open>
  C25: \<open>match\<close> of \<open>grep\<close> finds a pattern in a line exactly when some part of the line is in the set
  of strings the pattern stands for; after \<open>^\<close> the part is at the beginning of the line, and
  with a final \<open>$\<close> it is at its end.
\<close>

theorem grep_match_correct:
  "grep_match re tx \<longleftrightarrow>
     (let anchored = (re \<noteq> [] \<and> hd re = CHR ''^''); pat = rparse (if anchored then tl re else re)
      in \<exists>pre mid post. tx = pre @ mid @ post \<and> mid \<in> rlang (fst pat)
           \<and> (if anchored then pre = [] else True) \<and> (if snd pat then post = [] else True))"
proof -
  have "match_from re tx \<longleftrightarrow> (\<exists>pre t. tx = pre @ t \<and> starts re t)" for re
    by (induction tx) (auto simp: matchhere_lang Cons_eq_append_conv)
  then show ?thesis by (auto simp: grep_match_def matchhere_lang starts_def Let_def)
qed

section \<open>What grep prints\<close>

definition plain :: "string \<Rightarrow> bool" where
  "plain l \<longleftrightarrow> EOL \<notin> set l \<and> NUL \<notin> set l"

definition unlines :: "string list \<Rightarrow> string" where
  "unlines ls = concat (map (\<lambda>l. l @ [EOL]) ls)"

lemma unlines_simps [simp]:
  "unlines [] = []" "unlines (l # ls) = l @ EOL # unlines ls"
  by (simp_all add: unlines_def)

lemma scan_line_plain:
  "plain l \<Longrightarrow> scan_line (l @ EOL # x) = Some (Some (length l))"
  "plain l \<Longrightarrow> scan_line (l @ NUL # x) = Some None"
  by (induction l) (auto simp: plain_def)

lemma grep_lines_step:
  assumes "plain l"
  shows "grep_lines pat (d @ l @ EOL # x) (length d) out =
    (if grep_match pat l then grep_lines pat (d @ l @ EOL # x) (length (d @ l @ [EOL])) (out @ l @ [EOL])
     else grep_lines pat (d @ l @ NUL # x) (length (d @ l @ [NUL])) out)"
  using scan_line_plain(1) [OF assms, of x]
  by (subst grep_lines.simps) (simp add: list_update_append Let_def)

lemma grep_lines_ok:
  assumes "plain r" "list_all plain ls"
  shows "\<exists>d'. grep_lines pat (d @ unlines ls @ r @ NUL # z) (length d) out
      = Some (d' @ r @ NUL # z, length d', out @ unlines (filter (grep_match pat) ls))
    \<and> length d' = length d + length (unlines ls)"
  using assms(2)
proof (induction ls arbitrary: d out)
  case Nil
  then show ?case
    using scan_line_plain(2) [OF assms(1), of z] by (subst grep_lines.simps) simp
next
  case (Cons l ls)
  let ?c = "if grep_match pat l then EOL else NUL"
  from Cons.IH [of "d @ l @ [?c]" "if grep_match pat l then out @ l @ [EOL] else out"] Cons.prems
  obtain d' where "grep_lines pat ((d @ l @ [?c]) @ unlines ls @ r @ NUL # z) (length (d @ l @ [?c]))
      (if grep_match pat l then out @ l @ [EOL] else out)
    = Some (d' @ r @ NUL # z, length d', (if grep_match pat l then out @ l @ [EOL] else out) @ unlines (filter (grep_match pat) ls))"
    "length d' = length (d @ l @ [?c]) + length (unlines ls)" by auto
  then show ?case
    using Cons.prems by (intro exI [of _ d']) (simp add: grep_lines_step split: if_splits)
qed

text \<open>
  C26: \<open>grep\<close> on an input that arrives in one piece smaller than its buffer prints exactly the
  lines that match, in order, each with its newline; it ends, and does not print a last line
  that has no newline.
\<close>

theorem grep_prints:
  assumes "list_all plain ls" and "plain r" and "length (unlines ls @ r) < 1024" and "unlines ls @ r \<noteq> []"
  shows "\<exists>w'. grep pat (w\<lparr>rd_chunks := [Some (unlines ls @ r)]\<rparr>) = Some w'
    \<and> out1 w' = out1 w @ unlines (filter (grep_match pat) ls) \<and> rd_chunks w' = [] \<and> out2 w' = out2 w"
proof -
  define t where "t = unlines ls @ r"
  obtain z where z: "replicate (1024 - length t) NUL = NUL # z"
    using assms(3) by (cases "1024 - length t") (auto simp: t_def)
  have "drop (length t) (replicate 1024 NUL) = NUL # z" using z by simp
  then have buf: "t @ drop (length t) (replicate 1024 NUL) = unlines ls @ r @ NUL # z" by (simp add: t_def)
  obtain d' where d': "grep_lines pat (unlines ls @ r @ NUL # z) 0 []
      = Some (d' @ r @ NUL # z, length d', unlines (filter (grep_match pat) ls))"
    "length d' = length (unlines ls)"
    using grep_lines_ok [OF assms(2,1), of pat "[]" z "[]"] by auto
  have len: "length t \<le> 1024" using assms(3) by (simp add: t_def)
  have last: "0 \<le> m \<Longrightarrow> rd_chunks v = [] \<Longrightarrow> grep_loop pat b m v = Some (b, v)" for b m v
    by (subst grep_loop.simps) simp
  have "length d' \<le> length t" using d'(2) by (simp add: t_def)
  moreover have "0 < length t" using assms(4) by (simp only: t_def length_greater_0_conv not_False_eq_True)
  ultimately have "map_option snd (grep_loop pat (replicate 1024 NUL) 0 (w\<lparr>rd_chunks := [Some t]\<rparr>))
      = Some (put1 (unlines (filter (grep_match pat) ls)) (w\<lparr>rd_chunks := []\<rparr>))"
    using d'(1) by (subst grep_loop.simps) (simp add: len buf Let_def last put1_def del: drop_replicate)
  then have "grep pat (w\<lparr>rd_chunks := [Some (unlines ls @ r)]\<rparr>) = Some (put1 (unlines (filter (grep_match pat) ls)) (w\<lparr>rd_chunks := []\<rparr>))"
    unfolding grep_def t_def .
  then show ?thesis by (simp add: put1_def)
qed

theorem grep_prints_witness:
  "\<exists>w'. grep ''b*c'' \<lparr>rd_chunks = [Some (unlines [''abc'', ''xyz'', ''c''] @ ''cc'')], out1 = [], out2 = []\<rparr> = Some w'
    \<and> out1 w' = unlines [''abc'', ''c'']"
  using grep_prints [of "[''abc'', ''xyz'', ''c'']" "''cc''" "''b*c''" "\<lparr>rd_chunks = [], out1 = [], out2 = []\<rparr>"]
  by (simp add: plain_def grep_match_def matchstar.simps) blast

text \<open>
  For an input in several pieces this fails. After a piece without a newline the buffer is
  dropped, so the line \<open>abc\<close> is lost; and the buffer is not terminated after a \<open>read\<close>, so a
  shorter piece is continued with what is left from an earlier one.
\<close>

lemma zero_buffer: "replicate 1024 NUL = NUL # NUL # NUL # NUL # replicate 1020 NUL"
  using replicate_add [of 4 1020 NUL] by (simp add: numeral_eq_Suc [of num.One] eval_nat_numeral)

lemma grep_loses_line:
  "grep ''a'' \<lparr>rd_chunks = [Some ''ab'', Some [CHR ''c'', EOL]], out1 = [], out2 = []\<rparr>
     = Some \<lparr>rd_chunks = [], out1 = [], out2 = []\<rparr>"
  unfolding grep_def zero_buffer
  by (simp add: grep_loop.simps grep_lines.simps grep_match_def put1_def Let_def)

lemma grep_prints_stale:
  "grep ''b'' \<lparr>rd_chunks = [Some [CHR ''a'', CHR ''b'', EOL], Some ''x''], out1 = [], out2 = []\<rparr>
     = Some \<lparr>rd_chunks = [], out1 = [CHR ''a'', CHR ''b'', EOL, CHR ''x'', CHR ''b'', EOL], out2 = []\<rparr>"
  unfolding grep_def zero_buffer
  by (simp add: grep_loop.simps grep_lines.simps grep_match_def put1_def Let_def)

section \<open>What cat and wc print\<close>

text \<open>An input that is read to its end: no read fails, and only the end of the input reads as 0.\<close>

definition whole :: "string option list \<Rightarrow> bool" where
  "whole cs \<longleftrightarrow> list_all (\<lambda>c. c \<noteq> None \<and> c \<noteq> Some []) cs"

lemma read_whole:
  assumes "whole cs" "0 < n"
  shows "if cs = [] then read_chunk n cs = (0, [], [])
    else \<exists>t cs'. read_chunk n cs = (int (length t), t, cs') \<and> 0 < length t \<and> whole cs'
      \<and> stream cs = t @ stream cs' \<and> reads_left cs' < reads_left cs"
proof (cases cs)
  case (Cons c cs'')
  then obtain t where t: "c = Some t" "t \<noteq> []" "whole cs''" using assms(1) by (cases c) (auto simp: whole_def)
  then show ?thesis using Cons assms(2) by (auto simp: whole_def reads_left_def)
qed simp

lemma cat_copies:
  "whole (rd_chunks w) \<Longrightarrow> cat w = (True, w\<lparr>rd_chunks := [], out1 := out1 w @ stream (rd_chunks w)\<rparr>)"
proof (induction w rule: measure_induct_rule [of "\<lambda>w. reads_left (rd_chunks w)"])
  case (less w)
  show ?case
  proof (cases "rd_chunks w = []")
    case False
    then obtain t cs where t: "read_chunk 512 (rd_chunks w) = (int (length t), t, cs)" "0 < length t" "whole cs"
      "stream (rd_chunks w) = t @ stream cs" "reads_left cs < reads_left (rd_chunks w)"
      using read_whole [OF less.prems, of 512] by auto
    then show ?thesis using less.IH [of "put1 t (w\<lparr>rd_chunks := cs\<rparr>)"] by (subst cat.simps) (simp add: put1_def)
  qed (subst cat.simps, simp)
qed

function words :: "string \<Rightarrow> string list" where
  "words t =
     (let t' = dropWhile (\<lambda>x. x \<in> set wc_space) t
      in if t' = [] then []
         else takeWhile (\<lambda>x. x \<notin> set wc_space) t' # words (dropWhile (\<lambda>x. x \<notin> set wc_space) t'))"
  by pat_completeness auto
termination
proof (relation "measure length")
  fix t t' :: string
  assume t': "t' = dropWhile (\<lambda>x. x \<in> set wc_space) t" "t' \<noteq> []"
  then have "hd t' \<notin> set wc_space" by (metis hd_dropWhile)
  then have "length (dropWhile (\<lambda>x. x \<notin> set wc_space) t') < length t'"
    using t'(2) by (cases t') (simp_all add: length_dropWhile_le less_Suc_eq_le)
  also have "\<dots> \<le> length t" using t'(1) by (simp add: length_dropWhile_le)
  finally show "(dropWhile (\<lambda>x. x \<notin> set wc_space) t', t) \<in> measure length" by simp
qed simp

declare words.simps [simp del]

fun word_starts :: "bool \<Rightarrow> string \<Rightarrow> nat" where
  "word_starts b [] = 0"
| "word_starts b (x # t) =
     (if x \<in> set wc_space then word_starts False t else (if b then 0 else 1) + word_starts True t)"

lemma word_starts_spaces: "word_starts False (dropWhile (\<lambda>x. x \<in> set wc_space) t) = word_starts False t"
  by (induction t) simp_all

lemma word_starts_word: "word_starts False (dropWhile (\<lambda>x. x \<notin> set wc_space) t) = word_starts True t"
  by (induction t) simp_all

lemma length_words: "length (words t) = word_starts False t"
proof (induction t rule: words.induct)
  case (1 t)
  let ?t = "dropWhile (\<lambda>x. x \<in> set wc_space) t"
  show ?case
  proof (cases "?t = []")
    case True
    then show ?thesis using word_starts_spaces [of t] by (subst words.simps) (simp only: Let_def simp_thms if_True list.size word_starts.simps)
  next
    case False
    then obtain x u where x: "?t = x # u" "x \<notin> set wc_space" by (metis hd_dropWhile list.collapse)
    have "length (words t) = Suc (word_starts False (dropWhile (\<lambda>x. x \<notin> set wc_space) ?t))"
      using 1 [OF refl False] False by (subst words.simps) (simp only: Let_def if_False list.size add_Suc_right add_0_right)
    also have "\<dots> = word_starts False ?t" using x by (simp only: word_starts_word word_starts.simps if_False if_True)
    finally show ?thesis by (simp only: word_starts_spaces)
  qed
qed

lemma wc_chars:
  "fold wc_char t k = \<lparr>wc_l = wc_l k + of_nat (count_list t EOL), wc_w = wc_w k + of_nat (word_starts (inword k) t),
     wc_c = wc_c k + of_nat (length t), inword = inword (fold wc_char t k)\<rparr>"
proof (induction t arbitrary: k)
  case (Cons x t)
  show ?case
    by (subst fold_Cons, subst comp_apply, subst Cons.IH)
       (auto simp: wc_char_def Let_def strchr_None simp del: strchr.simps)
qed simp

lemma wc_loop_counts:
  "whole cs \<Longrightarrow> wc_loop k cs = (0, fold wc_char (stream cs) k, [])"
proof (induction cs arbitrary: k rule: measure_induct_rule [of reads_left])
  case (less cs)
  show ?case
  proof (cases "cs = []")
    case False
    then obtain t cs' where t: "read_chunk 512 cs = (int (length t), t, cs')" "0 < length t" "whole cs'"
      "stream cs = t @ stream cs'" "reads_left cs' < reads_left cs"
      using read_whole [OF less.prems, of 512] by auto
    then show ?thesis using less.IH [of cs'] by (subst wc_loop.simps) simp
  qed (subst wc_loop.simps, simp)
qed

text \<open>
  \<open>wc\<close> prints the numbers of newlines, of words and of characters of its input (modulo
  \<open>2^32\<close>), in whatever pieces the input arrives and wherever they split a word.
\<close>

theorem wc_counts:
  assumes "whole (rd_chunks w)"
  shows "wc name w = (True, w\<lparr>rd_chunks := [], out1 := out1 w @ uprintf ''%d %d %d %s\<newline>''
    [VInt (of_nat (count_list (stream (rd_chunks w)) EOL)), VInt (of_nat (length (words (stream (rd_chunks w))))),
     VInt (of_nat (length (stream (rd_chunks w)))), VStr (Some name)]\<rparr>)"
  by (simp add: wc_def wc_loop_counts [OF assms] length_words put1_def, subst (1 2 3) wc_chars, simp)

theorem wc_counts_witness:
  "fst (wc ''x'' \<lparr>rd_chunks = [Some ''one t'', Some ''wo''], out1 = [], out2 = []\<rparr>)
   \<and> length (words ''one two'') = 2"
  using wc_counts [of "\<lparr>rd_chunks = [Some ''one t'', Some ''wo''], out1 = [], out2 = []\<rparr>" "''x''"]
  by (simp add: whole_def length_words)

end
