(* ===== verification/Umalloc.thy ===== *)
theory Umalloc
  imports Xv6_Prelude
begin

text \<open>
  The memory allocator of user programs, \<open>user/umalloc.c\<close>: a ring of free blocks in order of
  address, each with a header of its link and its size in units of a header, over the bytes of
  the process. The static \<open>base\<close> is an argument, its address; \<open>sbrk\<close>, the system call that gives
  more memory, is an argument as well. The loops over the ring are partial functions: \<open>None\<close> is a
  loop that does not end.
\<close>

record uheap =
  umem :: bytes
  freep :: uint
  brk :: uint

section \<open>Headers\<close>

definition h_ptr :: "bytes \<Rightarrow> uint \<Rightarrow> uint" where
  "h_ptr m p = rd32 m (unat p)"

definition h_size :: "bytes \<Rightarrow> uint \<Rightarrow> uint" where
  "h_size m p = rd32 m (unat p + 4)"

definition set_ptr :: "uint \<Rightarrow> uint \<Rightarrow> bytes \<Rightarrow> bytes" where
  "set_ptr p v m = wr32 m (unat p) v"

definition set_size :: "uint \<Rightarrow> uint \<Rightarrow> bytes \<Rightarrow> bytes" where
  "set_size p v m = wr32 m (unat p + 4) v"

text \<open>Pointer arithmetic on headers: \<open>p + n\<close>.\<close>

definition h_add :: "uint \<Rightarrow> uint \<Rightarrow> uint" where
  "h_add p n = p + 8 * n"

section \<open>free, morecore and malloc\<close>

partial_function (option) free_loop :: "bytes \<Rightarrow> uint \<Rightarrow> uint \<Rightarrow> uint option" where
  "free_loop m bp p =
     (if bp > p \<and> bp < h_ptr m p then Some p
      else if p \<ge> h_ptr m p \<and> (bp > p \<or> bp < h_ptr m p) then Some p
      else free_loop m bp (h_ptr m p))"

text \<open>\<open>bp\<close> joined to the block after it, and \<open>p\<close> to \<open>bp\<close>, when they touch; otherwise linked.\<close>

definition join_next :: "uint \<Rightarrow> uint \<Rightarrow> bytes \<Rightarrow> bytes" where
  "join_next bp p m =
     (if h_add bp (h_size m bp) = h_ptr m p then
        let m = set_size bp (h_size m bp + h_size m (h_ptr m p)) m
        in set_ptr bp (h_ptr m (h_ptr m p)) m
      else set_ptr bp (h_ptr m p) m)"

definition join_prev :: "uint \<Rightarrow> uint \<Rightarrow> bytes \<Rightarrow> bytes" where
  "join_prev bp p m =
     (if h_add p (h_size m p) = bp then
        let m = set_size p (h_size m p + h_size m bp) m
        in set_ptr p (h_ptr m bp) m
      else set_ptr p bp m)"

definition free :: "uint \<Rightarrow> uheap \<Rightarrow> uheap option" where
  "free ap h =
     (let bp = ap - 8
      in case free_loop (umem h) bp (freep h) of
           None \<Rightarrow> None
         | Some p \<Rightarrow> Some (h\<lparr>umem := join_prev bp p (join_next bp p (umem h)), freep := p\<rparr>))"

type_synonym sbrk_call = "uint \<Rightarrow> uheap \<Rightarrow> uint \<times> uheap"

definition morecore :: "sbrk_call \<Rightarrow> uint \<Rightarrow> uheap \<Rightarrow> (uint \<times> uheap) option" where
  "morecore sbrk nu h =
     (let nu = (if nu < 4096 then 4096 else nu);
          (p, h) = sbrk (nu * 8) h
      in if p = - 1 then Some (0, h)
         else
           case free (p + 8) (h\<lparr>umem := set_size p nu (umem h)\<rparr>) of
             None \<Rightarrow> None
           | Some h \<Rightarrow> Some (freep h, h))"

text \<open>A block of \<open>nunits\<close> taken from the free block \<open>p\<close>: all of it, or its tail.\<close>

definition take_block :: "uint \<Rightarrow> uint \<Rightarrow> uint \<Rightarrow> uheap \<Rightarrow> uint \<times> uheap" where
  "take_block nunits prevp p h =
     (let m = umem h;
          (p, m) =
            (if h_size m p = nunits then (p, set_ptr prevp (h_ptr m p) m)
             else
               let m = set_size p (h_size m p - nunits) m;
                   p = h_add p (h_size m p)
               in (p, set_size p nunits m))
      in (p + 8, h\<lparr>umem := m, freep := prevp\<rparr>))"

partial_function (option) malloc_loop :: "sbrk_call \<Rightarrow> uint \<Rightarrow> uint \<Rightarrow> uint \<Rightarrow> uheap \<Rightarrow> (uint \<times> uheap) option" where
  "malloc_loop sbrk nunits prevp p h =
     (if h_size (umem h) p \<ge> nunits then Some (take_block nunits prevp p h)
      else if p = freep h then
        (case morecore sbrk nunits h of
           None \<Rightarrow> None
         | Some (p, h) \<Rightarrow>
             if p = 0 then Some (0, h) else malloc_loop sbrk nunits p (h_ptr (umem h) p) h)
      else malloc_loop sbrk nunits p (h_ptr (umem h) p) h)"

definition units_of :: "uint \<Rightarrow> uint" where
  "units_of nbytes = (nbytes + 8 - 1) div 8 + 1"

definition malloc :: "sbrk_call \<Rightarrow> uint \<Rightarrow> uint \<Rightarrow> uheap \<Rightarrow> (uint \<times> uheap) option" where
  "malloc sbrk base nbytes h =
     (let h = (if freep h = 0
               then h\<lparr>umem := set_size base 0 (set_ptr base base (umem h)), freep := base\<rparr> else h);
          prevp = freep h
      in malloc_loop sbrk (units_of nbytes) prevp (h_ptr (umem h) prevp) h)"

section \<open>Headers apart\<close>

text \<open>Two headers that do not overlap.\<close>

definition apart :: "uint \<Rightarrow> uint \<Rightarrow> bool" where
  "apart p q \<longleftrightarrow> unat p + 8 \<le> unat q \<or> unat q + 8 \<le> unat p"

lemma h_ptr_same [simp]:
  "h_ptr (set_ptr p v m) p = v" "h_ptr (set_size p v m) p = h_ptr m p"
  "h_size (set_size p v m) p = v" "h_size (set_ptr p v m) p = h_size m p"
  by (simp_all add: h_ptr_def h_size_def set_ptr_def set_size_def rd32_wr32_other)

lemma h_apart:
  "apart p q \<Longrightarrow> h_ptr (set_ptr p v m) q = h_ptr m q" "apart p q \<Longrightarrow> h_ptr (set_size p v m) q = h_ptr m q"
  "apart p q \<Longrightarrow> h_size (set_size p v m) q = h_size m q" "apart p q \<Longrightarrow> h_size (set_ptr p v m) q = h_size m q"
  by (auto simp: apart_def h_ptr_def h_size_def set_ptr_def set_size_def rd32_wr32_other)

lemma apart_sym: "apart p q \<Longrightarrow> apart q p"
  by (auto simp: apart_def)

text \<open>What a header write leaves alone.\<close>

lemma set_other:
  "i < unat p \<or> unat p + 8 \<le> i \<Longrightarrow> set_ptr p v m i = m i" "i < unat p \<or> unat p + 8 \<le> i \<Longrightarrow> set_size p v m i = m i"
  by (auto simp: set_ptr_def set_size_def wr32_other)

section \<open>The ring of free blocks\<close>

text \<open>
  A block is its address and its size in units. \<open>blocks l h F\<close>: the blocks of \<open>F\<close> lie one after
  the other between the addresses \<open>l\<close> and \<open>h\<close>. \<open>chain m p F q\<close>: from the header \<open>p\<close> the links of
  memory \<open>m\<close> lead through the blocks of \<open>F\<close>, whose headers hold their sizes, to \<open>q\<close>.
\<close>

type_synonym block = "uint \<times> uint"

fun blocks :: "nat \<Rightarrow> nat \<Rightarrow> block list \<Rightarrow> bool" where
  "blocks l h [] \<longleftrightarrow> l \<le> h"
| "blocks l h ((a, n) # F) \<longleftrightarrow> l \<le> unat a \<and> n \<noteq> 0 \<and> blocks (unat a + 8 * unat n) h F"

fun chain :: "bytes \<Rightarrow> uint \<Rightarrow> block list \<Rightarrow> uint \<Rightarrow> bool" where
  "chain m p [] q \<longleftrightarrow> h_ptr m p = q"
| "chain m p ((a, n) # F) q \<longleftrightarrow> h_ptr m p = a \<and> h_size m a = n \<and> chain m a F q"

definition extent :: "block \<Rightarrow> nat set" where
  "extent b = {unat (fst b)..<unat (fst b) + 8 * unat (snd b)}"

definition cells :: "block set \<Rightarrow> nat set" where
  "cells B = (\<Union>b\<in>B. extent b)"

lemma cells_simps [simp]: "cells {} = {}" "cells (insert b B) = extent b \<union> cells B" "cells (B \<union> C) = cells B \<union> cells C"
  by (auto simp: cells_def)

lemma blocks_le: "blocks l h F \<Longrightarrow> l \<le> h"
  by (induction F arbitrary: l) fastforce+

lemma blocks_append: "blocks l h (F @ G) \<longleftrightarrow> (\<exists>x. blocks l x F \<and> blocks x h G)"
proof (induction F arbitrary: l)
  case Nil
  have "blocks l h G" if "l \<le> x" "blocks x h G" for x
    using that by (cases G) auto
  then show ?case by auto
qed auto

lemma blocks_mono: "blocks l h F \<Longrightarrow> l' \<le> l \<Longrightarrow> h \<le> h' \<Longrightarrow> blocks l' h' F"
  by (induction F arbitrary: l l') fastforce+

lemma blocks_cells: "blocks l h F \<Longrightarrow> cells (set F) \<subseteq> {l..<h}"
proof (induction F arbitrary: l)
  case (Cons b F)
  obtain a n where b: "b = (a, n)" by (cases b)
  have "unat a + 8 * unat n \<le> h" using Cons.prems blocks_le by (auto simp: b)
  then show ?case using Cons.IH [of "unat a + 8 * unat n"] Cons.prems by (fastforce simp: b extent_def)
qed simp

lemma blocks_mem: "blocks l h F \<Longrightarrow> (a, n) \<in> set F \<Longrightarrow> l \<le> unat a \<and> unat a + 8 * unat n \<le> h \<and> n \<noteq> 0"
proof (induction F arbitrary: l)
  case (Cons b F)
  then show ?case using blocks_le by (cases b) fastforce
qed simp

text \<open>A block outside the cells of \<open>F\<close> has its place between the blocks of \<open>F\<close>.\<close>

lemma blocks_split:
  assumes "blocks l h F" "l \<le> unat a" "unat a + 8 * unat n \<le> h" "n \<noteq> 0" "extent (a, n) \<inter> cells (set F) = {}"
  shows "\<exists>F1 F2. F = F1 @ F2 \<and> blocks l (unat a) F1 \<and> blocks (unat a + 8 * unat n) h F2"
  using assms
proof (induction F arbitrary: l)
  case (Cons b F)
  obtain c k where b: "b = (c, k)" by (cases b)
  have n: "0 < unat n" "0 < unat k" using Cons.prems(1,4) by (simp_all add: b unat_gt_0)
  have "extent (a, n) \<inter> extent (c, k) = {}" using Cons.prems(5) unfolding b by auto
  then have d: "{unat a..<unat a + 8 * unat n} \<inter> {unat c..<unat c + 8 * unat k} = {}" by (simp add: extent_def)
  show ?case
  proof (cases "unat c < unat a")
    case True
    have "unat c + 8 * unat k \<le> unat a"
    proof (rule ccontr)
      assume "\<not> ?thesis"
      then have "unat a \<in> {unat a..<unat a + 8 * unat n} \<inter> {unat c..<unat c + 8 * unat k}" using True n by auto
      then show False using d by blast
    qed
    then obtain F1 F2 where "F = F1 @ F2" "blocks (unat c + 8 * unat k) (unat a) F1" "blocks (unat a + 8 * unat n) h F2"
      using Cons.IH [of "unat c + 8 * unat k"] Cons.prems by (auto simp: b)
    then have "b # F = (b # F1) @ F2 \<and> blocks l (unat a) (b # F1) \<and> blocks (unat a + 8 * unat n) h F2"
      using Cons.prems by (simp add: b)
    then show ?thesis by blast
  next
    case False
    have "unat a + 8 * unat n \<le> unat c"
    proof (rule ccontr)
      assume "\<not> ?thesis"
      then have "unat c \<in> {unat a..<unat a + 8 * unat n} \<inter> {unat c..<unat c + 8 * unat k}" using False n by auto
      then show False using d by blast
    qed
    then have "b # F = [] @ (b # F) \<and> blocks l (unat a) [] \<and> blocks (unat a + 8 * unat n) h (b # F)"
      using Cons.prems by (simp add: b)
    then show ?thesis by blast
  qed
qed (rule exI [of _ "[]"], rule exI [of _ "[]"], simp)

definition nodes :: "uint \<Rightarrow> block list \<Rightarrow> uint list" where
  "nodes base F = base # map fst F"

definition ring :: "bytes \<Rightarrow> uint list \<Rightarrow> bool" where
  "ring m R \<longleftrightarrow> (\<forall>i<length R. h_ptr m (R ! i) = R ! (Suc i mod length R))"

lemma nodes_length [simp]: "length (nodes base F) = Suc (length F)"
  by (simp add: nodes_def)

lemma set_nodes: "set (nodes p F) = insert p (fst ` set F)"
  by (simp add: nodes_def)

lemma chain_links:
  "chain m p F q \<Longrightarrow> i \<le> length F \<Longrightarrow> h_ptr m (nodes p F ! i) = (if i = length F then q else nodes p F ! Suc i)"
proof (induction F arbitrary: p i)
  case (Cons b F)
  obtain a n where b: "b = (a, n)" by (cases b)
  have t: "nodes p ((a, n) # F) ! Suc j = nodes a F ! j" for j by (simp add: nodes_def)
  show ?case
  proof (cases i)
    case 0
    then show ?thesis using Cons.prems by (simp add: nodes_def b)
  next
    case (Suc j)
    then show ?thesis using Cons.IH [of a j] Cons.prems by (simp add: t b)
  qed
qed (simp add: nodes_def)

lemma chain_ring: "chain m base F base \<Longrightarrow> ring m (nodes base F)"
  unfolding ring_def using chain_links [of m base F base] by (auto simp: nodes_def less_Suc_eq_le)

lemma chain_size: "chain m p F q \<Longrightarrow> (a, n) \<in> set F \<Longrightarrow> h_size m a = n"
proof (induction F arbitrary: p)
  case (Cons b F)
  then show ?case by (cases b) auto
qed simp

lemma chain_append: "chain m p (F @ (a, n) # G) q \<longleftrightarrow> chain m p F a \<and> h_size m a = n \<and> chain m a G q"
  by (induction F arbitrary: p) auto

lemma chain_last: "chain m p F q \<Longrightarrow> h_ptr m (last (nodes p F)) = q"
proof (induction F arbitrary: p)
  case (Cons b F)
  then show ?case by (cases b) (auto simp: nodes_def split: if_splits)
qed (simp add: nodes_def)

text \<open>A chain depends on the headers of its nodes only; its last link can be changed.\<close>

lemma chain_headers_cong:
  assumes "\<And>x. x \<in> set (nodes p F) \<Longrightarrow> h_ptr m' x = h_ptr m x" "\<And>x. x \<in> fst ` set F \<Longrightarrow> h_size m' x = h_size m x"
  shows "chain m' p F q = chain m p F q"
  using assms
proof (induction F arbitrary: p)
  case (Cons b F)
  then show ?case by (cases b) (fastforce simp: nodes_def)
qed (simp add: nodes_def)

lemma chain_relink:
  assumes "chain m p F q" "\<And>x. x \<in> set (nodes p F) \<Longrightarrow> x \<noteq> last (nodes p F) \<Longrightarrow> h_ptr m' x = h_ptr m x"
    "\<And>x. x \<in> fst ` set F \<Longrightarrow> h_size m' x = h_size m x" "h_ptr m' (last (nodes p F)) = q'" "distinct (nodes p F)"
  shows "chain m' p F q'"
  using assms
proof (induction F arbitrary: p)
  case (Cons b F)
  obtain a n where b: "b = (a, n)" by (cases b)
  have l: "last (nodes p (b # F)) = last (nodes a F)" "set (nodes a F) \<subseteq> set (nodes p (b # F))"
    "distinct (nodes a F)" "p \<notin> set (nodes a F)"
    using Cons.prems(5) by (auto simp: nodes_def b)
  have "last (nodes a F) \<in> set (nodes a F)" unfolding nodes_def by (rule last_in_set) simp
  then have "h_ptr m' p = h_ptr m p" using Cons.prems(2) [of p] l by (auto simp: nodes_def)
  moreover have "chain m' a F q'"
  proof (rule Cons.IH)
    show "chain m a F q" "distinct (nodes a F)" using Cons.prems(1) l by (auto simp: b)
  qed (use Cons.prems(2-4) l in \<open>auto simp: b\<close>)
  ultimately show ?case using Cons.prems by (simp add: b)
qed (simp add: nodes_def)

lemma blocks_sorted:
  assumes "blocks l h F" "unat p + 8 \<le> l"
  shows "sorted_wrt (\<lambda>x y. unat x + 8 \<le> unat y) (nodes p F)"
  using assms
proof (induction F arbitrary: p l)
  case (Cons b F)
  obtain a n where b: "b = (a, n)" by (cases b)
  have "0 < unat n" using Cons.prems by (simp add: b unat_gt_0)
  then have s: "sorted_wrt (\<lambda>x y. unat x + 8 \<le> unat y) (nodes a F)"
    using Cons.IH [of "unat a + 8 * unat n" a] Cons.prems by (simp add: b)
  then show ?case using Cons.prems by (fastforce simp: nodes_def b)
qed (simp add: nodes_def)

lemma nodes_apart:
  assumes "sorted_wrt (\<lambda>x y. unat x + 8 \<le> unat y) (R :: uint list)"
  shows "distinct R" "x \<in> set R \<Longrightarrow> y \<in> set R \<Longrightarrow> x \<noteq> y \<Longrightarrow> apart x y"
  using assms by (induction R) (auto simp: apart_def)

section \<open>The loop of free\<close>

lemma free_loop_here:
  fixes R :: "uint list" and n i :: nat
  assumes "ring m R" "n = length R" "i < n" "R ! 0 < bp" "R ! i < bp" "R ! 0 \<le> R ! i" "Suc i < n \<Longrightarrow> bp < R ! Suc i"
  shows "free_loop m bp (R ! i) = Some (R ! i)"
proof -
  have nx: "h_ptr m (R ! i) = R ! (Suc i mod n)" using assms(1-3) by (simp add: ring_def)
  show ?thesis using assms(3-7) nx by (cases "Suc i = n") (simp_all add: free_loop.simps)
qed

lemma free_loop_on:
  fixes R :: "uint list" and n i k :: nat
  assumes "ring m R" "n = length R" "k < n" "sorted_wrt (<) R"
    "k < i \<Longrightarrow> R ! Suc k < bp" "i < k \<Longrightarrow> bp < R ! k" "R ! 0 < bp" "i < n" "k \<noteq> i"
  shows "free_loop m bp (R ! k) = free_loop m bp (R ! (Suc k mod n))"
proof -
  have nx: "h_ptr m (R ! k) = R ! (Suc k mod n)" using assms(1-3) by (simp add: ring_def)
  show ?thesis
  proof (cases "Suc k = n")
    case True
    then have "bp < R ! k" "Suc k mod n = 0" using assms by auto
    then show ?thesis using nx assms(7) by (subst free_loop.simps) auto
  next
    case False
    then have "R ! k < R ! Suc k" using assms(2-4) by (simp add: sorted_wrt_iff_nth_less)
    moreover have "Suc k mod n = Suc k" using False assms(3) by simp
    moreover have "\<not> (bp > R ! k \<and> bp < R ! Suc k)" using assms(5,6,9) by (cases "k < i") auto
    ultimately show ?thesis using nx by (subst free_loop.simps) auto
  qed
qed

text \<open>From any node the loop comes round to the node before the place of \<open>bp\<close>.\<close>

lemma free_loop_finds:
  fixes R :: "uint list" and n i k :: nat
  assumes r: "ring m R" "n = length R" "sorted_wrt (<) R" and i: "i < n" "\<And>j. j \<le> i \<Longrightarrow> R ! j < bp"
    "\<And>j. i < j \<Longrightarrow> j < n \<Longrightarrow> bp < R ! j"
  shows "k < n \<Longrightarrow> (k + d) mod n = i \<Longrightarrow> free_loop m bp (R ! k) = Some (R ! i)"
proof (induction d arbitrary: k)
  case 0
  have "R ! 0 \<le> R ! i" using r i(1) by (cases "i = 0") (auto simp: sorted_wrt_iff_nth_less less_imp_le)
  then show ?case using free_loop_here [OF r(1,2) i(1)] i 0 by simp
next
  case (Suc d)
  show ?case
  proof (cases "k = i")
    case True
    have "R ! 0 \<le> R ! i" using r i(1) by (cases "i = 0") (auto simp: sorted_wrt_iff_nth_less less_imp_le)
    then show ?thesis using free_loop_here [OF r(1,2) i(1)] i True by simp
  next
    case False
    have "free_loop m bp (R ! k) = free_loop m bp (R ! (Suc k mod n))"
      using free_loop_on [OF r(1,2) Suc.prems(1) r(3), of i bp] i Suc.prems(1) False by simp
    also have "\<dots> = Some (R ! i)"
      using Suc.prems by (intro Suc.IH) (auto simp: mod_add_left_eq)
    finally show ?thesis .
  qed
qed

section \<open>Joining blocks\<close>

lemma chain_move:
  assumes "h_ptr m' p' = h_ptr m p" "\<And>x. x \<in> fst ` set F \<Longrightarrow> h_ptr m' x = h_ptr m x \<and> h_size m' x = h_size m x"
  shows "chain m' p' F q = chain m p F q"
proof (cases F)
  case (Cons b G)
  have "chain m' (fst b) G q = chain m (fst b) G q"
    by (rule chain_headers_cong) (use assms(2) Cons in \<open>auto simp: nodes_def\<close>)
  then show ?thesis using assms Cons by (cases b) auto
qed (simp add: assms)

lemma chain_split:
  assumes "chain m p (F @ G) q"
  shows "chain m p F (case G of [] \<Rightarrow> q | b # _ \<Rightarrow> fst b)"
  using assms chain_append [of m p F] by (cases G) auto

lemma nodes_append: "set (nodes base (F @ (a, n) # G)) = set (nodes base F) \<union> {a} \<union> fst ` set G"
  by (auto simp: nodes_def)

text \<open>The place of a block between the free blocks.\<close>

definition placed :: "uint \<Rightarrow> nat \<Rightarrow> block list \<Rightarrow> block \<Rightarrow> block list \<Rightarrow> bool" where
  "placed base b F1 bl F2 \<longleftrightarrow> blocks (unat base + 8) b (F1 @ bl # F2) \<and> b < 4294967296"

lemma placed_apart:
  assumes "placed base b F1 (a, n) F2"
  shows "distinct (nodes base (F1 @ (a, n) # F2))"
    "x \<in> set (nodes base F1) \<union> {a} \<union> fst ` set F2 \<Longrightarrow> y \<in> set (nodes base F1) \<union> {a} \<union> fst ` set F2 \<Longrightarrow> x \<noteq> y \<Longrightarrow> apart x y"
proof -
  have s: "sorted_wrt (\<lambda>x y. unat x + 8 \<le> unat y) (nodes base (F1 @ (a, n) # F2))"
    using blocks_sorted [of "unat base + 8" b "F1 @ (a, n) # F2" base] assms by (simp add: placed_def)
  show "distinct (nodes base (F1 @ (a, n) # F2))"
    "x \<in> set (nodes base F1) \<union> {a} \<union> fst ` set F2 \<Longrightarrow> y \<in> set (nodes base F1) \<union> {a} \<union> fst ` set F2 \<Longrightarrow> x \<noteq> y \<Longrightarrow> apart x y"
    using nodes_apart(1) [OF s] nodes_apart(2) [OF s, of x y] unfolding nodes_append [of base F1 a n F2] by blast+
qed

lemma placed_not_in:
  assumes "placed base b F1 (a, n) F2"
  shows "a \<notin> set (nodes base F1)" "a \<notin> fst ` set F2" "set (nodes base F1) \<inter> fst ` set F2 = {}" "distinct (nodes base F1)"
  using placed_apart(1) [OF assms] by (auto simp: nodes_def)

lemma h_add_unat: "unat a + 8 * unat n < 4294967296 \<Longrightarrow> unat (h_add a n) = unat a + 8 * unat n"
  by (simp add: h_add_def unat_word_ariths)

lemma unat_plus_small: "8 * (unat n + unat k) < 4294967296 \<Longrightarrow> unat (n + k :: uint) = unat n + unat k"
  by (simp add: unat_word_ariths)

lemma placed_bounds:
  assumes "placed base b F1 (a, n) F2"
  shows "unat base + 8 \<le> unat a" "unat a + 8 * unat n \<le> b" "n \<noteq> 0" "unat (h_add a n) = unat a + 8 * unat n"
proof -
  show "unat base + 8 \<le> unat a" "unat a + 8 * unat n \<le> b" "n \<noteq> 0"
    using blocks_mem [of "unat base + 8" b "F1 @ (a, n) # F2" a n] assms by (auto simp: placed_def)
  then show "unat (h_add a n) = unat a + 8 * unat n" using assms by (intro h_add_unat) (simp add: placed_def)
qed

lemma extent_join:
  assumes "unat c = unat a + 8 * unat n" "unat (n + k) = unat n + unat k"
  shows "extent (a, n + k) = extent (a, n) \<union> extent (c, k)"
  using assms by (auto simp: extent_def)

lemma join_next_ok:
  assumes pl: "placed base b F1 (a, n) F2" and ch: "chain m base (F1 @ F2) base" and sz: "h_size m a = n" "h_size m base = 0"
  shows "\<exists>n' F2' q. h_size (join_next a (last (nodes base F1)) m) a = n' \<and> placed base b F1 (a, n') F2'
    \<and> chain (join_next a (last (nodes base F1)) m) base F1 q \<and> chain (join_next a (last (nodes base F1)) m) a F2' base
    \<and> h_size (join_next a (last (nodes base F1)) m) base = 0 \<and> unat n \<le> unat n'
    \<and> cells (set F1) \<union> extent (a, n') \<union> cells (set F2') = cells (set F1) \<union> extent (a, n) \<union> cells (set F2)"
proof -
  let ?p = "last (nodes base F1)" and ?q = "case F2 of [] \<Rightarrow> base | b # _ \<Rightarrow> fst b"
  let ?m = "join_next a ?p m"
  note ap = placed_apart(2) [OF pl] and nin = placed_not_in [OF pl] and bd = placed_bounds [OF pl]
  have c1: "chain m base F1 ?q" using chain_split [OF ch] .
  have nx: "h_ptr m ?p = ?q" using chain_last [OF c1] .
  have keep: "h_ptr (set_ptr a v m) x = h_ptr m x" "h_size (set_ptr a v m) x = h_size m x"
    "h_ptr (set_ptr a v (set_size a w m)) x = h_ptr m x" "h_size (set_ptr a v (set_size a w m)) x = h_size m x"
    if "x \<in> set (nodes base F1) \<or> x \<in> fst ` set F2" for v w x
  proof -
    have "apart a x" using ap [of a x] that nin by auto
    then show "h_ptr (set_ptr a v m) x = h_ptr m x" "h_size (set_ptr a v m) x = h_size m x"
      "h_ptr (set_ptr a v (set_size a w m)) x = h_ptr m x" "h_size (set_ptr a v (set_size a w m)) x = h_size m x"
      by (simp_all add: h_apart)
  qed
  have inb: "base \<in> set (nodes base F1)" "fst ` set F1 \<subseteq> set (nodes base F1)" by (auto simp: nodes_def)
  show ?thesis
  proof (cases "h_add a n = ?q")
    case False
    then have e: "?m = set_ptr a ?q m" by (simp add: join_next_def sz nx)
    have "chain ?m base F1 ?q" using c1 chain_headers_cong [of base F1 ?m m ?q] keep(1,2) inb unfolding e by blast
    moreover have "chain ?m a F2 base"
    proof (cases F2)
      case (Cons c G)
      then have "chain m (fst c) G base" "h_size m (fst c) = snd c" using ch chain_append [of m base F1 "fst c" "snd c" G base] by auto
      moreover have "chain ?m (fst c) G base = chain m (fst c) G base"
        using keep(1,2) Cons unfolding e by (intro chain_headers_cong) (auto simp: nodes_def)
      moreover have "h_size ?m (fst c) = h_size m (fst c)" using keep(2) Cons unfolding e by auto
      ultimately show ?thesis using Cons by (cases c) (simp add: e)
    qed (simp add: e)
    ultimately show ?thesis using pl sz keep(2) inb by (intro exI [of _ n] exI [of _ F2] exI [of _ ?q]) (simp add: e)
  next
    case True
    have "?q \<noteq> base" using bd True by auto
    then obtain c k G where F2: "F2 = (c, k) # G" by (cases F2) auto
    then have c: "chain m c G base" "h_size m c = k" "h_add a n = c" "unat c = unat a + 8 * unat n"
      using ch chain_append [of m base F1 c k G base] True bd by auto
    have inc: "c \<in> fst ` set F2" by (simp add: F2)
    have "unat c + 8 * unat k \<le> b" using pl blocks_mem [of _ b "F1 @ (a, n) # F2" c k] by (auto simp: placed_def F2)
    then have nk: "unat (n + k) = unat n + unat k" using c pl by (intro unat_plus_small) (auto simp: placed_def)
    have e: "?m = set_ptr a (h_ptr m c) (set_size a (n + k) m)"
    proof -
      have "h_ptr (set_size a (n + k) m) x = h_ptr m x" if "x \<in> set (nodes base F1) \<or> x \<in> fst ` set F2" for x
        using ap [of a x] that nin by (auto intro!: h_apart(2))
      moreover have "?p \<in> set (nodes base F1)" by (rule last_in_set) (simp add: nodes_def)
      ultimately show ?thesis using c nx inc by (simp add: join_next_def sz Let_def F2)
    qed
    have "chain m base F1 c" using c1 by (simp add: F2)
    then have "chain ?m base F1 c" using chain_headers_cong [of base F1 ?m m c] keep(3,4) inb unfolding e by blast
    moreover have "chain ?m a G base = chain m c G base"
      using keep(3,4) F2 unfolding e by (intro chain_move) auto
    moreover have "placed base b F1 (a, n + k) G"
      using pl bd(3) c nk by (auto simp: placed_def F2 blocks_append word_unat_eq_iff add.assoc)
    ultimately show ?thesis using c(1) nk keep(4) inb sz extent_join [OF c(4) nk]
      by (intro exI [of _ "n + k"] exI [of _ G] exI [of _ c]) (auto simp: e F2)
  qed
qed

lemma join_prev_ok:
  assumes pl: "placed base b F1 (a, n) F2" and ch: "chain m base F1 q" "chain m a F2 base" and sz: "h_size m a = n" "h_size m base = 0"
  shows "\<exists>F. chain (join_prev a (last (nodes base F1)) m) base F base \<and> blocks (unat base + 8) b F
    \<and> h_size (join_prev a (last (nodes base F1)) m) base = 0 \<and> last (nodes base F1) \<in> set (nodes base F)
    \<and> (\<exists>bl\<in>set F. unat n \<le> unat (snd bl)) \<and> cells (set F) = cells (set F1) \<union> extent (a, n) \<union> cells (set F2)"
proof -
  let ?p = "last (nodes base F1)"
  let ?m = "join_prev a ?p m"
  note ap = placed_apart(2) [OF pl] and nin = placed_not_in [OF pl] and bd = placed_bounds [OF pl]
  have pin: "?p \<in> set (nodes base F1)" by (rule last_in_set) (simp add: nodes_def)
  then have pa: "?p \<noteq> a" "apart ?p a" using nin ap [of ?p a] by auto
  have far: "apart ?p x" if "x \<in> set (nodes base F1) \<and> x \<noteq> ?p \<or> x = a \<or> x \<in> fst ` set F2" for x
    using ap [of ?p x] that pin nin by auto
  show ?thesis
  proof (cases "h_add ?p (h_size m ?p) = a")
    case False
    then have e: "?m = set_ptr ?p a m" by (simp add: join_prev_def)
    have s: "h_size ?m x = h_size m x" if "x = ?p \<or> apart ?p x" for x using that by (auto simp: e h_apart)
    have "chain ?m base F1 a"
    proof (rule chain_relink [OF ch(1)])
      show "h_size ?m x = h_size m x" if "x \<in> fst ` set F1" for x
      proof -
        have "x \<in> set (nodes base F1)" using that by (simp add: nodes_def)
        then show ?thesis using s [of x] far [of x] by blast
      qed
    qed (use far nin in \<open>auto simp: e h_apart\<close>)
    moreover have "chain ?m a F2 base = chain m a F2 base"
      unfolding e by (intro chain_headers_cong) (auto simp: h_apart far set_nodes)
    moreover have "h_size ?m a = n" "h_size ?m base = 0"
      using s [of a] s [of base] far [of a] far [of base] sz by (auto simp: set_nodes)
    ultimately have "chain ?m base (F1 @ (a, n) # F2) base" "h_size ?m base = 0" using ch by (simp_all add: chain_append)
    then show ?thesis using pl pin by (intro exI [of _ "F1 @ (a, n) # F2"]) (auto simp: placed_def nodes_append)
  next
    case True
    have "F1 \<noteq> []"
    proof
      assume "F1 = []"
      then have "h_add base 0 = a" using True sz by (simp add: nodes_def)
      then show False using bd(1) by (simp add: h_add_def)
    qed
    then obtain G d j where F1: "F1 = G @ [(d, j)]" by (metis rev_exhaust surj_pair)
    then have p: "?p = d" by (simp add: nodes_def)
    have c: "chain m base G d" "h_size m d = j" using ch(1) chain_append [of m base G d j "[]" q] by (simp_all add: F1)
    have j: "unat d + 8 * unat j \<le> unat a" "j \<noteq> 0"
    proof -
      obtain x where "blocks (unat base + 8) x F1" "blocks x b ((a, n) # F2)" using pl by (auto simp: placed_def blocks_append)
      then have "blocks (unat base + 8) (unat a) F1" using blocks_mono [of "unat base + 8" x F1] by simp
      then show "unat d + 8 * unat j \<le> unat a" "j \<noteq> 0" using blocks_mem [of _ "unat a" F1 d j] by (auto simp: F1)
    qed
    have a: "unat a = unat d + 8 * unat j"
      using True p c j bd(2) pl h_add_unat [of d j] by (simp add: placed_def)
    have jn: "unat (j + n) = unat j + unat n" using a bd(2) pl by (intro unat_plus_small) (auto simp: placed_def)
    have e: "?m = set_ptr d (h_ptr m a) (set_size d (j + n) m)"
      using True c sz pa p by (simp add: join_prev_def Let_def h_apart)
    have keep: "h_ptr ?m x = h_ptr m x" "h_size ?m x = h_size m x" if "apart d x" for x
      using that by (simp_all add: e h_apart)
    have nd: "d \<notin> set (nodes base G)" "set (nodes base G) \<subseteq> set (nodes base F1)"
      using nin(4) by (auto simp: F1 nodes_def)
    have fd: "apart d x" if "x \<in> set (nodes base G)" for x
      using far [of x] nd p that by blast
    have "chain ?m base G d = chain m base G d"
      by (intro chain_headers_cong keep fd) (auto simp: set_nodes)
    moreover have "chain ?m d F2 base = chain m a F2 base"
      using far p keep by (intro chain_move) (auto simp: e)
    moreover have "h_size ?m base = 0" using keep(2) [of base] far [of base] nd p sz by (auto simp: set_nodes)
    ultimately have "chain ?m base (G @ (d, j + n) # F2) base" "h_size ?m base = 0"
      using c(1) ch(2) by (simp_all add: chain_append e)
    moreover have "blocks (unat base + 8) b (G @ (d, j + n) # F2)"
      using pl jn a j(2) by (auto simp: placed_def F1 blocks_append word_unat_eq_iff add.assoc)
    ultimately show ?thesis using jn extent_join [OF a jn]
      by (intro exI [of _ "G @ (d, j + n) # F2"]) (auto simp: F1 nodes_append p [unfolded F1])
  qed
qed

lemma join_frame:
  "i < unat bp \<or> unat bp + 8 \<le> i \<Longrightarrow> join_next bp p m i = m i"
  "i < unat p \<or> unat p + 8 \<le> i \<Longrightarrow> join_prev bp p m i = m i"
  by (simp_all add: join_next_def join_prev_def Let_def set_other)

section \<open>The heap\<close>

text \<open>
  The heap with free blocks \<open>F\<close> and allocated blocks \<open>A\<close>: the blocks lie between the header \<open>base\<close>
  and the break, no two of them overlap, and the headers of the free blocks form the ring.
\<close>

abbreviation (input) USERTOP :: nat where "USERTOP \<equiv> 0xA0000"

definition allocated :: "uint \<Rightarrow> uheap \<Rightarrow> block set \<Rightarrow> bool" where
  "allocated base h A \<longleftrightarrow>
     (\<forall>a n. (a, n) \<in> A \<longrightarrow> unat base + 8 \<le> unat a \<and> n \<noteq> 0 \<and> unat a + 8 * unat n \<le> unat (brk h) \<and> h_size (umem h) a = n)
     \<and> (\<forall>x\<in>A. \<forall>y\<in>A. x \<noteq> y \<longrightarrow> extent x \<inter> extent y = {})"

definition heap :: "uint \<Rightarrow> uheap \<Rightarrow> block list \<Rightarrow> block set \<Rightarrow> bool" where
  "heap base h F A \<longleftrightarrow> base \<noteq> 0 \<and> unat (brk h) \<le> USERTOP
     \<and> blocks (unat base + 8) (unat (brk h)) F \<and> chain (umem h) base F base \<and> h_size (umem h) base = 0
     \<and> freep h \<in> set (nodes base F) \<and> cells (set F) \<inter> cells A = {} \<and> allocated base h A"

lemma extent_header: "n \<noteq> 0 \<Longrightarrow> {unat a..<unat a + 8} \<subseteq> extent (a, n)"
proof -
  assume "n \<noteq> 0"
  then have "0 < unat n" by (simp add: unat_gt_0)
  then show ?thesis by (auto simp: extent_def)
qed

lemma extent_mem: "b \<in> B \<Longrightarrow> extent b \<subseteq> cells B"
  by (auto simp: cells_def)

text \<open>Allocated blocks stay so when their cells are left alone.\<close>

lemma allocated_frame:
  assumes "allocated base h A" "B \<subseteq> A" "\<And>i. i \<in> cells B \<Longrightarrow> umem h' i = umem h i" "unat (brk h) \<le> unat (brk h')"
  shows "allocated base h' B"
proof -
  have "h_size (umem h') a = h_size (umem h) a" if "(a, n) \<in> B" for a n
  proof -
    have "{unat a..<unat a + 8} \<subseteq> cells B"
      using extent_header [of n a] extent_mem [OF that] assms(1,2) that by (auto simp: allocated_def)
    then have "umem h' i = umem h i" if "unat a \<le> i" "i < unat a + 8" for i using that assms(3) [of i] by auto
    then show ?thesis unfolding h_size_def by (intro rd32_cong) auto
  qed
  moreover have "unat base + 8 \<le> unat a \<and> n \<noteq> 0 \<and> unat a + 8 * unat n \<le> unat (brk h') \<and> h_size (umem h) a = n"
    if "(a, n) \<in> B" for a n
  proof -
    have "(a, n) \<in> A" using assms(2) that by blast
    then have "unat base + 8 \<le> unat a \<and> n \<noteq> 0 \<and> unat a + 8 * unat n \<le> unat (brk h) \<and> h_size (umem h) a = n"
      using assms(1) unfolding allocated_def by blast
    then show ?thesis using assms(4) by simp
  qed
  moreover have "\<forall>x\<in>B. \<forall>y\<in>B. x \<noteq> y \<longrightarrow> extent x \<inter> extent y = {}"
    using assms(1,2) unfolding allocated_def by blast
  ultimately show ?thesis unfolding allocated_def by simp
qed

lemma allocated_insert:
  assumes "allocated base h A" "unat base + 8 \<le> unat a" "n \<noteq> 0" "unat a + 8 * unat n \<le> unat (brk h)" "h_size (umem h) a = n"
    "extent (a, n) \<inter> cells A = {}"
  shows "allocated base h (insert (a, n) A)"
proof -
  have "extent (a, n) \<inter> extent y = {}" if "y \<in> A" for y using assms(6) extent_mem [OF that] by blast
  then have "\<forall>x\<in>insert (a, n) A. \<forall>y\<in>insert (a, n) A. x \<noteq> y \<longrightarrow> extent x \<inter> extent y = {}"
    using assms(1) unfolding allocated_def by blast
  then show ?thesis using assms(1-5) unfolding allocated_def by simp
qed

lemma allocated_below: "allocated base h A \<Longrightarrow> cells A \<subseteq> {unat base + 8..<unat (brk h)}"
proof
  fix i assume al: "allocated base h A" and "i \<in> cells A"
  then obtain a n where "(a, n) \<in> A" "i \<in> extent (a, n)" by (auto simp: cells_def)
  moreover from this al have "unat base + 8 \<le> unat a \<and> unat a + 8 * unat n \<le> unat (brk h)" unfolding allocated_def by blast
  ultimately show "i \<in> {unat base + 8..<unat (brk h)}" by (simp add: extent_def)
qed

lemma placed_order:
  assumes "placed base b F1 (a, n) F2" "sorted_wrt (<) (nodes base (F1 @ F2))"
  shows "j \<le> length F1 \<Longrightarrow> nodes base (F1 @ F2) ! j < a"
    "length F1 < j \<Longrightarrow> j < Suc (length (F1 @ F2)) \<Longrightarrow> a < nodes base (F1 @ F2) ! j"
proof -
  have s: "sorted_wrt (\<lambda>x y. unat x + 8 \<le> unat y) (nodes base F1 @ a # map fst F2)"
    using blocks_sorted [of "unat base + 8" b "F1 @ (a, n) # F2" base] assms(1) by (simp add: placed_def nodes_def)
  have R: "nodes base (F1 @ F2) = nodes base F1 @ map fst F2" by (simp add: nodes_def)
  have "\<forall>x\<in>set (nodes base F1). unat x + 8 \<le> unat a" "\<forall>y\<in>set (map fst F2). unat a + 8 \<le> unat y"
    using s unfolding sorted_wrt_append by simp_all
  then have "\<forall>x\<in>set (nodes base F1). x < a" "\<forall>y\<in>set (map fst F2). a < y"
    by (fastforce simp add: word_less_nat_alt)+
  then have lo: "x \<in> set (nodes base F1) \<Longrightarrow> x < a" and hi: "y \<in> set (map fst F2) \<Longrightarrow> a < y" for x y
    by blast+
  show "nodes base (F1 @ F2) ! j < a" if "j \<le> length F1"
    using that nth_mem [of j "nodes base F1"] by (intro lo) (simp add: R nth_append)
  show "a < nodes base (F1 @ F2) ! j" if j: "length F1 < j" "j < Suc (length (F1 @ F2))"
    using j nth_mem [of "j - Suc (length F1)" "map fst F2"] by (intro hi) (simp add: R nth_append del: set_map)
qed

lemma free_finds:
  assumes "placed base b F1 (a, n) F2" "blocks (unat base + 8) b (F1 @ F2)" "chain m base (F1 @ F2) base" "q \<in> set (nodes base (F1 @ F2))"
  shows "free_loop m a q = Some (last (nodes base F1))"
proof -
  let ?R = "nodes base (F1 @ F2)" and ?n = "Suc (length (F1 @ F2))"
  have "sorted_wrt (\<lambda>x y. unat x + 8 \<le> unat y) ?R"
    using blocks_sorted [OF assms(2), of base] by simp
  then have so: "sorted_wrt (<) ?R" by (rule sorted_wrt_mono_rel [rotated]) (simp add: word_less_nat_alt)
  obtain k where k: "k < ?n" "q = ?R ! k" using assms(4) unfolding in_set_conv_nth nodes_length by blast
  define d where "d = (length F1 + (?n - k)) mod ?n"
  have "(k + d) mod ?n = (length F1 + ?n) mod ?n"
    unfolding d_def mod_add_right_eq using k(1) by (intro arg_cong [where f = "\<lambda>x. x mod ?n"]) simp
  also have "\<dots> = length F1" by (simp only: mod_add_self2) simp
  finally have d: "(k + d) mod ?n = length F1" .
  have "free_loop m a (?R ! k) = Some (?R ! length F1)"
  proof (rule free_loop_finds [OF chain_ring [OF assms(3)] _ so])
    show "?n = length ?R" by simp
    show "length F1 < ?n" by simp
    show "k < ?n" "(k + d) mod ?n = length F1" using k d by auto
  qed (use placed_order [OF assms(1) so] in auto)
  moreover have "?R ! length F1 = last (nodes base F1)"
  proof -
    have "?R = nodes base F1 @ map fst F2" by (simp add: nodes_def)
    then show ?thesis by (simp add: nth_append last_conv_nth nodes_def)
  qed
  ultimately show ?thesis using k(2) by simp
qed

text \<open>The cells of the allocated blocks but one are away from the list and from that one.\<close>

lemma heap_others:
  assumes "heap base h F A" "(a, n) \<in> A" "i \<in> cells (A - {(a, n)})"
  shows "i \<notin> {..<unat base + 8} \<union> cells (set F) \<union> extent (a, n)"
proof -
  obtain x y where xy: "(x, y) \<in> A" "(x, y) \<noteq> (a, n)" "i \<in> extent (x, y)" using assms(3) by (auto simp: cells_def)
  have al: "allocated base h A" "cells (set F) \<inter> cells A = {}" using assms(1) by (simp_all add: heap_def)
  have "unat base + 8 \<le> unat x" using al(1) xy(1) unfolding allocated_def by blast
  moreover have "extent (x, y) \<inter> extent (a, n) = {}" using al(1) xy(1,2) assms(2) unfolding allocated_def by blast
  moreover have "i \<in> cells A" using xy extent_mem by blast
  moreover have "unat x \<le> i" using xy(3) by (simp add: extent_def)
  ultimately show ?thesis using al(2) xy(3) by auto
qed

lemma node_header:
  assumes "blocks (unat base + 8) b F" "p \<in> set (nodes base F)"
  shows "{unat p..<unat p + 8} \<subseteq> {unat base..<unat base + 8} \<union> cells (set F)"
proof (cases "p = base")
  case False
  then obtain s where s: "(p, s) \<in> set F" using assms(2) unfolding set_nodes by auto
  then have "s \<noteq> 0" using blocks_mem [OF assms(1) s] by simp
  then show ?thesis using extent_header [of s p] extent_mem [OF s] by blast
qed simp

lemma free_frame:
  assumes "blocks (unat base + 8) b F" "p \<in> set (nodes base F)" "n \<noteq> 0"
    "i \<notin> {unat base..<unat base + 8} \<union> cells (set F) \<union> extent (a, n)"
  shows "join_prev a p (join_next a p m) i = m i"
proof -
  have "i \<notin> {unat p..<unat p + 8}" "i \<notin> {unat a..<unat a + 8}"
    using node_header [OF assms(1,2)] extent_header [OF assms(3), of a] assms(4) by blast+
  then show ?thesis using join_frame(1) [of i a p m] join_frame(2) [of i p a "join_next a p m"] by auto
qed

lemma join_ok:
  assumes "placed base b F1 (a, n) F2" "chain m base (F1 @ F2) base" "h_size m a = n" "h_size m base = 0"
  defines "p \<equiv> last (nodes base F1)"
  defines "m' \<equiv> join_prev a p (join_next a p m)"
  shows "\<exists>F. chain m' base F base \<and> blocks (unat base + 8) b F \<and> h_size m' base = 0 \<and> p \<in> set (nodes base F)
    \<and> (\<exists>bl\<in>set F. unat n \<le> unat (snd bl)) \<and> cells (set F) = cells (set (F1 @ F2)) \<union> extent (a, n)"
proof -
  let ?m1 = "join_next a p m"
  obtain n' F2' q where j1: "h_size ?m1 a = n'" "placed base b F1 (a, n') F2'" "chain ?m1 base F1 q" "chain ?m1 a F2' base"
    "h_size ?m1 base = 0" "unat n \<le> unat n'"
    "cells (set F1) \<union> extent (a, n') \<union> cells (set F2') = cells (set F1) \<union> extent (a, n) \<union> cells (set F2)"
    using join_next_ok [OF assms(1-4)] unfolding p_def by blast
  obtain F where j2: "chain m' base F base" "blocks (unat base + 8) b F" "h_size m' base = 0" "p \<in> set (nodes base F)"
    "\<exists>bl\<in>set F. unat n' \<le> unat (snd bl)" "cells (set F) = cells (set F1) \<union> extent (a, n') \<union> cells (set F2')"
    using join_prev_ok [OF j1(2-4,1,5)] unfolding p_def [symmetric] m'_def by blast
  moreover have "\<exists>bl\<in>set F. unat n \<le> unat (snd bl)" using j2(5) j1(6) by (meson order_trans)
  moreover have "cells (set F) = cells (set (F1 @ F2)) \<union> extent (a, n)" unfolding j2(6) j1(7) by auto
  ultimately show ?thesis by blast
qed

lemma free_ok:
  assumes "heap base h F A" "(a, n) \<in> A"
  shows "\<exists>h' F'. free (a + 8) h = Some h' \<and> heap base h' F' (A - {(a, n)}) \<and> brk h' = brk h
    \<and> (\<exists>b\<in>set F'. unat n \<le> unat (snd b)) \<and> (\<forall>i\<in>cells (A - {(a, n)}). umem h' i = umem h i)"
proof -
  let ?b = "unat (brk h)" and ?A = "A - {(a, n)}" and ?m = "umem h"
  have H: "base \<noteq> 0" "?b \<le> USERTOP" "blocks (unat base + 8) ?b F" "chain ?m base F base" "h_size ?m base = 0"
    "freep h \<in> set (nodes base F)" "cells (set F) \<inter> cells A = {}" "allocated base h A"
    using assms(1) by (simp_all add: heap_def)
  have al: "unat base + 8 \<le> unat a" "n \<noteq> 0" "unat a + 8 * unat n \<le> ?b" "h_size ?m a = n"
    using H(8) assms(2) by (auto simp: allocated_def)
  have "extent (a, n) \<inter> cells (set F) = {}" using H(7) extent_mem [OF assms(2)] by blast
  then obtain F1 F2 where F: "F = F1 @ F2" and "blocks (unat base + 8) (unat a) F1" "blocks (unat a + 8 * unat n) ?b F2"
    using blocks_split [OF H(3) al(1,3,2)] by blast
  then have pl: "placed base ?b F1 (a, n) F2" using al uint_bound [of "brk h"] by (auto simp: placed_def blocks_append)
  define p where "p = last (nodes base F1)"
  let ?h' = "h\<lparr>umem := join_prev a p (join_next a p ?m), freep := p\<rparr>"
  have fr: "free (a + 8) h = Some ?h'"
    using free_finds [OF pl, of ?m "freep h"] H(3,4,6) by (simp add: free_def F p_def)
  obtain F' where j: "chain (umem ?h') base F' base" "blocks (unat base + 8) ?b F'" "h_size (umem ?h') base = 0"
    "p \<in> set (nodes base F')" "\<exists>bl\<in>set F'. unat n \<le> unat (snd bl)" "cells (set F') = cells (set F) \<union> extent (a, n)"
    using join_ok [OF pl _ al(4) H(5)] H(4) unfolding p_def [symmetric] F by auto
  have "p \<in> set (nodes base F1)" unfolding p_def by (rule last_in_set) (simp add: nodes_def)
  then have pin: "p \<in> set (nodes base F)" by (auto simp: F set_nodes)
  have fm: "umem ?h' i = ?m i" if "i \<in> cells ?A" for i
    using free_frame [OF H(3) pin al(2), of i a ?m] heap_others [OF assms that] by auto
  have "cells (set F') \<inter> cells ?A = {}" using heap_others [OF assms] unfolding j(6) by blast
  moreover have "allocated base ?h' ?A"
    by (rule allocated_frame [OF H(8)]) (use fm in auto)
  ultimately have "heap base ?h' F' ?A" using H(1,2) j(1-4) by (simp add: heap_def)
  then show ?thesis using fr fm j(5) by (intro exI [of _ ?h'] exI [of _ F']) auto
qed

section \<open>More memory\<close>

text \<open>
  What \<open>malloc\<close> relies on of the system call: it refuses and changes nothing, or it moves the break
  up by \<open>n\<close>, within the user part of the address space, and keeps the memory below the break.
\<close>

definition sbrk_ok :: "sbrk_call \<Rightarrow> bool" where
  "sbrk_ok sbrk \<longleftrightarrow> (\<forall>n h p h'. sbrk n h = (p, h') \<longrightarrow> n < 0x80000000 \<longrightarrow> unat (brk h) \<le> USERTOP \<longrightarrow>
     p = - 1 \<and> h' = h
     \<or> p = brk h \<and> freep h' = freep h \<and> brk h' = brk h + n \<and> unat (brk h) + unat n \<le> USERTOP
       \<and> (\<forall>i<unat (brk h). umem h' i = umem h i))"

lemma headers_below:
  assumes "blocks (unat base + 8) b F" "x \<in> set (nodes base F)"
  shows "unat x + 8 \<le> b" "unat base \<le> unat x"
proof -
  have "unat base + 8 \<le> b" using assms(1) by (rule blocks_le)
  moreover have "unat x + 8 \<le> b \<and> unat base \<le> unat x" if "(x, s) \<in> set F" for s
  proof -
    have "0 < unat s" using blocks_mem [OF assms(1) that] by (simp add: unat_gt_0)
    then show ?thesis using blocks_mem [OF assms(1) that] by linarith
  qed
  ultimately show "unat x + 8 \<le> b" "unat base \<le> unat x" using assms(2) by (auto simp: set_nodes)
qed

lemma header_cong:
  assumes "\<And>i. unat x \<le> i \<Longrightarrow> i < unat x + 8 \<Longrightarrow> m' i = m i"
  shows "h_ptr m' x = h_ptr m x" "h_size m' x = h_size m x"
  unfolding h_ptr_def h_size_def using assms by (auto intro!: rd32_cong)

text \<open>A new block above the break.\<close>

lemma heap_grow:
  assumes "heap base h F A" "n \<noteq> 0" "unat (brk h) + 8 * unat n \<le> USERTOP"
    and h': "freep h' = freep h" "brk h' = brk h + 8 * n" "\<And>i. i < unat (brk h) \<Longrightarrow> umem h' i = umem h i" "h_size (umem h') (brk h) = n"
  shows "heap base h' F (insert (brk h, n) A)" "(brk h, n) \<notin> A"
proof -
  let ?b = "unat (brk h)"
  have H: "base \<noteq> 0" "blocks (unat base + 8) ?b F" "chain (umem h) base F base" "h_size (umem h) base = 0"
    "freep h \<in> set (nodes base F)" "cells (set F) \<inter> cells A = {}" "allocated base h A"
    using assms(1) by (simp_all add: heap_def)
  have n: "0 < unat n" using assms(2) by (simp add: unat_gt_0)
  have b': "unat (brk h') = ?b + 8 * unat n" using h_add_unat [of "brk h" n] assms(3) by (simp add: h'(2) h_add_def)
  have low: "cells A \<subseteq> {..<?b}" "cells (set F) \<subseteq> {..<?b}"
    using allocated_below [OF H(7)] blocks_cells [OF H(2)] by auto
  have new: "extent (brk h, n) \<inter> {..<?b} = {}" "extent (brk h, n) \<noteq> {}" using n by (auto simp: extent_def)
  show "(brk h, n) \<notin> A" using low(1) new extent_mem [of "(brk h, n)" A] by blast
  have hd: "h_ptr (umem h') x = h_ptr (umem h) x" "h_size (umem h') x = h_size (umem h) x" if "x \<in> set (nodes base F)" for x
    by (rule header_cong; use headers_below [OF H(2) that] h'(3) in simp)+
  have ch: "chain (umem h') base F base" using chain_headers_cong [of base F "umem h'" "umem h" base] hd H(3) by (simp add: set_nodes)
  have "allocated base h' A" by (rule allocated_frame [OF H(7)]) (use low(1) h'(3) b' in auto)
  then have al: "allocated base h' (insert (brk h, n) A)"
    using blocks_le [OF H(2)] assms(2) b' h'(4) low(1) new by (intro allocated_insert) auto
  have "cells (set F) \<inter> cells (insert (brk h, n) A) = {}" using H(6) low(2) new(1) by auto
  moreover have "blocks (unat base + 8) (unat (brk h')) F" using blocks_mono [OF H(2)] b' by simp
  moreover have "h_size (umem h') base = 0" using hd(2) [of base] H(4) by (simp add: set_nodes)
  ultimately show "heap base h' F (insert (brk h, n) A)"
    using H(1,5) ch al b' assms(3) h'(1) unfolding heap_def by simp
qed

lemma heap_freep: "heap base h F A \<Longrightarrow> freep h \<noteq> 0"
  using headers_below(2) [of base "unat (brk h)" F "freep h"] by (auto simp: heap_def word_unat_eq_iff)

lemma morecore_ok:
  assumes "heap base h F A" "sbrk_ok sbrk" "unat nu < 0x10000000"
  shows "morecore sbrk nu h = Some (0, h) \<or>
    (\<exists>h' F'. morecore sbrk nu h = Some (freep h', h') \<and> heap base h' F' A \<and> (\<exists>b\<in>set F'. unat nu \<le> unat (snd b))
      \<and> (\<forall>i\<in>cells A. umem h' i = umem h i))"
proof -
  define n where "n = (if nu < 4096 then 4096 else nu)"
  have n: "n \<noteq> 0" "unat nu \<le> unat n" "unat n < 0x10000000"
    using assms(3) by (auto simp: n_def word_less_nat_alt)
  have n8: "unat (n * 8) = 8 * unat n" using n(3) by (simp add: unat_word_ariths mult.commute)
  have bt: "unat (brk h) \<le> USERTOP" using assms(1) by (simp add: heap_def)
  obtain p h1 where s: "sbrk (n * 8) h = (p, h1)" by (cases "sbrk (n * 8) h")
  have "n * 8 < 0x80000000" using n8 n(3) by (simp add: word_less_nat_alt)
  note so = assms(2) [unfolded sbrk_ok_def, rule_format, OF s this bt, unfolded n8]
  consider "p = - 1" "h1 = h"
    | "p \<noteq> - 1" "p = brk h" "freep h1 = freep h" "brk h1 = brk h + n * 8" "unat (brk h) + 8 * unat n \<le> USERTOP"
      "\<forall>i<unat (brk h). umem h1 i = umem h i"
  proof (cases "p = - 1")
    case True
    have "(- 1 :: uint) = 0xFFFFFFFF" by simp
    then have "unat p = 0xFFFFFFFF" using True by (simp only:) simp
    then have "p \<noteq> brk h" using bt by auto
    then show ?thesis using so that(1) by blast
  next
    case False
    then show ?thesis using so that(2) by blast
  qed
  then show ?thesis
  proof cases
    case 1
    then show ?thesis using s by (simp add: morecore_def n_def [symmetric] Let_def)
  next
    case 2
    let ?h = "h1\<lparr>umem := set_size p n (umem h1)\<rparr>"
    have "heap base ?h F (insert (brk h, n) A)" "(brk h, n) \<notin> A"
      using heap_grow [OF assms(1) n(1), of ?h] 2 by (simp_all add: set_other mult.commute)
    moreover from this have "insert (brk h, n) A - {(brk h, n)} = A" by simp
    ultimately obtain h' F' where "free (p + 8) ?h = Some h'" "heap base h' F' A" "\<exists>b\<in>set F'. unat n \<le> unat (snd b)"
      "\<forall>i\<in>cells A. umem h' i = umem ?h i"
      using free_ok [of base ?h F "insert (brk h, n) A" "brk h" n] unfolding 2(2) by (metis insertI1)
    moreover have "umem ?h i = umem h i" if "i \<in> cells A" for i
    proof -
      have "i < unat (brk h)" using assms(1) that allocated_below [of base h A] by (auto simp: heap_def)
      then show ?thesis using 2 by (simp add: set_other)
    qed
    moreover have "\<exists>b\<in>set F'. unat nu \<le> unat (snd b)" using calculation(3) n(2) by (meson order_trans)
    ultimately show ?thesis using s 2(1) by (auto simp: morecore_def n_def [symmetric] Let_def)
  qed
qed

section \<open>malloc\<close>

lemma chain_join: "chain m p F (h_ptr m a) \<Longrightarrow> chain m a G q \<Longrightarrow> chain m p (F @ G) q"
  by (induction F arbitrary: p) (auto, cases G, auto)

text \<open>The rest of the free list when a block leaves it, or leaves its head there.\<close>

lemma chain_unlink:
  assumes pl: "placed base b F1 (a, n) F2" and ch: "chain m base (F1 @ (a, n) # F2) base" and z: "h_size m base = 0"
  shows "chain (set_ptr (last (nodes base F1)) (h_ptr m a) m) base (F1 @ F2) base"
    "h_size (set_ptr (last (nodes base F1)) (h_ptr m a) m) base = 0"
proof -
  let ?p = "last (nodes base F1)" and ?q = "h_ptr m a"
  let ?m = "set_ptr ?p ?q m"
  have pin: "?p \<in> set (nodes base F1)" by (rule last_in_set) (simp add: nodes_def)
  note nin = placed_not_in [OF pl]
  have far: "apart ?p x" if "x \<in> set (nodes base F1) \<and> x \<noteq> ?p \<or> x = a \<or> x \<in> fst ` set F2" for x
    using placed_apart(2) [OF pl, of ?p x] that pin nin by auto
  have sz: "h_size ?m x = h_size m x" if "x \<in> set (nodes base F1)" for x
    using far [of x] that by (cases "x = ?p") (simp_all add: h_apart)
  have "chain m base F1 a" "chain m a F2 base" using ch by (simp_all add: chain_append)
  have "chain ?m base F1 ?q"
    by (rule chain_relink [OF \<open>chain m base F1 a\<close>]) (use far nin sz in \<open>auto simp: h_apart set_nodes\<close>)
  moreover have "h_ptr ?m a = ?q" using far [of a] by (simp add: h_apart)
  moreover have "chain ?m a F2 base = chain m a F2 base"
    using far by (intro chain_move) (auto simp: h_apart)
  ultimately show "chain ?m base (F1 @ F2) base"
    using chain_join [of ?m base F1 a F2 base] \<open>chain m a F2 base\<close> by simp
  show "h_size ?m base = 0" using sz [of base] z by (simp add: set_nodes)
qed

lemma chain_shrink:
  assumes pl: "placed base b F1 (a, n) F2" and ch: "chain m base (F1 @ (a, n) # F2) base" and z: "h_size m base = 0"
    and c: "unat a + 8 \<le> unat c" "unat c + 8 \<le> unat a + 8 * unat n"
  shows "chain (set_size c u (set_size a k m)) base (F1 @ (a, k) # F2) base" "h_size (set_size c u (set_size a k m)) base = 0"
proof -
  let ?m = "set_size c u (set_size a k m)"
  note nin = placed_not_in [OF pl]
  have ca: "apart c a" using c(1) by (simp add: apart_def)
  have far: "apart a x \<and> apart c x" if "x \<in> set (nodes base F1) \<or> x \<in> fst ` set F2" for x
  proof
    show "apart a x" using placed_apart(2) [OF pl, of a x] that nin by auto
    have "blocks (unat base + 8) (unat a) F1" "blocks (unat a + 8 * unat n) b F2"
      using pl blocks_mono [of "unat base + 8" _ F1 "unat base + 8" "unat a"] by (auto simp: placed_def blocks_append)
    then have "x \<in> set (nodes base F1) \<Longrightarrow> unat x + 8 \<le> unat a" "x \<in> fst ` set F2 \<Longrightarrow> unat a + 8 * unat n \<le> unat x"
      using headers_below(1) [of base "unat a" F1 x] blocks_mem [of "unat a + 8 * unat n" b F2 x] by auto
    then show "apart c x" using that c unfolding apart_def by linarith
  qed
  have keep: "h_ptr ?m x = h_ptr m x" "h_size ?m x = h_size m x" if "x \<in> set (nodes base F1) \<or> x \<in> fst ` set F2" for x
    using far [OF that] by (simp_all add: h_apart)
  have "chain ?m base F1 a = chain m base F1 a"
    by (intro chain_headers_cong keep) (auto simp: set_nodes)
  moreover have "chain ?m a F2 base = chain m a F2 base"
    using keep ca by (intro chain_move) (simp_all add: h_apart)
  moreover have "h_size ?m a = k" using ca by (simp add: h_apart)
  ultimately show "chain ?m base (F1 @ (a, k) # F2) base" using ch by (simp add: chain_append)
  show "h_size ?m base = 0" using keep(2) [of base] z by (simp add: set_nodes)
qed

lemma heap_take:
  assumes "heap base h F A" "F = F1 @ (a, n) # F2" "freep h' \<in> set (nodes base F1)" "brk h' = brk h" "u \<noteq> 0"
    and f: "chain (umem h') base F' base" "blocks (unat base + 8) (unat (brk h)) F'" "h_size (umem h') base = 0"
    and c: "h_size (umem h') c = u" "extent (c, u) \<subseteq> extent (a, n)" "cells (set F') \<subseteq> cells (set F) - extent (c, u)"
    and n: "set (nodes base F1) \<subseteq> set (nodes base F')" and m: "\<And>i. i \<in> cells A \<Longrightarrow> umem h' i = umem h i"
    and b: "unat c + 8 * unat u \<le> unat a + 8 * unat n" "unat a \<le> unat c"
  shows "heap base h' F' (insert (c, u) A)" "(c, u) \<notin> A"
proof -
  have H: "base \<noteq> 0" "unat (brk h) \<le> USERTOP" "blocks (unat base + 8) (unat (brk h)) F"
    "cells (set F) \<inter> cells A = {}" "allocated base h A"
    using assms(1) by (simp_all add: heap_def)
  have an: "unat base + 8 \<le> unat a" "unat a + 8 * unat n \<le> unat (brk h)" "(a, n) \<in> set F"
    using blocks_mem [OF H(3), of a n] by (simp_all add: assms(2))
  have d: "extent (c, u) \<inter> cells A = {}" using c(2) extent_mem [OF an(3)] H(4) by blast
  have "extent (c, u) \<noteq> {}" using extent_header [OF assms(5), of c] by auto
  then show "(c, u) \<notin> A" using d extent_mem [of "(c, u)" A] by blast
  have "allocated base h' A" by (rule allocated_frame [OF H(5)]) (use m assms(4) in auto)
  then have "allocated base h' (insert (c, u) A)"
    using an b assms(4,5) c(1) d by (intro allocated_insert) auto
  moreover have "cells (set F') \<inter> cells (insert (c, u) A) = {}" using c(3) H(4) by auto
  ultimately show "heap base h' F' (insert (c, u) A)" using H(1,2) f assms(3,4) n unfolding heap_def by auto
qed

lemma cells_apart:
  assumes "heap base h F A" "i \<in> cells A" "x \<in> set (nodes base F)"
  shows "i < unat x \<or> unat x + 8 \<le> i"
proof -
  have H: "blocks (unat base + 8) (unat (brk h)) F" "cells (set F) \<inter> cells A = {}" "allocated base h A"
    using assms(1) by (simp_all add: heap_def)
  have "i \<notin> {unat base..<unat base + 8} \<union> cells (set F)" using H(2) assms(2) allocated_below [OF H(3)] by auto
  then have "i \<notin> {unat x..<unat x + 8}" using node_header [OF H(1) assms(3)] by blast
  then show ?thesis by auto
qed

lemma blocks_remove:
  assumes "blocks l h (F1 @ (a, n) # F2)"
  shows "blocks l h (F1 @ F2)" "extent (a, n) \<inter> cells (set F1 \<union> set F2) = {}"
proof -
  obtain x where x: "blocks l x F1" "x \<le> unat a" "blocks (unat a + 8 * unat n) h F2"
    using assms by (auto simp: blocks_append)
  have "blocks x h F2" using blocks_mono [OF x(3)] x(2) by simp
  then show "blocks l h (F1 @ F2)" using x(1) by (auto simp: blocks_append)
  show "extent (a, n) \<inter> cells (set F1 \<union> set F2) = {}"
    using blocks_cells [OF x(1)] blocks_cells [OF x(3)] x(2) by (fastforce simp: extent_def)
qed

lemma blocks_shrink:
  assumes "blocks l h (F1 @ (a, n) # F2)" "k \<noteq> 0" "unat k \<le> unat n"
  shows "blocks l h (F1 @ (a, k) # F2)"
proof -
  obtain x where x: "blocks l x F1" "x \<le> unat a" "blocks (unat a + 8 * unat n) h F2"
    using assms by (auto simp: blocks_append)
  moreover have "blocks (unat a + 8 * unat k) h F2" using blocks_mono [OF x(3)] assms(3) by simp
  ultimately show ?thesis using assms(2) by (auto simp: blocks_append)
qed

lemma unat_plus8: "unat c + 8 \<le> USERTOP \<Longrightarrow> (c :: uint) + 8 \<noteq> 0"
  using unat_word_ariths(1) [of c 8] by (auto simp: word_unat_eq_iff)

text \<open>Taking a block of \<open>u\<close> units from the free block \<open>a\<close>: all of it, or its tail.\<close>

lemma take_whole:
  assumes "heap base h F A" "F = F1 @ (a, u) # F2" "u \<noteq> 0"
  defines "p \<equiv> last (nodes base F1)"
  defines "h' \<equiv> h\<lparr>umem := set_ptr p (h_ptr (umem h) a) (umem h), freep := p\<rparr>"
  shows "heap base h' (F1 @ F2) (insert (a, u) A) \<and> (a, u) \<notin> A" "\<forall>i\<in>cells A. umem h' i = umem h i"
proof -
  have H: "blocks (unat base + 8) (unat (brk h)) F" "chain (umem h) base F base" "h_size (umem h) base = 0"
    using assms(1) by (simp_all add: heap_def)
  have pl: "placed base (unat (brk h)) F1 (a, u) F2" using H(1) uint_bound [of "brk h"] by (simp add: placed_def assms(2))
  have pin: "p \<in> set (nodes base F1)" unfolding p_def by (rule last_in_set) (simp add: nodes_def)
  then have "apart p a" using placed_apart(2) [OF pl, of p a] placed_not_in [OF pl] by auto
  moreover have "h_size (umem h) a = u" using H(2) by (simp add: assms(2) chain_append)
  ultimately have sz: "h_size (umem h') a = u" by (simp add: h'_def h_apart)
  have pF: "p \<in> set (nodes base F)" using pin by (auto simp: assms(2) set_nodes)
  show fm: "\<forall>i\<in>cells A. umem h' i = umem h i"
    using cells_apart [OF assms(1) _ pF] by (auto simp: h'_def set_other)
  note ch = chain_unlink [OF pl H(2) [unfolded assms(2)] H(3), folded p_def]
  note rm = blocks_remove [OF H(1) [unfolded assms(2)]]
  have "cells (set (F1 @ F2)) \<subseteq> cells (set F) - extent (a, u)" using rm(2) by (auto simp: assms(2))
  then show "heap base h' (F1 @ F2) (insert (a, u) A) \<and> (a, u) \<notin> A"
    using heap_take [OF assms(1,2), of h' u "F1 @ F2" a] pin assms(3) ch rm(1) sz fm
    by (auto simp: h'_def set_nodes)
qed

lemma take_tail:
  assumes "heap base h F A" "F = F1 @ (a, n) # F2" "u < n" "u \<noteq> 0" "p \<in> set (nodes base F1)"
  defines "c \<equiv> h_add a (n - u)"
  defines "h' \<equiv> h\<lparr>umem := set_size c u (set_size a (n - u) (umem h)), freep := p\<rparr>"
  shows "heap base h' (F1 @ (a, n - u) # F2) (insert (c, u) A) \<and> (c, u) \<notin> A" "\<forall>i\<in>cells A. umem h' i = umem h i"
    "unat c + 8 \<le> unat (brk h)"
proof -
  have H: "blocks (unat base + 8) (unat (brk h)) F" "chain (umem h) base F base" "h_size (umem h) base = 0"
    "cells (set F) \<inter> cells A = {}"
    using assms(1) by (simp_all add: heap_def)
  have pl: "placed base (unat (brk h)) F1 (a, n) F2" using H(1) uint_bound [of "brk h"] by (simp add: placed_def assms(2))
  note bd = placed_bounds [OF pl]
  have k: "unat (n - u) = unat n - unat u" "0 < unat u" "unat u < unat n"
    using assms(3,4) by (simp_all add: unat_sub unat_gt_0 word_less_nat_alt less_imp_le)
  then have k0: "n - u \<noteq> 0" by (auto simp: word_unat_eq_iff)
  have "unat a + 8 * unat n < 4294967296" using bd(2) uint_bound [of "brk h"] by linarith
  then have "unat a + 8 * unat (n - u) < 4294967296" using k(1) by linarith
  then have c: "unat c = unat a + 8 * (unat n - unat u)" unfolding c_def using h_add_unat [of a "n - u"] k(1) by simp
  have cl: "unat a + 8 \<le> unat c" "unat c + 8 \<le> unat a + 8 * unat n" "unat c + 8 * unat u = unat a + 8 * unat n"
    using c k by auto
  then show "unat c + 8 \<le> unat (brk h)" using bd(2) by simp
  have ex: "extent (c, u) \<subseteq> extent (a, n)" "extent (a, n - u) \<subseteq> extent (a, n) - extent (c, u)"
    using cl c k by (auto simp: extent_def)
  have aF: "(a, n) \<in> set F" by (simp add: assms(2))
  have "umem h' i = umem h i" if "i \<in> cells A" for i
  proof -
    have "i \<notin> extent (a, n)" using H(4) extent_mem [OF aF] that by blast
    then show ?thesis using cl by (auto simp: h'_def set_other extent_def)
  qed
  then show fm: "\<forall>i\<in>cells A. umem h' i = umem h i" by blast
  note ch = chain_shrink [OF pl H(2) [unfolded assms(2)] H(3) cl(1,2)]
  have bl: "blocks (unat base + 8) (unat (brk h)) (F1 @ (a, n - u) # F2)"
    using blocks_shrink [OF H(1) [unfolded assms(2)] k0] k by simp
  have "cells (set (F1 @ (a, n - u) # F2)) \<subseteq> cells (set F) - extent (c, u)"
    using ex blocks_remove(2) [OF H(1) [unfolded assms(2)]] by (auto simp: assms(2))
  then show "heap base h' (F1 @ (a, n - u) # F2) (insert (c, u) A) \<and> (c, u) \<notin> A"
    using heap_take [OF assms(1,2), of h' u "F1 @ (a, n - u) # F2" c] assms(4,5) ch bl fm ex(1) cl
    by (auto simp: h'_def set_nodes)
qed

lemma take_block_ok:
  assumes "heap base h F A" "F = F1 @ (a, n) # F2" "u \<le> n" "u \<noteq> 0"
  shows "\<exists>r h' F'. take_block u (last (nodes base F1)) a h = (r, h') \<and> heap base h' F' (insert (r - 8, u) A) \<and> (r - 8, u) \<notin> A
    \<and> (\<forall>i\<in>cells A. umem h' i = umem h i) \<and> r \<noteq> 0"
proof -
  let ?p = "last (nodes base F1)"
  have H: "unat (brk h) \<le> USERTOP" "blocks (unat base + 8) (unat (brk h)) F" "chain (umem h) base F base"
    using assms(1) by (simp_all add: heap_def)
  have sz: "h_size (umem h) a = n" using H(3) by (simp add: assms(2) chain_append)
  have pin: "?p \<in> set (nodes base F1)" by (rule last_in_set) (simp add: nodes_def)
  show ?thesis
  proof (cases "n = u")
    case True
    have "a \<in> set (nodes base F)" by (simp add: assms(2) nodes_append)
    then have "a + 8 \<noteq> 0" using headers_below(1) [OF H(2), of a] H(1) by (intro unat_plus8) simp
    then show ?thesis
      using take_whole [OF assms(1) assms(2) [unfolded True] assms(4)] sz True
      by (intro exI [of _ "a + 8"]) (auto simp: take_block_def Let_def)
  next
    case False
    then have "u < n" using assms(3) by simp
    note t = take_tail [OF assms(1,2) this assms(4) pin]
    have "h_add a (n - u) + 8 \<noteq> 0" using t(3) H(1) by (intro unat_plus8) simp
    then show ?thesis using t(1,2) sz False
      by (intro exI [of _ "h_add a (n - u) + 8"]) (auto simp: take_block_def Let_def)
  qed
qed

text \<open>One turn of the search: from the node after \<open>freep\<close> round to \<open>freep\<close> itself.\<close>

lemma malloc_scan:
  fixes R :: "uint list" and n k f t :: nat
  assumes "ring (umem h) R" "n = length R" "distinct R" "f < n" "freep h = R ! f"
  shows "k < n \<Longrightarrow> (k + Suc t) mod n = f \<Longrightarrow> Suc t \<le> n \<Longrightarrow>
    (\<exists>j<n. u \<le> h_size (umem h) (R ! (Suc j mod n))
       \<and> malloc_loop sbrk u (R ! k) (R ! (Suc k mod n)) h = Some (take_block u (R ! j) (R ! (Suc j mod n)) h))
    \<or> (\<forall>i\<le>t. h_size (umem h) (R ! ((k + Suc i) mod n)) < u)
       \<and> malloc_loop sbrk u (R ! k) (R ! (Suc k mod n)) h
         = (case morecore sbrk u h of None \<Rightarrow> None
            | Some (p, h) \<Rightarrow> if p = 0 then Some (0, h) else malloc_loop sbrk u p (h_ptr (umem h) p) h)"
proof (induction t arbitrary: k)
  case 0
  then show ?case using assms(5) by (cases "u \<le> h_size (umem h) (R ! (Suc k mod n))") (auto simp: malloc_loop.simps not_le)
next
  case (Suc t)
  let ?k = "Suc k mod n"
  show ?case
  proof (cases "u \<le> h_size (umem h) (R ! ?k)")
    case True
    then show ?thesis using Suc.prems(1) by (auto simp: malloc_loop.simps)
  next
    case False
    have kn: "?k < n" using Suc.prems(1) by (intro mod_less_divisor) linarith
    have km: "(?k + x) mod n = (k + Suc x) mod n" for x by (simp add: mod_add_left_eq)
    have "?k \<noteq> f"
    proof
      assume "?k = f"
      then have "(Suc k + Suc t) mod n = Suc k mod n" using Suc.prems(2) by simp
      then have "n dvd Suc t" using mod_eq_dvd_iff_nat [of "Suc k" "Suc k + Suc t" n] by simp
      then have "n \<le> Suc t" by (rule dvd_imp_le) simp
      then show False using Suc.prems(3) by simp
    qed
    then have "R ! ?k \<noteq> freep h" using assms(2-5) kn by (simp add: nth_eq_iff_index_eq)
    then have st: "malloc_loop sbrk u (R ! k) (R ! ?k) h = malloc_loop sbrk u (R ! ?k) (R ! (Suc ?k mod n)) h"
      using False assms(1,2) kn by (subst malloc_loop.simps) (simp add: ring_def)
    have "(?k + Suc t) mod n = f" "Suc t \<le> n" using Suc.prems(2,3) km [of "Suc t"] by simp_all
    note ih = Suc.IH [OF kn this]
    have "(\<forall>i\<le>Suc t. h_size (umem h) (R ! ((k + Suc i) mod n)) < u)" if "\<forall>i\<le>t. h_size (umem h) (R ! ((?k + Suc i) mod n)) < u"
    proof (intro allI impI)
      fix i assume "i \<le> Suc t"
      then show "h_size (umem h) (R ! ((k + Suc i) mod n)) < u"
      proof (cases i)
        case (Suc i')
        then have "h_size (umem h) (R ! ((?k + Suc i') mod n)) < u" using that \<open>i \<le> Suc t\<close> by auto
        then show ?thesis unfolding km [of "Suc i'"] Suc .
      qed (use False in \<open>simp add: not_le\<close>)
    qed
    then show ?thesis using ih unfolding st by blast
  qed
qed

text \<open>What a call of \<open>malloc\<close> for \<open>u\<close> units comes to: nothing, or a block of its own.\<close>

definition malloced :: "uint \<Rightarrow> uint \<Rightarrow> uheap \<Rightarrow> block set \<Rightarrow> uint \<Rightarrow> uheap \<Rightarrow> bool" where
  "malloced base u h A r h' \<longleftrightarrow>
     (r = 0 \<and> (\<exists>F. heap base h' F A) \<or> r \<noteq> 0 \<and> (r - 8, u) \<notin> A \<and> (\<exists>F. heap base h' F (insert (r - 8, u) A)))
     \<and> (\<forall>i\<in>cells A. umem h' i = umem h i)"

lemma node_pred:
  assumes "j < Suc (length F)" "h_size m base = 0" "u \<noteq> 0" "u \<le> h_size m (nodes base F ! (Suc j mod Suc (length F)))" "chain m base F base"
  shows "\<exists>F1 a n F2. F = F1 @ (a, n) # F2 \<and> nodes base F ! j = last (nodes base F1)
    \<and> nodes base F ! (Suc j mod Suc (length F)) = a \<and> u \<le> n"
proof -
  have "j < length F"
  proof (rule ccontr)
    assume "\<not> j < length F"
    then have "j = length F" using assms(1) by simp
    then have "Suc j mod Suc (length F) = 0" by simp
    then show False using assms(2-4) by (simp add: nodes_def)
  qed
  moreover obtain a n where an: "F ! j = (a, n)" by (cases "F ! j")
  ultimately have F: "F = take j F @ (a, n) # drop (Suc j) F" using id_take_nth_drop [of j F] by simp
  have "nodes base F ! j = last (nodes base (take j F))"
  proof (cases j)
    case (Suc i)
    then have "take j F \<noteq> []" using \<open>j < length F\<close> by auto
    then show ?thesis using Suc \<open>j < length F\<close> by (simp add: nodes_def last_map last_conv_nth)
  qed (simp add: nodes_def)
  moreover have a: "nodes base F ! (Suc j mod Suc (length F)) = a" using \<open>j < length F\<close> an by (simp add: nodes_def)
  moreover have "h_size m a = n" using chain_size [OF assms(5), of a n] an \<open>j < length F\<close> nth_mem by metis
  ultimately show ?thesis using F assms(4) by metis
qed

lemma heap_scan:
  assumes "heap base h F A" "u \<noteq> 0"
  shows "(\<exists>r h'. malloc_loop sbrk u (freep h) (h_ptr (umem h) (freep h)) h = Some (r, h') \<and> malloced base u h A r h')
    \<or> (\<forall>(a, n)\<in>set F. n < u)
      \<and> malloc_loop sbrk u (freep h) (h_ptr (umem h) (freep h)) h
         = (case morecore sbrk u h of None \<Rightarrow> None
            | Some (p, h) \<Rightarrow> if p = 0 then Some (0, h) else malloc_loop sbrk u p (h_ptr (umem h) p) h)"
proof -
  let ?R = "nodes base F" and ?n = "Suc (length F)"
  have H: "blocks (unat base + 8) (unat (brk h)) F" "chain (umem h) base F base" "h_size (umem h) base = 0"
    "freep h \<in> set ?R"
    using assms(1) by (simp_all add: heap_def)
  have r: "ring (umem h) ?R" using chain_ring [OF H(2)] .
  have d: "distinct ?R" using nodes_apart(1) [OF blocks_sorted [OF H(1), of base]] by simp
  obtain f where f: "f < ?n" "freep h = ?R ! f" using H(4) unfolding in_set_conv_nth nodes_length by metis
  have nx: "h_ptr (umem h) (freep h) = ?R ! (Suc f mod ?n)" using r f by (simp add: ring_def)
  have "(f + ?n) mod ?n = f" unfolding mod_add_self2 using f(1) by (rule mod_less)
  note scan = malloc_scan [OF r _ d f, of f "length F" u sbrk, unfolded nodes_length, OF refl f(1) this order_refl]
  then consider j where "j < ?n" "u \<le> h_size (umem h) (?R ! (Suc j mod ?n))"
      "malloc_loop sbrk u (?R ! f) (?R ! (Suc f mod ?n)) h = Some (take_block u (?R ! j) (?R ! (Suc j mod ?n)) h)"
    | "\<forall>i\<le>length F. h_size (umem h) (?R ! ((f + Suc i) mod ?n)) < u"
      "malloc_loop sbrk u (?R ! f) (?R ! (Suc f mod ?n)) h
         = (case morecore sbrk u h of None \<Rightarrow> None
            | Some (p, h) \<Rightarrow> if p = 0 then Some (0, h) else malloc_loop sbrk u p (h_ptr (umem h) p) h)"
    by blast
  then show ?thesis
  proof cases
    case 1
    obtain F1 a n F2 where F: "F = F1 @ (a, n) # F2" "?R ! j = last (nodes base F1)" "?R ! (Suc j mod ?n) = a" "u \<le> n"
      using node_pred [OF 1(1) H(3) assms(2) 1(2) H(2)] by blast
    obtain r h' F' where "take_block u (last (nodes base F1)) a h = (r, h')" "heap base h' F' (insert (r - 8, u) A)" "(r - 8, u) \<notin> A"
      "\<forall>i\<in>cells A. umem h' i = umem h i" "r \<noteq> 0"
      using take_block_ok [OF assms(1) F(1,4) assms(2)] by blast
    then show ?thesis using 1(3) nx f(2) F(2,3) by (auto simp: malloced_def)
  next
    case 2
    have "n < u" if "(a, n) \<in> set F" for a n
    proof -
      have "a \<in> set ?R" using that by (force simp: set_nodes)
      then obtain i where i: "i < ?n" "?R ! i = a" unfolding in_set_conv_nth nodes_length by metis
      define j where "j = (i + ?n - Suc f) mod ?n"
      have "(f + Suc j) mod ?n = (Suc f + j) mod ?n" by simp
      also have "\<dots> = (Suc f + (i + ?n - Suc f)) mod ?n" unfolding j_def by (rule mod_add_right_eq)
      also have "Suc f + (i + ?n - Suc f) = i + ?n" using f(1) by simp
      also have "(i + ?n) mod ?n = i" unfolding mod_add_self2 using i(1) by (rule mod_less)
      finally have "h_size (umem h) a < u" using 2(1) i(2) by (metis j_def less_Suc_eq_le mod_less_divisor zero_less_Suc)
      then show ?thesis using chain_size [OF H(2) that] by simp
    qed
    then show ?thesis using 2(2) nx f(2) by auto
  qed
qed

lemma malloc_loop_ok:
  assumes "heap base h F A" "u \<noteq> 0" "sbrk_ok sbrk" "unat u < 0x10000000"
  shows "\<exists>r h'. malloc_loop sbrk u (freep h) (h_ptr (umem h) (freep h)) h = Some (r, h') \<and> malloced base u h A r h'"
proof (cases "\<forall>(a, n)\<in>set F. n < u")
  case False
  then show ?thesis using heap_scan [OF assms(1,2)] by blast
next
  case True
  consider "morecore sbrk u h = Some (0, h)"
    | h1 F1 where "morecore sbrk u h = Some (freep h1, h1)" "heap base h1 F1 A" "\<exists>b\<in>set F1. unat u \<le> unat (snd b)"
      "\<forall>i\<in>cells A. umem h1 i = umem h i"
    using morecore_ok [OF assms(1,3,4)] by blast
  then show ?thesis
  proof cases
    case 1
    then show ?thesis using heap_scan [OF assms(1,2), of sbrk] assms(1) by (auto simp: malloced_def)
  next
    case 2
    have "\<not> (\<forall>(a, n)\<in>set F1. n < u)" using 2(3) by (fastforce simp: word_less_nat_alt)
    then obtain r h' where "malloc_loop sbrk u (freep h1) (h_ptr (umem h1) (freep h1)) h1 = Some (r, h')" "malloced base u h1 A r h'"
      using heap_scan [OF 2(2) assms(2), of sbrk] by blast
    moreover have "malloced base u h A r h'" using calculation(2) 2(4) by (simp add: malloced_def)
    ultimately show ?thesis using heap_scan [OF assms(1,2), of sbrk] 2(1) heap_freep [OF 2(2)] by auto
  qed
qed

section \<open>A program that uses the heap\<close>

text \<open>The process at its start, or with a heap whose allocated blocks are \<open>A\<close>.\<close>

definition heap_inv :: "uint \<Rightarrow> uheap \<Rightarrow> block set \<Rightarrow> bool" where
  "heap_inv base h A \<longleftrightarrow>
     A = {} \<and> freep h = 0 \<and> base \<noteq> 0 \<and> unat base + 8 \<le> unat (brk h) \<and> unat (brk h) \<le> USERTOP \<or> (\<exists>F. heap base h F A)"

lemma units_of_unat: "nb < 0x7FFFFFF0 \<Longrightarrow> unat (units_of nb) = (unat nb + 7) div 8 + 1"
proof -
  assume "nb < 0x7FFFFFF0"
  then have n: "unat nb < 0x7FFFFFF0" by (simp add: word_less_nat_alt)
  then have "unat (nb + 8 - 1) = unat nb + 7" by (simp add: unat_word_ariths)
  then have "unat ((nb + 8 - 1) div 8) = (unat nb + 7) div 8" by (simp add: unat_div)
  then show ?thesis using n by (simp add: units_of_def unat_word_ariths)
qed

text \<open>The rounding wraps around at the top of the range: a request for all of memory is taken for an empty block.\<close>

lemma units_of_wraps: "units_of 0xFFFFFFFF = 1" "units_of 0 = 1"
  by (simp_all add: units_of_def)

lemma malloc_ok:
  assumes "heap_inv base h A" "sbrk_ok sbrk" "nb < 0x7FFFFFF0"
  shows "\<exists>r h'. malloc sbrk base nb h = Some (r, h') \<and> malloced base (units_of nb) h A r h'"
proof -
  have nb: "unat nb < 0x7FFFFFF0" using assms(3) by (simp add: word_less_nat_alt)
  have u: "units_of nb \<noteq> 0" "unat (units_of nb) < 0x10000000"
    using units_of_unat [OF assms(3)] nb by (auto simp: word_unat_eq_iff)
  show ?thesis
  proof (cases "freep h = 0")
    case True
    then have e: "A = {}" "base \<noteq> 0" "unat base + 8 \<le> unat (brk h)" "unat (brk h) \<le> USERTOP"
      using assms(1) heap_freep by (auto simp: heap_inv_def)
    let ?h = "h\<lparr>umem := set_size base 0 (set_ptr base base (umem h)), freep := base\<rparr>"
    have hp: "heap base ?h [] {}" using e by (simp add: heap_def allocated_def nodes_def)
    obtain r h' where "malloc_loop sbrk (units_of nb) (freep ?h) (h_ptr (umem ?h) (freep ?h)) ?h = Some (r, h')"
      "malloced base (units_of nb) ?h {} r h'"
      using malloc_loop_ok [OF hp u(1) assms(2) u(2)] by blast
    then show ?thesis using True e(1) by (simp add: malloc_def malloced_def Let_def)
  next
    case False
    then obtain F where "heap base h F A" using assms(1) by (auto simp: heap_inv_def)
    from malloc_loop_ok [OF this u(1) assms(2) u(2)] show ?thesis using False by (simp add: malloc_def Let_def)
  qed
qed

text \<open>A store into the body of an allocated block.\<close>

lemma heap_store:
  assumes "heap base h F A" "(a, n) \<in> A" "unat a + 8 \<le> i" "i < unat a + 8 * unat n"
  shows "heap base (h\<lparr>umem := (umem h)(i := v)\<rparr>) F A"
proof -
  let ?m = "(umem h)(i := v)"
  have H: "chain (umem h) base F base" "h_size (umem h) base = 0" "allocated base h A"
    using assms(1) by (simp_all add: heap_def)
  have i: "i \<in> extent (a, n)" using assms(3,4) by (simp add: extent_def)
  then have iA: "i \<in> cells A" using extent_mem [OF assms(2)] by blast
  have hd: "h_ptr ?m x = h_ptr (umem h) x" "h_size ?m x = h_size (umem h) x" if "x \<in> set (nodes base F)" for x
    by (rule header_cong; use cells_apart [OF assms(1) iA that] in auto)+
  have "chain ?m base F base" using chain_headers_cong [of base F ?m "umem h" base] hd H(1) by (simp add: set_nodes)
  moreover have "h_size ?m base = 0" using hd(2) [of base] H(2) by (simp add: set_nodes)
  moreover have "h_size ?m c = k" if ck: "(c, k) \<in> A" for c k
  proof -
    have k: "k \<noteq> 0" "h_size (umem h) c = k" using H(3) ck unfolding allocated_def by blast+
    have "i \<notin> {unat c..<unat c + 8}"
    proof (cases "(c, k) = (a, n)")
      case False
      then have "extent (c, k) \<inter> extent (a, n) = {}" using H(3) ck assms(2) unfolding allocated_def by blast
      then show ?thesis using extent_header [OF k(1), of c] i by blast
    qed (use assms(3) in auto)
    then have "h_size ?m c = h_size (umem h) c" by (intro header_cong(2)) auto
    then show ?thesis using k by simp
  qed
  ultimately show ?thesis using assms(1) unfolding heap_def allocated_def by simp
qed

text \<open>
  The operations of a program: ask for \<open>n\<close> bytes, free the block \<open>i\<close>, store a byte in the block
  \<open>i\<close>. A live block is the pointer and the size the program has, and the bytes it stored.
\<close>

datatype uop = Malloc uint | Free nat | Store nat nat uchar

type_synonym live = "(uint \<times> uint \<times> (nat \<rightharpoonup> uchar)) list"

fun ustep :: "sbrk_call \<Rightarrow> uint \<Rightarrow> uop \<Rightarrow> uheap \<times> live \<Rightarrow> (uheap \<times> live) option" where
  "ustep sbrk base (Malloc nb) (h, L) =
     (case malloc sbrk base nb h of
        None \<Rightarrow> None
      | Some (r, h) \<Rightarrow> Some (h, if r = 0 then L else (r, nb, Map.empty) # L))"
| "ustep sbrk base (Free i) (h, L) =
     (if i < length L then map_option (\<lambda>h. (h, take i L @ drop (Suc i) L)) (free (fst (L ! i)) h) else Some (h, L))"
| "ustep sbrk base (Store i k v) (h, L) =
     (if i < length L then
        case L ! i of (r, nb, vs) \<Rightarrow>
          if k < unat nb then Some (h\<lparr>umem := (umem h)(unat r + k := v)\<rparr>, L[i := (r, nb, vs(k \<mapsto> v))]) else Some (h, L)
      else Some (h, L))"

fun urun :: "sbrk_call \<Rightarrow> uint \<Rightarrow> uop list \<Rightarrow> uheap \<times> live \<Rightarrow> (uheap \<times> live) option" where
  "urun sbrk base [] s = Some s"
| "urun sbrk base (op # ops) s = (case ustep sbrk base op s of None \<Rightarrow> None | Some s \<Rightarrow> urun sbrk base ops s)"

definition blk :: "uint \<times> uint \<times> (nat \<rightharpoonup> uchar) \<Rightarrow> block" where
  "blk = (\<lambda>(r, nb, vs). (r - 8, units_of nb))"

definition live_ok :: "uint \<Rightarrow> uheap \<Rightarrow> live \<Rightarrow> bool" where
  "live_ok base h L \<longleftrightarrow> distinct (map blk L) \<and> heap_inv base h (set (map blk L))
     \<and> (\<forall>(r, nb, vs)\<in>set L. nb < 0x7FFFFFF0 \<and> (\<forall>k v. vs k = Some v \<longrightarrow> k < unat nb \<and> umem h (unat r + k) = v))"

definition body :: "uint \<times> uint \<times> (nat \<rightharpoonup> uchar) \<Rightarrow> nat set" where
  "body = (\<lambda>(r, nb, vs). {unat r..<unat r + unat nb})"

lemma live_heap: "live_ok base h L \<Longrightarrow> x \<in> set L \<Longrightarrow> \<exists>F. heap base h F (set (map blk L))"
  by (auto simp: live_ok_def heap_inv_def)

lemma live_body:
  assumes "live_ok base h L" "(r, nb, vs) \<in> set L"
  shows "unat r = unat (r - 8) + 8" "unat r + unat nb \<le> unat (r - 8) + 8 * unat (units_of nb)"
    "body (r, nb, vs) \<subseteq> extent (blk (r, nb, vs))"
proof -
  obtain F where h: "heap base h F (set (map blk L))" using live_heap [OF assms] by blast
  have al: "allocated base h (set (map blk L))" "unat (brk h) \<le> USERTOP" using h by (simp_all add: heap_def)
  have "(r - 8, units_of nb) \<in> set (map blk L)" using assms(2) by (force simp: blk_def)
  then have "unat (r - 8) + 8 * unat (units_of nb) \<le> unat (brk h)" using al(1) unfolding allocated_def by blast
  then have b: "unat (r - 8) + 8 * unat (units_of nb) \<le> USERTOP" using al(2) by simp
  have nb: "nb < 0x7FFFFFF0" using assms by (auto simp: live_ok_def)
  note u = units_of_unat [OF nb]
  have "unat (r - 8 + 8) = unat (r - 8) + 8" using b u by (subst unat_word_ariths) simp
  then show r: "unat r = unat (r - 8) + 8" by simp
  have "unat nb \<le> 8 * ((unat nb + 7) div 8)" by linarith
  then show le: "unat r + unat nb \<le> unat (r - 8) + 8 * unat (units_of nb)" unfolding r u by simp
  show "body (r, nb, vs) \<subseteq> extent (blk (r, nb, vs))"
    using r le by (auto simp: body_def blk_def extent_def)
qed

lemma live_cells: "live_ok base h L \<Longrightarrow> (r, nb, vs) \<in> set L \<Longrightarrow> k < unat nb \<Longrightarrow> unat r + k \<in> cells (set (map blk L))"
  using live_body(3) [of base h L r nb vs] extent_mem [of "blk (r, nb, vs)" "set (map blk L)"]
  by (force simp: body_def)

lemma live_disjoint:
  assumes "live_ok base h L" "i < length L" "j < length L" "i \<noteq> j"
  shows "body (L ! i) \<inter> body (L ! j) = {}"
proof -
  obtain F where "heap base h F (set (map blk L))" using live_heap [OF assms(1) nth_mem [OF assms(2)]] by blast
  then have "allocated base h (set (map blk L))" by (simp add: heap_def)
  moreover have "blk (L ! i) \<noteq> blk (L ! j)"
    using assms nth_eq_iff_index_eq [of "map blk L" i j] by (simp add: live_ok_def)
  moreover have "blk (L ! i) \<in> set (map blk L)" "blk (L ! j) \<in> set (map blk L)" using assms(2,3) by simp_all
  ultimately have "extent (blk (L ! i)) \<inter> extent (blk (L ! j)) = {}" unfolding allocated_def by blast
  moreover have "body (L ! n) \<subseteq> extent (blk (L ! n))" if "n < length L" for n
    using live_body(3) [OF assms(1), of "fst (L ! n)" "fst (snd (L ! n))" "snd (snd (L ! n))"] nth_mem [OF that] by simp
  ultimately show ?thesis using assms(2,3) by blast
qed

text \<open>Blocks whose bytes are left alone keep the values stored in them.\<close>

lemma live_frame:
  assumes "live_ok base h L" "set M \<subseteq> set L" "distinct (map blk M)" "heap_inv base h' (set (map blk M))"
    "\<forall>i\<in>cells (set (map blk M)). umem h' i = umem h i"
  shows "live_ok base h' M"
proof -
  have "nb < 0x7FFFFFF0 \<and> (\<forall>k v. vs k = Some v \<longrightarrow> k < unat nb \<and> umem h' (unat r + k) = v)" if x: "(r, nb, vs) \<in> set M" for r nb vs
  proof -
    have xL: "(r, nb, vs) \<in> set L" using x assms(2) by blast
    have v: "nb < 0x7FFFFFF0" "\<forall>k v. vs k = Some v \<longrightarrow> k < unat nb \<and> umem h (unat r + k) = v"
      using assms(1) xL unfolding live_ok_def by blast+
    have "unat r + k \<in> cells (set (map blk M))" if "k < unat nb" for k
      using live_body(3) [OF assms(1) xL] extent_mem [of "blk (r, nb, vs)" "set (map blk M)"] x that by (force simp: body_def)
    then show ?thesis using v assms(5) by auto
  qed
  then show ?thesis using assms(3,4) unfolding live_ok_def by blast
qed

lemma malloc_live:
  assumes "live_ok base h L" "sbrk_ok sbrk" "nb < 0x7FFFFFF0"
  shows "\<exists>s. ustep sbrk base (Malloc nb) (h, L) = Some s \<and> live_ok base (fst s) (snd s)"
proof -
  let ?A = "set (map blk L)"
  have inv: "heap_inv base h ?A" "distinct (map blk L)" using assms(1) by (simp_all add: live_ok_def)
  obtain r h' where m: "malloc sbrk base nb h = Some (r, h')" "malloced base (units_of nb) h ?A r h'"
    using malloc_ok [OF inv(1) assms(2,3)] by blast
  show ?thesis
  proof (cases "r = 0")
    case True
    then have "live_ok base h' L" using m(2) inv(2)
      by (intro live_frame [OF assms(1)]) (auto simp: malloced_def heap_inv_def)
    then show ?thesis using m True by simp
  next
    case False
    let ?M = "(r, nb, Map.empty) # L"
    have k: "(r - 8, units_of nb) \<notin> ?A" "heap_inv base h' (insert (r - 8, units_of nb) ?A)"
      "\<forall>i\<in>cells ?A. umem h' i = umem h i"
      using m(2) False by (auto simp: malloced_def heap_inv_def)
    have "umem h' (unat x + i) = v" if "(x, y, vs) \<in> set L" "vs i = Some v" for x y vs i v
    proof -
      have "i < unat y \<and> umem h (unat x + i) = v" using assms(1) that unfolding live_ok_def by blast
      then show ?thesis using k(3) live_cells [OF assms(1) that(1), of i] by auto
    qed
    moreover have "y < 0x7FFFFFF0 \<and> (\<forall>i v. vs i = Some v \<longrightarrow> i < unat y)" if "(x, y, vs) \<in> set L" for x y vs
      using assms(1) that unfolding live_ok_def by blast
    ultimately have "\<forall>(x, y, vs)\<in>set ?M. y < 0x7FFFFFF0 \<and> (\<forall>i v. vs i = Some v \<longrightarrow> i < unat y \<and> umem h' (unat x + i) = v)"
      using assms(3) by auto
    then have "live_ok base h' ?M" using k(1,2) inv(2) unfolding live_ok_def by (simp add: blk_def)
    then show ?thesis using m False by simp
  qed
qed

lemma free_live:
  assumes "live_ok base h L"
  shows "\<exists>s. ustep sbrk base (Free i) (h, L) = Some s \<and> live_ok base (fst s) (snd s)"
proof (cases "i < length L")
  case True
  let ?A = "set (map blk L)" and ?M = "take i L @ drop (Suc i) L"
  obtain r nb vs where x: "L ! i = (r, nb, vs)" by (cases "L ! i")
  then have xL: "(r, nb, vs) \<in> set L" using True nth_mem by metis
  then have b: "(r - 8, units_of nb) \<in> ?A" by (force simp: blk_def)
  obtain F where h: "heap base h F ?A" using live_heap [OF assms xL] by blast
  obtain h' F' where f: "free (r - 8 + 8) h = Some h'" "heap base h' F' (?A - {(r - 8, units_of nb)})"
    "\<forall>i\<in>cells (?A - {(r - 8, units_of nb)}). umem h' i = umem h i"
    using free_ok [OF h b] by blast
  have L: "L = take i L @ (r, nb, vs) # drop (Suc i) L" using id_take_nth_drop [OF True] x by simp
  have "distinct (map blk (take i L @ (r, nb, vs) # drop (Suc i) L))" using assms L by (simp add: live_ok_def)
  then have d: "distinct (map blk ?M)" "(r - 8, units_of nb) \<notin> set (map blk ?M)" by (auto simp: blk_def)
  moreover have "?A = insert (r - 8, units_of nb) (set (map blk ?M))" by (subst L) (simp add: blk_def)
  ultimately have A: "?A - {(r - 8, units_of nb)} = set (map blk ?M)" by simp
  have "set ?M \<subseteq> set L" by (auto dest: in_set_takeD in_set_dropD)
  then have "live_ok base h' ?M" using f(2,3) d(1) unfolding A
    by (intro live_frame [OF assms]) (auto simp: heap_inv_def)
  then show ?thesis using f(1) True x by simp
qed (use assms in simp)

lemma store_live:
  assumes "live_ok base h L"
  shows "\<exists>s. ustep sbrk base (Store i k v) (h, L) = Some s \<and> live_ok base (fst s) (snd s)"
proof (cases "i < length L \<and> k < unat (fst (snd (L ! i)))")
  case True
  obtain r nb vs where x: "L ! i = (r, nb, vs)" by (cases "L ! i")
  then have xL: "(r, nb, vs) \<in> set L" and k: "k < unat nb" using True nth_mem [of i L] by auto
  let ?h = "h\<lparr>umem := (umem h)(unat r + k := v)\<rparr>" and ?M = "L[i := (r, nb, vs(k \<mapsto> v))]"
  have b: "(r - 8, units_of nb) \<in> set (map blk L)" using xL by (force simp: blk_def)
  have mb: "map blk ?M = map blk L"
  proof (rule nth_equalityI)
    show "map blk ?M ! j = map blk L ! j" if "j < length (map blk ?M)" for j
      using that x by (cases "j = i") (auto simp: blk_def)
  qed simp
  obtain F where h: "heap base h F (set (map blk L))" using live_heap [OF assms xL] by blast
  have "heap base ?h F (set (map blk L))"
    using heap_store [OF h b, of "unat r + k"] live_body(1,2) [OF assms xL] k by simp
  then have "heap_inv base ?h (set (map blk ?M))" unfolding mb by (auto simp: heap_inv_def)
  moreover have "nb' < 0x7FFFFFF0 \<and> (\<forall>j w. vs' j = Some w \<longrightarrow> j < unat nb' \<and> umem ?h (unat r' + j) = w)"
    if y: "(r', nb', vs') \<in> set ?M" for r' nb' vs'
  proof -
    obtain n where n: "n < length L" "?M ! n = (r', nb', vs')" using y unfolding in_set_conv_nth length_list_update by metis
    obtain r1 nb1 vs1 where e: "L ! n = (r1, nb1, vs1)" by (cases "L ! n")
    have "(r1, nb1, vs1) \<in> set L" using nth_mem [OF n(1)] e by simp
    then have old: "nb1 < 0x7FFFFFF0" "\<And>j w. vs1 j = Some w \<Longrightarrow> j < unat nb1 \<and> umem h (unat r1 + j) = w"
      using assms unfolding live_ok_def by blast+
    show ?thesis
    proof (cases "n = i")
      case eq: True
      then have "r1 = r" "nb1 = nb" "vs1 = vs" "r' = r" "nb' = nb" "vs' = vs(k \<mapsto> v)" using n e x by simp_all
      then show ?thesis using old k by simp
    next
      case False
      then have e': "r1 = r'" "nb1 = nb'" "vs1 = vs'" using n e by simp_all
      have "unat r + k \<in> body (L ! i)" using k x by (simp add: body_def)
      then have "unat r + k \<notin> body (L ! n)" using live_disjoint [OF assms n(1) _ False] True by blast
      then have "unat r' + j \<noteq> unat r + k" if "j < unat nb'" for j using that by (auto simp: e e' body_def)
      then show ?thesis using old unfolding e' by simp
    qed
  qed
  ultimately have "live_ok base ?h ?M" using assms unfolding live_ok_def mb by blast
  then show ?thesis using True x k by simp
next
  case False
  then show ?thesis using assms by (cases "L ! i") auto
qed

lemma urun_live:
  assumes "sbrk_ok sbrk"
  shows "live_ok base h L \<Longrightarrow> \<forall>nb. Malloc nb \<in> set ops \<longrightarrow> nb < 0x7FFFFFF0 \<Longrightarrow>
    \<exists>s. urun sbrk base ops (h, L) = Some s \<and> live_ok base (fst s) (snd s)"
proof (induction ops arbitrary: h L)
  case (Cons op ops)
  have "\<exists>s. ustep sbrk base op (h, L) = Some s \<and> live_ok base (fst s) (snd s)"
  proof (cases op)
    case (Malloc nb)
    then show ?thesis using malloc_live [OF Cons.prems(1) assms, of nb] Cons.prems(2) by simp
  next
    case (Free i)
    then show ?thesis using free_live [OF Cons.prems(1)] by blast
  next
    case (Store i k v)
    then show ?thesis using store_live [OF Cons.prems(1)] by blast
  qed
  then obtain h' L' where "ustep sbrk base op (h, L) = Some (h', L')" "live_ok base h' L'" by auto
  then show ?case using Cons.IH [of h' L'] Cons.prems(2) by simp
qed simp

text \<open>
  C36: user programs can rely on \<open>malloc\<close> and \<open>free\<close>. Start with an empty heap, \<open>base\<close> below the
  break and the break within the user address space, and let a program make any sequence of calls of
  \<open>malloc\<close> for less than \<open>2 ^ 31 - 16\<close> bytes, calls of \<open>free\<close> on blocks it still holds, in any order,
  and stores into the blocks it holds. When \<open>sbrk\<close> behaves as documented, every call returns
  (the loops over the ring of free blocks end), every block held lies between \<open>base\<close> and
  the break with room for all the bytes asked for, no two blocks held overlap, and every byte
  stored in a block and not overwritten is still there.
\<close>
theorem malloc_free_history:
  assumes "sbrk_ok sbrk" "freep h = 0" "base \<noteq> 0" "unat base + 8 \<le> unat (brk h)" "unat (brk h) \<le> USERTOP"
    and "\<forall>nb. Malloc nb \<in> set ops \<longrightarrow> nb < 0x7FFFFFF0"
  shows "\<exists>h' L. urun sbrk base ops (h, []) = Some (h', L)
    \<and> (\<forall>(r, nb, vs)\<in>set L. unat base + 8 \<le> unat r \<and> unat r + unat nb \<le> unat (brk h')
         \<and> (\<forall>k v. vs k = Some v \<longrightarrow> umem h' (unat r + k) = v))
    \<and> (\<forall>i<length L. \<forall>j<length L. i \<noteq> j \<longrightarrow> body (L ! i) \<inter> body (L ! j) = {})"
proof -
  have "live_ok base h []" using assms(2-5) by (simp add: live_ok_def heap_inv_def)
  then obtain h' L where r: "urun sbrk base ops (h, []) = Some (h', L)" and l: "live_ok base h' L"
    using urun_live [OF assms(1) _ assms(6)] by fastforce
  have "unat base + 8 \<le> unat r \<and> unat r + unat nb \<le> unat (brk h') \<and> (\<forall>k v. vs k = Some v \<longrightarrow> umem h' (unat r + k) = v)"
    if x: "(r, nb, vs) \<in> set L" for r nb vs
  proof -
    obtain F where "heap base h' F (set (map blk L))" using live_heap [OF l x] by blast
    then have "allocated base h' (set (map blk L))" by (simp add: heap_def)
    moreover have "(r - 8, units_of nb) \<in> set (map blk L)" using x by (force simp: blk_def)
    ultimately have "unat base + 8 \<le> unat (r - 8) \<and> unat (r - 8) + 8 * unat (units_of nb) \<le> unat (brk h')"
      unfolding allocated_def by blast
    moreover have "\<forall>k v. vs k = Some v \<longrightarrow> umem h' (unat r + k) = v" using l x unfolding live_ok_def by blast
    ultimately show ?thesis using live_body(1,2) [OF l x] by simp
  qed
  then show ?thesis using r live_disjoint [OF l] by blast
qed

text \<open>The system call of \<open>kernel/sysproc.c\<close> seen from a program: new memory is zeroed.\<close>

definition sbrk_sample :: sbrk_call where
  "sbrk_sample n h =
     (if unat (brk h) + unat n \<le> USERTOP
      then (brk h, h\<lparr>brk := brk h + n, umem := (\<lambda>i. if unat (brk h) \<le> i then 0 else umem h i)\<rparr>) else (- 1, h))"

lemma sbrk_sample_ok: "sbrk_ok sbrk_sample"
  by (auto simp: sbrk_ok_def sbrk_sample_def split: if_splits)

definition ops_sample :: "uop list" where
  "ops_sample = [Malloc 20, Malloc 5, Store 1 3 7, Free 0, Malloc 100000, Store 1 4 9]"

theorem malloc_free_history_witness:
  "\<exists>h' L. urun sbrk_sample 0x900 ops_sample (\<lparr>umem = (\<lambda>_. 0), freep = 0, brk = 0x1000\<rparr>, []) = Some (h', L)
     \<and> (\<forall>i<length L. \<forall>j<length L. i \<noteq> j \<longrightarrow> body (L ! i) \<inter> body (L ! j) = {})"
  using malloc_free_history [OF sbrk_sample_ok, of "\<lparr>umem = (\<lambda>_. 0), freep = 0, brk = 0x1000\<rparr>" "0x900" ops_sample]
  by (auto simp: ops_sample_def)

end
