(* ===== verification/Mkfs.thy ===== *)
theory Mkfs
  imports Fs_Content "HOL-Library.Monad_Syntax"
begin

text \<open>
  The builder of the file system image, \<open>tools/mkfs.c\<close>. The state is the image, sector by sector,
  with its length, and the program's counters; \<open>None\<close> is an exit with a failure (a failed
  assertion, a read past the end of the image). The directory tree of the host is an argument; its
  calls to open and read it are taken to succeed and a read to return a full buffer while there
  is one. The checks of the command line and the messages to the terminal are left out.
\<close>

record mkst =
  fsimg :: "uint \<Rightarrow> bytes"
  fsend :: nat
  freeblock :: uint
  usedblocks :: uint
  freeinode :: uint

section \<open>Byte order, sectors and inodes\<close>

text \<open>The word whose bytes in memory are those of \<open>x\<close> from the low one up.\<close>

definition xshort :: "ushort \<Rightarrow> ushort" where
  "xshort x = rd16 ((\<lambda>_. 0)(0 := ucast x, 1 := ucast (drop_bit 8 x))) 0"

definition xint :: "uint \<Rightarrow> uint" where
  "xint x = rd32 ((\<lambda>_. 0)(0 := ucast x, 1 := ucast (drop_bit 8 x), 2 := ucast (drop_bit 16 x), 3 := ucast (drop_bit 24 x))) 0"

definition wsect :: "uint \<Rightarrow> bytes \<Rightarrow> mkst \<Rightarrow> mkst option" where
  "wsect sec buf s = Some (s\<lparr>fsimg := (fsimg s)(sec := sect buf), fsend := max (fsend s) (unat sec + 1)\<rparr>)"

definition rsect :: "uint \<Rightarrow> mkst \<Rightarrow> bytes option" where
  "rsect sec s = (if unat sec < fsend s then Some (fsimg s sec) else None)"

definition i2b :: "uint \<Rightarrow> uint" where
  "i2b inum = inum div of_nat IPB + 2"

text \<open>A \<open>struct dinode\<close> is its 64 bytes.\<close>

definition winode :: "uint \<Rightarrow> bytes \<Rightarrow> mkst \<Rightarrow> mkst option" where
  "winode inum ip s = do {
     buf \<leftarrow> rsect (i2b inum) s;
     wsect (i2b inum) (memmove_obj buf (64 * (unat inum mod IPB)) ip 0 64) s
   }"

definition rinode :: "uint \<Rightarrow> mkst \<Rightarrow> bytes option" where
  "rinode inum s = do {
     buf \<leftarrow> rsect (i2b inum) s;
     Some (memmove_obj (\<lambda>_. 0) 0 buf (64 * (unat inum mod IPB)) 64)
   }"

definition din_size :: "bytes \<Rightarrow> uint" where
  "din_size d = rd32 d 8"

definition din_addr :: "bytes \<Rightarrow> nat \<Rightarrow> uint" where
  "din_addr d k = rd32 d (12 + 4 * k)"

definition ialloc_mk :: "ushort \<Rightarrow> mkst \<Rightarrow> (uint \<times> mkst) option" where
  "ialloc_mk type s = do {
     let inum = freeinode s;
     let din = wr32 (wr16 (wr16 (\<lambda>_. 0) 0 (xshort type)) 6 (xshort 1)) 8 (xint 0);
     s \<leftarrow> winode inum din (s\<lparr>freeinode := freeinode s + 1\<rparr>);
     Some (inum, s)
   }"

section \<open>Appending to a file\<close>

definition new_block :: "mkst \<Rightarrow> uint \<times> mkst" where
  "new_block s = (freeblock s, s\<lparr>freeblock := freeblock s + 1, usedblocks := usedblocks s + 1\<rparr>)"

text \<open>The block \<open>fbn\<close> of the file, with the inode, which gets an address if it has none.\<close>

definition block_of :: "bytes \<Rightarrow> nat \<Rightarrow> mkst \<Rightarrow> (uint \<times> bytes \<times> mkst) option" where
  "block_of din fbn s =
     (if fbn < NDIRECT then
        let (din, s) =
          (if xint (din_addr din fbn) = 0
           then let (b, s) = new_block s in (wr32 din (12 + 4 * fbn) (xint b), s) else (din, s))
        in Some (xint (din_addr din fbn), din, s)
      else
        let (din, s) =
          (if xint (din_addr din NDIRECT) = 0
           then let (b, s) = new_block s in (wr32 din (12 + 4 * NDIRECT) (xint b), s) else (din, s))
        in do {
          indirect \<leftarrow> rsect (xint (din_addr din NDIRECT)) s;
          (indirect, s) \<leftarrow>
            (if rd32 indirect (4 * (fbn - NDIRECT)) = 0 then do {
               let (b, s) = new_block s;
               let indirect = wr32 indirect (4 * (fbn - NDIRECT)) (xint b);
               s \<leftarrow> wsect (xint (din_addr din NDIRECT)) indirect s;
               Some (indirect, s)
             } else Some (indirect, s));
          Some (xint (rd32 indirect (4 * (fbn - NDIRECT))), din, s)
        })"

text \<open>The loop over the bytes \<open>p\<close> left to append.\<close>

function iappend_loop :: "bytes \<Rightarrow> nat \<Rightarrow> uchar list \<Rightarrow> mkst \<Rightarrow> (bytes \<times> nat \<times> mkst) option" where
  "iappend_loop din off p s =
     (if p = [] then Some (din, off, s)
      else if \<not> off div 512 < MAXFILE then None
      else do {
        (x, din, s) \<leftarrow> block_of din (off div 512) s;
        let n1 = min (length p) ((off div 512 + 1) * 512 - off);
        buf \<leftarrow> rsect x s;
        s \<leftarrow> wsect x (memmove_obj buf (off - off div 512 * 512) (\<lambda>i. if i < length p then p ! i else 0) 0 n1) s;
        iappend_loop din (off + n1) (drop n1 p) s
      })"
  by pat_completeness auto
termination
proof (relation "measure (\<lambda>(din, off, p, s). length p)")
  fix din :: bytes and off :: nat and p :: "uchar list" and s and y :: "uint \<times> bytes \<times> mkst" and x z din' s' n1 buf and s'' :: mkst
  assume "p \<noteq> []" "n1 = min (length p) ((off div 512 + 1) * 512 - off)"
  moreover have "off < (off div 512 + 1) * 512" by simp
  ultimately show "((din', off + n1, drop n1 p, s''), din, off, p, s) \<in> measure (\<lambda>(din, off, p, s). length p)"
    by auto
qed simp

declare iappend_loop.simps [simp del]

definition iappend :: "uint \<Rightarrow> uchar list \<Rightarrow> mkst \<Rightarrow> mkst option" where
  "iappend inum p s = do {
     din \<leftarrow> rinode inum s;
     (din, off, s) \<leftarrow> iappend_loop din (unat (xint (din_size din))) p s;
     winode inum (wr32 din 8 (xint (of_nat off))) s
   }"

section \<open>The free map\<close>

definition balloc_mk :: "nat \<Rightarrow> uint \<Rightarrow> mkst \<Rightarrow> mkst option" where
  "balloc_mk n ninodes s =
     (if n < 512 * 8
      then wsect (ninodes div of_nat IPB + 3)
        (fold (\<lambda>i buf. buf(i div 8 := buf (i div 8) OR push_bit (i mod 8) 1)) [0..<n] (\<lambda>_. 0)) s
      else None)"

section \<open>Directories\<close>

text \<open>The tree of the host: files with their bytes, directories with their entries in order.\<close>

datatype host = HFile "uchar list" | HDir hentries
and hentries = ENil | ECons string host hentries

abbreviation (input) DIRSIZ_mk :: nat where "DIRSIZ_mk \<equiv> 14"

text \<open>A directory entry: the number and the name, cut or padded with zeros to 14 bytes.\<close>

definition dirent :: "uint \<Rightarrow> string \<Rightarrow> uchar list" where
  "dirent inum name =
     [ucast (xshort (ucast inum)), ucast (drop_bit 8 (xshort (ucast inum)))]
     @ take DIRSIZ_mk (map of_char name @ replicate DIRSIZ_mk 0)"

fun append_file :: "uint \<Rightarrow> uchar list \<Rightarrow> mkst \<Rightarrow> mkst option" where
  "append_file inum p s =
     (if p = [] then Some s
      else do {
        s \<leftarrow> iappend inum (take 512 p) s;
        append_file inum (drop 512 p) s
      })"

declare append_file.simps [simp del]

definition fix_size :: "uint \<Rightarrow> mkst \<Rightarrow> mkst option" where
  "fix_size inum s = do {
     din \<leftarrow> rinode inum s;
     winode inum (wr32 din 8 (xint ((xint (din_size din) div 512 + 1) * 512))) s
   }"

function add_dir :: "hentries \<Rightarrow> uint \<Rightarrow> uint \<Rightarrow> mkst \<Rightarrow> mkst option"
and add_loop :: "hentries \<Rightarrow> uint \<Rightarrow> mkst \<Rightarrow> mkst option" where
  "add_dir es me parent s = do {
     s \<leftarrow> iappend me (dirent me ''.'') s;
     s \<leftarrow> iappend me (dirent parent ''..'') s;
     s \<leftarrow> add_loop es me s;
     fix_size me s
   }"
| "add_loop ENil me s = Some s"
| "add_loop (ECons name h es) me s =
     (if name = ''.'' \<or> name = ''..'' then add_loop es me s
      else do {
        (child, s) \<leftarrow>
          (case h of
             HDir es' \<Rightarrow> do {
               (child, s) \<leftarrow> ialloc_mk T_DIR s;
               s \<leftarrow> add_dir es' child me s;
               Some (child, s)
             }
           | HFile p \<Rightarrow> do {
               (child, s) \<leftarrow> ialloc_mk T_FILE s;
               s \<leftarrow> append_file child p s;
               Some (child, s)
             });
        s \<leftarrow> iappend me (dirent child name) s;
        add_loop es me s
      })"
  by pat_completeness auto
termination
  by (relation "measure (case_sum (\<lambda>(es, _). 2 * size es + 1) (\<lambda>(es, _). 2 * size es))") auto

section \<open>The program\<close>

definition mkfs :: "int \<Rightarrow> int \<Rightarrow> int \<Rightarrow> mkst \<Rightarrow> mkst option" where
  "mkfs nblocks ninodes sz s =
     (let bitblocks = of_int (sz div (512 * 8) + 1) :: uint;
          used = of_int (ninodes div int IPB) + 3 + bitblocks;
          s = s\<lparr>usedblocks := used, freeblock := used\<rparr>
      in if of_int nblocks + used \<noteq> of_int sz then None
         else do {
           s \<leftarrow> fold (\<lambda>i s. Option.bind s (wsect (of_nat i) (\<lambda>_. 0))) [0..<unat (of_int nblocks + used)] (Some s);
           wsect 1 (wr32 (wr32 (wr32 (\<lambda>_. 0) 0 (xint (of_int sz))) 4 (xint (of_int nblocks))) 8 (xint (of_int ninodes))) s
         })"

abbreviation (input) ROOTINO_mk :: uint where "ROOTINO_mk \<equiv> 1"

definition mkfs_main :: "hentries \<Rightarrow> mkst option" where
  "mkfs_main es = do {
     s \<leftarrow> mkfs 995 200 1024 \<lparr>fsimg = (\<lambda>_ _. 0), fsend = 0, freeblock = 0, usedblocks = 0, freeinode = 1\<rparr>;
     (root, s) \<leftarrow> ialloc_mk T_DIR s;
     if root \<noteq> ROOTINO_mk then None
     else do {
       s \<leftarrow> add_dir es root root s;
       balloc_mk (unat (usedblocks s)) 200 s
     }
   }"

section \<open>The blocks of a file\<close>

lemma xint_id [simp]: "xint x = x"
proof -
  have "xint x = rd32 (wr32 (\<lambda>_. 0) 0 x) 0" by (simp add: xint_def wr32_def numeral_2_eq_2 numeral_3_eq_3)
  then show ?thesis by simp
qed

lemma xshort_id [simp]: "xshort x = x"
proof -
  have "xshort x = rd16 (wr16 (\<lambda>_. 0) 0 x) 0" by (simp add: xshort_def wr16_def)
  then show ?thesis by simp
qed

text \<open>Block \<open>bn\<close> of the file of the inode \<open>d\<close>, the blocks it owns and its byte \<open>x\<close>.\<close>

type_synonym image = "uint \<Rightarrow> bytes"

definition adr :: "image \<Rightarrow> bytes \<Rightarrow> nat \<Rightarrow> uint" where
  "adr img d bn = (if bn < NDIRECT then din_addr d bn else if din_addr d NDIRECT = 0 then 0
     else rd32 (img (din_addr d NDIRECT)) (4 * (bn - NDIRECT)))"

definition fown :: "image \<Rightarrow> bytes \<Rightarrow> uint set" where
  "fown img d = {a. a \<noteq> 0 \<and> (a = din_addr d NDIRECT \<or> (\<exists>bn<MAXFILE. a = adr img d bn))}"

definition fbyte :: "image \<Rightarrow> bytes \<Rightarrow> nat \<Rightarrow> uchar" where
  "fbyte img d x = (if adr img d (x div 512) = 0 then 0 else img (adr img d (x div 512)) (x mod 512))"

text \<open>
  The file has its first \<open>nb\<close> blocks and no others, all different and between the free map and
  block \<open>fb\<close>, and the indirect block when it needs it; its bytes are \<open>xs\<close>, then zeros.
\<close>

abbreviation (input) data_start :: nat where "data_start \<equiv> 29"

definition fblk :: "image \<Rightarrow> nat \<Rightarrow> bytes \<Rightarrow> nat \<Rightarrow> bool" where
  "fblk img fb d nb \<longleftrightarrow> nb \<le> MAXFILE \<and> (\<forall>bn<MAXFILE. adr img d bn \<noteq> 0 \<longleftrightarrow> bn < nb) \<and> (din_addr d NDIRECT \<noteq> 0 \<longleftrightarrow> nb > NDIRECT)
     \<and> (\<forall>a\<in>fown img d. data_start \<le> unat a \<and> unat a < fb)
     \<and> (\<forall>bn<nb. adr img d bn \<noteq> din_addr d NDIRECT \<and> (\<forall>bm<nb. adr img d bm = adr img d bn \<longrightarrow> bm = bn))"

definition fcont :: "image \<Rightarrow> bytes \<Rightarrow> uchar list \<Rightarrow> bool" where
  "fcont img d xs \<longleftrightarrow> (\<forall>x<MAXFILE * 512. fbyte img d x = (if x < length xs then xs ! x else 0))"

lemma adr_cong:
  assumes "\<And>a. a \<in> fown img d \<Longrightarrow> img' a = img a"
  shows "adr img' d bn = adr img d bn"
proof (cases "bn < NDIRECT \<or> din_addr d NDIRECT = 0")
  case False
  then have "din_addr d NDIRECT \<in> fown img d" by (simp add: fown_def)
  then show ?thesis using False assms by (simp add: adr_def)
qed (auto simp: adr_def)

lemma fown_cong: "(\<And>a. a \<in> fown img d \<Longrightarrow> img' a = img a) \<Longrightarrow> fown img' d = fown img d"
  using adr_cong [of img d img'] by (simp add: fown_def)

lemma file_frame:
  assumes "\<And>a. a \<in> fown img d \<Longrightarrow> img' a = img a"
  shows "fown img' d = fown img d" "fblk img fb d nb \<Longrightarrow> fb \<le> fb' \<Longrightarrow> fblk img' fb' d nb" "fcont img d xs \<Longrightarrow> fcont img' d xs"
proof -
  note a = adr_cong [OF assms] and o = fown_cong [OF assms]
  show "fown img' d = fown img d" by (rule o) simp
  then show "fblk img fb d nb \<Longrightarrow> fb \<le> fb' \<Longrightarrow> fblk img' fb' d nb" by (auto simp: fblk_def a)
  have "fbyte img' d x = fbyte img d x" if "x < MAXFILE * 512" for x
  proof (cases "adr img d (x div 512) = 0")
    case False
    have "x div 512 < MAXFILE" using that by (simp add: less_mult_imp_div_less)
    then have "adr img d (x div 512) \<in> fown img d" using False by (auto simp: fown_def)
    then show ?thesis by (simp add: fbyte_def a assms)
  qed (simp add: fbyte_def a)
  then show "fcont img d xs \<Longrightarrow> fcont img' d xs" by (simp add: fcont_def)
qed

text \<open>Adding block \<open>nb\<close>, with the indirect block when it is the first that needs it.\<close>

definition added :: "image \<Rightarrow> nat \<Rightarrow> bytes \<Rightarrow> nat \<Rightarrow> image \<Rightarrow> nat \<Rightarrow> bytes \<Rightarrow> bool" where
  "added img fb d nb img' x d' \<longleftrightarrow>
     x = fb + (if nb = NDIRECT then 1 else 0) \<and> din_addr d' NDIRECT = (if nb = NDIRECT then of_nat fb else din_addr d NDIRECT)
     \<and> (\<forall>bm<MAXFILE. adr img' d' bm = (if bm = nb then of_nat x else adr img d bm))
     \<and> (\<forall>a. a = 0 \<or> a \<noteq> din_addr d' NDIRECT \<longrightarrow> img' a = img a)"

lemma small_sector: "n < 1024 \<Longrightarrow> unat (of_nat n :: uint) = n"
  by (simp add: unat_of_nat_small)

lemma small_nz: "n < 1024 \<Longrightarrow> 0 < n \<Longrightarrow> (of_nat n :: uint) \<noteq> 0"
  using small_sector [of n] by (auto simp: word_unat_eq_iff)

lemma added_x: "added img fb d nb img' x d' \<Longrightarrow> fb \<le> x \<and> x \<le> Suc fb"
  by (simp add: added_def)

lemma added_own:
  assumes a: "added img fb d nb img' x d'" and "nb < MAXFILE" and f: "fblk img fb d nb" and "0 < fb" "x < 1024"
  shows "fown img' d' = fown img d \<union> {of_nat x} \<union> (if nb = NDIRECT then {of_nat fb} else {})"
proof -
  have nz: "(of_nat x :: uint) \<noteq> 0" "(of_nat fb :: uint) \<noteq> 0"
    using added_x [OF a] assms(4,5) by (simp_all add: small_nz)
  have ad: "adr img' d' bm = (if bm = nb then of_nat x else adr img d bm)" if "bm < MAXFILE" for bm
    using a that by (simp add: added_def)
  have z: "adr img d nb = 0" using assms(2) f by (auto simp: fblk_def)
  have e: "(\<exists>bn<MAXFILE. y = adr img' d' bn) \<longleftrightarrow> y = of_nat x \<or> (\<exists>bn<MAXFILE. y = adr img d bn)" if "y \<noteq> 0" for y
    using ad assms(2) z that by (metis (full_types))
  have i: "din_addr d' NDIRECT = (if nb = NDIRECT then of_nat fb else din_addr d NDIRECT)" using a by (simp add: added_def)
  have i0: "nb = NDIRECT \<Longrightarrow> din_addr d NDIRECT = 0" using f by (auto simp: fblk_def)
  have "y \<in> fown img' d' \<longleftrightarrow> y \<in> fown img d \<union> {of_nat x} \<union> (if nb = NDIRECT then {of_nat fb} else {})" for y
  proof (cases "y = 0")
    case False
    then show ?thesis using i0 by (simp add: fown_def e [OF False] i) blast
  qed (use nz in \<open>simp add: fown_def\<close>)
  then show ?thesis by blast
qed

lemma fblk_adr:
  assumes "fblk img fb d nb" "bm < nb"
  shows "adr img d bm \<noteq> 0" "adr img d bm \<in> fown img d" "unat (adr img d bm) < fb" "adr img d bm \<noteq> din_addr d NDIRECT"
proof -
  have "bm < MAXFILE" using assms by (auto simp: fblk_def)
  then show "adr img d bm \<noteq> 0" "adr img d bm \<noteq> din_addr d NDIRECT" using assms by (auto simp: fblk_def)
  then show "adr img d bm \<in> fown img d" using \<open>bm < MAXFILE\<close> by (auto simp: fown_def)
  then show "unat (adr img d bm) < fb" using assms(1) by (simp add: fblk_def)
qed

lemma fblk_inj:
  assumes "fblk img fb d nb" "bm < MAXFILE" "bn < nb" "adr img d bm = adr img d bn"
  shows "bm = bn"
proof -
  have "adr img d bm \<noteq> 0" using fblk_adr(1) [OF assms(1,3)] assms(4) by simp
  then have "bm < nb" using assms(1,2) unfolding fblk_def by blast
  then show ?thesis using assms(1,3,4) unfolding fblk_def by blast
qed

lemma fblk_none: "fblk img fb d nb \<Longrightarrow> nb \<le> bn \<Longrightarrow> bn < MAXFILE \<Longrightarrow> adr img d bn = 0"
  by (auto simp: fblk_def)

lemma fblk_ind: "fblk img fb d nb \<Longrightarrow> 0 < fb \<Longrightarrow> unat (din_addr d NDIRECT) < fb"
  by (cases "din_addr d NDIRECT = 0") (auto simp: fblk_def fown_def)

lemma added_blk:
  assumes a: "added img fb d nb img' x d'" and "nb < MAXFILE" and f: "fblk img fb d nb" and "data_start \<le> fb" "x < 1024"
  shows "fblk img' (Suc x) d' (Suc nb)"
proof -
  have fb: "0 < fb" "fb \<le> x" using added_x [OF a] assms(4) by simp_all
  have u: "unat (of_nat x :: uint) = x" "unat (of_nat fb :: uint) = fb"
    using fb assms(5) by (simp_all add: small_sector)
  note own = added_own [OF a assms(2) f fb(1) assms(5)] and old = fblk_adr [OF f]
  have r: "data_start \<le> unat y \<and> unat y < fb" if "y \<in> fown img d" for y using f that by (simp add: fblk_def)
  have rng: "\<forall>y\<in>fown img' d'. data_start \<le> unat y \<and> unat y < Suc x"
  proof
    fix y assume "y \<in> fown img' d'"
    then consider "y \<in> fown img d" | "y = of_nat x" | "y = of_nat fb" unfolding own by (auto split: if_splits)
    then show "data_start \<le> unat y \<and> unat y < Suc x" using r [of y] fb assms(4) u by cases auto
  qed
  have ad: "adr img' d' bm = (if bm = nb then of_nat x else adr img d bm)" if "bm < MAXFILE" for bm
    using a that by (simp add: added_def)
  have ind: "din_addr d' NDIRECT = (if nb = NDIRECT then of_nat fb else din_addr d NDIRECT)" "nb = NDIRECT \<Longrightarrow> x = Suc fb"
    using a by (simp_all add: added_def)
  have xi: "of_nat x \<noteq> din_addr d' NDIRECT"
    using u fb fblk_ind [OF f fb(1)] ind by (cases "nb = NDIRECT") (auto simp: word_unat_eq_iff)
  have oi: "adr img d bm \<noteq> din_addr d' NDIRECT" if "bm < nb" for bm
    using old(3,4) [OF that] u(2) ind(1) by (cases "nb = NDIRECT") auto
  have xn: "adr img d bm \<noteq> of_nat x" if "bm < nb" for bm using old(3) [OF that] u(1) fb by auto
  show ?thesis unfolding fblk_def
  proof (intro conjI rng)
    show "Suc nb \<le> MAXFILE" using assms(2) by simp
    have "(adr img' d' bn \<noteq> 0) = (bn < Suc nb)" if "bn < MAXFILE" for bn
      using f that small_nz [OF assms(5)] fb by (cases "bn = nb") (auto simp: ad fblk_def)
    then show "\<forall>bn<MAXFILE. (adr img' d' bn \<noteq> 0) = (bn < Suc nb)" by blast
    show "(din_addr d' NDIRECT \<noteq> 0) = (NDIRECT < Suc nb)"
      using f small_nz [of fb] fb assms(5) by (cases "nb = NDIRECT") (auto simp: ind(1) fblk_def)
    show "\<forall>bn<Suc nb. adr img' d' bn \<noteq> din_addr d' NDIRECT \<and> (\<forall>bm<Suc nb. adr img' d' bm = adr img' d' bn \<longrightarrow> bm = bn)"
    proof (intro allI impI)
      fix bn assume bn: "bn < Suc nb"
      have "bm = bn" if "bm < Suc nb" "adr img' d' bm = adr img' d' bn" for bm
        using that bn xn [of bm] xn [of bn] f assms(2) by (cases "bm = nb"; cases "bn = nb") (auto simp: ad fblk_def)
      moreover have "adr img' d' bn \<noteq> din_addr d' NDIRECT"
        using bn xi oi [of bn] assms(2) by (cases "bn = nb") (auto simp: ad)
      ultimately show "adr img' d' bn \<noteq> din_addr d' NDIRECT \<and> (\<forall>bm<Suc nb. adr img' d' bm = adr img' d' bn \<longrightarrow> bm = bn)" by blast
    qed
  qed
qed

lemma added_cont:
  assumes a: "added img fb d nb img' x d'" and "nb < MAXFILE" and f: "fblk img fb d nb" "fcont img d xs" and "data_start \<le> fb" "x < 1024"
    and z: "\<And>a. fb \<le> unat a \<Longrightarrow> img a = (\<lambda>_. 0)"
  shows "fcont img' d' xs"
proof -
  have fb: "fb \<le> x" using added_x [OF a] by simp
  have u: "unat (of_nat x :: uint) = x" using assms(6) by (simp add: small_sector)
  note new = added_blk [OF a assms(2) f(1) assms(5,6)]
  have "fbyte img' d' y = fbyte img d y" if "y < MAXFILE * 512" for y
  proof -
    let ?b = "y div 512"
    have b: "?b < MAXFILE" using that by (simp add: less_mult_imp_div_less)
    have ad: "adr img' d' ?b = (if ?b = nb then of_nat x else adr img d ?b)" using a b by (simp add: added_def)
    show ?thesis
    proof (cases "adr img' d' ?b = 0")
      case True
      then have "adr img d ?b = 0" using ad new b small_nz [OF assms(6)] fb assms(5) by (cases "?b = nb") auto
      then show ?thesis using True by (simp add: fbyte_def)
    next
      case False
      then have "?b < Suc nb" using new b unfolding fblk_def by blast
      then have "adr img' d' ?b \<noteq> din_addr d' NDIRECT" using fblk_adr(4) [OF new] by blast
      then have i: "img' (adr img' d' ?b) = img (adr img' d' ?b)" using a by (simp add: added_def)
      show ?thesis
      proof (cases "?b = nb")
        case True
        then have "adr img d ?b = 0" using f(1) b by (auto simp: fblk_def)
        moreover have "img (adr img' d' ?b) = (\<lambda>_. 0)" using True ad u fb by (intro z) simp
        ultimately show ?thesis using i by (simp add: fbyte_def)
      next
        case eq: False
        then show ?thesis using False i ad by (simp add: fbyte_def)
      qed
    qed
  qed
  then show ?thesis using f(2) by (simp add: fcont_def)
qed

text \<open>The program with blocks below \<open>fb\<close> handed out: the rest of the image is still zero.\<close>

definition mks :: "mkst \<Rightarrow> nat \<Rightarrow> bool" where
  "mks s fb \<longleftrightarrow> fsend s = 1024 \<and> unat (freeblock s) = fb \<and> usedblocks s = freeblock s \<and> data_start \<le> fb \<and> fb \<le> 1024
     \<and> (\<forall>a. fb \<le> unat a \<longrightarrow> fsimg s a = (\<lambda>_. 0)) \<and> (\<forall>a. sect (fsimg s a) = fsimg s a)"

lemma din_addr_wr: "din_addr (wr32 d (12 + 4 * k) v) j = (if j = k then v else din_addr d j)"
proof (cases "j = k")
  case False
  then have "j < k \<or> k < j" by auto
  then show ?thesis using False by (auto simp: din_addr_def intro!: rd32_wr32_other)
qed (simp add: din_addr_def)

lemma mks_new: "mks s fb \<Longrightarrow> fb < 1024 \<Longrightarrow> new_block s = (of_nat fb, s\<lparr>freeblock := of_nat (Suc fb), usedblocks := of_nat (Suc fb)\<rparr>)"
proof -
  assume "mks s fb" "fb < 1024"
  then have "freeblock s = of_nat fb" "usedblocks s = of_nat fb" by (auto simp: mks_def word_unat_eq_iff small_sector)
  then show ?thesis by (simp add: new_block_def add.commute)
qed

lemma mks_count:
  assumes "mks s fb" "fb \<le> fb'" "fb' \<le> 1024"
  shows "mks (s\<lparr>freeblock := of_nat fb', usedblocks := of_nat fb'\<rparr>) fb'"
  using assms by (auto simp: mks_def unat_of_nat_small)

lemma mks_write:
  assumes "mks s fb" "unat a < fb"
  shows "wsect a buf s = Some (s\<lparr>fsimg := (fsimg s)(a := sect buf)\<rparr>)" "mks (s\<lparr>fsimg := (fsimg s)(a := sect buf)\<rparr>) fb"
  using assms by (auto simp: wsect_def mks_def max_def)

lemma mks_read: "mks s fb \<Longrightarrow> unat a < 1024 \<Longrightarrow> rsect a s = Some (fsimg s a)"
  by (simp add: mks_def rsect_def)

lemma block_of_old:
  assumes "mks s fb" "fblk (fsimg s) fb d nb" "bn < nb"
  shows "block_of d bn s = Some (adr (fsimg s) d bn, d, s)"
proof -
  note a = fblk_adr [OF assms(2,3)]
  show ?thesis
  proof (cases "bn < NDIRECT")
    case True
    then show ?thesis using a(1) by (simp add: block_of_def adr_def Let_def)
  next
    case False
    then have i: "din_addr d NDIRECT \<noteq> 0" using assms(2,3) by (auto simp: fblk_def)
    have "unat (din_addr d NDIRECT) < 1024" using fblk_ind [OF assms(2)] assms(1) by (auto simp: mks_def)
    then show ?thesis using False i a(1) mks_read [OF assms(1)] by (simp add: block_of_def adr_def Let_def)
  qed
qed

lemma adr_indirect:
  assumes "din_addr d NDIRECT = ind" "ind \<noteq> 0" "NDIRECT \<le> bn" "bn < MAXFILE" "bm < MAXFILE"
  shows "adr (img(ind := sect (wr32 (img ind) (4 * (bn - NDIRECT)) v))) d bm = (if bm = bn then v else adr img d bm)"
proof (cases "bm < NDIRECT")
  case False
  then have "rd32 (sect (wr32 (img ind) (4 * (bn - NDIRECT)) v)) (4 * (bm - NDIRECT))
      = (if bm = bn then v else rd32 (img ind) (4 * (bm - NDIRECT)))"
  proof (cases "bm = bn")
    case ne: False
    then have "bm - NDIRECT < bn - NDIRECT \<or> bn - NDIRECT < bm - NDIRECT" using False assms(3) by auto
    then show ?thesis using ne False assms(5) by (subst rd32_sect) (auto intro!: rd32_wr32_other)
  qed (use assms(4,5) in \<open>simp add: rd32_sect\<close>)
  then show ?thesis using False assms by (simp add: adr_def)
qed (use assms in \<open>simp add: adr_def\<close>)

lemma din_addr_wr_ind: "din_addr (wr32 d 56 v) j = (if j = NDIRECT then v else din_addr d j)"
  using din_addr_wr [of d NDIRECT v j] by simp

text \<open>The three ways a file gets its next block.\<close>

definition block_new :: "bytes \<Rightarrow> nat \<Rightarrow> mkst \<Rightarrow> nat \<Rightarrow> nat \<Rightarrow> bytes \<Rightarrow> mkst \<Rightarrow> bool" where
  "block_new d nb s fb x d' s' \<longleftrightarrow> block_of d nb s = Some (of_nat x, d', s') \<and> added (fsimg s) fb d nb (fsimg s') x d' \<and> mks s' (Suc x)
     \<and> freeinode s' = freeinode s \<and> (\<forall>i. i < 12 \<or> 60 \<le> i \<longrightarrow> d' i = d i)"

lemma block_of_direct:
  assumes m: "mks s fb" and f: "fblk (fsimg s) fb d nb" and nb: "nb < NDIRECT" and x: "fb < 1024"
  shows "\<exists>d' s'. block_new d nb s fb fb d' s'"
proof -
  let ?s1 = "s\<lparr>freeblock := of_nat (Suc fb), usedblocks := of_nat (Suc fb)\<rparr>" and ?d = "wr32 d (12 + 4 * nb) (of_nat fb)"
  have z: "adr (fsimg s) d nb = 0" using nb by (intro fblk_none [OF f]) auto
  have "block_of d nb s = Some (of_nat fb, ?d, ?s1)"
    using nb z mks_new [OF m x] by (simp add: block_of_def adr_def din_addr_wr Let_def)
  moreover have "added (fsimg s) fb d nb (fsimg s) fb ?d" using nb by (auto simp: added_def adr_def din_addr_wr)
  moreover have "?d i = d i" if "i < 12 \<or> 60 \<le> i" for i using that nb by (intro wr32_other) auto
  ultimately show ?thesis using mks_count [OF m, of "Suc fb"] x
    by (intro exI [of _ ?d] exI [of _ ?s1]) (simp add: block_new_def)
qed

lemma block_of_first_indirect:
  assumes m: "mks s fb" and f: "fblk (fsimg s) fb d NDIRECT" and x: "Suc fb < 1024"
  shows "\<exists>d' s'. block_new d NDIRECT s fb (Suc fb) d' s'"
proof -
  let ?d = "wr32 d 56 (of_nat fb)" and ?x = "Suc fb" and ?buf = "wr32 (\<lambda>_. 0) 0 (of_nat (Suc fb))"
  let ?s1 = "s\<lparr>freeblock := of_nat (Suc fb), usedblocks := of_nat (Suc fb)\<rparr>"
  let ?s2 = "?s1\<lparr>freeblock := of_nat (Suc ?x), usedblocks := of_nat (Suc ?x)\<rparr>"
  let ?s3 = "?s2\<lparr>fsimg := (fsimg ?s2)(of_nat fb := sect ?buf)\<rparr>"
  have i0: "din_addr d NDIRECT = 0" using f by (auto simp: fblk_def)
  have u: "unat (of_nat fb :: uint) = fb" "(of_nat fb :: uint) \<noteq> 0" using m x small_nz [of fb] by (simp_all add: small_sector mks_def)
  have zb: "fsimg s (of_nat fb) = (\<lambda>_. 0)" using m u by (simp add: mks_def)
  have m1: "mks ?s1 ?x" using mks_count [OF m, of ?x] x by simp
  have m2: "mks ?s2 (Suc ?x)" using mks_count [OF m1, of "Suc ?x"] x by simp
  have r: "rsect (of_nat fb) ?s1 = Some (\<lambda>_. 0)" using mks_read [OF m1, of "of_nat fb"] u x zb by simp
  have n1: "new_block s = (of_nat fb, ?s1)" "new_block ?s1 = (of_nat ?x, ?s2)"
    using mks_new [OF m] mks_new [OF m1] x by simp_all
  have ub: "unat (of_nat fb :: uint) < Suc ?x" using u by simp
  note w = mks_write [OF m2 ub, of ?buf]
  have z0: "rd32 (\<lambda>_. 0) 0 = 0" by (simp add: rd32_def)
  have "block_of d NDIRECT s = Some (of_nat ?x, ?d, ?s3)"
    unfolding block_of_def using i0 n1 r w(1) z0 by (simp add: din_addr_wr_ind Let_def)
  moreover have "added (fsimg s) fb d NDIRECT (fsimg ?s3) ?x ?d"
  proof -
    have "adr (fsimg ?s3) ?d bm = (if bm = NDIRECT then of_nat ?x else adr (fsimg s) d bm)" if "bm < MAXFILE" for bm
    proof -
      have "adr (fsimg ?s3) ?d bm = (if bm = NDIRECT then of_nat ?x else adr (fsimg s) ?d bm)"
        using adr_indirect [of ?d "of_nat fb" NDIRECT bm "fsimg s" "of_nat ?x"] u that zb by (simp add: din_addr_wr_ind)
      also have "bm \<noteq> NDIRECT \<Longrightarrow> adr (fsimg s) ?d bm = adr (fsimg s) d bm"
        using zb i0 u by (auto simp: adr_def din_addr_wr_ind rd32_def)
      ultimately show ?thesis by auto
    qed
    then show ?thesis using u(2) by (simp add: added_def din_addr_wr_ind)
  qed
  moreover have "?d i = d i" if "i < 12 \<or> 60 \<le> i" for i using that by (intro wr32_other) auto
  ultimately show ?thesis using w(2) by (intro exI [of _ ?d] exI [of _ ?s3]) (simp add: block_new_def)
qed

lemma block_of_indirect:
  assumes m: "mks s fb" and f: "fblk (fsimg s) fb d nb" and nb: "NDIRECT < nb" "nb < MAXFILE" and x: "fb < 1024"
  shows "\<exists>d' s'. block_new d nb s fb fb d' s'"
proof -
  let ?i = "din_addr d NDIRECT" and ?s1 = "s\<lparr>freeblock := of_nat (Suc fb), usedblocks := of_nat (Suc fb)\<rparr>"
  let ?buf = "wr32 (fsimg s ?i) (4 * (nb - NDIRECT)) (of_nat fb)"
  let ?s2 = "?s1\<lparr>fsimg := (fsimg ?s1)(?i := sect ?buf)\<rparr>"
  have i: "?i \<noteq> 0" "unat ?i < fb" using f nb fblk_ind [OF f] m by (auto simp: fblk_def mks_def)
  have z: "rd32 (fsimg s ?i) (4 * (nb - NDIRECT)) = 0"
    using fblk_none [OF f, of nb] nb i(1) by (simp add: adr_def)
  have m1: "mks ?s1 (Suc fb)" using mks_count [OF m, of "Suc fb"] x by simp
  have r: "rsect ?i s = Some (fsimg s ?i)" using mks_read [OF m] i x by simp
  have w: "wsect ?i ?buf ?s1 = Some ?s2" "mks ?s2 (Suc fb)" using mks_write [OF m1, of ?i ?buf] i by simp_all
  have "block_of d nb s = Some (of_nat fb, d, ?s2)"
    unfolding block_of_def using i(1) nb mks_new [OF m x] r w(1) z by (simp add: Let_def)
  moreover have "added (fsimg s) fb d nb (fsimg ?s2) fb d"
    using adr_indirect [of d ?i nb _ "fsimg s" "of_nat fb"] i(1) nb by (simp add: added_def)
  ultimately show ?thesis using w(2) by (intro exI [of _ d] exI [of _ ?s2]) (simp add: block_new_def)
qed

lemma block_of_new:
  assumes "mks s fb" "fblk (fsimg s) fb d nb" "nb < MAXFILE" "x = fb + (if nb = NDIRECT then 1 else 0)" "x < 1024"
  shows "\<exists>d' s'. block_new d nb s fb x d' s'"
proof -
  consider "nb < NDIRECT" | "nb = NDIRECT" | "NDIRECT < nb" by linarith
  then show ?thesis
    using block_of_direct [OF assms(1,2)] block_of_first_indirect [of s fb d] block_of_indirect [OF assms(1,2)] assms by cases auto
qed

text \<open>Writing a block of the file.\<close>

lemma mk_write_block:
  assumes "fblk img fb d nb" "bn < nb" "x = adr img d bn"
  shows "fown (img(x := b)) d = fown img d" "fblk (img(x := b)) fb d nb"
    "y < MAXFILE * 512 \<Longrightarrow> fbyte (img(x := b)) d y = (if y div 512 = bn then b (y mod 512) else fbyte img d y)"
proof -
  note x = fblk_adr [OF assms(1,2), folded assms(3)]
  have a: "adr (img(x := b)) d bm = adr img d bm" for bm using x(4) by (auto simp: adr_def)
  show o: "fown (img(x := b)) d = fown img d" by (simp add: fown_def a)
  show "fblk (img(x := b)) fb d nb" using assms(1) by (simp add: fblk_def o a)
  assume "y < MAXFILE * 512"
  then have y: "y div 512 < MAXFILE" by (simp add: less_mult_imp_div_less)
  show "fbyte (img(x := b)) d y = (if y div 512 = bn then b (y mod 512) else fbyte img d y)"
  proof (cases "y div 512 = bn")
    case True
    then have "adr img d (y div 512) = x" using assms(3) by simp
    then show ?thesis using x(1) True unfolding fbyte_def a by simp
  next
    case False
    have "adr img d (y div 512) \<noteq> x"
      using False fblk_inj [OF assms(1) y assms(2)] assms(3) by blast
    then show ?thesis using False by (auto simp: fbyte_def a)
  qed
qed

text \<open>Blocks of data, and blocks in all, of a file of \<open>n\<close> bytes.\<close>

definition nblk :: "nat \<Rightarrow> nat" where
  "nblk n = (n + 511) div 512"

definition blocks_for :: "nat \<Rightarrow> nat" where
  "blocks_for n = nblk n + (if nblk n > NDIRECT then 1 else 0)"

lemma nblk_step: "r < 512 \<Longrightarrow> 0 < k \<Longrightarrow> r + k \<le> 512 \<Longrightarrow> nblk (bn * 512 + r + k) = Suc bn"
  unfolding nblk_def by linarith

lemma nblk_at: "r < 512 \<Longrightarrow> nblk (bn * 512 + r) = (if r = 0 then bn else Suc bn)"
proof -
  assume r: "r < 512"
  have "(bn * 512 + r + 511) div 512 = bn" if "r = 0" using that by simp
  moreover have "(bn * 512 + r + 511) div 512 = Suc bn" if "r \<noteq> 0" using that r by linarith
  ultimately show ?thesis unfolding nblk_def by auto
qed

lemma nblk_mono: "m \<le> n \<Longrightarrow> nblk m \<le> nblk n"
  by (simp add: nblk_def div_le_mono)

lemma blocks_for_mono: "m \<le> n \<Longrightarrow> blocks_for m \<le> blocks_for n"
  using nblk_mono [of m n] by (auto simp: blocks_for_def)

lemma copied_cont:
  assumes f: "fblk img fb d (Suc bn)" "fcont img d xs" and x: "x = adr img d bn" and len: "length xs = bn * 512 + r" "r < 512"
    and k: "k \<le> length p" "r + k \<le> 512" and bn: "bn < MAXFILE"
  shows "fcont (img(x := sect (memmove_obj (img x) r (\<lambda>i. if i < length p then p ! i else 0) 0 k))) d (xs @ take k p)"
proof -
  let ?b = "sect (memmove_obj (img x) r (\<lambda>i. if i < length p then p ! i else 0) 0 k)"
  have "fbyte (img(x := ?b)) d y = (if y < length (xs @ take k p) then (xs @ take k p) ! y else 0)" if y: "y < MAXFILE * 512" for y
  proof (cases "y div 512 = bn")
    case False
    have "y < bn * 512 \<or> bn * 512 + 512 \<le> y" using False by linarith
    then have "y < length (xs @ take k p) \<longleftrightarrow> y < length xs" "y < length xs \<or> length (xs @ take k p) \<le> y" using len k by auto
    then show ?thesis using f(2) y False mk_write_block(3) [OF f(1) lessI x y, of ?b] by (auto simp: fcont_def nth_append)
  next
    case True
    define j where "j = y mod 512"
    have yj: "y = bn * 512 + j" "j < 512" using True by (auto simp: j_def)
    have old: "img x j = (if j < r then xs ! y else 0)"
    proof -
      have "fbyte img d y = img x j" using True fblk_adr(1) [OF f(1) lessI] x by (simp add: fbyte_def j_def)
      moreover have "y < length xs \<longleftrightarrow> j < r" using len(1) yj(1) by simp
      ultimately show ?thesis using f(2) y unfolding fcont_def by metis
    qed
    have "fbyte (img(x := ?b)) d y = ?b j" using mk_write_block(3) [OF f(1) lessI x y, of ?b] True by (simp add: j_def)
    also have "\<dots> = (if y < length (xs @ take k p) then (xs @ take k p) ! y else 0)"
      using old len k yj by (auto simp: sect_at memmove_obj_at nth_append)
    finally show ?thesis .
  qed
  then show ?thesis by (simp add: fcont_def)
qed

text \<open>What appending \<open>p\<close> to the file does to the image: only blocks of the file and new ones change.\<close>

definition appended :: "mkst \<Rightarrow> nat \<Rightarrow> bytes \<Rightarrow> uchar list \<Rightarrow> mkst \<Rightarrow> nat \<Rightarrow> bytes \<Rightarrow> bool" where
  "appended s fb d xs' s' fb' d' \<longleftrightarrow> mks s' fb' \<and> fblk (fsimg s') fb' d' (nblk (length xs')) \<and> fcont (fsimg s') d' xs'
     \<and> freeinode s' = freeinode s \<and> (\<forall>i. i < 12 \<or> 60 \<le> i \<longrightarrow> d' i = d i)
     \<and> (\<forall>a. a \<notin> fown (fsimg s') d' \<longrightarrow> fsimg s' a = fsimg s a)
     \<and> fown (fsimg s) d \<subseteq> fown (fsimg s') d'
     \<and> (\<forall>a\<in>fown (fsimg s') d'. a \<in> fown (fsimg s) d \<or> fb \<le> unat a)"

lemma appended_refl:
  "mks s fb \<Longrightarrow> fblk (fsimg s) fb d (nblk (length xs)) \<Longrightarrow> fcont (fsimg s) d xs \<Longrightarrow> appended s fb d xs s fb d"
  by (simp add: appended_def)

lemma appended_trans:
  assumes "appended s fb d ys s1 fb1 d1" "appended s1 fb1 d1 zs s2 fb2 d2" "fb \<le> fb1"
  shows "appended s fb d zs s2 fb2 d2"
proof -
  have "fsimg s2 a = fsimg s a" if "a \<notin> fown (fsimg s2) d2" for a
  proof -
    have "a \<notin> fown (fsimg s1) d1" using that assms(2) by (auto simp: appended_def)
    then show ?thesis using that assms(1,2) by (simp add: appended_def)
  qed
  moreover have "a \<in> fown (fsimg s) d \<or> fb \<le> unat a" if "a \<in> fown (fsimg s2) d2" for a
    using that assms unfolding appended_def by (meson order_trans)
  ultimately show ?thesis using assms(1,2) by (auto simp: appended_def)
qed

text \<open>The block the next byte goes to.\<close>

lemma block_of_ok:
  assumes m: "mks s fb" and f: "fblk (fsimg s) fb d (nblk (length xs))" "fcont (fsimg s) d xs" and bn: "bn = length xs div 512" "bn < MAXFILE"
    and r: "fb' = fb + (Suc bn + (if Suc bn > NDIRECT then 1 else 0) - blocks_for (length xs))" "fb' \<le> 1024"
  shows "\<exists>x d' s'. block_of d bn s = Some (x, d', s') \<and> mks s' fb' \<and> fblk (fsimg s') fb' d' (Suc bn) \<and> fcont (fsimg s') d' xs
    \<and> x = adr (fsimg s') d' bn \<and> freeinode s' = freeinode s \<and> (\<forall>i. i < 12 \<or> 60 \<le> i \<longrightarrow> d' i = d i)
    \<and> (\<forall>a. a \<notin> fown (fsimg s') d' \<longrightarrow> fsimg s' a = fsimg s a) \<and> fown (fsimg s) d \<subseteq> fown (fsimg s') d'
    \<and> (\<forall>a\<in>fown (fsimg s') d'. a \<in> fown (fsimg s) d \<or> fb \<le> unat a)"
proof (cases "length xs mod 512 = 0")
  case False
  have "nblk (length xs) = Suc bn" using nblk_at [of "length xs mod 512" bn] False bn(1) by simp
  moreover from this have "fb' = fb" using r by (simp add: blocks_for_def)
  ultimately show ?thesis using block_of_old [OF m f(1), of bn] m f by simp
next
  case True
  then have nb: "nblk (length xs) = bn"
    using nblk_at [of "length xs mod 512" bn] bn(1) div_mult_mod_eq [of "length xs" 512] by simp
  define x where "x = fb + (if bn = NDIRECT then 1 else 0)"
  have fx: "fb' = Suc x" using r(1) nb by (auto simp: x_def blocks_for_def)
  have x: "x < 1024" "fb < 1024" using fx r(2) by (simp_all add: x_def)
  obtain d' s' where b: "block_new d bn s fb x d' s'"
    using block_of_new [OF m f(1) [unfolded nb] bn(2) x_def x(1)] by blast
  have b': "block_of d bn s = Some (of_nat x, d', s')" "added (fsimg s) fb d bn (fsimg s') x d'" "mks s' (Suc x)"
    "freeinode s' = freeinode s" "\<forall>i. i < 12 \<or> 60 \<le> i \<longrightarrow> d' i = d i" using b by (simp_all add: block_new_def)
  note a = b'(2)
  have fb: "data_start \<le> fb" "\<And>a. fb \<le> unat a \<Longrightarrow> fsimg s a = (\<lambda>_. 0)" using m by (simp_all add: mks_def)
  have n: "fblk (fsimg s') fb' d' (Suc bn)" "fcont (fsimg s') d' xs" "of_nat x = adr (fsimg s') d' bn"
    using added_blk [OF a bn(2) f(1) [unfolded nb] fb(1) x(1)] added_cont [OF a bn(2) f(1) [unfolded nb] f(2) fb(1) x(1) fb(2)]
      a bn(2) fx by (simp_all add: added_def)
  have own: "fown (fsimg s') d' = fown (fsimg s) d \<union> {of_nat x} \<union> (if bn = NDIRECT then {of_nat fb} else {})"
    using added_own [OF a bn(2) f(1) [unfolded nb] _ x(1)] fb(1) by simp
  have "\<forall>y. y \<notin> fown (fsimg s') d' \<longrightarrow> fsimg s' y = fsimg s y"
  proof (intro allI impI)
    fix y assume "y \<notin> fown (fsimg s') d'"
    then show "fsimg s' y = fsimg s y" using a by (cases "y = 0") (auto simp: added_def fown_def)
  qed
  moreover have "\<forall>y\<in>fown (fsimg s') d'. y \<in> fown (fsimg s) d \<or> fb \<le> unat y"
  proof
    fix y assume "y \<in> fown (fsimg s') d'"
    then consider "y \<in> fown (fsimg s) d" | "y = of_nat x" | "y = of_nat fb" unfolding own by (auto split: if_splits)
    then show "y \<in> fown (fsimg s) d \<or> fb \<le> unat y" using small_sector [OF x(1)] small_sector [OF x(2)] by cases (auto simp: x_def)
  qed
  moreover have "fown (fsimg s) d \<subseteq> fown (fsimg s') d'" unfolding own by blast
  ultimately show ?thesis using b'(1,3-5) n fx by blast
qed

text \<open>One turn of the loop of \<open>iappend\<close>.\<close>

lemma iappend_turn:
  assumes m: "mks s fb" and f: "fblk (fsimg s) fb d (nblk (length xs))" "fcont (fsimg s) d xs" and p: "p \<noteq> []" "length xs < MAXFILE * 512"
    and k: "k = min (length p) ((length xs div 512 + 1) * 512 - length xs)" and fb: "fb' = fb + (blocks_for (length xs + k) - blocks_for (length xs))" "fb' \<le> 1024"
  shows "\<exists>d' s'. iappend_loop d (length xs) p s = iappend_loop d' (length xs + k) (drop k p) s' \<and> appended s fb d (xs @ take k p) s' fb' d'"
proof -
  define bn r where "bn = length xs div 512" and "r = length xs mod 512"
  have len: "length xs = bn * 512 + r" "r < 512" by (simp_all add: bn_def r_def)
  have bn: "bn < MAXFILE" using p(2) by (simp add: bn_def less_mult_imp_div_less)
  have k': "0 < k" "k \<le> length p" "r + k \<le> 512" "k = min (length p) ((bn + 1) * 512 - length xs)"
    using p(1) k len by (auto simp: bn_def [symmetric])
  have nb: "nblk (length xs + k) = Suc bn" using nblk_step [OF len(2) k'(1,3), of bn] len(1) by simp
  have fb': "fb' = fb + (Suc bn + (if Suc bn > NDIRECT then 1 else 0) - blocks_for (length xs))"
    using fb(1) by (simp add: blocks_for_def nb)
  obtain x d' s' where b: "block_of d bn s = Some (x, d', s')" "mks s' fb'" "fblk (fsimg s') fb' d' (Suc bn)" "fcont (fsimg s') d' xs"
    "x = adr (fsimg s') d' bn" "freeinode s' = freeinode s" "\<forall>i. i < 12 \<or> 60 \<le> i \<longrightarrow> d' i = d i"
    "\<forall>a. a \<notin> fown (fsimg s') d' \<longrightarrow> fsimg s' a = fsimg s a" "fown (fsimg s) d \<subseteq> fown (fsimg s') d'"
    "\<forall>a\<in>fown (fsimg s') d'. a \<in> fown (fsimg s) d \<or> fb \<le> unat a"
    using block_of_ok [OF m f bn_def bn fb' fb(2)] by blast
  let ?buf = "memmove_obj (fsimg s' x) r (\<lambda>i. if i < length p then p ! i else 0) 0 k"
  let ?img = "(fsimg s')(x := sect ?buf)"
  have x: "unat x < fb'" "x \<in> fown (fsimg s') d'" using fblk_adr(2,3) [OF b(3), of bn] b(5) by simp_all
  note w = mks_write [OF b(2) x(1), of ?buf] and o = mk_write_block [OF b(3) lessI b(5), where b = "sect ?buf"]
  have "length xs - bn * 512 = r" using len(1) by simp
  moreover have "rsect x s' = Some (fsimg s' x)" using mks_read [OF b(2)] x(1) fb(2) by simp
  moreover have "min (length p) (512 + bn * 512 - length xs) = k" using k'(4) by simp
  ultimately have "iappend_loop d (length xs) p s = iappend_loop d' (length xs + k) (drop k p) (s'\<lparr>fsimg := ?img\<rparr>)"
    using p(1) b(1) w(1) bn by (subst iappend_loop.simps) (simp add: bn_def [symmetric] Let_def)
  moreover have "appended s fb d (xs @ take k p) (s'\<lparr>fsimg := ?img\<rparr>) fb' d'"
  proof -
    have "nblk (length (xs @ take k p)) = Suc bn" using nb k'(2) by simp
    moreover have "fcont ?img d' (xs @ take k p)"
      using copied_cont [OF b(3,4,5) len k'(2,3) bn] .
    moreover have "?img a = fsimg s a" if "a \<notin> fown (fsimg s') d'" for a using b(8) that x(2) by auto
    ultimately show ?thesis using w(2) o(1,2) b(6,7,9,10) unfolding appended_def by simp
  qed
  ultimately show ?thesis by blast
qed

lemma iappend_loop_ok:
  assumes "mks s fb" "fblk (fsimg s) fb d (nblk (length xs))" "fcont (fsimg s) d xs" "length xs + length p \<le> MAXFILE * 512"
    "fb' = fb + (blocks_for (length xs + length p) - blocks_for (length xs))" "fb' \<le> 1024"
  shows "\<exists>d' s'. iappend_loop d (length xs) p s = Some (d', length xs + length p, s') \<and> appended s fb d (xs @ p) s' fb' d'"
  using assms
proof (induction "length p" arbitrary: p xs d s fb rule: less_induct)
  case less
  show ?case
  proof (cases "p = []")
    case True
    then show ?thesis using less.prems appended_refl [of s fb d xs] by (subst iappend_loop.simps) auto
  next
    case False
    define k where "k = min (length p) ((length xs div 512 + 1) * 512 - length xs)"
    have k: "0 < k" "k \<le> length p" using False by (auto simp: k_def)
    define fb1 where "fb1 = fb + (blocks_for (length xs + k) - blocks_for (length xs))"
    note mono = blocks_for_mono [of "length xs" "length xs + k"] blocks_for_mono [of "length xs + k" "length xs + length p"]
    have fb1: "fb1 \<le> 1024" "fb' = fb1 + (blocks_for (length xs + length p) - blocks_for (length xs + k))" "fb \<le> fb1"
      using less.prems(5,6) mono k by (simp_all add: fb1_def)
    have "length xs < MAXFILE * 512" using less.prems(4) False by (cases p) auto
    then obtain d1 s1 where t: "iappend_loop d (length xs) p s = iappend_loop d1 (length xs + k) (drop k p) s1"
      "appended s fb d (xs @ take k p) s1 fb1 d1"
      using iappend_turn [OF less.prems(1-3) False _ k_def fb1_def fb1(1)] by blast
    have "\<exists>d' s'. iappend_loop d1 (length (xs @ take k p)) (drop k p) s1 = Some (d', length (xs @ take k p) + length (drop k p), s')
      \<and> appended s1 fb1 d1 ((xs @ take k p) @ drop k p) s' fb' d'"
    proof (rule less.hyps)
      show "length (drop k p) < length p" using k by simp
      show "mks s1 fb1" "fblk (fsimg s1) fb1 d1 (nblk (length (xs @ take k p)))" "fcont (fsimg s1) d1 (xs @ take k p)"
        using t(2) by (simp_all add: appended_def)
      show "length (xs @ take k p) + length (drop k p) \<le> MAXFILE * 512" using less.prems(4) by simp
      show "fb' = fb1 + (blocks_for (length (xs @ take k p) + length (drop k p)) - blocks_for (length (xs @ take k p)))"
        using fb1(2) k(2) by simp
    qed (rule less.prems(6))
    then obtain d' s' where "iappend_loop d1 (length xs + k) (drop k p) s1 = Some (d', length xs + length p, s')"
      "appended s1 fb1 d1 (xs @ p) s' fb' d'" using k(2) by auto
    then show ?thesis using t appended_trans [OF t(2) _ fb1(3)] by auto
  qed
qed

section \<open>What the image holds\<close>

text \<open>
  The contents of an image, apart from where the blocks are: how many inodes are in use, and of each
  the type, the bytes appended to it and the size in the inode.
\<close>

record layout =
  l_next :: nat
  l_type :: "nat \<Rightarrow> ushort"
  l_data :: "nat \<Rightarrow> uchar list"
  l_size :: "nat \<Rightarrow> nat"

definition a_ialloc :: "ushort \<Rightarrow> layout \<Rightarrow> layout" where
  "a_ialloc t L = L\<lparr>l_next := Suc (l_next L), l_type := (l_type L)(l_next L := t), l_data := (l_data L)(l_next L := []),
     l_size := (l_size L)(l_next L := 0)\<rparr>"

definition a_append :: "nat \<Rightarrow> uchar list \<Rightarrow> layout \<Rightarrow> layout" where
  "a_append k xs L = L\<lparr>l_data := (l_data L)(k := l_data L k @ xs), l_size := (l_size L)(k := length (l_data L k @ xs))\<rparr>"

definition a_round :: "nat \<Rightarrow> layout \<Rightarrow> layout" where
  "a_round k L = L\<lparr>l_size := (l_size L)(k := (l_size L k div 512 + 1) * 512)\<rparr>"

definition lay_fb :: "layout \<Rightarrow> nat" where
  "lay_fb L = data_start + (\<Sum>k=1..<l_next L. blocks_for (length (l_data L k)))"

text \<open>The image has room: for the inodes, the blocks, and in each file.\<close>

definition fits :: "layout \<Rightarrow> bool" where
  "fits L \<longleftrightarrow> l_next L \<le> 200 \<and> (\<forall>k. 1 \<le> k \<and> k < l_next L \<longrightarrow> length (l_data L k) \<le> MAXFILE * 512) \<and> lay_fb L \<le> 1024"

text \<open>The inode \<open>k\<close> in the image.\<close>

definition isect :: "nat \<Rightarrow> uint" where
  "isect k = of_nat (k div IPB + 2)"

definition dsk :: "image \<Rightarrow> nat \<Rightarrow> bytes" where
  "dsk img k = (\<lambda>i. if i < 64 then img (isect k) (64 * (k mod IPB) + i) else 0)"

definition inode_rep :: "image \<Rightarrow> nat \<Rightarrow> bytes \<Rightarrow> ushort \<Rightarrow> uchar list \<Rightarrow> nat \<Rightarrow> bool" where
  "inode_rep img fb d t xs sz \<longleftrightarrow> rd16 d 0 = t \<and> rd16 d 2 = 0 \<and> rd16 d 4 = 0 \<and> rd16 d 6 = 1 \<and> rd32 d 8 = of_nat sz
     \<and> fblk img fb d (nblk (length xs)) \<and> fcont img d xs"

definition rep :: "mkst \<Rightarrow> layout \<Rightarrow> bool" where
  "rep s L \<longleftrightarrow> mks s (lay_fb L) \<and> freeinode s = of_nat (l_next L) \<and> 1 \<le> l_next L \<and> l_next L \<le> 200
     \<and> sb_of (fsimg s 1) = \<lparr>sb_size = 1024, sb_nblocks = 995, sb_ninodes = 200\<rparr>
     \<and> (\<forall>k. 1 \<le> k \<and> k < l_next L \<longrightarrow> inode_rep (fsimg s) (lay_fb L) (dsk (fsimg s) k) (l_type L k) (l_data L k) (l_size L k))
     \<and> (\<forall>k l. 1 \<le> k \<and> k < l_next L \<longrightarrow> 1 \<le> l \<and> l < l_next L \<longrightarrow> k \<noteq> l
         \<longrightarrow> fown (fsimg s) (dsk (fsimg s) k) \<inter> fown (fsimg s) (dsk (fsimg s) l) = {})"

lemma i2b_isect: "k < 4294967296 \<Longrightarrow> i2b (of_nat k) = isect k"
proof -
  assume k: "k < 4294967296"
  have "(of_nat k :: uint) div 8 = of_nat (k div 8)"
    using k by (simp add: word_unat_eq_iff unat_div unat_of_nat_small)
  then show ?thesis by (simp add: i2b_def isect_def)
qed

lemma isect_unat: "k < 200 \<Longrightarrow> unat (isect k) = k div IPB + 2"
  unfolding isect_def by (rule unat_of_nat_small) simp

lemma isect_low: "k < 200 \<Longrightarrow> unat (isect k) < data_start" "k < 200 \<Longrightarrow> isect k \<noteq> 1"
proof -
  assume k: "k < 200"
  then have "k div 8 < 25" by simp
  then show "unat (isect k) < data_start" using isect_unat [OF k] by simp
  show "isect k \<noteq> 1" using isect_unat [OF k] by auto
qed

lemma rinode_dsk: "mks s fb \<Longrightarrow> k < 200 \<Longrightarrow> rinode (of_nat k) s = Some (dsk (fsimg s) k)"
proof -
  assume m: "mks s fb" and k: "k < 200"
  have "rsect (isect k) s = Some (fsimg s (isect k))" using mks_read [OF m] isect_low [OF k] by simp
  moreover have "unat (of_nat k :: uint) = k" using k by (simp add: unat_of_nat_small)
  ultimately show ?thesis using k
    by (auto simp: rinode_def i2b_isect dsk_def memmove_obj_at fun_eq_iff)
qed

definition put :: "nat \<Rightarrow> bytes \<Rightarrow> image \<Rightarrow> image" where
  "put k d img = img(isect k := sect (memmove_obj (img (isect k)) (64 * (k mod IPB)) d 0 64))"

lemma winode_put:
  assumes "mks s fb" "k < 200"
  shows "winode (of_nat k) d s = Some (s\<lparr>fsimg := put k d (fsimg s)\<rparr>)" "mks (s\<lparr>fsimg := put k d (fsimg s)\<rparr>) fb"
proof -
  have r: "rsect (isect k) s = Some (fsimg s (isect k))" using mks_read [OF assms(1)] isect_low [OF assms(2)] by simp
  have u: "unat (of_nat k :: uint) = k" using assms(2) by (simp add: unat_of_nat_small)
  have "unat (isect k) < fb" using isect_low(1) [OF assms(2)] assms(1) by (simp add: mks_def)
  note w = mks_write [OF assms(1) this]
  show "winode (of_nat k) d s = Some (s\<lparr>fsimg := put k d (fsimg s)\<rparr>)"
    using r w(1) u assms(2) by (simp add: winode_def i2b_isect put_def)
  show "mks (s\<lparr>fsimg := put k d (fsimg s)\<rparr>) fb" using w(2) by (simp add: put_def)
qed

lemma dsk_put:
  assumes "k < 200" "l < 200" "\<And>i. 64 \<le> i \<Longrightarrow> d i = 0"
  shows "dsk (put k d img) l = (if l = k then d else dsk img l)"
proof -
  have b: "64 * (l mod 8) + 64 \<le> 512" for l :: nat
  proof -
    have "l mod 8 < 8" by simp
    then show ?thesis by linarith
  qed
  show ?thesis
  proof (cases "isect l = isect k")
    case False
    then have "l \<noteq> k" by auto
    then show ?thesis using False by (auto simp: dsk_def put_def fun_eq_iff)
  next
    case True
    then have q: "l div 8 = k div 8" using isect_unat [OF assms(1)] isect_unat [OF assms(2)] by simp
    have "dsk (put k d img) l i = (if l = k then d else dsk img l) i" for i
    proof (cases "l = k")
      case eq: True
      then show ?thesis using b [of k] assms(3) [of i] by (auto simp: dsk_def put_def sect_at memmove_obj_at)
    next
      case ne: False
      then have "l mod 8 \<noteq> k mod 8" using q div_mult_mod_eq [of l 8] div_mult_mod_eq [of k 8] by auto
      then have "l mod 8 < k mod 8 \<or> k mod 8 < l mod 8" by linarith
      then show ?thesis using True ne b [of l] by (auto simp: dsk_def put_def sect_at memmove_obj_at)
    qed
    then show ?thesis by blast
  qed
qed

lemma put_other: "a \<noteq> isect k \<Longrightarrow> put k d img a = img a"
  by (simp add: put_def)

text \<open>Files depend on the addresses in the inode only.\<close>

lemma same_addrs:
  assumes "\<And>i. 12 \<le> i \<Longrightarrow> i < 60 \<Longrightarrow> d' i = d i"
  shows "adr img d' bn = adr img d bn" "fown img d' = fown img d" "fblk img fb d' nb = fblk img fb d nb" "fcont img d' xs = fcont img d xs"
proof -
  have a: "din_addr d' k = din_addr d k" if "k \<le> NDIRECT" for k
    unfolding din_addr_def using that assms by (intro rd32_cong) auto
  show b: "adr img d' bn = adr img d bn" for bn by (simp add: adr_def a)
  show c: "fown img d' = fown img d" by (simp add: fown_def a b)
  show "fblk img fb d' nb = fblk img fb d nb" "fcont img d' xs = fcont img d xs"
    by (simp_all add: fblk_def a b c fcont_def fbyte_def)
qed

lemma fown_low: "fblk img fb d nb \<Longrightarrow> unat a < data_start \<Longrightarrow> a \<notin> fown img d"
  by (auto simp: fblk_def)

lemma rep_file:
  assumes "rep s L" "1 \<le> k" "k < l_next L"
  shows "inode_rep (fsimg s) (lay_fb L) (dsk (fsimg s) k) (l_type L k) (l_data L k) (l_size L k)"
    "fblk (fsimg s) (lay_fb L) (dsk (fsimg s) k) (nblk (length (l_data L k)))" "fcont (fsimg s) (dsk (fsimg s) k) (l_data L k)" "k < 200"
  using assms by (auto simp: rep_def inode_rep_def)

lemma lay_fb_append:
  assumes "1 \<le> k" "k < l_next L"
  shows "lay_fb (a_append k xs L) = lay_fb L + (blocks_for (length (l_data L k) + length xs) - blocks_for (length (l_data L k)))"
proof -
  let ?f = "\<lambda>j. blocks_for (length (l_data L j))" and ?g = "\<lambda>j. blocks_for (length (l_data (a_append k xs L) j))"
  have "(\<Sum>j=1..<l_next L. ?g j) = ?g k + (\<Sum>j\<in>{1..<l_next L} - {k}. ?g j)"
    "(\<Sum>j=1..<l_next L. ?f j) = ?f k + (\<Sum>j\<in>{1..<l_next L} - {k}. ?f j)"
    using assms by (auto intro!: sum.remove)
  moreover have "(\<Sum>j\<in>{1..<l_next L} - {k}. ?g j) = (\<Sum>j\<in>{1..<l_next L} - {k}. ?f j)"
    by (rule sum.cong) (auto simp: a_append_def)
  moreover have "?f k \<le> ?g k" by (auto simp: a_append_def intro!: blocks_for_mono)
  ultimately show ?thesis by (simp add: lay_fb_def a_append_def)
qed

text \<open>After a change that leaves the other files alone, and writes the inode \<open>d\<close> of file \<open>k\<close>.\<close>

lemma rep_update:
  assumes r: "rep s L" and k: "1 \<le> k" "k < l_next L" and m: "mks s1 fb" "freeinode s1 = freeinode s" and fb: "lay_fb L' = fb" "lay_fb L \<le> fb"
    and L': "l_next L' = l_next L" "\<And>j. j \<noteq> k \<Longrightarrow> l_type L' j = l_type L j \<and> l_data L' j = l_data L j \<and> l_size L' j = l_size L j"
    and d: "\<And>i. 64 \<le> i \<Longrightarrow> d i = 0" "inode_rep (fsimg s1) fb d (l_type L' k) (l_data L' k) (l_size L' k)"
    and fr: "\<And>a. a \<notin> fown (fsimg s1) d \<Longrightarrow> fsimg s1 a = fsimg s a"
      "\<And>a. a \<in> fown (fsimg s1) d \<Longrightarrow> a \<in> fown (fsimg s) (dsk (fsimg s) k) \<or> lay_fb L \<le> unat a"
  shows "\<exists>s2. winode (of_nat k) d s1 = Some s2 \<and> rep s2 L'"
proof -
  have R: "freeinode s = of_nat (l_next L)" "l_next L \<le> 200" "sb_of (fsimg s 1) = \<lparr>sb_size = 1024, sb_nblocks = 995, sb_ninodes = 200\<rparr>"
    "\<And>j l. 1 \<le> j \<Longrightarrow> j < l_next L \<Longrightarrow> 1 \<le> l \<Longrightarrow> l < l_next L \<Longrightarrow> j \<noteq> l
      \<Longrightarrow> fown (fsimg s) (dsk (fsimg s) j) \<inter> fown (fsimg s) (dsk (fsimg s) l) = {}"
    using r by (simp_all add: rep_def)
  have k2: "k < 200" using k R(2) by simp
  let ?img = "put k d (fsimg s1)" and ?s2 = "s1\<lparr>fsimg := put k d (fsimg s1)\<rparr>"
  note w = winode_put [OF m(1) k2, of d]
  have bd: "fblk (fsimg s1) fb d (nblk (length (l_data L' k)))" using d(2) by (simp add: inode_rep_def)
  have low: "fsimg s1 a = fsimg s a" if "unat a < data_start" for a using fr(1) fown_low [OF bd that] by simp
  have dj: "dsk ?img j = (if j = k then d else dsk (fsimg s) j)" if "j < 200" for j
    using dsk_put [OF k2 that d(1)] low [OF isect_low(1) [OF that]] by (auto simp: dsk_def fun_eq_iff)
  have pk: "?img a = fsimg s1 a" if "data_start \<le> unat a" for a
    using that isect_low(1) [OF k2] by (intro put_other) auto
  have kk: "inode_rep ?img fb (dsk ?img k) (l_type L' k) (l_data L' k) (l_size L' k)" "fown ?img (dsk ?img k) = fown (fsimg s1) d"
  proof -
    have "?img a = fsimg s1 a" if "a \<in> fown (fsimg s1) d" for a using that bd by (intro pk) (simp add: fblk_def)
    note f = file_frame [OF this]
    show "fown ?img (dsk ?img k) = fown (fsimg s1) d" using f(1) dj [OF k2] by simp
    show "inode_rep ?img fb (dsk ?img k) (l_type L' k) (l_data L' k) (l_size L' k)"
      using d(2) f(2) [OF _ _ order_refl] f(3) dj [OF k2] by (auto simp: inode_rep_def)
  qed
  have jj: "inode_rep ?img fb (dsk ?img j) (l_type L' j) (l_data L' j) (l_size L' j)
      \<and> fown ?img (dsk ?img j) = fown (fsimg s) (dsk (fsimg s) j) \<and> fown (fsimg s) (dsk (fsimg s) j) \<inter> fown (fsimg s1) d = {}"
    if j: "1 \<le> j" "j < l_next L" "j \<noteq> k" for j
  proof -
    note fj = rep_file [OF r j(1,2)]
    have rng: "data_start \<le> unat a \<and> unat a < lay_fb L" if "a \<in> fown (fsimg s) (dsk (fsimg s) j)" for a
      using fj(2) that by (simp add: fblk_def)
    have dis: "fown (fsimg s) (dsk (fsimg s) j) \<inter> fown (fsimg s1) d = {}"
      using fr(2) rng R(4) [OF j(1,2) k j(3)] by (fastforce simp: not_le)
    have "?img a = fsimg s a" if "a \<in> fown (fsimg s) (dsk (fsimg s) j)" for a
      using pk fr(1) rng [OF that] dis that by (metis IntI empty_iff)
    note f = file_frame [OF this]
    have "inode_rep ?img fb (dsk ?img j) (l_type L' j) (l_data L' j) (l_size L' j)"
      using fj(1) f(2) [OF _ _ fb(2)] f(3) dj [OF fj(4)] L'(2) [OF j(3)] j(3) by (auto simp: inode_rep_def)
    then show ?thesis using f(1) dj [OF fj(4)] j(3) dis by simp
  qed
  have sb: "sb_of (?img 1) = \<lparr>sb_size = 1024, sb_nblocks = 995, sb_ninodes = 200\<rparr>"
    using R(3) low [of 1] put_other [of 1 k d "fsimg s1"] isect_low(2) [OF k2] by auto
  have "fown ?img (dsk ?img j) \<inter> fown ?img (dsk ?img l) = {}"
    if "1 \<le> j" "j < l_next L" "1 \<le> l" "l < l_next L" "j \<noteq> l" for j l
    using jj [of j] jj [of l] kk(2) R(4) [of j l] that by (cases "j = k"; cases "l = k") auto
  then have "rep ?s2 L'" using w(2) m(2) R(1,2) k sb jj kk fb(1) L'(1) unfolding rep_def by (auto; metis)
  then show ?thesis using w(1) by blast
qed

lemma dsk_high: "64 \<le> i \<Longrightarrow> dsk img k i = 0"
  by (simp add: dsk_def)

lemma fields_cong:
  assumes "\<And>i. i < 8 \<Longrightarrow> d' i = d i"
  shows "rd16 d' 0 = rd16 d 0" "rd16 d' 2 = rd16 d 2" "rd16 d' 4 = rd16 d 4" "rd16 d' 6 = rd16 d 6"
  by (rule rd16_cong; use assms in simp)+

lemma iappend_ok:
  assumes r: "rep s L" and k: "1 \<le> k" "k < l_next L" and sz: "l_size L k = length (l_data L k)" and f: "fits (a_append k xs L)"
  shows "\<exists>s'. iappend (of_nat k) xs s = Some s' \<and> rep s' (a_append k xs L)"
proof -
  let ?d = "dsk (fsimg s) k" and ?ys = "l_data L k" and ?L = "a_append k xs L"
  note fk = rep_file [OF r k]
  have m: "mks s (lay_fb L)" using r by (simp add: rep_def)
  have len: "length ?ys + length xs \<le> MAXFILE * 512" "lay_fb ?L \<le> 1024" using f k by (auto simp: fits_def a_append_def)
  obtain d' s1 where l: "iappend_loop ?d (length ?ys) xs s = Some (d', length ?ys + length xs, s1)"
    and a: "appended s (lay_fb L) ?d (?ys @ xs) s1 (lay_fb ?L) d'"
    using iappend_loop_ok [OF m fk(2,3) len(1) lay_fb_append [OF k, of xs] len(2)] by blast
  let ?d2 = "wr32 d' 8 (of_nat (length ?ys + length xs))"
  have dd: "\<forall>i. i < 12 \<or> 60 \<le> i \<longrightarrow> d' i = ?d i" using a by (simp add: appended_def)
  note sa = same_addrs [of ?d2 d']
  have sa': "12 \<le> i \<Longrightarrow> i < 60 \<Longrightarrow> ?d2 i = d' i" for i by (intro wr32_other) auto
  have hi: "?d2 i = 0" if "64 \<le> i" for i using that dd dsk_high [OF that] wr32_other [of i 8 d'] by auto
  have "rd16 ?d2 0 = rd16 ?d 0" "rd16 ?d2 2 = rd16 ?d 2" "rd16 ?d2 4 = rd16 ?d 4" "rd16 ?d2 6 = rd16 ?d 6"
    by (rule fields_cong; use dd in \<open>simp add: wr32_other\<close>)+
  then have ir: "inode_rep (fsimg s1) (lay_fb ?L) ?d2 (l_type ?L k) (l_data ?L k) (l_size ?L k)"
    using fk(1) a sa(3,4) [OF sa'] by (simp add: inode_rep_def appended_def a_append_def)
  have "\<exists>s2. winode (of_nat k) ?d2 s1 = Some s2 \<and> rep s2 ?L"
  proof (rule rep_update [OF r k _ _ refl])
    show "mks s1 (lay_fb ?L)" "freeinode s1 = freeinode s" using a by (simp_all add: appended_def)
    show "lay_fb L \<le> lay_fb ?L" using lay_fb_append [OF k, of xs] by simp
    show "\<And>b. b \<notin> fown (fsimg s1) ?d2 \<Longrightarrow> fsimg s1 b = fsimg s b"
      "\<And>b. b \<in> fown (fsimg s1) ?d2 \<Longrightarrow> b \<in> fown (fsimg s) ?d \<or> lay_fb L \<le> unat b"
      using a sa(2) [OF sa'] by (simp_all add: appended_def)
  qed (use hi ir in \<open>simp_all add: a_append_def\<close>)
  moreover have "unat (din_size ?d) = length ?ys"
    using fk(1) sz len(1) by (simp add: inode_rep_def din_size_def unat_of_nat_small)
  ultimately show ?thesis using l rinode_dsk [OF m fk(4)] by (simp add: iappend_def)
qed

lemma fix_size_ok:
  assumes r: "rep s L" and k: "1 \<le> k" "k < l_next L" and sz: "l_size L k \<le> MAXFILE * 512"
  shows "\<exists>s'. fix_size (of_nat k) s = Some s' \<and> rep s' (a_round k L)"
proof -
  let ?d = "dsk (fsimg s) k" and ?L = "a_round k L"
  let ?d2 = "wr32 ?d 8 (of_nat (l_size ?L k))"
  note fk = rep_file [OF r k]
  have m: "mks s (lay_fb L)" using r by (simp add: rep_def)
  have fb: "lay_fb ?L = lay_fb L" by (simp add: lay_fb_def a_round_def)
  have sa': "12 \<le> i \<Longrightarrow> i < 60 \<Longrightarrow> ?d2 i = ?d i" for i by (intro wr32_other) auto
  note sa = same_addrs [of ?d2 ?d, OF sa']
  have "rd16 ?d2 0 = rd16 ?d 0" "rd16 ?d2 2 = rd16 ?d 2" "rd16 ?d2 4 = rd16 ?d 4" "rd16 ?d2 6 = rd16 ?d 6"
    by (rule fields_cong; simp add: wr32_other)+
  then have ir: "inode_rep (fsimg s) (lay_fb L) ?d2 (l_type ?L k) (l_data ?L k) (l_size ?L k)"
    using fk(1) sa(3,4) by (simp add: inode_rep_def a_round_def)
  have "\<exists>s2. winode (of_nat k) ?d2 s = Some s2 \<and> rep s2 ?L"
  proof (rule rep_update [OF r k m refl fb order_refl])
    show "?d2 i = 0" if "64 \<le> i" for i using that dsk_high [OF that] by (simp add: wr32_other)
    show "\<And>b. b \<in> fown (fsimg s) ?d2 \<Longrightarrow> b \<in> fown (fsimg s) ?d \<or> lay_fb L \<le> unat b" using sa(2) by simp
  qed (use ir in \<open>simp_all add: a_round_def\<close>)
  moreover have "(din_size ?d div 512 + 1) * 512 = of_nat (l_size ?L k)"
  proof -
    have s: "din_size ?d = of_nat (l_size L k)" using fk(1) by (simp add: inode_rep_def din_size_def)
    have "(of_nat (l_size L k) :: uint) div 512 = of_nat (l_size L k div 512)"
      using sz by (simp add: word_unat_eq_iff unat_div unat_of_nat_small)
    then show ?thesis by (simp add: s a_round_def)
  qed
  ultimately show ?thesis using rinode_dsk [OF m fk(4)] by (simp add: fix_size_def)
qed

lemma lay_fb_ialloc: "1 \<le> l_next L \<Longrightarrow> lay_fb (a_ialloc t L) = lay_fb L"
proof -
  assume n: "1 \<le> l_next L"
  have "(\<Sum>k=1..<l_next L. blocks_for (length (((l_data L)(l_next L := [])) k))) = (\<Sum>k=1..<l_next L. blocks_for (length (l_data L k)))"
    by (rule sum.cong) auto
  then show ?thesis using n by (simp add: lay_fb_def a_ialloc_def blocks_for_def nblk_def)
qed

lemma zero_file:
  assumes "\<And>i. 12 \<le> i \<Longrightarrow> i < 60 \<Longrightarrow> d i = 0"
  shows "fown img d = {}" "fblk img fb d 0" "fcont img d []"
proof -
  have "din_addr d k = 0" if "k \<le> NDIRECT" for k
    unfolding din_addr_def rd32_def using assms that by simp
  then have "adr img d bn = 0" for bn by (simp add: adr_def)
  moreover have "din_addr d NDIRECT = 0" using \<open>\<And>k. k \<le> NDIRECT \<Longrightarrow> din_addr d k = 0\<close> by simp
  ultimately show "fown img d = {}" "fblk img fb d 0" "fcont img d []" by (auto simp: fown_def fblk_def fcont_def fbyte_def)
qed

lemma ialloc_ok:
  assumes r: "rep s L" and n: "l_next L < 200"
  shows "\<exists>s'. ialloc_mk t s = Some (of_nat (l_next L), s') \<and> rep s' (a_ialloc t L)"
proof -
  let ?k = "l_next L" and ?L = "a_ialloc t L" and ?d = "wr32 (wr16 (wr16 (\<lambda>_. 0) 0 t) 6 1) 8 0 :: bytes"
  let ?s1 = "s\<lparr>freeinode := freeinode s + 1\<rparr>"
  have R: "mks s (lay_fb L)" "freeinode s = of_nat ?k" "1 \<le> ?k" "sb_of (fsimg s 1) = \<lparr>sb_size = 1024, sb_nblocks = 995, sb_ninodes = 200\<rparr>"
    "\<And>j l. 1 \<le> j \<Longrightarrow> j < ?k \<Longrightarrow> 1 \<le> l \<Longrightarrow> l < ?k \<Longrightarrow> j \<noteq> l
      \<Longrightarrow> fown (fsimg s) (dsk (fsimg s) j) \<inter> fown (fsimg s) (dsk (fsimg s) l) = {}"
    using r by (simp_all add: rep_def)
  have m1: "mks ?s1 (lay_fb L)" using R(1) by (simp add: mks_def)
  let ?img = "put ?k ?d (fsimg s)"
  note w = winode_put [OF m1 n, of ?d]
  have hi: "?d i = 0" if "12 \<le> i" for i using that by (simp add: wr32_other wr16_other)
  have dj: "dsk ?img j = (if j = ?k then ?d else dsk (fsimg s) j)" if "j < 200" for j
    using dsk_put [OF n that, of ?d] hi by simp
  have pk: "?img a = fsimg s a" if "data_start \<le> unat a" for a
    using that isect_low(1) [OF n] by (intro put_other) auto
  have new: "inode_rep ?img (lay_fb L) (dsk ?img ?k) t [] 0" "fown ?img (dsk ?img ?k) = {}"
    using zero_file [of ?d] hi dj [OF n] by (simp_all add: inode_rep_def nblk_def rd16_wr32_other rd16_wr16_other) (simp_all add: rd16_def wr16_def wr32_def)
  have old: "inode_rep ?img (lay_fb L) (dsk ?img j) (l_type L j) (l_data L j) (l_size L j) \<and> fown ?img (dsk ?img j) = fown (fsimg s) (dsk (fsimg s) j)"
    if j: "1 \<le> j" "j < ?k" for j
  proof -
    note fj = rep_file [OF r j]
    have "?img a = fsimg s a" if "a \<in> fown (fsimg s) (dsk (fsimg s) j)" for a using that fj(2) by (intro pk) (simp add: fblk_def)
    note f = file_frame [OF this]
    show ?thesis using fj(1) f(1) f(2) [OF _ _ order_refl] f(3) dj [OF fj(4)] j by (auto simp: inode_rep_def)
  qed
  have sb: "sb_of (?img 1) = \<lparr>sb_size = 1024, sb_nblocks = 995, sb_ninodes = 200\<rparr>"
    using R(4) put_other [of 1 ?k ?d "fsimg s"] isect_low(2) [OF n] by auto
  have fi: "freeinode s + 1 = of_nat (Suc ?k)" by (simp add: R(2))
  have "rep (?s1\<lparr>fsimg := ?img\<rparr>) ?L"
    unfolding rep_def lay_fb_ialloc [OF R(3)]
  proof (intro conjI allI impI; (elim conjE)?)
    show "mks (?s1\<lparr>fsimg := ?img\<rparr>) (lay_fb L)" using w(2) by simp
    show "inode_rep (fsimg (?s1\<lparr>fsimg := ?img\<rparr>)) (lay_fb L) (dsk (fsimg (?s1\<lparr>fsimg := ?img\<rparr>)) j) (l_type ?L j) (l_data ?L j) (l_size ?L j)"
      if "1 \<le> j" "j < l_next ?L" for j
      using that new(1) old [of j] by (cases "j = ?k") (auto simp: a_ialloc_def)
    show "fown (fsimg (?s1\<lparr>fsimg := ?img\<rparr>)) (dsk (fsimg (?s1\<lparr>fsimg := ?img\<rparr>)) j) \<inter> fown (fsimg (?s1\<lparr>fsimg := ?img\<rparr>)) (dsk (fsimg (?s1\<lparr>fsimg := ?img\<rparr>)) l) = {}"
      if "1 \<le> j" "j < l_next ?L" "1 \<le> l" "l < l_next ?L" "j \<noteq> l" for j l
      using that new(2) old [of j] old [of l] R(5) [of j l] by (cases "j = ?k"; cases "l = ?k") (auto simp: a_ialloc_def)
  qed (use fi n sb R(3) in \<open>simp_all add: a_ialloc_def\<close>)
  then show ?thesis using w(1) R(2) by (simp add: ialloc_mk_def Let_def)
qed

section \<open>The directory tree in the image\<close>

text \<open>The layout of a host tree: the inodes in the order they are met, each directory with its entries.\<close>

function a_dir :: "hentries \<Rightarrow> nat \<Rightarrow> nat \<Rightarrow> layout \<Rightarrow> layout"
and a_loop :: "hentries \<Rightarrow> nat \<Rightarrow> layout \<Rightarrow> layout" where
  "a_dir es me parent L =
     a_round me (a_loop es me (a_append me (dirent (of_nat parent) ''..'') (a_append me (dirent (of_nat me) ''.'') L)))"
| "a_loop ENil me L = L"
| "a_loop (ECons name h es) me L =
     (if name = ''.'' \<or> name = ''..'' then a_loop es me L
      else a_loop es me (a_append me (dirent (of_nat (l_next L)) name)
        (case h of HDir es' \<Rightarrow> a_dir es' (l_next L) me (a_ialloc T_DIR L) | HFile p \<Rightarrow> a_append (l_next L) p (a_ialloc T_FILE L))))"
  by pat_completeness auto
termination
  by (relation "measure (case_sum (\<lambda>(es, _). 2 * size es + 1) (\<lambda>(es, _). 2 * size es))") auto

declare a_dir.simps [simp del]

text \<open>Layouts only grow, and only in the files a call is about and in new ones.\<close>

definition lay_le :: "layout \<Rightarrow> layout \<Rightarrow> bool" where
  "lay_le L L' \<longleftrightarrow> l_next L \<le> l_next L' \<and> (\<forall>k<l_next L. length (l_data L k) \<le> length (l_data L' k))"

lemma lay_le_refl: "lay_le L L"
  by (simp add: lay_le_def)

lemma lay_le_trans: "lay_le L L' \<Longrightarrow> lay_le L' L'' \<Longrightarrow> lay_le L L''"
  unfolding lay_le_def by (meson le_trans less_le_trans)

lemma fits_le:
  assumes "fits L'" "lay_le L L'"
  shows "fits L"
proof -
  have "(\<Sum>k=1..<l_next L. blocks_for (length (l_data L k))) \<le> (\<Sum>k=1..<l_next L. blocks_for (length (l_data L' k)))"
    using assms(2) by (intro sum_mono blocks_for_mono) (simp add: lay_le_def)
  also have "\<dots> \<le> (\<Sum>k=1..<l_next L'. blocks_for (length (l_data L' k)))"
    using assms(2) by (intro sum_mono2) (auto simp: lay_le_def)
  finally have "lay_fb L \<le> 1024" using assms(1) by (simp add: fits_def lay_fb_def)
  moreover have "length (l_data L k) \<le> MAXFILE * 512" if "1 \<le> k" "k < l_next L" for k
    using assms that unfolding fits_def lay_le_def by (meson le_trans less_le_trans)
  ultimately show ?thesis using assms by (simp add: fits_def lay_le_def)
qed

lemma fits_round [simp]: "fits (a_round k L) = fits L"
  by (simp add: fits_def lay_fb_def a_round_def)

lemma lay_le_steps: "lay_le L (a_append k xs L)" "lay_le L (a_ialloc t L)" "lay_le L (a_round k L)"
  by (auto simp: lay_le_def a_append_def a_ialloc_def a_round_def)

text \<open>The other files stay, and the directory being filled has its true size.\<close>

definition lay_keep :: "nat \<Rightarrow> layout \<Rightarrow> layout \<Rightarrow> bool" where
  "lay_keep me L L' \<longleftrightarrow> lay_le L L' \<and> (\<forall>k<l_next L. k \<noteq> me \<longrightarrow> l_data L' k = l_data L k \<and> l_size L' k = l_size L k \<and> l_type L' k = l_type L k)"

lemma lay_keep_trans: "lay_keep me L L' \<Longrightarrow> lay_keep me L' L'' \<Longrightarrow> lay_keep me L L''"
  unfolding lay_keep_def using lay_le_trans by (auto simp: lay_le_def)

lemma lay_keep_append: "lay_keep me L (a_append me xs L)"
  by (auto simp: lay_keep_def a_append_def lay_le_def)

lemma lay_keep_new: "lay_keep (l_next L) (a_ialloc t L) L' \<Longrightarrow> lay_keep me L L'"
  by (auto simp: lay_keep_def a_ialloc_def lay_le_def)

lemma a_keeps:
  "me < l_next L \<Longrightarrow> lay_keep me L (a_dir es me parent L)"
  "me < l_next L \<Longrightarrow> lay_keep me L (a_loop es me L) \<and> (l_size L me = length (l_data L me) \<longrightarrow> l_size (a_loop es me L) me = length (l_data (a_loop es me L) me))"
proof (induction es me parent L and es me L rule: a_dir_a_loop.induct)
  case (1 es me parent L)
  let ?L = "a_append me (dirent (of_nat parent) ''..'') (a_append me (dirent (of_nat me) ''.'') L)"
  have "lay_keep me L ?L" using lay_keep_append lay_keep_trans by blast
  moreover have "lay_keep me ?L (a_loop es me ?L)" using 1 by (simp add: a_append_def)
  moreover have "lay_keep me M (a_round me M)" for M by (auto simp: lay_keep_def a_round_def lay_le_def)
  ultimately show ?case unfolding a_dir.simps using lay_keep_trans by blast
next
  case (2 me L)
  then show ?case by (simp add: lay_keep_def lay_le_refl)
next
  case (3 name h es me L)
  show ?case
  proof (cases "name = ''.'' \<or> name = ''..''")
    case True
    then show ?thesis using 3 by simp
  next
    case False
    let ?L1 = "case h of HDir es' \<Rightarrow> a_dir es' (l_next L) me (a_ialloc T_DIR L) | HFile p \<Rightarrow> a_append (l_next L) p (a_ialloc T_FILE L)"
    let ?L2 = "a_append me (dirent (of_nat (l_next L)) name) ?L1"
    have "lay_keep (l_next L) (a_ialloc (case h of HDir _ \<Rightarrow> T_DIR | HFile _ \<Rightarrow> T_FILE) L) ?L1"
      using 3(2) [OF False] lay_keep_append by (cases h) (auto simp: a_ialloc_def)
    then have k1: "lay_keep me L ?L1" by (rule lay_keep_new)
    then have k2: "lay_keep me L ?L2" using lay_keep_append lay_keep_trans by blast
    have me: "me < l_next ?L2" using k1 3(4) by (auto simp: lay_keep_def lay_le_def a_append_def)
    have sz: "l_size ?L2 me = length (l_data ?L2 me)" by (simp add: a_append_def)
    show ?thesis using 3(3) [OF False me] k2 sz False lay_keep_trans by auto
  qed
qed

lemma a_append_append: "a_append k ys (a_append k xs L) = a_append k (xs @ ys) L"
  by (simp add: a_append_def)

lemma append_file_ok:
  assumes "rep s L" "1 \<le> k" "k < l_next L" "l_size L k = length (l_data L k)" "fits (a_append k xs L)"
  shows "\<exists>s'. append_file (of_nat k) xs s = Some s' \<and> rep s' (a_append k xs L)"
  using assms
proof (induction "length xs" arbitrary: xs s L rule: less_induct)
  case less
  show ?case
  proof (cases "xs = []")
    case True
    then have "a_append k xs L = L" using less.prems(4) by (cases L) (simp add: a_append_def fun_upd_idem)
    then show ?thesis using True less.prems(1) by (simp add: append_file.simps)
  next
    case False
    let ?L = "a_append k (take 512 xs) L"
    have e: "a_append k (drop 512 xs) ?L = a_append k xs L" by (simp add: a_append_append)
    have "fits ?L" using less.prems(5) fits_le lay_le_steps(1) e by metis
    then obtain s1 where s1: "iappend (of_nat k) (take 512 xs) s = Some s1" "rep s1 ?L"
      using iappend_ok [OF less.prems(1-4)] by blast
    have "\<exists>s'. append_file (of_nat k) (drop 512 xs) s1 = Some s' \<and> rep s' (a_append k (drop 512 xs) ?L)"
      by (rule less.hyps) (use False s1(2) less.prems e in \<open>auto simp: a_append_def\<close>)
    then show ?thesis using s1(1) False e by (subst append_file.simps) auto
  qed
qed

text \<open>\<open>add_dir\<close> and its loop put the layout of the tree into the image.\<close>

lemma add_dir_ok:
  "rep s L \<Longrightarrow> 1 \<le> me \<Longrightarrow> me < l_next L \<Longrightarrow> l_size L me = length (l_data L me) \<Longrightarrow> fits (a_dir es me parent L) \<Longrightarrow>
    \<exists>s'. add_dir es (of_nat me) (of_nat parent) s = Some s' \<and> rep s' (a_dir es me parent L)"
  "rep s L \<Longrightarrow> 1 \<le> me \<Longrightarrow> me < l_next L \<Longrightarrow> l_size L me = length (l_data L me) \<Longrightarrow> fits (a_loop es me L) \<Longrightarrow>
    \<exists>s'. add_loop es (of_nat me) s = Some s' \<and> rep s' (a_loop es me L)"
proof (induction es me parent L and es me L arbitrary: s and s rule: a_dir_a_loop.induct)
  case (1 es me parent L)
  let ?L1 = "a_append me (dirent (of_nat me) ''.'') L"
  let ?L2 = "a_append me (dirent (of_nat parent) ''..'') ?L1"
  have me: "me < l_next ?L1" "me < l_next ?L2" "l_size ?L1 me = length (l_data ?L1 me)" "l_size ?L2 me = length (l_data ?L2 me)"
    using 1(4) by (simp_all add: a_append_def)
  note k = a_keeps(2) [OF me(2), of es]
  have f: "fits (a_loop es me ?L2)" using 1(6) by (simp add: a_dir.simps)
  have le2: "lay_le ?L2 (a_loop es me ?L2)" using k by (simp add: lay_keep_def)
  have f2: "fits ?L2" using fits_le [OF f le2] .
  have f1: "fits ?L1" using fits_le [OF f2 lay_le_steps(1)] .
  obtain s1 where s1: "iappend (of_nat me) (dirent (of_nat me) ''.'') s = Some s1" "rep s1 ?L1"
    using iappend_ok [OF 1(2-5) f1] by blast
  obtain s2 where s2: "iappend (of_nat me) (dirent (of_nat parent) ''..'') s1 = Some s2" "rep s2 ?L2"
    using iappend_ok [OF s1(2) 1(3) me(1,3) f2] by blast
  obtain s3 where s3: "add_loop es (of_nat me) s2 = Some s3" "rep s3 (a_loop es me ?L2)"
    using 1(1) [OF s2(2) 1(3) me(2,4) f] by blast
  have me3: "me < l_next (a_loop es me ?L2)" using me(2) le2 by (simp add: lay_le_def)
  have "length (l_data (a_loop es me ?L2) me) \<le> MAXFILE * 512" using f me3 1(3) by (simp add: fits_def)
  then have "l_size (a_loop es me ?L2) me \<le> MAXFILE * 512" using k me(4) by simp
  then obtain s4 where "fix_size (of_nat me) s3 = Some s4" "rep s4 (a_round me (a_loop es me ?L2))"
    using fix_size_ok [OF s3(2) 1(3) me3] by blast
  then show ?case using s1(1) s2(1) s3(1) by (simp add: a_dir.simps)
next
  case (2 me L)
  then show ?case by simp
next
  case (3 name h es me L)
  show ?case
  proof (cases "name = ''.'' \<or> name = ''..''")
    case True
    then show ?thesis using 3 by simp
  next
    case False
    let ?t = "case h of HDir _ \<Rightarrow> T_DIR | HFile _ \<Rightarrow> T_FILE" and ?c = "l_next L"
    let ?L0 = "a_ialloc ?t L"
    let ?L1 = "case h of HDir es' \<Rightarrow> a_dir es' ?c me (a_ialloc T_DIR L) | HFile p \<Rightarrow> a_append ?c p (a_ialloc T_FILE L)"
    let ?L2 = "a_append me (dirent (of_nat ?c) name) ?L1"
    have c0: "?c < l_next ?L0" "l_size ?L0 ?c = length (l_data ?L0 ?c)" "l_next ?L0 = Suc ?c" by (simp_all add: a_ialloc_def)
    have k1: "lay_keep ?c ?L0 ?L1"
      using a_keeps(1) [OF c0(1)] lay_keep_append by (cases h) auto
    then have keep: "lay_keep me L ?L1" by (rule lay_keep_new)
    have me1: "me < l_next ?L1" "me < l_next ?L2" using 3(6) keep by (auto simp: lay_keep_def lay_le_def a_append_def)
    have sz1: "l_size ?L1 me = length (l_data ?L1 me)" "l_size ?L2 me = length (l_data ?L2 me)"
      using k1 3(6,7) by (auto simp: lay_keep_def a_append_def a_ialloc_def)
    have f: "fits (a_loop es me ?L2)" using 3(8) False by simp
    have f2: "fits ?L2" using fits_le [OF f] a_keeps(2) [OF me1(2), of es] by (simp add: lay_keep_def)
    have f1: "fits ?L1" using fits_le [OF f2 lay_le_steps(1)] .
    have n: "?c < 200" using f1 k1 c0(3) by (auto simp: fits_def lay_keep_def lay_le_def)
    have c1: "1 \<le> ?c" using 3(5,6) by simp
    obtain s0 where s0: "ialloc_mk ?t s = Some (of_nat ?c, s0)" "rep s0 ?L0" using ialloc_ok [OF 3(4) n] by blast
    have "\<exists>s1. (case h of
             HDir es' \<Rightarrow> do { (child, s) \<leftarrow> ialloc_mk T_DIR s; s \<leftarrow> add_dir es' child (of_nat me) s; Some (child, s) }
           | HFile p \<Rightarrow> do { (child, s) \<leftarrow> ialloc_mk T_FILE s; s \<leftarrow> append_file child p s; Some (child, s) }) = Some (of_nat ?c, s1)
         \<and> rep s1 ?L1"
    proof (cases h)
      case (HFile p)
      then have "\<exists>s1. append_file (of_nat ?c) p s0 = Some s1 \<and> rep s1 ?L1"
        using append_file_ok [OF s0(2) c1 c0(1,2)] f1 by simp
      then show ?thesis using s0(1) HFile by auto
    next
      case (HDir es')
      then have "\<exists>s1. add_dir es' (of_nat ?c) (of_nat me) s0 = Some s1 \<and> rep s1 ?L1"
        using 3(2) [OF False HDir, of s0] s0(2) c1 c0(1,2) f1 by simp
      then show ?thesis using s0(1) HDir by (auto simp del: add_dir.simps)
    qed
    then obtain s1 where s1: "(case h of
             HDir es' \<Rightarrow> do { (child, s) \<leftarrow> ialloc_mk T_DIR s; s \<leftarrow> add_dir es' child (of_nat me) s; Some (child, s) }
           | HFile p \<Rightarrow> do { (child, s) \<leftarrow> ialloc_mk T_FILE s; s \<leftarrow> append_file child p s; Some (child, s) }) = Some (of_nat ?c, s1)"
      "rep s1 ?L1" by blast
    obtain s2 where s2: "iappend (of_nat me) (dirent (of_nat ?c) name) s1 = Some s2" "rep s2 ?L2"
      using iappend_ok [OF s1(2) 3(5) me1(1) sz1(1) f2] by blast
    obtain s3 where "add_loop es (of_nat me) s2 = Some s3" "rep s3 (a_loop es me ?L2)"
      using 3(3) [OF False s2(2) 3(5) me1(2) sz1(2) f] by blast
    then show ?thesis using s1(1) s2(1) False by simp
  qed
qed

section \<open>The image holds the tree\<close>

text \<open>
  The files of a disk, type and bytes by inode number, hold a host file or directory at number
  \<open>c\<close> with parent \<open>par\<close>: a file has its bytes; a directory has the entries for itself and its parent,
  then one for each entry of the host with the number that holds it, then zeros to the end of a block.
\<close>

primrec host_in :: "(nat \<rightharpoonup> ushort \<times> uchar list) \<Rightarrow> nat \<Rightarrow> nat \<Rightarrow> host \<Rightarrow> bool"
and ents_in :: "(nat \<rightharpoonup> ushort \<times> uchar list) \<Rightarrow> nat \<Rightarrow> hentries \<Rightarrow> uchar list \<Rightarrow> bool" where
  "host_in D c par (HFile p) \<longleftrightarrow> D c = Some (T_FILE, p)"
| "host_in D c par (HDir es) \<longleftrightarrow> (\<exists>rest n. D c = Some (T_DIR, dirent (of_nat c) ''.'' @ dirent (of_nat par) ''..'' @ rest @ replicate n 0)
     \<and> 0 < n \<and> n \<le> 512 \<and> (32 + length rest + n) mod 512 = 0 \<and> ents_in D c es rest)"
| "ents_in D me ENil data \<longleftrightarrow> data = []"
| "ents_in D me (ECons name h es) data \<longleftrightarrow>
     (if name = ''.'' \<or> name = ''..'' then ents_in D me es data
      else \<exists>c rest. 1 \<le> c \<and> c < 200 \<and> data = dirent (of_nat c) name @ rest \<and> host_in D c me h \<and> ents_in D me es rest)"

definition lay_files :: "layout \<Rightarrow> nat \<rightharpoonup> ushort \<times> uchar list" where
  "lay_files L k = (if 1 \<le> k \<and> k < l_next L
     then Some (l_type L k, l_data L k @ replicate (l_size L k - length (l_data L k)) 0) else None)"

lemma dirent_length: "length (dirent i name) = 16"
  by (simp add: dirent_def)

lemma round_pad: "0 < (n div 512 + 1) * 512 - n" "(n div 512 + 1) * 512 - n \<le> 512" "(n + ((n div 512 + 1) * 512 - n)) mod 512 = (0::nat)"
proof -
  have "n < (n div 512 + 1) * 512" by simp
  moreover have "(n div 512 + 1) * 512 \<le> n + 512" by simp
  ultimately show "0 < (n div 512 + 1) * 512 - n" "(n div 512 + 1) * 512 - n \<le> 512" by linarith+
  have "n + ((n div 512 + 1) * 512 - n) = (n div 512 + 1) * 512" using \<open>n < (n div 512 + 1) * 512\<close> by linarith
  then show "(n + ((n div 512 + 1) * 512 - n)) mod 512 = 0" by simp
qed

lemma lay_keep_files:
  "lay_keep me L L' \<Longrightarrow> k < l_next L \<Longrightarrow> k \<noteq> me \<Longrightarrow> lay_files L' k = lay_files L k"
  by (auto simp: lay_keep_def lay_files_def lay_le_def)

lemma a_holds:
  "1 \<le> me \<Longrightarrow> Suc me = l_next L \<Longrightarrow> l_data L me = [] \<Longrightarrow> l_type L me = T_DIR \<Longrightarrow> l_next (a_dir es me par L) \<le> 200 \<Longrightarrow>
     (\<And>k. me \<le> k \<Longrightarrow> k < l_next (a_dir es me par L) \<Longrightarrow> D k = lay_files (a_dir es me par L) k) \<Longrightarrow> host_in D me par (HDir es)"
  "1 \<le> me \<Longrightarrow> me < l_next L \<Longrightarrow> l_size L me = length (l_data L me) \<Longrightarrow> l_next (a_loop es me L) \<le> 200 \<Longrightarrow>
     (\<And>k. l_next L \<le> k \<Longrightarrow> k < l_next (a_loop es me L) \<Longrightarrow> D k = lay_files (a_loop es me L) k) \<Longrightarrow>
     \<exists>rest. l_data (a_loop es me L) me = l_data L me @ rest \<and> l_type (a_loop es me L) me = l_type L me \<and> ents_in D me es rest"
proof (induction es me par L and es me L rule: a_dir_a_loop.induct)
  case (1 es me par L)
  let ?L = "a_append me (dirent (of_nat par) ''..'') (a_append me (dirent (of_nat me) ''.'') L)"
  let ?M = "a_loop es me ?L"
  have m: "me < l_next ?L" "l_size ?L me = length (l_data ?L me)" "l_next ?L = Suc me" using 1(3) by (simp_all add: a_append_def)
  have e: "a_dir es me par L = a_round me ?M" by (simp add: a_dir.simps)
  have n: "l_next ?M \<le> 200" "me < l_next ?M" using 1(6) e a_keeps(2) [OF m(1), of es] m(1) by (auto simp: a_round_def lay_keep_def lay_le_def)
  have D: "D k = lay_files ?M k" if "l_next ?L \<le> k" "k < l_next ?M" for k
    using 1(7) [of k] that m(3) e by (simp add: a_round_def lay_files_def)
  obtain rest where r: "l_data ?M me = l_data ?L me @ rest" "l_type ?M me = l_type ?L me" "ents_in D me es rest"
    using 1(1) [OF 1(2) m(1,2) n(1) D] by blast
  have d: "l_data ?M me = dirent (of_nat me) ''.'' @ dirent (of_nat par) ''..'' @ rest" using r(1) 1(4) by (simp add: a_append_def)
  have t: "l_type ?M me = T_DIR" using r(2) 1(5) by (simp add: a_append_def)
  have z: "l_size ?M me = length (l_data ?M me)" using a_keeps(2) [OF m(1), of es] m(2) by simp
  let ?n = "32 + length rest"
  have "D me = Some (T_DIR, l_data ?M me @ replicate ((?n div 512 + 1) * 512 - ?n) 0)"
    using 1(7) [of me] 1(2) n(2) e t z d by (simp add: a_round_def lay_files_def dirent_length)
  then show ?case using d r(3) round_pad [of ?n] by (auto intro!: exI [of _ rest] simp del: add_mult_distrib)
next
  case (2 me L)
  then show ?case by simp
next
  case (3 name h es me L)
  show ?case
  proof (cases "name = ''.'' \<or> name = ''..''")
    case True
    then show ?thesis using 3 by simp
  next
    case False
    let ?c = "l_next L"
    let ?L1 = "case h of HDir es' \<Rightarrow> a_dir es' ?c me (a_ialloc T_DIR L) | HFile p \<Rightarrow> a_append ?c p (a_ialloc T_FILE L)"
    let ?L2 = "a_append me (dirent (of_nat ?c) name) ?L1"
    let ?L0 = "a_ialloc (case h of HDir _ \<Rightarrow> T_DIR | HFile _ \<Rightarrow> T_FILE) L"
    let ?M = "a_loop es me ?L2"
    have k0: "lay_keep ?c ?L0 ?L1" using a_keeps(1) lay_keep_append by (cases h) (auto simp: a_ialloc_def)
    have me1: "me < l_next ?L1" "Suc ?c \<le> l_next ?L1" "l_data ?L1 me = l_data L me" "l_type ?L1 me = l_type L me"
      using k0 3(5) by (auto simp: lay_keep_def lay_le_def a_ialloc_def)
    have me2: "me < l_next ?L2" "l_size ?L2 me = length (l_data ?L2 me)" "l_next ?L2 = l_next ?L1" using me1 by (simp_all add: a_append_def)
    have k2: "lay_keep me ?L2 ?M" using a_keeps(2) [OF me2(1), of es] by simp
    have M: "a_loop (ECons name h es) me L = ?M" using False by simp
    have le: "l_next ?L1 \<le> l_next ?M" using k2 me2(3) by (simp add: lay_keep_def lay_le_def)
    have new: "D k = lay_files ?L1 k" if "?c \<le> k" "k < l_next ?L1" for k
    proof -
      have "D k = lay_files ?M k" using 3(8) [of k] that le M by simp
      also have "\<dots> = lay_files ?L2 k" using lay_keep_files [OF k2, of k] that me2(3) 3(5) by simp
      also have "\<dots> = lay_files ?L1 k" using lay_keep_files [OF lay_keep_append, of k] that 3(5) by simp
      finally show ?thesis .
    qed
    have h: "host_in D ?c me h"
    proof (cases h)
      case (HFile p)
      then show ?thesis using new [of ?c] 3(4,5) me1(2) by (simp add: lay_files_def a_append_def a_ialloc_def)
    next
      case (HDir es')
      then show ?thesis using 3(2) [OF False HDir] 3(4,5,7) new le M by (simp add: a_ialloc_def)
    qed
    have "\<exists>rest. l_data ?M me = l_data ?L2 me @ rest \<and> l_type ?M me = l_type ?L2 me \<and> ents_in D me es rest"
      using 3(3) [OF False 3(4) me2(1,2)] 3(7,8) M me1(2) me2(3) by simp
    then obtain rest where "l_data ?M me = l_data ?L2 me @ rest" "l_type ?M me = l_type ?L2 me" "ents_in D me es rest" by blast
    moreover have "l_data ?L2 me = l_data L me @ dirent (of_nat ?c) name" "l_type ?L2 me = l_type L me" using me1 by (simp_all add: a_append_def)
    moreover have "1 \<le> ?c" "?c < 200" using 3(4,5,7) le me1(2) M by simp_all
    ultimately show ?thesis using M False h
      by (intro exI [of _ "dirent (of_nat ?c) name @ rest"]) (auto intro!: exI [of _ ?c])
  qed
qed

section \<open>The empty image and the free map\<close>

definition no_files :: layout where
  "no_files = \<lparr>l_next = 1, l_type = (\<lambda>_. 0), l_data = (\<lambda>_. []), l_size = (\<lambda>_. 0)\<rparr>"

definition tree_layout :: "hentries \<Rightarrow> layout" where
  "tree_layout es = a_dir es 1 1 (a_ialloc T_DIR no_files)"

lemma wipe:
  "n < 4294967296 \<Longrightarrow> fold (\<lambda>i s. Option.bind s (wsect (of_nat i) (\<lambda>_. 0))) [0..<n] (Some (s\<lparr>fsimg := (\<lambda>_ _. 0), fsend := 0\<rparr>))
     = Some (s\<lparr>fsimg := (\<lambda>_ _. 0), fsend := n\<rparr>)"
proof (induction n)
  case (Suc n)
  have "sect (\<lambda>_. 0) = (\<lambda>_. 0)" by (auto simp: sect_at)
  moreover have "unat (of_nat n :: uint) = n" using Suc.prems by (simp add: unat_of_nat_small)
  ultimately show ?case using Suc by (simp add: wsect_def fun_upd_idem max_def)
qed simp

lemma mkfs_empty:
  "\<exists>s. mkfs 995 200 1024 \<lparr>fsimg = (\<lambda>_ _. 0), fsend = 0, freeblock = 0, usedblocks = 0, freeinode = 1\<rparr> = Some s \<and> rep s no_files"
proof -
  let ?init = "\<lparr>fsimg = (\<lambda>_ _. 0), fsend = 0, freeblock = 29, usedblocks = 29, freeinode = 1\<rparr> :: mkst"
  let ?sb = "wr32 (wr32 (wr32 (\<lambda>_. 0) 0 1024) 4 995) 8 200 :: bytes"
  let ?s = "?init\<lparr>fsimg := (\<lambda>_ _. 0)(1 := sect ?sb), fsend := 1024\<rparr>"
  have "fold (\<lambda>i s. Option.bind s (wsect (of_nat i) (\<lambda>_. 0))) [0..<1024] (Some ?init) = Some (?init\<lparr>fsend := 1024\<rparr>)"
    using wipe [of 1024 ?init] by simp
  moreover have "mkfs 995 200 1024 \<lparr>fsimg = (\<lambda>_ _. 0), fsend = 0, freeblock = 0, usedblocks = 0, freeinode = 1\<rparr>
      = Option.bind (fold (\<lambda>i s. Option.bind s (wsect (of_nat i) (\<lambda>_. 0))) [0..<1024] (Some ?init)) (wsect 1 ?sb)"
    by (simp add: mkfs_def Let_def del: upt_rec_numeral)
  ultimately have "mkfs 995 200 1024 \<lparr>fsimg = (\<lambda>_ _. 0), fsend = 0, freeblock = 0, usedblocks = 0, freeinode = 1\<rparr> = Some ?s"
    by (simp add: wsect_def)
  moreover have "rep ?s no_files"
  proof -
    have "sect (sect d) = sect d" for d by (auto simp: sect_at)
    moreover have "sect (\<lambda>_. 0) = (\<lambda>_. 0)" by (auto simp: sect_at)
    ultimately have "mks ?s 29" by (auto simp: mks_def)
    moreover have "sb_of (sect ?sb) = \<lparr>sb_size = 1024, sb_nblocks = 995, sb_ninodes = 200\<rparr>"
      by (simp add: sb_of_def rd32_sect rd32_wr32_other)
    ultimately show ?thesis by (simp add: rep_def no_files_def lay_fb_def)
  qed
  ultimately show ?thesis by blast
qed

lemma map_bits:
  "bit_free (fold (\<lambda>i buf. buf(i div 8 := buf (i div 8) OR push_bit (i mod 8) 1)) [0..<n] (\<lambda>_. 0)) j \<longleftrightarrow> \<not> j < n"
proof -
  have m: "(\<lambda>i buf. buf(i div 8 := buf (i div 8) OR push_bit (i mod 8) 1)) = mark_used"
    by (simp add: fun_eq_iff mark_used_def)
  have "bit_free (\<lambda>_. 0) j" by (simp add: bit_free_def)
  then show ?thesis unfolding m by (induction n) (auto simp: bit_free_mark_used)
qed

section \<open>The image as the kernel sees it\<close>

definition img_view :: "mkst \<Rightarrow> view" where
  "img_view s = (\<lambda>(dev, a). fsimg s a)"

text \<open>The inode \<open>k\<close> of a disk, and the files of a disk by inode number.\<close>

definition disk_ip :: "view \<Rightarrow> uint \<Rightarrow> nat \<Rightarrow> inode" where
  "disk_ip V dev k = disk_inode V (zero_inode\<lparr>i_dev := dev, i_inum := of_nat k\<rparr>)"

definition disk_files :: "view \<Rightarrow> uint \<Rightarrow> nat \<rightharpoonup> ushort \<times> uchar list" where
  "disk_files V dev k = (let p = disk_ip V dev k in
     if 1 \<le> k \<and> k < unat (sb_ninodes (fs_sb V dev)) \<and> i_type p \<noteq> 0
     then Some (i_type p, map (file_byte V p) [0..<unat (i_size p)]) else None)"

lemma ip_dsk:
  assumes "k < 200"
  shows "i_type (disk_ip (img_view s) dev k) = rd16 (dsk (fsimg s) k) 0" "i_nlink (disk_ip (img_view s) dev k) = rd16 (dsk (fsimg s) k) 6"
    "i_size (disk_ip (img_view s) dev k) = rd32 (dsk (fsimg s) k) 8" "i_dev (disk_ip (img_view s) dev k) = dev"
    "j \<le> NDIRECT \<Longrightarrow> i_addrs (disk_ip (img_view s) dev k) j = din_addr (dsk (fsimg s) k) j"
proof -
  have b: "IBLOCK (of_nat k) = isect k" using i2b_isect [of k] assms by (simp add: i2b_def IBLOCK_def)
  have q: "dinode_off (of_nat k) = 64 * (k mod IPB)" using assms by (simp add: dinode_off_def unat_of_nat_small)
  have r32: "rd32 (fsimg s (isect k)) (64 * (k mod IPB) + j) = rd32 (dsk (fsimg s) k) j" if "j + 3 < 64" for j
    using that by (simp add: rd32_def dsk_def add.assoc)
  have r16: "rd16 (fsimg s (isect k)) (64 * (k mod IPB) + j) = rd16 (dsk (fsimg s) k) j" if "j + 1 < 64" for j
    using that by (simp add: rd16_def dsk_def add.assoc)
  note d = disk_ip_def disk_inode_def load_dinode_def img_view_def zero_inode_def b q
  show "i_type (disk_ip (img_view s) dev k) = rd16 (dsk (fsimg s) k) 0" using r16 [of 0] by (simp add: d)
  show "i_nlink (disk_ip (img_view s) dev k) = rd16 (dsk (fsimg s) k) 6" using r16 [of 6] by (simp add: d)
  show "i_size (disk_ip (img_view s) dev k) = rd32 (dsk (fsimg s) k) 8" using r32 [of 8] by (simp add: d)
  show "i_dev (disk_ip (img_view s) dev k) = dev" by (simp add: d)
  show "j \<le> NDIRECT \<Longrightarrow> i_addrs (disk_ip (img_view s) dev k) j = din_addr (dsk (fsimg s) k) j"
    using r32 [of "12 + 4 * j"] by (simp add: d din_addr_def add.assoc)
qed

lemma kernel_file:
  assumes "k < 200"
  shows "baddr (img_view s) (disk_ip (img_view s) dev k) bn = adr (fsimg s) (dsk (fsimg s) k) bn"
    "owned (img_view s) (disk_ip (img_view s) dev k) = fown (fsimg s) (dsk (fsimg s) k)"
    "file_byte (img_view s) (disk_ip (img_view s) dev k) x = fbyte (fsimg s) (dsk (fsimg s) k) x"
proof -
  note i = ip_dsk [OF assms, where s = s and dev = dev]
  show b: "baddr (img_view s) (disk_ip (img_view s) dev k) bn = adr (fsimg s) (dsk (fsimg s) k) bn" for bn
    using i(4,5) by (simp add: baddr_def adr_def img_view_def)
  show "owned (img_view s) (disk_ip (img_view s) dev k) = fown (fsimg s) (dsk (fsimg s) k)"
    using i(5) by (simp add: owned_def fown_def b)
  show "file_byte (img_view s) (disk_ip (img_view s) dev k) x = fbyte (fsimg s) (dsk (fsimg s) k) x"
    by (simp add: file_byte_def fbyte_def b) (simp add: img_view_def)
qed

text \<open>Writing the free map leaves the files, and marks the blocks before the first free one.\<close>

lemma balloc_ok:
  assumes r: "rep s L"
  shows "\<exists>s'. balloc_mk (unat (usedblocks s)) 200 s = Some s' \<and> rep s' L \<and> (\<forall>n<4096. bit_free (fsimg s' 28) n \<longleftrightarrow> \<not> n < lay_fb L)"
proof -
  have m: "mks s (lay_fb L)" "l_next L \<le> 200" using r by (simp_all add: rep_def)
  let ?map = "fold (\<lambda>i buf. buf(i div 8 := buf (i div 8) OR push_bit (i mod 8) 1)) [0..<lay_fb L] (\<lambda>_. 0)"
  let ?t = "s\<lparr>fsimg := (fsimg s)(28 := sect ?map)\<rparr>"
  have u: "unat (usedblocks s) = lay_fb L" "lay_fb L \<le> 1024" "29 \<le> lay_fb L" using m by (simp_all add: mks_def)
  note w = mks_write [OF m(1), of 28 ?map]
  have "balloc_mk (unat (usedblocks s)) 200 s = Some ?t" using u w by (simp add: balloc_mk_def)
  moreover have "bit_free (fsimg ?t 28) n \<longleftrightarrow> \<not> n < lay_fb L" if "n < 4096" for n
  proof -
    have "n div 8 < 512" using that by simp
    then have "bit_free (sect ?map) n = bit_free ?map n" by (simp add: bit_free_def sect_at)
    then show ?thesis using map_bits [of "lay_fb L" n] by simp
  qed
  moreover have "rep ?t L"
  proof -
    have d: "dsk (fsimg ?t) k = dsk (fsimg s) k" if "k < 200" for k
    proof -
      have "unat (isect k) < 28" using isect_unat [OF that] that by simp
      then have "isect k \<noteq> 28" by auto
      then show ?thesis by (auto simp: dsk_def fun_eq_iff)
    qed
    have f: "fown (fsimg ?t) (dsk (fsimg s) k) = fown (fsimg s) (dsk (fsimg s) k)"
      "inode_rep (fsimg ?t) (lay_fb L) (dsk (fsimg s) k) (l_type L k) (l_data L k) (l_size L k)" if "1 \<le> k" "k < l_next L" for k
    proof -
      have i: "inode_rep (fsimg s) (lay_fb L) (dsk (fsimg s) k) (l_type L k) (l_data L k) (l_size L k)" using r that by (simp add: rep_def)
      then have "28 \<notin> fown (fsimg s) (dsk (fsimg s) k)" using fown_low [of "fsimg s" "lay_fb L" "dsk (fsimg s) k" _ 28] by (auto simp: inode_rep_def)
      then have e: "fsimg ?t a = fsimg s a" if "a \<in> fown (fsimg s) (dsk (fsimg s) k)" for a using that by auto
      show "fown (fsimg ?t) (dsk (fsimg s) k) = fown (fsimg s) (dsk (fsimg s) k)" by (rule file_frame(1) [OF e])
      show "inode_rep (fsimg ?t) (lay_fb L) (dsk (fsimg s) k) (l_type L k) (l_data L k) (l_size L k)"
        using i file_frame(2,3) [of "fsimg s" "dsk (fsimg s) k" "fsimg ?t", OF e] unfolding inode_rep_def by blast
    qed
    show ?thesis unfolding rep_def
    proof (intro conjI allI impI)
      show "mks ?t (lay_fb L)" using w u by simp
    qed (use r d f m(2) in \<open>auto simp: rep_def\<close>)
  qed
  ultimately show ?thesis by blast
qed

text \<open>What the kernel finds on an image with the layout \<open>L\<close> and its free map.\<close>

lemma image_disk:
  assumes r: "rep s L" and b: "\<And>n. n < 4096 \<Longrightarrow> bit_free (fsimg s 28) n \<longleftrightarrow> \<not> n < lay_fb L"
  shows "fs_sb (img_view s) 1 = \<lparr>sb_size = 1024, sb_nblocks = 995, sb_ninodes = 200\<rparr>"
    "n < 1024 \<Longrightarrow> used (img_view s) 1 n \<longleftrightarrow> n < lay_fb L" "disk_ok True (img_view s) 1"
proof -
  show sb: "fs_sb (img_view s) 1 = \<lparr>sb_size = 1024, sb_nblocks = 995, sb_ninodes = 200\<rparr>"
    using r by (simp add: rep_def fs_sb_def img_view_def)
  have m: "mks s (lay_fb L)" using r by (simp add: rep_def)
  note g = fs_size_def map_start_def map_block_def map_end_def sb
  show u: "used (img_view s) 1 n \<longleftrightarrow> n < lay_fb L" if "n < 1024" for n
    using b [of n] that by (simp add: used_def g) (simp add: img_view_def)
  show "disk_ok True (img_view s) 1" unfolding disk_ok_def
  proof (intro conjI allI impI)
    show "geometry True (img_view s) 1" by (simp add: geometry_def canon_def g)
    show "used (img_view s) 1 n" if "n < map_end (img_view s) 1" for n
      using that u [of n] m by (simp add: g mks_def)
    show "img_view s (1, a) = (\<lambda>_. 0)" if "unat a < fs_size (img_view s) 1" "\<not> used (img_view s) 1 (unat a)" for a
      using that u [of "unat a"] m by (simp add: g mks_def) (simp add: img_view_def)
  qed
qed

lemma image_wf:
  assumes r: "rep s L" and b: "\<And>n. n < 4096 \<Longrightarrow> bit_free (fsimg s 28) n \<longleftrightarrow> \<not> n < lay_fb L" and k: "1 \<le> k" "k < l_next L"
  shows "file_wf (img_view s) (disk_ip (img_view s) 1 k)"
proof -
  have k2: "k < 200" using r k by (simp add: rep_def)
  let ?V = "img_view s" and ?p = "disk_ip (img_view s) 1 k" and ?d = "dsk (fsimg s) k" and ?nb = "nblk (length (l_data L k))"
  have f: "fblk (fsimg s) (lay_fb L) ?d ?nb" using r k by (simp add: rep_def inode_rep_def)
  have fb: "lay_fb L \<le> 1024" using r by (simp add: rep_def mks_def)
  note K = kernel_file [OF k2, where s = s and dev = 1] ip_dsk(4,5) [OF k2, where s = s and dev = 1] and D = image_disk [OF r b]
  show ?thesis unfolding file_wf_def K
  proof (intro conjI ballI allI impI)
    fix a assume "a \<in> fown (fsimg s) ?d"
    then have "29 \<le> unat a" "unat a < lay_fb L" using f by (auto simp: fblk_def)
    then show "data_blk ?V 1 a" "used ?V 1 (unat a)"
      using fb D(1) D(2) [of "unat a"] by (simp_all add: data_blk_def map_end_def map_start_def fs_size_def)
  next
    fix bn assume bn: "bn < MAXFILE" "adr (fsimg s) ?d bn \<noteq> 0"
    then have "bn < ?nb" using f by (auto simp: fblk_def)
    then show "adr (fsimg s) ?d bn \<noteq> i_addrs ?p NDIRECT" using f K(5) by (auto simp: fblk_def)
    fix bm assume "bm < MAXFILE" "adr (fsimg s) ?d bm = adr (fsimg s) ?d bn"
    then show "bm = bn" using bn f \<open>bn < ?nb\<close> unfolding fblk_def by metis
  qed
qed

lemma nblk_holds: "bn * 512 < n \<Longrightarrow> bn < nblk n"
  by (auto simp: nblk_def)

lemma image_ok:
  assumes r: "rep s L" and b: "\<And>n. n < 4096 \<Longrightarrow> bit_free (fsimg s 28) n \<longleftrightarrow> \<not> n < lay_fb L" and k: "1 \<le> k" "k < l_next L"
    and z: "l_size L k = length (l_data L k)" "length (l_data L k) \<le> MAXFILE * 512"
  shows "file_ok (img_view s) (disk_ip (img_view s) 1 k)"
proof -
  have k2: "k < 200" using r k by (simp add: rep_def)
  have i: "rd32 (dsk (fsimg s) k) 8 = of_nat (l_size L k)" "fblk (fsimg s) (lay_fb L) (dsk (fsimg s) k) (nblk (length (l_data L k)))"
    using r k by (simp_all add: rep_def inode_rep_def)
  have sz: "unat (i_size (disk_ip (img_view s) 1 k)) = length (l_data L k)"
    using ip_dsk(3) [OF k2, where s = s and dev = 1] i(1) z by (simp add: unat_of_nat_small)
  have "bn < MAXFILE \<and> baddr (img_view s) (disk_ip (img_view s) 1 k) bn \<noteq> 0" if "bn * 512 < length (l_data L k)" for bn
    using nblk_holds [OF that] i(2) that z(2) by (auto simp: kernel_file(1) [OF k2] fblk_def)
  then show ?thesis using image_wf [OF r b k] sz z(2) by (simp add: file_ok_def no_holes_def)
qed

text \<open>In the layout of a tree a file has its size and a directory is rounded up.\<close>

definition sized :: "layout \<Rightarrow> bool" where
  "sized L \<longleftrightarrow> (\<forall>k. 1 \<le> k \<and> k < l_next L \<longrightarrow> (l_type L k = T_DIR \<or> l_type L k = T_FILE \<and> l_size L k = length (l_data L k))
     \<and> length (l_data L k) \<le> l_size L k \<and> l_size L k \<le> length (l_data L k) + 512)"

lemma sized_steps:
  "sized L \<Longrightarrow> sized (a_append k xs L)" "sized L \<Longrightarrow> t = T_DIR \<or> t = T_FILE \<Longrightarrow> sized (a_ialloc t L)"
  by (auto simp: sized_def a_append_def a_ialloc_def less_Suc_eq)

lemma sized_round:
  assumes "sized L" "l_type L k = T_DIR" "l_size L k = length (l_data L k)"
  shows "sized (a_round k L)"
proof -
  have "length (l_data L k) \<le> (length (l_data L k) div 512 + 1) * 512 \<and> (length (l_data L k) div 512 + 1) * 512 \<le> length (l_data L k) + 512"
    using round_pad(1,2) [of "length (l_data L k)"] by linarith
  then show ?thesis using assms unfolding sized_def a_round_def by auto
qed

lemma a_sized:
  "sized L \<Longrightarrow> me < l_next L \<Longrightarrow> l_type L me = T_DIR \<Longrightarrow> sized (a_dir es me par L)"
  "sized L \<Longrightarrow> me < l_next L \<Longrightarrow> l_type L me = T_DIR \<Longrightarrow> sized (a_loop es me L) \<and> l_type (a_loop es me L) me = T_DIR"
proof (induction es me par L and es me L rule: a_dir_a_loop.induct)
  case (1 es me par L)
  let ?L = "a_append me (dirent (of_nat par) ''..'') (a_append me (dirent (of_nat me) ''.'') L)"
  have m: "me < l_next ?L" "l_size ?L me = length (l_data ?L me)" "l_type ?L me = T_DIR" using 1(3,4) by (simp_all add: a_append_def)
  have "sized (a_loop es me ?L) \<and> l_type (a_loop es me ?L) me = T_DIR" using 1(1) [OF _ m(1,3)] 1(2) sized_steps(1) by blast
  then show ?case unfolding a_dir.simps using sized_round a_keeps(2) [OF m(1), of es] m(2) by blast
next
  case (2 me L)
  then show ?case by simp
next
  case (3 name h es me L)
  show ?case
  proof (cases "name = ''.'' \<or> name = ''..''")
    case True
    then show ?thesis using 3 by simp
  next
    case False
    let ?L1 = "case h of HDir es' \<Rightarrow> a_dir es' (l_next L) me (a_ialloc T_DIR L) | HFile p \<Rightarrow> a_append (l_next L) p (a_ialloc T_FILE L)"
    let ?L2 = "a_append me (dirent (of_nat (l_next L)) name) ?L1"
    have "lay_keep (l_next L) (a_ialloc (case h of HDir _ \<Rightarrow> T_DIR | HFile _ \<Rightarrow> T_FILE) L) ?L1"
      using a_keeps(1) lay_keep_append by (cases h) (auto simp: a_ialloc_def)
    then have m: "me < l_next ?L2" "l_type ?L2 me = T_DIR" using 3(5,6) by (auto simp: lay_keep_def lay_le_def a_ialloc_def a_append_def)
    have "sized ?L1"
    proof (cases h)
      case (HFile p)
      then show ?thesis using 3(4) sized_steps by simp
    next
      case (HDir es')
      then show ?thesis using 3(2) [OF False HDir] sized_steps(2) [OF 3(4), of T_DIR] by (simp add: a_ialloc_def)
    qed
    then show ?thesis using 3(3) [OF False _ m] sized_steps(1) False by simp
  qed
qed

text \<open>The bytes the kernel finds in a file.\<close>

lemma image_bytes:
  assumes r: "rep s L" and k: "1 \<le> k" "k < l_next L" and z: "sized L" "length (l_data L k) \<le> MAXFILE * 512"
  shows "disk_files (img_view s) 1 k = lay_files L k"
proof -
  have k2: "k < 200" using r k by (simp add: rep_def)
  let ?d = "dsk (fsimg s) k" and ?xs = "l_data L k"
  have i: "rd16 ?d 0 = l_type L k" "rd32 ?d 8 = of_nat (l_size L k)" "fcont (fsimg s) ?d ?xs"
    using r k by (simp_all add: rep_def inode_rep_def)
  have sb: "fs_sb (img_view s) 1 = \<lparr>sb_size = 1024, sb_nblocks = 995, sb_ninodes = 200\<rparr>"
    using r by (simp add: rep_def fs_sb_def img_view_def)
  have ty: "l_type L k \<noteq> 0" and le: "length ?xs \<le> l_size L k" "l_size L k \<le> length ?xs + 512" using z(1) k by (auto simp: sized_def)
  have sz: "unat (rd32 ?d 8) = l_size L k" using i(2) le z(2) by (simp add: unat_of_nat_small)
  have "fbyte (fsimg s) ?d x = (if x < length ?xs then ?xs ! x else 0)" if x: "x < l_size L k" for x
  proof (cases "x < MAXFILE * 512")
    case True
    then show ?thesis using i(3) by (simp add: fcont_def)
  next
    case False
    have "sect (fsimg s a) = fsimg s a" for a using r by (simp add: rep_def mks_def)
    then have "fsimg s a j = 0" if "512 \<le> j" for a j using that sect_at [of "fsimg s a" j] by simp
    moreover have "MAXFILE \<le> x div 512" using False by (simp add: div_le_mono)
    ultimately have "adr (fsimg s) ?d (x div 512) = 0" by (auto simp: adr_def rd32_def)
    then show ?thesis using False z(2) by (simp add: fbyte_def)
  qed
  then have "map (fbyte (fsimg s) ?d) [0..<l_size L k] = ?xs @ replicate (l_size L k - length ?xs) 0"
    using le(1) by (intro nth_equalityI) (auto simp: nth_append)
  moreover have "file_byte (img_view s) (disk_ip (img_view s) 1 k) = fbyte (fsimg s) ?d" using kernel_file(3) [OF k2] by blast
  ultimately show ?thesis
    using k k2 ty i(1) sz by (simp add: disk_files_def lay_files_def Let_def sb ip_dsk [OF k2])
qed

lemma main_ok:
  assumes "fits (tree_layout es)"
  shows "\<exists>s. mkfs_main es = Some s \<and> rep s (tree_layout es) \<and> (\<forall>n<4096. bit_free (fsimg s 28) n \<longleftrightarrow> \<not> n < lay_fb (tree_layout es))"
proof -
  let ?L = "a_ialloc T_DIR no_files"
  have nx: "l_next no_files = 1" by (simp add: no_files_def)
  obtain s0 where s0: "mkfs 995 200 1024 \<lparr>fsimg = (\<lambda>_ _. 0), fsend = 0, freeblock = 0, usedblocks = 0, freeinode = 1\<rparr> = Some s0" "rep s0 no_files"
    using mkfs_empty by blast
  obtain s1 where s1: "ialloc_mk T_DIR s0 = Some (1, s1)" "rep s1 ?L" using ialloc_ok [OF s0(2), of T_DIR] nx by auto
  have "\<exists>s2. add_dir es (of_nat 1) (of_nat 1) s1 = Some s2 \<and> rep s2 (a_dir es 1 1 ?L)"
    by (rule add_dir_ok(1) [OF s1(2)]) (use assms in \<open>simp_all add: tree_layout_def a_ialloc_def nx\<close>)
  then obtain s2 where s2: "add_dir es 1 1 s1 = Some s2" "rep s2 (tree_layout es)" by (auto simp: tree_layout_def simp del: add_dir.simps)
  then show ?thesis using balloc_ok [OF s2(2)] s0(1) s1(1) by (simp add: mkfs_main_def del: add_dir.simps)
qed

text \<open>
  C35: \<open>mkfs\<close> builds the image of a host directory that fits it: it does not fail, the kernel finds the
  super block, a free map that marks the metadata and the blocks of files and no others, and the
  whole host tree from the root inode down, every file with its bytes and every directory with
  the entries that lead to its files; each inode has one link and blocks of its own, shared with no other
  inode, and the kernel can read every regular file to its end.
\<close>

theorem mkfs_image:
  assumes "fits (tree_layout es)"
  shows "\<exists>s. mkfs_main es = Some s \<and> fs_sb (img_view s) 1 = \<lparr>sb_size = 1024, sb_nblocks = 995, sb_ninodes = 200\<rparr>
    \<and> disk_ok True (img_view s) 1 \<and> host_in (disk_files (img_view s) 1) 1 1 (HDir es)
    \<and> (\<forall>k\<in>{1..<l_next (tree_layout es)}. let p = disk_ip (img_view s) 1 k in
         i_nlink p = 1 \<and> file_wf (img_view s) p \<and> (i_type p = T_FILE \<longrightarrow> file_ok (img_view s) p)
         \<and> (\<forall>l\<in>{1..<l_next (tree_layout es)}. l \<noteq> k \<longrightarrow> owned (img_view s) p \<inter> owned (img_view s) (disk_ip (img_view s) 1 l) = {}))"
proof -
  let ?L = "tree_layout es" and ?I = "a_ialloc T_DIR no_files"
  obtain s where s: "mkfs_main es = Some s" "rep s ?L" and b: "\<And>n. n < 4096 \<Longrightarrow> bit_free (fsimg s 28) n \<longleftrightarrow> \<not> n < lay_fb ?L"
    using main_ok [OF assms] by blast
  have I: "1 < l_next ?I" "l_type ?I 1 = T_DIR" "sized ?I" "Suc 1 = l_next ?I" "l_data ?I 1 = []"
    by (auto simp: a_ialloc_def no_files_def sized_def)
  have z: "sized ?L" using a_sized(1) [OF I(3,1,2)] by (simp add: tree_layout_def)
  have len: "length (l_data ?L k) \<le> MAXFILE * 512" "k < 200" if "1 \<le> k" "k < l_next ?L" for k using assms that by (auto simp: fits_def)
  have n: "l_next ?L \<le> 200" using assms by (simp add: fits_def)
  have "host_in (disk_files (img_view s) 1) 1 1 (HDir es)"
    using a_holds(1) [of 1 ?I es 1 "disk_files (img_view s) 1"] I n image_bytes [OF s(2) _ _ z len(1)] by (simp add: tree_layout_def)
  moreover have "let p = disk_ip (img_view s) 1 k in
         i_nlink p = 1 \<and> file_wf (img_view s) p \<and> (i_type p = T_FILE \<longrightarrow> file_ok (img_view s) p)
         \<and> (\<forall>l\<in>{1..<l_next ?L}. l \<noteq> k \<longrightarrow> owned (img_view s) p \<inter> owned (img_view s) (disk_ip (img_view s) 1 l) = {})"
    if k: "1 \<le> k" "k < l_next ?L" for k
  proof -
    have i: "rd16 (dsk (fsimg s) k) 0 = l_type ?L k" "rd16 (dsk (fsimg s) k) 6 = 1" using s(2) k by (simp_all add: rep_def inode_rep_def)
    have "l_type ?L k = T_FILE \<Longrightarrow> l_size ?L k = length (l_data ?L k)" using z k by (auto simp: sized_def)
    then have "l_type ?L k = T_FILE \<Longrightarrow> file_ok (img_view s) (disk_ip (img_view s) 1 k)" using image_ok [OF s(2) b k] len(1) [OF k] by blast
    moreover have "owned (img_view s) (disk_ip (img_view s) 1 k) \<inter> owned (img_view s) (disk_ip (img_view s) 1 l) = {}"
      if "1 \<le> l" "l < l_next ?L" "l \<noteq> k" for l
      using s(2) k that by (simp add: kernel_file(2) len(2) rep_def)
    ultimately show ?thesis using image_wf [OF s(2) b k] i by (simp add: Let_def ip_dsk [OF len(2) [OF k]])
  qed
  ultimately show ?thesis using s(1) image_disk(1,3) [OF s(2) b] by auto
qed

theorem mkfs_image_witness:
  "\<exists>s. mkfs_main (ECons ''d'' (HDir (ECons ''f'' (HFile [7, 8, 9]) ENil)) ENil) = Some s
    \<and> disk_ok True (img_view s) 1
    \<and> host_in (disk_files (img_view s) 1) 1 1 (HDir (ECons ''d'' (HDir (ECons ''f'' (HFile [7, 8, 9]) ENil)) ENil))"
proof -
  let ?es = "ECons ''d'' (HDir (ECons ''f'' (HFile [7, 8, 9]) ENil)) ENil"
  have "fits (tree_layout ?es)"
    by (simp add: fits_def lay_fb_def tree_layout_def a_dir.simps a_append_def a_ialloc_def a_round_def no_files_def dirent_length
      blocks_for_def nblk_def numeral_3_eq_3 numeral_2_eq_2)
  from mkfs_image [OF this] show ?thesis by blast
qed

end
