(* ===== verification/Shell.thy ===== *)
theory Shell
  imports User_Lib
begin

text \<open>
  The shell (\<open>user/sh.c\<close>): the parser and the running of commands. The line is a string \<open>s\<close>; a
  pointer into it is an offset, \<open>es\<close> is its length, and the character there is the NUL. A word is
  the pair of its offsets \<open>q\<close> and \<open>eq\<close>. Memory for the commands is taken to be available; a
  \<open>panic\<close> is an error value.
\<close>

section \<open>Tokens\<close>

abbreviation O_RDONLY :: int where "O_RDONLY \<equiv> 0"
abbreviation O_WRONLY :: int where "O_WRONLY \<equiv> 1"
abbreviation O_RDWR :: int where "O_RDWR \<equiv> 2"
abbreviation O_CREATE :: int where "O_CREATE \<equiv> 0x200"
abbreviation MAXARGS :: nat where "MAXARGS \<equiv> 10"

abbreviation nul :: char where "nul \<equiv> CHR 0x00"

definition whitespace :: string where
  "whitespace = [CHR '' '', CHR 0x09, CHR 0x0D, CHR 0x0A, CHR 0x0B]"

definition symbols :: string where
  "symbols = ''<|>&;()''"

definition char_at :: "string \<Rightarrow> nat \<Rightarrow> char" where
  "char_at s i = (if i < length s then s ! i else nul)"

function skip_white :: "string \<Rightarrow> nat \<Rightarrow> nat" where
  "skip_white s i = (if i < length s \<and> strchr whitespace (char_at s i) \<noteq> None then skip_white s (i + 1) else i)"
  by pat_completeness auto
termination by (relation "measure (\<lambda>(s, i). length s - i)") auto

function skip_word :: "string \<Rightarrow> nat \<Rightarrow> nat" where
  "skip_word s i =
     (if i < length s \<and> strchr whitespace (char_at s i) = None \<and> strchr symbols (char_at s i) = None
      then skip_word s (i + 1) else i)"
  by pat_completeness auto
termination by (relation "measure (\<lambda>(s, i). length s - i)") auto

declare skip_white.simps [simp del] skip_word.simps [simp del]

text \<open>\<open>gettoken\<close> returns the kind of token, its bounds and the new position.\<close>

definition gettoken :: "string \<Rightarrow> nat \<Rightarrow> char \<times> nat \<times> nat \<times> nat" where
  "gettoken s i =
     (let q = skip_white s i; c = char_at s q;
          (ret, eq) =
            (if c = nul then (c, q)
             else if c \<in> set ''|();&<'' then (c, q + 1)
             else if c = CHR ''>'' then
               (if char_at s (q + 1) = CHR ''>'' then (CHR ''+'', q + 2) else (c, q + 1))
             else (CHR ''a'', skip_word s q))
      in (ret, q, eq, skip_white s eq))"

definition after_token :: "string \<Rightarrow> nat \<Rightarrow> nat" where
  "after_token s i = snd (snd (snd (gettoken s i)))"

definition peek :: "string \<Rightarrow> nat \<Rightarrow> string \<Rightarrow> nat \<times> bool" where
  "peek s i toks =
     (let j = skip_white s i in (j, char_at s j \<noteq> nul \<and> strchr toks (char_at s j) \<noteq> None))"

lemma skip_white_ge: "i \<le> skip_white s i"
  by (induction s i rule: skip_white.induct) (subst skip_white.simps, auto)

lemma skip_word_ge: "i \<le> skip_word s i"
  by (induction s i rule: skip_word.induct) (subst skip_word.simps, auto)

lemma skip_white_idem: "skip_white s (skip_white s i) = skip_white s i"
  by (induction s i rule: skip_white.induct) (metis skip_white.simps)

lemma gettoken_ge: "gettoken s i = (t, q, eq, j) \<Longrightarrow> skip_white s i \<le> j \<and> i \<le> j"
proof -
  assume g: "gettoken s i = (t, q, eq, j)"
  then have "j = skip_white s eq" "skip_white s i \<le> eq"
    using skip_word_ge [of "skip_white s i" s] by (auto simp: gettoken_def Let_def split: if_splits)
  then show ?thesis using skip_white_ge [of eq s] skip_white_ge [of i s] by simp
qed

text \<open>A token that is a symbol is consumed.\<close>

lemma gettoken_symbol:
  assumes "peek s i toks = (j, True)" "set toks \<subseteq> set symbols" "gettoken s j = (t, q, eq, k)"
  shows "i \<le> j \<and> j < k \<and> j < length s \<and> t \<noteq> CHR ''a''"
proof -
  let ?c = "char_at s j"
  have j: "j = skip_white s i" "?c \<noteq> nul" "strchr toks ?c \<noteq> None"
    using assms(1) by (auto simp: peek_def Let_def)
  then have "?c \<in> set symbols" using assms(2) by (auto simp: strchr_None)
  moreover have "skip_white s j = j" using j(1) by (simp add: skip_white_idem)
  ultimately have "j < eq" "k = skip_white s eq" "t \<noteq> CHR ''a''"
    using assms(3) j(2) by (auto simp: gettoken_def Let_def symbols_def split: if_splits)
  then show ?thesis
    using j skip_white_ge [of eq s] skip_white_ge [of i s] by (auto simp: char_at_def split: if_splits)
qed

lemma after_token_less:
  assumes "peek s i toks = (j, True)" "set toks \<subseteq> set symbols"
  shows "i \<le> j \<and> j < after_token s j \<and> j < length s"
proof -
  obtain t q eq k where g: "gettoken s j = (t, q, eq, k)" by (cases "gettoken s j") auto
  then show ?thesis using gettoken_symbol [OF assms g] by (simp add: after_token_def)
qed

lemma redirs_less:
  assumes "peek s i ''<>'' = (j, True)" "gettoken s j = (t, q, eq, k)" "gettoken s k = (t', q', eq', l)"
  shows "length s - l < length s - i"
  using gettoken_symbol [OF assms(1) _ assms(2)] gettoken_ge [OF assms(3)] by (auto simp: symbols_def)

section \<open>Commands\<close>

type_synonym word_pos = "nat \<times> nat"

datatype 'w cmd =
    EXEC "'w list"
  | REDIR "'w cmd" 'w int int
  | PIPE "'w cmd" "'w cmd"
  | LIST "'w cmd" "'w cmd"
  | BACK "'w cmd"

datatype 'a parsed = Parsed 'a nat | Perror string | Pfuel

text \<open>
  \<open>parseredirs\<close> wraps the command in a \<open>redircmd\<close> for each redirection it reads. In
  \<open>parseexec\<close> the innermost command is still being filled with arguments while it is already
  wrapped, so the redirections are collected and put around it at the end.
\<close>

type_synonym 'w redir = "'w \<times> int \<times> int"

definition redircmd :: "'w cmd \<Rightarrow> 'w redir \<Rightarrow> 'w cmd" where
  "redircmd c r = (case r of (file, mode, fd) \<Rightarrow> REDIR c file mode fd)"

definition pbind :: "'a parsed \<Rightarrow> ('a \<Rightarrow> nat \<Rightarrow> 'b parsed) \<Rightarrow> 'b parsed" where
  "pbind m f = (case m of Parsed x i \<Rightarrow> f x i | Perror e \<Rightarrow> Perror e | Pfuel \<Rightarrow> Pfuel)"

lemma pbind_simps [simp]:
  "pbind (Parsed x i) f = f x i" "pbind (Perror e) f = Perror e" "pbind Pfuel f = Pfuel"
  by (simp_all add: pbind_def)

lemma pbind_cong [fundef_cong]:
  "m = m' \<Longrightarrow> (\<And>x i. m' = Parsed x i \<Longrightarrow> f x i = g x i) \<Longrightarrow> pbind m f = pbind m' g"
  by (cases m') simp_all

function parseredirs :: "string \<Rightarrow> nat \<Rightarrow> word_pos redir list parsed" where
  "parseredirs s i =
     (case peek s i ''<>'' of (j, found) \<Rightarrow>
        if \<not> found then Parsed [] j
        else case gettoken s j of (tok, _, _, k) \<Rightarrow>
          (case gettoken s k of (tok', q, eq, l) \<Rightarrow>
             if tok' \<noteq> CHR ''a'' then Perror ''missing file for redirection''
             else pbind (parseredirs s l) (\<lambda>rs.
               Parsed ((if tok = CHR ''<'' then ((q, eq), O_RDONLY, 0)
                        else ((q, eq), O_WRONLY + O_CREATE, 1)) # rs))))"
  by pat_completeness auto
termination
  by (relation "measure (\<lambda>(s, i). length s - i)") (auto intro: redirs_less [OF sym sym sym])

declare parseredirs.simps [simp del]

text \<open>The argument loop of \<open>parseexec\<close>, with \<open>MAXARGS - argc\<close> as its first argument.\<close>

fun exec_args :: "nat \<Rightarrow> string \<Rightarrow> nat \<Rightarrow> (word_pos list \<times> word_pos redir list) parsed" where
  "exec_args 0 s i = Perror ''too many args''"
| "exec_args (Suc n) s i =
     (case peek s i ''|)&;'' of (j, found) \<Rightarrow>
        if found then Parsed ([], []) j
        else case gettoken s j of (tok, q, eq, k) \<Rightarrow>
          if tok = nul then Parsed ([], []) k
          else if tok \<noteq> CHR ''a'' then Perror ''syntax''
          else if n = 0 then Perror ''too many args''
          else
            pbind (parseredirs s k) (\<lambda>rs l.
            pbind (exec_args n s l) (\<lambda>(args, rs').
            Parsed ((q, eq) # args, rs @ rs'))))"

text \<open>The loop of \<open>parseline\<close> over \<open>&\<close>.\<close>

function backs :: "string \<Rightarrow> word_pos cmd \<Rightarrow> nat \<Rightarrow> word_pos cmd \<times> nat" where
  "backs s c i =
     (case peek s i ''&'' of (j, found) \<Rightarrow>
        if found then backs s (BACK c) (after_token s j) else (c, j))"
  by pat_completeness auto
termination
  by (relation "measure (\<lambda>(s, c, i). length s - i)")
     (auto simp: symbols_def dest!: after_token_less [OF sym])

declare backs.simps [simp del]

text \<open>
  The parser proper. The first argument bounds the depth of the recursion; the bound
  \<open>parsecmd\<close> starts with is never reached (\<open>parsecmd_total\<close> below).
\<close>

fun parseline :: "nat \<Rightarrow> string \<Rightarrow> nat \<Rightarrow> word_pos cmd parsed"
and parsepipe :: "nat \<Rightarrow> string \<Rightarrow> nat \<Rightarrow> word_pos cmd parsed"
and parseexec :: "nat \<Rightarrow> string \<Rightarrow> nat \<Rightarrow> word_pos cmd parsed"
and parseblock :: "nat \<Rightarrow> string \<Rightarrow> nat \<Rightarrow> word_pos cmd parsed"
where
  "parseline 0 s i = Pfuel"
| "parseline (Suc f) s i =
     pbind (parsepipe f s i) (\<lambda>c j.
       case backs s c j of (c, k) \<Rightarrow>
         (case peek s k '';'' of (l, found) \<Rightarrow>
            if found then pbind (parseline f s (after_token s l)) (\<lambda>c'. Parsed (LIST c c'))
            else Parsed c l))"
| "parsepipe 0 s i = Pfuel"
| "parsepipe (Suc f) s i =
     pbind (parseexec f s i) (\<lambda>c j.
       case peek s j ''|'' of (k, found) \<Rightarrow>
         if found then pbind (parsepipe f s (after_token s k)) (\<lambda>c'. Parsed (PIPE c c'))
         else Parsed c k)"
| "parseexec 0 s i = Pfuel"
| "parseexec (Suc f) s i =
     (case peek s i ''('' of (j, found) \<Rightarrow>
        if found then parseblock f s j
        else
          pbind (parseredirs s j) (\<lambda>rs k.
          pbind (exec_args MAXARGS s k) (\<lambda>(args, rs').
          Parsed (foldl redircmd (EXEC args) (rs @ rs')))))"
| "parseblock 0 s i = Pfuel"
| "parseblock (Suc f) s i =
     (case peek s i ''('' of (j, found) \<Rightarrow>
        if \<not> found then Perror ''parseblock''
        else
          pbind (parseline f s (after_token s j)) (\<lambda>c k.
            case peek s k '')'' of (l, found) \<Rightarrow>
              if \<not> found then Perror ''syntax - missing )''
              else pbind (parseredirs s (after_token s l)) (\<lambda>rs. Parsed (foldl redircmd c rs))))"

text \<open>\<open>nulterminate\<close> writes a NUL behind every word.\<close>

fun nulterminate :: "word_pos cmd \<Rightarrow> string \<Rightarrow> string" where
  "nulterminate (EXEC args) s = fold (\<lambda>(q, eq) s. s[eq := nul]) args s"
| "nulterminate (REDIR c f mode fd) s = (nulterminate c s)[snd f := nul]"
| "nulterminate (PIPE l r) s = nulterminate r (nulterminate l s)"
| "nulterminate (LIST l r) s = nulterminate r (nulterminate l s)"
| "nulterminate (BACK c) s = nulterminate c s"

text \<open>
  The result: the command and the buffer its words are in, or the message of the \<open>panic\<close>, after what
  is printed before it when a part of the line is left over.
\<close>

definition parsecmd :: "string \<Rightarrow> (word_pos cmd \<times> string) parsed" where
  "parsecmd s =
     pbind (parseline (4 * length s + 4) s 0) (\<lambda>c i.
       case peek s i [] of (j, _) \<Rightarrow>
         if j \<noteq> length s then Perror (uprintf ''leftovers: %s\<newline>'' [VStr (Some (drop j s))] @ ''syntax'')
         else Parsed (c, nulterminate c s) j)"

section \<open>Running a command\<close>

text \<open>
  A running program is the tree of its system calls: after each call it goes on depending on the
  result, the returned number and, for \<open>pipe\<close>, the two descriptors. \<open>fork\<close> returns twice. An
  \<open>exec\<close> that succeeds does not return.
\<close>

datatype scall =
    Fork | Wait | Pipe | Close int | Dup int | Exec string "string list"
  | Open string int | Write int string | Chdir string

type_synonym ures = "int \<times> int \<times> int"

datatype uprog = Uexit | Ucall scall "ures \<Rightarrow> uprog"

text \<open>\<open>printf\<close> writes one character at a time.\<close>

definition uputs :: "int \<Rightarrow> string \<Rightarrow> uprog \<Rightarrow> uprog" where
  "uputs fd t p = foldr (\<lambda>c p. Ucall (Write fd [c]) (\<lambda>_. p)) t p"

definition sh_panic :: "string \<Rightarrow> uprog" where
  "sh_panic t = uputs 2 (uprintf ''%s\<newline>'' [VStr (Some t)]) Uexit"

definition fork1 :: "uprog \<Rightarrow> uprog \<Rightarrow> uprog" where
  "fork1 child parent =
     Ucall Fork (\<lambda>(pid, _). if pid = - 1 then sh_panic ''fork'' else if pid = 0 then child else parent)"

text \<open>A word in the buffer, up to the NUL behind it.\<close>

definition cstr :: "string \<Rightarrow> nat \<Rightarrow> string" where
  "cstr b q = takeWhile (\<lambda>c. c \<noteq> nul) (drop q b)"

fun runcmd :: "string \<Rightarrow> word_pos cmd \<Rightarrow> uprog" where
  "runcmd b (EXEC args) =
     (if args = [] then Uexit
      else Ucall (Exec (cstr b (fst (hd args))) (map (\<lambda>(q, eq). cstr b q) args)) (\<lambda>_.
        uputs 2 (uprintf ''exec %s failed\<newline>'' [VStr (Some (cstr b (fst (hd args))))]) Uexit))"
| "runcmd b (REDIR c (q, eq) mode fd) =
     Ucall (Close fd) (\<lambda>_.
     Ucall (Open (cstr b q) mode) (\<lambda>(r, _).
       if r < 0 then uputs 2 (uprintf ''open %s failed\<newline>'' [VStr (Some (cstr b q))]) Uexit
       else runcmd b c))"
| "runcmd b (LIST l r) = fork1 (runcmd b l) (Ucall Wait (\<lambda>_. runcmd b r))"
| "runcmd b (PIPE l r) =
     Ucall Pipe (\<lambda>(res, p0, p1).
       if res < 0 then sh_panic ''pipe''
       else
         fork1 (Ucall (Close 1) (\<lambda>_. Ucall (Dup p1) (\<lambda>_. Ucall (Close p0) (\<lambda>_. Ucall (Close p1) (\<lambda>_. runcmd b l)))))
         (fork1 (Ucall (Close 0) (\<lambda>_. Ucall (Dup p0) (\<lambda>_. Ucall (Close p0) (\<lambda>_. Ucall (Close p1) (\<lambda>_. runcmd b r)))))
         (Ucall (Close p0) (\<lambda>_. Ucall (Close p1) (\<lambda>_. Ucall Wait (\<lambda>_. Ucall Wait (\<lambda>_. Uexit)))))))"
| "runcmd b (BACK c) = fork1 (runcmd b c) Uexit"

text \<open>What the child does with a line: a \<open>panic\<close> of the parser is printed and ends it.\<close>

definition run_line :: "string \<Rightarrow> uprog" where
  "run_line s =
     (case parsecmd s of
        Parsed (c, b) _ \<Rightarrow> runcmd b c
      | Perror m \<Rightarrow> sh_panic m
      | Pfuel \<Rightarrow> Uexit)"

text \<open>
  One line in \<open>main\<close>, with what follows it: \<open>cd\<close> is done by the shell itself, after the last
  character of the line is cut off; everything else is done by a child.
\<close>

definition sh_line :: "string \<Rightarrow> uprog \<Rightarrow> uprog" where
  "sh_line buf p =
     (if take 3 buf = ''cd '' then
        Ucall (Chdir (drop 3 (butlast buf))) (\<lambda>(r, _).
          if r < 0 then uputs 2 (uprintf ''cannot cd %s\<newline>'' [VStr (Some (drop 3 (butlast buf)))]) p else p)
      else fork1 (run_line buf) (Ucall Wait (\<lambda>_. p)))"

text \<open>The string in \<open>buf\<close> after \<open>gets\<close>: a NUL in the input ends it.\<close>

definition getcmd :: "string option list \<Rightarrow> string \<times> string option list" where
  "getcmd cs = (case gets 100 cs of (t, cs') \<Rightarrow> (takeWhile (\<lambda>c. c \<noteq> nul) t, cs'))"

lemma gets_loop_less:
  "gets_loop k cs = (t, cs') \<Longrightarrow> reads_left cs' \<le> reads_left cs \<and> (t \<noteq> [] \<longrightarrow> reads_left cs' < reads_left cs)"
proof (induction k cs arbitrary: t cs' rule: gets_loop.induct)
  case (2 k cs)
  obtain cc u cs1 where r: "read_chunk 1 cs = (cc, u, cs1)" by (cases "read_chunk 1 cs") auto
  have le: "reads_left cs1 \<le> reads_left cs"
    using r by (cases cs rule: list.exhaust; cases "hd cs") (auto simp: reads_left_def split: if_splits)
  show ?case
  proof (cases "cc < 1")
    case True
    then show ?thesis using 2(2) r le by simp
  next
    case False
    then have "reads_left cs1 < reads_left cs" using read_chunk_less [OF r] by simp
    then show ?thesis
      using 2(2) r False 2(1) [OF r [symmetric] refl] le
      by (cases "gets_loop k cs1") (fastforce split: if_splits)
  qed
qed simp

text \<open>The lines \<open>main\<close> reads, up to the end of the input, and what it does with them.\<close>

function sh_lines :: "string option list \<Rightarrow> string list" where
  "sh_lines cs =
     (case getcmd cs of (buf, cs') \<Rightarrow> if buf = [] then [] else buf # sh_lines cs')"
  by pat_completeness auto
termination
  by (relation "measure reads_left") (auto simp: getcmd_def gets_def split: prod.splits dest!: gets_loop_less)

definition sh_loop :: "string option list \<Rightarrow> uprog" where
  "sh_loop cs = uputs 2 (uprintf ''$ '' []) (foldr (\<lambda>buf p. sh_line buf (uputs 2 (uprintf ''$ '' []) p)) (sh_lines cs) Uexit)"

end
