(* ===== verification/Shell_Parse.thy ===== *)
theory Shell_Parse
  imports Shell
begin

text \<open>
  The shell's parser (\<open>user/sh.c\<close>): it ends on every line, the words of the commands it returns
  are separate strings of the line, and it reads back a printed command.
\<close>

section \<open>The parser ends\<close>

lemma peek_ge: "peek s i toks = (j, b) \<Longrightarrow> i \<le> j"
  using skip_white_ge by (auto simp: peek_def Let_def)

lemma backs_ge: "backs s c i = (c', j) \<Longrightarrow> i \<le> j"
proof (induction s c i arbitrary: c' j rule: backs.induct)
  case (1 s c i)
  obtain k b where p: "peek s i ''&'' = (k, b)" by fastforce
  show ?case
  proof (cases b)
    case True
    then show ?thesis
      using 1 p after_token_less [of s i "''&''" k] by (subst (asm) (2) backs.simps) (fastforce simp: symbols_def)
  next
    case False
    then show ?thesis using 1(2) p peek_ge [OF p] by (subst (asm) backs.simps) simp
  qed
qed

lemma parseredirs_ge: "parseredirs s i \<noteq> Pfuel \<and> (\<forall>rs j. parseredirs s i = Parsed rs j \<longrightarrow> i \<le> j)"
proof (induction s i rule: parseredirs.induct)
  case (1 s i)
  obtain j b where p: "peek s i ''<>'' = (j, b)" by fastforce
  obtain t q eq k where g: "gettoken s j = (t, q, eq, k)" by (cases "gettoken s j") auto
  obtain t' q' eq' l where g': "gettoken s k = (t', q', eq', l)" by (cases "gettoken s k") auto
  have le: "i \<le> j" "j \<le> k" "k \<le> l" using peek_ge [OF p] gettoken_ge [OF g] gettoken_ge [OF g'] by simp_all
  show ?case
  proof (cases "b \<and> t' = CHR ''a''")
    case True
    then have "parseredirs s l \<noteq> Pfuel \<and> (\<forall>rs e. parseredirs s l = Parsed rs e \<longrightarrow> l \<le> e)"
      using 1 [OF p [symmetric] _ g [symmetric] refl refl g' [symmetric] refl refl] by simp
    then show ?thesis
      using True p g g' le by (subst (1 2) parseredirs.simps) (cases "parseredirs s l"; auto)
  next
    case False
    then show ?thesis using p g g' le by (subst (1 2) parseredirs.simps) auto
  qed
qed

lemma exec_args_ge:
  "exec_args n s i \<noteq> Pfuel \<and> (\<forall>x j. exec_args n s i = Parsed x j \<longrightarrow> i \<le> j)"
proof (induction n arbitrary: i)
  case (Suc n)
  obtain j b where p: "peek s i ''|)&;'' = (j, b)" by fastforce
  obtain t q eq k where g: "gettoken s j = (t, q, eq, k)" by (cases "gettoken s j") auto
  have le: "i \<le> j" "j \<le> k" using peek_ge [OF p] gettoken_ge [OF g] by simp_all
  show ?case
  proof (cases "parseredirs s k")
    case (Parsed rs l)
    then have "k \<le> l" using parseredirs_ge by blast
    then show ?thesis using Suc.IH [of l] p g le Parsed by (cases "exec_args n s l") auto
  qed (use p g le parseredirs_ge [of s k] in auto)
qed simp

text \<open>No function of the parser moves back.\<close>

lemma parse_ge:
  "\<forall>c j. parseline f s i = Parsed c j \<longrightarrow> i \<le> j"
  "\<forall>c j. parsepipe f s i = Parsed c j \<longrightarrow> i \<le> j"
  "\<forall>c j. parseexec f s i = Parsed c j \<longrightarrow> i \<le> j"
  "\<forall>c j. parseblock f s i = Parsed c j \<longrightarrow> i \<le> j"
proof (induction f arbitrary: i)
  case (Suc f)
  note IH = Suc.IH [rule_format]
  {
    case 1
    show ?case
    proof (intro allI impI)
      fix c j assume r: "parseline (Suc f) s i = Parsed c j"
      then obtain c1 j1 where 1: "parsepipe f s i = Parsed c1 j1" by (cases "parsepipe f s i") auto
      obtain c2 k where 2: "backs s c1 j1 = (c2, k)" by fastforce
      obtain l b where 3: "peek s k '';'' = (l, b)" by fastforce
      have le: "i \<le> j1" "j1 \<le> k" "k \<le> l" using IH(2) [OF 1] backs_ge [OF 2] peek_ge [OF 3] by simp_all
      show "i \<le> j"
      proof (cases b)
        case True
        then show ?thesis
          using r 1 2 3 le after_token_less [of s k "'';''" l] IH(1) [of "after_token s l"]
          by (cases "parseline f s (after_token s l)") (auto simp: symbols_def)
      qed (use r 1 2 3 le in auto)
    qed
  next
    case 2
    show ?case
    proof (intro allI impI)
      fix c j assume r: "parsepipe (Suc f) s i = Parsed c j"
      then obtain c1 j1 where 1: "parseexec f s i = Parsed c1 j1" by (cases "parseexec f s i") auto
      obtain l b where 3: "peek s j1 ''|'' = (l, b)" by fastforce
      have le: "i \<le> j1" "j1 \<le> l" using IH(3) [OF 1] peek_ge [OF 3] by simp_all
      show "i \<le> j"
      proof (cases b)
        case True
        then show ?thesis
          using r 1 3 le after_token_less [of s j1 "''|''" l] IH(2) [of "after_token s l"]
          by (cases "parsepipe f s (after_token s l)") (auto simp: symbols_def)
      qed (use r 1 3 le in auto)
    qed
  next
    case 3
    obtain l b where 3: "peek s i ''('' = (l, b)" by fastforce
    show ?case
    proof (cases b)
      case True
      then show ?thesis using 3 peek_ge [OF 3] IH(4) [of l] by fastforce
    next
      case False
      then show ?thesis
        using 3 peek_ge [OF 3] parseredirs_ge [of s l] exec_args_ge [of MAXARGS s]
        by (cases "parseredirs s l") (fastforce simp: pbind_def split: parsed.splits)+
    qed
  next
    case 4
    show ?case
    proof (intro allI impI)
      fix c j assume r: "parseblock (Suc f) s i = Parsed c j"
      obtain l b where 1: "peek s i ''('' = (l, b)" by fastforce
      have b: b using r 1 by (cases b) auto
      obtain c1 k where 2: "parseline f s (after_token s l) = Parsed c1 k"
        using r 1 b by (cases "parseline f s (after_token s l)") auto
      obtain m b' where 3: "peek s k '')'' = (m, b')" by fastforce
      have b': b' using r 1 2 3 b by (cases b') auto
      have "i \<le> k" using IH(1) [OF 2] after_token_less [of s i "''(''" l] 1 b by (simp add: symbols_def)
      moreover have "k \<le> after_token s m" using after_token_less [of s k "'')''" m] 3 b' by (simp add: symbols_def)
      ultimately show "i \<le> j"
        using r 1 2 3 b b' parseredirs_ge [of s "after_token s m"]
        by (cases "parseredirs s (after_token s m)") auto
    qed
  }
qed simp_all

text \<open>
  Every level of the recursion either goes to a deeper function at the same position or has
  consumed a character.
\<close>

lemma parse_fuel:
  "4 * (length s - i) + 4 \<le> f \<Longrightarrow> parseline f s i \<noteq> Pfuel"
  "4 * (length s - i) + 3 \<le> f \<Longrightarrow> parsepipe f s i \<noteq> Pfuel"
  "4 * (length s - i) + 2 \<le> f \<Longrightarrow> parseexec f s i \<noteq> Pfuel"
  "4 * (length s - i) + 1 \<le> f \<Longrightarrow> parseblock f s i \<noteq> Pfuel"
proof (induction f arbitrary: i)
  case (Suc f)
  note IH = Suc.IH
  {
    case 1
    show ?case
    proof (cases "parsepipe f s i")
      case (Parsed c1 j1)
      obtain c2 k where 2: "backs s c1 j1 = (c2, k)" by fastforce
      obtain l b where 3: "peek s k '';'' = (l, b)" by fastforce
      have le: "i \<le> l" using parse_ge(2) Parsed backs_ge [OF 2] peek_ge [OF 3] by fastforce
      show ?thesis
      proof (cases b)
        case True
        then have "l < after_token s l" "l < length s"
          using after_token_less [of s k "'';''" l] 3 by (auto simp: symbols_def)
        then have "parseline f s (after_token s l) \<noteq> Pfuel" using 1 le by (intro IH(1)) simp
        then show ?thesis using Parsed 2 3 True by (cases "parseline f s (after_token s l)") auto
      qed (use Parsed 2 3 in auto)
    next
      case Pfuel
      moreover have "parsepipe f s i \<noteq> Pfuel" using 1 by (intro IH(2)) simp
      ultimately show ?thesis by simp
    qed simp
  next
    case 2
    show ?case
    proof (cases "parseexec f s i")
      case (Parsed c1 j1)
      obtain l b where 3: "peek s j1 ''|'' = (l, b)" by fastforce
      have le: "i \<le> l" using parse_ge(3) Parsed peek_ge [OF 3] by fastforce
      show ?thesis
      proof (cases b)
        case True
        then have "l < after_token s l" "l < length s"
          using after_token_less [of s j1 "''|''" l] 3 by (auto simp: symbols_def)
        then have "parsepipe f s (after_token s l) \<noteq> Pfuel" using 2 le by (intro IH(2)) simp
        then show ?thesis using Parsed 3 True by (cases "parsepipe f s (after_token s l)") auto
      qed (use Parsed 3 in auto)
    next
      case Pfuel
      moreover have "parseexec f s i \<noteq> Pfuel" using 2 by (intro IH(3)) simp
      ultimately show ?thesis by simp
    qed simp
  next
    case 3
    obtain l b where p: "peek s i ''('' = (l, b)" by fastforce
    show ?case
    proof (cases b)
      case True
      then have "parseblock f s l \<noteq> Pfuel" using 3 peek_ge [OF p] by (intro IH(4)) simp
      then show ?thesis using p True by simp
    next
      case False
      then show ?thesis
        using p parseredirs_ge [of s l] exec_args_ge [of MAXARGS s]
        by (cases "parseredirs s l") (auto simp: pbind_def split: parsed.splits)
    qed
  next
    case 4
    obtain l b where 1: "peek s i ''('' = (l, b)" by fastforce
    show ?case
    proof (cases b)
      case True
      then have "i \<le> l" "l < after_token s l" "l < length s"
        using after_token_less [of s i "''(''" l] 1 by (auto simp: symbols_def)
      then have "parseline f s (after_token s l) \<noteq> Pfuel" using 4 by (intro IH(1)) simp
      then show ?thesis
        using 1 True parseredirs_ge [of s] by (auto simp: pbind_def split: parsed.splits prod.splits)
    qed (use 1 in simp)
  }
qed simp_all

text \<open>More depth does not change the result.\<close>

lemma parse_more:
  "parseline f s i \<noteq> Pfuel \<Longrightarrow> parseline (Suc f) s i = parseline f s i"
  "parsepipe f s i \<noteq> Pfuel \<Longrightarrow> parsepipe (Suc f) s i = parsepipe f s i"
  "parseexec f s i \<noteq> Pfuel \<Longrightarrow> parseexec (Suc f) s i = parseexec f s i"
  "parseblock f s i \<noteq> Pfuel \<Longrightarrow> parseblock (Suc f) s i = parseblock f s i"
proof (induction f arbitrary: i)
  case (Suc f)
  note IH = Suc.IH
  {
    case 1
    then have "parsepipe (Suc f) s i = parsepipe f s i" by (intro IH(2)) auto
    then show ?case
      using 1 IH(1) unfolding parseline.simps(2)
      by (cases "parsepipe f s i") (auto simp: pbind_def split: prod.splits if_splits parsed.splits)
  next
    case 2
    then have "parseexec (Suc f) s i = parseexec f s i" by (intro IH(3)) auto
    then show ?case
      using 2 IH(2) unfolding parsepipe.simps(2)
      by (cases "parseexec f s i") (auto simp: pbind_def split: prod.splits if_splits parsed.splits)
  next
    case 3
    then show ?case using IH(4) unfolding parseexec.simps(2) by (auto split: prod.splits simp del: parseblock.simps)
  next
    case 4
    then show ?case
      using IH(1) unfolding parseblock.simps(2)
      by (auto simp: pbind_def split: prod.splits if_splits parsed.splits)
  }
qed simp_all

lemma parse_enough:
  assumes "4 * length s + 4 \<le> f"
  shows "parseline f s 0 = parseline (4 * length s + 4) s 0"
  using assms
proof (induction f rule: dec_induct)
  case (step f)
  then show ?case using parse_more(1) [of f s 0] parse_fuel(1) [of s 0 f] by simp
qed simp

text \<open>
  C30: the shell's parser ends on every line, however deep the commands are nested: it returns a
  command or an error, and its depth of recursion is at most four for each character (a deeper
  bound gives the same result).
\<close>

theorem parsecmd_total:
  "parsecmd s \<noteq> Pfuel
   \<and> (\<forall>k. parsecmd s = pbind (parseline (4 * length s + 4 + k) s 0) (\<lambda>c i.
        case peek s i [] of (j, _) \<Rightarrow>
          if j \<noteq> length s then Perror (uprintf ''leftovers: %s\<newline>'' [VStr (Some (drop j s))] @ ''syntax'')
         else Parsed (c, nulterminate c s) j))"
proof (intro conjI allI)
  show "parsecmd s \<noteq> Pfuel"
    using parse_fuel(1) [of s 0 "4 * length s + 4"]
    by (cases "parseline (4 * length s + 4) s 0") (simp_all add: parsecmd_def split: prod.split)
  fix k
  show "parsecmd s = pbind (parseline (4 * length s + 4 + k) s 0) (\<lambda>c i.
        case peek s i [] of (j, _) \<Rightarrow>
          if j \<noteq> length s then Perror (uprintf ''leftovers: %s\<newline>'' [VStr (Some (drop j s))] @ ''syntax'')
         else Parsed (c, nulterminate c s) j)"
    unfolding parsecmd_def parse_enough [of s "4 * length s + 4 + k", OF le_add1] ..
qed

section \<open>Words\<close>

definition word_char :: "char \<Rightarrow> bool" where
  "word_char c \<longleftrightarrow> c \<notin> set whitespace \<and> c \<notin> set symbols"

text \<open>A word is not empty and is as long as it can be.\<close>

definition word_ok :: "string \<Rightarrow> word_pos \<Rightarrow> bool" where
  "word_ok s w \<longleftrightarrow> fst w < snd w \<and> snd w \<le> length s \<and> (\<forall>p. fst w \<le> p \<and> p < snd w \<longrightarrow> word_char (s ! p))
     \<and> (snd w < length s \<longrightarrow> \<not> word_char (s ! snd w))"

fun cmd_words :: "'w cmd \<Rightarrow> 'w list" where
  "cmd_words (EXEC args) = args"
| "cmd_words (REDIR c f mode fd) = f # cmd_words c"
| "cmd_words (PIPE l r) = cmd_words l @ cmd_words r"
| "cmd_words (LIST l r) = cmd_words l @ cmd_words r"
| "cmd_words (BACK c) = cmd_words c"

text \<open>The arguments with the null pointer behind them fit \<open>argv\<close>, and a redirection has one of the two forms.\<close>

fun cmd_fits :: "'w cmd \<Rightarrow> bool" where
  "cmd_fits (EXEC args) \<longleftrightarrow> length args < MAXARGS"
| "cmd_fits (REDIR c f mode fd) \<longleftrightarrow>
     (mode = O_RDONLY \<and> fd = 0 \<or> mode = O_WRONLY + O_CREATE \<and> fd = 1) \<and> cmd_fits c"
| "cmd_fits (PIPE l r) \<longleftrightarrow> cmd_fits l \<and> cmd_fits r"
| "cmd_fits (LIST l r) \<longleftrightarrow> cmd_fits l \<and> cmd_fits r"
| "cmd_fits (BACK c) \<longleftrightarrow> cmd_fits c"

definition cmd_ok :: "string \<Rightarrow> word_pos cmd \<Rightarrow> bool" where
  "cmd_ok s c \<longleftrightarrow> list_all (word_ok s) (cmd_words c) \<and> cmd_fits c"

definition redir_ok :: "string \<Rightarrow> word_pos redir \<Rightarrow> bool" where
  "redir_ok s r \<longleftrightarrow> word_ok s (fst r) \<and> (snd r = (O_RDONLY, 0) \<or> snd r = (O_WRONLY + O_CREATE, 1))"

lemma skip_word_eq: "skip_word s i = i + length (takeWhile word_char (drop i s))"
proof (induction s i rule: skip_word.induct)
  case (1 s i)
  show ?case
  proof (cases "i < length s")
    case True
    then have "drop i s = s ! i # drop (i + 1) s" by (simp add: Cons_nth_drop_Suc)
    moreover have "strchr whitespace (char_at s i) = None \<and> strchr symbols (char_at s i) = None \<longleftrightarrow> word_char (s ! i)"
      using True by (simp add: char_at_def strchr_None word_char_def)
    ultimately show ?thesis using 1 True by (subst skip_word.simps) simp
  qed (subst skip_word.simps, simp)
qed

lemma skip_white_eq: "skip_white s i = i + length (takeWhile (\<lambda>c. c \<in> set whitespace) (drop i s))"
proof (induction s i rule: skip_white.induct)
  case (1 s i)
  show ?case
  proof (cases "i < length s")
    case True
    then have "drop i s = s ! i # drop (i + 1) s" by (simp add: Cons_nth_drop_Suc)
    then show ?thesis
      using 1 True by (subst skip_white.simps) (auto simp: char_at_def strchr_None)
  qed (subst skip_white.simps, simp)
qed

lemma skip_word_end:
  assumes "i \<le> length s"
  shows "skip_word s i \<le> length s" "i \<le> p \<Longrightarrow> p < skip_word s i \<Longrightarrow> word_char (s ! p)"
    "skip_word s i < length s \<Longrightarrow> \<not> word_char (s ! skip_word s i)"
proof -
  let ?t = "takeWhile word_char (drop i s)"
  have len: "length ?t \<le> length s - i" using length_takeWhile_le [of word_char "drop i s"] by simp
  then show "skip_word s i \<le> length s" using assms by (simp add: skip_word_eq)
  show "word_char (s ! p)" if "i \<le> p" "p < skip_word s i"
  proof -
    have "p - i < length ?t" using that by (simp add: skip_word_eq)
    then have "?t ! (p - i) = s ! p" "?t ! (p - i) \<in> set ?t" using that assms len takeWhile_nth by (fastforce, simp)
    then show ?thesis by (metis set_takeWhileD)
  qed
  show "\<not> word_char (s ! skip_word s i)" if "skip_word s i < length s"
    using that assms nth_length_takeWhile [of word_char "drop i s"] by (simp add: skip_word_eq)
qed

lemma skip_white_end: "skip_white s i < length s \<Longrightarrow> s ! skip_white s i \<notin> set whitespace"
  using nth_length_takeWhile [of "\<lambda>c. c \<in> set whitespace" "drop i s"]
  by (cases "i \<le> length s") (simp_all add: skip_white_eq)

lemma gettoken_word:
  assumes "gettoken s i = (CHR ''a'', q, eq, j)"
  shows "word_ok s (q, eq)"
proof -
  have q: "q = skip_white s i" "char_at s q \<noteq> nul" "char_at s q \<notin> set symbols" "eq = skip_word s q"
    using assms by (auto simp: gettoken_def Let_def symbols_def split: if_splits)
  then have l: "q < length s" by (auto simp: char_at_def split: if_splits)
  then have w: "word_char (s ! q)" using q skip_white_end [of s i] by (auto simp: char_at_def word_char_def)
  then have "skip_word s q = skip_word s (q + 1)" using l by (subst skip_word.simps) (simp add: char_at_def strchr_None word_char_def)
  then have "q < eq" using skip_word_ge [of "q + 1" s] q(4) by simp
  then show ?thesis using skip_word_end [of q s] l q(4) by (simp add: word_ok_def)
qed

lemma parseredirs_ok: "parseredirs s i = Parsed rs j \<Longrightarrow> list_all (redir_ok s) rs"
proof (induction s i arbitrary: rs rule: parseredirs.induct)
  case (1 s i)
  obtain j' b where p: "peek s i ''<>'' = (j', b)" by fastforce
  obtain t q eq k where g: "gettoken s j' = (t, q, eq, k)" by (cases "gettoken s j'") auto
  obtain t' q' eq' l where g': "gettoken s k = (t', q', eq', l)" by (cases "gettoken s k") auto
  show ?case
  proof (cases b)
    case True
    then have t': "t' = CHR ''a''" using 1(2) p g g' by (subst (asm) parseredirs.simps) (auto split: if_splits)
    then obtain rs' where rs': "parseredirs s l = Parsed rs' j"
      "rs = (if t = CHR ''<'' then ((q', eq'), O_RDONLY, 0) else ((q', eq'), O_WRONLY + O_CREATE, 1)) # rs'"
      using 1(2) p g g' True by (subst (asm) parseredirs.simps) (cases "parseredirs s l"; auto)
    then have "list_all (redir_ok s) rs'" using 1(1) [OF p [symmetric] _ g [symmetric] refl refl g' [symmetric] refl refl] True t' by simp
    moreover have "word_ok s (q', eq')" using gettoken_word g' t' by blast
    then have "redir_ok s (if t = CHR ''<'' then ((q', eq'), O_RDONLY, 0) else ((q', eq'), O_WRONLY + O_CREATE, 1))"
      by (simp add: redir_ok_def)
    ultimately show ?thesis using rs'(2) by simp
  next
    case False
    then show ?thesis using 1(2) p by (subst (asm) parseredirs.simps) auto
  qed
qed

lemma exec_args_ok:
  "exec_args n s i = Parsed (args, rs) j \<Longrightarrow> length args < n \<and> list_all (word_ok s) args \<and> list_all (redir_ok s) rs"
proof (induction n arbitrary: i args rs)
  case (Suc n)
  obtain j' b where p: "peek s i ''|)&;'' = (j', b)" by fastforce
  obtain t q eq k where g: "gettoken s j' = (t, q, eq, k)" by (cases "gettoken s j'") auto
  show ?case
  proof (cases "b \<or> t = nul")
    case True
    then show ?thesis using Suc.prems p g by (auto split: if_splits)
  next
    case False
    then have t: "t = CHR ''a''" "n \<noteq> 0" using Suc.prems p g by (auto split: if_splits)
    then obtain rs1 l args2 rs2 where e: "parseredirs s k = Parsed rs1 l" "exec_args n s l = Parsed (args2, rs2) j"
      "args = (q, eq) # args2" "rs = rs1 @ rs2"
      using Suc.prems p g False by (auto simp: pbind_def split: parsed.splits)
    then show ?thesis using Suc.IH [OF e(2)] parseredirs_ok [OF e(1)] gettoken_word g t by auto
  qed
qed simp

lemma redircmds_ok: "list_all (redir_ok s) rs \<Longrightarrow> cmd_ok s c \<Longrightarrow> cmd_ok s (foldl redircmd c rs)"
  by (induction rs arbitrary: c) (auto simp: redir_ok_def cmd_ok_def redircmd_def split: prod.splits)

lemma backs_ok: "backs s c i = (c', j) \<Longrightarrow> cmd_ok s c \<Longrightarrow> cmd_ok s c'"
proof (induction s c i arbitrary: c' j rule: backs.induct)
  case (1 s c i)
  then show ?case by (subst (asm) (2) backs.simps) (auto simp: cmd_ok_def split: prod.splits if_splits)
qed

lemma parse_ok:
  "\<forall>c j. parseline f s i = Parsed c j \<longrightarrow> cmd_ok s c"
  "\<forall>c j. parsepipe f s i = Parsed c j \<longrightarrow> cmd_ok s c"
  "\<forall>c j. parseexec f s i = Parsed c j \<longrightarrow> cmd_ok s c"
  "\<forall>c j. parseblock f s i = Parsed c j \<longrightarrow> cmd_ok s c"
proof (induction f arbitrary: i)
  case (Suc f)
  note IH = Suc.IH [rule_format]
  {
    case 1
    show ?case using IH(1,2) backs_ok unfolding parseline.simps(2) pbind_def
      by (fastforce simp: cmd_ok_def split: parsed.splits prod.splits if_splits)
  next
    case 2
    show ?case using IH(2,3) unfolding parsepipe.simps(2) pbind_def
      by (fastforce simp: cmd_ok_def split: parsed.splits prod.splits if_splits)
  next
    case 3
    have "cmd_ok s (foldl redircmd (EXEC args) (rs @ rs'))"
      if "parseredirs s l = Parsed rs k" "exec_args MAXARGS s k = Parsed (args, rs') j" for l rs k args rs' j
      using redircmds_ok [of s "rs @ rs'" "EXEC args"] parseredirs_ok [OF that(1)] exec_args_ok [OF that(2)]
      by (simp add: cmd_ok_def)
    then show ?case using IH(4) unfolding parseexec.simps(2) pbind_def
      by (fastforce split: parsed.splits prod.splits if_splits)
  next
    case 4
    show ?case using IH(1) redircmds_ok parseredirs_ok unfolding parseblock.simps(2) pbind_def
      by (fastforce split: parsed.splits prod.splits if_splits)
  }
qed simp_all

section \<open>The strings behind the words\<close>

lemma nulterminate_at:
  "length (nulterminate c s) = length s
   \<and> (p < length s \<longrightarrow> nulterminate c s ! p = (if p \<in> snd ` set (cmd_words c) then nul else s ! p))"
proof (induction c arbitrary: s)
  case (EXEC args)
  then show ?case by (induction args arbitrary: s) (auto simp: nth_list_update split: prod.splits)
next
  case (REDIR c f mode fd)
  then show ?case by (cases "p = snd f") (simp_all add: nth_list_update)
qed (simp_all add: image_Un)

definition word_str :: "string \<Rightarrow> word_pos \<Rightarrow> string" where
  "word_str s w = take (snd w - fst w) (drop (fst w) s)"

lemma word_str_ok:
  assumes "word_ok s w"
  shows "list_all word_char (word_str s w) \<and> word_str s w \<noteq> []"
  using assms by (auto simp: word_ok_def word_str_def list_all_length)

lemma cstr_word:
  assumes "nul \<notin> set s" and "list_all (word_ok s) (cmd_words c)" and "w \<in> set (cmd_words c)"
  shows "cstr (nulterminate c s) (fst w) = word_str s w"
proof -
  let ?b = "nulterminate c s" and ?n = "snd w - fst w"
  have w: "word_ok s w" and ws: "\<And>v. v \<in> set (cmd_words c) \<Longrightarrow> word_ok s v" using assms by (auto simp: list_all_iff)
  have b: "?b ! p = s ! p" if "fst w \<le> p" "p < snd w" for p
  proof -
    have "p < length s" "word_char (s ! p)" using w that by (auto simp: word_ok_def)
    moreover have "p \<notin> snd ` set (cmd_words c)" using ws calculation by (auto simp: word_ok_def)
    ultimately show ?thesis using nulterminate_at by simp
  qed
  have eq: "take ?n (drop (fst w) ?b) = word_str s w"
    using w nulterminate_at [of c s] by (intro nth_equalityI) (auto simp: word_str_def word_ok_def b)
  have split: "drop (fst w) ?b = word_str s w @ drop (snd w) ?b"
    using w eq append_take_drop_id [of ?n "drop (fst w) ?b"] by (simp add: word_ok_def)
  have nn: "nul \<notin> set (word_str s w)" using assms(1) by (auto simp: word_str_def dest: in_set_takeD in_set_dropD)
  have "drop (snd w) ?b = [] \<or> hd (drop (snd w) ?b) = nul"
    using assms(3) nulterminate_at [of c s "snd w"] by (cases "snd w < length s") (auto simp: hd_drop_conv_nth)
  then have "takeWhile (\<lambda>c. c \<noteq> nul) (drop (snd w) ?b) = []" by (cases "drop (snd w) ?b") auto
  then show ?thesis using nn by (simp add: cstr_def split takeWhile_append)
qed

text \<open>
  C29: every word of a parsed command, argument or file name, is afterwards a string of its own in
  the line: read up to its NUL it is exactly the characters the parser saw between its bounds,
  at least one, none of them white space or a symbol. No \<open>NUL\<close> that ends one word cuts another. The
  arguments of each command and the null pointer behind them fit \<open>argv\<close>, and a redirection is of
  input from descriptor 0 or of output to descriptor 1.
\<close>

theorem parsecmd_words:
  assumes "nul \<notin> set s" and "parsecmd s = Parsed (c, b) i"
  shows "(\<forall>w\<in>set (cmd_words c). cstr b (fst w) = word_str s w \<and> word_str s w \<noteq> [] \<and> list_all word_char (word_str s w))
    \<and> cmd_fits c"
proof -
  obtain j where p: "parseline (4 * length s + 4) s 0 = Parsed c j" "b = nulterminate c s"
    using assms(2) by (auto simp: parsecmd_def pbind_def split: parsed.splits if_splits prod.splits)
  then have "cmd_ok s c" using parse_ok(1) by blast
  then show ?thesis using cstr_word [OF assms(1)] word_str_ok p(2) by (auto simp: cmd_ok_def list_all_iff)
qed

theorem parsecmd_words_witness:
  "\<exists>c b i. parsecmd ''ls|wc'' = Parsed (c, b) i \<and> map (\<lambda>w. cstr b (fst w)) (cmd_words c) = [''ls'', ''wc'']"
proof -
  let ?c = "PIPE (EXEC [(0, 2)]) (EXEC [(3, 5)])" and ?b = "''ls'' @ nul # ''wc''"
  have p: "parsecmd ''ls|wc'' = Parsed (?c, ?b) 5" by code_simp
  have "cstr ?b 0 = ''ls'' \<and> cstr ?b 3 = ''wc''"
    using parsecmd_words [OF _ p] by (simp add: word_str_def)
  then show ?thesis using p by (intro exI [of _ ?c] exI [of _ ?b] exI [of _ 5]) simp
qed

end
