(* ===== verification/Shell_Show.thy ===== *)
theory Shell_Show
  imports Shell_Parse
begin

text \<open>
  Reading back a printed command (\<open>user/sh.c\<close>). \<open>show_cmd\<close> writes a command over words the way
  a user would type it, with parentheses around compound parts; the parser returns it.
\<close>

section \<open>Printing\<close>

fun simple :: "'w cmd \<Rightarrow> bool" where
  "simple (EXEC _) = True" | "simple (REDIR _ _ _ _) = True" | "simple _ = False"

fun show_cmd :: "string cmd \<Rightarrow> string" where
  "show_cmd (EXEC ws) = concat (map (\<lambda>w. w @ '' '') ws)"
| "show_cmd (REDIR c w mode fd) =
     (if simple c then show_cmd c else ''('' @ show_cmd c @ '')'') @ (if fd = 0 then ''<'' else ''>'') @ w @ '' ''"
| "show_cmd (PIPE l r) =
     (if simple l then show_cmd l else ''('' @ show_cmd l @ '')'') @ ''|'' @
     (if simple r then show_cmd r else ''('' @ show_cmd r @ '')'')"
| "show_cmd (LIST l r) =
     (if simple l then show_cmd l else ''('' @ show_cmd l @ '')'') @ '';'' @
     (if simple r then show_cmd r else ''('' @ show_cmd r @ '')'')"
| "show_cmd (BACK c) = (if simple c then show_cmd c else ''('' @ show_cmd c @ '')'') @ ''&''"

definition show_atom :: "string cmd \<Rightarrow> string" where
  "show_atom c = (if simple c then show_cmd c else ''('' @ show_cmd c @ '')'')"

definition good_word :: "string \<Rightarrow> bool" where
  "good_word w \<longleftrightarrow> w \<noteq> [] \<and> list_all word_char w \<and> nul \<notin> set w"

section \<open>Tokens of a printed command\<close>

text \<open>Nothing to skip at the front.\<close>

definition solid :: "string \<Rightarrow> bool" where
  "solid t \<longleftrightarrow> t = [] \<or> hd t \<notin> set whitespace"

lemma char_at_drop: "char_at s i = (if drop i s = [] then nul else hd (drop i s))"
  by (simp add: char_at_def hd_drop_conv_nth)

lemma skip_white_solid: "drop i s = t \<Longrightarrow> solid t \<Longrightarrow> skip_white s i = i"
  by (cases t) (simp_all add: skip_white_eq solid_def)

lemma skip_white_drop: "drop (skip_white s i) s = dropWhile (\<lambda>c. c \<in> set whitespace) (drop i s)"
  by (simp add: skip_white_eq dropWhile_eq_drop add.commute)

lemma peek_solid:
  assumes "drop i s = t" "solid t" "nul \<notin> set toks"
  shows "peek s i toks = (i, t \<noteq> [] \<and> hd t \<in> set toks)"
  using assms by (auto simp: peek_def skip_white_solid Let_def char_at_drop strchr_None)

lemma space_white: "CHR '' '' \<in> set whitespace"
  by (simp add: whitespace_def)

lemma symbol_solid: "c \<in> set symbols \<Longrightarrow> solid (c # t)"
  by (auto simp: solid_def symbols_def whitespace_def)

lemma word_solid: "good_word w \<Longrightarrow> solid (w @ t)"
  by (cases w) (auto simp: good_word_def solid_def word_char_def)

lemma gettoken_sym:
  assumes "drop i s = c # t" "c \<in> set symbols" "solid t" "c = CHR ''>'' \<Longrightarrow> t = [] \<or> hd t \<noteq> CHR ''>''"
  shows "gettoken s i = (c, i, i + 1, i + 1) \<and> drop (i + 1) s = t"
proof -
  have t: "drop (i + 1) s = t" using assms(1) by (metis add.commute drop_drop drop_Suc_Cons drop_0 One_nat_def)
  then have "skip_white s (i + 1) = i + 1" using assms(3) by (rule skip_white_solid)
  moreover have "skip_white s i = i" using assms(1,2) symbol_solid by (intro skip_white_solid)
  moreover have "char_at s i = c" "char_at s (i + 1) = (if t = [] then nul else hd t)"
    using assms(1) t by (simp_all add: char_at_drop)
  ultimately show ?thesis using assms(2,4) t by (auto simp: gettoken_def Let_def symbols_def)
qed

lemma gettoken_good:
  assumes "drop i s = w @ CHR '' '' # t" "good_word w" "solid t"
  shows "gettoken s i = (CHR ''a'', i, i + length w, i + length w + 1)
    \<and> drop (i + length w + 1) s = t \<and> word_str s (i, i + length w) = w"
proof -
  have i: "skip_white s i = i" using assms(1) word_solid [OF assms(2)] by (rule skip_white_solid)
  have w: "takeWhile word_char (drop i s) = w"
    using assms(1,2) space_white by (auto simp: good_word_def list_all_iff word_char_def takeWhile_append)
  have c: "char_at s i = hd w" "hd w \<in> set w" "word_char (hd w)" "hd w \<noteq> nul"
    using assms(1,2) by (cases w; force simp: char_at_drop good_word_def)+
  have d: "drop (i + length w) s = CHR '' '' # t"
    using assms(1) by (metis add.commute append_eq_conv_conj drop_drop)
  then have d1: "drop (i + length w + 1) s = t" by (metis add.commute drop_drop drop_Suc_Cons drop_0 One_nat_def)
  have "skip_white s (i + length w) = i + length w + 1"
    using d assms(3) space_white by (cases t) (simp_all add: skip_white_eq solid_def)
  then show ?thesis
    using i c w d1 assms(1) by (auto simp: gettoken_def Let_def skip_word_eq word_char_def symbols_def word_str_def)
qed

section \<open>Redirections and arguments\<close>

definition show_redir :: "string redir \<Rightarrow> string" where
  "show_redir r = (if snd (snd r) = 0 then ''<'' else ''>'') @ fst r @ '' ''"

definition good_redir :: "string redir \<Rightarrow> bool" where
  "good_redir r \<longleftrightarrow> good_word (fst r) \<and> (snd r = (O_RDONLY, 0) \<or> snd r = (O_WRONLY + O_CREATE, 1))"

abbreviation show_redirs :: "string redir list \<Rightarrow> string" where
  "show_redirs fs \<equiv> concat (map show_redir fs)"

abbreviation show_words :: "string list \<Rightarrow> string" where
  "show_words ws \<equiv> concat (map (\<lambda>w. w @ '' '') ws)"

definition redir_str :: "string \<Rightarrow> word_pos redir \<Rightarrow> string redir" where
  "redir_str s r = (word_str s (fst r), snd r)"

text \<open>What may follow a simple command.\<close>

definition stops :: "string \<Rightarrow> bool" where
  "stops t \<longleftrightarrow> t = [] \<or> hd t \<in> set ''|)&;''"

lemma stops_solid: "stops t \<Longrightarrow> solid t"
  by (cases t) (auto simp: stops_def solid_def whitespace_def)

lemma redirs_solid: "solid t \<Longrightarrow> solid (show_redirs fs @ t)"
  by (cases fs) (auto simp: show_redir_def intro!: symbol_solid simp: symbols_def)

lemma words_solid: "list_all good_word ws \<Longrightarrow> solid t \<Longrightarrow> solid (show_words ws @ t)"
  by (cases ws) (auto intro: word_solid)

lemma word_hd: "good_word w \<Longrightarrow> hd (w @ t) \<notin> set symbols \<and> w @ t \<noteq> []"
  by (cases w) (auto simp: good_word_def word_char_def)

lemma parseredirs_none:
  assumes "drop i s = t" "solid t" "t = [] \<or> hd t \<notin> set ''<>''"
  shows "parseredirs s i = Parsed [] i"
  using peek_solid [OF assms(1,2), of "''<>''"] assms(3) by (subst parseredirs.simps) auto

lemma parseredirs_show:
  assumes "drop i s = show_redirs fs @ t" "list_all good_redir fs" "solid t" "t = [] \<or> hd t \<notin> set ''<>''"
  shows "\<exists>rs j. parseredirs s i = Parsed rs j \<and> map (redir_str s) rs = fs \<and> drop j s = t"
  using assms(1,2)
proof (induction fs arbitrary: i)
  case Nil
  then show ?case using parseredirs_none [OF _ assms(3,4)] by force
next
  case (Cons f fs)
  let ?c = "if snd (snd f) = 0 then CHR ''<'' else CHR ''>''" and ?t = "show_redirs fs @ t"
  have gf: "good_redir f" and fs: "list_all good_redir fs" using Cons.prems by auto
  then have f: "good_word (fst f)" "list_all good_redir fs" by (simp_all add: good_redir_def [of f])
  have d: "drop i s = ?c # fst f @ CHR '' '' # ?t" using Cons.prems by (simp add: show_redir_def [of f])
  have solid: "solid ?t" using assms(3) by (rule redirs_solid)
  have p: "peek s i ''<>'' = (i, True)"
    using peek_solid [OF d symbol_solid, of "''<>''"] by (auto simp: symbols_def)
  have g: "gettoken s i = (?c, i, i + 1, i + 1)" "drop (i + 1) s = fst f @ CHR '' '' # ?t"
    using gettoken_sym [OF d _ word_solid [OF f(1)]] word_hd [OF f(1), of "CHR '' '' # ?t"] by (auto simp: symbols_def)
  let ?e = "i + 1 + length (fst f)"
  have g': "gettoken s (i + 1) = (CHR ''a'', i + 1, ?e, ?e + 1)" "drop (?e + 1) s = ?t" "word_str s (i + 1, ?e) = fst f"
    using gettoken_good [OF g(2) f(1) solid] by auto
  obtain rs j where r: "parseredirs s (?e + 1) = Parsed rs j" "map (redir_str s) rs = fs" "drop j s = t"
    using Cons.IH [OF g'(2) f(2)] by blast
  have "parseredirs s i = Parsed ((if ?c = CHR ''<'' then ((i + 1, ?e), O_RDONLY, 0)
      else ((i + 1, ?e), O_WRONLY + O_CREATE, 1)) # rs) j"
    by (subst parseredirs.simps) (simp only: p g g' r prod.case if_True simp_thms if_False pbind_simps)
  then show ?case using r g'(3) gf by (cases f) (auto simp: redir_str_def good_redir_def)
qed

lemma exec_args_show:
  assumes "drop i s = show_words ws @ show_redirs fs @ t" "list_all good_word ws" "list_all good_redir fs" "stops t"
    "length ws < n" "ws = [] \<Longrightarrow> fs = []"
  shows "\<exists>args rs j. exec_args n s i = Parsed (args, rs) j
    \<and> map (word_str s) args = ws \<and> map (redir_str s) rs = fs \<and> drop j s = t"
  using assms(1,2,5,6)
proof (induction n arbitrary: i ws)
  case (Suc n)
  have solid: "solid t" "solid (show_redirs fs @ t)" using assms(4) stops_solid redirs_solid by auto
  have nr: "t = [] \<or> hd t \<notin> set ''<>''" using assms(4) by (auto simp: stops_def)
  show ?case
  proof (cases ws)
    case Nil
    then have d: "drop i s = t" "fs = []" using Suc.prems by auto
    have p: "peek s i ''|)&;'' = (i, t \<noteq> [])"
      using peek_solid [OF d(1) solid(1), of "''|)&;''"] assms(4) by (auto simp: stops_def)
    have "t = [] \<Longrightarrow> gettoken s i = (nul, i, i, i)"
      using d(1) by (simp add: gettoken_def skip_white_solid [OF d(1) solid(1)] char_at_drop Let_def)
    then show ?thesis using p d Nil by auto
  next
    case (Cons w ws')
    let ?t = "show_words ws' @ show_redirs fs @ t"
    have w: "good_word w" "list_all good_word ws'" "n \<noteq> 0" "length ws' < n" using Cons Suc.prems by auto
    have d: "drop i s = w @ CHR '' '' # ?t" using Cons Suc.prems by simp
    have p: "peek s i ''|)&;'' = (i, False)"
      using peek_solid [OF d word_solid [OF w(1)], of "''|)&;''"] word_hd [OF w(1)] by (auto simp: symbols_def)
    let ?e = "i + length w"
    have g: "gettoken s i = (CHR ''a'', i, ?e, ?e + 1)" "drop (?e + 1) s = ?t" "word_str s (i, ?e) = w"
      using gettoken_good [OF d w(1) words_solid [OF w(2) solid(2)]] by auto
    obtain rs l where r: "parseredirs s (?e + 1) = Parsed rs l" "map (redir_str s) rs = (if ws' = [] then fs else [])"
      "drop l s = (if ws' = [] then t else ?t)"
    proof (cases ws')
      case Nil
      then show ?thesis using that parseredirs_show [of "?e + 1" s fs t] g(2) assms(3) solid(1) nr by auto
    next
      case (Cons v vs)
      have "parseredirs s (?e + 1) = Parsed [] (?e + 1)"
        using parseredirs_none [OF g(2) words_solid [OF w(2) solid(2)]] word_hd [of v] w(2) Cons by (auto simp: symbols_def)
      then show ?thesis using that g(2) Cons by simp
    qed
    obtain args rs2 j where e: "exec_args n s l = Parsed (args, rs2) j" "map (word_str s) args = ws'"
      "map (redir_str s) rs2 = (if ws' = [] then [] else fs)" "drop j s = t"
    proof (cases ws')
      case Nil
      obtain m where m: "n = Suc m" using w(3) by (cases n) auto
      have dl: "drop l s = t" using r(3) Nil by simp
      have "t = [] \<Longrightarrow> gettoken s l = (nul, l, l, l)"
        using dl by (simp add: gettoken_def skip_white_solid [OF dl solid(1)] char_at_drop Let_def)
      moreover have "peek s l ''|)&;'' = (l, t \<noteq> [])"
        using peek_solid [OF dl solid(1), of "''|)&;''"] assms(4) by (auto simp: stops_def)
      ultimately have "exec_args n s l = Parsed ([], []) l" using m by (cases "t = []") simp_all
      then show ?thesis using that Nil dl by simp
    next
      case (Cons v vs)
      then show ?thesis using that Suc.IH [of l ws'] r(3) w by auto
    qed
    have "exec_args (Suc n) s i = Parsed ((i, ?e) # args, rs @ rs2) j" using p g r e w(3) by simp
    then show ?thesis using e r g(3) Cons by auto
  qed
qed simp

section \<open>Commands\<close>

fun base :: "'w cmd \<Rightarrow> 'w cmd" where
  "base (REDIR c w mode fd) = base c" | "base c = c"

fun redirs :: "'w cmd \<Rightarrow> 'w redir list" where
  "redirs (REDIR c w mode fd) = redirs c @ [(w, mode, fd)]" | "redirs c = []"

definition good_cmd :: "string cmd \<Rightarrow> bool" where
  "good_cmd c \<longleftrightarrow> list_all good_word (cmd_words c) \<and> cmd_fits c"

lemma base_redirs: "foldl redircmd (base c) (redirs c) = c"
  by (induction c) (simp_all add: redircmd_def)

lemma base_cases: "(\<exists>ws. base c = EXEC ws) \<or> \<not> simple (base c)"
  by (induction c) simp_all

lemma base_size: "size (base c) \<le> size c"
  by (induction c) simp_all

lemma show_atom_base: "show_atom c = show_atom (base c) @ show_redirs (redirs c)"
proof (induction c)
  case (REDIR c w mode fd)
  have "show_atom (REDIR c w mode fd) = show_atom c @ show_redir (w, mode, fd)"
    by (simp add: show_atom_def show_redir_def)
  then show ?case using REDIR by simp
qed (simp_all add: show_atom_def)

lemma good_base: "good_cmd c \<Longrightarrow> good_cmd (base c) \<and> list_all good_redir (redirs c)"
  by (induction c) (auto simp: good_cmd_def good_redir_def)

lemma map_redircmds:
  "map_cmd g (foldl redircmd c rs) = foldl redircmd (map_cmd g c) (map (\<lambda>r. (g (fst r), snd r)) rs)"
  by (induction rs arbitrary: c) (auto simp: redircmd_def split: prod.splits)

lemma map_redir_strs: "map_cmd (word_str s) (foldl redircmd c rs) = foldl redircmd (map_cmd (word_str s) c) (map (redir_str s) rs)"
  by (simp add: map_redircmds redir_str_def [abs_def])

text \<open>The parser read command \<open>c\<close> and stopped in front of \<open>t\<close>, if its depth was enough.\<close>

definition reads :: "string \<Rightarrow> string cmd \<Rightarrow> string \<Rightarrow> word_pos cmd parsed \<Rightarrow> bool" where
  "reads s c t r \<longleftrightarrow> r = Pfuel \<or> (\<exists>c' j. r = Parsed c' j \<and> map_cmd (word_str s) c' = c \<and> drop j s = t)"

definition reads_exec :: "string \<Rightarrow> string cmd \<Rightarrow> bool" where
  "reads_exec s c \<longleftrightarrow> (\<forall>f i t. drop i s = show_atom c @ t \<longrightarrow> stops t \<longrightarrow> reads s c t (parseexec f s i))"

definition reads_line :: "string \<Rightarrow> string cmd \<Rightarrow> bool" where
  "reads_line s c \<longleftrightarrow>
     (\<forall>f i t. drop i s = show_cmd c @ t \<longrightarrow> t = [] \<or> hd t = CHR '')'' \<longrightarrow> reads s c t (parseline f s i))"

lemma reads_simple:
  assumes "good_cmd c" "base c = EXEC ws"
  shows "reads_exec s c"
  unfolding reads_exec_def
proof (intro allI impI)
  fix f i t
  assume d: "drop i s = show_atom c @ t" and t: "stops t"
  let ?fs = "redirs c"
  have g: "list_all good_word ws" "length ws < MAXARGS" "list_all good_redir ?fs"
    using good_base [OF assms(1)] assms(2) by (auto simp: good_cmd_def)
  have d': "drop i s = show_words ws @ show_redirs ?fs @ t"
    using d show_atom_base [of c] assms(2) by (simp add: show_atom_def)
  have solid: "solid t" "solid (show_redirs ?fs @ t)" using t stops_solid redirs_solid by auto
  have nr: "t = [] \<or> hd t \<notin> set ''<>''" using t by (auto simp: stops_def)
  have hd: "show_words ws @ show_redirs ?fs @ t \<noteq> [] \<Longrightarrow> hd (show_words ws @ show_redirs ?fs @ t) \<noteq> CHR ''(''"
    using g(1) t word_hd by (cases ws; cases ?fs) (auto simp: show_redir_def stops_def symbols_def)
  have p: "peek s i ''('' = (i, False)"
    using peek_solid [OF d' words_solid [OF g(1) solid(2)], of "''(''"] hd by auto
  show "reads s c t (parseexec f s i)"
  proof (cases f)
    case (Suc n)
    obtain rs k where r: "parseredirs s i = Parsed rs k" "map (redir_str s) rs = (if ws = [] then ?fs else [])"
      "drop k s = (if ws = [] then t else show_words ws @ show_redirs ?fs @ t)"
    proof (cases ws)
      case Nil
      then show ?thesis using that parseredirs_show [OF _ g(3) solid(1) nr, of i s] d' by auto
    next
      case (Cons v vs)
      have "parseredirs s i = Parsed [] i"
        using parseredirs_none [OF d' words_solid [OF g(1) solid(2)]] word_hd [of v] g(1) Cons by (auto simp: symbols_def)
      then show ?thesis using that d' Cons by simp
    qed
    obtain args rs' j where e: "exec_args MAXARGS s k = Parsed (args, rs') j" "map (word_str s) args = ws"
      "map (redir_str s) (rs @ rs') = ?fs" "drop j s = t"
      using exec_args_show [of k s ws "if ws = [] then [] else ?fs" t MAXARGS] r g t by (cases "ws = []") auto
    have "foldl redircmd (EXEC ws) (redirs c) = c" using base_redirs [of c] assms(2) by simp
    then have "map_cmd (word_str s) (foldl redircmd (EXEC args) (rs @ rs')) = c"
      using e by (simp only: map_redir_strs cmd.map)
    then show ?thesis using Suc p r(1) e by (simp add: reads_def)
  qed (simp add: reads_def)
qed

lemma show_solid: "good_cmd c \<Longrightarrow> solid t \<Longrightarrow> solid (show_cmd c @ t)"
proof (induction c arbitrary: t)
  case (EXEC ws)
  then show ?case using words_solid [of ws t] by (simp add: good_cmd_def)
qed (auto simp: good_cmd_def symbol_solid symbols_def)

lemma atom_solid: "good_cmd c \<Longrightarrow> solid t \<Longrightarrow> solid (show_atom c @ t)"
  using show_solid symbol_solid by (simp add: show_atom_def symbols_def)

text \<open>A symbol the parser looks for and takes.\<close>

lemma take_symbol:
  assumes "drop i s = c # t" "c \<in> set symbols" "c \<noteq> CHR ''>''" "solid t" "c \<in> set toks" "nul \<notin> set toks"
  shows "peek s i toks = (i, True)" "after_token s i = i + 1" "drop (i + 1) s = t"
  using gettoken_sym [OF assms(1,2,4)] peek_solid [OF assms(1) symbol_solid [OF assms(2)] assms(6)] assms(3,5)
  by (auto simp: after_token_def)

lemma no_symbol:
  assumes "drop i s = t" "solid t" "t = [] \<or> hd t \<notin> set toks" "nul \<notin> set toks"
  shows "peek s i toks = (i, False)"
  using peek_solid [OF assms(1,2,4)] assms(3) by auto

lemma no_backs:
  assumes "drop i s = t" "solid t" "t = [] \<or> hd t \<noteq> CHR ''&''"
  shows "backs s c i = (c, i)"
  using no_symbol [OF assms(1,2), of "''&''"] assms(3) by (subst backs.simps) simp

lemma reads_block:
  assumes "good_cmd c" "\<not> simple (base c)" "reads_line s (base c)"
  shows "reads_exec s c"
  unfolding reads_exec_def
proof (intro allI impI)
  fix f i t
  assume d: "drop i s = show_atom c @ t" and t: "stops t"
  let ?fs = "redirs c" and ?b = "base c"
  let ?t1 = "CHR '')'' # show_redirs ?fs @ t"
  have gb: "good_cmd ?b" and gf: "list_all good_redir ?fs" using good_base [OF assms(1)] by auto
  have d': "drop i s = CHR ''('' # show_cmd ?b @ ?t1"
    using d show_atom_base [of c] assms(2) by (simp add: show_atom_def [of ?b])
  have s1: "solid ?t1" by (rule symbol_solid) (simp add: symbols_def)
  have s2: "solid (show_redirs ?fs @ t)" using t stops_solid redirs_solid by auto
  note o = take_symbol [OF d' _ _ show_solid [OF gb s1], of "''(''"]
  have o': "peek s i ''('' = (i, True)" "after_token s i = i + 1" "drop (i + 1) s = show_cmd ?b @ ?t1"
    using o by (auto simp: symbols_def)
  show "reads s c t (parseexec f s i)"
  proof (cases "f < 2 \<or> parseline (f - 2) s (i + 1) = Pfuel")
    case True
    then show ?thesis
    proof (cases f)
      case (Suc n)
      then show ?thesis using True o' by (cases n) (auto simp: reads_def)
    qed (simp add: reads_def)
  next
    case False
    then obtain n where n: "f = Suc (Suc n)" by (metis Suc_1 less_2_cases_iff not0_implies_Suc One_nat_def)
    obtain c' k where l: "parseline n s (i + 1) = Parsed c' k" "map_cmd (word_str s) c' = ?b" "drop k s = ?t1"
      using assms(3) o'(3) False n unfolding reads_line_def reads_def by fastforce
    have cl: "peek s k '')'' = (k, True)" "after_token s k = k + 1" "drop (k + 1) s = show_redirs ?fs @ t"
      using take_symbol [OF l(3) _ _ s2, of "'')''"] by (auto simp: symbols_def)
    obtain rs j where r: "parseredirs s (k + 1) = Parsed rs j" "map (redir_str s) rs = ?fs" "drop j s = t"
      using parseredirs_show [OF cl(3) gf stops_solid [OF t]] t by (auto simp: stops_def)
    have "map_cmd (word_str s) (foldl redircmd c' rs) = c"
      using l(2) r(2) base_redirs [of c] by (simp only: map_redir_strs)
    then show ?thesis using n o' l cl r by (simp add: reads_def)
  qed
qed

lemma reads_pipe_atom:
  assumes "reads_exec s c" "drop i s = show_atom c @ t" "stops t" "t = [] \<or> hd t \<noteq> CHR ''|''"
  shows "reads s c t (parsepipe f s i)"
proof (cases f)
  case (Suc n)
  have "reads s c t (parseexec n s i)" using assms(1-3) by (simp add: reads_exec_def)
  then show ?thesis
    using Suc no_symbol [OF _ stops_solid [OF assms(3)], of _ s "''|''"] assms(4) by (auto simp: reads_def)
qed (simp add: reads_def)

lemma readsE:
  assumes "reads s c t r"
  obtains "r = Pfuel" | c' j where "r = Parsed c' j" "map_cmd (word_str s) c' = c" "drop j s = t"
  using assms unfolding reads_def by blast

lemma reads_execD: "reads_exec s c \<Longrightarrow> drop i s = show_atom c @ t \<Longrightarrow> stops t \<Longrightarrow> reads s c t (parseexec f s i)"
  by (simp add: reads_exec_def)

lemma stops_sym: "c \<in> set ''|)&;'' \<Longrightarrow> stops (c # t)"
  by (simp add: stops_def)

text \<open>The end of \<open>parseline\<close> when nothing follows.\<close>

lemma reads_line_end:
  assumes "\<And>n. reads s c t (parsepipe n s i)" "t = [] \<or> hd t = CHR '')''"
  shows "reads s c t (parseline f s i)"
proof (cases f)
  case (Suc n)
  have st: "solid t" using assms(2) by (intro stops_solid) (auto simp: stops_def)
  from assms(1) [of n] show ?thesis
  proof (cases rule: readsE)
    case (2 c' j)
    have "backs s c' j = (c', j)" using no_backs [OF 2(3) st] assms(2) by auto
    moreover have "peek s j '';'' = (j, False)" using no_symbol [OF 2(3) st] assms(2) by auto
    ultimately show ?thesis using Suc 2 by (simp add: reads_def)
  qed (simp add: Suc reads_def)
qed (simp add: reads_def)

lemma reads_line_atom:
  assumes "reads_exec s c" "drop i s = show_atom c @ t" "t = [] \<or> hd t = CHR '')''"
  shows "reads s c t (parseline f s i)"
  by (rule reads_line_end [OF reads_pipe_atom [OF assms(1,2)] assms(3)]) (use assms(3) in \<open>auto simp: stops_def\<close>)

lemma reads_pipe:
  assumes "reads_exec s l" "reads_exec s r" "good_cmd r"
  shows "reads_line s (PIPE l r)"
  unfolding reads_line_def
proof (intro allI impI)
  fix f i t
  assume d: "drop i s = show_cmd (PIPE l r) @ t" and t: "t = [] \<or> hd t = CHR '')''"
  have st: "stops t" using t by (auto simp: stops_def)
  let ?t1 = "CHR ''|'' # show_atom r @ t"
  have d': "drop i s = show_atom l @ ?t1" using d by (simp add: show_atom_def)
  have "reads s (PIPE l r) t (parsepipe n s i)" for n
  proof (cases n)
    case (Suc m)
    have "reads s l ?t1 (parseexec m s i)" by (rule reads_execD [OF assms(1) d' stops_sym]) simp
    then show ?thesis
    proof (cases rule: readsE)
      case (2 c' j)
      have a: "peek s j ''|'' = (j, True)" "after_token s j = j + 1" "drop (j + 1) s = show_atom r @ t"
        using take_symbol [OF 2(3) _ _ atom_solid [OF assms(3) stops_solid [OF st]], of "''|''"] by (auto simp: symbols_def)
      have "reads s r t (parsepipe m s (j + 1))" using reads_pipe_atom [OF assms(2) a(3) st] t by auto
      then show ?thesis by (cases rule: readsE) (use Suc 2 a in \<open>auto simp: reads_def\<close>)
    qed (simp add: Suc reads_def)
  qed (simp add: reads_def)
  then show "reads s (PIPE l r) t (parseline f s i)" using t by (rule reads_line_end)
qed

lemma reads_list:
  assumes "reads_exec s l" "reads_exec s r" "good_cmd r"
  shows "reads_line s (LIST l r)"
  unfolding reads_line_def
proof (intro allI impI)
  fix f i t
  assume d: "drop i s = show_cmd (LIST l r) @ t" and t: "t = [] \<or> hd t = CHR '')''"
  have st: "stops t" using t by (auto simp: stops_def)
  let ?t1 = "CHR '';'' # show_atom r @ t"
  have d': "drop i s = show_atom l @ ?t1" using d by (simp add: show_atom_def)
  have s1: "solid ?t1" by (rule symbol_solid) (simp add: symbols_def)
  show "reads s (LIST l r) t (parseline f s i)"
  proof (cases f)
    case (Suc n)
    have "reads s l ?t1 (parsepipe n s i)" by (rule reads_pipe_atom [OF assms(1) d' stops_sym]) simp_all
    then show ?thesis
    proof (cases rule: readsE)
      case (2 c' j)
      have b: "backs s c' j = (c', j)" using no_backs [OF 2(3) s1] by simp
      have a: "peek s j '';'' = (j, True)" "after_token s j = j + 1" "drop (j + 1) s = show_atom r @ t"
        using take_symbol [OF 2(3) _ _ atom_solid [OF assms(3) stops_solid [OF st]], of "'';''"] by (auto simp: symbols_def)
      have "reads s r t (parseline n s (j + 1))" by (rule reads_line_atom [OF assms(2) a(3) t])
      then show ?thesis by (cases rule: readsE) (use Suc 2 a b in \<open>auto simp: reads_def\<close>)
    qed (simp add: Suc reads_def)
  qed (simp add: reads_def)
qed

lemma reads_back:
  assumes "reads_exec s c"
  shows "reads_line s (BACK c)"
  unfolding reads_line_def
proof (intro allI impI)
  fix f i t
  assume d: "drop i s = show_cmd (BACK c) @ t" and t: "t = [] \<or> hd t = CHR '')''"
  have st: "solid t" using t by (intro stops_solid) (auto simp: stops_def)
  have d': "drop i s = show_atom c @ CHR ''&'' # t" using d by (simp add: show_atom_def)
  show "reads s (BACK c) t (parseline f s i)"
  proof (cases f)
    case (Suc n)
    have "reads s c (CHR ''&'' # t) (parsepipe n s i)" by (rule reads_pipe_atom [OF assms d' stops_sym]) simp_all
    then show ?thesis
    proof (cases rule: readsE)
      case (2 c' j)
      have a: "peek s j ''&'' = (j, True)" "after_token s j = j + 1" "drop (j + 1) s = t"
        using take_symbol [OF 2(3) _ _ st, of "''&''"] by (auto simp: symbols_def)
      have "backs s (BACK c') (j + 1) = (BACK c', j + 1)" using no_backs [OF a(3) st] t by auto
      then have "backs s c' j = (BACK c', j + 1)" using a by (subst backs.simps) simp
      moreover have "peek s (j + 1) '';'' = (j + 1, False)" using no_symbol [OF a(3) st] t by auto
      ultimately show ?thesis using Suc 2 a by (simp add: reads_def)
    qed (simp add: Suc reads_def)
  qed (simp add: reads_def)
qed

lemma good_parts:
  "good_cmd (PIPE l r) \<longleftrightarrow> good_cmd l \<and> good_cmd r" "good_cmd (LIST l r) \<longleftrightarrow> good_cmd l \<and> good_cmd r"
  "good_cmd (BACK c) \<longleftrightarrow> good_cmd c"
  by (auto simp: good_cmd_def)

lemma reads_all: "good_cmd c \<Longrightarrow> reads_exec s c \<and> reads_line s c"
proof (induction c rule: measure_induct_rule [of size])
  case (less c)
  have line: "reads_line s c" if "\<not> simple c"
    using that less.prems less.IH by (cases c) (auto simp: good_parts intro!: reads_pipe reads_list reads_back)
  have ex: "reads_exec s c"
  proof (cases "simple (base c)")
    case True
    then show ?thesis using base_cases [of c] reads_simple [OF less.prems] by blast
  next
    case False
    have "reads_line s (base c)"
    proof (cases "simple c")
      case True
      then have "size (base c) < size c" using False base_size by (cases c) (auto simp: less_Suc_eq_le)
      then show ?thesis using less.IH good_base [OF less.prems] by blast
    next
      case False
      then have "base c = c" by (cases c) simp_all
      then show ?thesis using line [OF False] by simp
    qed
    then show ?thesis by (rule reads_block [OF less.prems False])
  qed
  have "reads_line s c" if "simple c"
    using reads_line_atom [OF ex] that unfolding reads_line_def show_atom_def by simp
  then show ?case using ex line by blast
qed

section \<open>The parser stays inside the line\<close>

lemma skip_white_le: "i \<le> length s \<Longrightarrow> skip_white s i \<le> length s"
  using length_takeWhile_le [of "\<lambda>c. c \<in> set whitespace" "drop i s"] by (simp add: skip_white_eq)

lemma gettoken_le:
  assumes "gettoken s i = (t, q, eq, j)" "i \<le> length s"
  shows "j \<le> length s"
proof -
  have "skip_white s i \<le> length s" using assms(2) by (rule skip_white_le)
  moreover have "char_at s k \<noteq> nul \<Longrightarrow> k < length s" for k by (auto simp: char_at_def split: if_splits)
  ultimately have "eq \<le> length s"
    using assms(1) skip_word_end(1) [of "skip_white s i" s]
    by (force simp: gettoken_def Let_def Suc_le_eq split: if_splits)
  then have "skip_white s eq \<le> length s" by (rule skip_white_le)
  then show ?thesis using assms(1) by (auto simp: gettoken_def Let_def split: if_splits)
qed

lemma after_token_le: "i \<le> length s \<Longrightarrow> after_token s i \<le> length s"
  using gettoken_le by (cases "gettoken s i") (auto simp: after_token_def)

lemma peek_le: "peek s i toks = (j, b) \<Longrightarrow> i \<le> length s \<Longrightarrow> j \<le> length s"
  using skip_white_le by (auto simp: peek_def Let_def)

lemma backs_le: "backs s c i = (c', j) \<Longrightarrow> i \<le> length s \<Longrightarrow> j \<le> length s"
proof (induction s c i arbitrary: c' j rule: backs.induct)
  case (1 s c i)
  then show ?case
    by (subst (asm) (2) backs.simps) (auto split: prod.splits if_splits dest: peek_le intro: after_token_le)
qed

lemma parseredirs_le: "parseredirs s i = Parsed rs j \<Longrightarrow> i \<le> length s \<Longrightarrow> j \<le> length s"
proof (induction s i arbitrary: rs j rule: parseredirs.induct)
  case (1 s i)
  obtain k b where p: "peek s i ''<>'' = (k, b)" by fastforce
  obtain t q eq l where g: "gettoken s k = (t, q, eq, l)" by (cases "gettoken s k") auto
  obtain t' q' eq' m where g': "gettoken s l = (t', q', eq', m)" by (cases "gettoken s l") auto
  have le: "k \<le> length s" "m \<le> length s" using peek_le [OF p 1(3)] gettoken_le g g' by blast+
  show ?case
  proof (cases "b \<and> t' = CHR ''a''")
    case True
    then obtain rs' where "parseredirs s m = Parsed rs' j"
      using 1(2) p g g' by (subst (asm) parseredirs.simps) (cases "parseredirs s m"; auto)
    then show ?thesis
      using 1(1) [OF p [symmetric] _ g [symmetric] refl refl g' [symmetric] refl refl] True le by simp
  qed (use 1(2) p g g' le in \<open>subst (asm) parseredirs.simps, auto split: if_splits\<close>)
qed

lemma exec_args_le: "exec_args n s i = Parsed x j \<Longrightarrow> i \<le> length s \<Longrightarrow> j \<le> length s"
proof (induction n arbitrary: i x)
  case (Suc n)
  obtain k b where p: "peek s i ''|)&;'' = (k, b)" by fastforce
  obtain t q eq l where g: "gettoken s k = (t, q, eq, l)" by (cases "gettoken s k") auto
  have le: "k \<le> length s" "l \<le> length s" using peek_le [OF p Suc.prems(2)] gettoken_le g by blast+
  show ?case
    using Suc.prems p g le Suc.IH parseredirs_le [of s l]
    by (auto simp: pbind_def split: if_splits parsed.splits)
qed simp

lemma parse_le:
  "\<forall>c j. parseline f s i = Parsed c j \<longrightarrow> i \<le> length s \<longrightarrow> j \<le> length s"
  "\<forall>c j. parsepipe f s i = Parsed c j \<longrightarrow> i \<le> length s \<longrightarrow> j \<le> length s"
  "\<forall>c j. parseexec f s i = Parsed c j \<longrightarrow> i \<le> length s \<longrightarrow> j \<le> length s"
  "\<forall>c j. parseblock f s i = Parsed c j \<longrightarrow> i \<le> length s \<longrightarrow> j \<le> length s"
proof (induction f arbitrary: i)
  case (Suc f)
  note IH = Suc.IH [rule_format]
  note le = peek_le after_token_le backs_le parseredirs_le exec_args_le
  {
    case 1
    show ?case using IH(1,2) le unfolding parseline.simps(2) pbind_def
      by (auto split: parsed.splits prod.splits if_splits) (metis+)?
  next
    case 2
    show ?case using IH(2,3) le unfolding parsepipe.simps(2) pbind_def
      by (auto split: parsed.splits prod.splits if_splits) (metis+)?
  next
    case 3
    show ?case using IH(4) le unfolding parseexec.simps(2) pbind_def
      by (auto split: parsed.splits prod.splits if_splits) (metis+)?
  next
    case 4
    show ?case using IH(1) le unfolding parseblock.simps(2) pbind_def
      by (auto split: parsed.splits prod.splits if_splits) (metis+)?
  }
qed simp_all

section \<open>The round trip\<close>

lemma set_cmd_words: "set (cmd_words c) = set_cmd c"
  by (induction c) auto

lemma show_no_nul: "good_cmd c \<Longrightarrow> nul \<notin> set (show_cmd c)"
  by (induction c) (auto simp: good_cmd_def good_word_def list_all_iff)

text \<open>
  C28: the shell reads back a printed command: for every command whose words are words and whose
  arguments fit, parsing its text gives the same tree, with the same words as strings in the line.
\<close>

theorem parse_show:
  assumes "good_cmd c"
  shows "\<exists>c' b i. parsecmd (show_cmd c) = Parsed (c', b) i \<and> map_cmd (\<lambda>w. cstr b (fst w)) c' = c"
proof -
  let ?s = "show_cmd c" and ?f = "4 * length (show_cmd c) + 4"
  have "reads ?s c [] (parseline ?f ?s 0)"
    using reads_all [OF assms, of ?s] unfolding reads_line_def by (metis append_Nil2 drop_0)
  moreover have "parseline ?f ?s 0 \<noteq> Pfuel" by (rule parse_fuel(1)) simp
  ultimately obtain c' j where p: "parseline ?f ?s 0 = Parsed c' j" "map_cmd (word_str ?s) c' = c" "drop j ?s = []"
    by (auto simp: reads_def)
  then have j: "j = length ?s" using parse_le(1) by (metis drop_eq_Nil le_antisym zero_le)
  then have pe: "peek ?s j [] = (j, False)" by (simp add: peek_def skip_white_eq Let_def char_at_def)
  have ok: "list_all (word_ok ?s) (cmd_words c')" using parse_ok(1) [rule_format, OF p(1)] by (simp add: cmd_ok_def)
  have "map_cmd (\<lambda>w. cstr (nulterminate c' ?s) (fst w)) c' = map_cmd (word_str ?s) c'"
    using cstr_word [OF show_no_nul [OF assms] ok] by (intro cmd.map_cong refl) (simp add: set_cmd_words)
  then show ?thesis using p pe j by (intro exI [of _ c'] exI [of _ "nulterminate c' ?s"] exI [of _ j]) (simp add: parsecmd_def)
qed

theorem parse_show_witness:
  "\<exists>c' b i. parsecmd (show_cmd (PIPE (EXEC [''ls'']) (BACK (REDIR (EXEC [''wc'']) ''out'' 513 1)))) = Parsed (c', b) i
    \<and> map_cmd (\<lambda>w. cstr b (fst w)) c' = PIPE (EXEC [''ls'']) (BACK (REDIR (EXEC [''wc'']) ''out'' 513 1))"
  by (rule parse_show) (simp add: good_cmd_def good_word_def word_char_def whitespace_def symbols_def)

end
