(* ===== verification/Shell_Run.thy ===== *)
theory Shell_Run
  imports Shell_Parse
begin

text \<open>
  What the processes of a command do. A table of descriptors gives the meaning of the system
  calls \<open>runcmd\<close> of \<open>user/sh.c\<close> makes: \<open>open\<close>, \<open>dup\<close> and \<open>pipe\<close> take the lowest free descriptors, of 16, and a
  child has a copy of the table. \<open>life\<close> is all a process does from there on, with its children: what it opens,
  writes, starts and waits for, and the descriptors it has when it waits, ends, or becomes another program, for every
  outcome of the calls that can fail. \<open>plumb\<close> says what it should be.
\<close>

section \<open>Descriptors\<close>

datatype fobj = Tty | Opened string int | PipeR "nat list" | PipeW "nat list"

type_synonym fds = "int \<Rightarrow> fobj option"

definition free_fd :: "fds \<Rightarrow> int option" where
  "free_fd F = find (\<lambda>fd. F fd = None) (map int [0..<16])"

text \<open>
  The life of a process: it ends; it is replaced by a program, or goes on when \<open>exec\<close> fails; it starts a
  child and goes on, or goes on without one when \<open>fork\<close> fails; it waits for a child; \<open>open\<close> or \<open>pipe\<close> succeeds or
  fails; it writes; it changes its directory, or fails to.
\<close>

datatype life =
    Ends fds
  | Runs string "string list" fds life
  | Forks life life life
  | Waits fds life
  | Opens string int life life
  | Pipes life life
  | Writes int string life
  | Chdirs string life life

text \<open>
  A process is named by the way to it in the tree of processes, and a pipe by the process that
  made it and the number of forks and pipes before it; \<open>n\<close> counts those.
\<close>

primrec life_of :: "uprog \<Rightarrow> nat list \<Rightarrow> nat \<Rightarrow> fds \<Rightarrow> life" where
  "life_of Uexit path n F = Ends F"
| "life_of (Ucall c k) path n F =
     (let failed = life_of (k (- 1, 0, 0)) path n F
      in case c of
        Fork \<Rightarrow> Forks (life_of (k (0, 0, 0)) (n # path) 0 F) (life_of (k (1, 0, 0)) path (n + 1) F) failed
      | Wait \<Rightarrow> Waits F (life_of (k (1, 0, 0)) path n F)
      | Pipe \<Rightarrow>
          (case free_fd F of
             None \<Rightarrow> failed
           | Some p0 \<Rightarrow>
               (case free_fd (F(p0 \<mapsto> PipeR (n # path))) of
                  None \<Rightarrow> failed
                | Some p1 \<Rightarrow>
                    Pipes (life_of (k (0, p0, p1)) path (n + 1) (F(p0 \<mapsto> PipeR (n # path), p1 \<mapsto> PipeW (n # path)))) failed))
      | Close fd \<Rightarrow> life_of (k (if F fd = None then - 1 else 0, 0, 0)) path n (F(fd := None))
      | Dup fd \<Rightarrow>
          (case (F fd, free_fd F) of
             (Some f, Some fd') \<Rightarrow> life_of (k (fd', 0, 0)) path n (F(fd' \<mapsto> f))
           | _ \<Rightarrow> failed)
      | Exec file argv \<Rightarrow> Runs file argv F failed
      | Open file mode \<Rightarrow>
          (case free_fd F of
             None \<Rightarrow> failed
           | Some fd \<Rightarrow> Opens file mode (life_of (k (fd, 0, 0)) path n (F(fd \<mapsto> Opened file mode))) failed)
      | Write fd t \<Rightarrow> Writes fd t (life_of (k (int (length t), 0, 0)) path n F)
      | Chdir t \<Rightarrow> Chdirs t (life_of (k (0, 0, 0)) path n F) failed)"

text \<open>A message, one character at a time, and then the end.\<close>

definition complains :: "string \<Rightarrow> fds \<Rightarrow> life" where
  "complains t F = foldr (\<lambda>c. Writes 2 [c]) (t @ ''\<newline>'') (Ends F)"

text \<open>
  What a command should do. A program has the descriptors \<open>F\<close>; a redirection replaces one of them. Of a
  list the first command is done by a child, which is waited for before the second starts. The
  commands of a pipe are done by two children that have only the end of the pipe they use, in the place of
  descriptor 1 or 0, and the process that waits for both has neither. A command in the background is
  not waited for. A call that fails is reported, and ends the process.
\<close>

definition pipe_open :: "nat list \<Rightarrow> fds \<Rightarrow> fds" where
  "pipe_open q F =
     (case free_fd F of
        None \<Rightarrow> F
      | Some p0 \<Rightarrow> (case free_fd (F(p0 \<mapsto> PipeR q)) of None \<Rightarrow> F | Some p1 \<Rightarrow> F(p0 \<mapsto> PipeR q, p1 \<mapsto> PipeW q)))"

fun plumb :: "string cmd \<Rightarrow> nat list \<Rightarrow> nat \<Rightarrow> fds \<Rightarrow> life" where
  "plumb (EXEC ws) path n F =
     (if ws = [] then Ends F else Runs (hd ws) ws F (complains (''exec '' @ hd ws @ '' failed'') F))"
| "plumb (REDIR c w mode fd) path n F =
     Opens w mode (plumb c path n (F(fd \<mapsto> Opened w mode))) (complains (''open '' @ w @ '' failed'') (F(fd := None)))"
| "plumb (LIST l r) path n F =
     Forks (plumb l (n # path) 0 F) (Waits F (plumb r path (n + 1) F)) (complains ''fork'' F)"
| "plumb (PIPE l r) path n F =
     Pipes (Forks
         (plumb l ((n + 1) # path) 0 (F(1 \<mapsto> PipeW (n # path))))
         (Forks
           (plumb r ((n + 2) # path) 0 (F(0 \<mapsto> PipeR (n # path))))
           (Waits F (Waits F (Ends F)))
           (complains ''fork'' (pipe_open (n # path) F)))
         (complains ''fork'' (pipe_open (n # path) F)))
       (complains ''pipe'' F)"
| "plumb (BACK c) path n F = Forks (plumb c (n # path) 0 F) (Ends F) (complains ''fork'' F)"

section \<open>What the calls do\<close>

lemma free_fd_Some:
  assumes "free_fd F = Some fd"
  shows "F fd = None"
  using assms by (auto simp: free_fd_def find_Some_iff)

lemma free_fd_dom: "dom F = dom G \<Longrightarrow> free_fd F = free_fd G"
  unfolding free_fd_def by (metis domIff)

lemma free_fd_0: "F 0 = None \<Longrightarrow> free_fd F = Some 0"
  by (simp add: free_fd_def upt_conv_Cons)

lemma free_fd_1: "F 0 \<noteq> None \<Longrightarrow> F 1 = None \<Longrightarrow> free_fd F = Some 1"
  by (simp add: free_fd_def upt_conv_Cons)

text \<open>The shell's own situation: the first three descriptors are open, and there are two more.\<close>

definition std_fds :: "fds \<Rightarrow> bool" where
  "std_fds F \<longleftrightarrow> F 0 \<noteq> None \<and> F 1 \<noteq> None
     \<and> (\<exists>p0 p1. free_fd F = Some p0 \<and> (\<forall>x. free_fd (F(p0 \<mapsto> x)) = Some p1))"

lemma std_fds_upd: "std_fds F \<Longrightarrow> F fd \<noteq> None \<Longrightarrow> std_fds (F(fd \<mapsto> y))"
proof -
  assume a: "std_fds F" "F fd \<noteq> None"
  then have "free_fd (F(fd \<mapsto> y)) = free_fd F" "free_fd ((F(fd \<mapsto> y))(p \<mapsto> x)) = free_fd (F(p \<mapsto> x))" for p x
    by (auto intro!: free_fd_dom split: if_splits)
  then show ?thesis using a by (auto simp: std_fds_def)
qed

lemma life_puts: "life_of (uputs 2 (t @ ''\<newline>'') Uexit) path n F = complains t F"
proof -
  have "life_of (uputs 2 u Uexit) path n F = foldr (\<lambda>c. Writes 2 [c]) u (Ends F)" for u
    by (induction u) (simp_all add: uputs_def Let_def)
  then show ?thesis by (simp add: complains_def)
qed

lemma life_panic: "life_of (sh_panic t) path n F = complains t F"
  using life_puts by (simp add: sh_panic_def uprintf_def)

lemma life_fork1:
  "life_of (fork1 child parent) path n F =
     Forks (life_of child (n # path) 0 F) (life_of parent path (n + 1) F) (complains ''fork'' F)"
  by (simp add: fork1_def Let_def life_panic)

lemma life_redir:
  assumes "std_fds F" "fd = 0 \<or> fd = 1"
  shows "life_of (runcmd b (REDIR c w mode fd)) path n F =
    Opens (cstr b (fst w)) mode (life_of (runcmd b c) path n (F(fd \<mapsto> Opened (cstr b (fst w)) mode)))
      (complains (''open '' @ cstr b (fst w) @ '' failed'') (F(fd := None)))"
proof -
  have "free_fd (F(fd := None)) = Some fd"
    using assms free_fd_0 [of "F(fd := None)"] free_fd_1 [of "F(fd := None)"] by (auto simp: std_fds_def)
  then show ?thesis using assms(2) life_puts [of "''open '' @ cstr b (fst w) @ '' failed''"]
    by (cases w) (auto simp: Let_def uprintf_def)
qed

lemma life_pipe:
  assumes "std_fds F"
  shows "life_of (runcmd b (PIPE l r)) path n F =
    Pipes (Forks (life_of (runcmd b l) ((n + 1) # path) 0 (F(1 \<mapsto> PipeW (n # path))))
        (Forks (life_of (runcmd b r) ((n + 2) # path) 0 (F(0 \<mapsto> PipeR (n # path)))) (Waits F (Waits F (Ends F)))
          (complains ''fork'' (pipe_open (n # path) F)))
        (complains ''fork'' (pipe_open (n # path) F)))
      (complains ''pipe'' F)"
proof -
  let ?R = "PipeR (n # path)" and ?W = "PipeW (n # path)"
  obtain p0 p1 where p: "free_fd F = Some p0" "free_fd (F(p0 \<mapsto> ?R)) = Some p1" and o: "F 0 \<noteq> None" "F 1 \<noteq> None"
    using assms by (auto simp: std_fds_def)
  have q: "F p0 = None" "F p1 = None" "p0 \<noteq> p1" "p0 \<noteq> 0" "p0 \<noteq> 1" "p1 \<noteq> 0" "p1 \<noteq> 1"
    using free_fd_Some [OF p(1)] free_fd_Some [OF p(2)] o by (auto split: if_splits)
  let ?F = "F(p0 \<mapsto> ?R, p1 \<mapsto> ?W)"
  have d: "free_fd (?F(1 := None)) = Some 1" "free_fd (?F(0 := None)) = Some 0"
    using free_fd_1 [of "?F(1 := None)"] free_fd_0 [of "?F(0 := None)"] o q by auto
  have l: "((?F(1 := None))(1 \<mapsto> ?W))(p0 := None, p1 := None) = F(1 \<mapsto> ?W)" using q by auto
  have r: "((?F(0 := None))(0 \<mapsto> ?R))(p0 := None, p1 := None) = F(0 \<mapsto> ?R)" using q by auto
  have c: "?F(p0 := None, p1 := None) = F" using q by auto
  show ?thesis using p q d l r c by (simp add: life_fork1 life_panic Let_def pipe_open_def)
qed



text \<open>\<open>>>\<close> is read as \<open>>\<close>: the file is opened in the same mode, and written from its beginning.\<close>

lemma append_is_overwrite:
  "\<exists>b i. parsecmd ''a>>b'' = Parsed (REDIR (EXEC [(0, 1)]) (3, 4) (O_WRONLY + O_CREATE) 1, b) i"
proof -
  have "parsecmd ''a>>b'' = Parsed (REDIR (EXEC [(0, 1)]) (3, 4) (O_WRONLY + O_CREATE) 1, ''a'' @ nul # ''>b'') 4" by code_simp
  then show ?thesis by blast
qed

end
