(* ===== verification/Spec2Isabelle.thy ===== *)
theory Spec2Isabelle
  imports Trap Dir_Map Tag_Files Pipe_Queue Console_In Vm_Map Gates Mp Bootmain User_Text Umalloc Mkfs Shell_Show Shell_Run
begin

text \<open>
  A verification development for the xv6 teaching kernel with file tags. Source paths below are
  under \<open>src/xv6/\<close>.

  \<^bold>\<open>The program.\<close> The kernel runs processes (\<open>kernel/proc.c\<close>) in their own address spaces
  (\<open>kernel/vm.c\<close>, pages from \<open>kernel/kalloc.c\<close>). A system call or an interrupt enters at
  \<open>trap\<close> (\<open>kernel/trap.c\<close>), which dispatches through \<open>kernel/syscall.c\<close> to the handlers in
  \<open>kernel/sysproc.c\<close> and \<open>kernel/sysfile.c\<close>. These use open files (\<open>kernel/file.c\<close>), which are
  pipes (\<open>kernel/pipe.c\<close>), the console device (\<open>kernel/console.c\<close>) or inodes of the file system
  (\<open>kernel/fs.c\<close>). The file system keeps its blocks in the buffer cache (\<open>kernel/bio.c\<close>), which
  reads and writes them with the disk driver (\<open>kernel/ide.c\<close>). All shared data is protected by
  spin locks (\<open>kernel/spinlock.c\<close>), and waiting is \<open>sleep\<close> and \<open>wakeup\<close>. A tag is a key and a
  value kept in a block of its own for each file.

  \<^bold>\<open>How code is modelled.\<close> \<open>Xv6_Prelude\<close> has the C integer types as words of their width, objects
  in memory as functions from offsets to bytes, and the type \<open>('s, 'a) K\<close> of a kernel routine: a
  function from the state to an outcome. The routine returns (\<open>Done\<close>), panics, goes to sleep on a
  channel, ends the process, or loops for ever. The state is one record that grows from theory to
  theory: held locks, process table, physical memory, disk and buffers, console, inode cache, open
  files and pipes, page-table registers, ticks. A routine that can sleep is modelled up to the
  call of \<open>sleep\<close>; what it does when it is woken is a definition of its own (\<open>ilock_resume\<close>,
  \<open>iderw_wait\<close>, the loops of pipes and of the console). \<open>runs m s Q\<close> is total correctness: \<open>m\<close>
  returns in \<open>s\<close>, and \<open>Q\<close> holds of its result and of the new state. The statement of a property
  is therefore never satisfied by a routine that panics, sleeps or does not end.

  \<^bold>\<open>Around the kernel.\<close> \<open>kernel/bootmain.c\<close> loads the kernel, \<open>tools/mkfs.c\<close> builds the file system
  image, and the user programs run above the system calls: the library (\<open>user/ulib.c\<close>,
  \<open>user/printf.c\<close>, \<open>user/umalloc.c\<close>), the shell (\<open>user/sh.c\<close>) and the text tools. They are modelled
  with states of their own: the memory of the process, the bytes of its input and output, the tree
  of system calls it makes, the image.

  \<^bold>\<open>Theories.\<close>
  \<^item> \<open>Cstring\<close>: \<open>kernel/string.c\<close>, \<open>memmove\<close> and \<open>strcmp\<close> of \<open>user/ulib.c\<close>. Copies of overlapping
    ranges, comparison against padding, truncation.
  \<^item> \<open>Spinlock\<close>: \<open>kernel/spinlock.c\<close>, first with any number of CPUs and their interleavings (a step
    relation with its invariant), then as the list of locks one CPU holds, which the rest of the
    kernel uses. The first refines the second.
  \<^item> \<open>Proc_Table\<close>, \<open>Proc\<close>: \<open>kernel/proc.c\<close>. The scheduler as a step relation with its invariant,
    \<open>sleep\<close> and \<open>wakeup\<close>, \<open>kill\<close>; creation, \<open>fork\<close>, \<open>exit\<close>, \<open>wait\<close> as definitions.
  \<^item> \<open>Kalloc\<close>: \<open>kernel/kalloc.c\<close>, the free list threaded through the free pages.
  \<^item> \<open>Ide\<close>, \<open>Bio\<close>, \<open>Disk_State\<close>: \<open>kernel/ide.c\<close>, \<open>kernel/bio.c\<close>. The request queue is served in
    order; the cache shows each sector as it was last written. \<open>Disk_State\<close> sums this up in one
    assertion about the sectors a process sees, with one rule per operation.
  \<^item> \<open>Fs\<close>, \<open>Fs_Alloc\<close>, \<open>Fs_Inode\<close>, \<open>Fs_Content\<close>: \<open>kernel/fs.c\<close> up to \<open>writei\<close>: the free map, the
    inode cache, block map and file contents.
  \<^item> \<open>Fs_Dir\<close>, \<open>Dir_Map\<close>: directories and path names of \<open>kernel/fs.c\<close>. A directory is a map from
    names to inode numbers; the walk along a path is a definition only.
  \<^item> \<open>Tags\<close>, \<open>Tag_Map\<close>, \<open>Tag_Files\<close>: the tags of \<open>kernel/fs.c\<close>. A tag block is a map from keys to
    values, and the calls on an open file are its operations.
  \<^item> \<open>File\<close>, \<open>Ring\<close>, \<open>Pipe_Queue\<close>: \<open>kernel/file.c\<close>, \<open>kernel/pipe.c\<close>. The contract of a ring buffer
    with running counters is a locale, interpreted on the pipe.
  \<^item> \<open>Console\<close>, \<open>Console_Dev\<close>, \<open>Console_Out\<close>, \<open>Console_In\<close>: \<open>kernel/console.c\<close>, \<open>kernel/uart.c\<close>,
    \<open>kernel/kbd.c\<close>. Formatting, and the interrupt handlers as an editor of lines.
  \<^item> \<open>Vm\<close>, \<open>Vm_Map\<close>, \<open>Exec\<close>: \<open>kernel/vm.c\<close>, \<open>kernel/exec.c\<close>. \<open>Vm_Map\<close> relates the page tables that
    \<open>mappages\<close> writes to the translation the hardware makes.
  \<^item> \<open>Syscall\<close>, \<open>Sysfile\<close>, \<open>Trap\<close>: \<open>kernel/syscall.c\<close>, \<open>kernel/sysfile.c\<close>, \<open>kernel/sysproc.c\<close>,
    \<open>kernel/trap.c\<close>, as definitions.
  \<^item> \<open>Gates\<close>: the segment and gate descriptors of \<open>kernel/mmu.h\<close>, \<open>kernel/vm.c\<close>, \<open>kernel/trap.c\<close>, with
    the words the processor reads.
  \<^item> \<open>Intr_Ctl\<close>: \<open>kernel/picirq.c\<close>, \<open>kernel/ioapic.c\<close>, \<open>kernel/lapic.c\<close>, \<open>kernel/timer.c\<close> and
    \<open>uartinit\<close>: what is written to the devices, in order, and which lines are open afterwards.
  \<^item> \<open>Mp\<close>: \<open>kernel/mp.c\<close>, the search for the tables of the processors and their reading.
  \<^item> \<open>Bootmain\<close>: \<open>kernel/bootmain.c\<close>, from the sectors of the disk to the segments in memory.
  \<^item> \<open>Mkfs\<close>: \<open>tools/mkfs.c\<close>. The image holds the tree of host files, stated over the kernel's own
    view of a disk (\<open>Fs_Alloc\<close> to \<open>Fs_Content\<close>).
  \<^item> \<open>User_Lib\<close>, \<open>User_Text\<close>: \<open>user/ulib.c\<close>, \<open>user/printf.c\<close>; \<open>user/cat.c\<close>, \<open>user/wc.c\<close>, \<open>user/grep.c\<close>.
  \<^item> \<open>Umalloc\<close>: \<open>user/umalloc.c\<close>, the circular list of free blocks in the memory of the process, over
    any sequence of calls; \<open>sbrk\<close> is an argument.
  \<^item> \<open>Shell\<close>, \<open>Shell_Parse\<close>, \<open>Shell_Show\<close>, \<open>Shell_Run\<close>: \<open>user/sh.c\<close>. The parser ends and leaves
    terminated words, reads back a printed command, and \<open>runcmd\<close> connects the programs it starts.

  \<^bold>\<open>Bounds.\<close> A loop over a linked list in memory carries a bound where the list might be cyclic: the
  number of buffers for the disk queue and the buffer list. The invariants of \<open>Ide\<close> and \<open>Bio\<close>
  show that it is never reached; reaching it counts as looping for ever. The loop over the characters
  of a console interrupt and the parser of the shell carry a bound too, and the properties show
  a bound that is enough. The loops of \<open>Mp\<close>, \<open>Bootmain\<close> and \<open>Umalloc\<close> are partial functions, of
  which the properties show that they return.

  \<^bold>\<open>Not modelled.\<close> The order in which \<open>kernel/main.c\<close> calls the initialisations and its start of the
  other processors, which hands them machine code; the assembly files and the scripts of the build;
  the small user programs, a few system calls each; \<open>user/usertests.c\<close>, whose subject is the kernel.
  The waits for the disk controller and for the delivery of an interrupt command are taken to end,
  and so are the host's file operations of \<open>mkfs\<close> to succeed.
\<close>

end
